(* ===== verification/Prelude.thy ===== *)
theory Prelude
  imports "HOL-Library.Word"
begin

text \<open>
  Shared vocabulary of the development: the C integer types of
  \<^verbatim>\<open>kernel/types.h\<close> as fixed-width words, the outcome of running a piece of kernel code,
  the state-passing combinators every component is written with, the loops the kernel uses over
  its static tables, and generic lemmas on lists and functions.

  Running kernel code from a state either returns a value and a new state (\<open>Ok\<close>), calls
  \<^verbatim>\<open>panic\<close> (\<open>Panic\<close>, with the message), gives the processor away inside
  \<^verbatim>\<open>sched\<close> (\<open>Blocked\<close>, with the state at the call of \<^verbatim>\<open>swtch\<close>), or spins
  for ever (\<open>Hang\<close>: a lock that nobody will release while this code runs, or the loop after
  a panic).
\<close>

unbundle bit_operations_syntax

section \<open>C integer types\<close>

type_synonym uchar = "8 word"
type_synonym ushort = "16 word"
type_synonym uint = "32 word"
type_synonym uint64 = "64 word"
type_synonym addr = "64 word"

section \<open>Outcomes and the kernel monad\<close>

datatype ('a, 's) outcome =
    Ok 'a 's
  | Panic string
  | Blocked 's
  | Hang

type_synonym ('a, 's) kop = "'s \<Rightarrow> ('a, 's) outcome"

definition ret :: "'a \<Rightarrow> ('a, 's) kop" where
  "ret x = (\<lambda>s. Ok x s)"

definition bnd :: "('a, 's) kop \<Rightarrow> ('a \<Rightarrow> ('b, 's) kop) \<Rightarrow> ('b, 's) kop" where
  "bnd m f = (\<lambda>s. case m s of
       Ok x t \<Rightarrow> f x t
     | Panic e \<Rightarrow> Panic e
     | Blocked t \<Rightarrow> Blocked t
     | Hang \<Rightarrow> Hang)"

definition thn :: "(unit, 's) kop \<Rightarrow> ('b, 's) kop \<Rightarrow> ('b, 's) kop" where
  "thn m n = bnd m (\<lambda>_. n)"

definition gets :: "('s \<Rightarrow> 'a) \<Rightarrow> ('a, 's) kop" where
  "gets f = (\<lambda>s. Ok (f s) s)"

definition modify :: "('s \<Rightarrow> 's) \<Rightarrow> (unit, 's) kop" where
  "modify f = (\<lambda>s. Ok () (f s))"

definition kpanic :: "string \<Rightarrow> ('a, 's) kop" where
  "kpanic msg = (\<lambda>_. Panic msg)"

definition whenk :: "bool \<Rightarrow> (unit, 's) kop \<Rightarrow> (unit, 's) kop" where
  "whenk c m = (if c then m else ret ())"

text \<open>
  A \<^verbatim>\<open>for\<close> loop over a static table: \<open>for_each\<close> runs to the end, \<open>for_until\<close>
  stops at the first element whose body answers \<open>Some\<close> (a \<^verbatim>\<open>return\<close>, \<^verbatim>\<open>goto\<close> or
  \<^verbatim>\<open>break\<close> out of the loop).
\<close>

fun for_each :: "'b list \<Rightarrow> ('b \<Rightarrow> (unit, 's) kop) \<Rightarrow> (unit, 's) kop" where
  "for_each [] f = ret ()"
| "for_each (x # xs) f = thn (f x) (for_each xs f)"

fun for_until :: "'b list \<Rightarrow> ('b \<Rightarrow> ('r option, 's) kop) \<Rightarrow> ('r option, 's) kop" where
  "for_until [] f = ret None"
| "for_until (x # xs) f =
     bnd (f x) (\<lambda>r. case r of Some v \<Rightarrow> ret (Some v) | None \<Rightarrow> for_until xs f)"

named_theorems kop_simps "evaluation rules of the kernel monad"

lemma ret_apply [kop_simps, simp]: "ret x s = Ok x s"
  by (simp add: ret_def)

lemma gets_apply [kop_simps, simp]: "gets f s = Ok (f s) s"
  by (simp add: gets_def)

lemma modify_apply [kop_simps, simp]: "modify f s = Ok () (f s)"
  by (simp add: modify_def)

lemma kpanic_apply [kop_simps, simp]: "kpanic msg s = Panic msg"
  by (simp add: kpanic_def)

lemma bnd_apply [kop_simps]:
  "bnd m f s = (case m s of Ok x t \<Rightarrow> f x t | Panic e \<Rightarrow> Panic e | Blocked t \<Rightarrow> Blocked t | Hang \<Rightarrow> Hang)"
  by (simp add: bnd_def)

lemma thn_apply [kop_simps]:
  "thn m n s = (case m s of Ok x t \<Rightarrow> n t | Panic e \<Rightarrow> Panic e | Blocked t \<Rightarrow> Blocked t | Hang \<Rightarrow> Hang)"
  by (simp add: thn_def bnd_def)

lemma whenk_apply [kop_simps]: "whenk c m s = (if c then m s else Ok () s)"
  by (simp add: whenk_def)

lemma bnd_Ok [simp]: "m s = Ok x t \<Longrightarrow> bnd m f s = f x t"
  by (simp add: bnd_def)

lemma bnd_Panic [simp]: "m s = Panic e \<Longrightarrow> bnd m f s = Panic e"
  by (simp add: bnd_def)

lemma bnd_Blocked [simp]: "m s = Blocked t \<Longrightarrow> bnd m f s = Blocked t"
  by (simp add: bnd_def)

lemma bnd_Hang [simp]: "m s = Hang \<Longrightarrow> bnd m f s = Hang"
  by (simp add: bnd_def)

lemma thn_Ok [simp]: "m s = Ok x t \<Longrightarrow> thn m n s = n t"
  by (simp add: thn_def)

lemma thn_Panic [simp]: "m s = Panic e \<Longrightarrow> thn m n s = Panic e"
  by (simp add: thn_def)

lemma bnd_eq_Ok: "bnd m f s = Ok y u \<longleftrightarrow> (\<exists>x t. m s = Ok x t \<and> f x t = Ok y u)"
  by (cases "m s") (simp_all add: bnd_def)

lemma thn_eq_Ok: "thn m n s = Ok y u \<longleftrightarrow> (\<exists>t. m s = Ok () t \<and> n t = Ok y u)"
  by (simp add: thn_def bnd_eq_Ok)

lemma for_each_append:
  "for_each (xs @ ys) f s = thn (for_each xs f) (for_each ys f) s"
proof (induction xs arbitrary: s)
  case Nil
  then show ?case by (simp add: kop_simps)
next
  case (Cons x xs)
  then show ?case by (auto simp: kop_simps split: outcome.splits)
qed

text \<open>
  A \<open>for_each\<close> loop whose body is a total state update is a fold of that update, as long as an
  invariant that makes the body succeed is kept.
\<close>

lemma for_each_fold:
  assumes "\<And>x s. x \<in> set xs \<Longrightarrow> P s \<Longrightarrow> f x s = Ok () (g x s)"
    and "\<And>x s. x \<in> set xs \<Longrightarrow> P s \<Longrightarrow> P (g x s)"
    and "P s"
  shows "for_each xs f s = Ok () (fold g xs s) \<and> P (fold g xs s)"
  using assms
proof (induction xs arbitrary: s)
  case Nil
  then show ?case by simp
next
  case (Cons x xs)
  have "f x s = Ok () (g x s)" and "P (g x s)"
    using Cons.prems by auto
  moreover have "for_each xs f (g x s) = Ok () (fold g xs (g x s)) \<and> P (fold g xs (g x s))"
    using Cons.prems \<open>P (g x s)\<close> by (intro Cons.IH) auto
  ultimately show ?case by simp
qed

text \<open>
  A \<open>for_until\<close> loop whose body only updates the state on the element that stops it: the search
  finds the first element that satisfies the test.
\<close>

lemma for_until_find:
  assumes "\<And>x s. x \<in> set xs \<Longrightarrow> P s \<Longrightarrow> \<not> test x s \<Longrightarrow> f x s = Ok None (skip s)"
    and "\<And>x s. x \<in> set xs \<Longrightarrow> P s \<Longrightarrow> test x s \<Longrightarrow> f x s = hit x s"
    and "\<And>s. P s \<Longrightarrow> P (skip s)"
    and "\<And>s. P s \<Longrightarrow> skip (skip s) = skip s"
    and "\<And>x s. x \<in> set xs \<Longrightarrow> P s \<Longrightarrow> test x (skip s) = test x s"
    and "\<And>x s. x \<in> set xs \<Longrightarrow> P s \<Longrightarrow> hit x (skip s) = hit x s"
    and "\<And>x s t r. x \<in> set xs \<Longrightarrow> P s \<Longrightarrow> hit x s = Ok r t \<Longrightarrow> \<exists>v. r = Some v"
    and "P s"
  shows "for_until xs f s =
    (case List.find (\<lambda>x. test x s) xs of
       None \<Rightarrow> Ok None (if xs = [] then s else skip s)
     | Some x \<Rightarrow> hit x s)"
  using assms
proof (induction xs arbitrary: s)
  case Nil
  then show ?case by simp
next
  case (Cons x xs)
  show ?case
  proof (cases "test x s")
    case True
    then have hit: "f x s = hit x s" using Cons.prems by simp
    then show ?thesis
    proof (cases "hit x s")
      case (Ok r t)
      with Cons.prems(7) [of x s r t] Cons.prems(8) obtain v where "r = Some v" by auto
      with hit Ok True show ?thesis by (simp add: kop_simps)
    qed (use hit True in \<open>simp_all add: kop_simps\<close>)
  next
    case False
    then have skip: "f x s = Ok None (skip s)" using Cons.prems by simp
    have IH: "for_until xs f (skip s) =
      (case List.find (\<lambda>x. test x (skip s)) xs of
         None \<Rightarrow> Ok None (if xs = [] then skip s else skip (skip s))
       | Some x \<Rightarrow> hit x (skip s))"
      by (rule Cons.IH) (rule Cons.prems; simp add: Cons.prems(8))+
    have same: "List.find (\<lambda>x. test x (skip s)) xs = List.find (\<lambda>x. test x s) xs"
      using Cons.prems by (intro find_cong) auto
    have "hit y (skip s) = hit y s" if "y \<in> set xs" for y
      using Cons.prems that by simp
    moreover have "y \<in> set xs" if "List.find (\<lambda>x. test x s) xs = Some y" for y
      using that by (auto simp: find_Some_iff)
    ultimately show ?thesis
      using False skip IH same Cons.prems by (auto simp: kop_simps split: option.splits)
  qed
qed

section \<open>Integers as bytes\<close>

text \<open>
  RISC-V is little-endian: the first byte in memory is the least significant. \<open>le_bytes n w\<close> is
  the \<open>n\<close>-byte representation of \<open>w\<close> and \<open>le_word\<close> reads one back.
\<close>

primrec le_bytes :: "nat \<Rightarrow> 'a::len word \<Rightarrow> uchar list" where
  "le_bytes 0 w = []"
| "le_bytes (Suc n) w = ucast w # le_bytes n (drop_bit 8 w)"

primrec le_word :: "uchar list \<Rightarrow> 'a::len word" where
  "le_word [] = 0"
| "le_word (b # bs) = ucast b OR push_bit 8 (le_word bs)"

lemma length_le_bytes [simp]: "length (le_bytes n w) = n"
  by (induction n arbitrary: w) simp_all

lemma le_word_le_bytes: "le_word (le_bytes n w) = take_bit (8 * n) (w :: 'a::len word)"
proof (induction n arbitrary: w)
  case 0
  then show ?case by simp
next
  case (Suc n)
  show ?case
    unfolding le_bytes.simps le_word.simps Suc.IH
    by (rule bit_word_eqI) (auto simp: bit_simps)
qed

lemma le_bytes_take:
  "8 * k + 8 \<le> LENGTH('a) \<Longrightarrow> 8 * k \<le> m \<Longrightarrow> le_bytes k (take_bit m w) = le_bytes k (w :: 'a::len word)"
proof (induction k arbitrary: w m)
  case 0
  then show ?case by simp
next
  case (Suc k)
  have "ucast (take_bit m w) = (ucast w :: uchar)"
    using Suc.prems by (intro bit_word_eqI) (auto simp: bit_simps)
  moreover have "drop_bit 8 (take_bit m w) = take_bit (m - 8) (drop_bit 8 w)"
    by (rule bit_word_eqI) (auto simp: bit_simps)
  ultimately show ?case
    using Suc.IH [of "m - 8" "drop_bit 8 w"] Suc.prems by simp
qed

lemma le_bytes_le_word:
  "length bs = n \<Longrightarrow> 8 * n \<le> LENGTH('a) \<Longrightarrow> le_bytes n (le_word bs :: 'a::len word) = bs"
proof (induction bs arbitrary: n)
  case Nil
  then show ?case by simp
next
  case (Cons b bs)
  then obtain k where n: "n = Suc k" and k: "length bs = k" "8 * k + 8 \<le> LENGTH('a)"
    by auto
  have "ucast (le_word (b # bs) :: 'a word) = b"
    using k by (intro bit_word_eqI) (auto simp: bit_simps)
  moreover have "le_bytes k (drop_bit 8 (le_word (b # bs)) :: 'a word) = le_bytes k (take_bit (LENGTH('a) - 8) (le_word bs) :: 'a word)"
    using k by (intro arg_cong [where f = "le_bytes k"] bit_word_eqI) (auto simp: bit_simps dest: bit_imp_le_length)
  moreover have "le_bytes k (take_bit (LENGTH('a) - 8) w) = le_bytes k w" for w :: "'a word"
    using k(2) by (intro le_bytes_take) simp_all
  ultimately show ?case
    using Cons.IH [OF k(1)] k n by simp
qed

lemma sint_nonnegative: "0 \<le> sint x \<Longrightarrow> sint x = uint x" for x :: uint
proof -
  assume pos: "0 \<le> sint x"
  have "uint (word_of_int (sint x) :: uint) = sint x mod 2 ^ 32" by (simp only: uint_word_of_int) simp
  moreover have "sint x mod 2 ^ 32 = sint x" using pos sint_less [of x] by (intro mod_pos_pos_trivial) simp_all
  ultimately show ?thesis by simp
qed

section \<open>Invariants of step relations\<close>

text \<open>
  The interface between a step relation and its safety proof: a predicate that holds initially
  and that every step keeps holds in every reachable state.
\<close>

locale inductive_invariant =
  fixes init :: "'s \<Rightarrow> bool"
    and step :: "'s \<Rightarrow> 's \<Rightarrow> bool"
    and inv :: "'s \<Rightarrow> bool"
  assumes init_inv: "init s \<Longrightarrow> inv s"
    and step_inv: "inv s \<Longrightarrow> step s t \<Longrightarrow> inv t"
begin

lemma steps_inv: "rtranclp step s t \<Longrightarrow> inv s \<Longrightarrow> inv t"
  by (induction rule: rtranclp_induct) (auto intro: step_inv)

lemma reachable_inv: "init s \<Longrightarrow> rtranclp step s t \<Longrightarrow> inv t"
  using steps_inv init_inv by blast

end

end
