(* ===== verification/Machine.thy ===== *)
theory Machine
  imports Prelude
begin

text \<open>
  The machine a piece of kernel code runs on: the control and status registers of the hart
  that executes it (\<^verbatim>\<open>kernel/riscv.h\<close>), the per-CPU structures \<^verbatim>\<open>cpus[]\<close> of
  \<^verbatim>\<open>kernel/proc.h\<close>, every spin lock of the kernel, and the addresses the linker script
  provides. The accessors \<^verbatim>\<open>r_x\<close> and \<^verbatim>\<open>w_x\<close> are the inline functions of
  \<^verbatim>\<open>riscv.h\<close>.

  \<open>kst\<close> is the root of the kernel's state record. Later theories extend it with the fields of
  their component; every operation is polymorphic in the extension.
\<close>

section \<open>State\<close>

record csrs =
  mhartid :: uint64
  mstatus :: uint64
  mepc :: uint64
  sstatus :: uint64
  sip :: uint64
  sie :: uint64
  mie :: uint64
  sepc :: uint64
  medeleg :: uint64
  mideleg :: uint64
  stvec :: uint64
  mtvec :: uint64
  satp :: uint64
  sscratch :: uint64
  mscratch :: uint64
  scause :: uint64
  stval :: uint64
  mcounteren :: uint64
  time_csr :: uint64
  tp :: uint64

record cpu =
  proc :: "nat option"
  noff :: int
  intena :: bool

text \<open>One identifier per spin lock variable of the kernel.\<close>

datatype lockid =
    LkKmem | LkPid | LkProc nat | LkWait | LkBcache | LkLog | LkIcache | LkFtable
  | LkPipe addr | LkCons | LkUart | LkTicks | LkDisk | LkPr
  | LkBufSleep nat | LkInodeSleep nat

record spinlock =
  locked :: uint
  name :: string
  lcpu :: "nat option"

record symbols =
  sym_end :: addr
  sym_etext :: addr
  sym_trampoline :: addr
  sym_uservec :: addr
  sym_userret :: addr
  sym_kernelvec :: addr
  sym_usertrap :: addr
  sym_forkret :: addr
  sym_timervec :: addr
  sym_main :: addr
  sym_mscratch0 :: addr
  sym_disk_pages :: addr

record machine =
  csr :: csrs
  cpus :: "nat \<Rightarrow> cpu"
  locks :: "lockid \<Rightarrow> spinlock"
  syms :: symbols

record kst =
  mach :: machine

section \<open>Control and status registers (riscv.h)\<close>

definition get_csr :: "(csrs \<Rightarrow> 'a) \<Rightarrow> ('a, 'z kst_scheme) kop" where
  "get_csr f = gets (\<lambda>s. f (csr (mach s)))"

definition upd_csr :: "(csrs \<Rightarrow> csrs) \<Rightarrow> (unit, 'z kst_scheme) kop" where
  "upd_csr f = modify (\<lambda>s. s\<lparr>mach := (mach s)\<lparr>csr := f (csr (mach s))\<rparr>\<rparr>)"

definition r_mhartid :: "(uint64, 'z kst_scheme) kop" where "r_mhartid = get_csr mhartid"

definition MSTATUS_MPP_MASK :: uint64 where "MSTATUS_MPP_MASK = push_bit 11 3"
definition MSTATUS_MPP_M :: uint64 where "MSTATUS_MPP_M = push_bit 11 3"
definition MSTATUS_MPP_S :: uint64 where "MSTATUS_MPP_S = push_bit 11 1"
definition MSTATUS_MPP_U :: uint64 where "MSTATUS_MPP_U = push_bit 11 0"
definition MSTATUS_MIE :: uint64 where "MSTATUS_MIE = push_bit 3 1"

definition r_mstatus :: "(uint64, 'z kst_scheme) kop" where "r_mstatus = get_csr mstatus"
definition w_mstatus :: "uint64 \<Rightarrow> (unit, 'z kst_scheme) kop" where
  "w_mstatus x = upd_csr (\<lambda>c. c\<lparr>mstatus := x\<rparr>)"
definition w_mepc :: "uint64 \<Rightarrow> (unit, 'z kst_scheme) kop" where
  "w_mepc x = upd_csr (\<lambda>c. c\<lparr>mepc := x\<rparr>)"

definition SSTATUS_SPP :: uint64 where "SSTATUS_SPP = push_bit 8 1"
definition SSTATUS_SPIE :: uint64 where "SSTATUS_SPIE = push_bit 5 1"
definition SSTATUS_UPIE :: uint64 where "SSTATUS_UPIE = push_bit 4 1"
definition SSTATUS_SIE :: uint64 where "SSTATUS_SIE = push_bit 1 1"
definition SSTATUS_UIE :: uint64 where "SSTATUS_UIE = push_bit 0 1"

definition r_sstatus :: "(uint64, 'z kst_scheme) kop" where "r_sstatus = get_csr sstatus"
definition w_sstatus :: "uint64 \<Rightarrow> (unit, 'z kst_scheme) kop" where
  "w_sstatus x = upd_csr (\<lambda>c. c\<lparr>sstatus := x\<rparr>)"
definition r_sip :: "(uint64, 'z kst_scheme) kop" where "r_sip = get_csr sip"
definition w_sip :: "uint64 \<Rightarrow> (unit, 'z kst_scheme) kop" where
  "w_sip x = upd_csr (\<lambda>c. c\<lparr>sip := x\<rparr>)"

definition SIE_SEIE :: uint64 where "SIE_SEIE = push_bit 9 1"
definition SIE_STIE :: uint64 where "SIE_STIE = push_bit 5 1"
definition SIE_SSIE :: uint64 where "SIE_SSIE = push_bit 1 1"

definition r_sie :: "(uint64, 'z kst_scheme) kop" where "r_sie = get_csr sie"
definition w_sie :: "uint64 \<Rightarrow> (unit, 'z kst_scheme) kop" where
  "w_sie x = upd_csr (\<lambda>c. c\<lparr>sie := x\<rparr>)"

definition MIE_MEIE :: uint64 where "MIE_MEIE = push_bit 11 1"
definition MIE_MTIE :: uint64 where "MIE_MTIE = push_bit 7 1"
definition MIE_MSIE :: uint64 where "MIE_MSIE = push_bit 3 1"

definition r_mie :: "(uint64, 'z kst_scheme) kop" where "r_mie = get_csr mie"
definition w_mie :: "uint64 \<Rightarrow> (unit, 'z kst_scheme) kop" where
  "w_mie x = upd_csr (\<lambda>c. c\<lparr>mie := x\<rparr>)"
definition w_sepc :: "uint64 \<Rightarrow> (unit, 'z kst_scheme) kop" where
  "w_sepc x = upd_csr (\<lambda>c. c\<lparr>sepc := x\<rparr>)"
definition r_sepc :: "(uint64, 'z kst_scheme) kop" where "r_sepc = get_csr sepc"
definition r_medeleg :: "(uint64, 'z kst_scheme) kop" where "r_medeleg = get_csr medeleg"
definition w_medeleg :: "uint64 \<Rightarrow> (unit, 'z kst_scheme) kop" where
  "w_medeleg x = upd_csr (\<lambda>c. c\<lparr>medeleg := x\<rparr>)"
definition r_mideleg :: "(uint64, 'z kst_scheme) kop" where "r_mideleg = get_csr mideleg"
definition w_mideleg :: "uint64 \<Rightarrow> (unit, 'z kst_scheme) kop" where
  "w_mideleg x = upd_csr (\<lambda>c. c\<lparr>mideleg := x\<rparr>)"
definition w_stvec :: "uint64 \<Rightarrow> (unit, 'z kst_scheme) kop" where
  "w_stvec x = upd_csr (\<lambda>c. c\<lparr>stvec := x\<rparr>)"
definition r_stvec :: "(uint64, 'z kst_scheme) kop" where "r_stvec = get_csr stvec"
definition w_mtvec :: "uint64 \<Rightarrow> (unit, 'z kst_scheme) kop" where
  "w_mtvec x = upd_csr (\<lambda>c. c\<lparr>mtvec := x\<rparr>)"

definition SATP_SV39 :: uint64 where "SATP_SV39 = push_bit 60 8"
definition MAKE_SATP :: "uint64 \<Rightarrow> uint64" where
  "MAKE_SATP pagetable = SATP_SV39 OR drop_bit 12 pagetable"

definition w_satp :: "uint64 \<Rightarrow> (unit, 'z kst_scheme) kop" where
  "w_satp x = upd_csr (\<lambda>c. c\<lparr>satp := x\<rparr>)"
definition r_satp :: "(uint64, 'z kst_scheme) kop" where "r_satp = get_csr satp"
definition w_sscratch :: "uint64 \<Rightarrow> (unit, 'z kst_scheme) kop" where
  "w_sscratch x = upd_csr (\<lambda>c. c\<lparr>sscratch := x\<rparr>)"
definition w_mscratch :: "uint64 \<Rightarrow> (unit, 'z kst_scheme) kop" where
  "w_mscratch x = upd_csr (\<lambda>c. c\<lparr>mscratch := x\<rparr>)"
definition r_scause :: "(uint64, 'z kst_scheme) kop" where "r_scause = get_csr scause"
definition r_stval :: "(uint64, 'z kst_scheme) kop" where "r_stval = get_csr stval"
definition w_mcounteren :: "uint64 \<Rightarrow> (unit, 'z kst_scheme) kop" where
  "w_mcounteren x = upd_csr (\<lambda>c. c\<lparr>mcounteren := x\<rparr>)"
definition r_mcounteren :: "(uint64, 'z kst_scheme) kop" where "r_mcounteren = get_csr mcounteren"
definition r_time :: "(uint64, 'z kst_scheme) kop" where "r_time = get_csr time_csr"

definition intr_on :: "(unit, 'z kst_scheme) kop" where
  "intr_on = bnd r_sstatus (\<lambda>x. w_sstatus (x OR SSTATUS_SIE))"

definition intr_off :: "(unit, 'z kst_scheme) kop" where
  "intr_off = bnd r_sstatus (\<lambda>x. w_sstatus (x AND NOT SSTATUS_SIE))"

definition intr_get :: "(bool, 'z kst_scheme) kop" where
  "intr_get = bnd r_sstatus (\<lambda>x. ret (x AND SSTATUS_SIE \<noteq> 0))"

definition r_tp :: "(uint64, 'z kst_scheme) kop" where "r_tp = get_csr tp"
definition w_tp :: "uint64 \<Rightarrow> (unit, 'z kst_scheme) kop" where
  "w_tp x = upd_csr (\<lambda>c. c\<lparr>tp := x\<rparr>)"

section \<open>Which CPU is this? (proc.c)\<close>

definition cpuid :: "(nat, 'z kst_scheme) kop" where
  "cpuid = bnd r_tp (\<lambda>id. ret (unat id))"

definition mycpu :: "(nat, 'z kst_scheme) kop" where
  "mycpu = bnd cpuid ret"

definition get_cpu :: "nat \<Rightarrow> (cpu \<Rightarrow> 'a) \<Rightarrow> ('a, 'z kst_scheme) kop" where
  "get_cpu c f = gets (\<lambda>s. f (cpus (mach s) c))"

definition upd_cpu :: "nat \<Rightarrow> (cpu \<Rightarrow> cpu) \<Rightarrow> (unit, 'z kst_scheme) kop" where
  "upd_cpu c f = modify (\<lambda>s. s\<lparr>mach := (mach s)\<lparr>cpus := (cpus (mach s))(c := f (cpus (mach s) c))\<rparr>\<rparr>)"

definition get_lock :: "lockid \<Rightarrow> (spinlock \<Rightarrow> 'a) \<Rightarrow> ('a, 'z kst_scheme) kop" where
  "get_lock lk f = gets (\<lambda>s. f (locks (mach s) lk))"

definition upd_lock :: "lockid \<Rightarrow> (spinlock \<Rightarrow> spinlock) \<Rightarrow> (unit, 'z kst_scheme) kop" where
  "upd_lock lk f = modify (\<lambda>s. s\<lparr>mach := (mach s)\<lparr>locks := (locks (mach s))(lk := f (locks (mach s) lk))\<rparr>\<rparr>)"

section \<open>Evaluation rules\<close>

lemmas csr_defs = r_mhartid_def r_mstatus_def w_mstatus_def w_mepc_def r_sstatus_def w_sstatus_def
  r_sip_def w_sip_def r_sie_def w_sie_def r_mie_def w_mie_def w_sepc_def r_sepc_def r_medeleg_def
  w_medeleg_def r_mideleg_def w_mideleg_def w_stvec_def r_stvec_def w_mtvec_def w_satp_def
  r_satp_def w_sscratch_def w_mscratch_def r_scause_def r_stval_def w_mcounteren_def
  r_mcounteren_def r_time_def r_tp_def w_tp_def get_csr_def upd_csr_def

definition this_cpu :: "machine \<Rightarrow> nat" where
  "this_cpu m = unat (tp (csr m))"

definition sie_on :: "machine \<Rightarrow> bool" where
  "sie_on m \<longleftrightarrow> sstatus (csr m) AND SSTATUS_SIE \<noteq> 0"

lemma intr_get_apply [simp]: "intr_get s = Ok (sie_on (mach s)) s"
  by (simp add: intr_get_def csr_defs kop_simps sie_on_def)

lemma mycpu_apply [simp]: "mycpu s = Ok (this_cpu (mach s)) s"
  by (simp add: mycpu_def cpuid_def csr_defs kop_simps this_cpu_def)

lemma cpuid_apply [simp]: "cpuid s = Ok (this_cpu (mach s)) s"
  by (simp add: cpuid_def csr_defs kop_simps this_cpu_def)

lemma get_cpu_apply [simp]: "get_cpu c f s = Ok (f (cpus (mach s) c)) s"
  by (simp add: get_cpu_def)

lemma get_lock_apply [simp]: "get_lock lk f s = Ok (f (locks (mach s) lk)) s"
  by (simp add: get_lock_def)

lemma SSTATUS_SIE_iff: "x AND SSTATUS_SIE \<noteq> 0 \<longleftrightarrow> bit x 1"
  using and_exp_eq_0_iff_not_bit [of x 1] by (simp add: SSTATUS_SIE_def push_bit_eq_mult)

lemma bit_SSTATUS_SIE: "bit SSTATUS_SIE n \<longleftrightarrow> n = 1"
  by (auto simp: SSTATUS_SIE_def bit_simps)

lemma sie_off_on:
  "(x AND NOT SSTATUS_SIE) AND SSTATUS_SIE = 0"
  "(x OR SSTATUS_SIE) AND SSTATUS_SIE \<noteq> 0"
  using SSTATUS_SIE_iff [of "x AND NOT SSTATUS_SIE"] SSTATUS_SIE_iff [of "x OR SSTATUS_SIE"]
  by (simp_all add: bit_simps bit_SSTATUS_SIE)

lemma sie_restore:
  "x AND SSTATUS_SIE \<noteq> 0 \<Longrightarrow> (x AND NOT SSTATUS_SIE) OR SSTATUS_SIE = x"
  "x AND SSTATUS_SIE = 0 \<Longrightarrow> x AND NOT SSTATUS_SIE = x"
  using SSTATUS_SIE_iff [of x]
  by (auto intro!: bit_word_eqI simp: bit_simps bit_SSTATUS_SIE)

end
