(* ===== verification/Spinlock.thy ===== *)
theory Spinlock
  imports Machine
begin

text \<open>
  Spin locks (\<^verbatim>\<open>kernel/spinlock.c\<close>): the operations as the code performs them on one hart, and
  the interleaving of \<^verbatim>\<open>acquire\<close> and \<^verbatim>\<open>release\<close> by any number of harts as a step relation.

  Sequentially, a critical section that finds its lock free leaves the machine as it was but for
  \<^verbatim>\<open>intena\<close>, which \<^verbatim>\<open>push_off\<close> sets whenever it disables interrupts at depth zero: this
  residue is \<open>m_note\<close>, and the lemmas of the bundle \<open>mach_simps\<close> rewrite every bracketed
  critical section to it.
\<close>

section \<open>Operations\<close>

definition initlock :: "lockid \<Rightarrow> string \<Rightarrow> (unit, 'z kst_scheme) kop" where
  "initlock lk nm = upd_lock lk (\<lambda>l. l\<lparr>name := nm, locked := 0, lcpu := None\<rparr>)"

definition holding :: "lockid \<Rightarrow> (bool, 'z kst_scheme) kop" where
  "holding lk =
     bnd (get_lock lk locked) (\<lambda>l.
     bnd (get_lock lk lcpu) (\<lambda>o'.
     bnd mycpu (\<lambda>c.
     ret (l \<noteq> 0 \<and> o' = Some c))))"

definition push_off :: "(unit, 'z kst_scheme) kop" where
  "push_off =
     bnd intr_get (\<lambda>old.
     thn intr_off (
     bnd mycpu (\<lambda>c.
     bnd (get_cpu c noff) (\<lambda>n.
     thn (whenk (n = 0) (upd_cpu c (\<lambda>x. x\<lparr>intena := old\<rparr>)))
         (upd_cpu c (\<lambda>x. x\<lparr>noff := noff x + 1\<rparr>))))))"

definition pop_off :: "(unit, 'z kst_scheme) kop" where
  "pop_off =
     bnd mycpu (\<lambda>c.
     bnd intr_get (\<lambda>i.
     if i then kpanic ''pop_off - interruptible''
     else bnd (get_cpu c noff) (\<lambda>n.
     if n < 1 then kpanic ''pop_off''
     else thn (upd_cpu c (\<lambda>x. x\<lparr>noff := noff x - 1\<rparr>)) (
     bnd (get_cpu c noff) (\<lambda>n'.
     bnd (get_cpu c intena) (\<lambda>ie.
     whenk (n' = 0 \<and> ie) intr_on))))))"

text \<open>
  \<^verbatim>\<open>__sync_lock_test_and_set\<close> stores 1 and answers the old value. When the old value is not 0
  the value stays 1, so the loop of \<^verbatim>\<open>acquire\<close> ends only if another hart releases the lock: run on
  its own, the code hangs.
\<close>

definition sync_lock_test_and_set :: "lockid \<Rightarrow> uint \<Rightarrow> (uint, 'z kst_scheme) kop" where
  "sync_lock_test_and_set lk v =
     bnd (get_lock lk locked) (\<lambda>old. thn (upd_lock lk (\<lambda>l. l\<lparr>locked := v\<rparr>)) (ret old))"

definition acquire :: "lockid \<Rightarrow> (unit, 'z kst_scheme) kop" where
  "acquire lk =
     thn push_off (
     bnd (holding lk) (\<lambda>h.
     if h then kpanic ''acquire''
     else bnd (sync_lock_test_and_set lk 1) (\<lambda>old.
     if old \<noteq> 0 then (\<lambda>_. Hang)
     else bnd mycpu (\<lambda>c. upd_lock lk (\<lambda>l. l\<lparr>lcpu := Some c\<rparr>)))))"

definition release :: "lockid \<Rightarrow> (unit, 'z kst_scheme) kop" where
  "release lk =
     bnd (holding lk) (\<lambda>h.
     if \<not> h then kpanic ''release''
     else thn (upd_lock lk (\<lambda>l. l\<lparr>lcpu := None\<rparr>)) (
     thn (upd_lock lk (\<lambda>l. l\<lparr>locked := 0\<rparr>))
         pop_off))"

section \<open>The effect of the operations on the machine\<close>

definition depth :: "machine \<Rightarrow> int" where
  "depth m = noff (cpus m (this_cpu m))"

definition m_push :: "machine \<Rightarrow> machine" where
  "m_push m =
     (let c = cpus m (this_cpu m) in
      m\<lparr>csr := (csr m)\<lparr>sstatus := sstatus (csr m) AND NOT SSTATUS_SIE\<rparr>,
        cpus := (cpus m)(this_cpu m :=
          c\<lparr>intena := if noff c = 0 then sie_on m else intena c, noff := noff c + 1\<rparr>)\<rparr>)"

definition m_pop :: "machine \<Rightarrow> machine" where
  "m_pop m =
     (let c = cpus m (this_cpu m) in
      m\<lparr>csr := (csr m)\<lparr>sstatus := if noff c = 1 \<and> intena c then sstatus (csr m) OR SSTATUS_SIE
                                   else sstatus (csr m)\<rparr>,
        cpus := (cpus m)(this_cpu m := c\<lparr>noff := noff c - 1\<rparr>)\<rparr>)"

definition m_lock :: "lockid \<Rightarrow> uint \<Rightarrow> nat option \<Rightarrow> machine \<Rightarrow> machine" where
  "m_lock lk v h m = m\<lparr>locks := (locks m)(lk := (locks m lk)\<lparr>locked := v, lcpu := h\<rparr>)\<rparr>"

definition m_acquire :: "lockid \<Rightarrow> machine \<Rightarrow> machine" where
  "m_acquire lk m = m_lock lk 1 (Some (this_cpu m)) (m_push m)"

definition m_release :: "lockid \<Rightarrow> machine \<Rightarrow> machine" where
  "m_release lk m = m_pop (m_lock lk 0 None m)"

definition m_note :: "machine \<Rightarrow> machine" where
  "m_note m =
     (let c = cpus m (this_cpu m) in
      m\<lparr>cpus := (cpus m)(this_cpu m :=
          c\<lparr>intena := if noff c = 0 then sie_on m else intena c\<rparr>)\<rparr>)"

definition unlocked :: "machine \<Rightarrow> lockid \<Rightarrow> bool" where
  "unlocked m lk \<longleftrightarrow> locked (locks m lk) = 0 \<and> lcpu (locks m lk) = None"

definition held :: "machine \<Rightarrow> lockid \<Rightarrow> bool" where
  "held m lk \<longleftrightarrow> locked (locks m lk) \<noteq> 0 \<and> lcpu (locks m lk) = Some (this_cpu m)"

text \<open>
  A well-formed CPU: the nesting depth is not negative, and interrupts are off whenever it is
  positive.
\<close>

definition cpu_ok :: "machine \<Rightarrow> bool" where
  "cpu_ok m \<longleftrightarrow> 0 \<le> depth m \<and> (0 < depth m \<longrightarrow> \<not> sie_on m)"

named_theorems mach_simps "the machine state across critical sections"

lemma m_push_simps [mach_simps, simp]:
  "\<not> sie_on (m_push m)"
  "this_cpu (m_push m) = this_cpu m"
  "depth (m_push m) = depth m + 1"
  "locks (m_push m) = locks m"
  "syms (m_push m) = syms m"
  "proc (cpus (m_push m) c) = proc (cpus m c)"
  by (simp_all add: m_push_def sie_off_on Let_def depth_def sie_on_def this_cpu_def)

lemma m_lock_simps [mach_simps, simp]:
  "csr (m_lock lk v h m) = csr m"
  "sie_on (m_lock lk v h m) = sie_on m"
  "this_cpu (m_lock lk v h m) = this_cpu m"
  "depth (m_lock lk v h m) = depth m"
  "cpus (m_lock lk v h m) = cpus m"
  "syms (m_lock lk v h m) = syms m"
  by (simp_all add: m_lock_def depth_def sie_on_def this_cpu_def)

lemma locks_update_simps [mach_simps, simp]:
  "this_cpu (m\<lparr>locks := l\<rparr>) = this_cpu m"
  "sie_on (m\<lparr>locks := l\<rparr>) = sie_on m"
  "depth (m\<lparr>locks := l\<rparr>) = depth m"
  by (simp_all add: depth_def sie_on_def this_cpu_def)

lemma holding_apply [simp]: "holding lk s = Ok (held (mach s) lk) s"
  by (simp add: holding_def kop_simps held_def)

lemma push_off_apply: "push_off s = Ok () (s\<lparr>mach := m_push (mach s)\<rparr>)"
  by (simp add: push_off_def kop_simps intr_off_def csr_defs upd_cpu_def m_push_def Let_def
      sie_on_def this_cpu_def)

lemma pop_off_cases:
  "pop_off s =
     (if sie_on (mach s) then Panic ''pop_off - interruptible''
      else if depth (mach s) < 1 then Panic ''pop_off''
      else Ok () (s\<lparr>mach := m_pop (mach s)\<rparr>))"
  by (simp add: pop_off_def kop_simps intr_on_def csr_defs upd_cpu_def m_pop_def Let_def
      sie_on_def this_cpu_def depth_def)

lemma pop_off_apply:
  assumes "\<not> sie_on (mach s)" and "1 \<le> depth (mach s)"
  shows "pop_off s = Ok () (s\<lparr>mach := m_pop (mach s)\<rparr>)"
  using assms by (simp add: pop_off_cases)

lemma acquire_cases:
  "acquire lk s =
     (if held (mach s) lk then Panic ''acquire''
      else if locked (locks (mach s) lk) \<noteq> 0 then Hang
      else Ok () (s\<lparr>mach := m_acquire lk (mach s)\<rparr>))"
  by (simp add: acquire_def kop_simps push_off_apply sync_lock_test_and_set_def upd_lock_def held_def
      m_acquire_def m_lock_def)

lemma acquire_apply:
  assumes "unlocked (mach s) lk"
  shows "acquire lk s = Ok () (s\<lparr>mach := m_acquire lk (mach s)\<rparr>)"
  using assms by (simp add: acquire_cases held_def unlocked_def)

lemma lock_fields_commute:
  "l\<lparr>lcpu := c, locked := v\<rparr> = l\<lparr>locked := v, lcpu := c\<rparr>" for l :: "'z spinlock_scheme"
  by (cases l) simp

lemma release_cases:
  "release lk s =
     (if \<not> held (mach s) lk then Panic ''release''
      else if sie_on (mach s) then Panic ''pop_off - interruptible''
      else if depth (mach s) < 1 then Panic ''pop_off''
      else Ok () (s\<lparr>mach := m_release lk (mach s)\<rparr>))"
proof (cases "held (mach s) lk")
  case True
  let ?t = "s\<lparr>mach := m_lock lk 0 None (mach s)\<rparr>"
  have "release lk s = pop_off ?t"
    using True by (simp add: release_def kop_simps upd_lock_def m_lock_def lock_fields_commute)
  then show ?thesis using True by (simp add: pop_off_cases m_release_def)
next
  case False
  then show ?thesis by (simp add: release_def kop_simps)
qed

lemma release_apply:
  assumes "held (mach s) lk" and "\<not> sie_on (mach s)" and "1 \<le> depth (mach s)"
  shows "release lk s = Ok () (s\<lparr>mach := m_release lk (mach s)\<rparr>)"
  using assms by (simp add: release_cases)

lemma m_acquire_simps [mach_simps, simp]:
  "\<not> sie_on (m_acquire lk m)"
  "this_cpu (m_acquire lk m) = this_cpu m"
  "depth (m_acquire lk m) = depth m + 1"
  "syms (m_acquire lk m) = syms m"
  "proc (cpus (m_acquire lk m) c) = proc (cpus m c)"
  by (simp_all add: m_acquire_def)

lemma held_m_acquire [mach_simps, simp]:
  "held (m_acquire lk m) lk' \<longleftrightarrow> lk' = lk \<or> held m lk'"
  by (auto simp: m_acquire_def m_lock_def held_def this_cpu_def m_push_def Let_def)

lemma unlocked_m_acquire [mach_simps, simp]:
  "unlocked (m_acquire lk m) lk' \<longleftrightarrow> lk' \<noteq> lk \<and> unlocked m lk'"
  by (auto simp: m_acquire_def m_lock_def unlocked_def)

lemma cpu_ok_m_acquire [mach_simps, simp]: "cpu_ok m \<Longrightarrow> cpu_ok (m_acquire lk m)"
  by (simp add: cpu_ok_def)

lemma m_note_simps [mach_simps, simp]:
  "csr (m_note m) = csr m"
  "locks (m_note m) = locks m"
  "syms (m_note m) = syms m"
  "sie_on (m_note m) = sie_on m"
  "this_cpu (m_note m) = this_cpu m"
  "depth (m_note m) = depth m"
  "proc (cpus (m_note m) c) = proc (cpus m c)"
  "unlocked (m_note m) lk = unlocked m lk"
  "held (m_note m) lk = held m lk"
  "cpu_ok (m_note m) = cpu_ok m"
  "m_note (m_note m) = m_note m"
  by (simp_all add: m_note_def unlocked_def held_def cpu_ok_def Let_def sie_on_def depth_def
      this_cpu_def)

lemma m_note_nested [mach_simps, simp]: "0 < depth m \<Longrightarrow> m_note m = m"
  by (simp add: m_note_def Let_def depth_def)

lemma m_note_acquire [mach_simps, simp]: "cpu_ok m \<Longrightarrow> m_note (m_acquire lk m) = m_acquire lk m"
  by (simp add: cpu_ok_def)

lemma m_acquire_note [mach_simps, simp]: "m_acquire lk (m_note m) = m_acquire lk m"
  by (simp add: m_acquire_def m_note_def m_push_def m_lock_def Let_def this_cpu_def sie_on_def)

lemma cpu_noff_idem: "noff c = n \<Longrightarrow> c\<lparr>intena := i, noff := n\<rparr> = c\<lparr>intena := i\<rparr>" for c :: cpu
  by (cases c) simp

lemma m_pop_push [mach_simps, simp]:
  assumes "cpu_ok m"
  shows "m_pop (m_push m) = m_note m"
proof (cases "depth m = 0 \<and> sie_on m")
  case True
  then have "sstatus (csr m) AND SSTATUS_SIE \<noteq> 0" by (simp add: sie_on_def)
  then show ?thesis
    using True sie_restore(1) [of "sstatus (csr m)"]
    by (simp add: m_pop_def m_push_def m_note_def Let_def depth_def this_cpu_def sie_on_def cpu_noff_idem)
next
  case False
  with assms have "sstatus (csr m) AND SSTATUS_SIE = 0" by (auto simp: cpu_ok_def sie_on_def)
  then show ?thesis
    using False sie_restore(2) [of "sstatus (csr m)"]
    by (auto simp: m_pop_def m_push_def m_note_def Let_def depth_def this_cpu_def sie_on_def cpu_noff_idem)
qed

text \<open>The bracket \<^verbatim>\<open>acquire(lk); ... release(lk)\<close> leaves only the note.\<close>

lemma m_lock_undo:
  assumes "unlocked m lk"
  shows "m_lock lk 0 None (m_acquire lk m) = m_push m"
proof -
  have "(locks m lk)\<lparr>locked := 0, lcpu := None\<rparr> = locks m lk"
    using assms by (simp add: unlocked_def)
  then show ?thesis by (simp add: m_acquire_def m_lock_def lock_fields_commute)
qed

lemma m_release_acquire [mach_simps, simp]:
  assumes "unlocked m lk" and "cpu_ok m"
  shows "m_release lk (m_acquire lk m) = m_note m"
  using assms by (simp add: m_release_def m_lock_undo)

lemma release_acquired [simp]:
  assumes "mach s = m_acquire lk m" and "unlocked m lk" and "cpu_ok m"
  shows "release lk s = Ok () (s\<lparr>mach := m_note m\<rparr>)"
proof -
  have "release lk s = Ok () (s\<lparr>mach := m_release lk (mach s)\<rparr>)"
    using assms by (intro release_apply) (simp_all add: cpu_ok_def)
  then show ?thesis using assms by simp
qed

lemmas critical_section = acquire_apply kop_simps

lemma cpu_ok_push [mach_simps, simp]: "cpu_ok m \<Longrightarrow> cpu_ok (m_push m)"
  by (simp add: cpu_ok_def)

section \<open>Several harts\<close>

text \<open>
  The atomic memory operations of \<^verbatim>\<open>acquire\<close> and \<^verbatim>\<open>release\<close> on one lock, interleaved between
  harts. A hart is outside, past the check \<^verbatim>\<open>holding\<close> and spinning on the atomic swap, past the
  swap that returned 0 but with \<^verbatim>\<open>lk->cpu\<close> not yet written, in its critical section, or past
  \<^verbatim>\<open>lk->cpu = 0\<close> with the releasing swap still to come.
\<close>

datatype hart_pc = Outside | Spinning | Swapped | Critical | Releasing

record spin_sys =
  sl_locked :: uint
  sl_cpu :: "nat option"
  sl_pc :: "nat \<Rightarrow> hart_pc"

definition spin_holding :: "spin_sys \<Rightarrow> nat \<Rightarrow> bool" where
  "spin_holding x h \<longleftrightarrow> sl_locked x \<noteq> 0 \<and> sl_cpu x = Some h"

definition spin_init :: "spin_sys \<Rightarrow> bool" where
  "spin_init x \<longleftrightarrow> sl_locked x = 0 \<and> sl_cpu x = None \<and> (\<forall>h. sl_pc x h = Outside)"

inductive spin_step :: "spin_sys \<Rightarrow> spin_sys \<Rightarrow> bool" where
  check: "sl_pc x h = Outside \<Longrightarrow> \<not> spin_holding x h \<Longrightarrow>
    spin_step x (x\<lparr>sl_pc := (sl_pc x)(h := Spinning)\<rparr>)"
| swap_fails: "sl_pc x h = Spinning \<Longrightarrow> sl_locked x \<noteq> 0 \<Longrightarrow>
    spin_step x (x\<lparr>sl_locked := 1\<rparr>)"
| swap_succeeds: "sl_pc x h = Spinning \<Longrightarrow> sl_locked x = 0 \<Longrightarrow>
    spin_step x (x\<lparr>sl_locked := 1, sl_pc := (sl_pc x)(h := Swapped)\<rparr>)"
| record_cpu: "sl_pc x h = Swapped \<Longrightarrow>
    spin_step x (x\<lparr>sl_cpu := Some h, sl_pc := (sl_pc x)(h := Critical)\<rparr>)"
| clear_cpu: "sl_pc x h = Critical \<Longrightarrow> spin_holding x h \<Longrightarrow>
    spin_step x (x\<lparr>sl_cpu := None, sl_pc := (sl_pc x)(h := Releasing)\<rparr>)"
| unlock: "sl_pc x h = Releasing \<Longrightarrow>
    spin_step x (x\<lparr>sl_locked := 0, sl_pc := (sl_pc x)(h := Outside)\<rparr>)"

inductive_cases spin_stepE: "spin_step x y"

primrec owns :: "hart_pc \<Rightarrow> bool" where
  "owns Outside = False"
| "owns Spinning = False"
| "owns Swapped = True"
| "owns Critical = True"
| "owns Releasing = True"

text \<open>
  The lock word is set exactly while one hart owns the lock, and \<^verbatim>\<open>lk->cpu\<close> names a hart
  exactly while that hart is in its critical section.
\<close>

definition spin_owner :: "spin_sys \<Rightarrow> nat option \<Rightarrow> bool" where
  "spin_owner x ow \<longleftrightarrow>
     (\<forall>h. owns (sl_pc x h) \<longleftrightarrow> ow = Some h) \<and>
     (sl_locked x \<noteq> 0 \<longleftrightarrow> ow \<noteq> None) \<and>
     (\<forall>h. sl_cpu x = Some h \<longleftrightarrow> sl_pc x h = Critical)"

definition spin_inv :: "spin_sys \<Rightarrow> bool" where
  "spin_inv x \<longleftrightarrow> (\<exists>ow. spin_owner x ow)"

lemma spin_inv_init: "spin_init x \<Longrightarrow> spin_inv x"
  unfolding spin_inv_def by (rule exI [of _ None]) (simp add: spin_init_def spin_owner_def)

lemma spin_owner_pc: "spin_owner x ow \<Longrightarrow> owns (sl_pc x h) \<Longrightarrow> ow = Some h"
  by (simp add: spin_owner_def)

lemma spin_inv_step:
  assumes "spin_inv x" and "spin_step x y"
  shows "spin_inv y"
proof -
  obtain ow where ow: "spin_owner x ow" using assms(1) by (auto simp: spin_inv_def)
  have "\<exists>ow'. spin_owner y ow'" using assms(2)
  proof (cases rule: spin_step.cases)
    case (check h)
    with ow have "spin_owner y ow" by (auto simp: spin_owner_def) (metis owns.simps(1))
    then show ?thesis ..
  next
    case (swap_fails h)
    with ow have "spin_owner y ow" by (auto simp: spin_owner_def)
    then show ?thesis ..
  next
    case (swap_succeeds h)
    with ow have "spin_owner y (Some h)" by (auto simp: spin_owner_def)
    then show ?thesis ..
  next
    case (record_cpu h)
    with ow spin_owner_pc [OF ow, of h] have "spin_owner y (Some h)"
      by (auto simp: spin_owner_def)
    then show ?thesis ..
  next
    case (clear_cpu h)
    with ow spin_owner_pc [OF ow, of h] have "spin_owner y (Some h)"
      by (auto simp: spin_owner_def)
    then show ?thesis ..
  next
    case (unlock h)
    with ow spin_owner_pc [OF ow, of h] have "spin_owner y None"
      by (auto simp: spin_owner_def)
    then show ?thesis ..
  qed
  then show ?thesis by (simp add: spin_inv_def)
qed

interpretation spin: inductive_invariant spin_init spin_step spin_inv
  by unfold_locales (auto intro: spin_inv_init spin_inv_step)

section \<open>Properties\<close>

lemma spin_inv_holding: "spin_inv x \<Longrightarrow> spin_holding x h \<longleftrightarrow> sl_pc x h = Critical"
  by (auto simp: spin_inv_def spin_owner_def spin_holding_def) (metis owns.simps(4) option.simps(3))

text \<open>
  C4 (\<^verbatim>\<open>spinlock.c\<close>, \<^verbatim>\<open>acquire\<close> and \<^verbatim>\<open>release\<close> on several harts): in every state that any interleaving
  of harts reaches, at most one hart is in the critical section, and \<^verbatim>\<open>holding\<close> answers yes on
  exactly that hart, although \<^verbatim>\<open>lk->cpu\<close> is written after the swap and cleared before it.
\<close>

theorem spin_mutual_exclusion:
  assumes "spin_init x" and "rtranclp spin_step x y"
  shows "(sl_pc y h = Critical \<and> sl_pc y k = Critical \<longrightarrow> h = k) \<and>
    (spin_holding y h \<longleftrightarrow> sl_pc y h = Critical)"
proof -
  have inv: "spin_inv y" using assms by (rule spin.reachable_inv)
  then have "sl_pc y h = Critical \<and> sl_pc y k = Critical \<longrightarrow> h = k"
    unfolding spin_inv_def by (metis option.inject owns.simps(4) spin_owner_pc)
  with spin_inv_holding [OF inv] show ?thesis by simp
qed

definition spin_start :: spin_sys where
  "spin_start = \<lparr>sl_locked = 0, sl_cpu = None, sl_pc = (\<lambda>_. Outside)\<rparr>"

theorem spin_mutual_exclusion_witness:
  "spin_holding (spin_start\<lparr>sl_locked := 1, sl_cpu := Some 2, sl_pc := (\<lambda>_. Outside)(2 := Critical)\<rparr>) 2"
proof -
  let ?a = "spin_start\<lparr>sl_pc := (sl_pc spin_start)(2 := Spinning)\<rparr>"
  let ?b = "?a\<lparr>sl_locked := 1, sl_pc := (sl_pc ?a)(2 := Swapped)\<rparr>"
  let ?c = "?b\<lparr>sl_cpu := Some 2, sl_pc := (sl_pc ?b)(2 := Critical)\<rparr>"
  have init: "spin_init spin_start" by (simp add: spin_init_def spin_start_def)
  have "spin_step spin_start ?a"
    by (rule spin_step.check) (simp_all add: spin_start_def spin_holding_def)
  moreover have "spin_step ?a ?b" by (rule spin_step.swap_succeeds) (simp_all add: spin_start_def)
  moreover have "spin_step ?b ?c" by (rule spin_step.record_cpu) simp
  ultimately have run: "rtranclp spin_step spin_start ?c" by (meson r_into_rtranclp rtranclp_trans)
  have "sl_pc ?c 2 = Critical" by simp
  with spin_mutual_exclusion [OF init run, of 2 2] have "spin_holding ?c 2" by simp
  then show ?thesis by (simp add: spin_start_def spin_holding_def)
qed

lemma cpu_ok_push': "cpu_ok (mach s) \<Longrightarrow> cpu_ok (mach (s\<lparr>mach := m_push (mach s)\<rparr>))"
  by simp

lemma for_each_push_pop:
  fixes s :: "'z kst_scheme"
  assumes "cpu_ok (mach s)"
  shows "thn (for_each (replicate n ()) (\<lambda>_. push_off)) (for_each (replicate n ()) (\<lambda>_. pop_off)) s =
    Ok () (s\<lparr>mach := if n = 0 then mach s else m_note (mach s)\<rparr>)"
  using assms
proof (induction n arbitrary: s)
  case 0
  then show ?case by (simp add: kop_simps)
next
  case (Suc n)
  let ?push = "for_each (replicate n ()) (\<lambda>_. push_off)"
  let ?pop = "for_each (replicate n ()) (\<lambda>_. pop_off)"
  let ?p = "s\<lparr>mach := m_push (mach s)\<rparr>"
  have "0 < depth (m_push (mach s))" using Suc.prems by (simp add: cpu_ok_def)
  then have inner: "thn ?push ?pop ?p = Ok () ?p"
    using Suc.IH [OF cpu_ok_push' [OF Suc.prems]] by simp
  have last: "pop_off ?p = Ok () (s\<lparr>mach := m_note (mach s)\<rparr>)"
    using Suc.prems by (subst pop_off_apply) (simp_all add: cpu_ok_def)
  have pops: "for_each (replicate (Suc n) ()) (\<lambda>_. pop_off) u = thn ?pop pop_off u" for u :: "'z kst_scheme"
    using for_each_append [of "replicate n ()" "[()]" "\<lambda>_. pop_off" u]
    by (simp add: replicate_append_same kop_simps split: outcome.splits)
  from inner obtain u where "?push ?p = Ok () u" and "?pop u = Ok () ?p"
    by (auto simp: thn_eq_Ok)
  moreover have "push_off s = Ok () ?p" by (rule push_off_apply)
  ultimately show ?case using last pops by (simp add: kop_simps)
qed


definition zero_csrs :: csrs where
  "zero_csrs = \<lparr>mhartid = 0, mstatus = 0, mepc = 0, sstatus = 0, sip = 0, sie = 0, mie = 0,
     sepc = 0, medeleg = 0, mideleg = 0, stvec = 0, mtvec = 0, satp = 0, sscratch = 0,
     mscratch = 0, scause = 0, stval = 0, mcounteren = 0, time_csr = 0, tp = 0\<rparr>"

definition idle_machine :: machine where
  "idle_machine = \<lparr>csr = zero_csrs\<lparr>sstatus := 2\<rparr>,
     cpus = (\<lambda>_. \<lparr>proc = None, noff = 0, intena = False\<rparr>),
     locks = (\<lambda>_. \<lparr>locked = 0, name = [], lcpu = None\<rparr>),
     syms = \<lparr>sym_end = 0x80020000, sym_etext = 0x80008000, sym_trampoline = 0x80007000,
       sym_uservec = 0x80007000, sym_userret = 0x80007090, sym_kernelvec = 0x80005000,
       sym_usertrap = 0x80002000, sym_forkret = 0x80001800,
       sym_timervec = 0x80005090, sym_main = 0x80000e00, sym_mscratch0 = 0x80009000, sym_disk_pages = 0x8001d000\<rparr>\<rparr>"

lemma idle_machine_simps [simp]:
  "cpu_ok idle_machine"
  "unlocked idle_machine lk"
  "depth idle_machine = 0"
  "sie_on idle_machine"
  "this_cpu idle_machine = 0"
  by (simp_all add: cpu_ok_def unlocked_def idle_machine_def depth_def sie_on_def this_cpu_def
      zero_csrs_def SSTATUS_SIE_def)

lemma idle_machine_sstatus: "sstatus (csr idle_machine) = 2"
  by (simp add: idle_machine_def)




end
