(* ===== verification/Sched.thy ===== *)
theory Sched
  imports Spinlock
begin

text \<open>
  The process table and the scheduler's side of \<^verbatim>\<open>kernel/proc.c\<close>: \<^verbatim>\<open>struct proc\<close> of
  \<^verbatim>\<open>kernel/proc.h\<close>, \<^verbatim>\<open>myproc\<close>, \<^verbatim>\<open>sched\<close>, \<^verbatim>\<open>yield\<close>, \<^verbatim>\<open>sleep\<close>, \<^verbatim>\<open>wakeup\<close>, \<^verbatim>\<open>kill\<close> and
  one pass of \<^verbatim>\<open>scheduler\<close>.

  A kernel thread that reaches \<^verbatim>\<open>swtch\<close> in \<^verbatim>\<open>sched\<close> has outcome \<open>Blocked\<close>; what it does when
  the scheduler switches back to it is a definition of its own (\<open>sched_resume\<close>,
  \<open>sleep_resume\<close>, \<open>yield_resume\<close>). The values of \<^verbatim>\<open>void *chan\<close> are the addresses of the
  kernel objects that processes sleep on, one constructor of \<open>channel\<close> each.
\<close>

section \<open>Data (proc.h, param.h)\<close>

definition NPROC :: nat where "NPROC = 64"
definition NCPU :: nat where "NCPU = 8"
definition NOFILE :: nat where "NOFILE = 16"

record kcontext =
  ra :: uint64
  sp :: uint64
  s0 :: uint64
  s1 :: uint64
  s2 :: uint64
  s3 :: uint64
  s4 :: uint64
  s5 :: uint64
  s6 :: uint64
  s7 :: uint64
  s8 :: uint64
  s9 :: uint64
  s10 :: uint64
  s11 :: uint64

datatype procstate = UNUSED | SLEEPING | RUNNABLE | RUNNING | ZOMBIE

datatype channel =
    ChProc nat
  | ChSleepLock lockid
  | ChLog
  | ChBuf nat
  | ChDiskFree
  | ChPipeNread addr
  | ChPipeNwrite addr
  | ChTicks
  | ChConsR
  | ChUartR

record proc =
  state :: procstate
  parent :: "nat option"
  chan :: "channel option"
  killed :: bool
  xstate :: int
  pid :: int
  kstack :: uint64
  psz :: uint64
  ppagetable :: addr
  ptrapframe :: addr
  pcontext :: kcontext
  ofile :: "nat option list"
  cwd :: "nat option"
  pname :: "uchar list"

record pst = kst +
  procs :: "nat \<Rightarrow> proc"
  nextpid :: int
  initproc :: "nat option"

section \<open>Operations\<close>

definition get_proc :: "nat \<Rightarrow> (proc \<Rightarrow> 'a) \<Rightarrow> ('a, 'z pst_scheme) kop" where
  "get_proc p f = gets (\<lambda>s. f (procs s p))"

definition upd_proc :: "nat \<Rightarrow> (proc \<Rightarrow> proc) \<Rightarrow> (unit, 'z pst_scheme) kop" where
  "upd_proc p f = modify (\<lambda>s. s\<lparr>procs := (procs s)(p := f (procs s p))\<rparr>)"

definition myproc :: "(nat option, 'z kst_scheme) kop" where
  "myproc =
     thn push_off (
     bnd mycpu (\<lambda>c.
     bnd (get_cpu c proc) (\<lambda>p.
     thn pop_off (ret p))))"

text \<open>
  Using \<^verbatim>\<open>myproc()\<close> as a pointer: with no current process it is address 0, which the kernel page
  table does not map, so the access traps and \<^verbatim>\<open>kerneltrap\<close> panics.
\<close>

definition curproc :: "(nat, 'z kst_scheme) kop" where
  "curproc = bnd myproc (\<lambda>p. case p of None \<Rightarrow> kpanic ''kerneltrap'' | Some i \<Rightarrow> ret i)"

definition sched :: "(unit, 'z pst_scheme) kop" where
  "sched =
     bnd curproc (\<lambda>p.
     bnd (holding (LkProc p)) (\<lambda>h.
     if \<not> h then kpanic ''sched p->lock''
     else bnd mycpu (\<lambda>c.
     bnd (get_cpu c noff) (\<lambda>n.
     if n \<noteq> 1 then kpanic ''sched locks''
     else bnd (get_proc p state) (\<lambda>st.
     if st = RUNNING then kpanic ''sched running''
     else bnd intr_get (\<lambda>i.
     if i then kpanic ''sched interruptible''
     else Blocked))))))"

definition sched_resume :: "bool \<Rightarrow> (unit, 'z pst_scheme) kop" where
  "sched_resume ie = bnd mycpu (\<lambda>c. upd_cpu c (\<lambda>x. x\<lparr>intena := ie\<rparr>))"

definition yield :: "(unit, 'z pst_scheme) kop" where
  "yield =
     bnd curproc (\<lambda>p.
     thn (acquire (LkProc p)) (
     thn (upd_proc p (\<lambda>x. x\<lparr>state := RUNNABLE\<rparr>)) (
     thn sched
         (release (LkProc p)))))"

definition yield_resume :: "bool \<Rightarrow> (unit, 'z pst_scheme) kop" where
  "yield_resume ie =
     thn (sched_resume ie) (bnd curproc (\<lambda>p. release (LkProc p)))"

definition sleep :: "channel \<Rightarrow> lockid \<Rightarrow> (unit, 'z pst_scheme) kop" where
  "sleep ch lk =
     bnd curproc (\<lambda>p.
     thn (whenk (lk \<noteq> LkProc p) (thn (acquire (LkProc p)) (release lk))) (
     thn (upd_proc p (\<lambda>x. x\<lparr>chan := Some ch\<rparr>)) (
     thn (upd_proc p (\<lambda>x. x\<lparr>state := SLEEPING\<rparr>))
         sched)))"

definition sleep_resume :: "bool \<Rightarrow> lockid \<Rightarrow> (unit, 'z pst_scheme) kop" where
  "sleep_resume ie lk =
     thn (sched_resume ie) (
     bnd curproc (\<lambda>p.
     thn (upd_proc p (\<lambda>x. x\<lparr>chan := None\<rparr>))
         (whenk (lk \<noteq> LkProc p) (thn (release (LkProc p)) (acquire lk)))))"

definition wakeup_at :: "channel \<Rightarrow> nat \<Rightarrow> (unit, 'z pst_scheme) kop" where
  "wakeup_at ch p =
     thn (acquire (LkProc p)) (
     bnd (get_proc p state) (\<lambda>st.
     bnd (get_proc p chan) (\<lambda>c.
     thn (whenk (st = SLEEPING \<and> c = Some ch) (upd_proc p (\<lambda>x. x\<lparr>state := RUNNABLE\<rparr>)))
         (release (LkProc p)))))"

definition wakeup :: "channel \<Rightarrow> (unit, 'z pst_scheme) kop" where
  "wakeup ch = for_each [0..<NPROC] (wakeup_at ch)"

definition wakeup1 :: "nat \<Rightarrow> (unit, 'z pst_scheme) kop" where
  "wakeup1 p =
     bnd (holding (LkProc p)) (\<lambda>h.
     if \<not> h then kpanic ''wakeup1''
     else bnd (get_proc p chan) (\<lambda>c.
     bnd (get_proc p state) (\<lambda>st.
     whenk (c = Some (ChProc p) \<and> st = SLEEPING) (upd_proc p (\<lambda>x. x\<lparr>state := RUNNABLE\<rparr>)))))"

definition kill_at :: "int \<Rightarrow> nat \<Rightarrow> (int option, 'z pst_scheme) kop" where
  "kill_at k p =
     thn (acquire (LkProc p)) (
     bnd (get_proc p pid) (\<lambda>i.
     if i = k
     then thn (upd_proc p (\<lambda>x. x\<lparr>killed := True\<rparr>)) (
          bnd (get_proc p state) (\<lambda>st.
          thn (whenk (st = SLEEPING) (upd_proc p (\<lambda>x. x\<lparr>state := RUNNABLE\<rparr>))) (
          thn (release (LkProc p))
              (ret (Some 0)))))
     else thn (release (LkProc p)) (ret None)))"

definition kill :: "int \<Rightarrow> (int, 'z pst_scheme) kop" where
  "kill k =
     bnd (for_until [0..<NPROC] (kill_at k)) (\<lambda>r.
     case r of Some v \<Rightarrow> ret v | None \<Rightarrow> ret (- 1))"

text \<open>
  The body of the scheduler's loop for one table slot: \<open>scheduler_enter\<close> ends at \<^verbatim>\<open>swtch\<close>, with
  \<open>Some p\<close> when it switches to \<open>p\<close> (holding its lock); \<open>scheduler_leave\<close> is what the scheduler
  does when the process switches back.
\<close>

definition scheduler_enter :: "nat \<Rightarrow> (nat option, 'z pst_scheme) kop" where
  "scheduler_enter p =
     thn (acquire (LkProc p)) (
     bnd (get_proc p state) (\<lambda>st.
     if st = RUNNABLE
     then thn (upd_proc p (\<lambda>x. x\<lparr>state := RUNNING\<rparr>)) (
          bnd mycpu (\<lambda>c.
          thn (upd_cpu c (\<lambda>x. x\<lparr>proc := Some p\<rparr>))
              (ret (Some p))))
     else thn (release (LkProc p)) (ret None)))"

definition scheduler_leave :: "nat \<Rightarrow> (unit, 'z pst_scheme) kop" where
  "scheduler_leave p =
     bnd mycpu (\<lambda>c.
     thn (upd_cpu c (\<lambda>x. x\<lparr>proc := None\<rparr>))
         (release (LkProc p)))"

text \<open>
  A pass of the \<^verbatim>\<open>for\<close> loop from slot \<open>k\<close> to the next switch or to the end of the table, with
  interrupts enabled first as \<^verbatim>\<open>for(;;)\<close> does at the start of each pass.
\<close>

definition scheduler_pass :: "nat \<Rightarrow> (nat option, 'z pst_scheme) kop" where
  "scheduler_pass k =
     thn (whenk (k = 0) intr_on)
         (for_until [k..<NPROC] scheduler_enter)"

section \<open>Effects\<close>

lemma get_proc_apply [simp]: "get_proc p f s = Ok (f (procs s p)) s"
  by (simp add: get_proc_def)

lemma upd_proc_apply [simp]: "upd_proc p f s = Ok () (s\<lparr>procs := (procs s)(p := f (procs s p))\<rparr>)"
  by (simp add: upd_proc_def)

text \<open>Updates of the machine are written first.\<close>

lemma mach_first [simp]:
  "s\<lparr>procs := x, mach := m\<rparr> = s\<lparr>mach := m, procs := x\<rparr>"
  "s\<lparr>nextpid := n, mach := m\<rparr> = s\<lparr>mach := m, nextpid := n\<rparr>"
  "s\<lparr>initproc := i, mach := m\<rparr> = s\<lparr>mach := m, initproc := i\<rparr>" for s :: "'z pst_scheme"
  by (cases s; simp)+

definition cur :: "machine \<Rightarrow> nat option" where
  "cur m = proc (cpus m (this_cpu m))"

lemma cur_simps [mach_simps, simp]:
  "cur (m_note m) = cur m" "cur (m_acquire lk m) = cur m" "cur (m_push m) = cur m"
  by (simp_all add: cur_def)

lemma myproc_apply:
  assumes "cpu_ok (mach s)"
  shows "myproc s = Ok (cur (mach s)) (s\<lparr>mach := m_note (mach s)\<rparr>)"
proof -
  have "pop_off (s\<lparr>mach := m_push (mach s)\<rparr>) = Ok () (s\<lparr>mach := m_note (mach s)\<rparr>)"
    using assms by (subst pop_off_apply) (simp_all add: cpu_ok_def)
  then show ?thesis
    by (simp add: myproc_def kop_simps push_off_apply cur_def)
qed

lemma curproc_apply:
  assumes "cpu_ok (mach s)"
  shows "curproc s = (case cur (mach s) of
      None \<Rightarrow> Panic ''kerneltrap''
    | Some p \<Rightarrow> Ok p (s\<lparr>mach := m_note (mach s)\<rparr>))"
  using assms by (simp add: curproc_def kop_simps myproc_apply split: option.splits)

lemma curproc_Some:
  "cpu_ok (mach s) \<Longrightarrow> cur (mach s) = Some p \<Longrightarrow> curproc s = Ok p (s\<lparr>mach := m_note (mach s)\<rparr>)"
  by (simp add: curproc_apply)

definition wake :: "channel \<Rightarrow> proc \<Rightarrow> proc" where
  "wake ch x = (if state x = SLEEPING \<and> chan x = Some ch then x\<lparr>state := RUNNABLE\<rparr> else x)"

definition procs_unlocked :: "machine \<Rightarrow> bool" where
  "procs_unlocked m \<longleftrightarrow> (\<forall>p < NPROC. unlocked m (LkProc p))"

lemma procs_unlocked_simps [mach_simps, simp]:
  "procs_unlocked (m_note m) = procs_unlocked m"
  "(\<And>p. lk \<noteq> LkProc p) \<Longrightarrow> procs_unlocked (m_acquire lk m) = procs_unlocked m"
  by (auto simp: procs_unlocked_def)

lemma wakeup_at_apply:
  assumes "cpu_ok (mach s)" and "unlocked (mach s) (LkProc p)"
  shows "wakeup_at ch p s =
    Ok () (s\<lparr>mach := m_note (mach s), procs := (procs s)(p := wake ch (procs s p))\<rparr>)"
  using assms by (simp add: wakeup_at_def critical_section wake_def)

lemma fold_proc_update:
  assumes "distinct ps"
  shows "fold (\<lambda>p s. s\<lparr>mach := m_note (mach s), procs := (procs s)(p := f (procs s p))\<rparr>) ps s =
    s\<lparr>mach := if ps = [] then mach s else m_note (mach s),
      procs := (\<lambda>p. if p \<in> set ps then f (procs s p) else procs s p)\<rparr>"
  using assms
proof (induction ps arbitrary: s)
  case Nil
  then show ?case by simp
next
  case (Cons p ps)
  then have "p \<notin> set ps" by simp
  then have "(\<lambda>q. if q \<in> set ps then f (if q = p then f (procs s p) else procs s q)
        else if q = p then f (procs s p) else procs s q) =
      (\<lambda>q. if q = p \<or> q \<in> set ps then f (procs s q) else procs s q)"
    by auto
  with Cons show ?case by (simp add: fun_upd_def cong: if_cong)
qed

lemma wakeup_apply:
  assumes "cpu_ok (mach s)" and "procs_unlocked (mach s)"
  shows "wakeup ch s =
    Ok () (s\<lparr>mach := m_note (mach s),
             procs := (\<lambda>p. if p < NPROC then wake ch (procs s p) else procs s p)\<rparr>)"
proof -
  let ?g = "\<lambda>p s. s\<lparr>mach := m_note (mach s), procs := (procs s)(p := wake ch (procs s p))\<rparr>"
  let ?P = "\<lambda>s. cpu_ok (mach s) \<and> procs_unlocked (mach s)"
  have "for_each [0..<NPROC] (wakeup_at ch) s = Ok () (fold ?g [0..<NPROC] s) \<and> ?P (fold ?g [0..<NPROC] s)"
    using assms by (intro for_each_fold) (auto simp: wakeup_at_apply procs_unlocked_def)
  then show ?thesis
    by (simp add: wakeup_def fold_proc_update NPROC_def)
qed

definition wake_all :: "channel \<Rightarrow> (nat \<Rightarrow> proc) \<Rightarrow> nat \<Rightarrow> proc" where
  "wake_all ch ps = (\<lambda>p. if p < NPROC then wake ch (ps p) else ps p)"

lemma wakeup_all:
  assumes "cpu_ok (mach s)" and "procs_unlocked (mach s)"
  shows "wakeup ch s = Ok () (s\<lparr>mach := m_note (mach s), procs := wake_all ch (procs s)\<rparr>)"
  using assms by (simp add: wakeup_apply wake_all_def)

section \<open>Sleeping and being scheduled again\<close>

definition m_setproc :: "nat option \<Rightarrow> machine \<Rightarrow> machine" where
  "m_setproc q m = m\<lparr>cpus := (cpus m)(this_cpu m := (cpus m (this_cpu m))\<lparr>proc := q\<rparr>)\<rparr>"

lemma m_setproc_simps [mach_simps, simp]:
  "csr (m_setproc q m) = csr m"
  "locks (m_setproc q m) = locks m"
  "syms (m_setproc q m) = syms m"
  "this_cpu (m_setproc q m) = this_cpu m"
  "sie_on (m_setproc q m) = sie_on m"
  "depth (m_setproc q m) = depth m"
  "cpu_ok (m_setproc q m) = cpu_ok m"
  "unlocked (m_setproc q m) lk = unlocked m lk"
  "held (m_setproc q m) lk = held m lk"
  "cur (m_setproc q m) = q"
  "procs_unlocked (m_setproc q m) = procs_unlocked m"
  by (simp_all add: m_setproc_def this_cpu_def sie_on_def depth_def cpu_ok_def unlocked_def held_def
      cur_def procs_unlocked_def)

lemma cpu_proc_commute:
  "c\<lparr>proc := q, intena := i\<rparr> = c\<lparr>intena := i, proc := q\<rparr>"
  "c\<lparr>proc := q, noff := n\<rparr> = c\<lparr>noff := n, proc := q\<rparr>" for c :: cpu
  by (cases c; simp)+

lemma m_setproc_acquire [mach_simps]: "m_setproc q (m_acquire lk m) = m_acquire lk (m_setproc q m)"
  by (simp add: m_setproc_def m_acquire_def m_lock_def m_push_def Let_def this_cpu_def sie_on_def
      cpu_proc_commute)

lemma m_push_lock: "m_push (m_lock lk v h m) = m_lock lk v h (m_push m)"
  by (cases m) (simp add: m_push_def m_lock_def Let_def this_cpu_def sie_on_def)

lemma m_pop_lock: "m_pop (m_lock lk v h m) = m_lock lk v h (m_pop m)"
  by (cases m) (simp add: m_pop_def m_lock_def Let_def this_cpu_def)

lemma m_lock_around:
  assumes "lk \<noteq> lk'" and "locked (locks n lk) = 0" and "lcpu (locks n lk) = None"
  shows "m_lock lk 0 None (m_lock lk' 1 h (m_lock lk 1 g n)) = m_lock lk' 1 h n"
proof -
  have "(locks n lk)\<lparr>locked := 0, lcpu := None\<rparr> = locks n lk"
    using assms(2,3) by (cases "locks n lk") simp
  then have "(locks n)(lk' := x, lk := (locks n lk)\<lparr>locked := 0, lcpu := None\<rparr>) = (locks n)(lk' := x)" for x
    using assms(1) by (auto simp: fun_eq_iff)
  then show ?thesis using assms(1)
    by (simp add: m_lock_def lock_fields_commute fun_upd_twist [of lk' lk])
qed

lemma m_release_under [mach_simps]:
  assumes "unlocked m lk" and "cpu_ok m" and "lk \<noteq> lk'"
  shows "m_release lk (m_acquire lk' (m_acquire lk m)) = m_acquire lk' m"
proof -
  have "0 < depth (m_push m)" using assms(2) by (simp add: cpu_ok_def)
  then have "m_pop (m_push (m_push m)) = m_push m"
    using assms(2) by simp
  then show ?thesis
    using assms(1,3) by (simp add: m_release_def m_acquire_def m_push_lock m_pop_lock m_lock_around
        unlocked_def)
qed

lemma upd_cpu_proc: "upd_cpu (this_cpu (mach s)) (\<lambda>x. x\<lparr>proc := q\<rparr>) s = Ok () (s\<lparr>mach := m_setproc q (mach s)\<rparr>)"
  by (simp add: upd_cpu_def m_setproc_def)

lemma sched_apply:
  assumes "mach s = m_acquire (LkProc p) m" and "cpu_ok m" and "depth m = 0" and "cur m = Some p"
    and "state (procs s p) \<noteq> RUNNING"
  shows "sched s = Blocked s"
proof -
  have "noff (cpus (mach s) (this_cpu (mach s))) = 1"
    using assms(1,3) m_acquire_simps(3) [of "LkProc p" m] by (simp add: depth_def)
  then show ?thesis
    using assms by (simp add: sched_def kop_simps curproc_Some)
qed

lemma sleep_apply:
  assumes "mach s = m_acquire lk m" and "unlocked m lk" and "unlocked m (LkProc p)"
    and "cpu_ok m" and "depth m = 0" and "cur m = Some p"
  shows "sleep ch lk s =
    Blocked (s\<lparr>mach := m_acquire (LkProc p) m,
      procs := (procs s)(p := (procs s p)\<lparr>chan := Some ch, state := SLEEPING\<rparr>)\<rparr>)"
proof (cases "lk = LkProc p")
  case True
  let ?t = "s\<lparr>mach := m_acquire (LkProc p) m, procs := (procs s)(p := (procs s p)\<lparr>chan := Some ch, state := SLEEPING\<rparr>)\<rparr>"
  have "sched ?t = Blocked ?t"
    using assms by (intro sched_apply [of _ p m]) simp_all
  then show ?thesis
    using assms True by (simp add: sleep_def kop_simps curproc_Some)
next
  case False
  let ?m = "m_acquire (LkProc p) m"
  let ?t = "s\<lparr>mach := ?m, procs := (procs s)(p := (procs s p)\<lparr>chan := Some ch, state := SLEEPING\<rparr>)\<rparr>"
  have "sched ?t = Blocked ?t"
    using assms by (intro sched_apply [of _ p m]) simp_all
  moreover have "release lk (s\<lparr>mach := m_acquire (LkProc p) (m_acquire lk m)\<rparr>) = Ok () (s\<lparr>mach := ?m\<rparr>)"
    using assms False by (subst release_apply) (simp_all add: m_release_under)
  ultimately show ?thesis
    using assms False by (simp add: sleep_def kop_simps curproc_Some acquire_apply)
qed

lemma scheduler_leave_apply:
  assumes "mach s = m_acquire (LkProc p) m" and "unlocked m (LkProc p)" and "cpu_ok m"
  shows "scheduler_leave p s = Ok () (s\<lparr>mach := m_note (m_setproc None m)\<rparr>)"
proof -
  have "release (LkProc p) (s\<lparr>mach := m_acquire (LkProc p) (m_setproc None m)\<rparr>) =
      Ok () (s\<lparr>mach := m_note (m_setproc None m)\<rparr>)"
    using assms by simp
  moreover have "upd_cpu (this_cpu m) (\<lambda>x. x\<lparr>proc := None\<rparr>) s =
      Ok () (s\<lparr>mach := m_acquire (LkProc p) (m_setproc None m)\<rparr>)"
    using upd_cpu_proc [of s None] assms(1) by (simp add: m_setproc_acquire)
  ultimately show ?thesis
    using assms by (simp add: scheduler_leave_def kop_simps)
qed

lemma scheduler_enter_apply:
  assumes "unlocked (mach s) (LkProc p)" and "cpu_ok (mach s)"
  shows "scheduler_enter p s =
    (if state (procs s p) = RUNNABLE
     then Ok (Some p) (s\<lparr>mach := m_acquire (LkProc p) (m_setproc (Some p) (mach s)),
            procs := (procs s)(p := (procs s p)\<lparr>state := RUNNING\<rparr>)\<rparr>)
     else Ok None (s\<lparr>mach := m_note (mach s)\<rparr>))"
proof -
  let ?s = "s\<lparr>mach := m_acquire (LkProc p) (mach s), procs := (procs s)(p := (procs s p)\<lparr>state := RUNNING\<rparr>)\<rparr>"
  have "upd_cpu (this_cpu (mach s)) (\<lambda>x. x\<lparr>proc := Some p\<rparr>) ?s =
      Ok () (?s\<lparr>mach := m_acquire (LkProc p) (m_setproc (Some p) (mach s))\<rparr>)"
    using upd_cpu_proc [of ?s "Some p"] by (simp add: m_setproc_acquire)
  then show ?thesis
    using assms by (simp add: scheduler_enter_def critical_section)
qed

lemma sched_resume_apply:
  "sched_resume ie s = Ok () (s\<lparr>mach := (mach s)\<lparr>cpus := (cpus (mach s))(this_cpu (mach s) :=
     (cpus (mach s) (this_cpu (mach s)))\<lparr>intena := ie\<rparr>)\<rparr>\<rparr>)"
  by (simp add: sched_resume_def kop_simps upd_cpu_def)

definition m_intena :: "bool \<Rightarrow> machine \<Rightarrow> machine" where
  "m_intena ie m = m\<lparr>cpus := (cpus m)(this_cpu m := (cpus m (this_cpu m))\<lparr>intena := ie\<rparr>)\<rparr>"

lemma m_intena_simps [mach_simps, simp]:
  "csr (m_intena i m) = csr m"
  "locks (m_intena i m) = locks m"
  "this_cpu (m_intena i m) = this_cpu m"
  "sie_on (m_intena i m) = sie_on m"
  "depth (m_intena i m) = depth m"
  "cpu_ok (m_intena i m) = cpu_ok m"
  "unlocked (m_intena i m) lk = unlocked m lk"
  "held (m_intena i m) lk = held m lk"
  "cur (m_intena i m) = cur m"
  by (simp_all add: m_intena_def this_cpu_def sie_on_def depth_def cpu_ok_def unlocked_def held_def cur_def)

lemma m_release_simps [mach_simps, simp]:
  "this_cpu (m_release lk m) = this_cpu m"
  "depth (m_release lk m) = depth m - 1"
  "unlocked (m_release lk m) lk' \<longleftrightarrow> lk' = lk \<or> unlocked m lk'"
  "held (m_release lk m) lk' \<longleftrightarrow> lk' \<noteq> lk \<and> held m lk'"
  "cur (m_release lk m) = cur m"
  by (auto simp: m_release_def m_pop_def m_lock_def Let_def this_cpu_def depth_def unlocked_def
      held_def cur_def)

lemma sleep_resume_apply:
  assumes "mach s = m_acquire (LkProc p) m" and "unlocked m (LkProc p)" and "unlocked m lk"
    and "cpu_ok m" and "cur m = Some p" and "lk \<noteq> LkProc p"
  shows "\<exists>t. sleep_resume ie lk s = Ok () t \<and> procs t = (procs s)(p := (procs s p)\<lparr>chan := None\<rparr>) \<and>
    depth (mach t) = depth m + 1 \<and> held (mach t) lk \<and> unlocked (mach t) (LkProc p)"
proof -
  let ?n = "m_intena ie (m_acquire (LkProc p) m)"
  let ?u = "s\<lparr>mach := ?n, procs := (procs s)(p := (procs s p)\<lparr>chan := None\<rparr>)\<rparr>"
  have "0 < depth ?n" using assms(4) by (simp add: cpu_ok_def)
  then have cur: "curproc (s\<lparr>mach := ?n\<rparr>) = Ok p (s\<lparr>mach := ?n\<rparr>)"
    using assms by (simp add: curproc_Some)
  have rel: "release (LkProc p) ?u = Ok () (?u\<lparr>mach := m_release (LkProc p) ?n\<rparr>)"
    using assms by (subst release_apply) (simp_all add: cpu_ok_def)
  have acq: "acquire lk (?u\<lparr>mach := m_release (LkProc p) ?n\<rparr>) =
      Ok () (?u\<lparr>mach := m_acquire lk (m_release (LkProc p) ?n)\<rparr>)"
    using assms by (subst acquire_apply) simp_all
  have "sched_resume ie s = Ok () (s\<lparr>mach := ?n\<rparr>)"
    using assms(1) by (simp add: sched_resume_apply m_intena_def)
  then have "sleep_resume ie lk s = Ok () (?u\<lparr>mach := m_acquire lk (m_release (LkProc p) ?n)\<rparr>)"
    using cur rel acq assms(6) by (simp add: sleep_resume_def kop_simps)
  then show ?thesis using assms by simp
qed

section \<open>Kill and the scheduler's scan\<close>

definition kill_proc :: "proc \<Rightarrow> proc" where
  "kill_proc x = x\<lparr>killed := True, state := (if state x = SLEEPING then RUNNABLE else state x)\<rparr>"

lemma kill_at_apply:
  assumes "cpu_ok (mach s)" and "unlocked (mach s) (LkProc p)"
  shows "kill_at k p s =
    (if pid (procs s p) = k
     then Ok (Some 0) (s\<lparr>mach := m_note (mach s), procs := (procs s)(p := kill_proc (procs s p))\<rparr>)
     else Ok None (s\<lparr>mach := m_note (mach s)\<rparr>))"
proof -
  have "(procs s p)\<lparr>killed := True\<rparr> = (procs s p)\<lparr>killed := True, state := state (procs s p)\<rparr>"
    by (cases "procs s p") simp
  then show ?thesis
    using assms by (simp add: kill_at_def critical_section kill_proc_def)
qed

text \<open>
  \<^verbatim>\<open>kill\<close> on every branch: the first slot with the given pid is marked, and nothing else changes.
\<close>

lemma kill_apply:
  assumes "cpu_ok (mach s)" and "procs_unlocked (mach s)"
  shows "kill k s =
    (case List.find (\<lambda>p. pid (procs s p) = k) [0..<NPROC] of
       Some p \<Rightarrow> Ok 0 (s\<lparr>mach := m_note (mach s), procs := (procs s)(p := kill_proc (procs s p))\<rparr>)
     | None \<Rightarrow> Ok (- 1) (s\<lparr>mach := m_note (mach s)\<rparr>))"
proof -
  let ?skip = "\<lambda>s. s\<lparr>mach := m_note (mach s)\<rparr>"
  let ?hit = "\<lambda>p s. Ok (Some 0) (s\<lparr>mach := m_note (mach s), procs := (procs s)(p := kill_proc (procs s p))\<rparr>)"
  have "for_until [0..<NPROC] (kill_at k) s =
    (case List.find (\<lambda>p. pid (procs s p) = k) [0..<NPROC] of
       None \<Rightarrow> Ok None (if [0..<NPROC] = [] then s else ?skip s)
     | Some p \<Rightarrow> ?hit p s)"
    using assms
    by (intro for_until_find [where P = "\<lambda>s. cpu_ok (mach s) \<and> procs_unlocked (mach s)"])
      (auto simp: kill_at_apply procs_unlocked_def fun_upd_def)
  then show ?thesis
    by (auto simp: kill_def kop_simps NPROC_def split: option.splits)
qed

lemma find_upt_Some:
  "List.find P [k..<n] = Some p \<longleftrightarrow> k \<le> p \<and> p < n \<and> P p \<and> (\<forall>q. k \<le> q \<and> q < p \<longrightarrow> \<not> P q)"
proof -
  have "(\<exists>i<n - k. P (k + i) \<and> p = k + i \<and> (\<forall>j<i. \<not> P (k + j))) \<longleftrightarrow>
      k \<le> p \<and> p < n \<and> P p \<and> (\<forall>q. k \<le> q \<and> q < p \<longrightarrow> \<not> P q)"
    by (auto simp: le_iff_add intro!: exI [of _ "p - k"])
  then show ?thesis by (simp add: find_Some_iff cong: conj_cong)
qed

lemma find_upt_None: "List.find P [k..<n] = None \<longleftrightarrow> (\<forall>p. k \<le> p \<and> p < n \<longrightarrow> \<not> P p)"
  by (auto simp: find_None_iff)

text \<open>A scan of the scheduler switches to the first RUNNABLE slot at or after its position.\<close>

lemma scheduler_scan_apply:
  assumes "cpu_ok (mach s)" and "procs_unlocked (mach s)" and "k < NPROC"
  shows "for_until [k..<NPROC] scheduler_enter s =
    (case List.find (\<lambda>p. state (procs s p) = RUNNABLE) [k..<NPROC] of
       Some p \<Rightarrow> Ok (Some p) (s\<lparr>mach := m_acquire (LkProc p) (m_setproc (Some p) (mach s)),
            procs := (procs s)(p := (procs s p)\<lparr>state := RUNNING\<rparr>)\<rparr>)
     | None \<Rightarrow> Ok None (s\<lparr>mach := m_note (mach s)\<rparr>))"
proof -
  let ?skip = "\<lambda>s. s\<lparr>mach := m_note (mach s)\<rparr>"
  let ?hit = "\<lambda>p s. Ok (Some p) (s\<lparr>mach := m_acquire (LkProc p) (m_setproc (Some p) (mach s)),
            procs := (procs s)(p := (procs s p)\<lparr>state := RUNNING\<rparr>)\<rparr>)"
  have "m_acquire lk (m_setproc q (m_note m)) = m_acquire lk (m_setproc q m)" for lk q m
    by (metis m_acquire_note m_setproc_acquire)
  then have "for_until [k..<NPROC] scheduler_enter s =
    (case List.find (\<lambda>p. state (procs s p) = RUNNABLE) [k..<NPROC] of
       None \<Rightarrow> Ok None (if [k..<NPROC] = [] then s else ?skip s)
     | Some p \<Rightarrow> ?hit p s)"
    using assms
    by (intro for_until_find [where P = "\<lambda>s. cpu_ok (mach s) \<and> procs_unlocked (mach s)"])
      (auto simp: scheduler_enter_apply procs_unlocked_def fun_upd_def)
  then show ?thesis
    using assms(3) by (auto split: option.splits)
qed

section \<open>Sleep and wakeup on two harts\<close>

text \<open>
  One process runs \<^verbatim>\<open>acquire(lk); while(!cond) sleep(chan, lk); release(lk)\<close> on one hart while
  another hart runs \<^verbatim>\<open>acquire(lk); cond = 1; wakeup(chan); release(lk)\<close>. The steps are the lock
  operations and the memory accesses of \<^verbatim>\<open>sleep\<close> and \<^verbatim>\<open>wakeup\<close> in their order; \<open>lk_owner\<close> and
  \<open>pl_owner\<close> are the owners of \<open>lk\<close> and of the sleeper's \<^verbatim>\<open>p->lock\<close>.
\<close>

datatype agent = Sleeper | Waker

datatype sleeper_pc =
    S_acquire_lk      \<comment> \<open>about to acquire \<open>lk\<close> (on entry, and at the end of \<^verbatim>\<open>sleep\<close>)\<close>
  | S_test            \<comment> \<open>holds \<open>lk\<close>, about to test the condition\<close>
  | S_acquire_pl      \<comment> \<open>in \<^verbatim>\<open>sleep\<close>, about to acquire \<^verbatim>\<open>p->lock\<close>\<close>
  | S_release_lk      \<comment> \<open>in \<^verbatim>\<open>sleep\<close>, about to release \<open>lk\<close>\<close>
  | S_set             \<comment> \<open>about to store \<^verbatim>\<open>p->chan\<close> and \<^verbatim>\<open>p->state\<close>\<close>
  | S_sched           \<comment> \<open>in \<^verbatim>\<open>sched\<close>: the scheduler is about to release \<^verbatim>\<open>p->lock\<close>\<close>
  | S_off             \<comment> \<open>switched out\<close>
  | S_tidy            \<comment> \<open>switched in again with \<^verbatim>\<open>p->lock\<close> held\<close>
  | S_done            \<comment> \<open>the condition was seen true\<close>

datatype waker_pc =
    W_acquire_lk | W_set | W_acquire_pl | W_test | W_release_pl | W_release_lk | W_done

record wsys =
  cond :: bool
  lk_owner :: "agent option"
  pl_owner :: "agent option"
  p_state :: procstate
  p_chan :: bool
  s_pc :: sleeper_pc
  w_pc :: waker_pc

definition wsys_init :: "wsys \<Rightarrow> bool" where
  "wsys_init x \<longleftrightarrow> \<not> cond x \<and> lk_owner x = None \<and> pl_owner x = None \<and> p_state x = RUNNING \<and>
     \<not> p_chan x \<and> s_pc x = S_acquire_lk \<and> w_pc x = W_acquire_lk"

inductive wsys_step :: "wsys \<Rightarrow> wsys \<Rightarrow> bool" where
  s_acquire_lk: "s_pc x = S_acquire_lk \<Longrightarrow> lk_owner x = None \<Longrightarrow>
    wsys_step x (x\<lparr>lk_owner := Some Sleeper, s_pc := S_test\<rparr>)"
| s_see: "s_pc x = S_test \<Longrightarrow> cond x \<Longrightarrow>
    wsys_step x (x\<lparr>lk_owner := None, s_pc := S_done\<rparr>)"
| s_wait: "s_pc x = S_test \<Longrightarrow> \<not> cond x \<Longrightarrow>
    wsys_step x (x\<lparr>s_pc := S_acquire_pl\<rparr>)"
| s_acquire_pl: "s_pc x = S_acquire_pl \<Longrightarrow> pl_owner x = None \<Longrightarrow>
    wsys_step x (x\<lparr>pl_owner := Some Sleeper, s_pc := S_release_lk\<rparr>)"
| s_release_lk: "s_pc x = S_release_lk \<Longrightarrow>
    wsys_step x (x\<lparr>lk_owner := None, s_pc := S_set\<rparr>)"
| s_set: "s_pc x = S_set \<Longrightarrow>
    wsys_step x (x\<lparr>p_chan := True, p_state := SLEEPING, s_pc := S_sched\<rparr>)"
| s_sched: "s_pc x = S_sched \<Longrightarrow>
    wsys_step x (x\<lparr>pl_owner := None, s_pc := S_off\<rparr>)"
| s_run: "s_pc x = S_off \<Longrightarrow> p_state x = RUNNABLE \<Longrightarrow> pl_owner x = None \<Longrightarrow>
    wsys_step x (x\<lparr>pl_owner := Some Sleeper, p_state := RUNNING, s_pc := S_tidy\<rparr>)"
| s_tidy: "s_pc x = S_tidy \<Longrightarrow>
    wsys_step x (x\<lparr>p_chan := False, pl_owner := None, s_pc := S_acquire_lk\<rparr>)"
| w_acquire_lk: "w_pc x = W_acquire_lk \<Longrightarrow> lk_owner x = None \<Longrightarrow>
    wsys_step x (x\<lparr>lk_owner := Some Waker, w_pc := W_set\<rparr>)"
| w_set: "w_pc x = W_set \<Longrightarrow>
    wsys_step x (x\<lparr>cond := True, w_pc := W_acquire_pl\<rparr>)"
| w_acquire_pl: "w_pc x = W_acquire_pl \<Longrightarrow> pl_owner x = None \<Longrightarrow>
    wsys_step x (x\<lparr>pl_owner := Some Waker, w_pc := W_test\<rparr>)"
| w_wake: "w_pc x = W_test \<Longrightarrow> p_state x = SLEEPING \<and> p_chan x \<Longrightarrow>
    wsys_step x (x\<lparr>p_state := RUNNABLE, w_pc := W_release_pl\<rparr>)"
| w_skip: "w_pc x = W_test \<Longrightarrow> \<not> (p_state x = SLEEPING \<and> p_chan x) \<Longrightarrow>
    wsys_step x (x\<lparr>w_pc := W_release_pl\<rparr>)"
| w_release_pl: "w_pc x = W_release_pl \<Longrightarrow>
    wsys_step x (x\<lparr>pl_owner := None, w_pc := W_release_lk\<rparr>)"
| w_release_lk: "w_pc x = W_release_lk \<Longrightarrow>
    wsys_step x (x\<lparr>lk_owner := None, w_pc := W_done\<rparr>)"

definition s_holds_lk :: "sleeper_pc \<Rightarrow> bool" where
  "s_holds_lk c \<longleftrightarrow> c \<in> {S_test, S_acquire_pl, S_release_lk}"

definition s_holds_pl :: "sleeper_pc \<Rightarrow> bool" where
  "s_holds_pl c \<longleftrightarrow> c \<in> {S_release_lk, S_set, S_sched, S_tidy}"

definition w_holds_lk :: "waker_pc \<Rightarrow> bool" where
  "w_holds_lk c \<longleftrightarrow> c \<in> {W_set, W_acquire_pl, W_test, W_release_pl, W_release_lk}"

definition w_holds_pl :: "waker_pc \<Rightarrow> bool" where
  "w_holds_pl c \<longleftrightarrow> c \<in> {W_test, W_release_pl}"

text \<open>
  The locks are held as the positions say; between the test of the condition and the store of the
  state the condition can be set only by a waker that has still to examine the sleeper.
\<close>

definition wsys_inv :: "wsys \<Rightarrow> bool" where
  "wsys_inv x \<longleftrightarrow>
     (lk_owner x = Some Sleeper \<longleftrightarrow> s_holds_lk (s_pc x)) \<and>
     (lk_owner x = Some Waker \<longleftrightarrow> w_holds_lk (w_pc x)) \<and>
     (pl_owner x = Some Sleeper \<longleftrightarrow> s_holds_pl (s_pc x)) \<and>
     (pl_owner x = Some Waker \<longleftrightarrow> w_holds_pl (w_pc x)) \<and>
     (cond x \<longleftrightarrow> w_pc x \<notin> {W_acquire_lk, W_set}) \<and>
     (s_pc x = S_sched \<longrightarrow> p_state x = SLEEPING) \<and>
     (s_pc x = S_off \<longrightarrow> p_state x \<in> {SLEEPING, RUNNABLE}) \<and>
     (p_state x = SLEEPING \<longrightarrow> s_pc x \<in> {S_sched, S_off} \<and> p_chan x) \<and>
     (s_pc x \<in> {S_acquire_pl, S_release_lk} \<longrightarrow> \<not> cond x) \<and>
     (s_pc x \<in> {S_set, S_sched} \<or> p_state x = SLEEPING \<longrightarrow>
        w_pc x \<in> {W_acquire_lk, W_set, W_acquire_pl, W_test})"

lemma wsys_inv_init: "wsys_init x \<Longrightarrow> wsys_inv x"
  by (simp add: wsys_init_def wsys_inv_def s_holds_lk_def s_holds_pl_def w_holds_lk_def w_holds_pl_def)

lemma wsys_inv_step:
  assumes "wsys_inv x" and "wsys_step x y"
  shows "wsys_inv y"
  using assms(2,1)
  by (cases rule: wsys_step.cases; cases "s_pc x"; cases "w_pc x")
    (simp_all add: wsys_inv_def s_holds_lk_def s_holds_pl_def w_holds_lk_def w_holds_pl_def)

interpretation wsys: inductive_invariant wsys_init wsys_step wsys_inv
  by unfold_locales (auto intro: wsys_inv_init wsys_inv_step)

lemma wsys_enabled:
  "s_pc y = S_acquire_lk \<Longrightarrow> lk_owner y = None \<Longrightarrow> \<exists>z. wsys_step y z"
  "s_pc y = S_acquire_pl \<Longrightarrow> pl_owner y = None \<Longrightarrow> \<exists>z. wsys_step y z"
  "s_pc y = S_off \<Longrightarrow> p_state y = RUNNABLE \<Longrightarrow> pl_owner y = None \<Longrightarrow> \<exists>z. wsys_step y z"
  "w_pc y = W_acquire_lk \<Longrightarrow> lk_owner y = None \<Longrightarrow> \<exists>z. wsys_step y z"
  "w_pc y = W_acquire_pl \<Longrightarrow> pl_owner y = None \<Longrightarrow> \<exists>z. wsys_step y z"
  by (blast intro: s_acquire_lk s_acquire_pl s_run w_acquire_lk w_acquire_pl)+

lemma wsys_enabled_always:
  "s_pc y \<in> {S_test, S_release_lk, S_set, S_sched, S_tidy} \<Longrightarrow> \<exists>z. wsys_step y z"
  "w_pc y \<in> {W_set, W_test, W_release_pl, W_release_lk} \<Longrightarrow> \<exists>z. wsys_step y z"
proof -
  have "\<exists>z. wsys_step y z" if "s_pc y = S_test"
    using that by (cases "cond y") (rule exI, erule s_see s_wait, assumption)+
  then show "s_pc y \<in> {S_test, S_release_lk, S_set, S_sched, S_tidy} \<Longrightarrow> \<exists>z. wsys_step y z"
    by (elim insertE emptyE) (auto intro: s_release_lk s_set s_sched s_tidy)
  have "\<exists>z. wsys_step y z" if "w_pc y = W_test"
    using that
    by (cases "p_state y = SLEEPING \<and> p_chan y") (rule exI, erule w_wake w_skip, assumption)+
  then show "w_pc y \<in> {W_set, W_test, W_release_pl, W_release_lk} \<Longrightarrow> \<exists>z. wsys_step y z"
    by (elim insertE emptyE) (auto intro: w_set w_release_pl w_release_lk)
qed

lemma wsys_free:
  assumes "wsys_inv y"
  shows "lk_owner y = None \<longleftrightarrow> \<not> s_holds_lk (s_pc y) \<and> \<not> w_holds_lk (w_pc y)"
    and "pl_owner y = None \<longleftrightarrow> \<not> s_holds_pl (s_pc y) \<and> \<not> w_holds_pl (w_pc y)"
proof -
  have "x = None \<longleftrightarrow> x \<noteq> Some Sleeper \<and> x \<noteq> Some Waker" for x
    by (metis agent.exhaust option.distinct(1) option.exhaust)
  with assms show "lk_owner y = None \<longleftrightarrow> \<not> s_holds_lk (s_pc y) \<and> \<not> w_holds_lk (w_pc y)"
    and "pl_owner y = None \<longleftrightarrow> \<not> s_holds_pl (s_pc y) \<and> \<not> w_holds_pl (w_pc y)"
    by (simp_all only: wsys_inv_def)
qed

lemma wsys_examined:
  assumes "wsys_inv y"
  shows "cond y \<longleftrightarrow> w_pc y \<notin> {W_acquire_lk, W_set}"
    and "s_pc y \<in> {S_acquire_pl, S_release_lk} \<longrightarrow> \<not> cond y"
    and "s_pc y \<in> {S_set, S_sched} \<or> p_state y = SLEEPING \<longrightarrow>
        w_pc y \<in> {W_acquire_lk, W_set, W_acquire_pl, W_test}"
proof -
  show "cond y \<longleftrightarrow> w_pc y \<notin> {W_acquire_lk, W_set}"
    using assms unfolding wsys_inv_def by (elim conjE)
  show "s_pc y \<in> {S_acquire_pl, S_release_lk} \<longrightarrow> \<not> cond y"
    using assms unfolding wsys_inv_def by (elim conjE)
  show "s_pc y \<in> {S_set, S_sched} \<or> p_state y = SLEEPING \<longrightarrow>
      w_pc y \<in> {W_acquire_lk, W_set, W_acquire_pl, W_test}"
    using assms unfolding wsys_inv_def by (elim conjE)
qed

lemma wsys_stuck:
  assumes "wsys_inv y" and "\<nexists>z. wsys_step y z"
  shows "s_pc y = S_done \<and> w_pc y = W_done"
proof -
  have s: "s_pc y \<notin> {S_test, S_release_lk, S_set, S_sched, S_tidy}"
    and w: "w_pc y \<notin> {W_set, W_test, W_release_pl, W_release_lk}"
    using assms(2) wsys_enabled_always by blast+
  note free = wsys_free [OF assms(1)] s_holds_lk_def s_holds_pl_def w_holds_lk_def w_holds_pl_def
  have pl: "pl_owner y = None" using s w by (simp add: free)
  then have "w_pc y \<noteq> W_acquire_pl" "s_pc y \<noteq> S_acquire_pl"
    using assms(2) wsys_enabled by blast+
  then have lk: "lk_owner y = None" using s w by (simp add: free)
  then have "w_pc y = W_done" "s_pc y \<noteq> S_acquire_lk"
    using assms(2) wsys_enabled w \<open>w_pc y \<noteq> W_acquire_pl\<close> by (cases "w_pc y"; blast)+
  moreover have "s_pc y \<noteq> S_off"
    using assms pl wsys_enabled(3) [of y] \<open>w_pc y = W_done\<close> by (auto simp: wsys_inv_def)
  ultimately show ?thesis
    using s \<open>s_pc y \<noteq> S_acquire_pl\<close> by (cases "s_pc y") auto
qed

section \<open>A pass of the scheduler\<close>

definition m_intr_on :: "machine \<Rightarrow> machine" where
  "m_intr_on m = m\<lparr>csr := (csr m)\<lparr>sstatus := sstatus (csr m) OR SSTATUS_SIE\<rparr>\<rparr>"

lemma intr_on_apply [simp]: "intr_on s = Ok () (s\<lparr>mach := m_intr_on (mach s)\<rparr>)"
  by (simp add: intr_on_def kop_simps r_sstatus_def w_sstatus_def get_csr_def upd_csr_def m_intr_on_def)

lemma m_intr_on_simps [mach_simps, simp]:
  "locks (m_intr_on m) = locks m"
  "cpus (m_intr_on m) = cpus m"
  "syms (m_intr_on m) = syms m"
  "this_cpu (m_intr_on m) = this_cpu m"
  "depth (m_intr_on m) = depth m"
  "cur (m_intr_on m) = cur m"
  "unlocked (m_intr_on m) lk = unlocked m lk"
  "held (m_intr_on m) lk = held m lk"
  "procs_unlocked (m_intr_on m) = procs_unlocked m"
  "depth m = 0 \<Longrightarrow> cpu_ok (m_intr_on m)"
  by (simp_all add: m_intr_on_def this_cpu_def depth_def cur_def unlocked_def held_def
      procs_unlocked_def cpu_ok_def)

lemma scheduler_pass_apply:
  fixes s :: "'z pst_scheme"
  assumes "cpu_ok (mach s)" and "depth (mach s) = 0" and "procs_unlocked (mach s)" and "k < NPROC"
  defines "m \<equiv> if k = 0 then m_intr_on (mach s) else mach s"
  shows "scheduler_pass k s =
    (case List.find (\<lambda>p. state (procs s p) = RUNNABLE) [k..<NPROC] of
       Some p \<Rightarrow> Ok (Some p) (s\<lparr>mach := m_acquire (LkProc p) (m_setproc (Some p) m),
            procs := (procs s)(p := (procs s p)\<lparr>state := RUNNING\<rparr>)\<rparr>)
     | None \<Rightarrow> Ok None (s\<lparr>mach := m_note m\<rparr>))"
proof -
  have "cpu_ok m" and "procs_unlocked m" using assms by (simp_all add: m_def)
  moreover have "scheduler_pass k s = for_until [k..<NPROC] scheduler_enter (s\<lparr>mach := m\<rparr>)"
    by (simp add: scheduler_pass_def kop_simps m_def)
  ultimately show ?thesis
    using scheduler_scan_apply [of "s\<lparr>mach := m\<rparr>" k] assms(4) by (simp cong: option.case_cong)
qed

section \<open>Properties\<close>

text \<open>
  C11 (\<^verbatim>\<open>proc.c\<close>, the life of a sleep): a process that holds only the lock \<open>lk\<close> and calls
  \<^verbatim>\<open>sleep(chan, lk)\<close> gives up the CPU in state SLEEPING with \<open>lk\<close> released and its own lock held;
  the scheduler then releases that lock and has no current process; \<^verbatim>\<open>wakeup(chan)\<close> makes the process
  RUNNABLE; the scheduler can switch to it; and \<^verbatim>\<open>sleep\<close> returns with \<open>lk\<close> held again, at the
  depth it was called at, the channel cleared and the rest of the process untouched.
\<close>

theorem sleep_wakeup_roundtrip:
  assumes "mach s = m_acquire lk m" and "unlocked m lk" and "procs_unlocked m"
    and "cpu_ok m" and "depth m = 0" and "cur m = Some p" and "p < NPROC" and "\<forall>q. lk \<noteq> LkProc q"
  shows "\<exists>t1 t2 t3 t4 t5.
    sleep ch lk s = Blocked t1 \<and> state (procs t1 p) = SLEEPING \<and> unlocked (mach t1) lk \<and> held (mach t1) (LkProc p) \<and>
    scheduler_leave p t1 = Ok () t2 \<and> procs_unlocked (mach t2) \<and> cur (mach t2) = None \<and>
    wakeup ch t2 = Ok () t3 \<and> state (procs t3 p) = RUNNABLE \<and>
    scheduler_enter p t3 = Ok (Some p) t4 \<and>
    sleep_resume ie lk t4 = Ok () t5 \<and> held (mach t5) lk \<and> depth (mach t5) = depth (mach s) \<and>
    procs t5 p = (procs s p)\<lparr>chan := None, state := RUNNING\<rparr>"
proof -
  have free: "unlocked m (LkProc p)" using assms(3,7) by (simp add: procs_unlocked_def)
  let ?x = "(procs s p)\<lparr>chan := Some ch, state := SLEEPING\<rparr>"
  let ?t1 = "s\<lparr>mach := m_acquire (LkProc p) m, procs := (procs s)(p := ?x)\<rparr>"
  let ?n = "m_note (m_setproc None m)"
  let ?t2 = "?t1\<lparr>mach := ?n\<rparr>"
  let ?ps = "\<lambda>q. if q < NPROC then wake ch (((procs s)(p := ?x)) q) else ((procs s)(p := ?x)) q"
  let ?t3 = "?t1\<lparr>mach := ?n, procs := ?ps\<rparr>"
  let ?m4 = "m_setproc (Some p) ?n"
  let ?t4 = "?t1\<lparr>mach := m_acquire (LkProc p) ?m4, procs := ?ps(p := (?ps p)\<lparr>state := RUNNING\<rparr>)\<rparr>"
  have b: "sleep ch lk s = Blocked ?t1"
    using assms free by (intro sleep_apply) simp_all
  have l: "scheduler_leave p ?t1 = Ok () ?t2"
    using scheduler_leave_apply [of ?t1 p m] free assms(4) by simp
  have w: "wakeup ch ?t2 = Ok () ?t3"
    using wakeup_apply [of ?t2 ch] assms(3,4) by (simp cong: if_cong)
  have runnable: "?ps p = (procs s p)\<lparr>chan := Some ch, state := RUNNABLE\<rparr>"
    using assms(7) by (simp add: wake_def)
  have e: "scheduler_enter p ?t3 = Ok (Some p) ?t4"
    using scheduler_enter_apply [of ?t3 p] free assms(4) runnable by simp
  have "\<exists>t. sleep_resume ie lk ?t4 = Ok () t \<and> procs t = (procs ?t4)(p := (procs ?t4 p)\<lparr>chan := None\<rparr>) \<and>
    depth (mach t) = depth ?m4 + 1 \<and> held (mach t) lk \<and> unlocked (mach t) (LkProc p)"
    using assms free by (intro sleep_resume_apply) simp_all
  then obtain t5 where r: "sleep_resume ie lk ?t4 = Ok () t5"
    and t5: "procs t5 p = (procs ?t4 p)\<lparr>chan := None\<rparr>" "depth (mach t5) = depth m + 1" "held (mach t5) lk"
    by auto
  have "procs t5 p = (procs s p)\<lparr>chan := None, state := RUNNING\<rparr>"
    using t5(1) runnable by (cases "procs s p") simp
  moreover have "state (procs ?t1 p) = SLEEPING" "unlocked (mach ?t1) lk" "held (mach ?t1) (LkProc p)"
    using assms by simp_all
  moreover have "procs_unlocked (mach ?t2)" "cur (mach ?t2) = None"
    using assms(3) by simp_all
  moreover have "state (procs ?t3 p) = RUNNABLE" using runnable by simp
  moreover have "depth (mach t5) = depth (mach s)" using t5(2) assms(1) by simp
  ultimately show ?thesis
    using b l w e r t5(3) by blast
qed

definition idle_proc :: proc where
  "idle_proc = \<lparr>state = UNUSED, parent = None, chan = None, killed = False, xstate = 0, pid = 0,
     kstack = 0, psz = 0, ppagetable = 0, ptrapframe = 0,
     pcontext = \<lparr>ra = 0, sp = 0, s0 = 0, s1 = 0, s2 = 0, s3 = 0, s4 = 0, s5 = 0, s6 = 0, s7 = 0,
       s8 = 0, s9 = 0, s10 = 0, s11 = 0\<rparr>,
     ofile = replicate NOFILE None, cwd = None, pname = []\<rparr>"

definition idle_pst :: pst where
  "idle_pst = \<lparr>mach = idle_machine, procs = (\<lambda>_. idle_proc), nextpid = 1, initproc = None\<rparr>"

lemma idle_pst_simps [simp]:
  "mach idle_pst = idle_machine" "procs idle_pst = (\<lambda>_. idle_proc)"
  by (simp_all add: idle_pst_def)

lemma idle_procs_unlocked [simp]: "procs_unlocked idle_machine"
  by (simp add: procs_unlocked_def)

theorem sleep_wakeup_roundtrip_witness:
  "\<exists>t. sleep ChTicks LkTicks
        (idle_pst\<lparr>mach := m_acquire LkTicks (m_setproc (Some 3) idle_machine)\<rparr>) = Blocked t
     \<and> state (procs t 3) = SLEEPING"
  (is "\<exists>t. sleep _ _ ?s = _ t \<and> _")
proof -
  have "mach ?s = m_acquire LkTicks (m_setproc (Some 3) idle_machine)"
    and "unlocked (m_setproc (Some 3) idle_machine) LkTicks"
    and "procs_unlocked (m_setproc (Some 3) idle_machine)"
    and "cpu_ok (m_setproc (Some 3) idle_machine)"
    and "depth (m_setproc (Some 3) idle_machine) = 0"
    and "cur (m_setproc (Some 3) idle_machine) = Some 3"
    and "3 < NPROC" and "\<forall>q. LkTicks \<noteq> LkProc q"
    by (simp_all add: NPROC_def)
  from sleep_wakeup_roundtrip [OF this, of ChTicks False] show ?thesis
    by (elim exE conjE) (rule exI, rule conjI)
qed

text \<open>
  C5 (\<^verbatim>\<open>proc.c\<close>, \<^verbatim>\<open>sleep\<close> against \<^verbatim>\<open>wakeup\<close> on two harts): no wakeup is lost and no deadlock is
  reachable. Once the waker has examined the sleeper, the sleeper is not SLEEPING and not on its
  way to sleep; and a reachable state in which nobody can move is one where the waker has finished
  and the sleeper has seen the condition.
\<close>

theorem no_lost_wakeup:
  assumes "wsys_init x" and "rtranclp wsys_step x y"
  shows "(w_pc y \<in> {W_release_pl, W_release_lk, W_done} \<longrightarrow>
            p_state y \<noteq> SLEEPING \<and> s_pc y \<notin> {S_acquire_pl, S_release_lk, S_set, S_sched}) \<and>
         ((\<nexists>z. wsys_step y z) \<longrightarrow> s_pc y = S_done \<and> w_pc y = W_done)"
proof -
  have inv: "wsys_inv y" using wsys.reachable_inv [OF assms] .
  have "p_state y \<noteq> SLEEPING \<and> s_pc y \<notin> {S_acquire_pl, S_release_lk, S_set, S_sched}"
    if "w_pc y \<in> {W_release_pl, W_release_lk, W_done}"
    using wsys_examined [OF inv] that by (cases "s_pc y"; cases "w_pc y") simp_all
  with wsys_stuck [OF inv] show ?thesis by blast
qed

definition wsys_start :: wsys where
  "wsys_start = \<lparr>cond = False, lk_owner = None, pl_owner = None, p_state = RUNNING, p_chan = False,
     s_pc = S_acquire_lk, w_pc = W_acquire_lk\<rparr>"

theorem no_lost_wakeup_witness:
  "\<exists>y. rtranclp wsys_step wsys_start y \<and> s_pc y = S_acquire_pl \<and> \<not> w_pc y = W_done"
proof -
  let ?y1 = "wsys_start\<lparr>lk_owner := Some Sleeper, s_pc := S_test\<rparr>"
  let ?y2 = "?y1\<lparr>s_pc := S_acquire_pl\<rparr>"
  have "wsys_step wsys_start ?y1" by (rule s_acquire_lk) (simp_all add: wsys_start_def)
  moreover have "wsys_step ?y1 ?y2" by (rule s_wait) (simp_all add: wsys_start_def)
  ultimately have r: "rtranclp wsys_step wsys_start ?y2" by simp
  moreover have "wsys_init wsys_start" by (simp add: wsys_init_def wsys_start_def)
  ultimately have "w_pc ?y2 \<noteq> W_done"
    using no_lost_wakeup [of wsys_start ?y2] by (simp add: wsys_start_def)
  with r show ?thesis by (intro exI [of _ ?y2]) simp
qed

text \<open>
  C13 (\<^verbatim>\<open>proc.c\<close>, \<^verbatim>\<open>scheduler\<close>): a pass of the scheduler from slot \<open>k\<close> switches to the first
  RUNNABLE process at or after \<open>k\<close>, which becomes RUNNING and the CPU's current process with its
  lock held and no other process lock taken; with none RUNNABLE it reaches the end of the table
  with every process as it was and no lock held. It never panics and never spins.
\<close>

theorem scheduler_picks_first_runnable:
  assumes "cpu_ok (mach s)" and "depth (mach s) = 0" and "procs_unlocked (mach s)" and "k < NPROC"
  shows "\<exists>r t. scheduler_pass k s = Ok r t \<and>
    (case r of
       Some p \<Rightarrow> k \<le> p \<and> p < NPROC \<and> state (procs s p) = RUNNABLE \<and>
         (\<forall>q. k \<le> q \<and> q < p \<longrightarrow> state (procs s q) \<noteq> RUNNABLE) \<and>
         procs t = (procs s)(p := (procs s p)\<lparr>state := RUNNING\<rparr>) \<and>
         cur (mach t) = Some p \<and> held (mach t) (LkProc p) \<and> depth (mach t) = 1 \<and>
         (\<forall>q < NPROC. q \<noteq> p \<longrightarrow> unlocked (mach t) (LkProc q))
     | None \<Rightarrow> (\<forall>q. k \<le> q \<and> q < NPROC \<longrightarrow> state (procs s q) \<noteq> RUNNABLE) \<and>
         procs t = procs s \<and> procs_unlocked (mach t) \<and> depth (mach t) = 0)"
proof (cases "List.find (\<lambda>p. state (procs s p) = RUNNABLE) [k..<NPROC]")
  case None
  then have "\<forall>q. k \<le> q \<and> q < NPROC \<longrightarrow> state (procs s q) \<noteq> RUNNABLE"
    by (simp add: find_upt_None)
  moreover from None obtain t where "scheduler_pass k s = Ok None t" and "procs t = procs s"
    and "procs_unlocked (mach t)" and "depth (mach t) = 0"
    using assms by (simp add: scheduler_pass_apply)
  ultimately show ?thesis by (intro exI [of _ None] exI [of _ t]) simp
next
  case (Some p)
  then have "k \<le> p \<and> p < NPROC \<and> state (procs s p) = RUNNABLE \<and>
      (\<forall>q. k \<le> q \<and> q < p \<longrightarrow> state (procs s q) \<noteq> RUNNABLE)"
    by (simp add: find_upt_Some)
  moreover have "unlocked (mach s) (LkProc q)" if "q < NPROC" for q
    using that assms(3) by (simp add: procs_unlocked_def)
  moreover from Some obtain t where "scheduler_pass k s = Ok (Some p) t"
    and "procs t = (procs s)(p := (procs s p)\<lparr>state := RUNNING\<rparr>)"
    and "cur (mach t) = Some p" and "held (mach t) (LkProc p)" and "depth (mach t) = 1"
    and "\<And>q. q \<noteq> p \<Longrightarrow> unlocked (mach t) (LkProc q) = unlocked (mach s) (LkProc q)"
    using assms by (simp add: scheduler_pass_apply)
  ultimately show ?thesis by (intro exI [of _ "Some p"] exI [of _ t]) simp
qed

theorem scheduler_picks_first_runnable_witness:
  "\<exists>t. scheduler_pass 0 (idle_pst\<lparr>procs := (\<lambda>p. if p = 5 then idle_proc\<lparr>state := RUNNABLE\<rparr> else idle_proc)\<rparr>) = Ok (Some 5) t"
  (is "\<exists>t. scheduler_pass 0 ?s = _ t")
proof -
  have "cpu_ok (mach ?s)" "depth (mach ?s) = 0" "procs_unlocked (mach ?s)" "0 < NPROC"
    by (simp_all add: NPROC_def)
  note first = scheduler_picks_first_runnable [OF this]
  have state: "state (procs ?s p) = RUNNABLE \<longleftrightarrow> p = 5" for p
    by (simp add: idle_proc_def)
  show ?thesis
    using first unfolding state
    apply (elim exE conjE)
    subgoal for r t
      by (cases r) (auto simp: NPROC_def dest: spec [of _ 5])
    done
qed

end
