(* ===== verification/Sleeplock.thy ===== *)
theory Sleeplock
  imports Sched
begin

text \<open>
  Sleep locks (\<^verbatim>\<open>kernel/sleeplock.c\<close>, \<^verbatim>\<open>sleeplock.h\<close>): long-term locks whose waiters give up the
  CPU. A sleep lock is identified by its inner spin lock \<^verbatim>\<open>lk->lk\<close>, whose identifier also names the
  channel its waiters sleep on. The loop of \<^verbatim>\<open>acquiresleep\<close> is split at the point where the caller
  sleeps: \<open>acquiresleep_loop\<close> is one round of it and \<open>acquiresleep_resume\<close> what follows a wakeup.
\<close>

section \<open>Data and operations\<close>

record sleeplock =
  sl_locked :: uint
  sl_name :: string
  sl_pid :: int

record slst = pst +
  slocks :: "lockid \<Rightarrow> sleeplock"

definition get_sl :: "lockid \<Rightarrow> (sleeplock \<Rightarrow> 'a) \<Rightarrow> ('a, 'z slst_scheme) kop" where
  "get_sl lk f = gets (\<lambda>s. f (slocks s lk))"

definition upd_sl :: "lockid \<Rightarrow> (sleeplock \<Rightarrow> sleeplock) \<Rightarrow> (unit, 'z slst_scheme) kop" where
  "upd_sl lk f = modify (\<lambda>s. s\<lparr>slocks := (slocks s)(lk := f (slocks s lk))\<rparr>)"

definition initsleeplock :: "lockid \<Rightarrow> string \<Rightarrow> (unit, 'z slst_scheme) kop" where
  "initsleeplock lk nm =
     thn (initlock lk ''sleep lock'') (
     thn (upd_sl lk (\<lambda>x. x\<lparr>sl_name := nm\<rparr>)) (
     thn (upd_sl lk (\<lambda>x. x\<lparr>sl_locked := 0\<rparr>))
         (upd_sl lk (\<lambda>x. x\<lparr>sl_pid := 0\<rparr>))))"

definition acquiresleep_loop :: "lockid \<Rightarrow> (unit, 'z slst_scheme) kop" where
  "acquiresleep_loop lk =
     bnd (get_sl lk sl_locked) (\<lambda>l.
     if l \<noteq> 0 then sleep (ChSleepLock lk) lk
     else thn (upd_sl lk (\<lambda>x. x\<lparr>sl_locked := 1\<rparr>)) (
          bnd curproc (\<lambda>p.
          bnd (get_proc p pid) (\<lambda>i.
          thn (upd_sl lk (\<lambda>x. x\<lparr>sl_pid := i\<rparr>))
              (release lk)))))"

definition acquiresleep :: "lockid \<Rightarrow> (unit, 'z slst_scheme) kop" where
  "acquiresleep lk = thn (acquire lk) (acquiresleep_loop lk)"

definition acquiresleep_resume :: "bool \<Rightarrow> lockid \<Rightarrow> (unit, 'z slst_scheme) kop" where
  "acquiresleep_resume ie lk = thn (sleep_resume ie lk) (acquiresleep_loop lk)"

definition releasesleep :: "lockid \<Rightarrow> (unit, 'z slst_scheme) kop" where
  "releasesleep lk =
     thn (acquire lk) (
     thn (upd_sl lk (\<lambda>x. x\<lparr>sl_locked := 0\<rparr>)) (
     thn (upd_sl lk (\<lambda>x. x\<lparr>sl_pid := 0\<rparr>)) (
     thn (wakeup (ChSleepLock lk))
         (release lk))))"

definition holdingsleep :: "lockid \<Rightarrow> (bool, 'z slst_scheme) kop" where
  "holdingsleep lk =
     thn (acquire lk) (
     bnd (get_sl lk sl_locked) (\<lambda>l.
     bnd (get_sl lk sl_pid) (\<lambda>i.
     bnd (if l \<noteq> 0 then bnd curproc (\<lambda>p. bnd (get_proc p pid) (\<lambda>j. ret (i = j))) else ret False) (\<lambda>r.
     thn (release lk)
         (ret r)))))"

section \<open>Effects\<close>

lemma get_sl_apply [simp]: "get_sl lk f s = Ok (f (slocks s lk)) s"
  by (simp add: get_sl_def)

lemma upd_sl_apply [simp]: "upd_sl lk f s = Ok () (s\<lparr>slocks := (slocks s)(lk := f (slocks s lk))\<rparr>)"
  by (simp add: upd_sl_def)

lemma slocks_last [simp]:
  "s\<lparr>slocks := x, mach := m\<rparr> = s\<lparr>mach := m, slocks := x\<rparr>"
  "s\<lparr>slocks := x, procs := p\<rparr> = s\<lparr>procs := p, slocks := x\<rparr>" for s :: "'z slst_scheme"
  by (cases s; simp)+

text \<open>
  The spin locks that are not process locks: a sleep lock's inner lock is one of them, so holding
  it leaves every process lock free for \<^verbatim>\<open>wakeup\<close>.
\<close>

definition not_proc_lock :: "lockid \<Rightarrow> bool" where
  "not_proc_lock lk \<longleftrightarrow> (\<forall>q. lk \<noteq> LkProc q)"

lemma not_proc_lock_simps [simp]:
  "not_proc_lock (LkBufSleep i)" "not_proc_lock (LkInodeSleep i)" "not_proc_lock LkBcache"
  "not_proc_lock LkLog" "not_proc_lock LkIcache" "not_proc_lock LkFtable" "not_proc_lock LkTicks"
  "not_proc_lock LkCons" "not_proc_lock LkUart" "not_proc_lock LkDisk" "not_proc_lock (LkPipe a)"
  "not_proc_lock LkKmem" "not_proc_lock LkPid"
  by (simp_all add: not_proc_lock_def)

lemma not_proc_lockD [simp]: "not_proc_lock lk \<Longrightarrow> lk \<noteq> LkProc q"
  by (simp add: not_proc_lock_def)

lemma procs_unlocked_acquire [simp]:
  "not_proc_lock lk \<Longrightarrow> procs_unlocked (m_acquire lk m) = procs_unlocked m"
  by (simp add: not_proc_lock_def)

definition sl_take :: "lockid \<Rightarrow> int \<Rightarrow> ('z slst_scheme) \<Rightarrow> 'z slst_scheme" where
  "sl_take lk i s = s\<lparr>mach := m_note (mach s),
     slocks := (slocks s)(lk := (slocks s lk)\<lparr>sl_locked := 1, sl_pid := i\<rparr>)\<rparr>"

lemma acquiresleep_free:
  assumes "cpu_ok (mach s)" and "unlocked (mach s) lk" and "cur (mach s) = Some p"
    and "sl_locked (slocks s lk) = 0"
  shows "acquiresleep lk s = Ok () (sl_take lk (pid (procs s p)) s)"
  using assms
  by (simp add: acquiresleep_def acquiresleep_loop_def critical_section curproc_Some sl_take_def)

lemma acquiresleep_busy:
  assumes "cpu_ok (mach s)" and "unlocked (mach s) lk" and "cur (mach s) = Some p"
    and "depth (mach s) = 0" and "unlocked (mach s) (LkProc p)"
    and "sl_locked (slocks s lk) \<noteq> 0"
  shows "acquiresleep lk s =
    Blocked (s\<lparr>mach := m_acquire (LkProc p) (mach s),
      procs := (procs s)(p := (procs s p)\<lparr>chan := Some (ChSleepLock lk), state := SLEEPING\<rparr>)\<rparr>)"
proof -
  have "sleep (ChSleepLock lk) lk (s\<lparr>mach := m_acquire lk (mach s)\<rparr>) =
    Blocked (s\<lparr>mach := m_acquire (LkProc p) (mach s),
      procs := (procs s)(p := (procs s p)\<lparr>chan := Some (ChSleepLock lk), state := SLEEPING\<rparr>)\<rparr>)"
    using assms sleep_apply [of "s\<lparr>mach := m_acquire lk (mach s)\<rparr>" lk "mach s" p "ChSleepLock lk"]
    by simp
  with assms show ?thesis
    by (simp add: acquiresleep_def acquiresleep_loop_def acquire_apply kop_simps)
qed

definition sl_drop :: "lockid \<Rightarrow> ('z slst_scheme) \<Rightarrow> 'z slst_scheme" where
  "sl_drop lk s = s\<lparr>mach := m_note (mach s),
     procs := wake_all (ChSleepLock lk) (procs s),
     slocks := (slocks s)(lk := (slocks s lk)\<lparr>sl_locked := 0, sl_pid := 0\<rparr>)\<rparr>"

lemma releasesleep_apply:
  assumes "cpu_ok (mach s)" and "unlocked (mach s) lk" and "procs_unlocked (mach s)" and "not_proc_lock lk"
  shows "releasesleep lk s = Ok () (sl_drop lk s)"
  using assms
  by (simp add: releasesleep_def critical_section wakeup_all sl_drop_def)

lemma holdingsleep_apply:
  assumes "cpu_ok (mach s)" and "unlocked (mach s) lk" and "cur (mach s) = Some p"
  shows "holdingsleep lk s =
    Ok (sl_locked (slocks s lk) \<noteq> 0 \<and> sl_pid (slocks s lk) = pid (procs s p)) (s\<lparr>mach := m_note (mach s)\<rparr>)"
  using assms
  by (simp add: holdingsleep_def critical_section curproc_Some)

lemma sl_take_simps [simp]:
  "mach (sl_take lk i s) = m_note (mach s)"
  "procs (sl_take lk i s) = procs s"
  "slocks (sl_take lk i s) = (slocks s)(lk := (slocks s lk)\<lparr>sl_locked := 1, sl_pid := i\<rparr>)"
  by (simp_all add: sl_take_def)

lemma sl_drop_simps [simp]:
  "mach (sl_drop lk s) = m_note (mach s)"
  "procs (sl_drop lk s) = wake_all (ChSleepLock lk) (procs s)"
  "slocks (sl_drop lk s) = (slocks s)(lk := (slocks s lk)\<lparr>sl_locked := 0, sl_pid := 0\<rparr>)"
  by (simp_all add: sl_drop_def)

section \<open>Property\<close>

text \<open>
  C14 (\<^verbatim>\<open>sleeplock.c\<close>): a process that calls \<^verbatim>\<open>acquiresleep\<close> on a free sleep lock gets it and
  \<^verbatim>\<open>holdingsleep\<close> then answers true for it; called by another process while it is held it blocks
  that process SLEEPING on the lock's channel with the lock and its holder unchanged; and
  \<^verbatim>\<open>releasesleep\<close> frees the lock and makes exactly the processes sleeping on it RUNNABLE, after
  which the lock can be taken again.
\<close>

theorem sleeplock_contract:
  assumes "cpu_ok (mach s)" and "depth (mach s) = 0" and "unlocked (mach s) lk"
    and "procs_unlocked (mach s)" and "not_proc_lock lk"
    and "cur (mach s) = Some p" and "p < NPROC"
  shows "(sl_locked (slocks s lk) = 0 \<longrightarrow>
            (\<exists>t u. acquiresleep lk s = Ok () t \<and> holdingsleep lk t = Ok True u \<and> slocks u = slocks t \<and>
                 procs u = procs s \<and> (\<forall>l. l \<noteq> lk \<longrightarrow> slocks u l = slocks s l))) \<and>
         (sl_locked (slocks s lk) \<noteq> 0 \<longrightarrow>
            (\<exists>t. acquiresleep lk s = Blocked t \<and> slocks t = slocks s \<and>
               state (procs t p) = SLEEPING \<and> chan (procs t p) = Some (ChSleepLock lk) \<and>
               (\<forall>q. q \<noteq> p \<longrightarrow> procs t q = procs s q))) \<and>
         (\<exists>t u. releasesleep lk s = Ok () t \<and>
            (\<forall>q < NPROC. state (procs t q) =
               (if state (procs s q) = SLEEPING \<and> chan (procs s q) = Some (ChSleepLock lk)
                then RUNNABLE else state (procs s q))) \<and>
            acquiresleep lk t = Ok () u)"
proof -
  have free: "unlocked (mach s) (LkProc p)"
    using assms by (simp add: procs_unlocked_def)
  have drop: "releasesleep lk s = Ok () (sl_drop lk s)"
    using assms by (simp add: releasesleep_apply)
  have again: "acquiresleep lk (sl_drop lk s) = Ok () (sl_take lk (pid (procs (sl_drop lk s) p)) (sl_drop lk s))"
    using assms by (intro acquiresleep_free) simp_all
  have woken: "state (procs (sl_drop lk s) q) =
      (if state (procs s q) = SLEEPING \<and> chan (procs s q) = Some (ChSleepLock lk)
       then RUNNABLE else state (procs s q))" if "q < NPROC" for q
    using that by (simp add: wake_all_def wake_def)
  have busy: "\<exists>t. acquiresleep lk s = Blocked t \<and> slocks t = slocks s \<and>
      state (procs t p) = SLEEPING \<and> chan (procs t p) = Some (ChSleepLock lk) \<and>
      (\<forall>q. q \<noteq> p \<longrightarrow> procs t q = procs s q)" if "sl_locked (slocks s lk) \<noteq> 0"
    using that assms free by (simp add: acquiresleep_busy)
  have take: "\<exists>t u. acquiresleep lk s = Ok () t \<and> holdingsleep lk t = Ok True u \<and> slocks u = slocks t \<and>
      procs u = procs s \<and> (\<forall>l. l \<noteq> lk \<longrightarrow> slocks u l = slocks s l)" if "sl_locked (slocks s lk) = 0"
    using that assms by (simp add: acquiresleep_free holdingsleep_apply)
  from drop again woken busy take show ?thesis by blast
qed

definition idle_slst :: slst where
  "idle_slst = \<lparr>mach = m_setproc (Some 2) idle_machine, procs = (\<lambda>_. idle_proc), nextpid = 1,
     initproc = None, slocks = (\<lambda>_. \<lparr>sl_locked = 0, sl_name = [], sl_pid = 0\<rparr>)\<rparr>"

theorem sleeplock_contract_witness:
  "\<exists>t u. acquiresleep (LkBufSleep 4) idle_slst = Ok () t \<and> holdingsleep (LkBufSleep 4) t = Ok True u"
proof -
  have "cpu_ok (mach idle_slst)" "depth (mach idle_slst) = 0" "unlocked (mach idle_slst) (LkBufSleep 4)"
    "procs_unlocked (mach idle_slst)" "not_proc_lock (LkBufSleep 4)" "cur (mach idle_slst) = Some 2" "2 < NPROC"
    by (simp_all add: idle_slst_def NPROC_def)
  from sleeplock_contract [OF this, THEN conjunct1] show ?thesis
    by (auto simp: idle_slst_def)
qed

end
