(* ===== verification/Memory.thy ===== *)
theory Memory
  imports Sleeplock
begin

text \<open>
  Physical memory as the kernel sees it (its page table maps RAM to the same addresses), and the
  routines of \<^verbatim>\<open>kernel/string.c\<close>. Memory is a function from 64-bit addresses to bytes; address
  arithmetic wraps. \<^verbatim>\<open>memset\<close>, \<^verbatim>\<open>memmove\<close> and \<^verbatim>\<open>memcpy\<close> are loops over memory; the routines
  that only read C strings (\<^verbatim>\<open>memcmp\<close>, \<^verbatim>\<open>strncmp\<close>, \<^verbatim>\<open>strlen\<close>) take the bytes their pointers
  point at as functions of the offset, and \<^verbatim>\<open>strncpy\<close> and \<^verbatim>\<open>safestrcpy\<close> give the bytes they
  store (their callers pass buffers that do not overlap). \<^verbatim>\<open>char\<close> is unsigned on RISC-V.
\<close>

section \<open>Byte memory\<close>

type_synonym memory = "addr \<Rightarrow> uchar"

record mst = slst +
  mem :: memory

definition mem_read :: "memory \<Rightarrow> addr \<Rightarrow> nat \<Rightarrow> uchar list" where
  "mem_read m a n = map (\<lambda>i. m (a + of_nat i)) [0..<n]"

definition mem_write :: "memory \<Rightarrow> addr \<Rightarrow> uchar list \<Rightarrow> memory" where
  "mem_write m a bs = (\<lambda>x. if unat (x - a) < length bs then bs ! unat (x - a) else m x)"

definition load8 :: "addr \<Rightarrow> (uchar, 'z mst_scheme) kop" where
  "load8 a = gets (\<lambda>s. mem s a)"

definition store8 :: "addr \<Rightarrow> uchar \<Rightarrow> (unit, 'z mst_scheme) kop" where
  "store8 a v = modify (\<lambda>s. s\<lparr>mem := (mem s)(a := v)\<rparr>)"

definition mem64 :: "memory \<Rightarrow> addr \<Rightarrow> uint64" where
  "mem64 m a = le_word (mem_read m a 8)"

definition mem_put64 :: "memory \<Rightarrow> addr \<Rightarrow> uint64 \<Rightarrow> memory" where
  "mem_put64 m a v = mem_write m a (le_bytes 8 v)"

definition load64 :: "addr \<Rightarrow> (uint64, 'z mst_scheme) kop" where
  "load64 a = gets (\<lambda>s. mem64 (mem s) a)"

definition store64 :: "addr \<Rightarrow> uint64 \<Rightarrow> (unit, 'z mst_scheme) kop" where
  "store64 a v = modify (\<lambda>s. s\<lparr>mem := mem_put64 (mem s) a v\<rparr>)"

section \<open>string.c\<close>

definition memset :: "addr \<Rightarrow> int \<Rightarrow> uint \<Rightarrow> (addr, 'z mst_scheme) kop" where
  "memset dst c n =
     thn (for_each [0..<unat n] (\<lambda>i. store8 (dst + of_nat i) (of_int c)))
         (ret dst)"

type_synonym cptr = "nat \<Rightarrow> uchar"

text \<open>\<open>memcmp_loop\<close> has the count still to go and the offset reached.\<close>

fun memcmp_loop :: "cptr \<Rightarrow> cptr \<Rightarrow> nat \<Rightarrow> nat \<Rightarrow> int" where
  "memcmp_loop p q i 0 = 0"
| "memcmp_loop p q i (Suc n) =
     (if p i \<noteq> q i then uint (p i) - uint (q i) else memcmp_loop p q (i + 1) n)"

definition memcmp :: "cptr \<Rightarrow> cptr \<Rightarrow> uint \<Rightarrow> int" where
  "memcmp v1 v2 n = memcmp_loop v1 v2 0 (unat n)"

definition copy_byte :: "addr \<Rightarrow> addr \<Rightarrow> nat \<Rightarrow> (unit, 'z mst_scheme) kop" where
  "copy_byte dst src i = bnd (load8 (src + of_nat i)) (\<lambda>v. store8 (dst + of_nat i) v)"

definition memmove :: "addr \<Rightarrow> addr \<Rightarrow> uint \<Rightarrow> (addr, 'z mst_scheme) kop" where
  "memmove dst src n =
     (if src < dst \<and> src + ucast n > dst
      then thn (for_each (rev [0..<unat n]) (copy_byte dst src)) (ret dst)
      else thn (for_each [0..<unat n] (copy_byte dst src)) (ret dst))"

definition memcpy :: "addr \<Rightarrow> addr \<Rightarrow> uint \<Rightarrow> (addr, 'z mst_scheme) kop" where
  "memcpy dst src n = memmove dst src n"

fun strncmp_loop :: "cptr \<Rightarrow> cptr \<Rightarrow> nat \<Rightarrow> nat \<Rightarrow> int" where
  "strncmp_loop p q i 0 = 0"
| "strncmp_loop p q i (Suc n) =
     (if p i \<noteq> 0 \<and> p i = q i then strncmp_loop p q (i + 1) n
      else uint (p i) - uint (q i))"

definition strncmp :: "cptr \<Rightarrow> cptr \<Rightarrow> uint \<Rightarrow> int" where
  "strncmp p q n = strncmp_loop p q 0 (unat n)"

text \<open>The bytes stored from offset \<open>i\<close> on with \<open>n\<close> of the destination still to fill.\<close>

fun strncpy_loop :: "cptr \<Rightarrow> nat \<Rightarrow> nat \<Rightarrow> uchar list" where
  "strncpy_loop t i 0 = []"
| "strncpy_loop t i (Suc n) =
     (if t i \<noteq> 0 then t i # strncpy_loop t (i + 1) n else 0 # replicate n 0)"

definition strncpy :: "cptr \<Rightarrow> int \<Rightarrow> uchar list" where
  "strncpy t n = strncpy_loop t 0 (nat n)"

fun safestrcpy_loop :: "cptr \<Rightarrow> nat \<Rightarrow> nat \<Rightarrow> uchar list" where
  "safestrcpy_loop t i 0 = []"
| "safestrcpy_loop t i (Suc 0) = [0]"
| "safestrcpy_loop t i (Suc (Suc n)) =
     (if t i \<noteq> 0 then t i # safestrcpy_loop t (i + 1) (Suc n) else [0, 0])"

definition safestrcpy :: "cptr \<Rightarrow> int \<Rightarrow> uchar list" where
  "safestrcpy t n = (if n \<le> 0 then [] else safestrcpy_loop t 0 (nat n))"

partial_function (option) strlen_loop :: "cptr \<Rightarrow> nat \<Rightarrow> nat option" where
  "strlen_loop s n = (if s n \<noteq> 0 then strlen_loop s (n + 1) else Some n)"

definition strlen :: "cptr \<Rightarrow> nat option" where
  "strlen s = strlen_loop s 0"

section \<open>Reading and writing ranges\<close>

text \<open>\<open>x\<close> lies in the \<open>n\<close> bytes from \<open>a\<close> on.\<close>

definition inside :: "addr \<Rightarrow> addr \<Rightarrow> nat \<Rightarrow> bool" where
  "inside x a n \<longleftrightarrow> unat (x - a) < n"

definition apart :: "addr \<Rightarrow> nat \<Rightarrow> addr \<Rightarrow> nat \<Rightarrow> bool" where
  "apart a n b k \<longleftrightarrow> (\<forall>x. \<not> (inside x a n \<and> inside x b k))"

lemma apart_sym: "apart a n b k \<Longrightarrow> apart b k a n"
  by (auto simp: apart_def)

lemma apart_mono: "apart a n b k \<Longrightarrow> n' \<le> n \<Longrightarrow> k' \<le> k \<Longrightarrow> apart a n' b k'"
  unfolding apart_def inside_def by (meson order.strict_trans2)

lemma length_mem_read [simp]: "length (mem_read m a n) = n"
  by (simp add: mem_read_def)

lemma nth_mem_read [simp]: "i < n \<Longrightarrow> mem_read m a n ! i = m (a + of_nat i)"
  by (simp add: mem_read_def)

lemma unat_of_nat_addr: "i < 2 ^ 64 \<Longrightarrow> unat (of_nat i :: addr) = i"
  by (simp add: unat_of_nat)

lemma unat_diff_eq_len:
  "n < 2 ^ LENGTH('a) \<Longrightarrow> unat (x - a :: 'a::len word) = n \<longleftrightarrow> x = a + of_nat n"
  by (auto simp: unat_of_nat algebra_simps)

lemma unat_diff_eq: "n < 2 ^ 64 \<Longrightarrow> unat (x - a) = n \<longleftrightarrow> x = a + of_nat n" for x a :: addr
  by (rule unat_diff_eq_len) simp

lemma unat_uint_bound: "unat n < 2 ^ 32" for n :: uint
proof -
  have "unat n < 2 ^ LENGTH(32)" by (rule unsigned_less)
  then show ?thesis by simp
qed

lemma unat_ucast_uint [simp]: "unat (ucast n :: addr) = unat n" for n :: uint
  using unat_uint_bound [of n] by (simp add: unsigned_ucast_eq take_bit_nat_eq_self)

lemma mem_read_write_same:
  assumes "length bs \<le> 2 ^ 64"
  shows "mem_read (mem_write m a bs) a (length bs) = bs"
  using assms by (intro nth_equalityI) (simp_all add: mem_write_def unat_of_nat_addr)

lemma mem_write_other: "\<not> inside x a (length bs) \<Longrightarrow> mem_write m a bs x = m x"
  by (simp add: mem_write_def inside_def)

lemma mem_write_inside: "inside x a (length bs) \<Longrightarrow> mem_write m a bs x = bs ! unat (x - a)"
  by (simp add: mem_write_def inside_def)

lemma inside_offset: "i < n \<Longrightarrow> i < 2 ^ 64 \<Longrightarrow> inside (a + of_nat i) a n"
  by (simp add: inside_def unat_of_nat_addr)

lemma mem_read_write_apart:
  assumes "apart a (length bs) b n" and "n \<le> 2 ^ 64"
  shows "mem_read (mem_write m a bs) b n = mem_read m b n"
proof (rule nth_equalityI)
  fix i assume "i < length (mem_read (mem_write m a bs) b n)"
  then have "i < n" by simp
  then have "inside (b + of_nat i) b n" using assms(2) by (intro inside_offset) simp_all
  then have "\<not> inside (b + of_nat i) a (length bs)" using assms(1) by (auto simp: apart_def)
  with \<open>i < n\<close> show "mem_read (mem_write m a bs) b n ! i = mem_read m b n ! i"
    by (simp add: mem_write_other)
qed simp

lemma mem64_put64_same [simp]: "mem64 (mem_put64 m a v) a = v"
  using mem_read_write_same [of "le_bytes 8 v" m a]
  by (simp add: mem64_def mem_put64_def le_word_le_bytes take_bit_word_eq_self)

lemma mem64_put64_apart: "apart a 8 b 8 \<Longrightarrow> mem64 (mem_put64 m a v) b = mem64 m b"
  by (simp add: mem64_def mem_put64_def mem_read_write_apart)

lemma mem64_write_apart: "apart a (length bs) b 8 \<Longrightarrow> mem64 (mem_write m a bs) b = mem64 m b"
  by (simp add: mem64_def mem_read_write_apart)

lemma mem_put64_other: "\<not> inside x a 8 \<Longrightarrow> mem_put64 m a v x = m x"
  by (simp add: mem_put64_def mem_write_other)

lemma load8_apply [simp]: "load8 a s = Ok (mem s a) s"
  by (simp add: load8_def)

lemma store8_apply [simp]: "store8 a v s = Ok () (s\<lparr>mem := (mem s)(a := v)\<rparr>)"
  by (simp add: store8_def)

lemma load64_apply [simp]: "load64 a s = Ok (mem64 (mem s) a) s"
  by (simp add: load64_def)

lemma store64_apply [simp]: "store64 a v s = Ok () (s\<lparr>mem := mem_put64 (mem s) a v\<rparr>)"
  by (simp add: store64_def)

lemma mem_last [simp]:
  "s\<lparr>mem := x, mach := m\<rparr> = s\<lparr>mach := m, mem := x\<rparr>"
  "s\<lparr>mem := x, procs := p\<rparr> = s\<lparr>procs := p, mem := x\<rparr>"
  "s\<lparr>mem := x, slocks := l\<rparr> = s\<lparr>slocks := l, mem := x\<rparr>"
  "s\<lparr>mem := x, nextpid := k\<rparr> = s\<lparr>nextpid := k, mem := x\<rparr>"
  "s\<lparr>mem := x, initproc := q\<rparr> = s\<lparr>initproc := q, mem := x\<rparr>" for s :: "'z mst_scheme"
  by (cases s; simp)+

section \<open>The loops over memory\<close>

lemma fold_mem:
  "fold (\<lambda>i s. s\<lparr>mem := f i (mem s)\<rparr>) ns s = s\<lparr>mem := fold f ns (mem s)\<rparr>" for s :: "'z mst_scheme"
  by (induction ns arbitrary: s) simp_all

lemma for_each_mem:
  fixes s :: "'z mst_scheme"
  assumes "\<And>i t. i \<in> set ns \<Longrightarrow> g i t = Ok () (t\<lparr>mem := f i (mem t)\<rparr>)"
  shows "for_each ns g s = Ok () (s\<lparr>mem := fold f ns (mem s)\<rparr>)"
  using for_each_fold [of ns "\<lambda>_. True" g "\<lambda>i t. t\<lparr>mem := f i (mem t)\<rparr>" s] assms
  by (simp add: fold_mem)

text \<open>Storing \<open>v i\<close> at \<open>dst + i\<close> for each \<open>i < n\<close>, in either order, where \<open>v\<close> does not depend on memory.\<close>

lemma fold_store:
  assumes "n \<le> 2 ^ 64"
  shows "fold (\<lambda>i m. m(dst + of_nat i := v i)) [0..<n] m = mem_write m dst (map v [0..<n])"
  using assms
proof (induction n)
  case 0
  then show ?case by (simp add: mem_write_def)
next
  case (Suc n)
  have IH: "fold (\<lambda>i m. m(dst + of_nat i := v i)) [0..<n] m = mem_write m dst (map v [0..<n])"
    using Suc.prems by (intro Suc.IH) simp
  have less: "unat (x - dst) < Suc n \<longleftrightarrow> unat (x - dst) < n \<or> x = dst + of_nat n" for x
    using unat_diff_eq [of n x dst] Suc.prems by auto
  have "fold (\<lambda>i m. m(dst + of_nat i := v i)) [0..<Suc n] m =
      (mem_write m dst (map v [0..<n]))(dst + of_nat n := v n)"
    unfolding IH [symmetric] by (simp del: fun_upd_apply)
  also have "\<dots> = mem_write m dst (map v [0..<Suc n])"
  proof (rule ext)
    fix x
    show "((mem_write m dst (map v [0..<n]))(dst + of_nat n := v n)) x = mem_write m dst (map v [0..<Suc n]) x"
      using Suc.prems less [of x] unat_of_nat_addr [of n] by (auto simp: mem_write_def nth_append)
  qed
  finally show ?case .
qed

lemma memset_apply:
  "memset dst c n s = Ok dst (s\<lparr>mem := mem_write (mem s) dst (replicate (unat n) (of_int c))\<rparr>)"
proof -
  have "fold (\<lambda>i m. m(dst + of_nat i := of_int c)) [0..<unat n] m = mem_write m dst (replicate (unat n) (of_int c))" for m
    using unat_uint_bound [of n] by (subst fold_store) (simp_all add: map_replicate_const)
  moreover have "for_each [0..<unat n] (\<lambda>i. store8 (dst + of_nat i) (of_int c)) s =
      Ok () (s\<lparr>mem := fold (\<lambda>i m. m(dst + of_nat i := of_int c)) [0..<unat n] (mem s)\<rparr>)"
    by (rule for_each_mem) simp
  ultimately show ?thesis by (simp add: memset_def kop_simps)
qed

text \<open>
  A byte-wise copy upwards is a simultaneous copy when the destination does not start inside the
  source, and one downwards when the source does not start inside the destination.
\<close>

lemma addr_offsets:
  fixes src dst :: addr
  assumes "src + of_nat i = dst + of_nat j" and "j < i" and "i < 2 ^ 64"
  shows "unat (dst - src) = i - j"
proof -
  have "dst - src = of_nat i - of_nat j" using assms(1) by (simp add: algebra_simps)
  also have "\<dots> = of_nat (i - j)" using assms(2) by (simp add: of_nat_diff)
  finally have "dst - src = of_nat (i - j)" .
  moreover have "unat (of_nat (i - j) :: addr) = i - j"
    using assms(3) by (intro unat_of_nat_addr) simp
  ultimately show ?thesis by (simp only:)
qed

lemma mem_write_snoc:
  assumes "length bs < 2 ^ 64"
  shows "(mem_write m a bs)(a + of_nat (length bs) := v) = mem_write m a (bs @ [v])"
proof (rule ext)
  fix x
  show "((mem_write m a bs)(a + of_nat (length bs) := v)) x = mem_write m a (bs @ [v]) x"
    using assms unat_diff_eq [of "length bs" x a] by (auto simp: mem_write_def nth_append)
qed

lemma mem_read_Suc: "mem_read m a (Suc n) = mem_read m a n @ [m (a + of_nat n)]"
  by (simp add: mem_read_def)

lemma copy_up:
  assumes "n < 2 ^ 64" and "\<not> (0 < unat (dst - src) \<and> unat (dst - src) < n)"
  shows "fold (\<lambda>i m. m(dst + of_nat i := m (src + of_nat i))) [0..<n] m =
    mem_write m dst (mem_read m src n)"
  using assms
proof (induction n)
  case 0
  then show ?case by (simp add: mem_write_def)
next
  case (Suc n)
  have IH: "fold (\<lambda>i m. m(dst + of_nat i := m (src + of_nat i))) [0..<n] m = mem_write m dst (mem_read m src n)"
    using Suc.prems by (intro Suc.IH) auto
  have "\<not> inside (src + of_nat n) dst n"
  proof
    assume "inside (src + of_nat n) dst n"
    then have j: "unat (src + of_nat n - dst) < n" by (simp add: inside_def)
    have "src + of_nat n = dst + of_nat (unat (src + of_nat n - dst))"
      using j Suc.prems(1) by (intro unat_diff_eq [THEN iffD1]) simp_all
    from addr_offsets [OF this j] Suc.prems j show False by simp
  qed
  then have "mem_write m dst (mem_read m src n) (src + of_nat n) = m (src + of_nat n)"
    by (simp add: mem_write_other)
  then have "fold (\<lambda>i m. m(dst + of_nat i := m (src + of_nat i))) [0..<Suc n] m =
      (mem_write m dst (mem_read m src n))(dst + of_nat n := m (src + of_nat n))"
    unfolding IH [symmetric] by (simp del: fun_upd_apply)
  also have "\<dots> = mem_write m dst (mem_read m src (Suc n))"
    using mem_write_snoc [of "mem_read m src n" m dst "m (src + of_nat n)"] Suc.prems by (simp add: mem_read_Suc)
  finally show ?case .
qed

lemma copy_down:
  assumes "n < 2 ^ 64" and "\<not> (0 < unat (src - dst) \<and> unat (src - dst) < n)"
  shows "fold (\<lambda>i m. m(dst + of_nat i := m (src + of_nat i))) (rev [0..<n]) m =
    mem_write m dst (mem_read m src n)"
  using assms
proof (induction n arbitrary: m)
  case 0
  then show ?case by (simp add: mem_write_def)
next
  case (Suc n)
  let ?m = "m(dst + of_nat n := m (src + of_nat n))"
  have "dst + of_nat n \<noteq> src + of_nat i" if "i < n" for i
    using addr_offsets [of dst n src i] that Suc.prems by auto
  then have read: "mem_read ?m src n = mem_read m src n"
    by (intro nth_equalityI) (auto simp: eq_commute)
  have "fold (\<lambda>i m. m(dst + of_nat i := m (src + of_nat i))) (rev [0..<Suc n]) m =
      fold (\<lambda>i m. m(dst + of_nat i := m (src + of_nat i))) (rev [0..<n]) ?m"
    by (simp del: fun_upd_apply)
  also have "\<dots> = mem_write ?m dst (mem_read ?m src n)"
    using Suc.prems by (intro Suc.IH) auto
  also have "\<dots> = (mem_write m dst (mem_read m src n))(dst + of_nat n := m (src + of_nat n))"
    unfolding read using Suc.prems unat_of_nat_addr [of n] by (auto simp: mem_write_def)
  also have "\<dots> = mem_write m dst (mem_read m src (Suc n))"
    using mem_write_snoc [of "mem_read m src n" m dst "m (src + of_nat n)"] Suc.prems by (simp add: mem_read_Suc)
  finally show ?case .
qed

lemma memmove_apply:
  assumes "unat src + unat n < 2 ^ 64" and "unat dst + unat n < 2 ^ 64"
  shows "memmove dst src n s = Ok dst (s\<lparr>mem := mem_write (mem s) dst (mem_read (mem s) src (unat n))\<rparr>)"
proof -
  have copy: "for_each ns (copy_byte dst src) s =
      Ok () (s\<lparr>mem := fold (\<lambda>i m. m(dst + of_nat i := m (src + of_nat i))) ns (mem s)\<rparr>)" for ns
    by (rule for_each_mem) (simp add: copy_byte_def kop_simps)
  have n: "unat n < 2 ^ 64" using unat_uint_bound [of n] by simp
  have wide: "unat (src + ucast n) = unat src + unat n"
    using assms(1) by (subst unat_add_lem [THEN iffD1]) simp_all
  show ?thesis
  proof (cases "src < dst \<and> src + ucast n > dst")
    case True
    then have "\<not> (0 < unat (src - dst) \<and> unat (src - dst) < unat n)"
      using assms(2) by (auto simp: unat_sub_if' word_less_nat_alt)
    from copy_down [OF n this] True show ?thesis by (simp add: memmove_def copy kop_simps)
  next
    case False
    then have "\<not> (0 < unat (dst - src) \<and> unat (dst - src) < unat n)"
      using assms(1) wide by (auto simp: unat_sub_if' word_less_nat_alt)
    from copy_up [OF n this] False show ?thesis by (auto simp: memmove_def copy kop_simps)
  qed
qed

section \<open>C strings\<close>

text \<open>The string in the bytes \<open>[i, i + n)\<close>: up to the first nul or the end.\<close>

definition cstr_at :: "cptr \<Rightarrow> nat \<Rightarrow> nat \<Rightarrow> uchar list" where
  "cstr_at p i n = takeWhile (\<lambda>c. c \<noteq> 0) (map p [i..<i + n])"

lemma cstr_at_0 [simp]: "cstr_at p i 0 = []"
  by (simp add: cstr_at_def)

lemma cstr_at_Suc [simp]:
  "cstr_at p i (Suc n) = (if p i = 0 then [] else p i # cstr_at p (i + 1) n)"
  by (simp add: cstr_at_def upt_conv_Cons del: upt_Suc)

lemma memcmp_loop_iff: "memcmp_loop p q i n = 0 \<longleftrightarrow> (\<forall>j. i \<le> j \<and> j < i + n \<longrightarrow> p j = q j)"
proof (induction n arbitrary: i)
  case 0
  then show ?case by auto
next
  case (Suc n)
  show ?case
  proof (cases "p i = q i")
    case True
    then show ?thesis using Suc.IH [of "i + 1"] by (simp add: Suc_le_eq) (metis le_neq_implies_less less_imp_le)
  next
    case False
    then have "uint (p i) - uint (q i) \<noteq> 0" by (simp add: word_uint_eq_iff)
    with False show ?thesis by auto
  qed
qed

lemma strncmp_loop_sign:
  "strncmp_loop p q i n = 0 \<longleftrightarrow> cstr_at p i n = cstr_at q i n"
  "strncmp_loop p q i n < 0 \<longleftrightarrow> ord_class.lexordp (cstr_at p i n) (cstr_at q i n)"
proof (induction n arbitrary: i)
  case 0
  { case 1 then show ?case by simp }
  { case 2 then show ?case by simp }
next
  case (Suc n)
  have z: "p i \<noteq> q i \<Longrightarrow> uint (p i) - uint (q i) \<noteq> 0" for i
    by (simp add: word_uint_eq_iff)
  have l: "uint (p i) - uint (q i) < 0 \<longleftrightarrow> p i < q i" for i
    by (simp add: word_less_def)
  have ne: "strncmp_loop p q i (Suc n) = uint (p i) - uint (q i)" if "p i \<noteq> q i" for i
    using that by simp
  { case 1
    show ?case
    proof (cases "p i = q i")
      case True
      then show ?thesis using Suc.IH(1) [of "i + 1"] by simp
    next
      case False
      then show ?thesis unfolding ne [OF False] using z [OF False] by auto
    qed }
  { case 2
    show ?case
    proof (cases "p i = q i")
      case True
      then show ?thesis using Suc.IH(2) [of "i + 1"] by simp
    next
      case False
      then show ?thesis unfolding ne [OF False] l using word_gt_0 [of "q i"] by (auto simp: not_less_iff_gr_or_eq)
    qed }
qed

lemma strncpy_loop_props:
  "length (strncpy_loop t i n) = n"
  "takeWhile (\<lambda>c. c \<noteq> 0) (strncpy_loop t i n) = cstr_at t i n"
  "dropWhile (\<lambda>c. c \<noteq> 0) (strncpy_loop t i n) = replicate (n - length (cstr_at t i n)) 0"
  by (induction t i n rule: strncpy_loop.induct) simp_all

lemma safestrcpy_loop_props:
  "0 < n \<Longrightarrow> length (safestrcpy_loop t i n) \<le> n"
  "0 < n \<Longrightarrow> 0 \<in> set (safestrcpy_loop t i n)"
  "0 < n \<Longrightarrow> takeWhile (\<lambda>c. c \<noteq> 0) (safestrcpy_loop t i n) = cstr_at t i (n - 1)"
  by (induction t i n rule: safestrcpy_loop.induct) simp_all

lemma strlen_loop_first_nul:
  assumes "t k = 0" and "\<forall>j. n \<le> j \<and> j < k \<longrightarrow> t j \<noteq> 0" and "n \<le> k"
  shows "strlen_loop t n = Some k"
  using assms
proof (induction "k - n" arbitrary: n)
  case 0
  then show ?case by (simp add: strlen_loop.simps)
next
  case (Suc d)
  then have "t n \<noteq> 0" and "n < k" by auto
  moreover have "strlen_loop t (n + 1) = Some k"
    using Suc by (intro Suc.hyps) auto
  ultimately show ?case by (subst strlen_loop.simps) simp
qed

section \<open>Properties\<close>

text \<open>
  C17 (\<^verbatim>\<open>string.c\<close>, \<^verbatim>\<open>memmove\<close>): for any two ranges that do not run off the end of the address
  space, overlapping or not, \<^verbatim>\<open>memmove\<close> leaves in the destination exactly the bytes the source held
  before the call and changes no other byte; \<^verbatim>\<open>memcpy\<close> does the same.
\<close>

theorem memmove_overlap:
  assumes "unat src + unat n < 2 ^ 64" and "unat dst + unat n < 2 ^ 64"
  shows "\<exists>t. memmove dst src n s = Ok dst t \<and> memcpy dst src n s = Ok dst t \<and>
    mem_read (mem t) dst (unat n) = mem_read (mem s) src (unat n) \<and>
    (\<forall>x. \<not> inside x dst (unat n) \<longrightarrow> mem t x = mem s x) \<and> t = s\<lparr>mem := mem t\<rparr>"
proof -
  have "unat n \<le> 2 ^ 64" using unat_uint_bound [of n] by simp
  with mem_read_write_same [of "mem_read (mem s) src (unat n)" "mem s" dst] show ?thesis
    using assms by (simp add: memcpy_def memmove_apply mem_write_other)
qed

definition idle_mst :: mst where
  "idle_mst = \<lparr>mach = m_setproc (Some 2) idle_machine, procs = (\<lambda>_. idle_proc), nextpid = 1,
     initproc = None, slocks = (\<lambda>_. \<lparr>sl_locked = 0, sl_name = [], sl_pid = 0\<rparr>), mem = ucast\<rparr>"

theorem memmove_overlap_witness:
  "\<exists>t. memmove 0x1002 0x1000 4 idle_mst = Ok 0x1002 t \<and> mem_read (mem t) 0x1002 4 = [0, 1, 2, 3]"
proof -
  have "unat (0x1000 :: addr) + unat (4 :: uint) < 2 ^ 64" "unat (0x1002 :: addr) + unat (4 :: uint) < 2 ^ 64"
    by simp_all
  from memmove_overlap [OF this, of idle_mst] show ?thesis
    by (auto simp: idle_mst_def mem_read_def upt_rec)
qed

text \<open>
  C18 (\<^verbatim>\<open>string.c\<close>, \<^verbatim>\<open>strncmp\<close> and \<^verbatim>\<open>memcmp\<close>): the sign of \<^verbatim>\<open>strncmp(p, q, n)\<close> is the
  lexicographic comparison, by unsigned bytes, of the strings \<open>p\<close> and \<open>q\<close> cut at \<open>n\<close> bytes; it is zero
  exactly when those are equal; and \<^verbatim>\<open>memcmp\<close> is zero exactly when all \<open>n\<close> bytes agree.
\<close>

theorem strncmp_order:
  "(strncmp p q n = 0 \<longleftrightarrow> cstr_at p 0 (unat n) = cstr_at q 0 (unat n)) \<and>
   (strncmp p q n < 0 \<longleftrightarrow> ord_class.lexordp (cstr_at p 0 (unat n)) (cstr_at q 0 (unat n))) \<and>
   (memcmp p q n = 0 \<longleftrightarrow> map p [0..<unat n] = map q [0..<unat n])"
  by (simp add: strncmp_def memcmp_def strncmp_loop_sign memcmp_loop_iff atLeast0LessThan Ball_def)

text \<open>
  C19 (\<^verbatim>\<open>string.c\<close>, the copying routines): \<^verbatim>\<open>strncpy\<close> stores exactly \<open>n\<close> bytes, the string cut at
  \<open>n\<close> and zeros after it; \<^verbatim>\<open>safestrcpy\<close> stores at most \<open>n\<close> bytes, always including a nul, and the
  string they hold is the source cut at \<open>n - 1\<close>; \<^verbatim>\<open>strlen\<close> returns the offset of the first nul.
\<close>

theorem string_copies:
  assumes "0 < n" and "t k = 0" and "\<forall>j < k. t j \<noteq> 0"
  shows "length (strncpy t n) = nat n \<and>
    strncpy t n = cstr_at t 0 (nat n) @ replicate (nat n - length (cstr_at t 0 (nat n))) 0 \<and>
    length (safestrcpy t n) \<le> nat n \<and> 0 \<in> set (safestrcpy t n) \<and>
    takeWhile (\<lambda>c. c \<noteq> 0) (safestrcpy t n) = cstr_at t 0 (nat n - 1) \<and>
    strlen t = Some k"
proof -
  have "strncpy_loop t 0 (nat n) =
      takeWhile (\<lambda>c. c \<noteq> 0) (strncpy_loop t 0 (nat n)) @ dropWhile (\<lambda>c. c \<noteq> 0) (strncpy_loop t 0 (nat n))"
    by simp
  then have "strncpy t n = cstr_at t 0 (nat n) @ replicate (nat n - length (cstr_at t 0 (nat n))) 0"
    by (simp only: strncpy_def strncpy_loop_props)
  then show ?thesis
    using assms safestrcpy_loop_props [of "nat n" t 0] strncpy_loop_props(1) [of t 0 "nat n"]
    by (simp add: strncpy_def safestrcpy_def strlen_def strlen_loop_first_nul)
qed

theorem string_copies_witness:
  "safestrcpy (\<lambda>i. if i < 5 then 120 else 0) 4 = [120, 120, 120, 0] \<and>
   strlen (\<lambda>i. if i < 5 then 120 else 0) = Some 5"
proof -
  have "safestrcpy (\<lambda>i. if i < 5 then 120 else 0) 4 = [120, 120, 120, 0]" by code_simp
  then show ?thesis using string_copies [of 4 "\<lambda>i. if i < 5 then 120 else 0" 5] by simp
qed

end
