(* ===== verification/Kalloc.thy ===== *)
theory Kalloc
  imports Memory "HOL-Library.Multiset"
begin

text \<open>
  The physical page allocator (\<^verbatim>\<open>kernel/kalloc.c\<close>) and the page arithmetic of
  \<^verbatim>\<open>kernel/riscv.h\<close> and \<^verbatim>\<open>memlayout.h\<close> it uses. The free list is linked through the first eight bytes of
  the free pages themselves, so it lives in memory; \<open>kmem_ok\<close> relates it to the list of pages
  it stands for. The locale \<open>page_allocator\<close> is the contract the rest of the kernel relies on,
  interpreted on \<^verbatim>\<open>kalloc\<close> and \<^verbatim>\<open>kfree\<close>.
\<close>

section \<open>Pages (riscv.h, memlayout.h)\<close>

definition PGSIZE :: uint64 where "PGSIZE = 4096"
definition KERNBASE :: addr where "KERNBASE = 0x80000000"
definition PHYSTOP :: addr where "PHYSTOP = KERNBASE + 128 * 1024 * 1024"

definition PGROUNDUP :: "uint64 \<Rightarrow> uint64" where
  "PGROUNDUP x = (x + PGSIZE - 1) AND NOT (PGSIZE - 1)"

definition PGROUNDDOWN :: "uint64 \<Rightarrow> uint64" where
  "PGROUNDDOWN a = a AND NOT (PGSIZE - 1)"

section \<open>Operations\<close>

record kmst = mst +
  freelist :: addr

definition kfree :: "addr \<Rightarrow> (unit, 'z kmst_scheme) kop" where
  "kfree pa =
     bnd (gets (\<lambda>s. sym_end (syms (mach s)))) (\<lambda>e.
     if pa mod PGSIZE \<noteq> 0 \<or> pa < e \<or> pa \<ge> PHYSTOP then kpanic ''kfree''
     else bnd (memset pa 1 4096) (\<lambda>_.
          thn (acquire LkKmem) (
          bnd (gets freelist) (\<lambda>f.
          thn (store64 pa f) (
          thn (modify (\<lambda>s. s\<lparr>freelist := pa\<rparr>))
              (release LkKmem))))))"

definition kalloc :: "(addr, 'z kmst_scheme) kop" where
  "kalloc =
     thn (acquire LkKmem) (
     bnd (gets freelist) (\<lambda>r.
     thn (whenk (r \<noteq> 0) (bnd (load64 r) (\<lambda>nxt. modify (\<lambda>s. s\<lparr>freelist := nxt\<rparr>)))) (
     thn (release LkKmem) (
     thn (whenk (r \<noteq> 0) (bnd (memset r 5 4096) (\<lambda>_. ret ())))
         (ret r)))))"

text \<open>
  The loop of \<^verbatim>\<open>freerange\<close>, with fuel. \<^verbatim>\<open>kfree\<close> panics outside RAM, so there are fewer rounds than
  pages below \<^verbatim>\<open>PHYSTOP\<close>; \<open>kinit_frees_ram\<close> shows the fuel is enough for the call the kernel makes.
\<close>

fun freerange_loop :: "nat \<Rightarrow> addr \<Rightarrow> addr \<Rightarrow> (unit, 'z kmst_scheme) kop" where
  "freerange_loop 0 p pa_end = (\<lambda>_. Hang)"
| "freerange_loop (Suc fuel) p pa_end =
     (if p + PGSIZE \<le> pa_end
      then thn (kfree p) (freerange_loop fuel (p + PGSIZE) pa_end)
      else ret ())"

definition freerange :: "addr \<Rightarrow> addr \<Rightarrow> (unit, 'z kmst_scheme) kop" where
  "freerange pa_start pa_end = freerange_loop (unat PHYSTOP div 4096 + 1) (PGROUNDUP pa_start) pa_end"

definition kinit :: "(unit, 'z kmst_scheme) kop" where
  "kinit =
     thn (initlock LkKmem ''kmem'') (
     bnd (gets (\<lambda>s. sym_end (syms (mach s)))) (\<lambda>e.
     freerange e PHYSTOP))"

section \<open>Page arithmetic\<close>

definition page_aligned :: "addr \<Rightarrow> bool" where
  "page_aligned p \<longleftrightarrow> p mod PGSIZE = 0"

lemma page_aligned_unat: "page_aligned p \<longleftrightarrow> unat p mod 4096 = 0"
proof -
  have "page_aligned p \<longleftrightarrow> unat (p mod PGSIZE) = 0"
    by (simp add: page_aligned_def unat_eq_0)
  then show ?thesis by (simp add: unat_mod_distrib PGSIZE_def)
qed

lemma and_not_offset: "x AND NOT (PGSIZE - 1) = push_bit 12 (drop_bit 12 x)"
proof -
  have "PGSIZE - 1 = mask 12" by (simp add: PGSIZE_def mask_eq_exp_minus_1)
  then show ?thesis by (simp only:) (rule bit_word_eqI, auto simp: bit_simps)
qed

lemma unat_shift_pair: "unat (push_bit 12 (drop_bit 12 x)) = 4096 * (unat x div 4096)" for x :: addr
proof -
  have "unat x < 2 ^ LENGTH(64)" by (rule unsigned_less)
  then have "4096 * (unat x div 4096) < 2 ^ 64" by simp
  moreover have "unat (drop_bit 12 x) = unat x div 4096"
    using \<open>unat x < 2 ^ LENGTH(64)\<close>
    by (simp only: unsigned_drop_bit_eq) (simp add: drop_bit_eq_div take_bit_nat_eq_self)
  ultimately show ?thesis
    by (simp only: unsigned_push_bit_eq) (simp add: push_bit_eq_mult take_bit_nat_eq_self mult.commute)
qed

lemma unat_PGROUNDDOWN: "unat (PGROUNDDOWN a) = 4096 * (unat a div 4096)"
  by (simp add: PGROUNDDOWN_def and_not_offset unat_shift_pair)

lemma unat_PGROUNDUP: "unat x + 4095 < 2 ^ 64 \<Longrightarrow> unat (PGROUNDUP x) = 4096 * ((unat x + 4095) div 4096)"
proof -
  assume a: "unat x + 4095 < 2 ^ 64"
  have "x + PGSIZE - 1 = x + 4095" by (simp add: PGSIZE_def algebra_simps)
  moreover have "unat (x + 4095) = unat x + 4095"
    using a by (subst unat_add_lem [THEN iffD1]) simp_all
  ultimately show ?thesis
    unfolding PGROUNDUP_def and_not_offset unat_shift_pair by (simp only:)
qed

lemma page_aligned_PGROUNDDOWN [simp]: "page_aligned (PGROUNDDOWN a)"
  by (simp add: page_aligned_unat unat_PGROUNDDOWN)

lemma div_page_iff: "x div 4096 = k \<longleftrightarrow> 4096 * k \<le> x \<and> x < 4096 * k + 4096" for x k :: nat
  by (auto simp: div_nat_eqI)

lemma inside_page:
  assumes "page_aligned p"
  shows "inside x p 4096 \<longleftrightarrow> unat x div 4096 = unat p div 4096"
proof -
  obtain k where p: "unat p = 4096 * k" using assms by (auto simp: page_aligned_unat mod_eq_0_iff_dvd)
  have "unat p < 2 ^ LENGTH(64)" by (rule unsigned_less)
  then have k: "4096 * k + 4096 \<le> 2 ^ 64" using p by simp
  show ?thesis
  proof (cases "unat p \<le> unat x")
    case True
    then have "unat (x - p) = unat x - unat p" by (simp add: unat_sub_if')
    then show ?thesis using p True by (auto simp: inside_def div_page_iff)
  next
    case False
    then have "unat (x - p) = unat x + 2 ^ 64 - unat p" by (simp add: unat_sub_if')
    then show ?thesis using p k False by (auto simp: inside_def div_page_iff)
  qed
qed

lemma pages_apart:
  assumes "page_aligned p" and "page_aligned q" and "p \<noteq> q"
  shows "apart p 4096 q 4096"
proof -
  have "unat p mod 4096 = 0" "unat q mod 4096 = 0" "unat p \<noteq> unat q"
    using assms by (simp_all add: page_aligned_unat word_unat_eq_iff)
  then have "unat p div 4096 \<noteq> unat q div 4096" by (metis div_mult_mod_eq)
  then show ?thesis using assms by (simp add: apart_def inside_page)
qed

section \<open>The free list\<close>

fun flist :: "memory \<Rightarrow> addr \<Rightarrow> addr list \<Rightarrow> bool" where
  "flist m a [] \<longleftrightarrow> a = 0"
| "flist m a (p # ps) \<longleftrightarrow> a = p \<and> p \<noteq> 0 \<and> flist m (mem64 m p) ps"

lemma flist_cong:
  "(\<And>p. p \<in> set ps \<Longrightarrow> mem64 m' p = mem64 m p) \<Longrightarrow> flist m' a ps = flist m a ps"
  by (induction m a ps rule: flist.induct) auto

lemma flist_det: "flist m a ps \<Longrightarrow> flist m a qs \<Longrightarrow> ps = qs"
proof (induction ps arbitrary: a qs)
  case Nil
  then show ?case by (cases qs) auto
next
  case (Cons p ps)
  then show ?case by (cases qs) auto
qed

definition ram_page :: "'z kst_scheme \<Rightarrow> addr \<Rightarrow> bool" where
  "ram_page s p \<longleftrightarrow> page_aligned p \<and> sym_end (syms (mach s)) \<le> p \<and> p < PHYSTOP"

definition kmem_ok :: "addr list \<Rightarrow> 'z kmst_scheme \<Rightarrow> bool" where
  "kmem_ok ps s \<longleftrightarrow> flist (mem s) (freelist s) ps \<and> distinct ps \<and> (\<forall>p \<in> set ps. ram_page s p) \<and>
     0 < sym_end (syms (mach s)) \<and> cpu_ok (mach s) \<and> unlocked (mach s) LkKmem"

lemma freelist_last [simp]:
  "s\<lparr>freelist := x, mach := m\<rparr> = s\<lparr>mach := m, freelist := x\<rparr>"
  "s\<lparr>freelist := x, procs := p\<rparr> = s\<lparr>procs := p, freelist := x\<rparr>"
  "s\<lparr>freelist := x, slocks := l\<rparr> = s\<lparr>slocks := l, freelist := x\<rparr>"
  "s\<lparr>freelist := x, mem := b\<rparr> = s\<lparr>mem := b, freelist := x\<rparr>"
  "s\<lparr>freelist := x, nextpid := k\<rparr> = s\<lparr>nextpid := k, freelist := x\<rparr>"
  "s\<lparr>freelist := x, initproc := q\<rparr> = s\<lparr>initproc := q, freelist := x\<rparr>" for s :: "'z kmst_scheme"
  by (cases s; simp)+

lemma ram_page_nonzero: "kmem_ok ps s \<Longrightarrow> ram_page s p \<Longrightarrow> p \<noteq> 0"
  by (auto simp: kmem_ok_def ram_page_def)

lemma ram_page_cong: "syms (mach t) = syms (mach s) \<Longrightarrow> ram_page t p = ram_page s p"
  by (simp add: ram_page_def)

lemma kfree_apply:
  fixes s :: "'z kmst_scheme"
  assumes "ram_page s p" and "cpu_ok (mach s)" and "unlocked (mach s) LkKmem"
  shows "kfree p s = Ok () (s\<lparr>mach := m_note (mach s),
    mem := mem_put64 (mem_write (mem s) p (replicate 4096 1)) p (freelist s), freelist := p\<rparr>)"
  using assms
  by (simp add: kfree_def kop_simps ram_page_def page_aligned_def memset_apply acquire_apply
      not_less not_le [symmetric])

lemma kfree_bad:
  assumes "\<not> ram_page s p"
  shows "kfree p s = Panic ''kfree''"
proof -
  have "p mod PGSIZE \<noteq> 0 \<or> p < sym_end (syms (mach s)) \<or> p \<ge> PHYSTOP"
    using assms unfolding ram_page_def page_aligned_def not_less [symmetric] de_Morgan_conj not_not .
  then show ?thesis by (simp only: kfree_def bnd_def gets_apply outcome.case if_True kpanic_apply)
qed

definition page_apart_frame :: "addr \<Rightarrow> memory \<Rightarrow> memory \<Rightarrow> bool" where
  "page_apart_frame p m m' \<longleftrightarrow> (\<forall>x. \<not> inside x p 4096 \<longrightarrow> m' x = m x)"

lemma page_frame_mem64:
  assumes "page_apart_frame p m m'" and "page_aligned p" and "page_aligned q" and "p \<noteq> q"
  shows "mem64 m' q = mem64 m q"
proof -
  have "m' (q + of_nat i) = m (q + of_nat i)" if "i < 8" for i
  proof -
    have "inside (q + of_nat i) q 4096" using that by (intro inside_offset) simp_all
    then have "\<not> inside (q + of_nat i) p 4096"
      using pages_apart [OF assms(2-4)] by (auto simp: apart_def)
    then show ?thesis using assms(1) by (simp add: page_apart_frame_def)
  qed
  then have "mem_read m' q 8 = mem_read m q 8" by (intro nth_equalityI) simp_all
  then show ?thesis by (simp add: mem64_def)
qed

lemma kfree_frame:
  "page_apart_frame p m (mem_put64 (mem_write m p (replicate 4096 c)) p v)"
proof -
  have "\<not> inside x p 8" if "\<not> inside x p 4096" for x using that by (simp add: inside_def)
  then show ?thesis by (auto simp: page_apart_frame_def mem_put64_other mem_write_other)
qed

lemma kfree_ok:
  assumes "kmem_ok ps s" and "ram_page s p" and "p \<notin> set ps"
  shows "\<exists>t. kfree p s = Ok () t \<and> kmem_ok (p # ps) t \<and> page_apart_frame p (mem s) (mem t) \<and>
    mach t = m_note (mach s) \<and> t = s\<lparr>mach := m_note (mach s), mem := mem t, freelist := freelist t\<rparr>"
proof -
  let ?m = "mem_put64 (mem_write (mem s) p (replicate 4096 1)) p (freelist s)"
  let ?t = "s\<lparr>mach := m_note (mach s), mem := ?m, freelist := p\<rparr>"
  have fr: "page_apart_frame p (mem s) ?m" by (rule kfree_frame)
  have "mem64 ?m q = mem64 (mem s) q" if "q \<in> set ps" for q
    using that assms by (intro page_frame_mem64 [OF fr]) (auto simp: kmem_ok_def ram_page_def)
  then have "flist ?m (freelist s) ps"
    using assms(1) flist_cong [of ps ?m "mem s" "freelist s"] by (simp add: kmem_ok_def)
  moreover have "p \<noteq> 0" using assms by (simp add: ram_page_nonzero)
  ultimately have "kmem_ok (p # ps) ?t"
    using assms by (simp add: kmem_ok_def ram_page_def)
  moreover have "kfree p s = Ok () ?t"
    using assms by (intro kfree_apply) (simp_all add: kmem_ok_def)
  ultimately show ?thesis using fr by simp
qed

lemma kalloc_apply:
  fixes s :: "'z kmst_scheme"
  assumes "cpu_ok (mach s)" and "unlocked (mach s) LkKmem"
  shows "kalloc s =
    (if freelist s = 0 then Ok 0 (s\<lparr>mach := m_note (mach s)\<rparr>)
     else Ok (freelist s) (s\<lparr>mach := m_note (mach s),
        mem := mem_write (mem s) (freelist s) (replicate 4096 5),
        freelist := mem64 (mem s) (freelist s)\<rparr>))"
  using assms by (simp add: kalloc_def critical_section memset_apply)

lemma kalloc_none:
  assumes "kmem_ok [] s"
  shows "kalloc s = Ok 0 (s\<lparr>mach := m_note (mach s)\<rparr>) \<and> kmem_ok [] (s\<lparr>mach := m_note (mach s)\<rparr>)"
  using assms by (simp add: kmem_ok_def kalloc_apply)

lemma kalloc_some:
  assumes "kmem_ok (p # ps) s"
  shows "\<exists>t. kalloc s = Ok p t \<and> kmem_ok ps t \<and> p \<noteq> 0 \<and> ram_page t p \<and> p \<notin> set ps \<and>
    page_apart_frame p (mem s) (mem t) \<and> mem_read (mem t) p 4096 = replicate 4096 5 \<and>
    mach t = m_note (mach s) \<and> t = s\<lparr>mach := m_note (mach s), mem := mem t, freelist := freelist t\<rparr>"
proof -
  let ?m = "mem_write (mem s) p (replicate 4096 5)"
  let ?t = "s\<lparr>mach := m_note (mach s), mem := ?m, freelist := mem64 (mem s) p\<rparr>"
  have p: "freelist s = p" "p \<noteq> 0" "ram_page s p" "p \<notin> set ps" "flist (mem s) (mem64 (mem s) p) ps"
    using assms by (simp_all add: kmem_ok_def)
  have fr: "page_apart_frame p (mem s) ?m" by (simp add: page_apart_frame_def mem_write_other)
  have "mem64 ?m q = mem64 (mem s) q" if "q \<in> set ps" for q
    using that assms p by (intro page_frame_mem64 [OF fr]) (auto simp: kmem_ok_def ram_page_def)
  then have "flist ?m (mem64 (mem s) p) ps"
    using p(5) flist_cong [of ps ?m "mem s"] by simp
  then have "kmem_ok ps ?t"
    using assms by (simp add: kmem_ok_def ram_page_def)
  moreover have "kalloc s = Ok p ?t"
    using assms p by (simp add: kmem_ok_def kalloc_apply)
  moreover have "mem_read ?m p 4096 = replicate 4096 5"
    using mem_read_write_same [of "replicate 4096 5" "mem s" p] by simp
  ultimately show ?thesis using p fr by (simp add: ram_page_def)
qed

section \<open>The allocator's contract\<close>

text \<open>
  A history of calls: \<open>KAlloc\<close> asks for a page, \<open>KFree i\<close> returns the \<open>i\<close>-th page still held (and
  does nothing when fewer are held). \<open>alloc_run\<close> keeps the pages held, most recent first.
\<close>

datatype alloc_call = KAlloc | KFree nat

fun alloc_run ::
  "(addr, 's) kop \<Rightarrow> (addr \<Rightarrow> (unit, 's) kop) \<Rightarrow> alloc_call list \<Rightarrow> addr list \<Rightarrow> (addr list, 's) kop" where
  "alloc_run alloc free [] out = ret out"
| "alloc_run alloc free (KAlloc # cs) out =
     bnd alloc (\<lambda>p. alloc_run alloc free cs (if p = 0 then out else p # out))"
| "alloc_run alloc free (KFree i # cs) out =
     (if i < length out
      then thn (free (out ! i)) (alloc_run alloc free cs (take i out @ drop (i + 1) out))
      else alloc_run alloc free cs out)"

locale page_allocator =
  fixes alloc :: "(addr, 's) kop"
    and free :: "addr \<Rightarrow> (unit, 's) kop"
    and rep :: "addr list \<Rightarrow> 's \<Rightarrow> bool"
    and usable :: "'s \<Rightarrow> addr \<Rightarrow> bool"
  assumes alloc_none: "rep [] s \<Longrightarrow> \<exists>t. alloc s = Ok 0 t \<and> rep [] t \<and> usable t = usable s"
    and alloc_some: "rep (p # ps) s \<Longrightarrow>
      \<exists>t. alloc s = Ok p t \<and> rep ps t \<and> p \<noteq> 0 \<and> usable t = usable s"
    and free_ok: "rep ps s \<Longrightarrow> usable s p \<Longrightarrow> p \<notin> set ps \<Longrightarrow>
      \<exists>t. free p s = Ok () t \<and> rep (p # ps) t \<and> usable t = usable s"
    and rep_ok: "rep ps s \<Longrightarrow> distinct ps \<and> (\<forall>p \<in> set ps. usable s p)"
begin

lemma run_conserves:
  assumes "rep ps s" and "distinct (out @ ps)" and "\<forall>p \<in> set out. usable s p"
  shows "\<exists>out' ps' t. alloc_run alloc free cs out s = Ok out' t \<and> rep ps' t \<and>
    distinct (out' @ ps') \<and> mset out' + mset ps' = mset out + mset ps"
  using assms
proof (induction cs arbitrary: out ps s)
  case Nil
  then show ?case by (intro exI [of _ out] exI [of _ ps]) simp
next
  case (Cons c cs)
  show ?case
  proof (cases c)
    case KAlloc
    show ?thesis
    proof (cases ps)
      case Nil
      with Cons.prems(1) alloc_none [of s] obtain t where t: "alloc s = Ok 0 t" "rep [] t" "usable t = usable s"
        by auto
      with Cons.IH [of "[]" t out] Cons.prems Nil KAlloc show ?thesis by simp
    next
      case (Cons p qs)
      with Cons.prems(1) alloc_some [of p qs s] obtain t
        where t: "alloc s = Ok p t" "rep qs t" "p \<noteq> 0" "usable t = usable s" by auto
      moreover have "usable s p" using rep_ok [OF Cons.prems(1)] Cons by simp
      moreover have "distinct ((p # out) @ qs)" using Cons.prems(2) Cons by auto
      ultimately show ?thesis
        using Cons.IH [of qs t "p # out"] Cons.prems(3) Cons KAlloc by (simp add: t(1))
    qed
  next
    case (KFree i)
    show ?thesis
    proof (cases "i < length out")
      case True
      let ?p = "out ! i" and ?out = "take i out @ drop (i + 1) out"
      have split: "out = take i out @ ?p # drop (i + 1) out"
        using True by (simp add: id_take_nth_drop [symmetric])
      then have m: "mset out = add_mset ?p (mset ?out)"
        by (metis mset.simps(2) mset_append union_mset_add_mset_right)
      have "distinct ((take i out @ ?p # drop (i + 1) out) @ ps)"
        using Cons.prems(2) split by simp
      then have d: "distinct (?out @ ?p # ps)" by auto
      have sub: "set ?out \<subseteq> set out" by (auto dest: in_set_takeD in_set_dropD)
      have "usable s ?p" "?p \<notin> set ps" using Cons.prems True d by auto
      then obtain t where t: "free ?p s = Ok () t" "rep (?p # ps) t" "usable t = usable s"
        using free_ok [OF Cons.prems(1)] by blast
      moreover have "\<forall>p \<in> set ?out. usable t p" using Cons.prems(3) sub t(3) by auto
      ultimately show ?thesis
        using Cons.IH [of "?p # ps" t ?out] d True KFree m by simp
    next
      case False
      then show ?thesis using Cons KFree by simp
    qed
  qed
qed

lemma alloc_all:
  assumes "rep ps s"
  shows "\<exists>t. alloc_run alloc free (replicate (length ps + k) KAlloc) out s = Ok (rev ps @ out) t \<and> rep [] t"
  using assms
proof (induction ps arbitrary: s out)
  case Nil
  then show ?case
  proof (induction k arbitrary: s)
    case (Suc k)
    with alloc_none [of s] obtain t where "alloc s = Ok 0 t" "rep [] t" by auto
    with Suc.IH [of t] show ?case by simp
  qed simp
next
  case (Cons p ps)
  with alloc_some [of p ps s] obtain t where "alloc s = Ok p t" "rep ps t" "p \<noteq> 0" by auto
  with Cons.IH [of t "p # out"] show ?case by simp
qed

end

lemma ram_page_funeq: "syms (mach t) = syms (mach s) \<Longrightarrow> ram_page t = ram_page s"
  by (intro ext ram_page_cong)

interpretation km: page_allocator kalloc kfree kmem_ok ram_page
proof
  fix s :: "'z kmst_scheme" and p ps
  show "kmem_ok [] s \<Longrightarrow> \<exists>t. kalloc s = Ok 0 t \<and> kmem_ok [] t \<and> ram_page t = ram_page s"
    using kalloc_none [of s] by (auto intro!: ram_page_funeq)
  show "kmem_ok (p # ps) s \<Longrightarrow> \<exists>t. kalloc s = Ok p t \<and> kmem_ok ps t \<and> p \<noteq> 0 \<and> ram_page t = ram_page s"
    using kalloc_some [of p ps s] ram_page_funeq [of _ s] by (metis m_note_simps(3))
  show "kmem_ok ps s \<Longrightarrow> ram_page s p \<Longrightarrow> p \<notin> set ps \<Longrightarrow>
      \<exists>t. kfree p s = Ok () t \<and> kmem_ok (p # ps) t \<and> ram_page t = ram_page s"
    using kfree_ok [of ps s p] ram_page_funeq [of _ s] by (metis m_note_simps(3))
  show "kmem_ok ps s \<Longrightarrow> distinct ps \<and> (\<forall>p \<in> set ps. ram_page s p)"
    by (simp add: kmem_ok_def)
qed

section \<open>Filling the free list\<close>

lemma unat_PHYSTOP: "unat PHYSTOP = 4096 * 0x88000"
  by (simp add: PHYSTOP_def KERNBASE_def)

lemma unat_of_page: "k \<le> 0x88000 \<Longrightarrow> unat (of_nat (4096 * k) :: addr) = 4096 * k"
  by (rule unat_of_nat_addr) simp

lemma next_page: "of_nat (4096 * k) + PGSIZE = of_nat (4096 * (k + 1))"
  by (simp add: PGSIZE_def)

lemma page_fits:
  assumes "k \<le> 0x88000"
  shows "of_nat (4096 * k) + PGSIZE \<le> PHYSTOP \<longleftrightarrow> k < 0x88000"
proof -
  have "unat (of_nat (4096 * (k + 1)) :: addr) = 4096 * (k + 1)"
    using assms by (intro unat_of_nat_addr) simp
  then show ?thesis
    unfolding next_page word_le_nat_alt unat_PHYSTOP by (simp only:) auto
qed

lemma ram_page_multiple: "ram_page s q \<Longrightarrow> \<exists>j. unat q = 4096 * j"
  by (auto simp: ram_page_def page_aligned_unat mod_eq_0_iff_dvd)

lemma ram_page_next:
  assumes "ram_page s p" and "unat p = 4096 * k"
  shows "ram_page s x \<and> unat x < 4096 * (k + 1) \<longleftrightarrow> x = p \<or> ram_page s x \<and> unat x < 4096 * k"
proof (cases "ram_page s x")
  case True
  then obtain j where x: "unat x = 4096 * j" using ram_page_multiple by blast
  then have "x = p \<longleftrightarrow> j = k" using assms(2) by (simp add: word_unat_eq_iff)
  with True x show ?thesis by simp arith
next
  case False
  then show ?thesis using assms(1) by blast
qed

lemma freerange_loop_ok:
  fixes s :: "'z kmst_scheme"
  assumes "kmem_ok ps s" and "k \<le> 0x88000" and "0x88000 - k < fuel"
    and "sym_end (syms (mach s)) \<le> of_nat (4096 * k)"
    and "set ps = {q. ram_page s q \<and> unat q < 4096 * k}"
  shows "\<exists>t ps'. freerange_loop fuel (of_nat (4096 * k)) PHYSTOP s = Ok () t \<and> kmem_ok ps' t \<and>
    set ps' = {q. ram_page s q}"
  using assms
proof (induction "0x88000 - k" arbitrary: k fuel ps s)
  case 0
  then obtain f where f: "fuel = Suc f" by (cases fuel) auto
  have "k = 0x88000" using 0 by simp
  moreover have "unat q < 4096 * 0x88000" if "ram_page s q" for q
    using that unat_PHYSTOP by (simp add: ram_page_def word_less_nat_alt)
  ultimately show ?case
    using 0 page_fits [of k] f by auto
next
  case (Suc d)
  then obtain f where f: "fuel = Suc f" by (cases fuel) auto
  define p :: addr where "p = of_nat (4096 * k)"
  define q :: addr where "q = of_nat (4096 * (k + 1))"
  have k: "k < 0x88000" using Suc(2) by simp
  have up: "unat p = 4096 * k" and uq: "unat q = 4096 * (k + 1)"
    unfolding p_def q_def using k by (intro unat_of_page; simp)+
  have pq: "p + PGSIZE = q" and fits: "p + PGSIZE \<le> PHYSTOP"
    using next_page [of k] page_fits [of k] k by (simp_all only: p_def q_def less_imp_le)
  have start: "sym_end (syms (mach s)) \<le> p" using Suc.prems(4) by (simp only: p_def)
  then have p: "ram_page s p"
    using k up unat_PHYSTOP by (simp add: ram_page_def page_aligned_unat word_less_nat_alt)
  moreover have "p \<notin> set ps" using Suc.prems(5) up by simp
  ultimately obtain t where t: "kfree p s = Ok () t" "kmem_ok (p # ps) t" "mach t = m_note (mach s)"
    using kfree_ok [OF Suc.prems(1)] by blast
  have same: "ram_page t = ram_page s" using t(3) by (intro ram_page_funeq) simp
  have set: "set (p # ps) = {x. ram_page t x \<and> unat x < 4096 * (k + 1)}"
    unfolding same ram_page_next [OF p up] using Suc.prems(5) by auto
  have "p \<le> q" using up uq by (simp add: word_le_nat_alt)
  then have "sym_end (syms (mach t)) \<le> q" using start t(3) by simp
  then have "\<exists>u ps'. freerange_loop f q PHYSTOP t = Ok () u \<and> kmem_ok ps' u \<and> set ps' = {x. ram_page t x}"
    unfolding q_def using Suc(2) Suc.prems(2,3) f k set by (intro Suc.hyps(1) [OF _ t(2)]) simp_all
  moreover have "freerange_loop fuel p PHYSTOP s = freerange_loop f q PHYSTOP t"
    using fits t(1) f pq by simp
  ultimately show ?case by (simp add: same p_def [symmetric] del: of_nat_mult)
qed

definition m_init :: "lockid \<Rightarrow> string \<Rightarrow> machine \<Rightarrow> machine" where
  "m_init lk nm m = m\<lparr>locks := (locks m)(lk := \<lparr>locked = 0, name = nm, lcpu = None\<rparr>)\<rparr>"

lemma initlock_apply [simp]: "initlock lk nm s = Ok () (s\<lparr>mach := m_init lk nm (mach s)\<rparr>)"
  by (cases "locks (mach s) lk") (simp add: initlock_def m_init_def kop_simps upd_lock_def)

lemma m_init_simps [mach_simps, simp]:
  "syms (m_init lk nm m) = syms m"
  "cpu_ok (m_init lk nm m) = cpu_ok m"
  "unlocked (m_init lk nm m) lk' \<longleftrightarrow> lk' = lk \<or> unlocked m lk'"
  by (auto simp: m_init_def cpu_ok_def unlocked_def)

section \<open>Properties\<close>

text \<open>
  C6 (\<^verbatim>\<open>kalloc.c\<close>, histories): after any sequence of calls of \<^verbatim>\<open>kalloc\<close> and of \<^verbatim>\<open>kfree\<close> on pages that
  are held, the free list is well formed and the pages held together with the free pages are
  exactly the pages that were free at the start, each once: no page is handed out twice, none is
  lost, and the allocator never panics, blocks or spins.
\<close>

theorem kalloc_conserves_pages:
  assumes "kmem_ok ps s"
  shows "\<exists>out ps' t. alloc_run kalloc kfree calls [] s = Ok out t \<and> kmem_ok ps' t \<and>
    distinct (out @ ps') \<and> mset out + mset ps' = mset ps"
  using km.run_conserves [of ps s "[]" calls] assms km.rep_ok [OF assms] by simp

definition two_pages :: kmst where
  "two_pages = \<lparr>mach = idle_machine, procs = (\<lambda>_. idle_proc), nextpid = 1, initproc = None,
     slocks = (\<lambda>_. \<lparr>sl_locked = 0, sl_name = [], sl_pid = 0\<rparr>),
     mem = mem_put64 (mem_put64 (\<lambda>_. 0) 0x80020000 0x80030000) 0x80030000 0,
     freelist = 0x80020000\<rparr>"

lemma two_pages_ok: "kmem_ok [0x80020000, 0x80030000] two_pages"
proof -
  have "page_aligned 0x80020000" "page_aligned 0x80030000" by (simp_all add: page_aligned_unat)
  moreover have "apart 0x80030000 8 0x80020000 8"
    using calculation by (intro apart_mono [OF pages_apart [of "0x80030000" "0x80020000"]]) simp_all
  ultimately show ?thesis
    by (simp add: kmem_ok_def two_pages_def ram_page_def PHYSTOP_def KERNBASE_def idle_machine_def
        mem64_put64_apart) (simp add: idle_machine_def [symmetric])
qed

theorem kalloc_conserves_pages_witness:
  "\<exists>out ps' t. alloc_run kalloc kfree [KAlloc, KAlloc, KFree 1, KAlloc] [] two_pages = Ok out t \<and>
     mset out + mset ps' = {#0x80020000, 0x80030000#} \<and> distinct out"
  using kalloc_conserves_pages [OF two_pages_ok, of "[KAlloc, KAlloc, KFree 1, KAlloc]"]
  by (elim exE conjE) (intro exI conjI, assumption, simp_all)

text \<open>
  C12 (\<^verbatim>\<open>kalloc.c\<close>, \<^verbatim>\<open>kinit\<close>): with the free list empty and \<^verbatim>\<open>end\<close> inside RAM, \<^verbatim>\<open>kinit\<close> returns (its loop
  ends), and the free list then holds every page between \<^verbatim>\<open>end\<close> and \<^verbatim>\<open>PHYSTOP\<close> exactly once.
\<close>

theorem kinit_frees_ram:
  fixes s :: "'z kmst_scheme"
  assumes "freelist s = 0" and "cpu_ok (mach s)"
    and "0 < sym_end (syms (mach s))" and "sym_end (syms (mach s)) \<le> PHYSTOP"
  shows "\<exists>t ps. kinit s = Ok () t \<and> kmem_ok ps t \<and> distinct ps \<and>
    set ps = {p. page_aligned p \<and> sym_end (syms (mach s)) \<le> p \<and> p < PHYSTOP}"
proof -
  let ?e = "sym_end (syms (mach s))"
  let ?s = "s\<lparr>mach := m_init LkKmem ''kmem'' (mach s)\<rparr>"
  define k where "k = (unat ?e + 4095) div 4096"
  have e: "unat ?e \<le> 4096 * 0x88000" using assms(4) unat_PHYSTOP by (simp add: word_le_nat_alt)
  have k: "k \<le> 0x88000" unfolding k_def using e by (simp add: less_mult_imp_div_less Suc_leI)
  have up: "PGROUNDUP ?e = of_nat (4096 * k)"
    unfolding word_unat_eq_iff unat_of_page [OF k] using e unat_PGROUNDUP [of ?e] by (simp add: k_def)
  have above: "?e \<le> of_nat (4096 * k)"
    unfolding word_le_nat_alt unat_of_page [OF k] using div_page_iff [of "unat ?e + 4095" k] by (simp add: k_def)
  have none: "{q. ram_page ?s q \<and> unat q < 4096 * k} = {}"
  proof -
    have "4096 * k \<le> unat q" if q: "ram_page ?s q" for q
    proof -
      obtain j where j: "unat q = 4096 * j"
        using ram_page_multiple [OF q] by blast
      have "unat ?e \<le> 4096 * j" using q j by (simp add: ram_page_def word_le_nat_alt)
      then have "k < j + 1" unfolding k_def by (intro less_mult_imp_div_less) simp
      then show ?thesis using j by simp
    qed
    then show ?thesis by (auto simp: not_less [symmetric])
  qed
  have ok: "kmem_ok [] ?s" using assms by (simp add: kmem_ok_def)
  have "\<exists>t ps. freerange_loop (unat PHYSTOP div 4096 + 1) (of_nat (4096 * k)) PHYSTOP ?s = Ok () t \<and>
      kmem_ok ps t \<and> set ps = {q. ram_page ?s q}"
    using k above none by (intro freerange_loop_ok [OF ok]) (simp_all add: unat_PHYSTOP)
  moreover have "kinit s = freerange_loop (unat PHYSTOP div 4096 + 1) (of_nat (4096 * k)) PHYSTOP ?s"
    unfolding up [symmetric] by (simp add: kinit_def kop_simps freerange_def)
  ultimately obtain t ps where "kinit s = Ok () t" and "kmem_ok ps t" and "set ps = {q. ram_page ?s q}"
    by (simp only:) blast
  moreover have "{q. ram_page ?s q} = {p. page_aligned p \<and> ?e \<le> p \<and> p < PHYSTOP}"
    by (simp add: ram_page_def)
  moreover have "distinct ps" using km.rep_ok [OF \<open>kmem_ok ps t\<close>] by blast
  ultimately show ?thesis by (intro exI conjI) simp_all
qed

theorem kinit_frees_ram_witness:
  "\<exists>t ps. kinit (two_pages\<lparr>freelist := 0\<rparr>) = Ok () t \<and> kmem_ok ps t \<and> 0x87fff000 \<in> set ps \<and> 0x80020000 \<in> set ps"
proof -
  let ?s = "two_pages\<lparr>freelist := 0\<rparr>"
  have e: "sym_end (syms (mach ?s)) = 0x80020000" by (simp add: two_pages_def idle_machine_def)
  have "freelist ?s = 0" "cpu_ok (mach ?s)" "0 < sym_end (syms (mach ?s))" "sym_end (syms (mach ?s)) \<le> PHYSTOP"
    unfolding e by (simp_all add: two_pages_def PHYSTOP_def KERNBASE_def)
  from kinit_frees_ram [OF this] obtain t ps where t: "kinit ?s = Ok () t" "kmem_ok ps t"
    and ps: "set ps = {p. page_aligned p \<and> sym_end (syms (mach ?s)) \<le> p \<and> p < PHYSTOP}" by blast
  have "0x87fff000 \<in> set ps" "0x80020000 \<in> set ps"
    unfolding ps e by (simp_all add: page_aligned_unat PHYSTOP_def KERNBASE_def)
  with t show ?thesis by blast
qed

end
