(* ===== verification/Vm.thy ===== *)
theory Vm
  imports Kalloc
begin

text \<open>
  Page tables (\<^verbatim>\<open>kernel/vm.c\<close>, the Sv39 macros of \<^verbatim>\<open>riscv.h\<close> and the address map of
  \<^verbatim>\<open>memlayout.h\<close>). Page tables are in memory, in pages of the allocator: \<^verbatim>\<open>walk\<close> reads and writes the
  64-bit entries there. The kernel-side argument of \<^verbatim>\<open>copyout\<close> is the list of bytes to copy, and
  \<^verbatim>\<open>copyin\<close> and \<^verbatim>\<open>copyinstr\<close> answer the bytes they stored at \<^verbatim>\<open>dst\<close> together with the return value,
  since the kernel's own variables are not part of \<open>mem\<close>.

  Loops that step through virtual addresses end because \<^verbatim>\<open>walk\<close> panics from \<^verbatim>\<open>MAXVA\<close> on; where they
  call themselves the definitions repeat that panic as a guard, so that they terminate outright.
\<close>

section \<open>Entries and addresses (riscv.h, memlayout.h)\<close>

definition MAXVA :: uint64 where "MAXVA = push_bit (9 + 9 + 9 + 12 - 1) 1"
definition TRAMPOLINE :: uint64 where "TRAMPOLINE = MAXVA - PGSIZE"
definition TRAPFRAME :: uint64 where "TRAPFRAME = TRAMPOLINE - PGSIZE"
definition KSTACK :: "nat \<Rightarrow> uint64" where "KSTACK p = TRAMPOLINE - (of_nat p + 1) * 2 * PGSIZE"

definition UART0 :: uint64 where "UART0 = 0x10000000"
definition VIRTIO0 :: uint64 where "VIRTIO0 = 0x10001000"
definition CLINT :: uint64 where "CLINT = 0x2000000"
definition PLIC :: uint64 where "PLIC = 0x0c000000"

definition PTE_V :: uint64 where "PTE_V = push_bit 0 1"
definition PTE_R :: uint64 where "PTE_R = push_bit 1 1"
definition PTE_W :: uint64 where "PTE_W = push_bit 2 1"
definition PTE_X :: uint64 where "PTE_X = push_bit 3 1"
definition PTE_U :: uint64 where "PTE_U = push_bit 4 1"

definition PA2PTE :: "uint64 \<Rightarrow> uint64" where "PA2PTE pa = push_bit 10 (drop_bit 12 pa)"
definition PTE2PA :: "uint64 \<Rightarrow> uint64" where "PTE2PA pte = push_bit 12 (drop_bit 10 pte)"
definition PTE_FLAGS :: "uint64 \<Rightarrow> uint64" where "PTE_FLAGS pte = pte AND 0x3FF"

definition PXMASK :: uint64 where "PXMASK = 0x1FF"
definition PXSHIFT :: "nat \<Rightarrow> nat" where "PXSHIFT level = 12 + 9 * level"
definition PX :: "nat \<Rightarrow> uint64 \<Rightarrow> uint64" where "PX level va = drop_bit (PXSHIFT level) va AND PXMASK"

record vst = kmst +
  kernel_pagetable :: addr

section \<open>walk and mappings\<close>

fun walk_loop :: "nat \<Rightarrow> addr \<Rightarrow> uint64 \<Rightarrow> bool \<Rightarrow> (addr option, 'z kmst_scheme) kop" where
  "walk_loop 0 pagetable va alloc = ret (Some pagetable)"
| "walk_loop (Suc l) pagetable va alloc =
     (let pte = pagetable + 8 * PX (Suc l) va in
      bnd (load64 pte) (\<lambda>e.
      if e AND PTE_V \<noteq> 0 then walk_loop l (PTE2PA e) va alloc
      else if \<not> alloc then ret None
      else bnd kalloc (\<lambda>q.
      if q = 0 then ret None
      else bnd (memset q 0 4096) (\<lambda>_.
           thn (store64 pte (PA2PTE q OR PTE_V))
               (walk_loop l q va alloc)))))"

definition walk :: "addr \<Rightarrow> uint64 \<Rightarrow> bool \<Rightarrow> (addr, 'z kmst_scheme) kop" where
  "walk pagetable va alloc =
     (if va \<ge> MAXVA then kpanic ''walk''
      else bnd (walk_loop 2 pagetable va alloc) (\<lambda>r.
           case r of None \<Rightarrow> ret 0 | Some p \<Rightarrow> ret (p + 8 * PX 0 va)))"

definition walkaddr :: "addr \<Rightarrow> uint64 \<Rightarrow> (uint64, 'z kmst_scheme) kop" where
  "walkaddr pagetable va =
     (if va \<ge> MAXVA then ret 0
      else bnd (walk pagetable va False) (\<lambda>pte.
      if pte = 0 then ret 0
      else bnd (load64 pte) (\<lambda>e.
      if e AND PTE_V = 0 then ret 0
      else if e AND PTE_U = 0 then ret 0
      else ret (PTE2PA e))))"

function mappages_loop :: "addr \<Rightarrow> uint64 \<Rightarrow> uint64 \<Rightarrow> uint64 \<Rightarrow> uint64 \<Rightarrow> (int, 'z kmst_scheme) kop" where
  "mappages_loop pagetable a lst pa perm =
     bnd (walk pagetable a True) (\<lambda>pte.
     if pte = 0 then ret (- 1)
     else bnd (load64 pte) (\<lambda>e.
     if e AND PTE_V \<noteq> 0 then kpanic ''remap''
     else thn (store64 pte (PA2PTE pa OR perm OR PTE_V)) (
          if a = lst then ret 0
          else if a \<ge> MAXVA then kpanic ''walk''
          else mappages_loop pagetable (a + PGSIZE) lst (pa + PGSIZE) perm)))"
  by pat_completeness auto

lemma MAXVA_unat: "unat MAXVA = 2 ^ 38"
  by (simp add: MAXVA_def push_bit_eq_mult)

lemma below_MAXVA_step: "\<not> MAXVA \<le> a \<Longrightarrow> unat a < unat (a + PGSIZE) \<and> unat (a + PGSIZE) = unat a + 4096"
proof -
  assume "\<not> MAXVA \<le> a"
  then have "unat a < 2 ^ 38" by (simp add: MAXVA_unat word_le_nat_alt)
  then have "unat (a + 4096) = unat a + 4096"
    by (subst unat_add_lem [THEN iffD1]) simp_all
  then show ?thesis by (simp add: PGSIZE_def)
qed

lemma below_MAXVA_measure: "\<not> MAXVA \<le> a \<Longrightarrow> 2 ^ 39 - unat (a + PGSIZE) < 2 ^ 39 - unat a"
proof -
  assume a: "\<not> MAXVA \<le> a"
  then have "unat a < 2 ^ 38" by (simp add: MAXVA_unat word_le_nat_alt)
  with below_MAXVA_step [OF a] show ?thesis by simp
qed

termination mappages_loop
  by (relation "measure (\<lambda>(_, a, _). 2 ^ 39 - unat a)") (use below_MAXVA_measure in auto)

definition mappages :: "addr \<Rightarrow> uint64 \<Rightarrow> uint64 \<Rightarrow> uint64 \<Rightarrow> uint64 \<Rightarrow> (int, 'z kmst_scheme) kop" where
  "mappages pagetable va sz pa perm =
     mappages_loop pagetable (PGROUNDDOWN va) (PGROUNDDOWN (va + sz - 1)) pa perm"

section \<open>The kernel's page table\<close>

definition kvmmap :: "uint64 \<Rightarrow> uint64 \<Rightarrow> uint64 \<Rightarrow> uint64 \<Rightarrow> (unit, 'z vst_scheme) kop" where
  "kvmmap va pa sz perm =
     bnd (gets kernel_pagetable) (\<lambda>pt.
     bnd (mappages pt va sz pa perm) (\<lambda>r.
     if r \<noteq> 0 then kpanic ''kvmmap'' else ret ()))"

definition kvminit :: "(unit, 'z vst_scheme) kop" where
  "kvminit =
     bnd (gets (\<lambda>s. syms (mach s))) (\<lambda>y.
     bnd kalloc (\<lambda>pt.
     thn (modify (\<lambda>s. s\<lparr>kernel_pagetable := pt\<rparr>)) (
     bnd (memset pt 0 4096) (\<lambda>_.
     thn (kvmmap UART0 UART0 PGSIZE (PTE_R OR PTE_W)) (
     thn (kvmmap VIRTIO0 VIRTIO0 PGSIZE (PTE_R OR PTE_W)) (
     thn (kvmmap CLINT CLINT 0x10000 (PTE_R OR PTE_W)) (
     thn (kvmmap PLIC PLIC 0x400000 (PTE_R OR PTE_W)) (
     thn (kvmmap KERNBASE KERNBASE (sym_etext y - KERNBASE) (PTE_R OR PTE_X)) (
     thn (kvmmap (sym_etext y) (sym_etext y) (PHYSTOP - sym_etext y) (PTE_R OR PTE_W))
         (kvmmap TRAMPOLINE (sym_trampoline y) PGSIZE (PTE_R OR PTE_X)))))))))))"

definition kvminithart :: "(unit, 'z vst_scheme) kop" where
  "kvminithart = bnd (gets kernel_pagetable) (\<lambda>pt. w_satp (MAKE_SATP pt))"

definition kvmpa :: "uint64 \<Rightarrow> (uint64, 'z vst_scheme) kop" where
  "kvmpa va =
     bnd (gets kernel_pagetable) (\<lambda>pt.
     bnd (walk pt va False) (\<lambda>pte.
     if pte = 0 then kpanic ''kvmpa''
     else bnd (load64 pte) (\<lambda>e.
     if e AND PTE_V = 0 then kpanic ''kvmpa''
     else ret (PTE2PA e + va mod PGSIZE))))"

section \<open>User page tables\<close>

function uvmunmap_loop :: "addr \<Rightarrow> uint64 \<Rightarrow> uint64 \<Rightarrow> bool \<Rightarrow> (unit, 'z kmst_scheme) kop" where
  "uvmunmap_loop pagetable a stop do_free =
     (if a < stop
      then bnd (walk pagetable a False) (\<lambda>pte.
           if pte = 0 then kpanic ''uvmunmap: walk''
           else bnd (load64 pte) (\<lambda>e.
           if e AND PTE_V = 0 then kpanic ''uvmunmap: not mapped''
           else if PTE_FLAGS e = PTE_V then kpanic ''uvmunmap: not a leaf''
           else thn (whenk do_free (kfree (PTE2PA e))) (
                thn (store64 pte 0) (
                if a \<ge> MAXVA then kpanic ''walk''
                else uvmunmap_loop pagetable (a + PGSIZE) stop do_free))))
      else ret ())"
  by pat_completeness auto

termination uvmunmap_loop
  by (relation "measure (\<lambda>(_, a, _). 2 ^ 39 - unat a)") (use below_MAXVA_measure in auto)

definition uvmunmap :: "addr \<Rightarrow> uint64 \<Rightarrow> uint64 \<Rightarrow> bool \<Rightarrow> (unit, 'z kmst_scheme) kop" where
  "uvmunmap pagetable va npages do_free =
     (if va mod PGSIZE \<noteq> 0 then kpanic ''uvmunmap: not aligned''
      else uvmunmap_loop pagetable va (va + npages * PGSIZE) do_free)"

definition uvmcreate :: "(addr, 'z kmst_scheme) kop" where
  "uvmcreate =
     bnd kalloc (\<lambda>pt.
     if pt = 0 then ret 0
     else bnd (memset pt 0 4096) (\<lambda>_. ret pt))"

text \<open>\<^verbatim>\<open>src\<close> is \<^verbatim>\<open>initcode[]\<close>; the copy of its \<open>sz\<close> bytes into the fresh page is a store of the list.\<close>

definition uvminit :: "addr \<Rightarrow> uchar list \<Rightarrow> (unit, 'z kmst_scheme) kop" where
  "uvminit pagetable src =
     (if length src \<ge> 4096 then kpanic ''inituvm: more than a page''
      else bnd kalloc (\<lambda>page.
           bnd (memset page 0 4096) (\<lambda>_.
           bnd (mappages pagetable 0 PGSIZE page (PTE_W OR PTE_R OR PTE_X OR PTE_U)) (\<lambda>_.
           modify (\<lambda>s. s\<lparr>mem := mem_write (mem s) page src\<rparr>)))))"

definition uvmdealloc :: "addr \<Rightarrow> uint64 \<Rightarrow> uint64 \<Rightarrow> (uint64, 'z kmst_scheme) kop" where
  "uvmdealloc pagetable oldsz newsz =
     (if newsz \<ge> oldsz then ret oldsz
      else thn (whenk (PGROUNDUP newsz < PGROUNDUP oldsz)
                  (uvmunmap pagetable (PGROUNDUP newsz)
                     (scast (ucast ((PGROUNDUP oldsz - PGROUNDUP newsz) div PGSIZE) :: uint)) True))
               (ret newsz))"

function uvmalloc_loop :: "addr \<Rightarrow> uint64 \<Rightarrow> uint64 \<Rightarrow> uint64 \<Rightarrow> (uint64, 'z kmst_scheme) kop" where
  "uvmalloc_loop pagetable a oldsz newsz =
     (if a < newsz
      then bnd kalloc (\<lambda>page.
           if page = 0 then bnd (uvmdealloc pagetable a oldsz) (\<lambda>_. ret 0)
           else bnd (memset page 0 4096) (\<lambda>_.
                bnd (mappages pagetable a PGSIZE page (PTE_W OR PTE_X OR PTE_R OR PTE_U)) (\<lambda>r.
                if r \<noteq> 0 then thn (kfree page) (bnd (uvmdealloc pagetable a oldsz) (\<lambda>_. ret 0))
                else if a \<ge> MAXVA then kpanic ''walk''
                else uvmalloc_loop pagetable (a + PGSIZE) oldsz newsz)))
      else ret newsz)"
  by pat_completeness auto

termination uvmalloc_loop
  by (relation "measure (\<lambda>(_, a, _). 2 ^ 39 - unat a)") (use below_MAXVA_measure in auto)

definition uvmalloc :: "addr \<Rightarrow> uint64 \<Rightarrow> uint64 \<Rightarrow> (uint64, 'z kmst_scheme) kop" where
  "uvmalloc pagetable oldsz newsz =
     (if newsz < oldsz then ret oldsz
      else uvmalloc_loop pagetable (PGROUNDUP oldsz) (PGROUNDUP oldsz) newsz)"

text \<open>
  \<^verbatim>\<open>freewalk\<close> calls itself once per level; \<open>fuel\<close> bounds the nesting. A nesting of 64 would
  overflow the one-page kernel stack; a page table made by \<^verbatim>\<open>walk\<close> needs three.
\<close>

fun freewalk_deep :: "nat \<Rightarrow> addr \<Rightarrow> (unit, 'z kmst_scheme) kop" where
  "freewalk_deep 0 pagetable = (\<lambda>_. Hang)"
| "freewalk_deep (Suc fuel) pagetable =
     thn (for_each [0..<512] (\<lambda>i.
       bnd (load64 (pagetable + 8 * of_nat i)) (\<lambda>pte.
       if pte AND PTE_V \<noteq> 0 \<and> pte AND (PTE_R OR PTE_W OR PTE_X) = 0
       then thn (freewalk_deep fuel (PTE2PA pte)) (store64 (pagetable + 8 * of_nat i) 0)
       else if pte AND PTE_V \<noteq> 0 then kpanic ''freewalk: leaf''
       else ret ())))
     (kfree pagetable)"

definition freewalk :: "addr \<Rightarrow> (unit, 'z kmst_scheme) kop" where
  "freewalk pagetable = freewalk_deep 64 pagetable"

definition uvmfree :: "addr \<Rightarrow> uint64 \<Rightarrow> (unit, 'z kmst_scheme) kop" where
  "uvmfree pagetable sz =
     thn (whenk (sz > 0) (uvmunmap pagetable 0 (PGROUNDUP sz div PGSIZE) True))
         (freewalk pagetable)"

function uvmcopy_loop :: "addr \<Rightarrow> addr \<Rightarrow> uint64 \<Rightarrow> uint64 \<Rightarrow> (int, 'z kmst_scheme) kop" where
  "uvmcopy_loop old new i sz =
     (if i < sz
      then bnd (walk old i False) (\<lambda>pte.
           if pte = 0 then kpanic ''uvmcopy: pte should exist''
           else bnd (load64 pte) (\<lambda>e.
           if e AND PTE_V = 0 then kpanic ''uvmcopy: page not present''
           else bnd kalloc (\<lambda>page.
           if page = 0 then thn (uvmunmap new 0 (i div PGSIZE) True) (ret (- 1))
           else bnd (memmove page (PTE2PA e) 4096) (\<lambda>_.
                bnd (mappages new i PGSIZE page (PTE_FLAGS e)) (\<lambda>r.
                if r \<noteq> 0 then thn (kfree page) (thn (uvmunmap new 0 (i div PGSIZE) True) (ret (- 1)))
                else if i \<ge> MAXVA then kpanic ''walk''
                else uvmcopy_loop old new (i + PGSIZE) sz)))))
      else ret 0)"
  by pat_completeness auto

termination uvmcopy_loop
  by (relation "measure (\<lambda>(_, _, i, _). 2 ^ 39 - unat i)") (use below_MAXVA_measure in auto)

definition uvmcopy :: "addr \<Rightarrow> addr \<Rightarrow> uint64 \<Rightarrow> (int, 'z kmst_scheme) kop" where
  "uvmcopy old new sz = uvmcopy_loop old new 0 sz"

definition uvmclear :: "addr \<Rightarrow> uint64 \<Rightarrow> (unit, 'z kmst_scheme) kop" where
  "uvmclear pagetable va =
     bnd (walk pagetable va False) (\<lambda>pte.
     if pte = 0 then kpanic ''uvmclear''
     else bnd (load64 pte) (\<lambda>e. store64 pte (e AND NOT PTE_U)))"

section \<open>Copying between kernel and user\<close>

text \<open>The bytes of a page from \<open>va\<close> to its end, at most \<open>len\<close>: \<^verbatim>\<open>n = PGSIZE - (va - va0); if(n > len) n = len\<close>.\<close>

definition page_rest :: "uint64 \<Rightarrow> nat \<Rightarrow> nat" where
  "page_rest va len = (let n = unat (PGSIZE - (va - PGROUNDDOWN va)) in if n > len then len else n)"

lemma page_offset: "unat (va - PGROUNDDOWN va) = unat va mod 4096"
proof -
  have "PGROUNDDOWN va \<le> va" by (simp add: word_le_nat_alt unat_PGROUNDDOWN)
  then show ?thesis by (simp add: unat_sub unat_PGROUNDDOWN minus_mult_div_eq_mod)
qed

lemma page_room: "unat (PGSIZE - (va - PGROUNDDOWN va)) = 4096 - unat va mod 4096"
proof -
  have "va - PGROUNDDOWN va \<le> PGSIZE"
    by (simp add: word_le_nat_alt page_offset PGSIZE_def less_imp_le)
  then show ?thesis by (simp add: unat_sub page_offset) (simp add: PGSIZE_def)
qed

lemma page_rest_eq: "page_rest va len = min len (4096 - unat va mod 4096)"
  by (simp add: page_rest_def page_room Let_def)

lemma page_rest_pos: "0 < len \<Longrightarrow> 0 < page_rest va len"
  by (simp add: page_rest_eq)

function copyout :: "addr \<Rightarrow> uint64 \<Rightarrow> uchar list \<Rightarrow> (int, 'z kmst_scheme) kop" where
  "copyout pagetable dstva src =
     (if src = [] then ret 0
      else bnd (walkaddr pagetable (PGROUNDDOWN dstva)) (\<lambda>pa0.
           if pa0 = 0 then ret (- 1)
           else thn (modify (\<lambda>s. s\<lparr>mem := mem_write (mem s) (pa0 + (dstva - PGROUNDDOWN dstva))
                       (take (page_rest dstva (length src)) src)\<rparr>))
                    (copyout pagetable (PGROUNDDOWN dstva + PGSIZE)
                       (drop (page_rest dstva (length src)) src))))"
  by pat_completeness auto

termination copyout
  by (relation "measure (\<lambda>(_, _, src). length src)") (auto simp: page_rest_pos)

function copyin :: "addr \<Rightarrow> uint64 \<Rightarrow> nat \<Rightarrow> (int \<times> uchar list, 'z kmst_scheme) kop" where
  "copyin pagetable srcva len =
     (if len = 0 then ret (0, [])
      else bnd (walkaddr pagetable (PGROUNDDOWN srcva)) (\<lambda>pa0.
           if pa0 = 0 then ret (- 1, [])
           else bnd (gets (\<lambda>s. mem_read (mem s) (pa0 + (srcva - PGROUNDDOWN srcva)) (page_rest srcva len))) (\<lambda>bs.
                bnd (copyin pagetable (PGROUNDDOWN srcva + PGSIZE) (len - page_rest srcva len)) (\<lambda>(r, rest).
                ret (r, bs @ rest)))))"
  by pat_completeness auto

termination copyin
  by (relation "measure (\<lambda>(_, _, len). len)") (auto simp: page_rest_pos)

text \<open>The inner loop of \<^verbatim>\<open>copyinstr\<close> over one page: whether the nul was found, and the bytes stored.\<close>

fun copyinstr_page :: "cptr \<Rightarrow> nat \<Rightarrow> nat \<Rightarrow> bool \<times> uchar list" where
  "copyinstr_page p i 0 = (False, [])"
| "copyinstr_page p i (Suc n) =
     (if p i = 0 then (True, [0])
      else (case copyinstr_page p (i + 1) n of (g, bs) \<Rightarrow> (g, p i # bs)))"

function copyinstr :: "addr \<Rightarrow> uint64 \<Rightarrow> nat \<Rightarrow> (int \<times> uchar list, 'z kmst_scheme) kop" where
  "copyinstr pagetable srcva mx =
     (if mx = 0 then ret (- 1, [])
      else bnd (walkaddr pagetable (PGROUNDDOWN srcva)) (\<lambda>pa0.
           if pa0 = 0 then ret (- 1, [])
           else bnd (gets mem) (\<lambda>m.
                case copyinstr_page (\<lambda>i. m (pa0 + (srcva - PGROUNDDOWN srcva) + of_nat i)) 0 (page_rest srcva mx) of
                  (g, bs) \<Rightarrow>
                    if g then ret (0, bs)
                    else bnd (copyinstr pagetable (PGROUNDDOWN srcva + PGSIZE) (mx - page_rest srcva mx)) (\<lambda>(r, rest).
                         ret (r, bs @ rest)))))"
  by pat_completeness auto

termination copyinstr
  by (relation "measure (\<lambda>(_, _, mx). mx)") (auto simp: page_rest_pos)

declare mappages_loop.simps [simp del] uvmunmap_loop.simps [simp del] uvmalloc_loop.simps [simp del]
  uvmcopy_loop.simps [simp del] copyout.simps [simp del] copyin.simps [simp del] copyinstr.simps [simp del]

end
