(* ===== verification/Pagetable.thy ===== *)
theory Pagetable
  imports Vm
begin

text \<open>
  The page tables of \<^verbatim>\<open>vm.c\<close> as trees. \<open>node m root p\<close> is the page-table page reached from \<open>root\<close> by
  the indices \<open>p\<close>, \<open>pte_of m root va\<close> the leaf entry for \<open>va\<close> (0 when a level is missing), and
  \<open>pt_ok\<close> the invariant: the nodes are distinct RAM pages, none of them on the free list. On such
  tables \<^verbatim>\<open>walk\<close>, \<^verbatim>\<open>mappages\<close> and \<^verbatim>\<open>uvmunmap\<close> refine lookup and update of a finite map from
  virtual pages to entries.
\<close>

section \<open>Entries\<close>

definition px :: "nat \<Rightarrow> uint64 \<Rightarrow> nat" where
  "px level va = unat (PX level va)"

lemma PXMASK_mask: "PXMASK = mask 9"
  by (simp add: PXMASK_def mask_eq_exp_minus_1)

lemma PX_take: "PX level va = take_bit 9 (drop_bit (12 + 9 * level) va)"
  by (simp add: PX_def PXMASK_mask PXSHIFT_def take_bit_eq_mask)

lemma px_less [simp]: "px level va < 512"
proof -
  have "take_bit 9 (unat (drop_bit (12 + 9 * level) va)) < 2 ^ 9" by (rule take_bit_nat_less_exp)
  then show ?thesis by (simp add: px_def PX_take unsigned_take_bit_eq)
qed

lemma PX_px: "PX level va = of_nat (px level va)"
  by (simp add: px_def)

definition entry :: "addr \<Rightarrow> nat \<Rightarrow> addr" where
  "entry a i = a + 8 * of_nat i"

lemma entry_PX: "a + 8 * PX level va = entry a (px level va)"
  by (simp add: entry_def PX_px)

lemma inside_entry:
  assumes "i < 512" and "inside x (entry a i) 8"
  shows "8 * i \<le> unat (x - a) \<and> unat (x - a) < 8 * i + 8"
proof -
  define d where "d = x - entry a i"
  have d: "unat d < 8" using assms(2) by (simp add: inside_def d_def)
  have i: "unat (8 * of_nat i :: addr) = 8 * i"
    using unat_of_nat_addr [of "8 * i"] assms(1) by simp
  have "x - a = 8 * of_nat i + d" by (simp add: d_def entry_def)
  moreover have "unat (8 * of_nat i + d) = 8 * i + unat d"
    using i d assms(1) by (subst unat_add_lem [THEN iffD1]) simp_all
  ultimately show ?thesis using d by simp
qed

lemma inside_entry_page: "i < 512 \<Longrightarrow> inside x (entry a i) 8 \<Longrightarrow> inside x a 4096"
  using inside_entry [of i x a] by (simp add: inside_def)

lemma entries_apart:
  assumes "i < 512" and "j < 512" and "i \<noteq> j"
  shows "apart (entry a i) 8 (entry a j) 8"
  using inside_entry [of i _ a] inside_entry [of j _ a] assms
  by (fastforce simp: apart_def)

lemma entries_apart_pages:
  assumes "i < 512" and "j < 512" and "page_aligned a" and "page_aligned b" and "a \<noteq> b"
  shows "apart (entry a i) 8 (entry b j) 8"
  using pages_apart [OF assms(3-5)] inside_entry_page [of i _ a] inside_entry_page [of j _ b] assms(1,2)
  by (auto simp: apart_def)

lemma page_frame_entry:
  assumes "page_apart_frame p m m'" and "page_aligned p" and "page_aligned q" and "p \<noteq> q" and "i < 512"
  shows "mem64 m' (entry q i) = mem64 m (entry q i)"
proof -
  have "m' (entry q i + of_nat k) = m (entry q i + of_nat k)" if "k < 8" for k
  proof -
    have "inside (entry q i + of_nat k) (entry q i) 8" using that by (intro inside_offset) simp_all
    then have "inside (entry q i + of_nat k) q 4096" using assms(5) by (intro inside_entry_page)
    then have "\<not> inside (entry q i + of_nat k) p 4096"
      using pages_apart [OF assms(2-4)] by (auto simp: apart_def)
    then show ?thesis using assms(1) by (simp add: page_apart_frame_def)
  qed
  then have "mem_read m' (entry q i) 8 = mem_read m (entry q i) 8" by (intro nth_equalityI) simp_all
  then show ?thesis by (simp add: mem64_def)
qed

lemma page_aligned_bits: "page_aligned p \<Longrightarrow> bit p n \<Longrightarrow> 12 \<le> n"
proof -
  assume "page_aligned p" and b: "bit p n"
  then have "unat p mod 2 ^ 12 = 0" by (simp add: page_aligned_unat)
  then have "take_bit 12 (unat p) = 0" by (simp add: take_bit_eq_mod)
  then have "unat (take_bit 12 p) = 0" by (simp add: unsigned_take_bit_eq)
  then have "take_bit 12 p = 0" by (simp add: unat_eq_0)
  then have "\<not> bit (take_bit 12 p) n" by simp
  with b show ?thesis by (simp add: bit_take_bit_iff)
qed

lemma PTE2PA_PA2PTE:
  assumes "page_aligned q" and "\<And>n. bit f n \<Longrightarrow> n < 10"
  shows "PTE2PA (PA2PTE q OR f) = q"
proof (rule bit_word_eqI)
  fix n assume "n < LENGTH(64)"
  then show "bit (PTE2PA (PA2PTE q OR f)) n = bit q n"
    using page_aligned_bits [OF assms(1), of n] assms(2) [of "n - 2"]
    by (auto simp: PTE2PA_def PA2PTE_def bit_simps)
qed

lemma bit_PTE_V [simp]: "bit PTE_V n \<longleftrightarrow> n = 0"
  by (auto simp: PTE_V_def bit_simps)

lemma PTE2PA_table: "page_aligned q \<Longrightarrow> PTE2PA (PA2PTE q OR PTE_V) = q"
  by (rule PTE2PA_PA2PTE) auto

lemma valid_iff: "e AND PTE_V \<noteq> 0 \<longleftrightarrow> bit e 0"
proof -
  have "PTE_V = 1" by (simp add: PTE_V_def)
  then show ?thesis by (simp add: and_one_eq odd_iff_mod_2_eq_one bit_0)
qed

definition pte_valid :: "uint64 \<Rightarrow> bool" where
  "pte_valid e \<longleftrightarrow> e AND PTE_V \<noteq> 0"

lemma pte_valid_simps [simp]:
  "\<not> pte_valid 0" "pte_valid (e OR PTE_V)" "pte_valid (e OR (f OR PTE_V))"
  by (simp_all only: pte_valid_def valid_iff) (simp_all add: bit_simps)

section \<open>Trees\<close>

fun node :: "memory \<Rightarrow> addr \<Rightarrow> nat list \<Rightarrow> addr option" where
  "node m a [] = Some a"
| "node m a (i # p) = (let e = mem64 m (entry a i) in if pte_valid e then node m (PTE2PA e) p else None)"

definition vpath :: "nat list \<Rightarrow> bool" where
  "vpath p \<longleftrightarrow> length p \<le> 2 \<and> (\<forall>i \<in> set p. i < 512)"

lemma vpath_simps [simp]: "vpath []" "vpath [px l va]" "vpath [px l va, px k va]"
  by (simp_all add: vpath_def)

lemma node_append: "node m a (p @ q) = (case node m a p of None \<Rightarrow> None | Some b \<Rightarrow> node m b q)"
  by (induction p arbitrary: a) (simp_all add: Let_def)

text \<open>Two memories that agree on the entries along a path reach the same node.\<close>

lemma node_frame:
  assumes "\<And>q i r b. p = q @ i # r \<Longrightarrow> node m a q = Some b \<Longrightarrow> mem64 m' (entry b i) = mem64 m (entry b i)"
  shows "node m' a p = node m a p"
  using assms
proof (induction p arbitrary: a)
  case Nil
  then show ?case by simp
next
  case (Cons i p)
  have e: "mem64 m' (entry a i) = mem64 m (entry a i)"
    using Cons.prems [of "[]" i p a] by simp
  show ?case
  proof (cases "pte_valid (mem64 m (entry a i))")
    case True
    have "node m' (PTE2PA (mem64 m (entry a i))) p = node m (PTE2PA (mem64 m (entry a i))) p"
    proof (rule Cons.IH)
      fix q j r b
      assume "p = q @ j # r" and "node m (PTE2PA (mem64 m (entry a i))) q = Some b"
      then show "mem64 m' (entry b j) = mem64 m (entry b j)"
        using Cons.prems [of "i # q" j r b] True by (simp add: Let_def)
    qed
    then show ?thesis using e by (simp add: Let_def)
  next
    case False
    then show ?thesis using e by (simp add: Let_def)
  qed
qed

declare node.simps(2) [simp del]

definition pte_addr :: "memory \<Rightarrow> addr \<Rightarrow> uint64 \<Rightarrow> addr option" where
  "pte_addr m root va = map_option (\<lambda>a. entry a (px 0 va)) (node m root [px 2 va, px 1 va])"

definition pte_of :: "memory \<Rightarrow> addr \<Rightarrow> uint64 \<Rightarrow> uint64" where
  "pte_of m root va = (case pte_addr m root va of None \<Rightarrow> 0 | Some e \<Rightarrow> mem64 m e)"

definition tree_ok :: "memory \<Rightarrow> addr \<Rightarrow> bool" where
  "tree_ok m root \<longleftrightarrow>
     (\<forall>p a. vpath p \<longrightarrow> node m root p = Some a \<longrightarrow> page_aligned a \<and> a \<noteq> 0) \<and>
     (\<forall>p q a. vpath p \<longrightarrow> vpath q \<longrightarrow> node m root p = Some a \<longrightarrow> node m root q = Some a \<longrightarrow> p = q)"

definition nodes :: "memory \<Rightarrow> addr \<Rightarrow> addr set" where
  "nodes m root = {a. \<exists>p. vpath p \<and> node m root p = Some a}"

definition pt_ok :: "addr list \<Rightarrow> 'z kmst_scheme \<Rightarrow> addr \<Rightarrow> bool" where
  "pt_ok ps s root \<longleftrightarrow> kmem_ok ps s \<and> tree_ok (mem s) root \<and> nodes (mem s) root \<inter> set ps = {}"

lemma pt_okD:
  assumes "pt_ok ps s root"
  shows "kmem_ok ps s" and "tree_ok (mem s) root" and "a \<in> nodes (mem s) root \<Longrightarrow> a \<notin> set ps"
  using assms by (auto simp: pt_ok_def)

lemma tree_okD:
  assumes "tree_ok m root"
  shows "vpath p \<Longrightarrow> node m root p = Some a \<Longrightarrow> page_aligned a \<and> a \<noteq> 0"
    and "vpath p \<Longrightarrow> vpath q \<Longrightarrow> node m root p = Some a \<Longrightarrow> node m root q = Some a \<Longrightarrow> p = q"
  using assms by (auto simp: tree_ok_def)

text \<open>Memories that agree on every entry of the nodes have the same nodes and the same leaf entries.\<close>

lemma vpath_prefix: "vpath (q @ i # r) \<Longrightarrow> vpath q \<and> i < 512"
  by (auto simp: vpath_def)

lemma vpath_snoc: "vpath p \<Longrightarrow> length p < 2 \<Longrightarrow> i < 512 \<Longrightarrow> vpath (p @ [i])"
  by (auto simp: vpath_def)

lemma nodesI: "vpath p \<Longrightarrow> node m root p = Some a \<Longrightarrow> a \<in> nodes m root"
  by (auto simp: nodes_def)

lemma nodes_agree:
  assumes "\<And>a i. a \<in> nodes m root \<Longrightarrow> i < 512 \<Longrightarrow> mem64 m' (entry a i) = mem64 m (entry a i)"
  shows "vpath p \<Longrightarrow> node m' root p = node m root p"
    and "nodes m' root = nodes m root"
    and "pte_of m' root va = pte_of m root va"
    and "pte_addr m' root va = pte_addr m root va"
    and "tree_ok m' root = tree_ok m root"
proof -
  have n: "node m' root p = node m root p" if "vpath p" for p
  proof (rule node_frame)
    fix q i r b
    assume "p = q @ i # r" and "node m root q = Some b"
    with that vpath_prefix [of q i r] have "b \<in> nodes m root" "i < 512" by (auto simp: nodes_def)
    then show "mem64 m' (entry b i) = mem64 m (entry b i)" by (rule assms)
  qed
  then show "vpath p \<Longrightarrow> node m' root p = node m root p" .
  show "nodes m' root = nodes m root" using n by (auto simp: nodes_def)
  show addr: "pte_addr m' root va = pte_addr m root va" by (simp add: pte_addr_def n)
  have "mem64 m' (entry a (px 0 va)) = mem64 m (entry a (px 0 va))" if "node m root [px 2 va, px 1 va] = Some a" for a
    using that by (intro assms nodesI [OF vpath_simps(3)]) simp_all
  then show "pte_of m' root va = pte_of m root va"
    unfolding pte_of_def addr by (auto simp: pte_addr_def split: option.splits)
  show "tree_ok m' root = tree_ok m root" using n by (simp add: tree_ok_def)
qed

text \<open>A change confined to a page that is not a node does not change the table.\<close>

lemma frame_agree:
  assumes "tree_ok m root" and "page_apart_frame q m m'" and "page_aligned q" and "q \<notin> nodes m root"
    and "a \<in> nodes m root" and "i < 512"
  shows "mem64 m' (entry a i) = mem64 m (entry a i)"
proof -
  have "page_aligned a" using assms(1,5) tree_okD(1) by (auto simp: nodes_def)
  moreover have "q \<noteq> a" using assms(4,5) by auto
  ultimately show ?thesis using page_frame_entry [OF assms(2,3)] assms(6) by blast
qed

text \<open>A store to entry \<open>i\<close> of the node at path \<open>p\<close> keeps every other entry of every node.\<close>

lemma store_entry_other:
  assumes "tree_ok m root" and "vpath p" and "node m root p = Some a" and "i < 512"
    and "vpath q" and "node m root q = Some b" and "j < 512" and "(q, j) \<noteq> (p, i)"
  shows "mem64 (mem_put64 m (entry a i) v) (entry b j) = mem64 m (entry b j)"
proof (rule mem64_put64_apart)
  show "apart (entry a i) 8 (entry b j) 8"
  proof (cases "q = p")
    case True
    then have "b = a" and "j \<noteq> i" using assms by auto
    then show ?thesis using assms by (auto intro: entries_apart)
  next
    case False
    then have "b \<noteq> a" using tree_okD(2) [OF assms(1)] assms(2-6) by metis
    then show ?thesis
      using assms tree_okD(1) [OF assms(1)] by (intro entries_apart_pages) auto
  qed
qed

lemma store_node:
  assumes "tree_ok m root" and "vpath p" and "node m root p = Some a" and "i < 512"
    and "vpath q" and "\<And>r. q \<noteq> p @ i # r"
  shows "node (mem_put64 m (entry a i) v) root q = node m root q"
proof (rule node_frame)
  fix q' j r b
  assume q: "q = q' @ j # r" and b: "node m root q' = Some b"
  then have "vpath q'" "j < 512" using assms(5) vpath_prefix by blast+
  moreover have "(q', j) \<noteq> (p, i)" using assms(6) q by auto
  ultimately show "mem64 (mem_put64 m (entry a i) v) (entry b j) = mem64 m (entry b j)"
    using store_entry_other [OF assms(1-4)] b by blast
qed

text \<open>A store to a leaf table changes one leaf entry and no node.\<close>

lemma store_leaf_node:
  assumes "tree_ok m root" and "vpath p" and "length p = 2" and "node m root p = Some a" and "i < 512" and "vpath q"
  shows "node (mem_put64 m (entry a i) v) root q = node m root q"
  using assms by (intro store_node) (auto simp: vpath_def)

text \<open>Linking a zeroed page under a node adds one node and changes no leaf entry.\<close>

lemma link_node:
  assumes "tree_ok m root" and "vpath p" and "length p < 2" and "node m root p = Some a" and "i < 512"
    and "\<not> pte_valid (mem64 m (entry a i))"
    and "page_aligned q" and "q \<notin> nodes m root" and "\<And>j. j < 512 \<Longrightarrow> mem64 m (entry q j) = 0"
    and "vpath r"
  shows "node (mem_put64 m (entry a i) (PA2PTE q OR PTE_V)) root r = (if r = p @ [i] then Some q else node m root r)"
proof -
  let ?m = "mem_put64 m (entry a i) (PA2PTE q OR PTE_V)"
  have a: "page_aligned a" "a \<in> nodes m root"
    using tree_okD(1) [OF assms(1,2,4)] nodesI [OF assms(2,4)] by auto
  then have "q \<noteq> a" using assms(8) by auto
  then have zero: "mem64 ?m (entry q j) = 0" if "j < 512" for j
    using that assms(5,7,9) a(1)
    by (subst mem64_put64_apart) (auto intro: entries_apart_pages)
  have same_p: "node ?m root p = Some a"
    using assms by (subst store_node) auto
  show ?thesis
  proof (cases "\<exists>r'. r = p @ i # r'")
    case True
    then obtain r' where r: "r = p @ i # r'" ..
    have old: "node m root r = None"
      using assms(4,6) by (simp add: r node_append node.simps(2))
    have "node ?m root r = node ?m q r'"
      using same_p PTE2PA_table [OF assms(7)] by (simp add: r node_append node.simps(2))
    moreover have "node ?m q r' = (if r' = [] then Some q else None)"
    proof (cases r')
      case (Cons j r'')
      then have "j < 512" using assms(10) r by (simp add: vpath_def)
      then show ?thesis using Cons zero by (simp add: node.simps(2))
    qed simp
    ultimately show ?thesis using old r by auto
  next
    case False
    then have "node ?m root r = node m root r" using assms by (intro store_node) auto
    with False show ?thesis by auto
  qed
qed

lemma link_page:
  assumes "tree_ok m root" and "vpath p" and "length p < 2" and "node m root p = Some a" and "i < 512"
    and "\<not> pte_valid (mem64 m (entry a i))"
    and "page_aligned q" and "q \<noteq> 0" and "q \<notin> nodes m root" and "\<And>j. j < 512 \<Longrightarrow> mem64 m (entry q j) = 0"
  defines "m' \<equiv> mem_put64 m (entry a i) (PA2PTE q OR PTE_V)"
  shows "tree_ok m' root" and "nodes m' root = insert q (nodes m root)"
    and "node m' root (p @ [i]) = Some q" and "pte_of m' root va = pte_of m root va"
proof -
  have n: "node m' root r = (if r = p @ [i] then Some q else node m root r)" if "vpath r" for r
    unfolding m'_def using link_node [OF assms(1-7,9,10) that] .
  have v: "vpath (p @ [i])" using vpath_snoc [OF assms(2,3,5)] .
  have old: "node m root (p @ [i]) = None"
    using assms(4,6) by (simp add: node_append node.simps(2))
  show "node m' root (p @ [i]) = Some q" using n [OF v] by simp
  show nodes: "nodes m' root = insert q (nodes m root)"
  proof (intro equalityI subsetI)
    fix x assume "x \<in> nodes m' root"
    then obtain r where "vpath r" "node m' root r = Some x" by (auto simp: nodes_def)
    then show "x \<in> insert q (nodes m root)" using n [of r] by (auto simp: nodes_def split: if_splits)
  next
    fix x assume x: "x \<in> insert q (nodes m root)"
    show "x \<in> nodes m' root"
    proof (cases "x = q")
      case True
      then show ?thesis using n [OF v] v by (auto intro: nodesI)
    next
      case False
      then obtain r where "vpath r" "node m root r = Some x" using x by (auto simp: nodes_def)
      then show ?thesis using n [of r] old by (auto intro!: nodesI [of r])
    qed
  qed
  show "tree_ok m' root"
    unfolding tree_ok_def
  proof (intro conjI allI impI)
    fix r a
    assume r: "vpath r" "node m' root r = Some a"
    show "page_aligned a" "a \<noteq> 0"
      using n [OF r(1)] r tree_okD(1) [OF assms(1)] assms(7,8) by (auto split: if_splits)
    fix r'
    assume r': "vpath r'" "node m' root r' = Some a"
    show "r = r'"
    proof (cases "r = p @ [i] \<or> r' = p @ [i]")
      case True
      then show ?thesis
        using n [OF r(1)] n [OF r'(1)] r r' assms(9) by (auto simp: nodes_def split: if_splits)
    next
      case False
      then have "node m root r = Some a" "node m root r' = Some a"
        using n [OF r(1)] n [OF r'(1)] r r' by simp_all
      then show ?thesis using tree_okD(2) [OF assms(1)] r r' by blast
    qed
  qed
  show "pte_of m' root va = pte_of m root va"
  proof (cases "[px 2 va, px 1 va] = p @ [i]")
    case True
    have a: "page_aligned a" "a \<in> nodes m root"
      using tree_okD(1) [OF assms(1,2,4)] nodesI [OF assms(2,4)] by auto
    then have "mem64 m' (entry q (px 0 va)) = 0"
      unfolding m'_def using assms(5,7,9,10)
      by (subst mem64_put64_apart) (auto intro: entries_apart_pages)
    then show ?thesis
      unfolding pte_of_def pte_addr_def True using n [OF v] old by simp
  next
    case False
    then have same: "node m' root [px 2 va, px 1 va] = node m root [px 2 va, px 1 va]"
      using n [OF vpath_simps(3) [of 2 va 1]] by (simp only: if_False)
    have "mem64 m' (entry b (px 0 va)) = mem64 m (entry b (px 0 va))" if "node m root [px 2 va, px 1 va] = Some b" for b
      unfolding m'_def using assms(3) that
      by (intro store_entry_other [OF assms(1,2,4,5) vpath_simps(3)]) auto
    then show ?thesis
      unfolding pte_of_def pte_addr_def same by (auto split: option.splits)
  qed
qed

section \<open>walk\<close>

text \<open>Bytes outside the nodes of a table and outside the free pages.\<close>

definition outside :: "addr set \<Rightarrow> addr \<Rightarrow> bool" where
  "outside A x \<longleftrightarrow> (\<forall>a \<in> A. \<not> inside x a 4096)"

lemma zero_page: "mem64 (mem_write m q (replicate 4096 0)) (entry q j) = 0" if "j < 512"
proof -
  have "mem_write m q (replicate 4096 0) (entry q j + of_nat k) = 0" if "k < 8" for k
  proof -
    have "inside (entry q j + of_nat k) (entry q j) 8" using that by (intro inside_offset) simp_all
    then have "inside (entry q j + of_nat k) q 4096" using \<open>j < 512\<close> by (intro inside_entry_page)
    then show ?thesis by (simp add: mem_write_def inside_def)
  qed
  then have "mem_read (mem_write m q (replicate 4096 0)) (entry q j) 8 = replicate 8 0"
    by (intro nth_equalityI) simp_all
  then show ?thesis by (simp add: mem64_def numeral_eq_Suc)
qed

fun wpath :: "nat \<Rightarrow> uint64 \<Rightarrow> nat list" where
  "wpath 0 va = []"
| "wpath (Suc l) va = px (Suc l) va # wpath l va"

lemma wpath_2: "wpath 2 va = [px 2 va, px 1 va]"
  by (simp add: numeral_2_eq_2)

lemma length_wpath [simp]: "length (wpath l va) = l"
  by (induction l) simp_all

lemma walk_loop_lookup: "walk_loop l a va False s = Ok (node (mem s) a (wpath l va)) s"
  by (induction l arbitrary: a)
    (simp_all add: kop_simps Let_def entry_PX node.simps(2) pte_valid_def)

text \<open>What an operation on page tables may change of the state: memory, the free list and the note of \<^verbatim>\<open>intena\<close>.\<close>

definition vm_frame :: "('z kmst_scheme) \<Rightarrow> 'z kmst_scheme \<Rightarrow> bool" where
  "vm_frame s t \<longleftrightarrow> t = s\<lparr>mach := mach t, mem := mem t, freelist := freelist t\<rparr> \<and>
     (mach t = mach s \<or> mach t = m_note (mach s))"

lemma vm_frame_refl [simp]: "vm_frame s s"
  by (simp add: vm_frame_def)

lemma m_note_idem [simp]: "m_note (m_note m) = m_note m"
  by (simp add: m_note_def Let_def this_cpu_def sie_on_def)

lemma vm_frame_trans: "vm_frame s t \<Longrightarrow> vm_frame t u \<Longrightarrow> vm_frame s u"
  unfolding vm_frame_def by (cases s; cases t; cases u) auto

lemma vm_frame_syms: "vm_frame s t \<Longrightarrow> syms (mach t) = syms (mach s)"
  by (auto simp: vm_frame_def)

lemma kmem_ok_mem:
  assumes "kmem_ok ps s" and "\<And>p. p \<in> set ps \<Longrightarrow> mem64 m p = mem64 (mem s) p"
  shows "kmem_ok ps (s\<lparr>mem := m\<rparr>)"
  using assms flist_cong [of ps m "mem s" "freelist s"] by (auto simp: kmem_ok_def ram_page_def)

lemma entry_0 [simp]: "entry a 0 = a"
  by (simp add: entry_def)

lemma kmem_ok_aligned: "kmem_ok ps s \<Longrightarrow> p \<in> set ps \<Longrightarrow> page_aligned p \<and> p \<noteq> 0"
  using ram_page_nonzero by (auto simp: kmem_ok_def ram_page_def)

lemma kmem_ok_put64:
  assumes "kmem_ok ps s" and "page_aligned a" and "a \<notin> set ps" and "i < 512"
  shows "kmem_ok ps (s\<lparr>mem := mem_put64 (mem s) (entry a i) v\<rparr>)"
proof (rule kmem_ok_mem [OF assms(1)])
  fix p assume "p \<in> set ps"
  then have "page_aligned p" "p \<noteq> a" using assms(1,3) kmem_ok_aligned by auto
  then have "apart (entry a i) 8 (entry p 0) 8"
    using assms(2,4) by (intro entries_apart_pages) auto
  then show "mem64 (mem_put64 (mem s) (entry a i) v) p = mem64 (mem s) p"
    by (simp add: mem64_put64_apart)
qed

text \<open>One missing level: a page is taken from the free list, cleared and linked in.\<close>

lemma alloc_level:
  fixes s :: "'z kmst_scheme"
  assumes "pt_ok (q # ps) s root" and "vpath p" and "length p < 2" and "node (mem s) root p = Some a" and "i < 512"
    and "\<not> pte_valid (mem64 (mem s) (entry a i))"
  shows "\<exists>t. bnd kalloc (\<lambda>q. bnd (memset q 0 4096) (\<lambda>_. thn (store64 (entry a i) (PA2PTE q OR PTE_V)) (ret q))) s = Ok q t \<and>
    q \<noteq> 0 \<and> pt_ok ps t root \<and> vm_frame s t \<and> node (mem t) root (p @ [i]) = Some q \<and>
    nodes (mem t) root = insert q (nodes (mem s) root) \<and>
    (\<forall>va. pte_of (mem t) root va = pte_of (mem s) root va) \<and>
    (\<forall>x. outside (insert q (nodes (mem s) root)) x \<longrightarrow> mem t x = mem s x)"
proof -
  note kok = pt_okD(1) [OF assms(1)] and tok = pt_okD(2) [OF assms(1)]
  obtain u where u: "kalloc s = Ok q u" "kmem_ok ps u" "q \<noteq> 0" "ram_page u q" "q \<notin> set ps"
    "page_apart_frame q (mem s) (mem u)" "mach u = m_note (mach s)"
    "u = s\<lparr>mach := m_note (mach s), mem := mem u, freelist := freelist u\<rparr>"
    using kalloc_some [OF kok] by blast
  have q: "page_aligned q" using u(4) by (simp add: ram_page_def)
  have qn: "q \<notin> nodes (mem s) root" using pt_okD(3) [OF assms(1), of q] by auto
  let ?m1 = "mem_write (mem u) q (replicate 4096 0)"
  have fr: "page_apart_frame q (mem s) ?m1"
    using u(6) by (simp add: page_apart_frame_def mem_write_other)
  have agree: "mem64 ?m1 (entry b j) = mem64 (mem s) (entry b j)" if "b \<in> nodes (mem s) root" "j < 512" for b j
    using frame_agree [OF tok fr q qn that] .
  note same = nodes_agree [of "mem s" root ?m1, OF agree]
  have a: "a \<in> nodes (mem s) root" "page_aligned a"
    using nodesI [OF assms(2,4)] tree_okD(1) [OF tok assms(2,4)] by auto
  let ?m2 = "mem_put64 ?m1 (entry a i) (PA2PTE q OR PTE_V)"
  have hyps: "tree_ok ?m1 root" "node ?m1 root p = Some a" "\<not> pte_valid (mem64 ?m1 (entry a i))"
    "q \<notin> nodes ?m1 root" "\<And>j. j < 512 \<Longrightarrow> mem64 ?m1 (entry q j) = 0"
    using tok assms(2,4,6) qn same agree [OF a(1) assms(5)] zero_page by simp_all
  note link = link_page [OF hyps(1) assms(2,3) hyps(2) assms(5) hyps(3) q u(3) hyps(4,5)]
  have k1: "kmem_ok ps (u\<lparr>mem := ?m1\<rparr>)"
  proof (rule kmem_ok_mem [OF u(2)])
    fix r assume "r \<in> set ps"
    then have "page_aligned r" "r \<noteq> q" using kmem_ok_aligned [OF u(2)] u(5) by auto
    then show "mem64 ?m1 r = mem64 (mem u) r"
      using q by (intro page_frame_mem64 [of q]) (auto simp: page_apart_frame_def mem_write_other)
  qed
  have aps: "a \<notin> set ps" using pt_okD(3) [OF assms(1)] a(1) by auto
  let ?t = "u\<lparr>mem := ?m2\<rparr>"
  have "kmem_ok ps ?t" using kmem_ok_put64 [OF k1 a(2) aps assms(5)] by simp
  moreover have "nodes (mem ?t) root \<inter> set ps = {}"
    using link(2) same(2) u(5) pt_okD(3) [OF assms(1)] by auto
  ultimately have "pt_ok ps ?t root" using link(1) by (simp add: pt_ok_def)
  moreover have "vm_frame s ?t"
    using u(8) by (cases s; cases u) (simp add: vm_frame_def)
  moreover have "mem ?t x = mem s x" if "outside (insert q (nodes (mem s) root)) x" for x
  proof -
    have "\<not> inside x q 4096" "\<not> inside x a 4096" using that a(1) by (auto simp: outside_def)
    then have "\<not> inside x (entry a i) 8" and "?m1 x = mem s x"
      using fr inside_entry_page [OF assms(5), of x a] by (auto simp: page_apart_frame_def)
    then show ?thesis by (simp add: mem_put64_other)
  qed
  moreover have "bnd kalloc (\<lambda>q. bnd (memset q 0 4096) (\<lambda>_. thn (store64 (entry a i) (PA2PTE q OR PTE_V)) (ret q))) s = Ok q ?t"
    using u(1) by (simp add: kop_simps memset_apply)
  ultimately show ?thesis using link same u(3) by auto
qed

text \<open>
  The table grew by the free pages \<open>us\<close>, which became nodes, without any leaf entry changing and
  without a byte changing outside the nodes.
\<close>

definition grown :: "addr list \<Rightarrow> addr list \<Rightarrow> addr \<Rightarrow> ('z kmst_scheme) \<Rightarrow> 'z kmst_scheme \<Rightarrow> bool" where
  "grown ps ps' root s t \<longleftrightarrow> pt_ok ps' t root \<and> vm_frame s t \<and>
     (\<exists>us. ps = us @ ps' \<and> nodes (mem t) root = nodes (mem s) root \<union> set us) \<and>
     (\<forall>va. pte_of (mem t) root va = pte_of (mem s) root va) \<and>
     (\<forall>x. outside (nodes (mem t) root) x \<longrightarrow> mem t x = mem s x)"

lemma grown_refl: "pt_ok ps s root \<Longrightarrow> grown ps ps root s s"
  by (auto simp: grown_def)

lemma outside_mono: "outside B x \<Longrightarrow> A \<subseteq> B \<Longrightarrow> outside A x"
  by (auto simp: outside_def)

lemma grown_trans:
  assumes "grown ps ps' root s t" and "grown ps' ps'' root t u"
  shows "grown ps ps'' root s u"
proof -
  obtain us vs where us: "ps = us @ ps'" "nodes (mem t) root = nodes (mem s) root \<union> set us"
    and vs: "ps' = vs @ ps''" "nodes (mem u) root = nodes (mem t) root \<union> set vs"
    using assms by (auto simp: grown_def)
  then have "\<exists>ws. ps = ws @ ps'' \<and> nodes (mem u) root = nodes (mem s) root \<union> set ws"
    by (intro exI [of _ "us @ vs"]) auto
  moreover have "mem u x = mem s x" if "outside (nodes (mem u) root) x" for x
    using that assms vs(2) outside_mono [of "nodes (mem u) root" x "nodes (mem t) root"] by (auto simp: grown_def)
  ultimately show ?thesis
    using assms vm_frame_trans [of s t u] by (simp add: grown_def)
qed

lemma walk_loop_alloc:
  fixes s :: "'z kmst_scheme"
  assumes "pt_ok ps s root" and "vpath (p @ wpath l va)" and "length p + l = 2" and "node (mem s) root p = Some a"
  shows "\<exists>t ps' r. walk_loop l a va True s = Ok r t \<and> grown ps ps' root s t \<and>
    (case r of None \<Rightarrow> ps' = [] | Some b \<Rightarrow> node (mem t) root (p @ wpath l va) = Some b)"
  using assms
proof (induction l arbitrary: a p s ps)
  case 0
  then show ?case using grown_refl [of ps s root] by auto
next
  case (Suc l)
  let ?i = "px (Suc l) va"
  have p: "vpath p" "length p < 2" using Suc.prems(2,3) by (auto simp: vpath_def)
  have path: "vpath ((p @ [?i]) @ wpath l va)" "length (p @ [?i]) + l = 2"
    using Suc.prems(2,3) by simp_all
  have pe: "p @ wpath (Suc l) va = (p @ [?i]) @ wpath l va" by simp
  show ?case
  proof (cases "pte_valid (mem64 (mem s) (entry a ?i))")
    case True
    then have "node (mem s) root (p @ [?i]) = Some (PTE2PA (mem64 (mem s) (entry a ?i)))"
      using Suc.prems(4) by (simp add: node_append node.simps(2))
    note IH = Suc.IH [OF Suc.prems(1) path this]
    have "walk_loop (Suc l) a va True s = walk_loop l (PTE2PA (mem64 (mem s) (entry a ?i))) va True s"
      using True by (simp add: kop_simps entry_PX pte_valid_def Let_def)
    with IH show ?thesis unfolding pe by (simp only:)
  next
    case False
    have unfold: "walk_loop (Suc l) a va True s =
        bnd kalloc (\<lambda>q. if q = 0 then ret None else bnd (memset q 0 4096) (\<lambda>_.
          thn (store64 (entry a ?i) (PA2PTE q OR PTE_V)) (walk_loop l q va True))) s"
      using False by (simp add: kop_simps entry_PX pte_valid_def Let_def)
    show ?thesis
    proof (cases ps)
      case Nil
      let ?t = "s\<lparr>mach := m_note (mach s)\<rparr>"
      have "kalloc s = Ok 0 ?t" "kmem_ok [] ?t"
        using kalloc_none [of s] pt_okD(1) [OF Suc.prems(1)] Nil by auto
      moreover have "vm_frame s ?t" by (simp add: vm_frame_def)
      ultimately have "walk_loop (Suc l) a va True s = Ok None ?t" "grown ps [] root s ?t"
        using Suc.prems(1) Nil unfolding unfold grown_def by (simp_all add: kop_simps pt_ok_def)
      then show ?thesis by auto
    next
      case (Cons q qs)
      then have "pt_ok (q # qs) s root" using Suc.prems(1) by simp
      then obtain t where t: "bnd kalloc (\<lambda>q. bnd (memset q 0 4096) (\<lambda>_. thn (store64 (entry a ?i) (PA2PTE q OR PTE_V)) (ret q))) s = Ok q t"
        "q \<noteq> 0" "pt_ok qs t root" "vm_frame s t" "node (mem t) root (p @ [?i]) = Some q"
        "nodes (mem t) root = insert q (nodes (mem s) root)"
        "\<forall>va. pte_of (mem t) root va = pte_of (mem s) root va"
        "\<forall>x. outside (insert q (nodes (mem s) root)) x \<longrightarrow> mem t x = mem s x"
        using alloc_level [of q qs s root p a ?i, OF _ p Suc.prems(4) px_less False] by blast
      have g: "grown ps qs root s t"
        using t Cons by (simp add: grown_def)
      from t(1) obtain u where u: "kalloc s = Ok q u" "thn (store64 (entry a ?i) (PA2PTE q OR PTE_V)) (ret q)
          (u\<lparr>mem := mem_write (mem u) q (replicate 4096 0)\<rparr>) = Ok q t"
        by (auto simp: bnd_eq_Ok thn_eq_Ok memset_apply)
      then have "walk_loop (Suc l) a va True s = walk_loop l q va True t"
        unfolding unfold using t(2) by (simp add: kop_simps memset_apply)
      with Suc.IH [OF t(3) path t(5)] show ?thesis
        unfolding pe using grown_trans [OF g] by (simp only:) blast
    qed
  qed
qed

lemma entry_nonzero:
  assumes "page_aligned a" and "a \<noteq> 0" and "i < 512"
  shows "entry a i \<noteq> 0"
proof
  assume z: "entry a i = 0"
  have "inside (entry a i) (entry a i) 8" by (simp add: inside_def)
  then have "inside (entry a i) a 4096" using assms(3) by (rule inside_entry_page [rotated])
  then have "unat a div 4096 = 0" using z inside_page [OF assms(1), of 0] by simp
  then have "unat a = 0" using assms(1) by (simp add: page_aligned_unat)
  then show False using assms(2) by (simp add: unat_eq_0)
qed

lemma walk_lookup:
  assumes "va < MAXVA"
  shows "walk root va False s = Ok (case pte_addr (mem s) root va of None \<Rightarrow> 0 | Some e \<Rightarrow> e) s"
  using assms
  by (simp add: walk_def kop_simps walk_loop_lookup wpath_2 pte_addr_def entry_PX not_le [symmetric]
      split: option.splits)

lemma pte_addr_nonzero: "tree_ok m root \<Longrightarrow> pte_addr m root va = Some e \<Longrightarrow> e \<noteq> 0"
  using tree_okD(1) [of m root "[px 2 va, px 1 va]"] entry_nonzero [OF _ _ px_less]
  by (auto simp: pte_addr_def)

lemma walk_alloc:
  fixes s :: "'z kmst_scheme"
  assumes "pt_ok ps s root" and "va < MAXVA"
  shows "\<exists>t ps' r. walk root va True s = Ok r t \<and> grown ps ps' root s t \<and>
    (if r = 0 then ps' = [] else pte_addr (mem t) root va = Some r)"
proof -
  obtain t ps' r where t: "walk_loop 2 root va True s = Ok r t" "grown ps ps' root s t"
    "case r of None \<Rightarrow> ps' = [] | Some b \<Rightarrow> node (mem t) root ([] @ wpath 2 va) = Some b"
    using walk_loop_alloc [of ps s root "[]" 2 va root] assms by (auto simp: wpath_2)
  show ?thesis
  proof (cases r)
    case None
    then have "walk root va True s = Ok 0 t"
      using t(1) assms(2) by (simp add: walk_def kop_simps not_le [symmetric])
    with t None show ?thesis by auto
  next
    case (Some b)
    then have e: "pte_addr (mem t) root va = Some (entry b (px 0 va))"
      using t(3) by (simp add: pte_addr_def wpath_2)
    moreover have "tree_ok (mem t) root" using t(2) by (auto simp: grown_def pt_ok_def)
    ultimately have "entry b (px 0 va) \<noteq> 0" by (rule pte_addr_nonzero [rotated])
    moreover have "walk root va True s = Ok (entry b (px 0 va)) t"
      using t(1) assms(2) Some by (simp add: walk_def kop_simps entry_PX not_le [symmetric])
    ultimately show ?thesis using t(2) e by auto
  qed
qed

section \<open>Leaf entries\<close>

definition vpage :: "uint64 \<Rightarrow> nat" where
  "vpage va = unat va div 4096"

lemma bit_above_MAXVA: "va < MAXVA \<Longrightarrow> bit va n \<Longrightarrow> n < 39"
proof -
  assume a: "va < MAXVA" and b: "bit va n"
  have "unat va < 2 ^ 38" using a by (simp add: MAXVA_unat word_less_nat_alt)
  moreover have "bit (unat va) n" using b by (simp add: bit_unsigned_iff bit_imp_le_length)
  then have "odd (unat va div 2 ^ n)" by (simp add: bit_iff_odd)
  then have "2 ^ n \<le> unat va" by (metis div_less even_zero not_less)
  ultimately have "(2::nat) ^ n < 2 ^ 38" by simp
  then show ?thesis by (simp only: power_strict_increasing_iff [of "2::nat"])
qed

lemma unat_drop12: "unat (drop_bit 12 x) = unat x div 4096" for x :: addr
proof -
  have "unat x < 2 ^ LENGTH(64)" by (rule unsigned_less)
  then show ?thesis
    by (simp only: unsigned_drop_bit_eq) (simp add: drop_bit_eq_div take_bit_nat_eq_self)
qed

lemma same_vpage:
  assumes "va < MAXVA" and "vb < MAXVA"
  shows "px 2 va = px 2 vb \<and> px 1 va = px 1 vb \<and> px 0 va = px 0 vb \<longleftrightarrow> vpage va = vpage vb"
proof -
  have d: "vpage v = unat (drop_bit 12 v)" for v
    by (simp only: vpage_def unat_drop12)
  have "px l va = px l vb" if "vpage va = vpage vb" for l
  proof -
    have "drop_bit 12 va = drop_bit 12 vb" using that by (simp add: d word_unat_eq_iff)
    then have "drop_bit (9 * l) (drop_bit 12 va) = drop_bit (9 * l) (drop_bit 12 vb)" by simp
    then show ?thesis by (simp add: px_def PX_take add.commute)
  qed
  moreover have "vpage va = vpage vb"
    if "px 2 va = px 2 vb" "px 1 va = px 1 vb" "px 0 va = px 0 vb"
  proof -
    have t: "take_bit 9 (drop_bit (12 + 9 * l) va) = take_bit 9 (drop_bit (12 + 9 * l) vb)" if "l \<in> {0, 1, 2}" for l
      using that \<open>px 2 va = px 2 vb\<close> \<open>px 1 va = px 1 vb\<close> \<open>px 0 va = px 0 vb\<close>
      by (auto simp: px_def PX_take word_unat_eq_iff)
    have "drop_bit 12 va = drop_bit 12 vb"
    proof (rule bit_word_eqI)
      fix n assume "n < LENGTH(64)"
      have bits: "bit va (12 + 9 * l + k) = bit vb (12 + 9 * l + k)" if "l \<in> {0, 1, 2}" "k < 9" for l k
        using arg_cong [OF t [OF that(1)], of "\<lambda>w. bit w k"] that(2) by (simp add: bit_simps)
      show "bit (drop_bit 12 va) n = bit (drop_bit 12 vb) n"
      proof (cases "n < 27")
        case True
        then have "n div 9 \<in> {0, 1, 2}" by auto
        then show ?thesis using bits [of "n div 9" "n mod 9"] by (simp add: bit_simps add.assoc)
      next
        case False
        then show ?thesis
          using bit_above_MAXVA [OF assms(1), of "12 + n"] bit_above_MAXVA [OF assms(2), of "12 + n"]
          by (auto simp: bit_simps)
      qed
    qed
    then show ?thesis by (simp add: d)
  qed
  ultimately show ?thesis by blast
qed

lemma set_leaf:
  fixes s :: "'z kmst_scheme" and v :: uint64
  assumes "pt_ok ps s root" and "pte_addr (mem s) root va = Some e" and "va < MAXVA"
  defines "t \<equiv> s\<lparr>mem := mem_put64 (mem s) e v\<rparr>"
  shows "pt_ok ps t root" and "nodes (mem t) root = nodes (mem s) root" and "vm_frame s t"
    and "vb < MAXVA \<Longrightarrow> pte_of (mem t) root vb = (if vpage vb = vpage va then v else pte_of (mem s) root vb)"
    and "outside (nodes (mem s) root) x \<Longrightarrow> mem t x = mem s x"
proof -
  obtain a where a: "node (mem s) root [px 2 va, px 1 va] = Some a" "e = entry a (px 0 va)"
    using assms(2) by (auto simp: pte_addr_def)
  note tok = pt_okD(2) [OF assms(1)]
  have node: "node (mem t) root q = node (mem s) root q" if "vpath q" for q
    unfolding t_def a(2) using store_leaf_node [OF tok vpath_simps(3) _ a(1) px_less that] by simp
  show nodes: "nodes (mem t) root = nodes (mem s) root" using node by (auto simp: nodes_def)
  have al: "page_aligned a" "a \<in> nodes (mem s) root"
    using tree_okD(1) [OF tok vpath_simps(3) a(1)] nodesI [OF vpath_simps(3) a(1)] by auto
  then have "kmem_ok ps t"
    unfolding t_def a(2) using pt_okD [OF assms(1)] by (intro kmem_ok_put64) auto
  moreover have "tree_ok (mem t) root" using tok node by (simp add: tree_ok_def)
  ultimately show "pt_ok ps t root" using nodes assms(1) by (simp add: pt_ok_def)
  show "vm_frame s t" by (simp add: t_def vm_frame_def)
  show "mem t x = mem s x" if "outside (nodes (mem s) root) x"
  proof -
    have "\<not> inside x e 8"
      using that al(2) inside_entry_page [OF px_less, of x a 0 va] by (auto simp: a(2) outside_def)
    then show ?thesis by (simp add: t_def mem_put64_other)
  qed
  show "pte_of (mem t) root vb = (if vpage vb = vpage va then v else pte_of (mem s) root vb)" if vb: "vb < MAXVA"
  proof (cases "vpage vb = vpage va")
    case True
    then have "px 2 vb = px 2 va" "px 1 vb = px 1 va" "px 0 vb = px 0 va"
      using same_vpage [OF vb assms(3)] by blast+
    then show ?thesis
      using True a node [OF vpath_simps(3)] by (simp add: pte_of_def pte_addr_def t_def)
  next
    case False
    have "mem64 (mem t) (entry b (px 0 vb)) = mem64 (mem s) (entry b (px 0 vb))"
      if "node (mem s) root [px 2 vb, px 1 vb] = Some b" for b
      unfolding t_def a(2) using same_vpage [OF vb assms(3)] False
      by (auto intro!: store_entry_other [OF tok vpath_simps(3) a(1) px_less vpath_simps(3) that])
    then show ?thesis
      using False node [OF vpath_simps(3)] by (simp add: pte_of_def pte_addr_def split: option.splits)
  qed
qed

section \<open>mappages\<close>

text \<open>As \<open>grown\<close>, without the clause on the leaf entries.\<close>

definition pt_frame :: "addr list \<Rightarrow> addr list \<Rightarrow> addr \<Rightarrow> ('z kmst_scheme) \<Rightarrow> 'z kmst_scheme \<Rightarrow> bool" where
  "pt_frame ps ps' root s t \<longleftrightarrow> pt_ok ps' t root \<and> vm_frame s t \<and>
     (\<exists>us. ps = us @ ps' \<and> nodes (mem t) root = nodes (mem s) root \<union> set us) \<and>
     (\<forall>x. outside (nodes (mem t) root) x \<longrightarrow> mem t x = mem s x)"

lemma grown_iff:
  "grown ps ps' root s t \<longleftrightarrow> pt_frame ps ps' root s t \<and> (\<forall>va. pte_of (mem t) root va = pte_of (mem s) root va)"
  by (auto simp: grown_def pt_frame_def)

lemma pt_frame_trans:
  assumes "pt_frame ps ps' root s t" and "pt_frame ps' ps'' root t u"
  shows "pt_frame ps ps'' root s u"
proof -
  obtain us vs where us: "ps = us @ ps'" "nodes (mem t) root = nodes (mem s) root \<union> set us"
    and vs: "ps' = vs @ ps''" "nodes (mem u) root = nodes (mem t) root \<union> set vs"
    using assms by (auto simp: pt_frame_def)
  then have "\<exists>ws. ps = ws @ ps'' \<and> nodes (mem u) root = nodes (mem s) root \<union> set ws"
    by (intro exI [of _ "us @ vs"]) auto
  moreover have "mem u x = mem s x" if "outside (nodes (mem u) root) x" for x
    using that assms vs(2) outside_mono [of "nodes (mem u) root" x "nodes (mem t) root"] by (auto simp: pt_frame_def)
  ultimately show ?thesis
    using assms vm_frame_trans [of s t u] by (simp add: pt_frame_def)
qed

lemma pt_frame_leaf:
  assumes "pt_ok ps s root" and "pte_addr (mem s) root va = Some e" and "va < MAXVA"
  shows "pt_frame ps ps root s (s\<lparr>mem := mem_put64 (mem s) e v\<rparr>)"
  using set_leaf [OF assms, where v = v] by (auto simp: pt_frame_def)

text \<open>The leaf entries with \<open>k\<close> pages from \<open>a\<close> on mapped to the frames from \<open>pa\<close> on.\<close>

definition map_view :: "(uint64 \<Rightarrow> uint64) \<Rightarrow> uint64 \<Rightarrow> nat \<Rightarrow> uint64 \<Rightarrow> uint64 \<Rightarrow> uint64 \<Rightarrow> uint64" where
  "map_view f a k pa perm vb =
     (if vpage a \<le> vpage vb \<and> vpage vb < vpage a + k
      then PA2PTE (pa + of_nat (4096 * (vpage vb - vpage a))) OR perm OR PTE_V
      else f vb)"

lemma pte_of_Some: "pte_addr m root va = Some e \<Longrightarrow> pte_of m root va = mem64 m e"
  by (simp add: pte_of_def)

lemma vpage_step:
  assumes "unat a + 4096 \<le> 2 ^ 38"
  shows "unat (a + PGSIZE) = unat a + 4096" and "vpage (a + PGSIZE) = vpage a + 1"
proof -
  show u: "unat (a + PGSIZE) = unat a + 4096"
    unfolding PGSIZE_def using assms by (subst unat_add_lem [THEN iffD1]) simp_all
  show "vpage (a + PGSIZE) = vpage a + 1" by (simp add: vpage_def u)
qed

lemma map_view_step:
  assumes "vpage (a + PGSIZE) = vpage a + 1"
    and "g vb = (if vpage vb = vpage a then PA2PTE pa OR perm OR PTE_V else f vb)"
  shows "map_view g (a + PGSIZE) k (pa + PGSIZE) perm vb = map_view f a (Suc k) pa perm vb"
proof (cases "vpage a < vpage vb")
  case True
  then show ?thesis using assms by (simp add: map_view_def PGSIZE_def of_nat_diff algebra_simps)
next
  case False
  then show ?thesis using assms by (auto simp: map_view_def)
qed

lemma mappages_loop_spec:
  fixes s :: "'z kmst_scheme"
  assumes "pt_ok ps s root" and "unat a + 4096 * n \<le> 2 ^ 38" and "0 < n"
    and "lst = a + of_nat (4096 * (n - 1))"
    and "\<And>vb. vb < MAXVA \<Longrightarrow> vpage a \<le> vpage vb \<Longrightarrow> vpage vb < vpage a + n \<Longrightarrow> \<not> pte_valid (pte_of (mem s) root vb)"
  shows "\<exists>t ps' r k. mappages_loop root a lst pa perm s = Ok r t \<and> pt_frame ps ps' root s t \<and>
    (r = 0 \<and> k = n \<or> r = - 1 \<and> k < n \<and> ps' = []) \<and>
    (\<forall>vb. vb < MAXVA \<longrightarrow> pte_of (mem t) root vb = map_view (pte_of (mem s) root) a k pa perm vb)"
  using assms
proof (induction n arbitrary: a pa s ps)
  case 0
  then show ?case by simp
next
  case (Suc n)
  have a: "a < MAXVA" using Suc.prems(2) by (simp add: word_less_nat_alt MAXVA_unat)
  obtain t ps' r where t: "walk root a True s = Ok r t" "grown ps ps' root s t"
    "if r = 0 then ps' = [] else pte_addr (mem t) root a = Some r"
    using walk_alloc [OF Suc.prems(1) a] by blast
  then have fr: "pt_frame ps ps' root s t" and view: "\<And>va. pte_of (mem t) root va = pte_of (mem s) root va"
    by (simp_all add: grown_iff)
  show ?case
  proof (cases "r = 0")
    case True
    then have "mappages_loop root a lst pa perm s = Ok (- 1) t"
      using t(1) by (subst mappages_loop.simps) simp
    moreover have "map_view f a 0 pa perm vb = f vb" for f vb by (auto simp: map_view_def)
    ultimately show ?thesis
      using True t(3) fr view by (intro exI [of _ t] exI [of _ ps'] exI [of _ "- 1"] exI [of _ 0]) simp
  next
    case False
    then have e: "pte_addr (mem t) root a = Some r" using t(3) by simp
    have ok: "pt_ok ps' t root" using fr by (simp add: pt_frame_def)
    have inv: "\<not> pte_valid (mem64 (mem t) r)"
      using Suc.prems(5) [OF a] view [of a] pte_of_Some [OF e] by simp
    let ?v = "PA2PTE pa OR perm OR PTE_V"
    let ?u = "t\<lparr>mem := mem_put64 (mem t) r ?v\<rparr>"
    note leaf = set_leaf [OF ok e a, where v = ?v]
    have fu: "pt_frame ps ps' root s ?u"
      using pt_frame_trans [OF fr pt_frame_leaf [OF ok e a]] .
    have head: "mappages_loop root a lst pa perm s =
        (if a = lst then ret 0 else mappages_loop root (a + PGSIZE) lst (pa + PGSIZE) perm) ?u"
      using t(1) False inv a by (subst mappages_loop.simps) (simp add: kop_simps pte_valid_def not_le [symmetric])
    have one: "pte_of (mem ?u) root vb = (if vpage vb = vpage a then ?v else pte_of (mem s) root vb)" if "vb < MAXVA" for vb
      using leaf(4) [OF that] view by simp
    show ?thesis
    proof (cases "n = 0")
      case True
      then have "mappages_loop root a lst pa perm s = Ok 0 ?u"
        using head Suc.prems(4) by simp
      moreover have "pte_of (mem ?u) root vb = map_view (pte_of (mem s) root) a 1 pa perm vb" if "vb < MAXVA" for vb
        using one [OF that] by (auto simp: map_view_def)
      ultimately show ?thesis using fu True by auto
    next
      case n: False
      have up: "unat (a + PGSIZE) = unat a + 4096" "vpage (a + PGSIZE) = vpage a + 1"
        using vpage_step [of a] Suc.prems(2) by simp_all
      have "of_nat (4096 * n) \<noteq> (0 :: uint64)"
        using unat_of_nat_addr [of "4096 * n"] Suc.prems(2) n by auto
      then have ne: "a \<noteq> lst" using Suc.prems(4) by simp
      have "\<exists>w ps'' r k. mappages_loop root (a + PGSIZE) lst (pa + PGSIZE) perm ?u = Ok r w \<and> pt_frame ps' ps'' root ?u w \<and>
          (r = 0 \<and> k = n \<or> r = - 1 \<and> k < n \<and> ps'' = []) \<and>
          (\<forall>vb. vb < MAXVA \<longrightarrow> pte_of (mem w) root vb = map_view (pte_of (mem ?u) root) (a + PGSIZE) k (pa + PGSIZE) perm vb)"
      proof (rule Suc.IH)
        show "pt_ok ps' ?u root" using leaf(1) by simp
        show "unat (a + PGSIZE) + 4096 * n \<le> 2 ^ 38" using Suc.prems(2) up by simp
        show "0 < n" using n by simp
        have "of_nat (4096 * n) = PGSIZE + of_nat (4096 * (n - 1))"
          using n by (cases n) (simp_all add: PGSIZE_def)
        then show "lst = a + PGSIZE + of_nat (4096 * (n - 1))"
          using Suc.prems(4) by (simp add: add.assoc)
        fix vb assume vb: "vb < MAXVA" "vpage (a + PGSIZE) \<le> vpage vb" "vpage vb < vpage (a + PGSIZE) + n"
        then show "\<not> pte_valid (pte_of (mem ?u) root vb)"
          using one [OF vb(1)] Suc.prems(5) [OF vb(1)] up by auto
      qed
      then obtain w ps'' r' k where w: "mappages_loop root (a + PGSIZE) lst (pa + PGSIZE) perm ?u = Ok r' w"
        "pt_frame ps' ps'' root ?u w" "r' = 0 \<and> k = n \<or> r' = - 1 \<and> k < n \<and> ps'' = []"
        "\<And>vb. vb < MAXVA \<Longrightarrow> pte_of (mem w) root vb = map_view (pte_of (mem ?u) root) (a + PGSIZE) k (pa + PGSIZE) perm vb"
        by blast
      have "pte_of (mem w) root vb = map_view (pte_of (mem s) root) a (Suc k) pa perm vb" if "vb < MAXVA" for vb
        using w(4) [OF that]
          map_view_step [where g = "pte_of (mem ?u) root" and f = "pte_of (mem s) root", OF up(2) one [OF that]] by simp
      moreover have "mappages_loop root a lst pa perm s = Ok r' w" using head ne w(1) by simp
      ultimately show ?thesis
        using pt_frame_trans [OF fu w(2)] w(3) by (intro exI [of _ w] exI [of _ ps''] exI [of _ r'] exI [of _ "Suc k"]) auto
    qed
  qed
qed

lemma vpage_PGROUNDDOWN [simp]: "vpage (PGROUNDDOWN va) = vpage va"
  by (simp add: vpage_def unat_PGROUNDDOWN)

lemma map_view_cong: "vpage a = vpage b \<Longrightarrow> map_view f a k pa perm = map_view f b k pa perm"
  by (simp add: map_view_def fun_eq_iff)

definition page_count :: "uint64 \<Rightarrow> uint64 \<Rightarrow> nat" where
  "page_count va sz = vpage (va + sz - 1) - vpage va + 1"

lemma mappages_spec:
  fixes s :: "'z kmst_scheme"
  assumes "pt_ok ps s root" and "0 < unat sz" and "unat va + unat sz \<le> 2 ^ 38"
    and "\<And>vb. vb < MAXVA \<Longrightarrow> vpage va \<le> vpage vb \<Longrightarrow> vpage vb < vpage va + page_count va sz \<Longrightarrow>
      \<not> pte_valid (pte_of (mem s) root vb)"
  shows "\<exists>t ps' r k. mappages root va sz pa perm s = Ok r t \<and> pt_frame ps ps' root s t \<and>
    (r = 0 \<and> k = page_count va sz \<or> r = - 1 \<and> k < page_count va sz \<and> ps' = []) \<and>
    (\<forall>vb. vb < MAXVA \<longrightarrow> pte_of (mem t) root vb = map_view (pte_of (mem s) root) va k pa perm vb)"
proof -
  let ?a = "PGROUNDDOWN va" and ?l = "PGROUNDDOWN (va + sz - 1)" and ?n = "page_count va sz"
  have u: "unat (va + sz - 1) = unat va + unat sz - 1"
  proof -
    have "unat (va + sz) = unat va + unat sz"
      using assms(3) by (subst unat_add_lem [THEN iffD1]) simp_all
    then show ?thesis using assms(2) by (subst unat_minus_one) (auto simp: word_unat_eq_iff)
  qed
  then have le: "vpage va \<le> vpage (va + sz - 1)" using assms(2) by (simp add: vpage_def div_le_mono)
  have end_page: "4096 * vpage (va + sz - 1) + 4096 \<le> 2 ^ 38"
  proof -
    have "unat va + unat sz - 1 < 2 ^ 26 * 4096" using assms(2,3) by simp
    then have "vpage (va + sz - 1) < 2 ^ 26" unfolding vpage_def u by (rule less_mult_imp_div_less)
    then show ?thesis by simp
  qed
  have "\<exists>t ps' r k. mappages_loop root ?a ?l pa perm s = Ok r t \<and> pt_frame ps ps' root s t \<and>
    (r = 0 \<and> k = ?n \<or> r = - 1 \<and> k < ?n \<and> ps' = []) \<and>
    (\<forall>vb. vb < MAXVA \<longrightarrow> pte_of (mem t) root vb = map_view (pte_of (mem s) root) ?a k pa perm vb)"
  proof (rule mappages_loop_spec [OF assms(1)])
    show "unat ?a + 4096 * ?n \<le> 2 ^ 38"
      using end_page le by (simp add: unat_PGROUNDDOWN vpage_def page_count_def)
    show "0 < ?n" by (simp add: page_count_def)
    have A: "unat ?a = 4096 * vpage va" and L: "unat ?l = 4096 * vpage (va + sz - 1)"
      by (simp_all add: unat_PGROUNDDOWN vpage_def)
    have n: "?n - 1 = vpage (va + sz - 1) - vpage va" by (simp add: page_count_def)
    have d: "unat (of_nat (4096 * (?n - 1)) :: uint64) = 4096 * (?n - 1)"
      unfolding n using end_page by (intro unat_of_nat_addr) simp
    have "unat ?a + 4096 * (?n - 1) = unat ?l" unfolding A L n using le by simp
    then have "unat (?a + of_nat (4096 * (?n - 1))) = unat ?l"
      using d end_page L by (subst unat_add_lem [THEN iffD1]) simp_all
    then show "?l = ?a + of_nat (4096 * (?n - 1))"
      unfolding word_unat_eq_iff by (rule sym)
  qed (use assms(4) in auto)
  then show ?thesis
    by (simp add: mappages_def map_view_cong [of ?a va])
qed

end
