(* ===== verification/Uvm.thy ===== *)
theory Uvm
  imports Pagetable
begin

text \<open>
  What the user-memory operations of \<^verbatim>\<open>vm.c\<close> do to the map from virtual pages to entries:
  \<^verbatim>\<open>uvmunmap\<close>, \<^verbatim>\<open>uvmalloc\<close>, \<^verbatim>\<open>uvmdealloc\<close> and the copies between kernel and user memory.
\<close>

section \<open>uvmunmap\<close>

definition unmap_view :: "(uint64 \<Rightarrow> uint64) \<Rightarrow> uint64 \<Rightarrow> nat \<Rightarrow> uint64 \<Rightarrow> uint64" where
  "unmap_view f a k vb = (if vpage a \<le> vpage vb \<and> vpage vb < vpage a + k then 0 else f vb)"

definition frame_at :: "memory \<Rightarrow> addr \<Rightarrow> uint64 \<Rightarrow> nat \<Rightarrow> addr" where
  "frame_at m root a i = PTE2PA (pte_of m root (a + of_nat (4096 * i)))"

text \<open>The frames behind \<open>n\<close> pages from \<open>a\<close> on, first page first.\<close>

definition frames :: "memory \<Rightarrow> addr \<Rightarrow> uint64 \<Rightarrow> nat \<Rightarrow> addr list" where
  "frames m root a n = map (frame_at m root a) [0..<n]"

lemma frames_Suc: "frames m root a (Suc n) = PTE2PA (pte_of m root a) # frames m root (a + PGSIZE) n"
proof -
  have "frame_at m root a (Suc i) = frame_at m root (a + PGSIZE) i" for i
    by (simp add: frame_at_def PGSIZE_def algebra_simps)
  then have "map (frame_at m root a) [Suc 0..<Suc n] = map (frame_at m root (a + PGSIZE)) [0..<n]"
    by (intro nth_equalityI) (simp_all del: upt_Suc)
  moreover have "[0..<Suc n] = 0 # [Suc 0..<Suc n]" by (rule upt_conv_Cons) simp
  ultimately show ?thesis by (simp add: frames_def frame_at_def del: upt_Suc)
qed

lemma kfree_keeps_table:
  assumes "pt_ok ps s root" and "ram_page s f" and "f \<notin> set ps" and "f \<notin> nodes (mem s) root"
  shows "\<exists>t. kfree f s = Ok () t \<and> pt_ok (f # ps) t root \<and> vm_frame s t \<and>
    nodes (mem t) root = nodes (mem s) root \<and> (\<forall>va. pte_of (mem t) root va = pte_of (mem s) root va) \<and>
    (\<forall>va. pte_addr (mem t) root va = pte_addr (mem s) root va) \<and>
    (\<forall>x. \<not> inside x f 4096 \<longrightarrow> mem t x = mem s x)"
proof -
  obtain t where t: "kfree f s = Ok () t" "kmem_ok (f # ps) t" "page_apart_frame f (mem s) (mem t)"
    "mach t = m_note (mach s)" "t = s\<lparr>mach := m_note (mach s), mem := mem t, freelist := freelist t\<rparr>"
    using kfree_ok [OF pt_okD(1) [OF assms(1)] assms(2,3)] by blast
  have f: "page_aligned f" using assms(2) by (simp add: ram_page_def)
  note agree = frame_agree [OF pt_okD(2) [OF assms(1)] t(3) f assms(4)]
  note same = nodes_agree [of "mem s" root "mem t", OF agree]
  have "pt_ok (f # ps) t root"
    using t(2) same assms(1,4) by (simp add: pt_ok_def)
  moreover have "vm_frame s t" using t(4,5) by (simp add: vm_frame_def)
  ultimately show ?thesis using t(1,3) same by (simp add: page_apart_frame_def)
qed

lemma pte_addr_valid: "pte_valid (pte_of m root va) \<Longrightarrow> \<exists>e. pte_addr m root va = Some e \<and> mem64 m e = pte_of m root va"
  by (auto simp: pte_of_def split: option.splits)

text \<open>Clearing the entry of one mapped page, freeing its frame first if asked to.\<close>

lemma unmap_one:
  fixes s :: "'z kmst_scheme"
  assumes "pt_ok ps s root" and "a < MAXVA" and "pte_addr (mem s) root a = Some e" and "mem64 (mem s) e = v"
    and "df \<Longrightarrow> ram_page s (PTE2PA v) \<and> PTE2PA v \<notin> set ps \<and> PTE2PA v \<notin> nodes (mem s) root"
  defines "ps' \<equiv> if df then PTE2PA v # ps else ps"
  shows "\<exists>t. thn (whenk df (kfree (PTE2PA v))) (store64 e 0) s = Ok () t \<and> pt_ok ps' t root \<and> vm_frame s t \<and>
    nodes (mem t) root = nodes (mem s) root \<and>
    (\<forall>vb. vb < MAXVA \<longrightarrow> pte_of (mem t) root vb = (if vpage vb = vpage a then 0 else pte_of (mem s) root vb)) \<and>
    (\<forall>x. outside (nodes (mem s) root \<union> (if df then {PTE2PA v} else {})) x \<longrightarrow> mem t x = mem s x)"
proof (cases df)
  case True
  then obtain u where u: "kfree (PTE2PA v) s = Ok () u" "pt_ok ps' u root" "vm_frame s u"
    "nodes (mem u) root = nodes (mem s) root" "\<And>va. pte_of (mem u) root va = pte_of (mem s) root va"
    "\<And>va. pte_addr (mem u) root va = pte_addr (mem s) root va"
    "\<And>x. \<not> inside x (PTE2PA v) 4096 \<Longrightarrow> mem u x = mem s x"
    using kfree_keeps_table [OF assms(1), of "PTE2PA v"] assms(5) unfolding ps'_def by auto
  have e: "pte_addr (mem u) root a = Some e" using u(6) assms(3) by simp
  note leaf = set_leaf [OF u(2) e assms(2), where v = 0]
  have "thn (whenk df (kfree (PTE2PA v))) (store64 e 0) s = Ok () (u\<lparr>mem := mem_put64 (mem u) e 0\<rparr>)"
    using True u(1) by (simp add: kop_simps)
  moreover have "mem (u\<lparr>mem := mem_put64 (mem u) e 0\<rparr>) x = mem s x" if "outside (insert (PTE2PA v) (nodes (mem s) root)) x" for x
    using that leaf(5) [of x] u(4) u(7) [of x] by (auto simp: outside_def)
  ultimately show ?thesis
    using leaf(1,2,4) vm_frame_trans [OF u(3) leaf(3)] u(4,5) True by auto
next
  case False
  note leaf = set_leaf [OF assms(1,3,2), where v = 0]
  have "thn (whenk df (kfree (PTE2PA v))) (store64 e 0) s = Ok () (s\<lparr>mem := mem_put64 (mem s) e 0\<rparr>)"
    using False by (simp add: kop_simps)
  then show ?thesis
    using leaf False by (auto simp: ps'_def)
qed

lemma later_page:
  assumes "unat a + 4096 * Suc n \<le> 2 ^ 38" and "i < n"
  shows "vpage (a + PGSIZE + of_nat (4096 * i)) \<noteq> vpage a \<and> a + PGSIZE + of_nat (4096 * i) < MAXVA"
proof -
  have i: "unat (of_nat (4096 * i) :: uint64) = 4096 * i"
    using assms by (intro unat_of_nat_addr) simp
  have "unat (a + PGSIZE) = unat a + 4096" using vpage_step [of a] assms(1) by simp
  then have "unat (a + PGSIZE + of_nat (4096 * i)) = unat a + 4096 + 4096 * i"
    using i assms by (subst unat_add_lem [THEN iffD1]) simp_all
  then show ?thesis using assms by (simp add: vpage_def word_less_nat_alt MAXVA_unat)
qed

lemma uvmunmap_loop_spec:
  fixes s :: "'z kmst_scheme"
  assumes "pt_ok ps s root" and "unat a + 4096 * n \<le> 2 ^ 38" and "stop = a + of_nat (4096 * n)"
    and "\<And>i. i < n \<Longrightarrow> pte_valid (pte_of (mem s) root (a + of_nat (4096 * i))) \<and>
      PTE_FLAGS (pte_of (mem s) root (a + of_nat (4096 * i))) \<noteq> PTE_V"
    and "df \<Longrightarrow> distinct (frames (mem s) root a n) \<and>
      (\<forall>f \<in> set (frames (mem s) root a n). ram_page s f \<and> f \<notin> set ps \<and> f \<notin> nodes (mem s) root)"
  shows "\<exists>t. uvmunmap_loop root a stop df s = Ok () t \<and>
    pt_ok ((if df then rev (frames (mem s) root a n) else []) @ ps) t root \<and> vm_frame s t \<and>
    nodes (mem t) root = nodes (mem s) root \<and>
    (\<forall>vb. vb < MAXVA \<longrightarrow> pte_of (mem t) root vb = unmap_view (pte_of (mem s) root) a n vb) \<and>
    (\<forall>x. outside (nodes (mem s) root \<union> (if df then set (frames (mem s) root a n) else {})) x \<longrightarrow> mem t x = mem s x)"
  using assms
proof (induction n arbitrary: a s ps)
  case 0
  then have "uvmunmap_loop root a stop df s = Ok () s" by (subst uvmunmap_loop.simps) simp
  moreover have "unmap_view f a 0 vb = f vb" for f vb by (auto simp: unmap_view_def)
  ultimately show ?case using 0 by (simp add: frames_def)
next
  case (Suc n)
  let ?v = "pte_of (mem s) root a" and ?fs = "frames (mem s) root (a + PGSIZE) n"
  have a: "a < MAXVA" using Suc.prems(2) by (simp add: word_less_nat_alt MAXVA_unat)
  have up: "unat (a + PGSIZE) = unat a + 4096" "vpage (a + PGSIZE) = vpage a + 1"
    using vpage_step [of a] Suc.prems(2) by simp_all
  have more: "a < stop"
  proof -
    have "unat (of_nat (4096 * Suc n) :: uint64) = 4096 * Suc n"
      using Suc.prems(2) by (intro unat_of_nat_addr) simp
    then have "unat stop = unat a + 4096 * Suc n"
      unfolding Suc.prems(3) using Suc.prems(2) by (subst unat_add_lem [THEN iffD1]) simp_all
    then show ?thesis by (simp add: word_less_nat_alt)
  qed
  have v: "pte_valid ?v" "PTE_FLAGS ?v \<noteq> PTE_V" using Suc.prems(4) [of 0] by simp_all
  obtain e where e: "pte_addr (mem s) root a = Some e" "mem64 (mem s) e = ?v"
    using pte_addr_valid [OF v(1)] by blast
  have e0: "e \<noteq> 0" using pte_addr_nonzero [OF pt_okD(2) [OF Suc.prems(1)] e(1)] .
  have fr: "frames (mem s) root a (Suc n) = PTE2PA ?v # ?fs" by (rule frames_Suc)
  let ?ps = "if df then PTE2PA ?v # ps else ps"
  obtain u where u: "thn (whenk df (kfree (PTE2PA ?v))) (store64 e 0) s = Ok () u" "pt_ok ?ps u root" "vm_frame s u"
    "nodes (mem u) root = nodes (mem s) root"
    "\<And>vb. vb < MAXVA \<Longrightarrow> pte_of (mem u) root vb = (if vpage vb = vpage a then 0 else pte_of (mem s) root vb)"
    "\<And>x. outside (nodes (mem s) root \<union> (if df then {PTE2PA ?v} else {})) x \<Longrightarrow> mem u x = mem s x"
    using unmap_one [OF Suc.prems(1) a e, of df] Suc.prems(5) fr by auto
  have head: "uvmunmap_loop root a stop df s = uvmunmap_loop root (a + PGSIZE) stop df u"
  proof -
    from u(1) obtain w where w: "whenk df (kfree (PTE2PA ?v)) s = Ok () w" "store64 e 0 w = Ok () u"
      by (auto simp: thn_eq_Ok)
    show ?thesis
      using more walk_lookup [OF a, of root s] e e0 v w a
      by (subst uvmunmap_loop.simps) (simp add: kop_simps pte_valid_def not_le [symmetric])
  qed
  have later: "vpage (a + PGSIZE + of_nat (4096 * i)) \<noteq> vpage a \<and> a + PGSIZE + of_nat (4096 * i) < MAXVA" if "i < n" for i
    using later_page [of a n i] Suc.prems(2) that by simp
  have same: "pte_of (mem u) root (a + PGSIZE + of_nat (4096 * i)) = pte_of (mem s) root (a + PGSIZE + of_nat (4096 * i))" if "i < n" for i
    using u(5) later [OF that] by simp
  then have fs: "frames (mem u) root (a + PGSIZE) n = ?fs"
    by (simp add: frames_def frame_at_def)
  have shift: "a + of_nat (4096 * Suc i) = a + PGSIZE + of_nat (4096 * i)" for i
    by (simp add: PGSIZE_def algebra_simps)
  have "\<exists>t. uvmunmap_loop root (a + PGSIZE) stop df u = Ok () t \<and>
    pt_ok ((if df then rev (frames (mem u) root (a + PGSIZE) n) else []) @ ?ps) t root \<and> vm_frame u t \<and>
    nodes (mem t) root = nodes (mem u) root \<and>
    (\<forall>vb. vb < MAXVA \<longrightarrow> pte_of (mem t) root vb = unmap_view (pte_of (mem u) root) (a + PGSIZE) n vb) \<and>
    (\<forall>x. outside (nodes (mem u) root \<union> (if df then set (frames (mem u) root (a + PGSIZE) n) else {})) x \<longrightarrow> mem t x = mem u x)"
  proof (rule Suc.IH [OF u(2)])
    show "unat (a + PGSIZE) + 4096 * n \<le> 2 ^ 38" using Suc.prems(2) up by simp
    show "stop = a + PGSIZE + of_nat (4096 * n)" unfolding Suc.prems(3) by (rule shift)
    show "pte_valid (pte_of (mem u) root (a + PGSIZE + of_nat (4096 * i))) \<and>
      PTE_FLAGS (pte_of (mem u) root (a + PGSIZE + of_nat (4096 * i))) \<noteq> PTE_V" if "i < n" for i
      using Suc.prems(4) [of "Suc i"] that unfolding shift same [OF that] by blast
    show "distinct (frames (mem u) root (a + PGSIZE) n) \<and>
      (\<forall>f \<in> set (frames (mem u) root (a + PGSIZE) n). ram_page u f \<and> f \<notin> set ?ps \<and> f \<notin> nodes (mem u) root)" if df
      unfolding fs using Suc.prems(5) [OF that] fr u(4) that ram_page_cong [OF vm_frame_syms [OF u(3)]] by auto
  qed
  then obtain t where t: "uvmunmap_loop root (a + PGSIZE) stop df u = Ok () t"
    "pt_ok ((if df then rev ?fs else []) @ ?ps) t root" "vm_frame u t" "nodes (mem t) root = nodes (mem u) root"
    "\<And>vb. vb < MAXVA \<Longrightarrow> pte_of (mem t) root vb = unmap_view (pte_of (mem u) root) (a + PGSIZE) n vb"
    "\<And>x. outside (nodes (mem u) root \<union> (if df then set ?fs else {})) x \<Longrightarrow> mem t x = mem u x"
    unfolding fs by blast
  have "pte_of (mem t) root vb = unmap_view (pte_of (mem s) root) a (Suc n) vb" if "vb < MAXVA" for vb
    using t(5) [OF that] u(5) [OF that] up(2) by (auto simp: unmap_view_def)
  moreover have "mem t x = mem s x" if "outside (nodes (mem s) root \<union> (if df then set (PTE2PA ?v # ?fs) else {})) x" for x
    using that t(6) [of x] u(4) u(6) [of x] by (auto simp: outside_def split: if_splits)
  ultimately show ?case
    using t(1-4) u(4) vm_frame_trans [OF u(3) t(3)] head fr by (intro exI [of _ t]) auto
qed

section \<open>Pages that are not part of the table\<close>

lemma page_write_keeps_table:
  fixes s :: "'z kmst_scheme"
  assumes "pt_ok ps s root" and "page_aligned q" and "q \<notin> set ps" and "q \<notin> nodes (mem s) root"
    and "page_apart_frame q (mem s) m"
  shows "pt_ok ps (s\<lparr>mem := m\<rparr>) root" and "nodes m root = nodes (mem s) root"
    and "pte_of m root va = pte_of (mem s) root va" and "pte_addr m root va = pte_addr (mem s) root va"
proof -
  note agree = frame_agree [OF pt_okD(2) [OF assms(1)] assms(5,2,4)]
  note same = nodes_agree [of "mem s" root m, OF agree]
  show "nodes m root = nodes (mem s) root" "pte_of m root va = pte_of (mem s) root va"
    "pte_addr m root va = pte_addr (mem s) root va" using same by simp_all
  have "kmem_ok ps (s\<lparr>mem := m\<rparr>)"
  proof (rule kmem_ok_mem [OF pt_okD(1) [OF assms(1)]])
    fix p assume p: "p \<in> set ps"
    then have "page_aligned p" "q \<noteq> p"
      using kmem_ok_aligned [OF pt_okD(1) [OF assms(1)]] assms(3) by auto
    then show "mem64 m p = mem64 (mem s) p" using page_frame_mem64 [OF assms(5,2)] by blast
  qed
  then show "pt_ok ps (s\<lparr>mem := m\<rparr>) root" using assms(1) same by (simp add: pt_ok_def)
qed

lemma kalloc_keeps_table:
  fixes s :: "'z kmst_scheme"
  assumes "pt_ok (q # ps) s root"
  shows "\<exists>t. kalloc s = Ok q t \<and> pt_ok ps t root \<and> vm_frame s t \<and> q \<noteq> 0 \<and> ram_page t q \<and> q \<notin> set ps \<and>
    q \<notin> nodes (mem s) root \<and> nodes (mem t) root = nodes (mem s) root \<and>
    (\<forall>va. pte_of (mem t) root va = pte_of (mem s) root va) \<and> (\<forall>x. \<not> inside x q 4096 \<longrightarrow> mem t x = mem s x)"
proof -
  obtain t where t: "kalloc s = Ok q t" "kmem_ok ps t" "q \<noteq> 0" "ram_page t q" "q \<notin> set ps"
    "page_apart_frame q (mem s) (mem t)" "mach t = m_note (mach s)"
    "t = s\<lparr>mach := m_note (mach s), mem := mem t, freelist := freelist t\<rparr>"
    using kalloc_some [OF pt_okD(1) [OF assms]] by blast
  have q: "page_aligned q" "q \<notin> nodes (mem s) root"
    using t(4) pt_okD(3) [OF assms, of q] by (auto simp: ram_page_def)
  note agree = frame_agree [OF pt_okD(2) [OF assms] t(6) q]
  note same = nodes_agree [of "mem s" root "mem t", OF agree]
  have "pt_ok ps t root" using t(2) same assms by (simp add: pt_ok_def)
  moreover have "vm_frame s t" using t(7,8) by (simp add: vm_frame_def)
  ultimately show ?thesis using t q same by (simp add: page_apart_frame_def)
qed

section \<open>Growing a process\<close>

definition user_perm :: uint64 where
  "user_perm = PTE_W OR PTE_X OR PTE_R OR PTE_U"

definition user_pte :: "addr \<Rightarrow> uint64" where
  "user_pte f = PA2PTE f OR user_perm OR PTE_V"

lemma user_perm_bits: "bit (user_perm OR PTE_V) n \<longleftrightarrow> n < 5"
proof -
  have "user_perm OR PTE_V = mask 5"
    by (simp add: user_perm_def PTE_W_def PTE_X_def PTE_R_def PTE_U_def PTE_V_def mask_eq_exp_minus_1)
  then show ?thesis by (simp add: bit_mask_iff) auto
qed

lemma user_pte_simps:
  assumes "page_aligned f"
  shows "pte_valid (user_pte f)" and "PTE2PA (user_pte f) = f" and "PTE_FLAGS (user_pte f) \<noteq> PTE_V"
    and "user_pte f AND PTE_U \<noteq> 0"
proof -
  have u: "user_pte f = PA2PTE f OR (user_perm OR PTE_V)" by (simp add: user_pte_def)
  show "pte_valid (user_pte f)" by (simp add: user_pte_def)
  show "PTE2PA (user_pte f) = f"
    unfolding u using assms by (rule PTE2PA_PA2PTE) (simp add: user_perm_bits)
  have low: "bit (user_pte f) n" if "n < 5" for n
    unfolding u bit_or_iff [of "PA2PTE f"] user_perm_bits using that by simp
  have "bit (PTE_FLAGS (user_pte f)) 1"
    using low [of 1] by (simp add: PTE_FLAGS_def bit_and_iff)
  moreover have "\<not> bit PTE_V 1" by simp
  ultimately show "PTE_FLAGS (user_pte f) \<noteq> PTE_V" by auto
  have "bit (user_pte f AND PTE_U) 4"
    using low [of 4] by (simp add: bit_and_iff PTE_U_def bit_simps)
  then show "user_pte f AND PTE_U \<noteq> 0" by auto
qed

definition grow_view :: "(uint64 \<Rightarrow> uint64) \<Rightarrow> uint64 \<Rightarrow> addr list \<Rightarrow> uint64 \<Rightarrow> uint64" where
  "grow_view f base fs vb =
     (if vpage base \<le> vpage vb \<and> vpage vb < vpage base + length fs
      then user_pte (fs ! (vpage vb - vpage base)) else f vb)"

text \<open>
  Between \<open>s\<^sub>0\<close> and \<open>s\<close> the pages from \<open>base\<close> on were mapped to the zeroed frames \<open>fs\<close>, taken from the
  free pages \<open>ps\<^sub>0\<close>, of which \<open>ps\<close> are left.
\<close>

definition growing :: "addr list \<Rightarrow> 'z kmst_scheme \<Rightarrow> addr \<Rightarrow> uint64 \<Rightarrow> addr list \<Rightarrow> addr list \<Rightarrow> 'z kmst_scheme \<Rightarrow> bool" where
  "growing qs s\<^sub>0 root base fs ps s \<longleftrightarrow>
     pt_ok ps s root \<and> vm_frame s\<^sub>0 s \<and>
     distinct fs \<and> set fs \<union> set ps \<subseteq> set qs \<and> set fs \<inter> set ps = {} \<and> set fs \<inter> nodes (mem s) root = {} \<and>
     nodes (mem s) root \<subseteq> nodes (mem s\<^sub>0) root \<union> set qs \<and>
     (\<forall>f \<in> set fs. ram_page s f \<and> (\<forall>x. inside x f 4096 \<longrightarrow> mem s x = 0)) \<and>
     (\<forall>vb. vb < MAXVA \<longrightarrow> pte_of (mem s) root vb = grow_view (pte_of (mem s\<^sub>0) root) base fs vb) \<and>
     (\<forall>x. outside (nodes (mem s\<^sub>0) root \<union> set qs) x \<longrightarrow> mem s x = mem s\<^sub>0 x)"

lemma growing_start: "pt_ok ps s root \<Longrightarrow> growing ps s root base [] ps s"
  by (auto simp: growing_def grow_view_def)

lemma page_count_one:
  assumes "page_aligned a" and "unat a + 4096 \<le> 2 ^ 38"
  shows "page_count a PGSIZE = 1"
proof -
  obtain k where k: "unat a = 4096 * k" using assms(1) by (auto simp: page_aligned_unat mod_eq_0_iff_dvd)
  have e: "a + PGSIZE - 1 = a + 4095" by (simp add: PGSIZE_def)
  have "unat (a + 4095) = unat a + 4095"
    using assms(2) by (subst unat_add_lem [THEN iffD1]) simp_all
  then have "vpage (a + PGSIZE - 1) = vpage a" unfolding vpage_def e by (simp add: k)
  then show ?thesis by (simp add: page_count_def)
qed

lemma outside_frame: "f \<notin> A \<Longrightarrow> page_aligned f \<Longrightarrow> \<forall>a \<in> A. page_aligned a \<Longrightarrow> inside x f 4096 \<Longrightarrow> outside A x"
  using pages_apart by (fastforce simp: outside_def apart_def)

lemma nodes_aligned: "pt_ok ps s root \<Longrightarrow> a \<in> nodes (mem s) root \<Longrightarrow> page_aligned a"
  using tree_okD(1) pt_okD(2) by (fastforce simp: nodes_def)

text \<open>One round of the loop of \<^verbatim>\<open>uvmalloc\<close> up to the call of \<^verbatim>\<open>mappages\<close>, then that call.\<close>

lemma growing_alloc:
  fixes s :: "'z kmst_scheme"
  assumes "growing qs s\<^sub>0 root base fs (q # ps) s"
  shows "\<exists>t. bnd kalloc (\<lambda>q. bnd (memset q 0 4096) (\<lambda>_. ret q)) s = Ok q t \<and> growing qs s\<^sub>0 root base fs ps t \<and>
    q \<noteq> 0 \<and> ram_page t q \<and> q \<notin> set ps \<and> q \<notin> set fs \<and> q \<in> set qs \<and> q \<notin> nodes (mem t) root \<and>
    (\<forall>x. inside x q 4096 \<longrightarrow> mem t x = 0)"
proof -
  have g: "pt_ok (q # ps) s root" "vm_frame s\<^sub>0 s" "q \<notin> set fs" "q \<in> set qs"
    "\<And>f. f \<in> set fs \<Longrightarrow> ram_page s f \<and> (\<forall>x. inside x f 4096 \<longrightarrow> mem s x = 0)"
    using assms by (auto simp: growing_def)
  obtain u where u: "kalloc s = Ok q u" "pt_ok ps u root" "vm_frame s u" "q \<noteq> 0" "ram_page u q" "q \<notin> set ps"
    "q \<notin> nodes (mem s) root" "nodes (mem u) root = nodes (mem s) root"
    "\<And>va. pte_of (mem u) root va = pte_of (mem s) root va" "\<And>x. \<not> inside x q 4096 \<Longrightarrow> mem u x = mem s x"
    using kalloc_keeps_table [OF g(1)] by blast
  let ?m = "mem_write (mem u) q (replicate 4096 0)" and ?t = "u\<lparr>mem := mem_write (mem u) q (replicate 4096 0)\<rparr>"
  have q: "page_aligned q" using u(5) by (simp add: ram_page_def)
  have "page_apart_frame q (mem u) ?m" by (simp add: page_apart_frame_def mem_write_other)
  note keep = page_write_keeps_table [OF u(2) q u(6) _ this]
  have keep: "pt_ok ps ?t root" "nodes (mem ?t) root = nodes (mem s) root"
    "\<And>va. pte_of (mem ?t) root va = pte_of (mem s) root va"
    using keep u(7,8,9) by simp_all
  have out: "mem ?t x = mem s x" if "\<not> inside x q 4096" for x
    using that u(10) by (simp add: mem_write_other)
  have fr: "vm_frame s ?t" using u(3) by (cases s; cases u) (simp add: vm_frame_def)
  have "inside x f 4096 \<Longrightarrow> \<not> inside x q 4096" if "f \<in> set fs" for f x
  proof -
    have "page_aligned f" "f \<noteq> q" using g(3,5) that by (auto simp: ram_page_def)
    then show "inside x f 4096 \<Longrightarrow> \<not> inside x q 4096" using pages_apart q by (auto simp: apart_def)
  qed
  then have "ram_page ?t f \<and> (\<forall>x. inside x f 4096 \<longrightarrow> mem ?t x = 0)" if "f \<in> set fs" for f
    using that g(5) [OF that] out ram_page_cong [OF vm_frame_syms [OF fr]] by auto
  moreover have "mem ?t x = mem s\<^sub>0 x" if "outside (nodes (mem s\<^sub>0) root \<union> set qs) x" for x
    using that assms g(4) out [of x] by (auto simp: growing_def outside_def)
  ultimately have "growing qs s\<^sub>0 root base fs ps ?t"
    using assms keep vm_frame_trans [OF g(2) fr] by (simp add: growing_def)
  moreover have "bnd kalloc (\<lambda>q. bnd (memset q 0 4096) (\<lambda>_. ret q)) s = Ok q ?t"
    using u(1) by (simp add: kop_simps memset_apply)
  moreover have "mem ?t x = 0" if "inside x q 4096" for x
    using that by (simp add: mem_write_def inside_def)
  ultimately show ?thesis using g u keep by (auto simp: ram_page_def)
qed

lemma grow_view_snoc:
  assumes "vpage a = vpage base + length fs" and "f vb = grow_view g base fs vb"
  shows "map_view f a (Suc 0) q user_perm vb = grow_view g base (fs @ [q]) vb"
proof (cases "vpage vb = vpage a")
  case True
  then show ?thesis using assms by (simp add: map_view_def grow_view_def user_pte_def)
next
  case False
  then show ?thesis using assms by (auto simp: map_view_def grow_view_def nth_append)
qed

lemma growing_map:
  fixes s :: "'z kmst_scheme"
  assumes "growing qs s\<^sub>0 root base fs ps s" and "page_aligned a" and "unat a + 4096 \<le> 2 ^ 38"
    and "vpage a = vpage base + length fs"
    and "\<And>vb. vb < MAXVA \<Longrightarrow> vpage vb = vpage a \<Longrightarrow> \<not> pte_valid (pte_of (mem s\<^sub>0) root vb)"
    and "ram_page s q" and "q \<notin> set ps" and "q \<notin> set fs" and "q \<in> set qs" and "q \<notin> nodes (mem s) root"
    and "\<forall>x. inside x q 4096 \<longrightarrow> mem s x = 0"
  shows "\<exists>t r ps'. mappages root a PGSIZE q user_perm s = Ok r t \<and>
    (if r = 0 then growing qs s\<^sub>0 root base (fs @ [q]) ps' t
     else r = - 1 \<and> ps' = [] \<and> growing qs s\<^sub>0 root base fs [] t \<and> ram_page t q \<and> q \<notin> nodes (mem t) root)"
proof -
  have g: "pt_ok ps s root" "vm_frame s\<^sub>0 s" "distinct fs" "set fs \<union> set ps \<subseteq> set qs" "set fs \<inter> set ps = {}"
    "set fs \<inter> nodes (mem s) root = {}" "nodes (mem s) root \<subseteq> nodes (mem s\<^sub>0) root \<union> set qs"
    "\<And>f. f \<in> set fs \<Longrightarrow> ram_page s f \<and> (\<forall>x. inside x f 4096 \<longrightarrow> mem s x = 0)"
    "\<And>vb. vb < MAXVA \<Longrightarrow> pte_of (mem s) root vb = grow_view (pte_of (mem s\<^sub>0) root) base fs vb"
    "\<And>x. outside (nodes (mem s\<^sub>0) root \<union> set qs) x \<Longrightarrow> mem s x = mem s\<^sub>0 x"
    using assms(1) by (simp_all add: growing_def)
  have one: "page_count a PGSIZE = 1" using page_count_one [OF assms(2,3)] .
  have "\<not> pte_valid (pte_of (mem s) root vb)" if "vb < MAXVA" "vpage vb = vpage a" for vb
    using assms(4,5) that g(9) [OF that(1)] by (simp add: grow_view_def)
  then have "\<exists>t ps' r k. mappages root a PGSIZE q user_perm s = Ok r t \<and> pt_frame ps ps' root s t \<and>
      (r = 0 \<and> k = 1 \<or> r = - 1 \<and> k < 1 \<and> ps' = []) \<and>
      (\<forall>vb. vb < MAXVA \<longrightarrow> pte_of (mem t) root vb = map_view (pte_of (mem s) root) a k q user_perm vb)"
    using mappages_spec [OF g(1), of PGSIZE a q user_perm] assms(3) unfolding one by (simp add: PGSIZE_def)
  then obtain t ps' r k where t: "mappages root a PGSIZE q user_perm s = Ok r t" "pt_frame ps ps' root s t"
      "r = 0 \<and> k = Suc 0 \<or> r = - 1 \<and> k = 0 \<and> ps' = []"
      "\<And>vb. vb < MAXVA \<Longrightarrow> pte_of (mem t) root vb = map_view (pte_of (mem s) root) a k q user_perm vb"
    by auto
  obtain us where us: "ps = us @ ps'" "nodes (mem t) root = nodes (mem s) root \<union> set us"
    and tk: "pt_ok ps' t root" "vm_frame s t" "\<And>x. outside (nodes (mem t) root) x \<Longrightarrow> mem t x = mem s x"
    using t(2) by (auto simp: pt_frame_def)
  note frs = vm_frame_trans [OF g(2) tk(2)] ram_page_cong [OF vm_frame_syms [OF tk(2)]]
  have zero: "ram_page t f \<and> (\<forall>x. inside x f 4096 \<longrightarrow> mem t x = 0)"
    if "ram_page s f" "f \<notin> nodes (mem t) root" "\<forall>x. inside x f 4096 \<longrightarrow> mem s x = 0" for f
  proof -
    have "page_aligned f" using that(1) by (simp add: ram_page_def)
    then show ?thesis
      using that frs(2) tk(3) outside_frame [of f "nodes (mem t) root"] nodes_aligned [OF tk(1)] by simp
  qed
  have fsn: "f \<notin> nodes (mem t) root" if "f \<in> set fs" for f using that g(5,6) us by auto
  have qn: "q \<notin> nodes (mem t) root" using assms(7,10) us by auto
  have sub: "nodes (mem t) root \<subseteq> nodes (mem s\<^sub>0) root \<union> set qs" using us g(4,7) by auto
  have out: "mem t x = mem s\<^sub>0 x" if "outside (nodes (mem s\<^sub>0) root \<union> set qs) x" for x
    using that g(10) [OF that] tk(3) [OF outside_mono [OF that sub]] by simp
  have fz: "ram_page t f \<and> (\<forall>x. inside x f 4096 \<longrightarrow> mem t x = 0)" if "f \<in> set fs" for f
    using g(8) [OF that] fsn [OF that] zero by blast
  show ?thesis
  proof (cases "r = 0")
    case True
    then have "pte_of (mem t) root vb = grow_view (pte_of (mem s\<^sub>0) root) base (fs @ [q]) vb" if "vb < MAXVA" for vb
      using t(3) t(4) [OF that] grow_view_snoc [OF assms(4), of "pte_of (mem s) root", OF g(9) [OF that]] by simp
    moreover have "ram_page t q \<and> (\<forall>x. inside x q 4096 \<longrightarrow> mem t x = 0)"
      using zero [OF assms(6) qn assms(11)] .
    ultimately have "growing qs s\<^sub>0 root base (fs @ [q]) ps' t"
      using tk(1) frs g(3,4,5) us assms(7,8,9) fsn qn sub fz out by (auto simp: growing_def)
    then show ?thesis using t(1) True by auto
  next
    case False
    then have r: "r = - 1" "k = 0" "ps' = []" using t(3) by auto
    then have "pte_of (mem t) root vb = grow_view (pte_of (mem s\<^sub>0) root) base fs vb" if "vb < MAXVA" for vb
      using t(4) [OF that] g(9) [OF that] by (auto simp: map_view_def)
    then have "growing qs s\<^sub>0 root base fs [] t"
      using tk(1) frs(1) g(3,4) us fsn sub fz out r by (auto simp: growing_def)
    then show ?thesis using t(1) r qn assms(6) frs(2) by auto
  qed
qed

lemma int_npages: "n < 2 ^ 31 \<Longrightarrow> scast (ucast (of_nat n :: uint64) :: uint) = (of_nat n :: uint64)"
proof -
  assume n: "n < 2 ^ 31"
  then have "(ucast (of_nat n :: uint64) :: uint) = of_nat n"
    by (simp add: unsigned_of_nat take_bit_nat_eq_self)
  then show ?thesis using n by (simp add: signed_of_nat signed_take_bit_int_eq_self)
qed

lemma PGROUNDUP_aligned:
  assumes "page_aligned a" and "unat a + 4095 < 2 ^ 64"
  shows "PGROUNDUP a = a"
proof -
  obtain k where k: "unat a = 4096 * k" using assms(1) by (auto simp: page_aligned_unat mod_eq_0_iff_dvd)
  then show ?thesis using unat_PGROUNDUP [OF assms(2)] by (simp add: word_unat_eq_iff)
qed

lemma pages_above:
  assumes "page_aligned base" and "unat base + 4096 * n \<le> 2 ^ 38"
  defines "a \<equiv> base + of_nat (4096 * n)"
  shows "unat a = unat base + 4096 * n" and "page_aligned a" and "vpage a = vpage base + n"
    and "(a - base) div PGSIZE = of_nat n"
proof -
  have n: "unat (of_nat (4096 * n) :: uint64) = 4096 * n"
    using assms(2) by (intro unat_of_nat_addr) simp
  show u: "unat a = unat base + 4096 * n"
    unfolding a_def using n assms(2) by (subst unat_add_lem [THEN iffD1]) simp_all
  show "page_aligned a" using assms(1) by (simp add: page_aligned_unat u)
  show "vpage a = vpage base + n" by (simp add: vpage_def u)
  have "unat ((a - base) div PGSIZE) = n"
  proof -
    have "a - base = of_nat (4096 * n)" by (simp add: a_def)
    then show ?thesis unfolding unat_div_distrib by (simp only: n) (simp add: PGSIZE_def)
  qed
  moreover have "unat (of_nat n :: uint64) = n" using assms(2) by (intro unat_of_nat_addr) simp
  ultimately show "(a - base) div PGSIZE = of_nat n" by (simp add: word_unat_eq_iff)
qed

lemma growing_frames:
  assumes "growing qs s\<^sub>0 root base fs ps s" and "unat base + 4096 * length fs \<le> 2 ^ 38" and "page_aligned base"
  shows "i < length fs \<Longrightarrow> pte_of (mem s) root (base + of_nat (4096 * i)) = user_pte (fs ! i)"
    and "frames (mem s) root base (length fs) = fs"
proof -
  show e: "pte_of (mem s) root (base + of_nat (4096 * i)) = user_pte (fs ! i)" if "i < length fs" for i
  proof -
    have u: "unat (base + of_nat (4096 * i)) = unat base + 4096 * i" "vpage (base + of_nat (4096 * i)) = vpage base + i"
      using pages_above [OF assms(3), of i] assms(2) that by simp_all
    then have "base + of_nat (4096 * i) < MAXVA"
      using assms(2) that unfolding word_less_nat_alt MAXVA_unat by simp
    then have "pte_of (mem s) root (base + of_nat (4096 * i)) = grow_view (pte_of (mem s\<^sub>0) root) base fs (base + of_nat (4096 * i))"
      using assms(1) unfolding growing_def by blast
    then show ?thesis using that unfolding grow_view_def u(2) by simp
  qed
  have al: "page_aligned (fs ! i)" if "i < length fs" for i
    using assms(1) nth_mem [OF that] by (auto simp: growing_def ram_page_def)
  have "PTE2PA (pte_of (mem s) root (base + of_nat (4096 * i))) = fs ! i" if "i < length fs" for i
    unfolding e [OF that] using user_pte_simps(2) [OF al [OF that]] .
  then show "frames (mem s) root base (length fs) = fs"
    unfolding frames_def frame_at_def by (intro nth_equalityI) simp_all
qed

text \<open>\<^verbatim>\<open>uvmdealloc\<close> undoes the growth.\<close>

lemma growing_dealloc:
  fixes s :: "'z kmst_scheme"
  assumes "growing qs s\<^sub>0 root base fs ps s" and "unat base + 4096 * length fs \<le> 2 ^ 38" and "page_aligned base"
  shows "\<exists>r t. uvmdealloc root (base + of_nat (4096 * length fs)) base s = Ok r t \<and> pt_ok (rev fs @ ps) t root \<and>
    vm_frame s\<^sub>0 t \<and> nodes (mem t) root = nodes (mem s) root \<and>
    (\<forall>vb. vb < MAXVA \<longrightarrow> pte_of (mem t) root vb = unmap_view (pte_of (mem s\<^sub>0) root) base (length fs) vb) \<and>
    (\<forall>x. outside (nodes (mem s\<^sub>0) root \<union> set qs) x \<longrightarrow> mem t x = mem s\<^sub>0 x)"
proof -
  let ?n = "length fs" and ?a = "base + of_nat (4096 * length fs)"
  have g: "pt_ok ps s root" "vm_frame s\<^sub>0 s" "distinct fs" "set fs \<union> set ps \<subseteq> set qs" "set fs \<inter> set ps = {}"
    "set fs \<inter> nodes (mem s) root = {}" "nodes (mem s) root \<subseteq> nodes (mem s\<^sub>0) root \<union> set qs"
    "\<And>f. f \<in> set fs \<Longrightarrow> ram_page s f"
    "\<And>vb. vb < MAXVA \<Longrightarrow> pte_of (mem s) root vb = grow_view (pte_of (mem s\<^sub>0) root) base fs vb"
    "\<And>x. outside (nodes (mem s\<^sub>0) root \<union> set qs) x \<Longrightarrow> mem s x = mem s\<^sub>0 x"
    using assms(1) by (simp_all add: growing_def)
  note a = pages_above [OF assms(3,2)]
  show ?thesis
  proof (cases "fs = []")
    case True
    then have "uvmdealloc root ?a base s = Ok ?a s" by (simp add: uvmdealloc_def)
    moreover have "unmap_view f base 0 vb = grow_view f base [] vb" for f vb
      by (auto simp: unmap_view_def grow_view_def)
    ultimately show ?thesis using g True by simp
  next
    case False
    have lt: "base < ?a" using False a(1) unfolding word_less_nat_alt by simp
    have big: "unat base + 4095 < 2 ^ 64" "unat ?a + 4095 < 2 ^ 64" using assms(2) a(1) by simp_all
    note up = PGROUNDUP_aligned [OF assms(3) big(1)] PGROUNDUP_aligned [OF a(2) big(2)]
    have n: "?n < 2 ^ 31" using assms(2) by simp
    have al: "page_aligned (fs ! i)" if "i < ?n" for i
      using g(8) nth_mem [OF that] by (auto simp: ram_page_def)
    have "\<exists>t. uvmunmap_loop root base ?a True s = Ok () t \<and>
      pt_ok ((if True then rev (frames (mem s) root base ?n) else []) @ ps) t root \<and> vm_frame s t \<and>
      nodes (mem t) root = nodes (mem s) root \<and>
      (\<forall>vb. vb < MAXVA \<longrightarrow> pte_of (mem t) root vb = unmap_view (pte_of (mem s) root) base ?n vb) \<and>
      (\<forall>x. outside (nodes (mem s) root \<union> (if True then set (frames (mem s) root base ?n) else {})) x \<longrightarrow> mem t x = mem s x)"
      using user_pte_simps(1,3) [OF al] growing_frames [OF assms] g(3,5,6,8)
      by (intro uvmunmap_loop_spec [OF g(1) assms(2) refl]) auto
    then obtain t where t: "uvmunmap_loop root base ?a True s = Ok () t" "pt_ok (rev fs @ ps) t root" "vm_frame s t"
      "nodes (mem t) root = nodes (mem s) root"
      "\<And>vb. vb < MAXVA \<Longrightarrow> pte_of (mem t) root vb = unmap_view (pte_of (mem s) root) base ?n vb"
      "\<And>x. outside (nodes (mem s) root \<union> set fs) x \<Longrightarrow> mem t x = mem s x"
      unfolding growing_frames(2) [OF assms] by auto
    have "base mod PGSIZE = 0" using assms(3) by (simp add: page_aligned_def)
    then have "uvmunmap root base (of_nat ?n) True s = Ok () t"
      using t(1) by (simp add: uvmunmap_def PGSIZE_def mult.commute)
    then have "uvmdealloc root ?a base s = Ok base t"
      unfolding uvmdealloc_def up a(4) int_npages [OF n] using lt lt [folded not_le] by (simp add: kop_simps)
    moreover have "pte_of (mem t) root vb = unmap_view (pte_of (mem s\<^sub>0) root) base ?n vb" if "vb < MAXVA" for vb
      using t(5) [OF that] g(9) [OF that] by (simp add: unmap_view_def grow_view_def)
    moreover have "mem t x = mem s\<^sub>0 x" if "outside (nodes (mem s\<^sub>0) root \<union> set qs) x" for x
      using g(10) [OF that] t(6) [OF outside_mono [OF that]] g(4,7) by auto
    ultimately show ?thesis using t(2-4) vm_frame_trans [OF g(2) t(3)] by blast
  qed
qed

lemma growing_free:
  fixes s :: "'z kmst_scheme"
  assumes "growing qs s\<^sub>0 root base fs ps s" and "ram_page s q" and "q \<notin> set ps" and "q \<notin> set fs"
    and "q \<in> set qs" and "q \<notin> nodes (mem s) root"
  shows "\<exists>t. kfree q s = Ok () t \<and> growing qs s\<^sub>0 root base fs (q # ps) t"
proof -
  have g: "pt_ok ps s root" "vm_frame s\<^sub>0 s" "\<And>f. f \<in> set fs \<Longrightarrow> ram_page s f \<and> (\<forall>x. inside x f 4096 \<longrightarrow> mem s x = 0)"
    using assms(1) by (simp_all add: growing_def)
  obtain t where t: "kfree q s = Ok () t" "pt_ok (q # ps) t root" "vm_frame s t"
    "nodes (mem t) root = nodes (mem s) root" "\<And>va. pte_of (mem t) root va = pte_of (mem s) root va"
    "\<And>x. \<not> inside x q 4096 \<Longrightarrow> mem t x = mem s x"
    using kfree_keeps_table [OF g(1) assms(2,3,6)] by blast
  have "\<not> inside x q 4096" if "f \<in> set fs" "inside x f 4096" for f x
  proof -
    have "page_aligned f" "page_aligned q" "f \<noteq> q" using g(3) that assms(2,4) by (auto simp: ram_page_def)
    then show ?thesis using pages_apart that(2) by (auto simp: apart_def)
  qed
  then have "ram_page t f \<and> (\<forall>x. inside x f 4096 \<longrightarrow> mem t x = 0)" if "f \<in> set fs" for f
    using that g(3) [OF that] t(6) ram_page_cong [OF vm_frame_syms [OF t(3)]] by auto
  moreover have "mem t x = mem s\<^sub>0 x" if "outside (nodes (mem s\<^sub>0) root \<union> set qs) x" for x
    using that assms(1,5) t(6) [of x] by (auto simp: growing_def outside_def)
  ultimately have "growing qs s\<^sub>0 root base fs (q # ps) t"
    using assms(1,4,5) t(2,4,5) vm_frame_trans [OF g(2) t(3)] by (simp add: growing_def)
  with t(1) show ?thesis by blast
qed

lemma growing_note:
  "growing qs s\<^sub>0 root base fs ps s \<Longrightarrow> growing qs s\<^sub>0 root base fs ps (s\<lparr>mach := m_note (mach s)\<rparr>)"
proof -
  assume g: "growing qs s\<^sub>0 root base fs ps s"
  then have "vm_frame s\<^sub>0 (s\<lparr>mach := m_note (mach s)\<rparr>)"
    using vm_frame_trans [of s\<^sub>0 s "s\<lparr>mach := m_note (mach s)\<rparr>"] by (simp add: growing_def vm_frame_def)
  with g show ?thesis by (simp add: growing_def pt_ok_def kmem_ok_def ram_page_def)
qed

text \<open>
  The two ways \<^verbatim>\<open>uvmalloc\<close> ends: all pages mapped to zeroed frames of the free list, or everything it
  mapped removed and freed again, which happens only when kalloc ran out: no more than the pages it gave
  back are free then.
\<close>

definition grew :: "addr list \<Rightarrow> 'z kmst_scheme \<Rightarrow> addr \<Rightarrow> uint64 \<Rightarrow> nat \<Rightarrow> 'z kmst_scheme \<Rightarrow> bool" where
  "grew qs s\<^sub>0 root base n t \<longleftrightarrow> (\<exists>fs ps. length fs = n \<and> growing qs s\<^sub>0 root base fs ps t)"

definition grew_back :: "addr list \<Rightarrow> 'z kmst_scheme \<Rightarrow> addr \<Rightarrow> uint64 \<Rightarrow> nat \<Rightarrow> 'z kmst_scheme \<Rightarrow> bool" where
  "grew_back qs s\<^sub>0 root base n t \<longleftrightarrow>
     (\<exists>ps k. k \<le> n \<and> length ps \<le> n \<and> pt_ok ps t root \<and> vm_frame s\<^sub>0 t \<and>
       (\<forall>vb. vb < MAXVA \<longrightarrow> pte_of (mem t) root vb = unmap_view (pte_of (mem s\<^sub>0) root) base k vb) \<and>
       (\<forall>x. outside (nodes (mem s\<^sub>0) root \<union> set qs) x \<longrightarrow> mem t x = mem s\<^sub>0 x))"

lemma growing_dealloc_back:
  assumes "growing qs s\<^sub>0 root base fs ps s" and "unat base + 4096 * length fs \<le> 2 ^ 38" and "page_aligned base"
    and "length fs + length ps \<le> n"
  shows "\<exists>r t. uvmdealloc root (base + of_nat (4096 * length fs)) base s = Ok r t \<and> grew_back qs s\<^sub>0 root base n t"
proof -
  obtain r t where "uvmdealloc root (base + of_nat (4096 * length fs)) base s = Ok r t" "pt_ok (rev fs @ ps) t root" "vm_frame s\<^sub>0 t"
    "\<forall>vb. vb < MAXVA \<longrightarrow> pte_of (mem t) root vb = unmap_view (pte_of (mem s\<^sub>0) root) base (length fs) vb"
    "\<forall>x. outside (nodes (mem s\<^sub>0) root \<union> set qs) x \<longrightarrow> mem t x = mem s\<^sub>0 x"
    using growing_dealloc [OF assms(1-3)] by blast
  moreover have "length fs \<le> n" "length (rev fs @ ps) \<le> n" using assms(4) by simp_all
  ultimately show ?thesis unfolding grew_back_def by blast
qed

lemma uvmalloc_loop_spec:
  fixes s :: "'z kmst_scheme"
  assumes "growing qs s\<^sub>0 root base fs ps s" and "page_aligned base" and "length fs \<le> n"
    and "unat base + 4096 * n \<le> 2 ^ 38"
    and "\<And>k. k \<le> n \<Longrightarrow> base + of_nat (4096 * k) < newsz \<longleftrightarrow> k < n"
    and "\<And>vb. vb < MAXVA \<Longrightarrow> vpage base \<le> vpage vb \<Longrightarrow> vpage vb < vpage base + n \<Longrightarrow> \<not> pte_valid (pte_of (mem s\<^sub>0) root vb)"
  shows "\<exists>r t. uvmalloc_loop root (base + of_nat (4096 * length fs)) base newsz s = Ok r t \<and>
    (r = newsz \<and> grew qs s\<^sub>0 root base n t \<or> r = 0 \<and> grew_back qs s\<^sub>0 root base n t)"
  using assms
proof (induction "n - length fs" arbitrary: fs ps s)
  case 0
  then have "length fs = n" by simp
  then show ?case
    using 0 unfolding grew_def by (subst uvmalloc_loop.simps) auto
next
  case (Suc d)
  let ?a = "base + of_nat (4096 * length fs)"
  have len: "length fs < n" using Suc(2) by simp
  have more: "?a < newsz" using Suc.prems(5) [of "length fs"] len by simp
  have room: "unat base + 4096 * length fs \<le> 2 ^ 38" using Suc.prems(4) len by simp
  note a = pages_above [OF Suc.prems(2) room]
  have aMAX: "\<not> MAXVA \<le> ?a"
    unfolding word_le_nat_alt MAXVA_unat a(1) using Suc.prems(4) len by simp
  have shift: "?a + PGSIZE = base + of_nat (4096 * length (fs @ [q]))" for q
    by (simp add: PGSIZE_def algebra_simps)
  note undo = growing_dealloc_back [OF _ room Suc.prems(2)]
  show ?case
  proof (cases ps)
    case Nil
    let ?t = "s\<lparr>mach := m_note (mach s)\<rparr>"
    have "kmem_ok [] s" using Suc.prems(1) Nil by (simp add: growing_def pt_ok_def)
    then have "kalloc s = Ok 0 ?t" using kalloc_none by blast
    moreover obtain r u where "uvmdealloc root ?a base ?t = Ok r u" "grew_back qs s\<^sub>0 root base n u"
      using undo [where n = n, OF growing_note [OF Suc.prems(1)]] Nil len by auto
    ultimately have "uvmalloc_loop root ?a base newsz s = Ok 0 u \<and> grew_back qs s\<^sub>0 root base n u"
      using more by (subst uvmalloc_loop.simps) simp
    then show ?thesis by blast
  next
    case (Cons q ps')
    then obtain t where t: "bnd kalloc (\<lambda>q. bnd (memset q 0 4096) (\<lambda>_. ret q)) s = Ok q t"
      "growing qs s\<^sub>0 root base fs ps' t" "q \<noteq> 0" "ram_page t q" "q \<notin> set ps'" "q \<notin> set fs" "q \<in> set qs"
      "q \<notin> nodes (mem t) root" "\<forall>x. inside x q 4096 \<longrightarrow> mem t x = 0"
      using growing_alloc [of qs s\<^sub>0 root base fs q ps' s] Suc.prems(1) by blast
    then obtain w where w: "kalloc s = Ok q w" "memset q 0 4096 w = Ok q t"
      by (auto simp: bnd_eq_Ok memset_apply)
    have head: "uvmalloc_loop root ?a base newsz s =
      bnd (mappages root ?a PGSIZE q user_perm) (\<lambda>r.
        if r \<noteq> 0 then thn (kfree q) (bnd (uvmdealloc root ?a base) (\<lambda>_. ret 0))
        else uvmalloc_loop root (?a + PGSIZE) base newsz) t"
      using t(3) more aMAX w by (subst uvmalloc_loop.simps) (simp add: user_perm_def)
    obtain u r ps'' where u: "mappages root ?a PGSIZE q user_perm t = Ok r u"
      "if r = 0 then growing qs s\<^sub>0 root base (fs @ [q]) ps'' u
       else r = - 1 \<and> ps'' = [] \<and> growing qs s\<^sub>0 root base fs [] u \<and> ram_page u q \<and> q \<notin> nodes (mem u) root"
      using growing_map [OF t(2) a(2) _ a(3) _ t(4-9)] Suc.prems(4,6) a(1,3) len by (auto simp: room)
    show ?thesis
    proof (cases "r = 0")
      case True
      then have g: "growing qs s\<^sub>0 root base (fs @ [q]) ps'' u" using u(2) by simp
      have "\<exists>r t. uvmalloc_loop root (base + of_nat (4096 * length (fs @ [q]))) base newsz u = Ok r t \<and>
        (r = newsz \<and> grew qs s\<^sub>0 root base n t \<or> r = 0 \<and> grew_back qs s\<^sub>0 root base n t)"
        using Suc(2) len by (intro Suc.hyps(1) [OF _ g Suc.prems(2) _ Suc.prems(4,5,6)]) simp_all
      then show ?thesis unfolding shift [symmetric] head using u(1) True by (simp add: kop_simps)
    next
      case False
      then have f: "growing qs s\<^sub>0 root base fs [] u" "ram_page u q" "q \<notin> nodes (mem u) root" using u(2) by auto
      obtain w where w: "kfree q u = Ok () w" "growing qs s\<^sub>0 root base fs [q] w"
        using growing_free [OF f(1,2) _ t(6,7) f(3)] by auto
      obtain r' v where "uvmdealloc root ?a base w = Ok r' v" "grew_back qs s\<^sub>0 root base n v"
        using undo [where n = n, OF w(2)] len by auto
      then show ?thesis unfolding head using u(1) False w(1) by (simp add: kop_simps)
    qed
  qed
qed

end
