(* ===== verification/Ucopy.thy ===== *)
theory Ucopy
  imports Uvm
begin

text \<open>
  Copying between kernel and user memory (\<^verbatim>\<open>copyout\<close>, \<^verbatim>\<open>copyin\<close>, \<^verbatim>\<open>copyinstr\<close> of \<^verbatim>\<open>vm.c\<close>) against a
  user address space seen as a function from virtual addresses to bytes, and the properties of the
  virtual-memory component.
\<close>

section \<open>User addresses\<close>

definition user_mapped :: "memory \<Rightarrow> addr \<Rightarrow> uint64 \<Rightarrow> bool" where
  "user_mapped m root va \<longleftrightarrow> PGROUNDDOWN va < MAXVA \<and> pte_valid (pte_of m root (PGROUNDDOWN va)) \<and>
     pte_of m root (PGROUNDDOWN va) AND PTE_U \<noteq> 0 \<and> PTE2PA (pte_of m root (PGROUNDDOWN va)) \<noteq> 0"

definition user_addr :: "memory \<Rightarrow> addr \<Rightarrow> uint64 \<Rightarrow> addr" where
  "user_addr m root va = PTE2PA (pte_of m root (PGROUNDDOWN va)) + (va - PGROUNDDOWN va)"

lemma PGROUNDDOWN_idem [simp]: "PGROUNDDOWN (PGROUNDDOWN va) = PGROUNDDOWN va"
  by (simp add: word_unat_eq_iff unat_PGROUNDDOWN)

lemma page_aligned_PTE2PA [simp]: "page_aligned (PTE2PA e)"
proof -
  have "PTE2PA e = push_bit 12 (drop_bit 12 (PTE2PA e))"
    by (rule bit_word_eqI) (auto simp: PTE2PA_def bit_simps)
  then have "unat (PTE2PA e) = 4096 * (unat (PTE2PA e) div 4096)" using unat_shift_pair by metis
  then show ?thesis unfolding page_aligned_unat by (metis mod_mult_self1_is_0)
qed

lemma walkaddr_spec:
  assumes "tree_ok (mem s) root"
  shows "walkaddr root (PGROUNDDOWN va) s =
    Ok (if user_mapped (mem s) root va then PTE2PA (pte_of (mem s) root (PGROUNDDOWN va)) else 0) s"
proof (cases "PGROUNDDOWN va < MAXVA")
  case True
  show ?thesis
  proof (cases "pte_addr (mem s) root (PGROUNDDOWN va)")
    case None
    then have "pte_of (mem s) root (PGROUNDDOWN va) = 0" by (simp add: pte_of_def)
    then show ?thesis
      using True None by (simp add: walkaddr_def walk_lookup kop_simps user_mapped_def not_le [symmetric])
  next
    case (Some e)
    then have "e \<noteq> 0" "pte_of (mem s) root (PGROUNDDOWN va) = mem64 (mem s) e"
      using pte_addr_nonzero [OF assms] by (auto simp: pte_of_def)
    then show ?thesis
      using True Some
      by (auto simp: walkaddr_def walk_lookup kop_simps user_mapped_def pte_valid_def not_le [symmetric])
  qed
next
  case False
  then show ?thesis by (simp add: walkaddr_def user_mapped_def not_less)
qed

text \<open>Within a page the physical address advances with the virtual one.\<close>

lemma same_page_offset:
  assumes "i < 4096 - unat va mod 4096"
  shows "PGROUNDDOWN (va + of_nat i) = PGROUNDDOWN va" and "va + of_nat i - PGROUNDDOWN va = va - PGROUNDDOWN va + of_nat i"
proof -
  have i: "unat (of_nat i :: uint64) = i" using assms by (intro unat_of_nat_addr) simp
  have v: "unat va < 2 ^ LENGTH(64)" by (rule unsigned_less)
  have room: "unat va + i < 4096 * (unat va div 4096) + 4096"
    using assms mult_div_mod_eq [of 4096 "unat va"] by linarith
  moreover have "unat va div 4096 < 2 ^ 52" using v by (simp add: less_mult_imp_div_less)
  ultimately have "unat va + i < 2 ^ 64" by simp
  then have "unat (va + of_nat i) = unat va + i" using i by (subst unat_add_lem [THEN iffD1]) simp_all
  moreover have "(unat va + i) div 4096 = unat va div 4096"
    unfolding div_page_iff using room by (simp add: trans_le_add1)
  ultimately show "PGROUNDDOWN (va + of_nat i) = PGROUNDDOWN va"
    by (simp add: word_unat_eq_iff unat_PGROUNDDOWN)
  show "va + of_nat i - PGROUNDDOWN va = va - PGROUNDDOWN va + of_nat i" by simp
qed

lemma user_addr_offset:
  assumes "i < 4096 - unat va mod 4096"
  shows "user_addr m root (va + of_nat i) = PTE2PA (pte_of m root (PGROUNDDOWN va)) + (va - PGROUNDDOWN va) + of_nat i"
    and "user_mapped m root (va + of_nat i) = user_mapped m root va"
  using same_page_offset [OF assms] by (simp_all add: user_addr_def user_mapped_def)

lemma next_page_address: "PGROUNDDOWN va + PGSIZE = va + of_nat (4096 - unat va mod 4096)"
proof -
  have o: "va - PGROUNDDOWN va = of_nat (unat va mod 4096)"
    unfolding page_offset [symmetric] by simp
  have "va + of_nat (4096 - unat va mod 4096) = PGROUNDDOWN va + ((va - PGROUNDDOWN va) + of_nat (4096 - unat va mod 4096))"
    by simp
  also have "(va - PGROUNDDOWN va) + of_nat (4096 - unat va mod 4096) = of_nat (unat va mod 4096 + (4096 - unat va mod 4096))"
    unfolding o of_nat_add ..
  also have "unat va mod 4096 + (4096 - unat va mod 4096) = 4096" by simp
  finally show ?thesis by (simp add: PGSIZE_def)
qed

text \<open>The bytes of the user range \<open>[va, va + n)\<close>.\<close>

definition user_bytes :: "memory \<Rightarrow> addr \<Rightarrow> uint64 \<Rightarrow> nat \<Rightarrow> uchar list" where
  "user_bytes m root va n = map (\<lambda>i. m (user_addr m root (va + of_nat i))) [0..<n]"

definition range_mapped :: "memory \<Rightarrow> addr \<Rightarrow> uint64 \<Rightarrow> nat \<Rightarrow> bool" where
  "range_mapped m root va n \<longleftrightarrow> (\<forall>i < n. user_mapped m root (va + of_nat i))"

lemma user_bytes_split:
  "k \<le> n \<Longrightarrow> user_bytes m root va n = user_bytes m root va k @ user_bytes m root (va + of_nat k) (n - k)"
  by (rule nth_equalityI) (auto simp: user_bytes_def nth_append of_nat_diff)

lemma range_mapped_first:
  assumes "range_mapped m root va n" and "0 < n" shows "user_mapped m root va"
  using assms(1) [unfolded range_mapped_def, rule_format, OF assms(2)] by simp

lemma range_mapped_split:
  "k \<le> n \<Longrightarrow> range_mapped m root va n \<longleftrightarrow> range_mapped m root va k \<and> range_mapped m root (va + of_nat k) (n - k)"
proof -
  assume k: "k \<le> n"
  have "user_mapped m root (va + of_nat i)" if "range_mapped m root va k" "range_mapped m root (va + of_nat k) (n - k)" "i < n" for i
  proof (cases "i < k")
    case False
    then have "i - k < n - k" using that(3) by simp
    then have "user_mapped m root (va + of_nat k + of_nat (i - k))" using that(2) unfolding range_mapped_def by blast
    moreover have "of_nat k + of_nat (i - k) = (of_nat i :: uint64)" unfolding of_nat_add [symmetric] using False by simp
    ultimately show ?thesis by (simp only: add.assoc)
  qed (use that in \<open>simp add: range_mapped_def\<close>)
  moreover have "user_mapped m root (va + of_nat k + of_nat i)" if "range_mapped m root va n" "i < n - k" for i
    using that(1) [unfolded range_mapped_def, rule_format, of "k + i"] that(2) by (simp add: add.assoc)
  ultimately show ?thesis using k by (auto simp: range_mapped_def)
qed

lemma page_rest_bound: "page_rest va n \<le> n" "page_rest va n \<le> 4096 - unat va mod 4096" "page_rest va n \<le> 4096"
  by (simp_all add: page_rest_eq)

lemma first_page_bytes:
  "mem_read m (PTE2PA (pte_of m root (PGROUNDDOWN va)) + (va - PGROUNDDOWN va)) (page_rest va n) = user_bytes m root va (page_rest va n)"
  using page_rest_bound(2) [of va n] user_addr_offset(1)
  by (intro nth_equalityI) (simp_all add: user_bytes_def less_le_trans add.assoc)

lemma first_page_mapped: "0 < n \<Longrightarrow> range_mapped m root va (page_rest va n) \<longleftrightarrow> user_mapped m root va"
  using page_rest_bound(2) [of va n] page_rest_pos [of n va] user_addr_offset(2) [of _ va m root]
  by (auto simp: range_mapped_def)

lemma next_piece: "page_rest va n < n \<Longrightarrow> PGROUNDDOWN va + PGSIZE = va + of_nat (page_rest va n)"
  unfolding next_page_address by (simp add: page_rest_eq min_def split: if_splits)

section \<open>The copy loops\<close>

lemma length_user_bytes [simp]: "length (user_bytes m root va n) = n"
  by (simp add: user_bytes_def)

lemma copyin_spec:
  assumes "tree_ok (mem s) root"
  shows "\<exists>r bs. copyin root va n s = Ok (r, bs) s \<and>
    (if range_mapped (mem s) root va n then r = 0 \<and> bs = user_bytes (mem s) root va n
     else r = - 1 \<and> (\<exists>k < n. bs = user_bytes (mem s) root va k))"
  using assms
proof (induction root va n arbitrary: s rule: copyin.induct)
  case (1 root va n)
  show ?case
  proof (cases "n = 0")
    case True
    then show ?thesis by (simp add: copyin.simps range_mapped_def user_bytes_def)
  next
    case False
    let ?k = "page_rest va n" and ?m = "mem s"
    have k: "0 < ?k" "?k \<le> n" using False page_rest_pos page_rest_bound by auto
    show ?thesis
    proof (cases "user_mapped ?m root va")
      case True
      let ?pa = "PTE2PA (pte_of ?m root (PGROUNDDOWN va))"
      have pa: "?pa \<noteq> 0" using True by (simp add: user_mapped_def)
      have w: "walkaddr root (PGROUNDDOWN va) s = Ok ?pa s" using walkaddr_spec [OF "1.prems"] True by simp
      have first: "range_mapped ?m root va ?k" using first_page_mapped [of n ?m root va] True False by simp
      obtain r bs where r: "copyin root (PGROUNDDOWN va + PGSIZE) (n - ?k) s = Ok (r, bs) s"
        "if range_mapped ?m root (PGROUNDDOWN va + PGSIZE) (n - ?k) then r = 0 \<and> bs = user_bytes ?m root (PGROUNDDOWN va + PGSIZE) (n - ?k)
         else r = - 1 \<and> (\<exists>j < n - ?k. bs = user_bytes ?m root (PGROUNDDOWN va + PGSIZE) j)"
        using "1.IH" [OF False pa "1.prems"] by blast
      have head: "copyin root va n s = Ok (r, user_bytes ?m root va ?k @ bs) s"
        using False w pa r(1) by (subst copyin.simps) (simp add: first_page_bytes)
      show ?thesis
      proof (cases "?k = n")
        case True
        then have "r = 0" "bs = []" using r(2) by (auto simp: range_mapped_def user_bytes_def)
        with head first True show ?thesis by simp
      next
        case False
        then have nx: "PGROUNDDOWN va + PGSIZE = va + of_nat ?k" using next_piece [of va n] k(2) by simp
        have sp: "range_mapped ?m root va n \<longleftrightarrow> range_mapped ?m root (va + of_nat ?k) (n - ?k)"
          using range_mapped_split [OF k(2), of ?m root va] first by simp
        have ub: "user_bytes ?m root va (?k + j) = user_bytes ?m root va ?k @ user_bytes ?m root (va + of_nat ?k) j" for j
          using user_bytes_split [of ?k "?k + j"] by simp
        show ?thesis
        proof (cases "range_mapped ?m root va n")
          case True
          then show ?thesis using head r(2) sp nx ub [of "n - ?k"] k(2) by simp
        next
          case False
          then obtain j where j: "r = - 1" "j < n - ?k" "bs = user_bytes ?m root (va + of_nat ?k) j"
            using r(2) sp nx by auto
          then have "?k + j < n" "user_bytes ?m root va ?k @ bs = user_bytes ?m root va (?k + j)" using ub [of j] by auto
          then show ?thesis using head j(1) False by auto
        qed
      qed
    next
      case nm: False
      then have "copyin root va n s = Ok (- 1, []) s"
        using False walkaddr_spec [OF "1.prems", of va] by (subst copyin.simps) simp
      moreover have "\<not> range_mapped ?m root va n"
        using nm False range_mapped_first [of ?m root va n] by auto
      moreover have "[] = user_bytes ?m root va 0" by (simp add: user_bytes_def)
      ultimately show ?thesis using False by auto
    qed
  qed
qed

text \<open>
  For \<^verbatim>\<open>copyout\<close> the range must be mapped to frames outside the page table and the free list, and
  its bytes to different physical bytes.
\<close>

definition range_owned :: "addr list \<Rightarrow> 'z kmst_scheme \<Rightarrow> addr \<Rightarrow> uint64 \<Rightarrow> nat \<Rightarrow> bool" where
  "range_owned ps s root va n \<longleftrightarrow>
     (\<forall>i < n. PTE2PA (pte_of (mem s) root (PGROUNDDOWN (va + of_nat i))) \<notin> nodes (mem s) root \<union> set ps) \<and>
     inj_on (\<lambda>i. user_addr (mem s) root (va + of_nat i)) {..<n}"

lemma range_owned_first:
  assumes "range_owned ps s root va n" and "0 < n"
  shows "PTE2PA (pte_of (mem s) root (PGROUNDDOWN va)) \<notin> nodes (mem s) root \<union> set ps"
  using assms(1) [unfolded range_owned_def, THEN conjunct1, rule_format, OF assms(2)] by simp

lemma user_cong:
  assumes "\<And>v. pte_of m' root v = pte_of m root v"
  shows "user_addr m' root = user_addr m root" and "user_mapped m' root = user_mapped m root"
    and "range_mapped m' root = range_mapped m root"
  using assms by (simp_all add: user_addr_def user_mapped_def range_mapped_def fun_eq_iff)

lemma range_owned_split:
  assumes "range_owned ps s root va n" and "k \<le> n"
  shows "range_owned ps s root (va + of_nat k) (n - k)"
    and "i < k \<Longrightarrow> j < n - k \<Longrightarrow> user_addr (mem s) root (va + of_nat i) \<noteq> user_addr (mem s) root (va + of_nat k + of_nat j)"
proof -
  have eq: "va + of_nat k + of_nat j = va + of_nat (k + j)" for j by (simp add: add.assoc)
  have inj: "inj_on (\<lambda>i. user_addr (mem s) root (va + of_nat i)) {..<n}"
    using assms(1) by (simp add: range_owned_def)
  show "range_owned ps s root (va + of_nat k) (n - k)"
    unfolding range_owned_def eq
  proof (intro conjI allI impI)
    fix i assume "i < n - k"
    then show "PTE2PA (pte_of (mem s) root (PGROUNDDOWN (va + of_nat (k + i)))) \<notin> nodes (mem s) root \<union> set ps"
      using assms(1) [unfolded range_owned_def, THEN conjunct1, rule_format, of "k + i"] by simp
  next
    show "inj_on (\<lambda>i. user_addr (mem s) root (va + of_nat (k + i))) {..<n - k}"
    proof (rule inj_onI)
      fix i j
      assume "i \<in> {..<n - k}" "j \<in> {..<n - k}"
        and "user_addr (mem s) root (va + of_nat (k + i)) = user_addr (mem s) root (va + of_nat (k + j))"
      then have "k + i = k + j" using inj_onD [OF inj, of "k + i" "k + j"] by auto
      then show "i = j" by simp
    qed
  qed
  show "user_addr (mem s) root (va + of_nat i) \<noteq> user_addr (mem s) root (va + of_nat k + of_nat j)"
    if "i < k" "j < n - k"
    unfolding eq using inj_onD [OF inj, of i "k + j"] that less_diff_conv [of j n k] by auto
qed

lemma outside_piece:
  assumes "unat o' + k \<le> 4096" and "\<not> inside x p 4096"
  shows "\<not> inside x (p + o') k"
proof
  assume "inside x (p + o') k"
  then have d: "unat (x - (p + o')) < k" by (simp add: inside_def)
  have "x - p = o' + (x - (p + o'))" by simp
  moreover have "unat (o' + (x - (p + o'))) = unat o' + unat (x - (p + o'))"
    using d assms(1) by (subst unat_add_lem [THEN iffD1]) simp_all
  ultimately have "unat (x - p) < 4096" using d assms(1) by simp
  then show False using assms(2) by (simp add: inside_def)
qed

lemma copyout_spec:
  fixes s :: "'z kmst_scheme"
  assumes "pt_ok ps s root" and "range_mapped (mem s) root va (length src)" and "range_owned ps s root va (length src)"
    and "length src < 2 ^ 64"
  shows "\<exists>t. copyout root va src s = Ok 0 t \<and> t = s\<lparr>mem := mem t\<rparr> \<and> pt_ok ps t root \<and>
    (\<forall>v. pte_of (mem t) root v = pte_of (mem s) root v) \<and> nodes (mem t) root = nodes (mem s) root \<and>
    (\<forall>i < length src. mem t (user_addr (mem s) root (va + of_nat i)) = src ! i) \<and>
    (\<forall>x. (\<forall>i < length src. x \<noteq> user_addr (mem s) root (va + of_nat i)) \<longrightarrow> mem t x = mem s x)"
  using assms
proof (induction root va src arbitrary: s rule: copyout.induct)
  case (1 root va src)
  show ?case
  proof (cases "src = []")
    case True
    then show ?thesis using "1.prems"(1) by (simp add: copyout.simps)
  next
    case False
    let ?n = "length src" and ?k = "page_rest va (length src)" and ?m = "mem s"
    let ?pa = "PTE2PA (pte_of ?m root (PGROUNDDOWN va))"
    have k: "0 < ?k" "?k \<le> ?n" "?k \<le> 4096 - unat va mod 4096" using False page_rest_pos page_rest_bound by auto
    have um: "user_mapped ?m root va"
      using "1.prems"(2) False range_mapped_first [of ?m root va ?n] by auto
    then have w: "walkaddr root (PGROUNDDOWN va) s = Ok ?pa s" and pa: "?pa \<noteq> 0"
      using walkaddr_spec [OF pt_okD(2) [OF "1.prems"(1)], of va] by (simp_all add: user_mapped_def)
    let ?b = "?pa + (va - PGROUNDDOWN va)" and ?t = "s\<lparr>mem := mem_write ?m (?pa + (va - PGROUNDDOWN va)) (take ?k src)\<rparr>"
    have ua: "user_addr ?m root (va + of_nat i) = ?b + of_nat i" if "i < ?k" for i
      using user_addr_offset(1) [of i va ?m root] that k(3) by simp
    have own: "?pa \<notin> nodes ?m root" "?pa \<notin> set ps"
      using "1.prems"(3) False range_owned_first [of ps s root va ?n] by auto
    have off: "unat (va - PGROUNDDOWN va) + ?k \<le> 4096" using k(3) by (simp add: page_offset)
    have frame: "page_apart_frame ?pa ?m (mem ?t)"
      unfolding page_apart_frame_def using outside_piece [OF off] k(2) by (auto intro!: mem_write_other)
    note keep = page_write_keeps_table [OF "1.prems"(1) page_aligned_PTE2PA own(2,1) frame]
    have ok: "pt_ok ps ?t root" using keep(1) by simp
    note cong = user_cong [of "mem ?t" root ?m, OF keep(3)]
    have here: "mem ?t (user_addr ?m root (va + of_nat i)) = src ! i" if "i < ?k" for i
      using that ua [OF that] k(2) "1.prems"(4) unat_of_nat_addr [of i] by (simp add: mem_write_def)
    have there: "mem ?t x = ?m x" if "\<forall>i < ?k. x \<noteq> user_addr ?m root (va + of_nat i)" for x
    proof -
      have "\<not> inside x ?b ?k"
      proof
        assume "inside x ?b ?k"
        then have lt: "unat (x - ?b) < ?k" by (simp add: inside_def)
        then have "x = ?b + of_nat (unat (x - ?b))" by simp
        with that ua [OF lt] lt show False by metis
      qed
      then show ?thesis using k(2) by (simp add: mem_write_other)
    qed
    have head: "copyout root va src s = copyout root (PGROUNDDOWN va + PGSIZE) (drop ?k src) ?t"
      using False w pa by (subst copyout.simps) simp
    show ?thesis
    proof (cases "?k = ?n")
      case True
      then have "copyout root va src s = Ok 0 ?t" using head by (simp add: copyout.simps)
      then show ?thesis using keep here there True by simp
    next
      case less: False
      then have nx: "PGROUNDDOWN va + PGSIZE = va + of_nat ?k" using next_piece [of va ?n] k(2) by simp
      note own' = range_owned_split [OF "1.prems"(3) k(2)]
      have "\<exists>u. copyout root (PGROUNDDOWN va + PGSIZE) (drop ?k src) ?t = Ok 0 u \<and> u = ?t\<lparr>mem := mem u\<rparr> \<and> pt_ok ps u root \<and>
        (\<forall>v. pte_of (mem u) root v = pte_of (mem ?t) root v) \<and> nodes (mem u) root = nodes (mem ?t) root \<and>
        (\<forall>i < length (drop ?k src). mem u (user_addr (mem ?t) root (PGROUNDDOWN va + PGSIZE + of_nat i)) = drop ?k src ! i) \<and>
        (\<forall>x. (\<forall>i < length (drop ?k src). x \<noteq> user_addr (mem ?t) root (PGROUNDDOWN va + PGSIZE + of_nat i)) \<longrightarrow> mem u x = mem ?t x)"
      proof (rule "1.IH" [OF False pa ok])
        show "range_mapped (mem ?t) root (PGROUNDDOWN va + PGSIZE) (length (drop ?k src))"
          using "1.prems"(2) range_mapped_split [OF k(2), of ?m root va] cong(3) nx by simp
        show "range_owned ps ?t root (PGROUNDDOWN va + PGSIZE) (length (drop ?k src))"
          using own'(1) keep(2,3) cong(1) nx by (simp add: range_owned_def)
        show "length (drop ?k src) < 2 ^ 64" using "1.prems"(4) by simp
      qed
      then obtain u where u: "copyout root (PGROUNDDOWN va + PGSIZE) (drop ?k src) ?t = Ok 0 u" "u = ?t\<lparr>mem := mem u\<rparr>" "pt_ok ps u root"
        "\<And>v. pte_of (mem u) root v = pte_of (mem ?t) root v" "nodes (mem u) root = nodes (mem ?t) root"
        "\<And>i. i < ?n - ?k \<Longrightarrow> mem u (user_addr ?m root (va + of_nat ?k + of_nat i)) = src ! (?k + i)"
        "\<And>x. (\<forall>i < ?n - ?k. x \<noteq> user_addr ?m root (va + of_nat ?k + of_nat i)) \<Longrightarrow> mem u x = mem ?t x"
        unfolding nx cong(1) using k(2) by auto
      have eq: "va + of_nat ?k + of_nat i = va + of_nat (?k + i)" for i by (simp add: add.assoc)
      have "mem u (user_addr ?m root (va + of_nat i)) = src ! i" if i: "i < ?n" for i
      proof (cases "i < ?k")
        case True
        then have "mem u (user_addr ?m root (va + of_nat i)) = mem ?t (user_addr ?m root (va + of_nat i))"
          using own'(2) by (intro u(7)) auto
        then show ?thesis using here [OF True] by simp
      next
        case False
        then show ?thesis using u(6) [of "i - ?k"] i unfolding eq by simp
      qed
      moreover have "mem u x = ?m x" if x: "\<forall>i < ?n. x \<noteq> user_addr ?m root (va + of_nat i)" for x
      proof -
        have "x \<noteq> user_addr ?m root (va + of_nat ?k + of_nat i)" if "i < ?n - ?k" for i
          unfolding eq using x [rule_format, of "?k + i"] that by simp
        then have "mem u x = mem ?t x" by (intro u(7)) simp
        moreover have "mem ?t x = ?m x" using x k(2) by (intro there) auto
        ultimately show ?thesis by simp
      qed
      moreover have "u = s\<lparr>mem := mem u\<rparr>" using u(2) by (cases u; cases s) simp
      ultimately show ?thesis using head u(1,3,4,5) keep(2,3) by (intro exI [of _ u]) simp
    qed
  qed
qed

end
