(* ===== verification/Vmprops.thy ===== *)
theory Vmprops
  imports Ucopy
begin

text \<open>
  The properties of the virtual-memory component (\<^verbatim>\<open>vm.c\<close>), with a small concrete address space on
  which they are evaluated: one user page at address 0 and one free page.
\<close>

section \<open>A concrete address space\<close>

definition one_page_mem :: memory where
  "one_page_mem = mem_put64 (mem_put64 (mem_put64 (\<lambda>_. 0)
     0x80040000 (PA2PTE 0x80041000 OR PTE_V)) 0x80041000 (PA2PTE 0x80042000 OR PTE_V))
     0x80042000 (user_pte 0x80043000)"

definition one_page :: kmst where
  "one_page = two_pages\<lparr>mem := one_page_mem, freelist := 0x80050000\<rparr>"

lemma one_page_aligned [simp]:
  "page_aligned 0x80040000" "page_aligned 0x80041000" "page_aligned 0x80042000" "page_aligned 0x80043000"
  "page_aligned 0x80050000"
  by (simp_all add: page_aligned_unat)

lemma one_page_entries:
  assumes "j < 512"
  shows "mem64 one_page_mem (entry 0x80040000 j) = (if j = 0 then PA2PTE 0x80041000 OR PTE_V else 0)"
    and "mem64 one_page_mem (entry 0x80041000 j) = (if j = 0 then PA2PTE 0x80042000 OR PTE_V else 0)"
    and "mem64 one_page_mem (entry 0x80042000 j) = (if j = 0 then user_pte 0x80043000 else 0)"
    and "mem64 one_page_mem 0x80050000 = 0"
proof -
  have ap: "apart b 8 (entry a i) 8" if "page_aligned a" "page_aligned b" "a \<noteq> b" "i < 512" for a b i
    using entries_apart_pages [where a = b and b = a and i = 0 and j = i] that by simp
  have zero: "mem64 (\<lambda>_. 0) x = 0" for x
    by (simp add: mem64_def mem_read_def upt_rec)
  have same: "apart a 8 (entry a j) 8" if "j \<noteq> 0" for a
    using entries_apart [where a = a and i = 0 and j = j] that assms by simp
  show "mem64 one_page_mem (entry 0x80040000 j) = (if j = 0 then PA2PTE 0x80041000 OR PTE_V else 0)"
    unfolding one_page_mem_def using assms
    by (cases "j = 0") (simp_all add: mem64_put64_apart ap ap [of _ _ 0, simplified] zero same)
  show "mem64 one_page_mem (entry 0x80041000 j) = (if j = 0 then PA2PTE 0x80042000 OR PTE_V else 0)"
    unfolding one_page_mem_def using assms
    by (cases "j = 0") (simp_all add: mem64_put64_apart ap ap [of _ _ 0, simplified] zero same)
  show "mem64 one_page_mem (entry 0x80042000 j) = (if j = 0 then user_pte 0x80043000 else 0)"
    unfolding one_page_mem_def using assms
    by (cases "j = 0") (simp_all add: mem64_put64_apart ap ap [of _ _ 0, simplified] zero same)
  show "mem64 one_page_mem 0x80050000 = 0"
    unfolding one_page_mem_def
    by (simp add: mem64_put64_apart ap [of _ _ 0, simplified] zero)
qed

lemma one_page_nodes:
  assumes "vpath p"
  shows "node one_page_mem 0x80040000 p =
    (if p = [] then Some 0x80040000 else if p = [0] then Some 0x80041000 else if p = [0, 0] then Some 0x80042000 else None)"
proof -
  consider "p = []" | i where "p = [i]" "i < 512" | i j where "p = [i, j]" "i < 512" "j < 512"
    using assms by (cases p; cases "tl p"; cases "tl (tl p)") (auto simp: vpath_def)
  then show ?thesis
    by cases (simp_all add: node.simps(2) one_page_entries one_page_entries [of 0, simplified] PTE2PA_table)
qed

lemma one_page_ok: "pt_ok [0x80050000] one_page 0x80040000"
proof -
  have "kmem_ok [0x80050000] one_page"
    using one_page_entries(4) [of 0]
    by (simp add: kmem_ok_def one_page_def two_pages_def ram_page_def PHYSTOP_def KERNBASE_def idle_machine_def)
      (simp add: idle_machine_def [symmetric])
  moreover have "tree_ok one_page_mem 0x80040000"
    unfolding tree_ok_def by (auto simp: one_page_nodes split: if_splits)
  moreover have "nodes one_page_mem 0x80040000 \<subseteq> {0x80040000, 0x80041000, 0x80042000}"
    by (auto simp: nodes_def one_page_nodes split: if_splits)
  ultimately show ?thesis by (auto simp: pt_ok_def one_page_def)
qed

lemma one_page_pte:
  "pte_of one_page_mem 0x80040000 va =
    (if px 2 va = 0 \<and> px 1 va = 0 \<and> px 0 va = 0 then user_pte 0x80043000 else 0)"
  by (simp add: pte_of_def pte_addr_def one_page_nodes one_page_entries one_page_entries [of 0, simplified])


lemma one_page_low:
  assumes "va < 0x1000"
  shows "PGROUNDDOWN va = 0" and "pte_of one_page_mem 0x80040000 0 = user_pte 0x80043000"
proof -
  have "unat va < 4096" using assms by (simp add: word_less_nat_alt)
  then show "PGROUNDDOWN va = 0" by (simp add: word_unat_eq_iff unat_PGROUNDDOWN)
  have "px l 0 = 0" for l by (simp add: px_def PX_take)
  then show "pte_of one_page_mem 0x80040000 0 = user_pte 0x80043000" by (simp add: one_page_pte)
qed

lemma one_page_user:
  assumes "va < 0x1000"
  shows "user_mapped one_page_mem 0x80040000 va" and "user_addr one_page_mem 0x80040000 va = 0x80043000 + va"
  using one_page_low [OF assms] user_pte_simps [OF one_page_aligned(4)]
  by (simp_all add: user_mapped_def user_addr_def MAXVA_def)

lemma one_page_range:
  "range_mapped (mem one_page) 0x80040000 5 3" "range_owned [0x80050000] one_page 0x80040000 5 3"
proof -
  have lt: "5 + of_nat i < (0x1000 :: uint64)" if "i < 3" for i
    using that by (cases i; cases "i - 1"; cases "i - 2") auto
  show "range_mapped (mem one_page) 0x80040000 5 3"
    using one_page_user(1) [OF lt] by (simp add: range_mapped_def one_page_def)
  have fr: "PTE2PA (pte_of one_page_mem 0x80040000 (PGROUNDDOWN (5 + of_nat i))) = 0x80043000" if "i < 3" for i
    using one_page_low [OF lt [OF that]] user_pte_simps(2) [OF one_page_aligned(4)] by simp
  have "nodes one_page_mem 0x80040000 \<subseteq> {0x80040000, 0x80041000, 0x80042000}"
    by (auto simp: nodes_def one_page_nodes split: if_splits)
  then have "0x80043000 \<notin> nodes one_page_mem 0x80040000" by auto
  moreover have "inj_on (\<lambda>i. user_addr one_page_mem 0x80040000 (5 + of_nat i)) {..<3}"
    using one_page_user(2) [OF lt] by (auto simp: inj_on_def numeral_3_eq_3 less_Suc_eq)
  ultimately show "range_owned [0x80050000] one_page 0x80040000 5 3"
    using fr by (simp add: range_owned_def one_page_def)
qed

section \<open>Properties\<close>

text \<open>
  C8 (\<^verbatim>\<open>vm.c\<close>, \<^verbatim>\<open>mappages\<close>): on a well-formed table in which the pages of the range are unmapped,
  \<^verbatim>\<open>mappages\<close> refines the update of the map from virtual pages to entries: when it returns 0 exactly the
  pages of \<open>[va, va + sz)\<close> map to consecutive frames from \<open>pa\<close> with the given permission, every other
  address keeps its entry, and the pages it took from the free list became table pages; when it returns
  -1 the free list is empty and a proper prefix of the range is mapped.
\<close>

theorem mappages_refines_view:
  fixes s :: "'z kmst_scheme"
  assumes "pt_ok ps s root" and "0 < unat sz" and "unat va + unat sz \<le> 2 ^ 38"
    and "\<And>vb. vb < MAXVA \<Longrightarrow> vpage va \<le> vpage vb \<Longrightarrow> vpage vb < vpage va + page_count va sz \<Longrightarrow>
      \<not> pte_valid (pte_of (mem s) root vb)"
  shows "\<exists>t ps' r k. mappages root va sz pa perm s = Ok r t \<and> pt_frame ps ps' root s t \<and>
    (r = 0 \<and> k = page_count va sz \<or> r = - 1 \<and> k < page_count va sz \<and> ps' = []) \<and>
    (\<forall>vb. vb < MAXVA \<longrightarrow> pte_of (mem t) root vb = map_view (pte_of (mem s) root) va k pa perm vb)"
  using mappages_spec [OF assms] by blast

lemma one_page_unmapped: "vpage vb = 1 \<Longrightarrow> vb < MAXVA \<Longrightarrow> pte_of (mem one_page) 0x80040000 vb = 0"
proof -
  assume v: "vpage vb = 1" "vb < MAXVA"
  have "vpage 0 \<noteq> vpage vb" using v(1) by (simp add: vpage_def)
  then have "(px 2 0, px 1 0, px 0 0) \<noteq> (px 2 vb, px 1 vb, px 0 vb)"
    using same_vpage [of 0 vb] v(2) by (auto simp: MAXVA_def)
  moreover have "px l 0 = 0" for l by (simp add: px_def PX_take)
  ultimately show ?thesis by (auto simp: one_page_def one_page_pte)
qed

theorem mappages_refines_view_witness:
  "\<exists>t ps' r k. mappages 0x80040000 0x1000 0x1000 0x80060000 PTE_R one_page = Ok r t \<and>
    pt_frame [0x80050000] ps' 0x80040000 one_page t \<and> (r = 0 \<and> k = 1 \<or> r = - 1 \<and> k < 1 \<and> ps' = []) \<and>
    (\<forall>vb. vb < MAXVA \<longrightarrow> pte_of (mem t) 0x80040000 vb =
       map_view (pte_of (mem one_page) 0x80040000) 0x1000 k 0x80060000 PTE_R vb)"
proof -
  have one: "page_count 0x1000 0x1000 = 1" by (simp add: page_count_def vpage_def)
  have "\<not> pte_valid (pte_of (mem one_page) 0x80040000 vb)"
    if "vb < MAXVA" "vpage 0x1000 \<le> vpage vb" "vpage vb < vpage 0x1000 + page_count 0x1000 0x1000" for vb
  proof -
    have "vpage vb = 1" using that(2,3) one by (simp add: vpage_def)
    then show ?thesis using one_page_unmapped that(1) by simp
  qed
  from mappages_refines_view [where va = "0x1000" and sz = "0x1000" and pa = "0x80060000" and perm = PTE_R, OF one_page_ok _ _ this] show ?thesis
    unfolding one by simp
qed

text \<open>
  C9 (\<^verbatim>\<open>vm.c\<close>, \<^verbatim>\<open>copyout\<close> and \<^verbatim>\<open>copyin\<close>): when the user range is mapped, readable by user code and backed by
  frames of its own, \<^verbatim>\<open>copyout\<close> returns 0 whatever page boundaries the range crosses, \<^verbatim>\<open>copyin\<close> of the
  range then returns exactly the bytes copied out, the page table is unchanged and so is every byte of
  physical memory outside the range.
\<close>

theorem copyout_copyin_roundtrip:
  fixes s :: "'z kmst_scheme"
  assumes "pt_ok ps s root" and "range_mapped (mem s) root va (length src)"
    and "range_owned ps s root va (length src)" and "length src < 2 ^ 64"
  shows "\<exists>t. copyout root va src s = Ok 0 t \<and> copyin root va (length src) t = Ok (0, src) t \<and>
    pt_ok ps t root \<and> t = s\<lparr>mem := mem t\<rparr> \<and> (\<forall>v. pte_of (mem t) root v = pte_of (mem s) root v) \<and>
    (\<forall>x. (\<forall>i < length src. x \<noteq> user_addr (mem s) root (va + of_nat i)) \<longrightarrow> mem t x = mem s x)"
proof -
  obtain t where t: "copyout root va src s = Ok 0 t" "t = s\<lparr>mem := mem t\<rparr>" "pt_ok ps t root"
    "\<And>v. pte_of (mem t) root v = pte_of (mem s) root v"
    "\<And>i. i < length src \<Longrightarrow> mem t (user_addr (mem s) root (va + of_nat i)) = src ! i"
    "\<forall>x. (\<forall>i < length src. x \<noteq> user_addr (mem s) root (va + of_nat i)) \<longrightarrow> mem t x = mem s x"
    using copyout_spec [OF assms] by blast
  note cong = user_cong [of "mem t" root "mem s", OF t(4)]
  have "user_bytes (mem t) root va (length src) = src"
    using t(5) by (intro nth_equalityI) (simp_all add: user_bytes_def cong(1))
  then have "copyin root va (length src) t = Ok (0, src) t"
    using copyin_spec [OF pt_okD(2) [OF t(3)], of va "length src"] assms(2) cong(3) by auto
  with t show ?thesis by blast
qed

theorem copyout_copyin_roundtrip_witness:
  "\<exists>t. copyout 0x80040000 5 [104, 105, 0] one_page = Ok 0 t \<and> copyin 0x80040000 5 3 t = Ok (0, [104, 105, 0]) t"
proof -
  have l: "length [104, 105, 0 :: uchar] = 3" by simp
  have "range_mapped (mem one_page) 0x80040000 5 (length [104, 105, 0 :: uchar])"
    "range_owned [0x80050000] one_page 0x80040000 5 (length [104, 105, 0 :: uchar])"
    unfolding l by (rule one_page_range)+
  from copyout_copyin_roundtrip [OF one_page_ok this] show ?thesis unfolding l by auto
qed

text \<open>
  C10 (\<^verbatim>\<open>vm.c\<close>, \<^verbatim>\<open>copyin\<close>): on any user address and length, \<^verbatim>\<open>copyin\<close> returns and leaves the kernel state as
  it was; it returns 0 with the bytes of the range exactly when every byte of the range is mapped for
  user access, and -1 otherwise, having stored only a prefix of the range's bytes.
\<close>

theorem copyin_validates:
  assumes "tree_ok (mem s) root"
  shows "\<exists>r bs. copyin root va n s = Ok (r, bs) s \<and>
    (if range_mapped (mem s) root va n then r = 0 \<and> bs = user_bytes (mem s) root va n
     else r = - 1 \<and> (\<exists>k < n. bs = user_bytes (mem s) root va k))"
  using assms by (rule copyin_spec)

theorem copyin_validates_witness:
  "\<exists>r bs. copyin 0x80040000 0xffe 4 one_page = Ok (r, bs) one_page \<and> r = - 1"
proof -
  have "\<not> user_mapped (mem one_page) 0x80040000 (0xffe + of_nat 2)"
    using one_page_unmapped [of "0x1000"]
    by (simp add: user_mapped_def vpage_def MAXVA_def PGROUNDDOWN_def PGSIZE_def pte_valid_def)
  moreover have "(2 :: nat) < 4" by simp
  ultimately have "\<not> range_mapped (mem one_page) 0x80040000 0xffe 4" unfolding range_mapped_def by blast
  then show ?thesis using copyin_validates [OF pt_okD(2) [OF one_page_ok], of "0xffe" 4] by auto
qed

lemma less_pages: "4096 * j < x \<longleftrightarrow> j < (x + 4095) div 4096" for j x :: nat
proof -
  have "j < (x + 4095) div 4096 \<longleftrightarrow> Suc j * 4096 \<le> x + 4095"
    unfolding Suc_le_eq [symmetric] by (rule less_eq_div_iff_mult_less_eq) simp
  then show ?thesis by auto
qed



end
