(* ===== verification/Virtio.thy ===== *)
theory Virtio
  imports Vmprops
begin

text \<open>
  The disk driver (\<^verbatim>\<open>kernel/virtio_disk.c\<close>, \<^verbatim>\<open>virtio.h\<close>) and the buffers it transfers (\<^verbatim>\<open>buf.h\<close>).

  The device itself is a parameter. \<open>vread\<close> gives the values its registers show, and \<open>vdev\<close> what one
  round of its work does to the memory it shares with the driver (the rings, the request headers on the
  kernel stacks, the buffers) and to the disk image; both are constants of the state, and what the driver
  relies on is the predicate \<open>virtio_device\<close>. The pointers in descriptors are values of \<open>dmaptr\<close>.

  A process that waits for the disk sleeps. \<open>disk_sleep\<close> runs the whole of that sleep for a process that
  is alone: it switches to the scheduler, the device works, the interrupt handler wakes the process,
  the scheduler switches back. \<open>whist\<close> is a ghost variable: the images the disk has had, newest first.
\<close>

section \<open>Data\<close>

definition BSIZE :: nat where "BSIZE = 1024"
definition NBUF :: nat where "NBUF = 30"
definition NUM :: nat where "NUM = 8"

definition VIRTIO_MMIO_MAGIC_VALUE :: uint64 where "VIRTIO_MMIO_MAGIC_VALUE = 0x000"
definition VIRTIO_MMIO_VERSION :: uint64 where "VIRTIO_MMIO_VERSION = 0x004"
definition VIRTIO_MMIO_DEVICE_ID :: uint64 where "VIRTIO_MMIO_DEVICE_ID = 0x008"
definition VIRTIO_MMIO_VENDOR_ID :: uint64 where "VIRTIO_MMIO_VENDOR_ID = 0x00c"
definition VIRTIO_MMIO_DEVICE_FEATURES :: uint64 where "VIRTIO_MMIO_DEVICE_FEATURES = 0x010"
definition VIRTIO_MMIO_DRIVER_FEATURES :: uint64 where "VIRTIO_MMIO_DRIVER_FEATURES = 0x020"
definition VIRTIO_MMIO_GUEST_PAGE_SIZE :: uint64 where "VIRTIO_MMIO_GUEST_PAGE_SIZE = 0x028"
definition VIRTIO_MMIO_QUEUE_SEL :: uint64 where "VIRTIO_MMIO_QUEUE_SEL = 0x030"
definition VIRTIO_MMIO_QUEUE_NUM_MAX :: uint64 where "VIRTIO_MMIO_QUEUE_NUM_MAX = 0x034"
definition VIRTIO_MMIO_QUEUE_NUM :: uint64 where "VIRTIO_MMIO_QUEUE_NUM = 0x038"
definition VIRTIO_MMIO_QUEUE_PFN :: uint64 where "VIRTIO_MMIO_QUEUE_PFN = 0x040"
definition VIRTIO_MMIO_QUEUE_NOTIFY :: uint64 where "VIRTIO_MMIO_QUEUE_NOTIFY = 0x050"
definition VIRTIO_MMIO_INTERRUPT_STATUS :: uint64 where "VIRTIO_MMIO_INTERRUPT_STATUS = 0x060"
definition VIRTIO_MMIO_INTERRUPT_ACK :: uint64 where "VIRTIO_MMIO_INTERRUPT_ACK = 0x064"
definition VIRTIO_MMIO_STATUS :: uint64 where "VIRTIO_MMIO_STATUS = 0x070"

definition VIRTIO_CONFIG_S_ACKNOWLEDGE :: uint where "VIRTIO_CONFIG_S_ACKNOWLEDGE = 1"
definition VIRTIO_CONFIG_S_DRIVER :: uint where "VIRTIO_CONFIG_S_DRIVER = 2"
definition VIRTIO_CONFIG_S_DRIVER_OK :: uint where "VIRTIO_CONFIG_S_DRIVER_OK = 4"
definition VIRTIO_CONFIG_S_FEATURES_OK :: uint where "VIRTIO_CONFIG_S_FEATURES_OK = 8"

definition VIRTIO_BLK_F_RO :: nat where "VIRTIO_BLK_F_RO = 5"
definition VIRTIO_BLK_F_SCSI :: nat where "VIRTIO_BLK_F_SCSI = 7"
definition VIRTIO_BLK_F_CONFIG_WCE :: nat where "VIRTIO_BLK_F_CONFIG_WCE = 11"
definition VIRTIO_BLK_F_MQ :: nat where "VIRTIO_BLK_F_MQ = 12"
definition VIRTIO_F_ANY_LAYOUT :: nat where "VIRTIO_F_ANY_LAYOUT = 27"
definition VIRTIO_RING_F_INDIRECT_DESC :: nat where "VIRTIO_RING_F_INDIRECT_DESC = 28"
definition VIRTIO_RING_F_EVENT_IDX :: nat where "VIRTIO_RING_F_EVENT_IDX = 29"

definition VRING_DESC_F_NEXT :: ushort where "VRING_DESC_F_NEXT = 1"
definition VRING_DESC_F_WRITE :: ushort where "VRING_DESC_F_WRITE = 2"
definition VIRTIO_BLK_T_IN :: uint where "VIRTIO_BLK_T_IN = 0"
definition VIRTIO_BLK_T_OUT :: uint where "VIRTIO_BLK_T_OUT = 1"

text \<open>
  A buffer. Buffers are numbered; \<open>NBUF\<close> is \<^verbatim>\<open>bcache.head\<close>. The lock of buffer \<open>i\<close> is \<open>LkBufSleep i\<close>.
\<close>

record buf =
  b_valid :: int
  b_disk :: int
  b_dev :: uint
  b_blockno :: uint
  b_refcnt :: uint
  b_prev :: nat
  b_next :: nat
  b_data :: "uchar list"

datatype dmaptr = Dma0 | DmaHdr nat | DmaData nat | DmaStatus nat

record vring_desc =
  vd_addr :: dmaptr
  vd_len :: uint
  vd_flags :: ushort
  vd_next :: ushort

record virtio_blk_outhdr =
  vh_type :: uint
  vh_reserved :: uint
  vh_sector :: uint64

text \<open>\<^verbatim>\<open>struct disk\<close>: the pages shared with the device, then the driver's own book-keeping.\<close>

record vdisk =
  desc :: "nat \<Rightarrow> vring_desc"
  avail_idx :: ushort
  avail_ring :: "nat \<Rightarrow> ushort"
  used_id :: ushort
  used_elems :: "nat \<Rightarrow> uint"
  vfree :: "nat \<Rightarrow> bool"
  used_idx :: ushort
  info_b :: "nat \<Rightarrow> nat option"
  info_status :: "nat \<Rightarrow> uchar"

type_synonym image = "nat \<Rightarrow> uchar"

type_synonym device =
  "(nat \<Rightarrow> virtio_blk_outhdr) \<Rightarrow> vdisk \<times> (nat \<Rightarrow> buf) \<times> image \<Rightarrow> vdisk \<times> (nat \<Rightarrow> buf) \<times> image"

record dst = vst +
  bufs :: "nat \<Rightarrow> buf"
  disk :: vdisk
  hdrs :: "nat \<Rightarrow> virtio_blk_outhdr"
  vread :: "uint64 \<Rightarrow> uint"
  vwrites :: "(uint64 \<times> uint) list"
  vdev :: device
  img :: image
  whist :: "image list"

definition get_buf :: "nat \<Rightarrow> (buf \<Rightarrow> 'a) \<Rightarrow> ('a, 'z dst_scheme) kop" where
  "get_buf i f = gets (\<lambda>s. f (bufs s i))"

definition upd_buf :: "nat \<Rightarrow> (buf \<Rightarrow> buf) \<Rightarrow> (unit, 'z dst_scheme) kop" where
  "upd_buf i f = modify (\<lambda>s. s\<lparr>bufs := (bufs s)(i := f (bufs s i))\<rparr>)"

definition get_disk :: "(vdisk \<Rightarrow> 'a) \<Rightarrow> ('a, 'z dst_scheme) kop" where
  "get_disk f = gets (\<lambda>s. f (disk s))"

definition upd_disk :: "(vdisk \<Rightarrow> vdisk) \<Rightarrow> (unit, 'z dst_scheme) kop" where
  "upd_disk f = modify (\<lambda>s. s\<lparr>disk := f (disk s)\<rparr>)"

definition upd_desc :: "nat \<Rightarrow> (vring_desc \<Rightarrow> vring_desc) \<Rightarrow> (unit, 'z dst_scheme) kop" where
  "upd_desc i f = upd_disk (\<lambda>d. d\<lparr>desc := (desc d)(i := f (desc d i))\<rparr>)"

definition r_mmio :: "uint64 \<Rightarrow> (uint, 'z dst_scheme) kop" where
  "r_mmio r = gets (\<lambda>s. vread s r)"

definition w_mmio :: "uint64 \<Rightarrow> uint \<Rightarrow> (unit, 'z dst_scheme) kop" where
  "w_mmio r v = modify (\<lambda>s. s\<lparr>vwrites := (r, v) # vwrites s\<rparr>)"

section \<open>Initialization\<close>

definition clear_feature :: "nat \<Rightarrow> uint64 \<Rightarrow> uint64" where
  "clear_feature n features = features AND NOT (push_bit n 1)"

definition virtio_disk_init :: "(unit, 'z dst_scheme) kop" where
  "virtio_disk_init =
     thn (initlock LkDisk ''virtio_disk'') (
     bnd (r_mmio VIRTIO_MMIO_MAGIC_VALUE) (\<lambda>magic.
     bnd (r_mmio VIRTIO_MMIO_VERSION) (\<lambda>version.
     bnd (r_mmio VIRTIO_MMIO_DEVICE_ID) (\<lambda>device_id.
     bnd (r_mmio VIRTIO_MMIO_VENDOR_ID) (\<lambda>vendor.
     if magic \<noteq> 0x74726976 \<or> version \<noteq> 1 \<or> device_id \<noteq> 2 \<or> vendor \<noteq> 0x554d4551
     then kpanic ''could not find virtio disk''
     else (let st1 = VIRTIO_CONFIG_S_ACKNOWLEDGE; st2 = st1 OR VIRTIO_CONFIG_S_DRIVER;
               st3 = st2 OR VIRTIO_CONFIG_S_FEATURES_OK; st4 = st3 OR VIRTIO_CONFIG_S_DRIVER_OK in
     thn (w_mmio VIRTIO_MMIO_STATUS st1) (
     thn (w_mmio VIRTIO_MMIO_STATUS st2) (
     bnd (r_mmio VIRTIO_MMIO_DEVICE_FEATURES) (\<lambda>features.
     thn (w_mmio VIRTIO_MMIO_DRIVER_FEATURES (ucast
            (clear_feature VIRTIO_RING_F_INDIRECT_DESC (clear_feature VIRTIO_RING_F_EVENT_IDX
            (clear_feature VIRTIO_F_ANY_LAYOUT (clear_feature VIRTIO_BLK_F_MQ
            (clear_feature VIRTIO_BLK_F_CONFIG_WCE (clear_feature VIRTIO_BLK_F_SCSI
            (clear_feature VIRTIO_BLK_F_RO (ucast features)))))))))) (
     thn (w_mmio VIRTIO_MMIO_STATUS st3) (
     thn (w_mmio VIRTIO_MMIO_STATUS st4) (
     thn (w_mmio VIRTIO_MMIO_GUEST_PAGE_SIZE (ucast PGSIZE)) (
     thn (w_mmio VIRTIO_MMIO_QUEUE_SEL 0) (
     bnd (r_mmio VIRTIO_MMIO_QUEUE_NUM_MAX) (\<lambda>mx.
     if mx = 0 then kpanic ''virtio disk has no queue 0''
     else if mx < of_nat NUM then kpanic ''virtio disk max queue too short''
     else thn (w_mmio VIRTIO_MMIO_QUEUE_NUM (of_nat NUM)) (
     thn (upd_disk (\<lambda>d. d\<lparr>desc := (\<lambda>_. \<lparr>vd_addr = Dma0, vd_len = 0, vd_flags = 0, vd_next = 0\<rparr>),
            avail_idx := 0, avail_ring := (\<lambda>_. 0), used_id := 0, used_elems := (\<lambda>_. 0)\<rparr>)) (
     bnd (gets (\<lambda>s. sym_disk_pages (syms (mach s)))) (\<lambda>pages.
     thn (w_mmio VIRTIO_MMIO_QUEUE_PFN (ucast (drop_bit 12 pages)))
         (for_each [0..<NUM] (\<lambda>i. upd_disk (\<lambda>d. d\<lparr>vfree := (vfree d)(i := True)\<rparr>)))))))))))))))))))))"

section \<open>Descriptors\<close>

definition alloc_desc :: "(nat option, 'z dst_scheme) kop" where
  "alloc_desc = for_until [0..<NUM] (\<lambda>i.
     bnd (get_disk (\<lambda>d. vfree d i)) (\<lambda>f.
     if f then thn (upd_disk (\<lambda>d. d\<lparr>vfree := (vfree d)(i := False)\<rparr>)) (ret (Some i))
     else ret None))"

definition free_desc :: "nat \<Rightarrow> (unit, 'z dst_scheme) kop" where
  "free_desc i =
     (if NUM \<le> i then kpanic ''virtio_disk_intr 1''
      else bnd (get_disk (\<lambda>d. vfree d i)) (\<lambda>f.
      if f then kpanic ''virtio_disk_intr 2''
      else thn (upd_desc i (\<lambda>x. x\<lparr>vd_addr := Dma0\<rparr>)) (
           thn (upd_disk (\<lambda>d. d\<lparr>vfree := (vfree d)(i := True)\<rparr>))
               (wakeup ChDiskFree))))"

text \<open>
  Each round of \<^verbatim>\<open>free_chain\<close> frees a descriptor that was in use or panics, so \<open>NUM + 1\<close> rounds are
  always enough.
\<close>

fun free_chain_loop :: "nat \<Rightarrow> nat \<Rightarrow> (unit, 'z dst_scheme) kop" where
  "free_chain_loop 0 i = (\<lambda>_. Hang)"
| "free_chain_loop (Suc n) i =
     thn (free_desc i) (
     bnd (get_disk (\<lambda>d. desc d i)) (\<lambda>x.
     if vd_flags x AND VRING_DESC_F_NEXT \<noteq> 0 then free_chain_loop n (unat (vd_next x)) else ret ()))"

definition free_chain :: "nat \<Rightarrow> (unit, 'z dst_scheme) kop" where
  "free_chain i = free_chain_loop (NUM + 1) i"

fun alloc3_loop :: "nat \<Rightarrow> nat list \<Rightarrow> (nat list option, 'z dst_scheme) kop" where
  "alloc3_loop 0 idx = ret (Some idx)"
| "alloc3_loop (Suc n) idx =
     bnd alloc_desc (\<lambda>r. case r of
       None \<Rightarrow> thn (for_each idx free_desc) (ret None)
     | Some i \<Rightarrow> alloc3_loop n (idx @ [i]))"

definition alloc3_desc :: "(nat list option, 'z dst_scheme) kop" where
  "alloc3_desc = alloc3_loop 3 []"

section \<open>Requests\<close>

text \<open>\<^verbatim>\<open>buf0\<close> is on the kernel stack of the process that runs; the boot stack counts as slot \<open>NPROC\<close>.\<close>

definition stack_slot :: "machine \<Rightarrow> nat" where
  "stack_slot m = (case cur m of Some p \<Rightarrow> p | None \<Rightarrow> NPROC)"

definition disk_submit :: "nat \<Rightarrow> bool \<Rightarrow> nat list \<Rightarrow> (unit, 'z dst_scheme) kop" where
  "disk_submit b wr idx =
     bnd (get_buf b b_blockno) (\<lambda>blockno.
     bnd (gets (\<lambda>s. stack_slot (mach s))) (\<lambda>k.
     thn (modify (\<lambda>s. s\<lparr>hdrs := (hdrs s)(k := \<lparr>vh_type = (if wr then VIRTIO_BLK_T_OUT else VIRTIO_BLK_T_IN),
            vh_reserved = 0, vh_sector = ucast (blockno * of_nat (BSIZE div 512))\<rparr>)\<rparr>)) (
     thn (upd_desc (idx ! 0) (\<lambda>x. x\<lparr>vd_addr := DmaHdr k\<rparr>)) (
     thn (upd_desc (idx ! 0) (\<lambda>x. x\<lparr>vd_len := 16\<rparr>)) (
     thn (upd_desc (idx ! 0) (\<lambda>x. x\<lparr>vd_flags := VRING_DESC_F_NEXT\<rparr>)) (
     thn (upd_desc (idx ! 0) (\<lambda>x. x\<lparr>vd_next := of_nat (idx ! 1)\<rparr>)) (
     thn (upd_desc (idx ! 1) (\<lambda>x. x\<lparr>vd_addr := DmaData b\<rparr>)) (
     thn (upd_desc (idx ! 1) (\<lambda>x. x\<lparr>vd_len := of_nat BSIZE\<rparr>)) (
     thn (if wr then upd_desc (idx ! 1) (\<lambda>x. x\<lparr>vd_flags := 0\<rparr>)
          else upd_desc (idx ! 1) (\<lambda>x. x\<lparr>vd_flags := VRING_DESC_F_WRITE\<rparr>)) (
     thn (upd_desc (idx ! 1) (\<lambda>x. x\<lparr>vd_flags := vd_flags x OR VRING_DESC_F_NEXT\<rparr>)) (
     thn (upd_desc (idx ! 1) (\<lambda>x. x\<lparr>vd_next := of_nat (idx ! 2)\<rparr>)) (
     thn (upd_disk (\<lambda>d. d\<lparr>info_status := (info_status d)(idx ! 0 := 0)\<rparr>)) (
     thn (upd_desc (idx ! 2) (\<lambda>x. x\<lparr>vd_addr := DmaStatus (idx ! 0)\<rparr>)) (
     thn (upd_desc (idx ! 2) (\<lambda>x. x\<lparr>vd_len := 1\<rparr>)) (
     thn (upd_desc (idx ! 2) (\<lambda>x. x\<lparr>vd_flags := VRING_DESC_F_WRITE\<rparr>)) (
     thn (upd_desc (idx ! 2) (\<lambda>x. x\<lparr>vd_next := 0\<rparr>)) (
     thn (upd_buf b (\<lambda>x. x\<lparr>b_disk := 1\<rparr>)) (
     thn (upd_disk (\<lambda>d. d\<lparr>info_b := (info_b d)(idx ! 0 := Some b)\<rparr>)) (
     thn (upd_disk (\<lambda>d. d\<lparr>avail_ring := (avail_ring d)(unat (avail_idx d) mod NUM := of_nat (idx ! 0))\<rparr>)) (
     thn (upd_disk (\<lambda>d. d\<lparr>avail_idx := avail_idx d + 1\<rparr>))
         (w_mmio VIRTIO_MMIO_QUEUE_NOTIFY 0)))))))))))))))))))))"

text \<open>
  The loop of the interrupt handler moves \<^verbatim>\<open>used_idx\<close> towards \<^verbatim>\<open>used->id\<close> modulo \<open>NUM\<close>, so \<open>NUM\<close> rounds
  are enough. A completed chain whose \<^verbatim>\<open>info\<close> entry has no buffer makes the handler write through a
  null pointer.
\<close>

fun virtio_intr_loop :: "nat \<Rightarrow> (unit, 'z dst_scheme) kop" where
  "virtio_intr_loop 0 = (\<lambda>_. Hang)"
| "virtio_intr_loop (Suc n) =
     bnd (get_disk used_idx) (\<lambda>u.
     bnd (get_disk used_id) (\<lambda>v.
     if unat u mod NUM = unat v mod NUM then ret ()
     else bnd (get_disk (\<lambda>d. unat (used_elems d (unat u)))) (\<lambda>id'.
          bnd (get_disk (\<lambda>d. info_status d id')) (\<lambda>st.
          if st \<noteq> 0 then kpanic ''virtio_disk_intr status''
          else bnd (get_disk (\<lambda>d. info_b d id')) (\<lambda>ob.
               case ob of
                 None \<Rightarrow> kpanic ''kerneltrap''
               | Some b \<Rightarrow>
                   thn (upd_buf b (\<lambda>x. x\<lparr>b_disk := 0\<rparr>)) (
                   thn (wakeup (ChBuf b)) (
                   thn (upd_disk (\<lambda>d. d\<lparr>used_idx := of_nat ((unat (used_idx d) + 1) mod NUM)\<rparr>))
                       (virtio_intr_loop n))))))))"

definition virtio_disk_intr :: "(unit, 'z dst_scheme) kop" where
  "virtio_disk_intr =
     thn (acquire LkDisk) (
     thn (virtio_intr_loop NUM) (
     bnd (r_mmio VIRTIO_MMIO_INTERRUPT_STATUS) (\<lambda>v.
     thn (w_mmio VIRTIO_MMIO_INTERRUPT_ACK (v AND 3))
         (release LkDisk))))"

definition vdev_work :: "(unit, 'z dst_scheme) kop" where
  "vdev_work = modify (\<lambda>s. case vdev s (hdrs s) (disk s, bufs s, img s) of
     (d, b, i) \<Rightarrow> s\<lparr>bufs := b, disk := d, img := i, whist := i # whist s\<rparr>)"

definition disk_sleep :: "nat \<Rightarrow> (unit, 'z dst_scheme) kop" where
  "disk_sleep b = (\<lambda>s.
     case sleep (ChBuf b) LkDisk s of
       Blocked t \<Rightarrow>
         (case cur (mach t) of
            None \<Rightarrow> Blocked t
          | Some p \<Rightarrow>
              thn (scheduler_leave p) (
              thn vdev_work (
              thn virtio_disk_intr (
              bnd (scheduler_enter p) (\<lambda>r.
              if r = None then Blocked
              else sleep_resume (intena (cpus (mach t) (this_cpu (mach t)))) LkDisk)))) t)
     | r \<Rightarrow> r)"

fun disk_wait :: "nat \<Rightarrow> nat \<Rightarrow> (unit, 'z dst_scheme) kop" where
  "disk_wait 0 b = (\<lambda>_. Hang)"
| "disk_wait (Suc n) b =
     bnd (get_buf b b_disk) (\<lambda>d.
     if d = 1 then thn (disk_sleep b) (disk_wait n b) else ret ())"

definition virtio_disk_rest :: "nat \<Rightarrow> bool \<Rightarrow> (unit, 'z dst_scheme) kop" where
  "virtio_disk_rest b wr =
     bnd alloc3_desc (\<lambda>r. case r of
       None \<Rightarrow> sleep ChDiskFree LkDisk
     | Some idx \<Rightarrow>
         thn (disk_submit b wr idx) (
         thn (disk_wait 2 b) (
         thn (upd_disk (\<lambda>d. d\<lparr>info_b := (info_b d)(idx ! 0 := None)\<rparr>)) (
         thn (free_chain (idx ! 0))
             (release LkDisk)))))"

definition virtio_disk_rw :: "nat \<Rightarrow> bool \<Rightarrow> (unit, 'z dst_scheme) kop" where
  "virtio_disk_rw b wr = thn (acquire LkDisk) (virtio_disk_rest b wr)"

definition virtio_disk_rw_resume :: "bool \<Rightarrow> nat \<Rightarrow> bool \<Rightarrow> (unit, 'z dst_scheme) kop" where
  "virtio_disk_rw_resume ie b wr = thn (sleep_resume ie LkDisk) (virtio_disk_rest b wr)"

end
