(* ===== verification/Bio.thy ===== *)
theory Bio
  imports Virtio
begin

text \<open>
  The buffer cache (\<^verbatim>\<open>kernel/bio.c\<close>): the doubly linked list of buffers in order of use, threaded
  through \<^verbatim>\<open>prev\<close> and \<^verbatim>\<open>next\<close>, as the code has it. The scans follow the pointers; there are \<open>NBUF\<close>
  buffers and the head, so a scan that has not met the head after \<open>NBUF + 1\<close> nodes never does.
\<close>

section \<open>Operations\<close>

definition binit :: "(unit, 'z dst_scheme) kop" where
  "binit =
     thn (initlock LkBcache ''bcache'') (
     thn (upd_buf NBUF (\<lambda>x. x\<lparr>b_prev := NBUF\<rparr>)) (
     thn (upd_buf NBUF (\<lambda>x. x\<lparr>b_next := NBUF\<rparr>))
         (for_each [0..<NBUF] (\<lambda>b.
            bnd (get_buf NBUF b_next) (\<lambda>h.
            thn (upd_buf b (\<lambda>x. x\<lparr>b_next := h\<rparr>)) (
            thn (upd_buf b (\<lambda>x. x\<lparr>b_prev := NBUF\<rparr>)) (
            thn (initsleeplock (LkBufSleep b) ''buffer'') (
            bnd (get_buf NBUF b_next) (\<lambda>h.
            thn (upd_buf h (\<lambda>x. x\<lparr>b_prev := b\<rparr>))
                (upd_buf NBUF (\<lambda>x. x\<lparr>b_next := b\<rparr>)))))))))))"

fun bget_cached :: "nat \<Rightarrow> uint \<Rightarrow> uint \<Rightarrow> nat \<Rightarrow> (nat option, 'z dst_scheme) kop" where
  "bget_cached 0 dev blockno b = (\<lambda>_. Hang)"
| "bget_cached (Suc n) dev blockno b =
     (if b = NBUF then ret None
      else bnd (get_buf b b_dev) (\<lambda>d.
           bnd (get_buf b b_blockno) (\<lambda>k.
           if d = dev \<and> k = blockno
           then thn (upd_buf b (\<lambda>x. x\<lparr>b_refcnt := b_refcnt x + 1\<rparr>)) (
                thn (release LkBcache) (
                thn (acquiresleep (LkBufSleep b))
                    (ret (Some b))))
           else bnd (get_buf b b_next) (\<lambda>b. bget_cached n dev blockno b))))"

fun bget_recycle :: "nat \<Rightarrow> uint \<Rightarrow> uint \<Rightarrow> nat \<Rightarrow> (nat option, 'z dst_scheme) kop" where
  "bget_recycle 0 dev blockno b = (\<lambda>_. Hang)"
| "bget_recycle (Suc n) dev blockno b =
     (if b = NBUF then ret None
      else bnd (get_buf b b_refcnt) (\<lambda>r.
           if r = 0
           then thn (upd_buf b (\<lambda>x. x\<lparr>b_dev := dev\<rparr>)) (
                thn (upd_buf b (\<lambda>x. x\<lparr>b_blockno := blockno\<rparr>)) (
                thn (upd_buf b (\<lambda>x. x\<lparr>b_valid := 0\<rparr>)) (
                thn (upd_buf b (\<lambda>x. x\<lparr>b_refcnt := 1\<rparr>)) (
                thn (release LkBcache) (
                thn (acquiresleep (LkBufSleep b))
                    (ret (Some b)))))))
           else bnd (get_buf b b_prev) (\<lambda>b. bget_recycle n dev blockno b)))"

definition bget :: "uint \<Rightarrow> uint \<Rightarrow> (nat, 'z dst_scheme) kop" where
  "bget dev blockno =
     thn (acquire LkBcache) (
     bnd (get_buf NBUF b_next) (\<lambda>first.
     bnd (bget_cached (NBUF + 1) dev blockno first) (\<lambda>r. case r of
       Some b \<Rightarrow> ret b
     | None \<Rightarrow>
         bnd (get_buf NBUF b_prev) (\<lambda>last'.
         bnd (bget_recycle (NBUF + 1) dev blockno last') (\<lambda>r. case r of
           Some b \<Rightarrow> ret b
         | None \<Rightarrow> kpanic ''bget: no buffers'')))))"

definition bread :: "uint \<Rightarrow> uint \<Rightarrow> (nat, 'z dst_scheme) kop" where
  "bread dev blockno =
     bnd (bget dev blockno) (\<lambda>b.
     bnd (get_buf b b_valid) (\<lambda>v.
     if v = 0
     then thn (virtio_disk_rw b False) (
          thn (upd_buf b (\<lambda>x. x\<lparr>b_valid := 1\<rparr>))
              (ret b))
     else ret b))"

definition bwrite :: "nat \<Rightarrow> (unit, 'z dst_scheme) kop" where
  "bwrite b =
     bnd (holdingsleep (LkBufSleep b)) (\<lambda>h.
     if \<not> h then kpanic ''bwrite''
     else virtio_disk_rw b True)"

definition brelse :: "nat \<Rightarrow> (unit, 'z dst_scheme) kop" where
  "brelse b =
     bnd (holdingsleep (LkBufSleep b)) (\<lambda>h.
     if \<not> h then kpanic ''brelse''
     else thn (releasesleep (LkBufSleep b)) (
          thn (acquire LkBcache) (
          thn (upd_buf b (\<lambda>x. x\<lparr>b_refcnt := b_refcnt x - 1\<rparr>)) (
          bnd (get_buf b b_refcnt) (\<lambda>r.
          thn (whenk (r = 0) (
                 bnd (get_buf b b_next) (\<lambda>n.
                 bnd (get_buf b b_prev) (\<lambda>p.
                 thn (upd_buf n (\<lambda>x. x\<lparr>b_prev := p\<rparr>)) (
                 bnd (get_buf b b_prev) (\<lambda>p.
                 bnd (get_buf b b_next) (\<lambda>n.
                 thn (upd_buf p (\<lambda>x. x\<lparr>b_next := n\<rparr>)) (
                 bnd (get_buf NBUF b_next) (\<lambda>h.
                 thn (upd_buf b (\<lambda>x. x\<lparr>b_next := h\<rparr>)) (
                 thn (upd_buf b (\<lambda>x. x\<lparr>b_prev := NBUF\<rparr>)) (
                 bnd (get_buf NBUF b_next) (\<lambda>h.
                 thn (upd_buf h (\<lambda>x. x\<lparr>b_prev := b\<rparr>))
                     (upd_buf NBUF (\<lambda>x. x\<lparr>b_next := b\<rparr>))))))))))))))
              (release LkBcache))))))"

definition bpin :: "nat \<Rightarrow> (unit, 'z dst_scheme) kop" where
  "bpin b =
     thn (acquire LkBcache) (
     thn (upd_buf b (\<lambda>x. x\<lparr>b_refcnt := b_refcnt x + 1\<rparr>))
         (release LkBcache))"

definition bunpin :: "nat \<Rightarrow> (unit, 'z dst_scheme) kop" where
  "bunpin b =
     thn (acquire LkBcache) (
     thn (upd_buf b (\<lambda>x. x\<lparr>b_refcnt := b_refcnt x - 1\<rparr>))
         (release LkBcache))"

end
