(* ===== verification/Bytes.thy ===== *)
theory Bytes
  imports Prelude
begin

text \<open>
  Little-endian integers inside a block of bytes: how the C code reads and writes the fields of the
  structures it overlays on disk blocks and on user memory.
\<close>

definition bytes_at :: "uchar list \<Rightarrow> nat \<Rightarrow> nat \<Rightarrow> uchar list" where
  "bytes_at d off n = take n (drop off d)"

definition put_bytes :: "uchar list \<Rightarrow> nat \<Rightarrow> uchar list \<Rightarrow> uchar list" where
  "put_bytes d off bs = take off d @ bs @ drop (off + length bs) d"

definition get16 :: "uchar list \<Rightarrow> nat \<Rightarrow> ushort" where
  "get16 d off = le_word (bytes_at d off 2)"

definition get32 :: "uchar list \<Rightarrow> nat \<Rightarrow> uint" where
  "get32 d off = le_word (bytes_at d off 4)"

definition get64 :: "uchar list \<Rightarrow> nat \<Rightarrow> uint64" where
  "get64 d off = le_word (bytes_at d off 8)"

definition put16 :: "uchar list \<Rightarrow> nat \<Rightarrow> ushort \<Rightarrow> uchar list" where
  "put16 d off w = put_bytes d off (le_bytes 2 w)"

definition put32 :: "uchar list \<Rightarrow> nat \<Rightarrow> uint \<Rightarrow> uchar list" where
  "put32 d off w = put_bytes d off (le_bytes 4 w)"

lemma length_put_bytes [simp]: "off + length bs \<le> length d \<Longrightarrow> length (put_bytes d off bs) = length d"
  by (simp add: put_bytes_def)

lemma length_bytes_at [simp]: "off + n \<le> length d \<Longrightarrow> length (bytes_at d off n) = n"
  by (simp add: bytes_at_def)

lemma nth_bytes_at [simp]: "off + n \<le> length d \<Longrightarrow> i < n \<Longrightarrow> bytes_at d off n ! i = d ! (off + i)"
  by (simp add: bytes_at_def)

lemma nth_put_bytes:
  "off + length bs \<le> length d \<Longrightarrow> i < length d \<Longrightarrow>
   put_bytes d off bs ! i = (if off \<le> i \<and> i < off + length bs then bs ! (i - off) else d ! i)"
  by (auto simp: put_bytes_def nth_append min_def)

lemma bytes_at_put_same [simp]:
  "off + length bs \<le> length d \<Longrightarrow> n = length bs \<Longrightarrow> bytes_at (put_bytes d off bs) off n = bs"
  by (simp add: bytes_at_def put_bytes_def)

lemma bytes_at_put_other:
  assumes "off + length bs \<le> length d" and "o' + n \<le> length d" and "o' + n \<le> off \<or> off + length bs \<le> o'"
  shows "bytes_at (put_bytes d off bs) o' n = bytes_at d o' n"
  using assms by (intro nth_equalityI) (auto simp: nth_put_bytes)

lemma put_bytes_put_bytes [simp]:
  "off + length bs \<le> length d \<Longrightarrow> length cs = length bs \<Longrightarrow> put_bytes (put_bytes d off bs) off cs = put_bytes d off cs"
  by (simp add: put_bytes_def)

lemma put_bytes_at [simp]: "off + n \<le> length d \<Longrightarrow> put_bytes d off (bytes_at d off n) = d"
  by (rule nth_equalityI) (auto simp: nth_put_bytes)

lemma length_put16 [simp]: "off + 2 \<le> length d \<Longrightarrow> length (put16 d off w) = length d"
  by (simp add: put16_def)

lemma length_put32 [simp]: "off + 4 \<le> length d \<Longrightarrow> length (put32 d off w) = length d"
  by (simp add: put32_def)

lemma get_put_same [simp]:
  "off + 2 \<le> length d \<Longrightarrow> get16 (put16 d off w) off = w"
  "off + 4 \<le> length d \<Longrightarrow> get32 (put32 d off v) off = v"
  by (simp_all add: get16_def put16_def get32_def put32_def le_word_le_bytes take_bit_word_eq_self)

lemma get32_put32_other:
  "off + 4 \<le> length d \<Longrightarrow> o' + 4 \<le> length d \<Longrightarrow> o' + 4 \<le> off \<or> off + 4 \<le> o' \<Longrightarrow> get32 (put32 d off w) o' = get32 d o'"
  by (simp add: get32_def put32_def bytes_at_put_other)

lemma get16_put16_other:
  "off + 2 \<le> length d \<Longrightarrow> o' + 2 \<le> length d \<Longrightarrow> o' + 2 \<le> off \<or> off + 2 \<le> o' \<Longrightarrow> get16 (put16 d off w) o' = get16 d o'"
  by (simp add: get16_def put16_def bytes_at_put_other)

end
