(* ===== verification/Log.thy ===== *)
theory Log
  imports Bio Bytes
begin

text \<open>
  The log (\<^verbatim>\<open>kernel/log.c\<close>): transactions over the buffer cache. The block numbers of the header are
  kept as their 32-bit patterns (\<^verbatim>\<open>log.lh.block\<close> is compared with and passed as a \<^verbatim>\<open>uint\<close>). A header
  read from disk with more than \<^verbatim>\<open>LOGSIZE\<close> entries makes \<^verbatim>\<open>read_head\<close> overrun \<^verbatim>\<open>log.lh.block\<close>, which C
  leaves undefined; that is the outcome \<open>Panic ''undefined''\<close>.
\<close>

section \<open>Data\<close>

definition MAXOPBLOCKS :: nat where "MAXOPBLOCKS = 10"
definition LOGSIZE :: nat where "LOGSIZE = MAXOPBLOCKS * 3"

record logheader =
  lh_n :: int
  lh_block :: "uint list"

record klog =
  log_start :: uint
  log_size :: int
  log_outstanding :: int
  log_committing :: bool
  log_dev :: uint
  log_lh :: logheader

text \<open>The fields \<^verbatim>\<open>logstart\<close> and \<^verbatim>\<open>nlog\<close> are all that \<^verbatim>\<open>initlog\<close> uses of the superblock.\<close>

record superblock =
  sb_magic :: uint
  sb_size :: uint
  sb_nblocks :: uint
  sb_ninodes :: uint
  sb_nlog :: uint
  sb_logstart :: uint
  sb_inodestart :: uint
  sb_bmapstart :: uint

record lgst = dst +
  lg :: klog

definition get_log :: "(klog \<Rightarrow> 'a) \<Rightarrow> ('a, 'z lgst_scheme) kop" where
  "get_log f = gets (\<lambda>s. f (lg s))"

definition upd_log :: "(klog \<Rightarrow> klog) \<Rightarrow> (unit, 'z lgst_scheme) kop" where
  "upd_log f = modify (\<lambda>s. s\<lparr>lg := f (lg s)\<rparr>)"

definition set_lh_n :: "int \<Rightarrow> (unit, 'z lgst_scheme) kop" where
  "set_lh_n n = upd_log (\<lambda>l. l\<lparr>log_lh := (log_lh l)\<lparr>lh_n := n\<rparr>\<rparr>)"

definition set_lh_block :: "nat \<Rightarrow> uint \<Rightarrow> (unit, 'z lgst_scheme) kop" where
  "set_lh_block i b =
     (if i < LOGSIZE then upd_log (\<lambda>l. l\<lparr>log_lh := (log_lh l)\<lparr>lh_block := (lh_block (log_lh l))[i := b]\<rparr>\<rparr>)
      else kpanic ''undefined'')"

section \<open>Copying between the log and the disk\<close>

definition install_trans_one :: "nat \<Rightarrow> (unit, 'z lgst_scheme) kop" where
  "install_trans_one tail =
     bnd (get_log log_dev) (\<lambda>dev.
     bnd (get_log log_start) (\<lambda>start.
     bnd (bread dev (start + of_nat tail + 1)) (\<lambda>lbuf.
     bnd (get_log (\<lambda>l. lh_block (log_lh l) ! tail)) (\<lambda>blk.
     bnd (bread dev blk) (\<lambda>dbuf.
     bnd (get_buf lbuf b_data) (\<lambda>d.
     thn (upd_buf dbuf (\<lambda>x. x\<lparr>b_data := d\<rparr>)) (
     thn (bwrite dbuf) (
     thn (bunpin dbuf) (
     thn (brelse lbuf)
         (brelse dbuf))))))))))"

definition install_trans :: "(unit, 'z lgst_scheme) kop" where
  "install_trans = bnd (get_log (\<lambda>l. lh_n (log_lh l))) (\<lambda>n. for_each [0..<nat n] install_trans_one)"

definition read_head :: "(unit, 'z lgst_scheme) kop" where
  "read_head =
     bnd (get_log log_dev) (\<lambda>dev.
     bnd (get_log log_start) (\<lambda>start.
     bnd (bread dev start) (\<lambda>buf.
     bnd (get_buf buf b_data) (\<lambda>lh.
     thn (set_lh_n (sint (get32 lh 0))) (
     thn (for_each [0..<nat (sint (get32 lh 0))] (\<lambda>i. set_lh_block i (get32 lh (4 + 4 * i))))
         (brelse buf))))))"

definition write_head :: "(unit, 'z lgst_scheme) kop" where
  "write_head =
     bnd (get_log log_dev) (\<lambda>dev.
     bnd (get_log log_start) (\<lambda>start.
     bnd (bread dev start) (\<lambda>buf.
     bnd (get_log (\<lambda>l. lh_n (log_lh l))) (\<lambda>n.
     thn (upd_buf buf (\<lambda>x. x\<lparr>b_data := put32 (b_data x) 0 (of_int n)\<rparr>)) (
     thn (for_each [0..<nat n] (\<lambda>i.
            bnd (get_log (\<lambda>l. lh_block (log_lh l) ! i)) (\<lambda>b.
            upd_buf buf (\<lambda>x. x\<lparr>b_data := put32 (b_data x) (4 + 4 * i) b\<rparr>)))) (
     thn (bwrite buf)
         (brelse buf)))))))"

definition recover_from_log :: "(unit, 'z lgst_scheme) kop" where
  "recover_from_log = thn read_head (thn install_trans (thn (set_lh_n 0) write_head))"

text \<open>The header takes \<open>4 * (LOGSIZE + 1)\<close> bytes.\<close>

definition initlog :: "uint \<Rightarrow> superblock \<Rightarrow> (unit, 'z lgst_scheme) kop" where
  "initlog dev sb =
     (if BSIZE \<le> 4 * (LOGSIZE + 1) then kpanic ''initlog: too big logheader''
      else thn (initlock LkLog ''log'') (
           thn (upd_log (\<lambda>l. l\<lparr>log_start := sb_logstart sb\<rparr>)) (
           thn (upd_log (\<lambda>l. l\<lparr>log_size := sint (sb_nlog sb)\<rparr>)) (
           thn (upd_log (\<lambda>l. l\<lparr>log_dev := dev\<rparr>))
               recover_from_log))))"

section \<open>Transactions\<close>

definition begin_op_loop :: "(unit, 'z lgst_scheme) kop" where
  "begin_op_loop =
     bnd (get_log log_committing) (\<lambda>c.
     if c then sleep ChLog LkLog
     else bnd (get_log (\<lambda>l. lh_n (log_lh l))) (\<lambda>n.
          bnd (get_log log_outstanding) (\<lambda>k.
          if n + (k + 1) * int MAXOPBLOCKS > int LOGSIZE then sleep ChLog LkLog
          else thn (upd_log (\<lambda>l. l\<lparr>log_outstanding := log_outstanding l + 1\<rparr>))
                   (release LkLog))))"

definition begin_op :: "(unit, 'z lgst_scheme) kop" where
  "begin_op = thn (acquire LkLog) begin_op_loop"

definition begin_op_resume :: "bool \<Rightarrow> (unit, 'z lgst_scheme) kop" where
  "begin_op_resume ie = thn (sleep_resume ie LkLog) begin_op_loop"

definition write_log_one :: "nat \<Rightarrow> (unit, 'z lgst_scheme) kop" where
  "write_log_one tail =
     bnd (get_log log_dev) (\<lambda>dev.
     bnd (get_log log_start) (\<lambda>start.
     bnd (bread dev (start + of_nat tail + 1)) (\<lambda>to.
     bnd (get_log (\<lambda>l. lh_block (log_lh l) ! tail)) (\<lambda>blk.
     bnd (bread dev blk) (\<lambda>from'.
     bnd (get_buf from' b_data) (\<lambda>d.
     thn (upd_buf to (\<lambda>x. x\<lparr>b_data := d\<rparr>)) (
     thn (bwrite to) (
     thn (brelse from')
         (brelse to)))))))))"

definition write_log :: "(unit, 'z lgst_scheme) kop" where
  "write_log = bnd (get_log (\<lambda>l. lh_n (log_lh l))) (\<lambda>n. for_each [0..<nat n] write_log_one)"

definition commit :: "(unit, 'z lgst_scheme) kop" where
  "commit =
     bnd (get_log (\<lambda>l. lh_n (log_lh l))) (\<lambda>n.
     whenk (n > 0) (thn write_log (thn write_head (thn install_trans (thn (set_lh_n 0) write_head)))))"

definition end_op :: "(unit, 'z lgst_scheme) kop" where
  "end_op =
     thn (acquire LkLog) (
     thn (upd_log (\<lambda>l. l\<lparr>log_outstanding := log_outstanding l - 1\<rparr>)) (
     bnd (get_log log_committing) (\<lambda>c.
     if c then kpanic ''log.committing''
     else bnd (get_log log_outstanding) (\<lambda>k.
          bnd (if k = 0
               then thn (upd_log (\<lambda>l. l\<lparr>log_committing := True\<rparr>)) (ret True)
               else thn (wakeup ChLog) (ret False)) (\<lambda>do_commit.
          thn (release LkLog)
              (whenk do_commit (
                 thn commit (
                 thn (acquire LkLog) (
                 thn (upd_log (\<lambda>l. l\<lparr>log_committing := False\<rparr>)) (
                 thn (wakeup ChLog)
                     (release LkLog)))))))))))"

fun find_logged :: "uint list \<Rightarrow> nat \<Rightarrow> nat \<Rightarrow> uint \<Rightarrow> nat" where
  "find_logged bl i 0 b = i"
| "find_logged bl i (Suc k) b = (if bl ! i = b then i else find_logged bl (i + 1) k b)"

definition log_write :: "nat \<Rightarrow> (unit, 'z lgst_scheme) kop" where
  "log_write b =
     bnd (get_log (\<lambda>l. lh_n (log_lh l))) (\<lambda>n.
     bnd (get_log log_size) (\<lambda>sz.
     if n \<ge> int LOGSIZE \<or> n \<ge> sz - 1 then kpanic ''too big a transaction''
     else bnd (get_log log_outstanding) (\<lambda>k.
     if k < 1 then kpanic ''log_write outside of trans''
     else thn (acquire LkLog) (
          bnd (get_log (\<lambda>l. lh_n (log_lh l))) (\<lambda>n.
          bnd (get_buf b b_blockno) (\<lambda>blockno.
          bnd (get_log (\<lambda>l. find_logged (lh_block (log_lh l)) 0 (nat n) blockno)) (\<lambda>i.
          thn (set_lh_block i blockno) (
          thn (whenk (int i = n) (
                 thn (bpin b)
                     (set_lh_n (n + 1))))
              (release LkLog)))))))))"

end
