(* ===== verification/Fs.thy ===== *)
theory Fs
  imports Log
begin

text \<open>
  The file system proper (\<^verbatim>\<open>kernel/fs.c\<close>, \<^verbatim>\<open>fs.h\<close>, \<^verbatim>\<open>stat.h\<close>, the inode of \<^verbatim>\<open>file.h\<close>) with the two copy
  routines of \<^verbatim>\<open>proc.c\<close> it uses: block allocation, inodes, file contents, directories, path names.

  Inodes are numbered by their place in \<^verbatim>\<open>icache.inode\<close>; the lock of inode \<open>i\<close> is \<open>LkInodeSleep i\<close>, and a
  pointer that may be null is an \<open>option\<close>. On-disk structures are read from and written to blocks of
  bytes at their C offsets. Strings are lists of bytes without the final nul. Loops over file offsets
  count in \<open>nat\<close>: their checks against wrap-around are the code's own, on 32-bit words.
\<close>

section \<open>Data\<close>

definition ROOTINO :: uint where "ROOTINO = 1"
definition ROOTDEV :: uint where "ROOTDEV = 1"
definition FSMAGIC :: uint where "FSMAGIC = 0x10203040"
definition NDIRECT :: nat where "NDIRECT = 12"
definition NINDIRECT :: nat where "NINDIRECT = BSIZE div 4"
definition MAXFILE :: nat where "MAXFILE = NDIRECT + NINDIRECT"
definition IPB :: nat where "IPB = BSIZE div 64"
definition BPB :: nat where "BPB = BSIZE * 8"
definition DIRSIZ :: nat where "DIRSIZ = 14"
definition NINODE :: nat where "NINODE = 50"
definition T_DIR :: ushort where "T_DIR = 1"
definition T_FILE :: ushort where "T_FILE = 2"
definition T_DEVICE :: ushort where "T_DEVICE = 3"

definition IBLOCK :: "uint \<Rightarrow> superblock \<Rightarrow> uint" where
  "IBLOCK i sb = i div of_nat IPB + sb_inodestart sb"

definition BBLOCK :: "uint \<Rightarrow> superblock \<Rightarrow> uint" where
  "BBLOCK b sb = b div of_nat BPB + sb_bmapstart sb"

record inode =
  i_dev :: uint
  i_inum :: uint
  i_ref :: int
  i_valid :: bool
  i_type :: ushort
  i_major :: ushort
  i_minor :: ushort
  i_nlink :: ushort
  i_size :: uint
  i_addrs :: "uint list"

record stat =
  st_dev :: uint
  st_ino :: uint
  st_type :: ushort
  st_nlink :: ushort
  st_size :: uint64

record fsst = lgst +
  sb :: superblock
  inodes :: "nat \<Rightarrow> inode"

definition get_inode :: "nat \<Rightarrow> (inode \<Rightarrow> 'a) \<Rightarrow> ('a, 'z fsst_scheme) kop" where
  "get_inode ip f = gets (\<lambda>s. f (inodes s ip))"

definition upd_inode :: "nat \<Rightarrow> (inode \<Rightarrow> inode) \<Rightarrow> (unit, 'z fsst_scheme) kop" where
  "upd_inode ip f = modify (\<lambda>s. s\<lparr>inodes := (inodes s)(ip := f (inodes s ip))\<rparr>)"

definition get_sb :: "(superblock \<Rightarrow> 'a) \<Rightarrow> ('a, 'z fsst_scheme) kop" where
  "get_sb f = gets (\<lambda>s. f (sb s))"

definition cstr :: "uchar list \<Rightarrow> cptr" where
  "cstr bs = (\<lambda>i. if i < length bs then bs ! i else 0)"

section \<open>Copying to and from user or kernel memory (proc.c)\<close>

text \<open>
  A kernel address is either in the direct-mapped memory or a local variable of the caller, whose
  bytes are then passed or returned.
\<close>

datatype copy_dst = DUser uint64 | DKern addr | DVar

datatype copy_src = SUser uint64 | SVar "uchar list"

definition either_copyout :: "copy_dst \<Rightarrow> uchar list \<Rightarrow> (int, 'z kmst_scheme) kop" where
  "either_copyout dst src =
     bnd myproc (\<lambda>op. case dst of
       DUser a \<Rightarrow> (case op of None \<Rightarrow> kpanic ''kerneltrap''
                   | Some p \<Rightarrow> bnd (get_proc p ppagetable) (\<lambda>pt. copyout pt a src))
     | DKern a \<Rightarrow> thn (modify (\<lambda>s. s\<lparr>mem := mem_write (mem s) a src\<rparr>)) (ret 0)
     | DVar \<Rightarrow> ret 0)"

definition either_copyin :: "copy_src \<Rightarrow> nat \<Rightarrow> (int \<times> uchar list, 'z kmst_scheme) kop" where
  "either_copyin src n =
     bnd myproc (\<lambda>op. case src of
       SUser a \<Rightarrow> (case op of None \<Rightarrow> kpanic ''kerneltrap''
                   | Some p \<Rightarrow> bnd (get_proc p ppagetable) (\<lambda>pt. copyin pt a n))
     | SVar bs \<Rightarrow> ret (0, take n bs))"

fun dst_plus :: "copy_dst \<Rightarrow> nat \<Rightarrow> copy_dst" where
  "dst_plus (DUser a) n = DUser (a + of_nat n)"
| "dst_plus (DKern a) n = DKern (a + of_nat n)"
| "dst_plus DVar n = DVar"

fun src_plus :: "copy_src \<Rightarrow> nat \<Rightarrow> copy_src" where
  "src_plus (SUser a) n = SUser (a + of_nat n)"
| "src_plus (SVar bs) n = SVar (drop n bs)"

section \<open>Blocks\<close>

definition superblock_of :: "uchar list \<Rightarrow> superblock" where
  "superblock_of d = \<lparr>sb_magic = get32 d 0, sb_size = get32 d 4, sb_nblocks = get32 d 8, sb_ninodes = get32 d 12,
     sb_nlog = get32 d 16, sb_logstart = get32 d 20, sb_inodestart = get32 d 24, sb_bmapstart = get32 d 28\<rparr>"

definition readsb :: "uint \<Rightarrow> (unit, 'z fsst_scheme) kop" where
  "readsb dev =
     bnd (bread dev 1) (\<lambda>bp.
     bnd (get_buf bp b_data) (\<lambda>d.
     thn (modify (\<lambda>s. s\<lparr>sb := superblock_of d\<rparr>))
         (brelse bp)))"

definition fsinit :: "uint \<Rightarrow> (unit, 'z fsst_scheme) kop" where
  "fsinit dev =
     thn (readsb dev) (
     bnd (get_sb (\<lambda>x. x)) (\<lambda>x.
     if sb_magic x \<noteq> FSMAGIC then kpanic ''invalid file system'' else initlog dev x))"

definition bzero :: "uint \<Rightarrow> uint \<Rightarrow> (unit, 'z lgst_scheme) kop" where
  "bzero dev bno =
     bnd (bread dev bno) (\<lambda>bp.
     thn (upd_buf bp (\<lambda>x. x\<lparr>b_data := replicate BSIZE 0\<rparr>)) (
     thn (log_write bp)
         (brelse bp)))"

definition bit_mask :: "nat \<Rightarrow> uchar" where
  "bit_mask bi = push_bit (bi mod 8) 1"

definition balloc_bit :: "uint \<Rightarrow> nat \<Rightarrow> nat \<Rightarrow> nat \<Rightarrow> (uint option, 'z fsst_scheme) kop" where
  "balloc_bit dev bp b bi =
     bnd (get_buf bp (\<lambda>x. b_data x ! (bi div 8))) (\<lambda>byte.
     if byte AND bit_mask bi = 0
     then thn (upd_buf bp (\<lambda>x. x\<lparr>b_data := (b_data x)[bi div 8 := byte OR bit_mask bi]\<rparr>)) (
          thn (log_write bp) (
          thn (brelse bp) (
          thn (bzero dev (of_nat (b + bi)))
              (ret (Some (of_nat (b + bi)))))))
     else ret None)"

definition balloc_group :: "uint \<Rightarrow> nat \<Rightarrow> (uint option, 'z fsst_scheme) kop" where
  "balloc_group dev b =
     bnd (get_sb (\<lambda>x. x)) (\<lambda>x.
     bnd (bread dev (BBLOCK (of_nat b) x)) (\<lambda>bp.
     bnd (for_until [0..<min BPB (unat (sb_size x) - b)] (balloc_bit dev bp b)) (\<lambda>r. case r of
       Some a \<Rightarrow> ret (Some a)
     | None \<Rightarrow> thn (brelse bp) (ret None))))"

definition balloc :: "uint \<Rightarrow> (uint, 'z fsst_scheme) kop" where
  "balloc dev =
     bnd (get_sb (\<lambda>x. unat (sb_size x))) (\<lambda>size'.
     bnd (for_until (map (\<lambda>k. k * BPB) [0..<(size' + BPB - 1) div BPB]) (balloc_group dev)) (\<lambda>r. case r of
       Some a \<Rightarrow> ret a
     | None \<Rightarrow> kpanic ''balloc: out of blocks''))"

definition bfree :: "uint \<Rightarrow> uint \<Rightarrow> (unit, 'z fsst_scheme) kop" where
  "bfree dev b =
     bnd (get_sb (BBLOCK b)) (\<lambda>k.
     bnd (bread dev k) (\<lambda>bp.
     (let bi = unat b mod BPB in
     bnd (get_buf bp (\<lambda>x. b_data x ! (bi div 8))) (\<lambda>byte.
     if byte AND bit_mask bi = 0 then kpanic ''freeing free block''
     else thn (upd_buf bp (\<lambda>x. x\<lparr>b_data := (b_data x)[bi div 8 := byte AND NOT (bit_mask bi)]\<rparr>)) (
          thn (log_write bp)
              (brelse bp))))))"

section \<open>Inodes\<close>

text \<open>The on-disk inode: 64 bytes, \<^verbatim>\<open>type\<close>, \<^verbatim>\<open>major\<close>, \<^verbatim>\<open>minor\<close>, \<^verbatim>\<open>nlink\<close>, \<^verbatim>\<open>size\<close>, \<^verbatim>\<open>addrs\<close>.\<close>

definition dinode_off :: "uint \<Rightarrow> nat" where
  "dinode_off inum = (unat inum mod IPB) * 64"

definition put_addrs :: "uchar list \<Rightarrow> nat \<Rightarrow> uint list \<Rightarrow> uchar list" where
  "put_addrs d off as = put_bytes d off (concat (map (le_bytes 4) as))"

definition get_addrs :: "uchar list \<Rightarrow> nat \<Rightarrow> uint list" where
  "get_addrs d off = map (\<lambda>i. get32 d (off + 4 * i)) [0..<NDIRECT + 1]"

definition put_dinode :: "uchar list \<Rightarrow> nat \<Rightarrow> inode \<Rightarrow> uchar list" where
  "put_dinode d off ip =
     put_addrs (put32 (put16 (put16 (put16 (put16 d off (i_type ip)) (off + 2) (i_major ip)) (off + 4) (i_minor ip))
       (off + 6) (i_nlink ip)) (off + 8) (i_size ip)) (off + 12) (i_addrs ip)"

definition get_dinode :: "uchar list \<Rightarrow> nat \<Rightarrow> inode \<Rightarrow> inode" where
  "get_dinode d off ip = ip\<lparr>i_type := get16 d off, i_major := get16 d (off + 2), i_minor := get16 d (off + 4),
     i_nlink := get16 d (off + 6), i_size := get32 d (off + 8), i_addrs := get_addrs d (off + 12)\<rparr>"

definition iinit :: "(unit, 'z fsst_scheme) kop" where
  "iinit =
     thn (initlock LkIcache ''icache'')
         (for_each [0..<NINODE] (\<lambda>i. initsleeplock (LkInodeSleep i) ''inode''))"

fun iget_loop :: "nat list \<Rightarrow> nat option \<Rightarrow> uint \<Rightarrow> uint \<Rightarrow> (nat, 'z fsst_scheme) kop" where
  "iget_loop [] emp dev inum =
     (case emp of
        None \<Rightarrow> kpanic ''iget: no inodes''
      | Some ip \<Rightarrow>
          thn (upd_inode ip (\<lambda>x. x\<lparr>i_dev := dev\<rparr>)) (
          thn (upd_inode ip (\<lambda>x. x\<lparr>i_inum := inum\<rparr>)) (
          thn (upd_inode ip (\<lambda>x. x\<lparr>i_ref := 1\<rparr>)) (
          thn (upd_inode ip (\<lambda>x. x\<lparr>i_valid := False\<rparr>)) (
          thn (release LkIcache)
              (ret ip))))))"
| "iget_loop (ip # ips) emp dev inum =
     bnd (get_inode ip (\<lambda>x. x)) (\<lambda>x.
     if i_ref x > 0 \<and> i_dev x = dev \<and> i_inum x = inum
     then thn (upd_inode ip (\<lambda>x. x\<lparr>i_ref := i_ref x + 1\<rparr>)) (
          thn (release LkIcache)
              (ret ip))
     else iget_loop ips (if emp = None \<and> i_ref x = 0 then Some ip else emp) dev inum)"

definition iget :: "uint \<Rightarrow> uint \<Rightarrow> (nat, 'z fsst_scheme) kop" where
  "iget dev inum = thn (acquire LkIcache) (iget_loop [0..<NINODE] None dev inum)"

definition ialloc_one :: "uint \<Rightarrow> ushort \<Rightarrow> nat \<Rightarrow> (nat option, 'z fsst_scheme) kop" where
  "ialloc_one dev type' inum =
     bnd (get_sb (IBLOCK (of_nat inum))) (\<lambda>k.
     bnd (bread dev k) (\<lambda>bp.
     bnd (get_buf bp b_data) (\<lambda>d.
     if get16 d (dinode_off (of_nat inum)) = 0
     then thn (upd_buf bp (\<lambda>x. x\<lparr>b_data := put_bytes (b_data x) (dinode_off (of_nat inum)) (replicate 64 0)\<rparr>)) (
          thn (upd_buf bp (\<lambda>x. x\<lparr>b_data := put16 (b_data x) (dinode_off (of_nat inum)) type'\<rparr>)) (
          thn (log_write bp) (
          thn (brelse bp) (
          bnd (iget dev (of_nat inum)) (\<lambda>ip.
          ret (Some ip))))))
     else thn (brelse bp) (ret None))))"

definition ialloc :: "uint \<Rightarrow> ushort \<Rightarrow> (nat, 'z fsst_scheme) kop" where
  "ialloc dev type' =
     bnd (get_sb (\<lambda>x. unat (sb_ninodes x))) (\<lambda>n.
     bnd (for_until [1..<n] (ialloc_one dev type')) (\<lambda>r. case r of
       Some ip \<Rightarrow> ret ip
     | None \<Rightarrow> kpanic ''ialloc: no inodes''))"

definition iupdate :: "nat \<Rightarrow> (unit, 'z fsst_scheme) kop" where
  "iupdate ip =
     bnd (get_inode ip (\<lambda>x. x)) (\<lambda>x.
     bnd (get_sb (IBLOCK (i_inum x))) (\<lambda>k.
     bnd (bread (i_dev x) k) (\<lambda>bp.
     thn (upd_buf bp (\<lambda>y. y\<lparr>b_data := put_dinode (b_data y) (dinode_off (i_inum x)) x\<rparr>)) (
     thn (log_write bp)
         (brelse bp)))))"

definition idup :: "nat \<Rightarrow> (nat, 'z fsst_scheme) kop" where
  "idup ip =
     thn (acquire LkIcache) (
     thn (upd_inode ip (\<lambda>x. x\<lparr>i_ref := i_ref x + 1\<rparr>)) (
     thn (release LkIcache)
         (ret ip)))"

definition ilock :: "nat option \<Rightarrow> (unit, 'z fsst_scheme) kop" where
  "ilock q = (case q of None \<Rightarrow> kpanic ''ilock'' | Some ip \<Rightarrow>
     bnd (get_inode ip i_ref) (\<lambda>r.
     if r < 1 then kpanic ''ilock''
     else thn (acquiresleep (LkInodeSleep ip)) (
     bnd (get_inode ip (\<lambda>x. x)) (\<lambda>x.
     if i_valid x then ret ()
     else bnd (get_sb (IBLOCK (i_inum x))) (\<lambda>k.
          bnd (bread (i_dev x) k) (\<lambda>bp.
          bnd (get_buf bp b_data) (\<lambda>d.
          thn (upd_inode ip (get_dinode d (dinode_off (i_inum x)))) (
          thn (brelse bp) (
          thn (upd_inode ip (\<lambda>x. x\<lparr>i_valid := True\<rparr>)) (
          bnd (get_inode ip i_type) (\<lambda>ty.
          if ty = 0 then kpanic ''ilock: no type'' else ret ())))))))))))"

definition iunlock :: "nat option \<Rightarrow> (unit, 'z fsst_scheme) kop" where
  "iunlock q = (case q of None \<Rightarrow> kpanic ''iunlock'' | Some ip \<Rightarrow>
     bnd (holdingsleep (LkInodeSleep ip)) (\<lambda>h.
     bnd (get_inode ip i_ref) (\<lambda>r.
     if \<not> h \<or> r < 1 then kpanic ''iunlock''
     else releasesleep (LkInodeSleep ip))))"

section \<open>Inode content\<close>

definition set_addr :: "nat \<Rightarrow> nat \<Rightarrow> uint \<Rightarrow> (unit, 'z fsst_scheme) kop" where
  "set_addr ip i a = upd_inode ip (\<lambda>x. x\<lparr>i_addrs := (i_addrs x)[i := a]\<rparr>)"

definition bmap_addr :: "nat \<Rightarrow> nat \<Rightarrow> (uint, 'z fsst_scheme) kop" where
  "bmap_addr ip i =
     bnd (get_inode ip (\<lambda>x. i_addrs x ! i)) (\<lambda>a.
     if a = 0
     then bnd (get_inode ip i_dev) (\<lambda>dev.
          bnd (balloc dev) (\<lambda>a.
          thn (set_addr ip i a)
              (ret a)))
     else ret a)"

definition bmap :: "nat \<Rightarrow> nat \<Rightarrow> (uint, 'z fsst_scheme) kop" where
  "bmap ip bn =
     (if bn < NDIRECT then bmap_addr ip bn
      else if bn - NDIRECT < NINDIRECT
      then bnd (bmap_addr ip NDIRECT) (\<lambda>a.
           bnd (get_inode ip i_dev) (\<lambda>dev.
           bnd (bread dev a) (\<lambda>bp.
           bnd (get_buf bp (\<lambda>x. get32 (b_data x) (4 * (bn - NDIRECT)))) (\<lambda>a.
           bnd (if a = 0
                then bnd (balloc dev) (\<lambda>a.
                     thn (upd_buf bp (\<lambda>x. x\<lparr>b_data := put32 (b_data x) (4 * (bn - NDIRECT)) a\<rparr>)) (
                     thn (log_write bp)
                         (ret a)))
                else ret a) (\<lambda>a.
           thn (brelse bp)
               (ret a))))))
      else kpanic ''bmap: out of range'')"

definition itrunc :: "nat \<Rightarrow> (unit, 'z fsst_scheme) kop" where
  "itrunc ip =
     bnd (get_inode ip i_dev) (\<lambda>dev.
     thn (for_each [0..<NDIRECT] (\<lambda>i.
            bnd (get_inode ip (\<lambda>x. i_addrs x ! i)) (\<lambda>a.
            whenk (a \<noteq> 0) (thn (bfree dev a) (set_addr ip i 0))))) (
     bnd (get_inode ip (\<lambda>x. i_addrs x ! NDIRECT)) (\<lambda>a.
     thn (whenk (a \<noteq> 0) (
            bnd (bread dev a) (\<lambda>bp.
            thn (for_each [0..<NINDIRECT] (\<lambda>j.
                   bnd (get_buf bp (\<lambda>x. get32 (b_data x) (4 * j))) (\<lambda>aj.
                   whenk (aj \<noteq> 0) (bfree dev aj)))) (
            thn (brelse bp) (
            bnd (get_inode ip (\<lambda>x. i_addrs x ! NDIRECT)) (\<lambda>a.
            thn (bfree dev a)
                (set_addr ip NDIRECT 0))))))) (
     thn (upd_inode ip (\<lambda>x. x\<lparr>i_size := 0\<rparr>))
         (iupdate ip)))))"

definition iput :: "nat \<Rightarrow> (unit, 'z fsst_scheme) kop" where
  "iput ip =
     thn (acquire LkIcache) (
     bnd (get_inode ip (\<lambda>x. x)) (\<lambda>x.
     thn (whenk (i_ref x = 1 \<and> i_valid x \<and> i_nlink x = 0) (
            thn (acquiresleep (LkInodeSleep ip)) (
            thn (release LkIcache) (
            thn (itrunc ip) (
            thn (upd_inode ip (\<lambda>x. x\<lparr>i_type := 0\<rparr>)) (
            thn (iupdate ip) (
            thn (upd_inode ip (\<lambda>x. x\<lparr>i_valid := False\<rparr>)) (
            thn (releasesleep (LkInodeSleep ip))
                (acquire LkIcache))))))))) (
     thn (upd_inode ip (\<lambda>x. x\<lparr>i_ref := i_ref x - 1\<rparr>))
         (release LkIcache))))"

definition iunlockput :: "nat \<Rightarrow> (unit, 'z fsst_scheme) kop" where
  "iunlockput ip = thn (iunlock (Some ip)) (iput ip)"

definition stati :: "nat \<Rightarrow> (stat, 'z fsst_scheme) kop" where
  "stati ip = get_inode ip (\<lambda>x. \<lparr>st_dev = i_dev x, st_ino = i_inum x, st_type = i_type x, st_nlink = i_nlink x,
     st_size = ucast (i_size x)\<rparr>)"

text \<open>
  The loops of \<^verbatim>\<open>readi\<close> and \<^verbatim>\<open>writei\<close> with \<open>left\<close> bytes still to transfer. \<open>readi_loop\<close> gives the number
  of bytes copied and, for a kernel variable, the bytes; \<open>writei_loop\<close> the final value of \<^verbatim>\<open>off\<close>.
\<close>

function readi_loop :: "nat \<Rightarrow> copy_dst \<Rightarrow> nat \<Rightarrow> nat \<Rightarrow> (nat \<times> uchar list, 'z fsst_scheme) kop" where
  "readi_loop ip dst off left =
     (if left = 0 then ret (0, [])
      else (let m = min left (BSIZE - off mod BSIZE) in
           bnd (bmap ip (off div BSIZE)) (\<lambda>a.
           bnd (get_inode ip i_dev) (\<lambda>dev.
           bnd (bread dev a) (\<lambda>bp.
           bnd (get_buf bp b_data) (\<lambda>d.
           bnd (either_copyout dst (bytes_at d (off mod BSIZE) m)) (\<lambda>r.
           if r = - 1 then thn (brelse bp) (ret (0, []))
           else thn (brelse bp) (
                bnd (readi_loop ip (dst_plus dst m) (off + m) (left - m)) (\<lambda>(tot, bs).
                ret (m + tot, bytes_at d (off mod BSIZE) m @ bs))))))))))"
  by pat_completeness auto

termination readi_loop
  by (relation "measure (\<lambda>(_, _, _, left). left)") (auto simp: BSIZE_def)

definition readi :: "nat \<Rightarrow> copy_dst \<Rightarrow> uint \<Rightarrow> uint \<Rightarrow> (nat \<times> uchar list, 'z fsst_scheme) kop" where
  "readi ip dst off n =
     bnd (get_inode ip i_size) (\<lambda>sz.
     if off > sz \<or> off + n < off then ret (0, [])
     else readi_loop ip dst (unat off) (unat (if off + n > sz then sz - off else n)))"

function writei_loop :: "nat \<Rightarrow> copy_src \<Rightarrow> nat \<Rightarrow> nat \<Rightarrow> (nat, 'z fsst_scheme) kop" where
  "writei_loop ip src off left =
     (if left = 0 then ret off
      else (let m = min left (BSIZE - off mod BSIZE) in
           bnd (bmap ip (off div BSIZE)) (\<lambda>a.
           bnd (get_inode ip i_dev) (\<lambda>dev.
           bnd (bread dev a) (\<lambda>bp.
           bnd (either_copyin src m) (\<lambda>(r, bs).
           thn (upd_buf bp (\<lambda>x. x\<lparr>b_data := put_bytes (b_data x) (off mod BSIZE) bs\<rparr>)) (
           if r = - 1 then thn (brelse bp) (ret off)
           else thn (log_write bp) (
                thn (brelse bp)
                    (writei_loop ip (src_plus src m) (off + m) (left - m))))))))))"
  by pat_completeness auto

termination writei_loop
  by (relation "measure (\<lambda>(_, _, _, left). left)") (auto simp: BSIZE_def)

definition writei :: "nat \<Rightarrow> copy_src \<Rightarrow> uint \<Rightarrow> uint \<Rightarrow> (int, 'z fsst_scheme) kop" where
  "writei ip src off n =
     bnd (get_inode ip i_size) (\<lambda>sz.
     if off > sz \<or> off + n < off then ret (- 1)
     else if unat (off + n) > MAXFILE * BSIZE then ret (- 1)
     else bnd (writei_loop ip src (unat off) (unat n)) (\<lambda>off'.
          thn (whenk (n > 0) (
                 thn (upd_inode ip (\<lambda>x. if unat (i_size x) < off' then x\<lparr>i_size := of_nat off'\<rparr> else x))
                     (iupdate ip)))
              (ret (int (unat n)))))"

end
