(* ===== verification/Dir.thy ===== *)
theory Dir
  imports Fs
begin

text \<open>
  Directories and path names (the last part of \<^verbatim>\<open>kernel/fs.c\<close>). A directory entry is 16 bytes: the inode
  number and a name of at most \<^verbatim>\<open>DIRSIZ\<close> bytes, padded with nuls. The name buffer that \<^verbatim>\<open>skipelem\<close> fills is
  represented by the string it holds.
\<close>

section \<open>Directories\<close>

definition namecmp :: "uchar list \<Rightarrow> uchar list \<Rightarrow> int" where
  "namecmp s t = strncmp (cstr s) (cstr t) (of_nat DIRSIZ)"

definition de_inum :: "uchar list \<Rightarrow> ushort" where
  "de_inum de = get16 de 0"

definition de_name :: "uchar list \<Rightarrow> uchar list" where
  "de_name de = bytes_at de 2 DIRSIZ"

definition make_dirent :: "ushort \<Rightarrow> uchar list \<Rightarrow> uchar list" where
  "make_dirent inum nm = le_bytes 2 inum @ strncpy (cstr nm) (int DIRSIZ)"

text \<open>The offsets a loop \<^verbatim>\<open>for(off = 0; off < dp->size; off += sizeof(de))\<close> visits.\<close>

definition dirent_offs :: "uint \<Rightarrow> nat list" where
  "dirent_offs sz = map (\<lambda>k. 16 * k) [0..<(unat sz + 15) div 16]"

definition dirlookup_at :: "nat \<Rightarrow> uchar list \<Rightarrow> nat \<Rightarrow> ((nat \<times> nat) option, 'z fsst_scheme) kop" where
  "dirlookup_at dp nm off =
     bnd (readi dp DVar (of_nat off) 16) (\<lambda>(n, de).
     if n \<noteq> 16 then kpanic ''dirlookup read''
     else if de_inum de = 0 then ret None
     else if namecmp nm (de_name de) = 0
     then bnd (get_inode dp i_dev) (\<lambda>dev.
          bnd (iget dev (ucast (de_inum de))) (\<lambda>ip.
          ret (Some (ip, off))))
     else ret None)"

text \<open>The inode found, with the offset of its entry (\<^verbatim>\<open>*poff\<close>).\<close>

definition dirlookup :: "nat \<Rightarrow> uchar list \<Rightarrow> ((nat \<times> nat) option, 'z fsst_scheme) kop" where
  "dirlookup dp nm =
     bnd (get_inode dp i_type) (\<lambda>ty.
     if ty \<noteq> T_DIR then kpanic ''dirlookup not DIR''
     else bnd (get_inode dp i_size) (\<lambda>sz.
          for_until (dirent_offs sz) (dirlookup_at dp nm)))"

definition dirlink_at :: "nat \<Rightarrow> nat \<Rightarrow> (nat option, 'z fsst_scheme) kop" where
  "dirlink_at dp off =
     bnd (readi dp DVar (of_nat off) 16) (\<lambda>(n, de).
     if n \<noteq> 16 then kpanic ''dirlink read''
     else if de_inum de = 0 then ret (Some off) else ret None)"

definition dirlink :: "nat \<Rightarrow> uchar list \<Rightarrow> uint \<Rightarrow> (int, 'z fsst_scheme) kop" where
  "dirlink dp nm inum =
     bnd (dirlookup dp nm) (\<lambda>r. case r of
       Some (ip, _) \<Rightarrow> thn (iput ip) (ret (- 1))
     | None \<Rightarrow>
         bnd (get_inode dp i_size) (\<lambda>sz.
         bnd (for_until (dirent_offs sz) (dirlink_at dp)) (\<lambda>o'.
         bnd (writei dp (SVar (make_dirent (ucast inum) nm))
                (case o' of Some off \<Rightarrow> of_nat off | None \<Rightarrow> of_nat (16 * ((unat sz + 15) div 16))) 16) (\<lambda>n.
         if n \<noteq> 16 then kpanic ''dirlink'' else ret 0))))"

section \<open>Paths\<close>

definition slash :: uchar where "slash = 47"

text \<open>The rest of the path and the element, cut to \<^verbatim>\<open>DIRSIZ\<close> bytes.\<close>

definition skipelem :: "uchar list \<Rightarrow> (uchar list \<times> uchar list) option" where
  "skipelem path =
     (let path = dropWhile (\<lambda>c. c = slash) path in
      if path = [] then None
      else (let elem = takeWhile (\<lambda>c. c \<noteq> slash) path; path = dropWhile (\<lambda>c. c \<noteq> slash) path in
            Some (dropWhile (\<lambda>c. c = slash) path, if DIRSIZ \<le> length elem then take DIRSIZ elem else elem)))"

lemma length_dropWhile_less: "xs \<noteq> [] \<Longrightarrow> P (hd xs) \<Longrightarrow> length (dropWhile P xs) < length xs"
  by (cases xs) (simp_all add: le_imp_less_Suc length_dropWhile_le)

lemma skipelem_shorter: "skipelem path = Some (rest, elem) \<Longrightarrow> length rest < length path"
proof -
  assume s: "skipelem path = Some (rest, elem)"
  let ?p = "dropWhile (\<lambda>c. c = slash) path"
  have p: "?p \<noteq> []" using s by (auto simp: skipelem_def Let_def split: if_splits)
  have r: "rest = dropWhile (\<lambda>c. c = slash) (dropWhile (\<lambda>c. c \<noteq> slash) ?p)"
    using s p by (auto simp: skipelem_def Let_def split: if_splits)
  have "length (dropWhile (\<lambda>c. c \<noteq> slash) ?p) < length ?p"
    using p hd_dropWhile [of "\<lambda>c. c = slash" path] by (intro length_dropWhile_less) simp_all
  moreover have "length rest \<le> length (dropWhile (\<lambda>c. c \<noteq> slash) ?p)" unfolding r by (rule length_dropWhile_le)
  moreover have "length ?p \<le> length path" by (rule length_dropWhile_le)
  ultimately show ?thesis by linarith
qed

text \<open>The inode and the final element (\<^verbatim>\<open>name\<close>), from inode \<open>ip\<close> on; \<open>nm\<close> is what \<^verbatim>\<open>name\<close> held before.\<close>

function namex_loop :: "bool \<Rightarrow> uchar list \<Rightarrow> uchar list \<Rightarrow> nat \<Rightarrow> ((nat \<times> uchar list) option, 'z fsst_scheme) kop" where
  "namex_loop par path nm ip =
     (case skipelem path of
        None \<Rightarrow> if par then thn (iput ip) (ret None) else ret (Some (ip, nm))
      | Some (rest, elem) \<Rightarrow>
          thn (ilock (Some ip)) (
          bnd (get_inode ip i_type) (\<lambda>ty.
          if ty \<noteq> T_DIR then thn (iunlockput ip) (ret None)
          else if par \<and> rest = [] then thn (iunlock (Some ip)) (ret (Some (ip, elem)))
          else bnd (dirlookup ip elem) (\<lambda>r. case r of
                 None \<Rightarrow> thn (iunlockput ip) (ret None)
               | Some (next', _) \<Rightarrow>
                   thn (iunlockput ip)
                       (namex_loop par rest elem next')))))"
  by pat_completeness auto

termination namex_loop
  by (relation "measure (\<lambda>(_, path, _, _). length path)") (auto dest: skipelem_shorter)

definition namex :: "bool \<Rightarrow> uchar list \<Rightarrow> ((nat \<times> uchar list) option, 'z fsst_scheme) kop" where
  "namex par path =
     bnd (if path \<noteq> [] \<and> hd path = slash then iget ROOTDEV ROOTINO
          else bnd curproc (\<lambda>p.
               bnd (get_proc p cwd) (\<lambda>c. case c of
                 None \<Rightarrow> kpanic ''kerneltrap''
               | Some ip \<Rightarrow> idup ip))) (\<lambda>ip.
     namex_loop par path [] ip)"

definition namei :: "uchar list \<Rightarrow> (nat option, 'z fsst_scheme) kop" where
  "namei path = bnd (namex False path) (\<lambda>r. ret (map_option fst r))"

definition nameiparent :: "uchar list \<Rightarrow> ((nat \<times> uchar list) option, 'z fsst_scheme) kop" where
  "nameiparent path = namex True path"

end
