(* ===== verification/Console.thy ===== *)
theory Console
  imports Dir
begin

text \<open>
  The UART driver (\<^verbatim>\<open>kernel/uart.c\<close>), the console on top of it (\<^verbatim>\<open>console.c\<close>) and the kernel's \<^verbatim>\<open>printf\<close>
  (\<^verbatim>\<open>printf.c\<close>).

  The UART is a parameter of the state: \<open>lsr_tx\<close> says whether the next reads of the line status register
  find the transmitter idle (once the list is used up it stays idle, so spinning on it ends), \<open>uart_rx\<close>
  holds the bytes waiting to be received, and \<open>uwrites\<close> records the writes to its registers, newest first.
  Characters are bytes; \<open>str\<close> turns a literal into bytes. \<^verbatim>\<open>panic\<close> is the outcome \<open>Panic\<close>.
\<close>

section \<open>State\<close>

datatype devfun = DevConsole

record devsw =
  dev_read :: "devfun option"
  dev_write :: "devfun option"

record cst = fsst +
  uart_tx_buf :: "uchar list"
  uart_tx_w :: nat
  uart_tx_r :: nat
  panicked :: bool
  lsr_tx :: "bool list"
  uart_rx :: "uchar list"
  uwrites :: "(nat \<times> uchar) list"
  pr_locking :: bool
  cons_buf :: "uchar list"
  cons_r :: uint
  cons_w :: uint
  cons_e :: uint
  devsw_tab :: "nat \<Rightarrow> devsw"

definition str :: "string \<Rightarrow> uchar list" where
  "str = map of_char"

section \<open>UART\<close>

definition RHR :: nat where "RHR = 0"
definition THR :: nat where "THR = 0"
definition IER :: nat where "IER = 1"
definition IER_TX_ENABLE :: uchar where "IER_TX_ENABLE = push_bit 0 1"
definition IER_RX_ENABLE :: uchar where "IER_RX_ENABLE = push_bit 1 1"
definition FCR :: nat where "FCR = 2"
definition FCR_FIFO_ENABLE :: uchar where "FCR_FIFO_ENABLE = push_bit 0 1"
definition FCR_FIFO_CLEAR :: uchar where "FCR_FIFO_CLEAR = push_bit 1 3"
definition LCR :: nat where "LCR = 3"
definition LCR_EIGHT_BITS :: uchar where "LCR_EIGHT_BITS = push_bit 0 3"
definition LCR_BAUD_LATCH :: uchar where "LCR_BAUD_LATCH = push_bit 7 1"
definition LSR_RX_READY :: uchar where "LSR_RX_READY = push_bit 0 1"
definition LSR_TX_IDLE :: uchar where "LSR_TX_IDLE = push_bit 5 1"
definition UART_TX_BUF_SIZE :: nat where "UART_TX_BUF_SIZE = 32"

definition WriteReg :: "nat \<Rightarrow> uchar \<Rightarrow> (unit, 'z cst_scheme) kop" where
  "WriteReg reg v = modify (\<lambda>s. s\<lparr>uwrites := (reg, v) # uwrites s\<rparr>)"

definition ReadLSR :: "(uchar, 'z cst_scheme) kop" where
  "ReadLSR = (\<lambda>s.
     Ok ((if uart_rx s = [] then 0 else LSR_RX_READY) OR
         (if lsr_tx s = [] \<or> hd (lsr_tx s) then LSR_TX_IDLE else 0))
        (s\<lparr>lsr_tx := tl (lsr_tx s)\<rparr>))"

definition ReadRHR :: "(uchar, 'z cst_scheme) kop" where
  "ReadRHR = (\<lambda>s. Ok (case uart_rx s of [] \<Rightarrow> 0 | c # _ \<Rightarrow> c) (s\<lparr>uart_rx := tl (uart_rx s)\<rparr>))"

definition uartinit :: "(unit, 'z cst_scheme) kop" where
  "uartinit =
     thn (WriteReg IER 0) (
     thn (WriteReg LCR LCR_BAUD_LATCH) (
     thn (WriteReg 0 3) (
     thn (WriteReg 1 0) (
     thn (WriteReg LCR LCR_EIGHT_BITS) (
     thn (WriteReg FCR (FCR_FIFO_ENABLE OR FCR_FIFO_CLEAR)) (
     thn (WriteReg IER (IER_TX_ENABLE OR IER_RX_ENABLE))
         (initlock LkUart ''uart'')))))))"

text \<open>The buffer loses a byte in each round of \<^verbatim>\<open>uartstart\<close>, so \<open>UART_TX_BUF_SIZE\<close> rounds are enough.\<close>

fun uartstart_loop :: "nat \<Rightarrow> (unit, 'z cst_scheme) kop" where
  "uartstart_loop 0 = (\<lambda>_. Hang)"
| "uartstart_loop (Suc n) =
     bnd (gets uart_tx_w) (\<lambda>w.
     bnd (gets uart_tx_r) (\<lambda>r.
     if w = r then ret ()
     else bnd ReadLSR (\<lambda>l.
          if l AND LSR_TX_IDLE = 0 then ret ()
          else bnd (gets (\<lambda>s. uart_tx_buf s ! r)) (\<lambda>c.
               thn (modify (\<lambda>s. s\<lparr>uart_tx_r := (uart_tx_r s + 1) mod UART_TX_BUF_SIZE\<rparr>)) (
               thn (wakeup ChUartR) (
               thn (WriteReg THR c)
                   (uartstart_loop n)))))))"

definition uartstart :: "(unit, 'z cst_scheme) kop" where
  "uartstart = uartstart_loop UART_TX_BUF_SIZE"

definition uartputc_loop :: "uchar \<Rightarrow> (unit, 'z cst_scheme) kop" where
  "uartputc_loop c =
     bnd (gets uart_tx_w) (\<lambda>w.
     bnd (gets uart_tx_r) (\<lambda>r.
     if (w + 1) mod UART_TX_BUF_SIZE = r then sleep ChUartR LkUart
     else thn (modify (\<lambda>s. s\<lparr>uart_tx_buf := (uart_tx_buf s)[w := c]\<rparr>)) (
          thn (modify (\<lambda>s. s\<lparr>uart_tx_w := (uart_tx_w s + 1) mod UART_TX_BUF_SIZE\<rparr>)) (
          thn uartstart
              (release LkUart)))))"

definition uartputc :: "uchar \<Rightarrow> (unit, 'z cst_scheme) kop" where
  "uartputc c =
     thn (acquire LkUart) (
     bnd (gets panicked) (\<lambda>p.
     if p then (\<lambda>_. Hang) else uartputc_loop c))"

definition uartputc_resume :: "bool \<Rightarrow> uchar \<Rightarrow> (unit, 'z cst_scheme) kop" where
  "uartputc_resume ie c = thn (sleep_resume ie LkUart) (uartputc_loop c)"

definition wait_tx_idle :: "(unit, 'z cst_scheme) kop" where
  "wait_tx_idle = modify (\<lambda>s. s\<lparr>lsr_tx := tl (dropWhile (\<lambda>idle. \<not> idle) (lsr_tx s))\<rparr>)"

definition uartputc_sync :: "uchar \<Rightarrow> (unit, 'z cst_scheme) kop" where
  "uartputc_sync c =
     thn push_off (
     bnd (gets panicked) (\<lambda>p.
     if p then (\<lambda>_. Hang)
     else thn wait_tx_idle (
          thn (WriteReg THR c)
              pop_off)))"

definition uartgetc :: "(int, 'z cst_scheme) kop" where
  "uartgetc =
     bnd ReadLSR (\<lambda>l.
     if l AND 1 \<noteq> 0 then bnd ReadRHR (\<lambda>c. ret (uint c)) else ret (- 1))"

section \<open>Console output and printf\<close>

definition BACKSPACE :: int where "BACKSPACE = 0x100"

definition consputc :: "int \<Rightarrow> (unit, 'z cst_scheme) kop" where
  "consputc c =
     (if c = BACKSPACE
      then thn (uartputc_sync 8) (thn (uartputc_sync 32) (uartputc_sync 8))
      else uartputc_sync (of_int c))"

definition digits :: "uchar list" where
  "digits = str ''0123456789abcdef''"

text \<open>The digits of \<open>x\<close>, least significant first, as the \<^verbatim>\<open>do\<close> loop of \<^verbatim>\<open>printint\<close> stores them.\<close>

function digits_of :: "nat \<Rightarrow> nat \<Rightarrow> uchar list" where
  "digits_of base x = digits ! (x mod base) # (if x div base = 0 \<or> base < 2 then [] else digits_of base (x div base))"
  by pat_completeness auto

termination digits_of
proof (relation "measure snd", simp)
  fix base x :: nat
  assume a: "\<not> (x div base = 0 \<or> base < 2)"
  then have "x \<noteq> 0" by (cases "x = 0") simp_all
  with a have "x div base < x" by (intro div_less_dividend) auto
  then show "((base, x div base), base, x) \<in> measure snd" by simp
qed

definition printint_text :: "uint \<Rightarrow> nat \<Rightarrow> bool \<Rightarrow> uchar list" where
  "printint_text xx base sign =
     (let neg = sign \<and> sint xx < 0; x = (if neg then - xx else xx) in
      rev (digits_of base (unat x) @ (if neg then str ''-'' else [])))"

definition printint :: "uint \<Rightarrow> nat \<Rightarrow> bool \<Rightarrow> (unit, 'z cst_scheme) kop" where
  "printint xx base sign = for_each (printint_text xx base sign) (\<lambda>c. consputc (uint c))"

definition printptr :: "uint64 \<Rightarrow> (unit, 'z cst_scheme) kop" where
  "printptr x =
     thn (consputc 48) (
     thn (consputc 120)
         (for_each [0..<16] (\<lambda>i. consputc (uint (digits ! unat (drop_bit 60 (push_bit (4 * i) x)))))))"

datatype parg = PInt uint | PPtr uint64 | PStr "uchar list option"

fun printf_loop :: "uchar list \<Rightarrow> parg list \<Rightarrow> (unit, 'z cst_scheme) kop" where
  "printf_loop [] ap = ret ()"
| "printf_loop [c] ap = (if c \<noteq> 37 then thn (consputc (uint c)) (ret ()) else ret ())"
| "printf_loop (c # d # fmt) ap =
     (if c \<noteq> 37 then thn (consputc (uint c)) (printf_loop (d # fmt) ap)
      else if d = of_char CHR ''d'' then
        (case ap of PInt x # ap' \<Rightarrow> thn (printint x 10 True) (printf_loop fmt ap') | _ \<Rightarrow> kpanic ''undefined'')
      else if d = of_char CHR ''x'' then
        (case ap of PInt x # ap' \<Rightarrow> thn (printint x 16 True) (printf_loop fmt ap') | _ \<Rightarrow> kpanic ''undefined'')
      else if d = of_char CHR ''p'' then
        (case ap of PPtr x # ap' \<Rightarrow> thn (printptr x) (printf_loop fmt ap') | _ \<Rightarrow> kpanic ''undefined'')
      else if d = of_char CHR ''s'' then
        (case ap of
           PStr q # ap' \<Rightarrow>
             thn (for_each (case q of None \<Rightarrow> str ''(null)'' | Some t \<Rightarrow> t) (\<lambda>c. consputc (uint c)))
                 (printf_loop fmt ap')
         | _ \<Rightarrow> kpanic ''undefined'')
      else if d = 37 then thn (consputc 37) (printf_loop fmt ap)
      else thn (consputc 37) (thn (consputc (uint d)) (printf_loop fmt ap)))"

definition printf :: "uchar list \<Rightarrow> parg list \<Rightarrow> (unit, 'z cst_scheme) kop" where
  "printf fmt ap =
     bnd (gets pr_locking) (\<lambda>l.
     thn (whenk l (acquire LkPr)) (
     thn (printf_loop fmt ap)
         (whenk l (release LkPr))))"

definition printfinit :: "(unit, 'z cst_scheme) kop" where
  "printfinit =
     thn (initlock LkPr ''pr'')
         (modify (\<lambda>s. s\<lparr>pr_locking := True\<rparr>))"

text \<open>\<^verbatim>\<open>procdump\<close> of \<^verbatim>\<open>proc.c\<close>.\<close>

fun state_text :: "procstate \<Rightarrow> string" where
  "state_text UNUSED = ''unused''"
| "state_text SLEEPING = ''sleep ''"
| "state_text RUNNABLE = ''runble''"
| "state_text RUNNING = ''run   ''"
| "state_text ZOMBIE = ''zombie''"

definition procdump :: "(unit, 'z cst_scheme) kop" where
  "procdump =
     thn (printf ([10]) [])
         (for_each [0..<NPROC] (\<lambda>p.
            bnd (get_proc p (\<lambda>x. x)) (\<lambda>x.
            whenk (state x \<noteq> UNUSED) (
              thn (printf (str ''%d %s %s'') [PInt (of_int (pid x)), PStr (Some (str (state_text (state x)))),
                     PStr (Some (takeWhile (\<lambda>c. c \<noteq> 0) (pname x)))])
                  (printf ([10]) [])))))"

section \<open>Console\<close>

definition INPUT_BUF :: nat where "INPUT_BUF = 128"

text \<open>
  Waiting in the middle of a loop: the caller is switched out in \<^verbatim>\<open>sleep\<close>, and what it does when it is
  switched in again is the corresponding \<open>_resume\<close> definition.
\<close>

definition sleep_away :: "channel \<Rightarrow> lockid \<Rightarrow> ('a, 'z pst_scheme) kop" where
  "sleep_away ch lk = bnd (sleep ch lk) (\<lambda>_ _. Hang)"

fun consolewrite_loop :: "copy_src \<Rightarrow> nat \<Rightarrow> nat \<Rightarrow> (nat, 'z cst_scheme) kop" where
  "consolewrite_loop src i 0 = ret i"
| "consolewrite_loop src i (Suc n) =
     bnd (either_copyin src 1) (\<lambda>(r, bs).
     if r = - 1 then ret i
     else thn (uartputc (hd bs))
              (consolewrite_loop (src_plus src 1) (i + 1) n))"

definition consolewrite :: "copy_src \<Rightarrow> int \<Rightarrow> (int, 'z cst_scheme) kop" where
  "consolewrite src n =
     thn (acquire LkCons) (
     bnd (consolewrite_loop src 0 (nat n)) (\<lambda>i.
     thn (release LkCons)
         (ret (int i))))"

fun consoleread_loop :: "copy_dst \<Rightarrow> nat \<Rightarrow> nat \<Rightarrow> (int, 'z cst_scheme) kop" where
  "consoleread_loop dst target 0 = thn (release LkCons) (ret (int target))"
| "consoleread_loop dst target (Suc n) =
     bnd (gets cons_r) (\<lambda>r.
     bnd (gets cons_w) (\<lambda>w.
     if r = w
     then bnd curproc (\<lambda>p.
          bnd (get_proc p killed) (\<lambda>k.
          if k then thn (release LkCons) (ret (- 1))
          else sleep_away ChConsR LkCons))
     else bnd (gets (\<lambda>s. cons_buf s ! (unat r mod INPUT_BUF))) (\<lambda>c.
          thn (modify (\<lambda>s. s\<lparr>cons_r := cons_r s + 1\<rparr>)) (
          if c = 4
          then thn (whenk (Suc n < target) (modify (\<lambda>s. s\<lparr>cons_r := cons_r s - 1\<rparr>))) (
               thn (release LkCons)
                   (ret (int target - int (Suc n))))
          else bnd (either_copyout dst [c]) (\<lambda>e.
               if e = - 1
               then thn (release LkCons) (ret (int target - int (Suc n)))
               else if c = 10
               then thn (release LkCons) (ret (int target - int n))
               else consoleread_loop (dst_plus dst 1) target n)))))"

definition consoleread :: "copy_dst \<Rightarrow> int \<Rightarrow> (int, 'z cst_scheme) kop" where
  "consoleread dst n =
     thn (acquire LkCons)
         (if n > 0 then consoleread_loop dst (nat n) (nat n)
          else thn (release LkCons) (ret 0))"

definition consoleread_resume :: "bool \<Rightarrow> copy_dst \<Rightarrow> nat \<Rightarrow> nat \<Rightarrow> (int, 'z cst_scheme) kop" where
  "consoleread_resume ie dst target n = thn (sleep_resume ie LkCons) (consoleread_loop dst target n)"

text \<open>\<^verbatim>\<open>C('U')\<close> erases back to the start of the line; \<open>e - w\<close> bytes at most are erased.\<close>

fun kill_line :: "nat \<Rightarrow> (unit, 'z cst_scheme) kop" where
  "kill_line 0 = ret ()"
| "kill_line (Suc n) =
     bnd (gets (\<lambda>s. cons_e s \<noteq> cons_w s \<and> cons_buf s ! (unat (cons_e s - 1) mod INPUT_BUF) \<noteq> 10)) (\<lambda>more.
     whenk more (
       thn (modify (\<lambda>s. s\<lparr>cons_e := cons_e s - 1\<rparr>)) (
       thn (consputc BACKSPACE)
           (kill_line n))))"

definition cons_store :: "uchar \<Rightarrow> (unit, 'z cst_scheme) kop" where
  "cons_store c =
     thn (modify (\<lambda>s. s\<lparr>cons_buf := (cons_buf s)[unat (cons_e s) mod INPUT_BUF := c]\<rparr>)) (
     thn (modify (\<lambda>s. s\<lparr>cons_e := cons_e s + 1\<rparr>)) (
     bnd (gets (\<lambda>s. c = 10 \<or> c = 4 \<or> cons_e s = cons_r s + of_nat INPUT_BUF)) (\<lambda>full.
     whenk full (
       thn (modify (\<lambda>s. s\<lparr>cons_w := cons_e s\<rparr>))
           (wakeup ChConsR)))))"

definition consoleintr :: "int \<Rightarrow> (unit, 'z cst_scheme) kop" where
  "consoleintr c =
     thn (acquire LkCons) (
     thn (if c = 16 then procdump
          else if c = 21 then bnd (gets (\<lambda>s. unat (cons_e s - cons_w s))) kill_line
          else if c = 8 \<or> c = 127 then
            bnd (gets (\<lambda>s. cons_e s \<noteq> cons_w s)) (\<lambda>ne.
            whenk ne (
              thn (modify (\<lambda>s. s\<lparr>cons_e := cons_e s - 1\<rparr>))
                  (consputc BACKSPACE)))
          else bnd (gets (\<lambda>s. cons_e s - cons_r s < of_nat INPUT_BUF)) (\<lambda>room.
               whenk (c \<noteq> 0 \<and> room) (
                 (let c' = (if c = 13 then 10 else c) in
                  thn (consputc c') (cons_store (of_int c'))))))
         (release LkCons))"

definition consoleinit :: "(unit, 'z cst_scheme) kop" where
  "consoleinit =
     thn (initlock LkCons ''cons'') (
     thn uartinit
         (modify (\<lambda>s. s\<lparr>devsw_tab := (devsw_tab s)(1 := \<lparr>dev_read = Some DevConsole, dev_write = Some DevConsole\<rparr>)\<rparr>)))"

text \<open>Each round of \<^verbatim>\<open>uartintr\<close> takes one of the bytes waiting.\<close>

fun uartintr_loop :: "nat \<Rightarrow> (unit, 'z cst_scheme) kop" where
  "uartintr_loop 0 = (\<lambda>_. Hang)"
| "uartintr_loop (Suc n) =
     bnd uartgetc (\<lambda>c.
     if c = - 1 then ret ()
     else thn (consoleintr c) (uartintr_loop n))"

definition uartintr :: "(unit, 'z cst_scheme) kop" where
  "uartintr =
     bnd (gets (\<lambda>s. length (uart_rx s) + 1)) (\<lambda>n.
     thn (uartintr_loop n) (
     thn (acquire LkUart) (
     thn uartstart
         (release LkUart))))"

end
