(* ===== verification/File.thy ===== *)
theory File
  imports Console
begin

text \<open>
  Open files (\<^verbatim>\<open>kernel/file.c\<close>, \<^verbatim>\<open>file.h\<close>) and pipes (\<^verbatim>\<open>pipe.c\<close>). Files are numbered by their place in
  \<^verbatim>\<open>ftable.file\<close>; a pipe is identified by the page \<^verbatim>\<open>kalloc\<close> gave for it, and \<open>pipes\<close> holds the structures
  at those addresses. \<open>stack_pad\<close> stands for the four bytes of padding inside \<^verbatim>\<open>struct stat\<close>, which
  \<^verbatim>\<open>filestat\<close> copies out uninitialized.
\<close>

section \<open>Data\<close>

definition NFILE :: nat where "NFILE = 100"
definition NDEV :: int where "NDEV = 10"
definition PIPESIZE :: nat where "PIPESIZE = 512"

datatype ftype = FD_NONE | FD_PIPE | FD_INODE | FD_DEVICE

record kfile =
  f_type :: ftype
  f_ref :: int
  f_readable :: bool
  f_writable :: bool
  f_pipe :: addr
  f_ip :: "nat option"
  f_off :: uint
  f_major :: ushort

record pipe =
  pi_data :: "uchar list"
  pi_nread :: uint
  pi_nwrite :: uint
  pi_readopen :: bool
  pi_writeopen :: bool

record fist = cst +
  ftable :: "nat \<Rightarrow> kfile"
  pipes :: "addr \<Rightarrow> pipe"
  stack_pad :: "uchar list"

definition get_file :: "nat \<Rightarrow> (kfile \<Rightarrow> 'a) \<Rightarrow> ('a, 'z fist_scheme) kop" where
  "get_file f g = gets (\<lambda>s. g (ftable s f))"

definition upd_file :: "nat \<Rightarrow> (kfile \<Rightarrow> kfile) \<Rightarrow> (unit, 'z fist_scheme) kop" where
  "upd_file f g = modify (\<lambda>s. s\<lparr>ftable := (ftable s)(f := g (ftable s f))\<rparr>)"

definition get_pipe :: "addr \<Rightarrow> (pipe \<Rightarrow> 'a) \<Rightarrow> ('a, 'z fist_scheme) kop" where
  "get_pipe pi g = gets (\<lambda>s. g (pipes s pi))"

definition upd_pipe :: "addr \<Rightarrow> (pipe \<Rightarrow> pipe) \<Rightarrow> (unit, 'z fist_scheme) kop" where
  "upd_pipe pi g = modify (\<lambda>s. s\<lparr>pipes := (pipes s)(pi := g (pipes s pi))\<rparr>)"

section \<open>File structures\<close>

definition fileinit :: "(unit, 'z fist_scheme) kop" where
  "fileinit = initlock LkFtable ''ftable''"

definition filealloc :: "(nat option, 'z fist_scheme) kop" where
  "filealloc =
     thn (acquire LkFtable) (
     bnd (for_until [0..<NFILE] (\<lambda>f.
            bnd (get_file f f_ref) (\<lambda>r.
            if r = 0
            then thn (upd_file f (\<lambda>x. x\<lparr>f_ref := 1\<rparr>)) (
                 thn (release LkFtable)
                     (ret (Some f)))
            else ret None))) (\<lambda>r. case r of
       Some f \<Rightarrow> ret (Some f)
     | None \<Rightarrow> thn (release LkFtable) (ret None)))"

definition filedup :: "nat \<Rightarrow> (nat, 'z fist_scheme) kop" where
  "filedup f =
     thn (acquire LkFtable) (
     bnd (get_file f f_ref) (\<lambda>r.
     if r < 1 then kpanic ''filedup''
     else thn (upd_file f (\<lambda>x. x\<lparr>f_ref := f_ref x + 1\<rparr>)) (
          thn (release LkFtable)
              (ret f))))"

definition pipeclose :: "addr \<Rightarrow> bool \<Rightarrow> (unit, 'z fist_scheme) kop" where
  "pipeclose pi writable =
     thn (acquire (LkPipe pi)) (
     thn (if writable
          then thn (upd_pipe pi (\<lambda>x. x\<lparr>pi_writeopen := False\<rparr>)) (wakeup (ChPipeNread pi))
          else thn (upd_pipe pi (\<lambda>x. x\<lparr>pi_readopen := False\<rparr>)) (wakeup (ChPipeNwrite pi))) (
     bnd (get_pipe pi (\<lambda>x. \<not> pi_readopen x \<and> \<not> pi_writeopen x)) (\<lambda>closed.
     if closed then thn (release (LkPipe pi)) (kfree pi)
     else release (LkPipe pi))))"

definition fileclose :: "nat \<Rightarrow> (unit, 'z fist_scheme) kop" where
  "fileclose f =
     thn (acquire LkFtable) (
     bnd (get_file f f_ref) (\<lambda>r.
     if r < 1 then kpanic ''fileclose''
     else thn (upd_file f (\<lambda>x. x\<lparr>f_ref := f_ref x - 1\<rparr>)) (
          bnd (get_file f (\<lambda>x. x)) (\<lambda>ff.
          if f_ref ff > 0 then release LkFtable
          else thn (upd_file f (\<lambda>x. x\<lparr>f_ref := 0\<rparr>)) (
               thn (upd_file f (\<lambda>x. x\<lparr>f_type := FD_NONE\<rparr>)) (
               thn (release LkFtable)
                   (if f_type ff = FD_PIPE then pipeclose (f_pipe ff) (f_writable ff)
                    else if f_type ff = FD_INODE \<or> f_type ff = FD_DEVICE
                    then thn begin_op (
                         thn (case f_ip ff of None \<Rightarrow> kpanic ''kerneltrap'' | Some ip \<Rightarrow> iput ip)
                             end_op)
                    else ret ())))))))"

text \<open>\<^verbatim>\<open>struct stat\<close>: the padding follows \<^verbatim>\<open>nlink\<close>, so that \<^verbatim>\<open>size\<close> is aligned to 8 bytes.\<close>

definition stat_bytes :: "uchar list \<Rightarrow> stat \<Rightarrow> uchar list" where
  "stat_bytes pad st = le_bytes 4 (st_dev st) @ le_bytes 4 (st_ino st) @ le_bytes 2 (st_type st) @
     le_bytes 2 (st_nlink st) @ pad @ le_bytes 8 (st_size st)"

definition filestat :: "nat \<Rightarrow> uint64 \<Rightarrow> (int, 'z fist_scheme) kop" where
  "filestat f a =
     bnd myproc (\<lambda>op.
     bnd (get_file f (\<lambda>x. x)) (\<lambda>ff.
     if f_type ff = FD_INODE \<or> f_type ff = FD_DEVICE
     then thn (ilock (f_ip ff)) (
          bnd (stati (the (f_ip ff))) (\<lambda>st.
          thn (iunlock (f_ip ff)) (
          case op of None \<Rightarrow> kpanic ''kerneltrap'' | Some p \<Rightarrow>
          bnd (get_proc p ppagetable) (\<lambda>pt.
          bnd (gets stack_pad) (\<lambda>pad.
          bnd (copyout pt a (stat_bytes (take 4 pad) st)) (\<lambda>r.
          if r < 0 then ret (- 1) else ret 0))))))
     else ret (- 1)))"

section \<open>Pipes\<close>

definition pipealloc_bad :: "nat option \<Rightarrow> nat option \<Rightarrow> ((nat \<times> nat) option, 'z fist_scheme) kop" where
  "pipealloc_bad f0 f1 =
     thn (case f0 of None \<Rightarrow> ret () | Some f \<Rightarrow> fileclose f) (
     thn (case f1 of None \<Rightarrow> ret () | Some f \<Rightarrow> fileclose f)
         (ret None))"

text \<open>The two files, or nothing (the return value -1).\<close>

definition pipealloc :: "((nat \<times> nat) option, 'z fist_scheme) kop" where
  "pipealloc =
     bnd filealloc (\<lambda>q0. case q0 of None \<Rightarrow> pipealloc_bad None None | Some f0 \<Rightarrow>
     bnd filealloc (\<lambda>q1. case q1 of None \<Rightarrow> pipealloc_bad (Some f0) None | Some f1 \<Rightarrow>
     bnd kalloc (\<lambda>pi.
     if pi = 0 then pipealloc_bad (Some f0) (Some f1)
     else thn (upd_pipe pi (\<lambda>x. x\<lparr>pi_readopen := True\<rparr>)) (
          thn (upd_pipe pi (\<lambda>x. x\<lparr>pi_writeopen := True\<rparr>)) (
          thn (upd_pipe pi (\<lambda>x. x\<lparr>pi_nwrite := 0\<rparr>)) (
          thn (upd_pipe pi (\<lambda>x. x\<lparr>pi_nread := 0\<rparr>)) (
          thn (initlock (LkPipe pi) ''pipe'') (
          thn (upd_file f0 (\<lambda>x. x\<lparr>f_type := FD_PIPE\<rparr>)) (
          thn (upd_file f0 (\<lambda>x. x\<lparr>f_readable := True\<rparr>)) (
          thn (upd_file f0 (\<lambda>x. x\<lparr>f_writable := False\<rparr>)) (
          thn (upd_file f0 (\<lambda>x. x\<lparr>f_pipe := pi\<rparr>)) (
          thn (upd_file f1 (\<lambda>x. x\<lparr>f_type := FD_PIPE\<rparr>)) (
          thn (upd_file f1 (\<lambda>x. x\<lparr>f_readable := False\<rparr>)) (
          thn (upd_file f1 (\<lambda>x. x\<lparr>f_writable := True\<rparr>)) (
          thn (upd_file f1 (\<lambda>x. x\<lparr>f_pipe := pi\<rparr>))
              (ret (Some (f0, f1))))))))))))))))))"

fun pipewrite_loop :: "addr \<Rightarrow> nat \<Rightarrow> uint64 \<Rightarrow> nat \<Rightarrow> nat \<Rightarrow> (int, 'z fist_scheme) kop" where
  "pipewrite_loop pi pr a i 0 =
     thn (wakeup (ChPipeNread pi)) (
     thn (release (LkPipe pi))
         (ret (int i)))"
| "pipewrite_loop pi pr a i (Suc n) =
     bnd (get_pipe pi (\<lambda>x. x)) (\<lambda>x.
     if pi_nwrite x = pi_nread x + of_nat PIPESIZE
     then bnd (get_proc pr killed) (\<lambda>k.
          if \<not> pi_readopen x \<or> k
          then thn (release (LkPipe pi)) (ret (- 1))
          else thn (wakeup (ChPipeNread pi))
                   (sleep_away (ChPipeNwrite pi) (LkPipe pi)))
     else bnd (get_proc pr ppagetable) (\<lambda>pt.
          bnd (copyin pt (a + of_nat i) 1) (\<lambda>(r, bs).
          if r = - 1
          then thn (wakeup (ChPipeNread pi)) (
               thn (release (LkPipe pi))
                   (ret (int i)))
          else thn (upd_pipe pi (\<lambda>x. x\<lparr>pi_data := (pi_data x)[unat (pi_nwrite x) mod PIPESIZE := hd bs],
                      pi_nwrite := pi_nwrite x + 1\<rparr>))
                   (pipewrite_loop pi pr a (i + 1) n))))"

definition pipewrite :: "addr \<Rightarrow> uint64 \<Rightarrow> int \<Rightarrow> (int, 'z fist_scheme) kop" where
  "pipewrite pi a n =
     bnd curproc (\<lambda>pr.
     thn (acquire (LkPipe pi))
         (pipewrite_loop pi pr a 0 (nat n)))"

definition pipewrite_resume :: "bool \<Rightarrow> addr \<Rightarrow> nat \<Rightarrow> uint64 \<Rightarrow> nat \<Rightarrow> nat \<Rightarrow> (int, 'z fist_scheme) kop" where
  "pipewrite_resume ie pi pr a i left =
     thn (sleep_resume ie (LkPipe pi)) (pipewrite_loop pi pr a i left)"

fun piperead_loop :: "addr \<Rightarrow> nat \<Rightarrow> uint64 \<Rightarrow> nat \<Rightarrow> nat \<Rightarrow> (nat, 'z fist_scheme) kop" where
  "piperead_loop pi pr a i 0 = ret i"
| "piperead_loop pi pr a i (Suc n) =
     bnd (get_pipe pi (\<lambda>x. x)) (\<lambda>x.
     if pi_nread x = pi_nwrite x then ret i
     else thn (upd_pipe pi (\<lambda>x. x\<lparr>pi_nread := pi_nread x + 1\<rparr>)) (
          bnd (get_proc pr ppagetable) (\<lambda>pt.
          bnd (copyout pt (a + of_nat i) [pi_data x ! (unat (pi_nread x) mod PIPESIZE)]) (\<lambda>r.
          if r = - 1 then ret i
          else piperead_loop pi pr a (i + 1) n))))"

definition piperead_rest :: "addr \<Rightarrow> nat \<Rightarrow> uint64 \<Rightarrow> int \<Rightarrow> (int, 'z fist_scheme) kop" where
  "piperead_rest pi pr a n =
     bnd (get_pipe pi (\<lambda>x. x)) (\<lambda>x.
     if pi_nread x = pi_nwrite x \<and> pi_writeopen x
     then bnd (get_proc pr killed) (\<lambda>k.
          if k then thn (release (LkPipe pi)) (ret (- 1))
          else sleep_away (ChPipeNread pi) (LkPipe pi))
     else bnd (piperead_loop pi pr a 0 (nat n)) (\<lambda>i.
          thn (wakeup (ChPipeNwrite pi)) (
          thn (release (LkPipe pi))
              (ret (int i)))))"

definition piperead :: "addr \<Rightarrow> uint64 \<Rightarrow> int \<Rightarrow> (int, 'z fist_scheme) kop" where
  "piperead pi a n =
     bnd curproc (\<lambda>pr.
     thn (acquire (LkPipe pi))
         (piperead_rest pi pr a n))"

definition piperead_resume :: "bool \<Rightarrow> addr \<Rightarrow> nat \<Rightarrow> uint64 \<Rightarrow> int \<Rightarrow> (int, 'z fist_scheme) kop" where
  "piperead_resume ie pi pr a n = thn (sleep_resume ie (LkPipe pi)) (piperead_rest pi pr a n)"

section \<open>Reading and writing files\<close>

definition has_dev :: "(devsw \<Rightarrow> devfun option) \<Rightarrow> ushort \<Rightarrow> (bool, 'z fist_scheme) kop" where
  "has_dev sel major =
     gets (\<lambda>s. 0 \<le> sint major \<and> sint major < NDEV \<and> sel (devsw_tab s (unat major)) \<noteq> None)"

definition fileread :: "nat \<Rightarrow> uint64 \<Rightarrow> int \<Rightarrow> (int, 'z fist_scheme) kop" where
  "fileread f a n =
     bnd (get_file f (\<lambda>x. x)) (\<lambda>ff.
     if \<not> f_readable ff then ret (- 1)
     else case f_type ff of
       FD_PIPE \<Rightarrow> piperead (f_pipe ff) a n
     | FD_DEVICE \<Rightarrow> bnd (has_dev dev_read (f_major ff)) (\<lambda>ok. if \<not> ok then ret (- 1) else consoleread (DUser a) n)
     | FD_INODE \<Rightarrow>
         thn (ilock (f_ip ff)) (
         bnd (readi (the (f_ip ff)) (DUser a) (f_off ff) (of_int n)) (\<lambda>(r, _).
         thn (whenk (0 < r) (upd_file f (\<lambda>x. x\<lparr>f_off := f_off x + of_nat r\<rparr>))) (
         thn (iunlock (f_ip ff))
             (ret (int r)))))
     | FD_NONE \<Rightarrow> kpanic ''fileread'')"

definition write_max :: nat where
  "write_max = ((MAXOPBLOCKS - 1 - 1 - 2) div 2) * BSIZE"

function filewrite_loop :: "nat \<Rightarrow> nat option \<Rightarrow> uint64 \<Rightarrow> nat \<Rightarrow> nat \<Rightarrow> (nat, 'z fist_scheme) kop" where
  "filewrite_loop f q a i left =
     (if left = 0 then ret i
      else (let n1 = min left write_max in
           thn begin_op (
           thn (ilock q) (
           bnd (get_file f f_off) (\<lambda>off.
           bnd (writei (the q) (SUser (a + of_nat i)) off (of_nat n1)) (\<lambda>r.
           thn (whenk (0 < r) (upd_file f (\<lambda>x. x\<lparr>f_off := f_off x + of_int r\<rparr>))) (
           thn (iunlock q) (
           thn end_op (
           if r < 0 then ret i
           else if r \<noteq> int n1 then kpanic ''short filewrite''
           else filewrite_loop f q a (i + n1) (left - n1))))))))))"
  by pat_completeness auto

termination filewrite_loop
  by (relation "measure (\<lambda>(_, _, _, _, left). left)") (auto simp: write_max_def MAXOPBLOCKS_def BSIZE_def)

definition filewrite :: "nat \<Rightarrow> uint64 \<Rightarrow> int \<Rightarrow> (int, 'z fist_scheme) kop" where
  "filewrite f a n =
     bnd (get_file f (\<lambda>x. x)) (\<lambda>ff.
     if \<not> f_writable ff then ret (- 1)
     else case f_type ff of
       FD_PIPE \<Rightarrow> pipewrite (f_pipe ff) a n
     | FD_DEVICE \<Rightarrow> bnd (has_dev dev_write (f_major ff)) (\<lambda>ok. if \<not> ok then ret (- 1) else consolewrite (SUser a) n)
     | FD_INODE \<Rightarrow> bnd (filewrite_loop f (f_ip ff) a 0 (nat n)) (\<lambda>i. ret (if int i = n then n else - 1))
     | FD_NONE \<Rightarrow> kpanic ''filewrite'')"

end
