(* ===== verification/Proc.thy ===== *)
theory Proc
  imports File
begin

text \<open>
  The rest of \<^verbatim>\<open>kernel/proc.c\<close>: creating, growing, ending and waiting for processes. Trap frames are in
  physical memory, at the offsets \<^verbatim>\<open>proc.h\<close> gives; a null trap frame or parent pointer that the code
  follows makes the kernel trap.
\<close>

section \<open>Trap frames (proc.h)\<close>

definition TF_kernel_satp :: uint64 where "TF_kernel_satp = 0"
definition TF_kernel_sp :: uint64 where "TF_kernel_sp = 8"
definition TF_kernel_trap :: uint64 where "TF_kernel_trap = 16"
definition TF_epc :: uint64 where "TF_epc = 24"
definition TF_kernel_hartid :: uint64 where "TF_kernel_hartid = 32"
definition TF_sp :: uint64 where "TF_sp = 48"
definition TF_a0 :: uint64 where "TF_a0 = 112"
definition TF_a1 :: uint64 where "TF_a1 = 120"
definition TF_a2 :: uint64 where "TF_a2 = 128"
definition TF_a3 :: uint64 where "TF_a3 = 136"
definition TF_a4 :: uint64 where "TF_a4 = 144"
definition TF_a5 :: uint64 where "TF_a5 = 152"
definition TF_a7 :: uint64 where "TF_a7 = 168"
definition TF_size :: nat where "TF_size = 288"

definition deref :: "'a option \<Rightarrow> ('a, 's) kop" where
  "deref q = (case q of None \<Rightarrow> kpanic ''kerneltrap'' | Some x \<Rightarrow> ret x)"

definition trapframe :: "nat \<Rightarrow> (addr, 'z mst_scheme) kop" where
  "trapframe p = bnd (get_proc p ptrapframe) (\<lambda>t. if t = 0 then kpanic ''kerneltrap'' else ret t)"

definition tf_load :: "nat \<Rightarrow> uint64 \<Rightarrow> (uint64, 'z mst_scheme) kop" where
  "tf_load p off = bnd (trapframe p) (\<lambda>t. load64 (t + off))"

definition tf_store :: "nat \<Rightarrow> uint64 \<Rightarrow> uint64 \<Rightarrow> (unit, 'z mst_scheme) kop" where
  "tf_store p off v = bnd (trapframe p) (\<lambda>t. store64 (t + off) v)"

section \<open>Creating and freeing\<close>

definition allocpid :: "(int, 'z pst_scheme) kop" where
  "allocpid =
     thn (acquire LkPid) (
     bnd (gets nextpid) (\<lambda>pid'.
     thn (modify (\<lambda>s. s\<lparr>nextpid := nextpid s + 1\<rparr>)) (
     thn (release LkPid)
         (ret pid'))))"

definition procinit :: "(unit, 'z vst_scheme) kop" where
  "procinit =
     thn (initlock LkPid ''nextpid'') (
     thn (for_each [0..<NPROC] (\<lambda>p.
            thn (initlock (LkProc p) ''proc'') (
            bnd kalloc (\<lambda>pa.
            if pa = 0 then kpanic ''kalloc''
            else thn (kvmmap (KSTACK p) pa PGSIZE (PTE_R OR PTE_W))
                     (upd_proc p (\<lambda>x. x\<lparr>kstack := KSTACK p\<rparr>))))))
         kvminithart)"

definition proc_pagetable :: "nat \<Rightarrow> (addr, 'z kmst_scheme) kop" where
  "proc_pagetable p =
     bnd uvmcreate (\<lambda>pagetable.
     if pagetable = 0 then ret 0
     else bnd (gets (\<lambda>s. sym_trampoline (syms (mach s)))) (\<lambda>trampoline.
          bnd (mappages pagetable TRAMPOLINE PGSIZE trampoline (PTE_R OR PTE_X)) (\<lambda>r.
          if r < 0 then thn (uvmfree pagetable 0) (ret 0)
          else bnd (get_proc p ptrapframe) (\<lambda>tf.
               bnd (mappages pagetable TRAPFRAME PGSIZE tf (PTE_R OR PTE_W)) (\<lambda>r.
               if r < 0
               then thn (uvmunmap pagetable TRAMPOLINE 1 False) (
                    thn (uvmfree pagetable 0)
                        (ret 0))
               else ret pagetable)))))"

definition proc_freepagetable :: "addr \<Rightarrow> uint64 \<Rightarrow> (unit, 'z kmst_scheme) kop" where
  "proc_freepagetable pagetable sz =
     thn (uvmunmap pagetable TRAMPOLINE 1 False) (
     thn (uvmunmap pagetable TRAPFRAME 1 False)
         (uvmfree pagetable sz))"

definition freeproc :: "nat \<Rightarrow> (unit, 'z kmst_scheme) kop" where
  "freeproc p =
     bnd (get_proc p ptrapframe) (\<lambda>tf.
     thn (whenk (tf \<noteq> 0) (kfree tf)) (
     thn (upd_proc p (\<lambda>x. x\<lparr>ptrapframe := 0\<rparr>)) (
     bnd (get_proc p ppagetable) (\<lambda>pt.
     bnd (get_proc p psz) (\<lambda>sz.
     thn (whenk (pt \<noteq> 0) (proc_freepagetable pt sz)) (
     thn (upd_proc p (\<lambda>x. x\<lparr>ppagetable := 0\<rparr>)) (
     thn (upd_proc p (\<lambda>x. x\<lparr>psz := 0\<rparr>)) (
     thn (upd_proc p (\<lambda>x. x\<lparr>pid := 0\<rparr>)) (
     thn (upd_proc p (\<lambda>x. x\<lparr>parent := None\<rparr>)) (
     thn (upd_proc p (\<lambda>x. x\<lparr>pname := (pname x)[0 := 0]\<rparr>)) (
     thn (upd_proc p (\<lambda>x. x\<lparr>chan := None\<rparr>)) (
     thn (upd_proc p (\<lambda>x. x\<lparr>killed := False\<rparr>)) (
     thn (upd_proc p (\<lambda>x. x\<lparr>xstate := 0\<rparr>))
         (upd_proc p (\<lambda>x. x\<lparr>state := UNUSED\<rparr>)))))))))))))))"

definition find_unused :: "nat \<Rightarrow> (nat option, 'z pst_scheme) kop" where
  "find_unused p =
     thn (acquire (LkProc p)) (
     bnd (get_proc p state) (\<lambda>st.
     if st = UNUSED then ret (Some p)
     else thn (release (LkProc p)) (ret None)))"

definition empty_context :: kcontext where
  "empty_context = \<lparr>ra = 0, sp = 0, s0 = 0, s1 = 0, s2 = 0, s3 = 0, s4 = 0, s5 = 0, s6 = 0, s7 = 0, s8 = 0,
     s9 = 0, s10 = 0, s11 = 0\<rparr>"

definition allocproc :: "(nat option, 'z kmst_scheme) kop" where
  "allocproc =
     bnd (for_until [0..<NPROC] find_unused) (\<lambda>r. case r of
       None \<Rightarrow> ret None
     | Some p \<Rightarrow>
         bnd allocpid (\<lambda>i.
         thn (upd_proc p (\<lambda>x. x\<lparr>pid := i\<rparr>)) (
         bnd kalloc (\<lambda>tf.
         thn (upd_proc p (\<lambda>x. x\<lparr>ptrapframe := tf\<rparr>)) (
         if tf = 0 then thn (release (LkProc p)) (ret None)
         else bnd (proc_pagetable p) (\<lambda>pt.
              thn (upd_proc p (\<lambda>x. x\<lparr>ppagetable := pt\<rparr>)) (
              if pt = 0
              then thn (freeproc p) (
                   thn (release (LkProc p))
                       (ret None))
              else bnd (gets (\<lambda>s. sym_forkret (syms (mach s)))) (\<lambda>forkret.
                   thn (upd_proc p (\<lambda>x. x\<lparr>pcontext := empty_context\<rparr>)) (
                   thn (upd_proc p (\<lambda>x. x\<lparr>pcontext := (pcontext x)\<lparr>ra := forkret\<rparr>\<rparr>)) (
                   thn (upd_proc p (\<lambda>x. x\<lparr>pcontext := (pcontext x)\<lparr>sp := kstack x + PGSIZE\<rparr>\<rparr>))
                       (ret (Some p))))))))))))"

definition initcode :: "uchar list" where
  "initcode =
     [0x17, 0x05, 0x00, 0x00, 0x13, 0x05, 0x45, 0x02,
      0x97, 0x05, 0x00, 0x00, 0x93, 0x85, 0x35, 0x02,
      0x93, 0x08, 0x70, 0x00, 0x73, 0x00, 0x00, 0x00,
      0x93, 0x08, 0x20, 0x00, 0x73, 0x00, 0x00, 0x00,
      0xef, 0xf0, 0x9f, 0xff, 0x2f, 0x69, 0x6e, 0x69,
      0x74, 0x00, 0x00, 0x24, 0x00, 0x00, 0x00, 0x00,
      0x00, 0x00, 0x00, 0x00]"

text \<open>\<^verbatim>\<open>safestrcpy\<close> into the 16 bytes of \<^verbatim>\<open>p->name\<close>; bytes after those stored keep their value.\<close>

definition set_name :: "nat \<Rightarrow> uchar list \<Rightarrow> (unit, 'z pst_scheme) kop" where
  "set_name p nm = upd_proc p (\<lambda>x. x\<lparr>pname := (let bs = safestrcpy (cstr nm) 16 in bs @ drop (length bs) (pname x))\<rparr>)"

definition userinit :: "(unit, 'z fist_scheme) kop" where
  "userinit =
     bnd allocproc (\<lambda>q.
     thn (modify (\<lambda>s. s\<lparr>initproc := q\<rparr>)) (
     bnd (deref q) (\<lambda>p.
     bnd (get_proc p ppagetable) (\<lambda>pt.
     thn (uvminit pt initcode) (
     thn (upd_proc p (\<lambda>x. x\<lparr>psz := PGSIZE\<rparr>)) (
     thn (tf_store p TF_epc 0) (
     thn (tf_store p TF_sp PGSIZE) (
     thn (set_name p (str ''initcode'')) (
     bnd (namei (str ''/'')) (\<lambda>c.
     thn (upd_proc p (\<lambda>x. x\<lparr>cwd := c\<rparr>)) (
     thn (upd_proc p (\<lambda>x. x\<lparr>state := RUNNABLE\<rparr>))
         (release (LkProc p)))))))))))))"

text \<open>\<^verbatim>\<open>sz\<close> is a 32-bit variable here, while \<^verbatim>\<open>p->sz\<close> has 64 bits.\<close>

definition growproc :: "int \<Rightarrow> (int, 'z kmst_scheme) kop" where
  "growproc n =
     bnd curproc (\<lambda>p.
     bnd (get_proc p (\<lambda>x. ucast (psz x) :: uint)) (\<lambda>sz.
     bnd (get_proc p ppagetable) (\<lambda>pt.
     if n > 0
     then bnd (uvmalloc pt (ucast sz) (ucast (sz + of_int n))) (\<lambda>r.
          if (ucast r :: uint) = 0 then ret (- 1)
          else thn (upd_proc p (\<lambda>x. x\<lparr>psz := ucast (ucast r :: uint)\<rparr>)) (ret 0))
     else if n < 0
     then bnd (uvmdealloc pt (ucast sz) (ucast (sz + of_int n))) (\<lambda>r.
          thn (upd_proc p (\<lambda>x. x\<lparr>psz := ucast (ucast r :: uint)\<rparr>)) (ret 0))
     else thn (upd_proc p (\<lambda>x. x\<lparr>psz := ucast sz\<rparr>)) (ret 0))))"

section \<open>Fork, exit and wait\<close>

definition fork_file :: "nat \<Rightarrow> nat \<Rightarrow> nat \<Rightarrow> (unit, 'z fist_scheme) kop" where
  "fork_file p np i =
     bnd (get_proc p (\<lambda>x. ofile x ! i)) (\<lambda>q. case q of
       None \<Rightarrow> ret ()
     | Some f \<Rightarrow>
         bnd (filedup f) (\<lambda>f.
         upd_proc np (\<lambda>x. x\<lparr>ofile := (ofile x)[i := Some f]\<rparr>)))"

definition fork :: "(int, 'z fist_scheme) kop" where
  "fork =
     bnd curproc (\<lambda>p.
     bnd allocproc (\<lambda>q. case q of
       None \<Rightarrow> ret (- 1)
     | Some np \<Rightarrow>
         bnd (get_proc p ppagetable) (\<lambda>pt.
         bnd (get_proc np ppagetable) (\<lambda>npt.
         bnd (get_proc p psz) (\<lambda>sz.
         bnd (uvmcopy pt npt sz) (\<lambda>r.
         if r < 0
         then thn (freeproc np) (
              thn (release (LkProc np))
                  (ret (- 1)))
         else thn (upd_proc np (\<lambda>x. x\<lparr>psz := sz\<rparr>)) (
              thn (upd_proc np (\<lambda>x. x\<lparr>parent := Some p\<rparr>)) (
              bnd (trapframe np) (\<lambda>ntf.
              bnd (trapframe p) (\<lambda>tf.
              thn (modify (\<lambda>s. s\<lparr>mem := mem_write (mem s) ntf (mem_read (mem s) tf TF_size)\<rparr>)) (
              thn (tf_store np TF_a0 0) (
              thn (for_each [0..<NOFILE] (fork_file p np)) (
              bnd (get_proc p cwd) (\<lambda>c.
              bnd (deref c) (\<lambda>ip.
              bnd (idup ip) (\<lambda>ip.
              thn (upd_proc np (\<lambda>x. x\<lparr>cwd := Some ip\<rparr>)) (
              bnd (get_proc p pname) (\<lambda>nm.
              thn (set_name np nm) (
              bnd (get_proc np pid) (\<lambda>pid'.
              thn (upd_proc np (\<lambda>x. x\<lparr>state := RUNNABLE\<rparr>)) (
              thn (release (LkProc np))
                  (ret pid')))))))))))))))))))))) "

definition reparent :: "nat \<Rightarrow> (unit, 'z pst_scheme) kop" where
  "reparent p =
     for_each [0..<NPROC] (\<lambda>pp.
       bnd (get_proc pp parent) (\<lambda>q.
       whenk (q = Some p) (
         thn (acquire (LkProc pp)) (
         bnd (gets initproc) (\<lambda>ip.
         thn (upd_proc pp (\<lambda>x. x\<lparr>parent := ip\<rparr>))
             (release (LkProc pp)))))))"

definition exit_file :: "nat \<Rightarrow> nat \<Rightarrow> (unit, 'z fist_scheme) kop" where
  "exit_file p fd =
     bnd (get_proc p (\<lambda>x. ofile x ! fd)) (\<lambda>q. case q of
       None \<Rightarrow> ret ()
     | Some f \<Rightarrow>
         thn (fileclose f)
             (upd_proc p (\<lambda>x. x\<lparr>ofile := (ofile x)[fd := None]\<rparr>)))"

definition exit :: "int \<Rightarrow> ('a, 'z fist_scheme) kop" where
  "exit status =
     bnd curproc (\<lambda>p.
     bnd (gets initproc) (\<lambda>ip.
     if ip = Some p then kpanic ''init exiting''
     else thn (for_each [0..<NOFILE] (exit_file p)) (
          thn begin_op (
          bnd (get_proc p cwd) (\<lambda>c.
          bnd (deref c) (\<lambda>c.
          thn (iput c) (
          thn end_op (
          thn (upd_proc p (\<lambda>x. x\<lparr>cwd := None\<rparr>)) (
          bnd (deref ip) (\<lambda>ip.
          thn (acquire (LkProc ip)) (
          thn (wakeup1 ip) (
          thn (release (LkProc ip)) (
          thn (acquire (LkProc p)) (
          bnd (get_proc p parent) (\<lambda>q.
          thn (release (LkProc p)) (
          bnd (deref q) (\<lambda>original_parent.
          thn (acquire (LkProc original_parent)) (
          thn (acquire (LkProc p)) (
          thn (reparent p) (
          thn (wakeup1 original_parent) (
          thn (upd_proc p (\<lambda>x. x\<lparr>xstate := status\<rparr>)) (
          thn (upd_proc p (\<lambda>x. x\<lparr>state := ZOMBIE\<rparr>)) (
          thn (release (LkProc original_parent)) (
          thn sched
              (kpanic ''zombie exit'')))))))))))))))))))))))))"

text \<open>One scan of the table in \<^verbatim>\<open>wait\<close>: the value to return, or whether there are children.\<close>

fun wait_scan :: "nat \<Rightarrow> uint64 \<Rightarrow> nat list \<Rightarrow> bool \<Rightarrow> (int + bool, 'z kmst_scheme) kop" where
  "wait_scan p a [] havekids = ret (Inr havekids)"
| "wait_scan p a (np # nps) havekids =
     bnd (get_proc np parent) (\<lambda>q.
     if q \<noteq> Some p then wait_scan p a nps havekids
     else thn (acquire (LkProc np)) (
          bnd (get_proc np state) (\<lambda>st.
          if st = ZOMBIE
          then bnd (get_proc np pid) (\<lambda>pid'.
               bnd (get_proc p ppagetable) (\<lambda>pt.
               bnd (get_proc np xstate) (\<lambda>xs.
               bnd (if a \<noteq> 0 then copyout pt a (le_bytes 4 (of_int xs :: uint)) else ret 0) (\<lambda>r.
               if r < 0
               then thn (release (LkProc np)) (
                    thn (release (LkProc p))
                        (ret (Inl (- 1))))
               else thn (freeproc np) (
                    thn (release (LkProc np)) (
                    thn (release (LkProc p))
                        (ret (Inl pid'))))))))
          else thn (release (LkProc np))
                   (wait_scan p a nps True))))"

definition wait_loop :: "nat \<Rightarrow> uint64 \<Rightarrow> (int, 'z kmst_scheme) kop" where
  "wait_loop p a =
     bnd (wait_scan p a [0..<NPROC] False) (\<lambda>r. case r of
       Inl v \<Rightarrow> ret v
     | Inr havekids \<Rightarrow>
         bnd (get_proc p killed) (\<lambda>k.
         if \<not> havekids \<or> k
         then thn (release (LkProc p)) (ret (- 1))
         else sleep_away (ChProc p) (LkProc p)))"

definition wait :: "uint64 \<Rightarrow> (int, 'z kmst_scheme) kop" where
  "wait a =
     bnd curproc (\<lambda>p.
     thn (acquire (LkProc p))
         (wait_loop p a))"

definition wait_resume :: "bool \<Rightarrow> nat \<Rightarrow> uint64 \<Rightarrow> (int, 'z kmst_scheme) kop" where
  "wait_resume ie p a = thn (sleep_resume ie (LkProc p)) (wait_loop p a)"

end
