(* ===== verification/Exec.thy ===== *)
theory Exec
  imports Proc
begin

text \<open>
  Loading a program (\<^verbatim>\<open>kernel/exec.c\<close>, \<^verbatim>\<open>elf.h\<close>) and fetching system call arguments (the first half of
  \<^verbatim>\<open>syscall.c\<close>). The strings of \<^verbatim>\<open>argv\<close> are in pages of physical memory; \<open>argv\<close> is the list of their
  addresses, without the final null. The \<^verbatim>\<open>goto bad\<close> of \<^verbatim>\<open>exec\<close> is \<open>exec_bad\<close>.
\<close>

section \<open>Arguments (syscall.c)\<close>

definition fetchaddr :: "uint64 \<Rightarrow> (uint64 option, 'z kmst_scheme) kop" where
  "fetchaddr a =
     bnd curproc (\<lambda>p.
     bnd (get_proc p psz) (\<lambda>sz.
     if a \<ge> sz \<or> a + 8 > sz then ret None
     else bnd (get_proc p ppagetable) (\<lambda>pt.
          bnd (copyin pt a 8) (\<lambda>(r, bs).
          if r \<noteq> 0 then ret None else ret (Some (le_word bs))))))"

text \<open>The return value, and the bytes stored in \<^verbatim>\<open>buf\<close>.\<close>

definition fetchstr :: "uint64 \<Rightarrow> nat \<Rightarrow> (int \<times> uchar list, 'z kmst_scheme) kop" where
  "fetchstr a mx =
     bnd curproc (\<lambda>p.
     bnd (get_proc p ppagetable) (\<lambda>pt.
     bnd (copyinstr pt a mx) (\<lambda>(err, bs).
     if err < 0 then ret (err, bs)
     else ret (int (length (takeWhile (\<lambda>c. c \<noteq> 0) bs)), bs))))"

definition argraw :: "nat \<Rightarrow> (uint64, 'z mst_scheme) kop" where
  "argraw n =
     bnd curproc (\<lambda>p.
     if n = 0 then tf_load p TF_a0
     else if n = 1 then tf_load p TF_a1
     else if n = 2 then tf_load p TF_a2
     else if n = 3 then tf_load p TF_a3
     else if n = 4 then tf_load p TF_a4
     else if n = 5 then tf_load p TF_a5
     else kpanic ''argraw'')"

definition argint :: "nat \<Rightarrow> (int, 'z mst_scheme) kop" where
  "argint n = bnd (argraw n) (\<lambda>v. ret (sint (ucast v :: uint)))"

definition argaddr :: "nat \<Rightarrow> (uint64, 'z mst_scheme) kop" where
  "argaddr n = argraw n"

text \<open>The string, when the result is not negative.\<close>

definition argstr :: "nat \<Rightarrow> nat \<Rightarrow> (uchar list option, 'z kmst_scheme) kop" where
  "argstr n mx =
     bnd (argaddr n) (\<lambda>a.
     bnd (fetchstr a mx) (\<lambda>(r, bs).
     if r < 0 then ret None else ret (Some (takeWhile (\<lambda>c. c \<noteq> 0) bs))))"

section \<open>exec\<close>

definition ELF_MAGIC :: uint where "ELF_MAGIC = 0x464C457F"
definition ELF_PROG_LOAD :: uint where "ELF_PROG_LOAD = 1"
definition MAXARG :: nat where "MAXARG = 32"

record elfhdr =
  elf_magic :: uint
  elf_entry :: uint64
  elf_phoff :: uint64
  elf_phnum :: ushort

record proghdr =
  ph_type :: uint
  ph_flags :: uint
  ph_off :: uint64
  ph_vaddr :: uint64
  ph_paddr :: uint64
  ph_filesz :: uint64
  ph_memsz :: uint64
  ph_align :: uint64

definition elfhdr_of :: "uchar list \<Rightarrow> elfhdr" where
  "elfhdr_of d = \<lparr>elf_magic = get32 d 0, elf_entry = get64 d 24, elf_phoff = get64 d 32, elf_phnum = get16 d 56\<rparr>"

definition proghdr_of :: "uchar list \<Rightarrow> proghdr" where
  "proghdr_of d = \<lparr>ph_type = get32 d 0, ph_flags = get32 d 4, ph_off = get64 d 8, ph_vaddr = get64 d 16,
     ph_paddr = get64 d 24, ph_filesz = get64 d 32, ph_memsz = get64 d 40, ph_align = get64 d 48\<rparr>"

definition loadseg_page :: "addr \<Rightarrow> uint64 \<Rightarrow> nat \<Rightarrow> uint \<Rightarrow> uint \<Rightarrow> nat \<Rightarrow> (int option, 'z fsst_scheme) kop" where
  "loadseg_page pagetable va ip offset sz i =
     bnd (walkaddr pagetable (va + of_nat i)) (\<lambda>pa.
     if pa = 0 then kpanic ''loadseg: address should exist''
     else (let n = min (unat sz - i) 4096 in
          bnd (readi ip (DKern pa) (offset + of_nat i) (of_nat n)) (\<lambda>(r, _).
          if r \<noteq> n then ret (Some (- 1)) else ret None)))"

definition loadseg :: "addr \<Rightarrow> uint64 \<Rightarrow> nat \<Rightarrow> uint \<Rightarrow> uint \<Rightarrow> (int, 'z fsst_scheme) kop" where
  "loadseg pagetable va ip offset sz =
     (if va mod PGSIZE \<noteq> 0 then kpanic ''loadseg: va must be page aligned''
      else bnd (for_until (map (\<lambda>k. 4096 * k) [0..<(unat sz + 4095) div 4096]) (loadseg_page pagetable va ip offset sz)) (\<lambda>r.
           case r of Some v \<Rightarrow> ret v | None \<Rightarrow> ret 0))"

text \<open>The loop over the program headers, with \<open>n\<close> still to read: whether all were loaded, and \<^verbatim>\<open>sz\<close>.\<close>

fun exec_load :: "nat \<Rightarrow> addr \<Rightarrow> uint \<Rightarrow> nat \<Rightarrow> uint64 \<Rightarrow> (bool \<times> uint64, 'z fsst_scheme) kop" where
  "exec_load ip pagetable off 0 sz = ret (True, sz)"
| "exec_load ip pagetable off (Suc n) sz =
     bnd (readi ip DVar off 56) (\<lambda>(r, bs).
     if r \<noteq> 56 then ret (False, sz)
     else (let ph = proghdr_of bs in
     if ph_type ph \<noteq> ELF_PROG_LOAD then exec_load ip pagetable (off + 56) n sz
     else if ph_memsz ph < ph_filesz ph then ret (False, sz)
     else if ph_vaddr ph + ph_memsz ph < ph_vaddr ph then ret (False, sz)
     else bnd (uvmalloc pagetable sz (ph_vaddr ph + ph_memsz ph)) (\<lambda>sz1.
          if sz1 = 0 then ret (False, sz)
          else if ph_vaddr ph mod PGSIZE \<noteq> 0 then ret (False, sz1)
          else bnd (loadseg pagetable (ph_vaddr ph) ip (ucast (ph_off ph)) (ucast (ph_filesz ph))) (\<lambda>r.
               if r < 0 then ret (False, sz1)
               else exec_load ip pagetable (off + 56) n sz1))))"

definition kstrlen :: "addr \<Rightarrow> (nat, 'z mst_scheme) kop" where
  "kstrlen a = (\<lambda>s. case strlen (\<lambda>i. mem s (a + of_nat i)) of None \<Rightarrow> Hang | Some n \<Rightarrow> Ok n s)"

text \<open>Pushing the argument strings: the stack pointer and \<^verbatim>\<open>ustack\<close>, or nothing for \<^verbatim>\<open>goto bad\<close>.\<close>

fun exec_push :: "addr \<Rightarrow> uint64 \<Rightarrow> addr list \<Rightarrow> uint64 \<Rightarrow> uint64 list \<Rightarrow> ((uint64 \<times> uint64 list) option, 'z kmst_scheme) kop" where
  "exec_push pagetable stackbase [] usp ustack = ret (Some (usp, ustack))"
| "exec_push pagetable stackbase (arg # argv) usp ustack =
     (if length ustack \<ge> MAXARG then ret None
      else bnd (kstrlen arg) (\<lambda>len.
           (let sp1 = usp - of_nat (len + 1); sp2 = sp1 - sp1 mod 16 in
            if sp2 < stackbase then ret None
            else bnd (gets (\<lambda>s. mem_read (mem s) arg (len + 1))) (\<lambda>bs.
                 bnd (copyout pagetable sp2 bs) (\<lambda>r.
                 if r < 0 then ret None
                 else exec_push pagetable stackbase argv sp2 (ustack @ [sp2]))))))"

definition exec_bad :: "addr \<Rightarrow> uint64 \<Rightarrow> nat option \<Rightarrow> (int, 'z fist_scheme) kop" where
  "exec_bad pagetable sz q =
     thn (whenk (pagetable \<noteq> 0) (proc_freepagetable pagetable sz)) (
     thn (case q of None \<Rightarrow> ret () | Some ip \<Rightarrow> thn (iunlockput ip) end_op)
         (ret (- 1)))"

definition exec_last :: "uchar list \<Rightarrow> uchar list" where
  "exec_last path = rev (takeWhile (\<lambda>c. c \<noteq> slash) (rev path))"

text \<open>The part after the segments are loaded.\<close>

definition exec_stack :: "uchar list \<Rightarrow> addr list \<Rightarrow> elfhdr \<Rightarrow> addr \<Rightarrow> uint64 \<Rightarrow> (int, 'z fist_scheme) kop" where
  "exec_stack path argv elf pagetable sz0 =
     bnd curproc (\<lambda>p.
     bnd (get_proc p psz) (\<lambda>oldsz.
     (let sz = PGROUNDUP sz0 in
     bnd (uvmalloc pagetable sz (sz + 2 * PGSIZE)) (\<lambda>sz1.
     if sz1 = 0 then exec_bad pagetable sz None
     else thn (uvmclear pagetable (sz1 - 2 * PGSIZE)) (
          bnd (exec_push pagetable (sz1 - PGSIZE) argv sz1 []) (\<lambda>r. case r of
            None \<Rightarrow> exec_bad pagetable sz1 None
          | Some (sp', ustack) \<Rightarrow>
              (let argc = length ustack; sp1 = sp' - of_nat (argc + 1) * 8; sp2 = sp1 - sp1 mod 16 in
              if sp2 < sz1 - PGSIZE then exec_bad pagetable sz1 None
              else bnd (copyout pagetable sp2 (concat (map (le_bytes 8) (ustack @ [0])))) (\<lambda>r.
                   if r < 0 then exec_bad pagetable sz1 None
                   else thn (tf_store p TF_a1 sp2) (
                        thn (set_name p (exec_last path)) (
                        bnd (get_proc p ppagetable) (\<lambda>oldpagetable.
                        thn (upd_proc p (\<lambda>x. x\<lparr>ppagetable := pagetable\<rparr>)) (
                        thn (upd_proc p (\<lambda>x. x\<lparr>psz := sz1\<rparr>)) (
                        thn (tf_store p TF_epc (elf_entry elf)) (
                        thn (tf_store p TF_sp sp2) (
                        thn (proc_freepagetable oldpagetable oldsz)
                            (ret (int argc)))))))))))))))))"

definition exec :: "uchar list \<Rightarrow> addr list \<Rightarrow> (int, 'z fist_scheme) kop" where
  "exec path argv =
     bnd curproc (\<lambda>p.
     thn begin_op (
     bnd (namei path) (\<lambda>q. case q of
       None \<Rightarrow> thn end_op (ret (- 1))
     | Some ip \<Rightarrow>
         thn (ilock (Some ip)) (
         bnd (readi ip DVar 0 64) (\<lambda>(r, bs).
         if r \<noteq> 64 then exec_bad 0 0 (Some ip)
         else (let elf = elfhdr_of bs in
         if elf_magic elf \<noteq> ELF_MAGIC then exec_bad 0 0 (Some ip)
         else bnd (proc_pagetable p) (\<lambda>pagetable.
         if pagetable = 0 then exec_bad 0 0 (Some ip)
         else bnd (exec_load ip pagetable (ucast (elf_phoff elf)) (unat (elf_phnum elf)) 0) (\<lambda>(ok, sz).
              if \<not> ok then exec_bad pagetable sz (Some ip)
              else thn (iunlockput ip) (
                   thn end_op
                       (exec_stack path argv elf pagetable sz))))))))))"

end
