(* ===== verification/Sysfile.thy ===== *)
theory Sysfile
  imports Exec
begin

text \<open>
  The file system calls (\<^verbatim>\<open>kernel/sysfile.c\<close>, the open modes of \<^verbatim>\<open>fcntl.h\<close>). Each system call takes its
  arguments from the trap frame of the current process and gives the 64-bit value that goes to \<^verbatim>\<open>a0\<close>.
\<close>

definition O_RDONLY :: int where "O_RDONLY = 0x000"
definition O_WRONLY :: int where "O_WRONLY = 0x001"
definition O_RDWR :: int where "O_RDWR = 0x002"
definition O_CREATE :: int where "O_CREATE = 0x200"
definition O_TRUNC :: int where "O_TRUNC = 0x400"
definition MAXPATH :: nat where "MAXPATH = 128"

definition minus1 :: uint64 where "minus1 = - 1"

section \<open>Descriptors\<close>

definition argfd :: "nat \<Rightarrow> ((nat \<times> nat) option, 'z fist_scheme) kop" where
  "argfd n =
     bnd (argint n) (\<lambda>fd.
     if fd < 0 \<or> fd \<ge> int NOFILE then ret None
     else bnd curproc (\<lambda>p.
          bnd (get_proc p (\<lambda>x. ofile x ! nat fd)) (\<lambda>q. case q of
            None \<Rightarrow> ret None
          | Some f \<Rightarrow> ret (Some (nat fd, f)))))"

definition fdalloc :: "nat \<Rightarrow> (nat option, 'z fist_scheme) kop" where
  "fdalloc f =
     bnd curproc (\<lambda>p.
     for_until [0..<NOFILE] (\<lambda>fd.
       bnd (get_proc p (\<lambda>x. ofile x ! fd)) (\<lambda>q.
       if q = None
       then thn (upd_proc p (\<lambda>x. x\<lparr>ofile := (ofile x)[fd := Some f]\<rparr>)) (ret (Some fd))
       else ret None)))"

definition sys_dup :: "(uint64, 'z fist_scheme) kop" where
  "sys_dup =
     bnd (argfd 0) (\<lambda>q. case q of None \<Rightarrow> ret minus1 | Some (_, f) \<Rightarrow>
     bnd (fdalloc f) (\<lambda>q. case q of None \<Rightarrow> ret minus1 | Some fd \<Rightarrow>
     bnd (filedup f) (\<lambda>_.
     ret (of_nat fd))))"

definition sys_read :: "(uint64, 'z fist_scheme) kop" where
  "sys_read =
     bnd (argfd 0) (\<lambda>q. case q of None \<Rightarrow> ret minus1 | Some (_, f) \<Rightarrow>
     bnd (argint 2) (\<lambda>n.
     bnd (argaddr 1) (\<lambda>p.
     bnd (fileread f p n) (\<lambda>r.
     ret (of_int r)))))"

definition sys_write :: "(uint64, 'z fist_scheme) kop" where
  "sys_write =
     bnd (argfd 0) (\<lambda>q. case q of None \<Rightarrow> ret minus1 | Some (_, f) \<Rightarrow>
     bnd (argint 2) (\<lambda>n.
     bnd (argaddr 1) (\<lambda>p.
     bnd (filewrite f p n) (\<lambda>r.
     ret (of_int r)))))"

definition sys_close :: "(uint64, 'z fist_scheme) kop" where
  "sys_close =
     bnd (argfd 0) (\<lambda>q. case q of None \<Rightarrow> ret minus1 | Some (fd, f) \<Rightarrow>
     bnd curproc (\<lambda>p.
     thn (upd_proc p (\<lambda>x. x\<lparr>ofile := (ofile x)[fd := None]\<rparr>)) (
     thn (fileclose f)
         (ret 0))))"

definition sys_fstat :: "(uint64, 'z fist_scheme) kop" where
  "sys_fstat =
     bnd (argfd 0) (\<lambda>q. case q of None \<Rightarrow> ret minus1 | Some (_, f) \<Rightarrow>
     bnd (argaddr 1) (\<lambda>st.
     bnd (filestat f st) (\<lambda>r.
     ret (of_int r))))"

section \<open>Links\<close>

definition sys_link_bad :: "nat \<Rightarrow> (uint64, 'z fist_scheme) kop" where
  "sys_link_bad ip =
     thn (ilock (Some ip)) (
     thn (upd_inode ip (\<lambda>x. x\<lparr>i_nlink := i_nlink x - 1\<rparr>)) (
     thn (iupdate ip) (
     thn (iunlockput ip) (
     thn end_op
         (ret minus1)))))"

definition sys_link :: "(uint64, 'z fist_scheme) kop" where
  "sys_link =
     bnd (argstr 0 MAXPATH) (\<lambda>o'. case o' of None \<Rightarrow> ret minus1 | Some old \<Rightarrow>
     bnd (argstr 1 MAXPATH) (\<lambda>n'. case n' of None \<Rightarrow> ret minus1 | Some new \<Rightarrow>
     thn begin_op (
     bnd (namei old) (\<lambda>q. case q of None \<Rightarrow> thn end_op (ret minus1) | Some ip \<Rightarrow>
     thn (ilock (Some ip)) (
     bnd (get_inode ip i_type) (\<lambda>ty.
     if ty = T_DIR
     then thn (iunlockput ip) (thn end_op (ret minus1))
     else thn (upd_inode ip (\<lambda>x. x\<lparr>i_nlink := i_nlink x + 1\<rparr>)) (
          thn (iupdate ip) (
          thn (iunlock (Some ip)) (
          bnd (nameiparent new) (\<lambda>d. case d of None \<Rightarrow> sys_link_bad ip | Some (dp, nm) \<Rightarrow>
          thn (ilock (Some dp)) (
          bnd (get_inode dp i_dev) (\<lambda>ddev.
          bnd (get_inode ip (\<lambda>x. x)) (\<lambda>x.
          bnd (if ddev \<noteq> i_dev x then ret (- 1) else dirlink dp nm (i_inum x)) (\<lambda>r.
          if r < 0
          then thn (iunlockput dp) (sys_link_bad ip)
          else thn (iunlockput dp) (
               thn (iput ip) (
               thn end_op
                   (ret 0)))))))))))))))))"

definition isdirempty :: "nat \<Rightarrow> (bool, 'z fsst_scheme) kop" where
  "isdirempty dp =
     bnd (get_inode dp i_size) (\<lambda>sz.
     bnd (for_until (drop 2 (dirent_offs sz)) (\<lambda>off.
            bnd (readi dp DVar (of_nat off) 16) (\<lambda>(n, de).
            if n \<noteq> 16 then kpanic ''isdirempty: readi''
            else if de_inum de \<noteq> 0 then ret (Some ()) else ret None))) (\<lambda>r.
     ret (r = None)))"

definition sys_unlink :: "(uint64, 'z fist_scheme) kop" where
  "sys_unlink =
     bnd (argstr 0 MAXPATH) (\<lambda>p'. case p' of None \<Rightarrow> ret minus1 | Some path \<Rightarrow>
     thn begin_op (
     bnd (nameiparent path) (\<lambda>d. case d of None \<Rightarrow> thn end_op (ret minus1) | Some (dp, nm) \<Rightarrow>
     (let bad = thn (iunlockput dp) (thn end_op (ret minus1)) in
     thn (ilock (Some dp)) (
     if namecmp nm (str ''.'') = 0 \<or> namecmp nm (str ''..'') = 0 then bad
     else bnd (dirlookup dp nm) (\<lambda>q. case q of None \<Rightarrow> bad | Some (ip, off) \<Rightarrow>
     thn (ilock (Some ip)) (
     bnd (get_inode ip i_nlink) (\<lambda>nl.
     if sint nl < 1 then kpanic ''unlink: nlink < 1''
     else bnd (get_inode ip i_type) (\<lambda>ty.
     bnd (if ty = T_DIR then isdirempty ip else ret True) (\<lambda>ok.
     if \<not> ok then thn (iunlockput ip) bad
     else bnd (writei dp (SVar (replicate 16 0)) (of_nat off) 16) (\<lambda>n.
     if n \<noteq> 16 then kpanic ''unlink: writei''
     else thn (whenk (ty = T_DIR) (
                 thn (upd_inode dp (\<lambda>x. x\<lparr>i_nlink := i_nlink x - 1\<rparr>))
                     (iupdate dp))) (
          thn (iunlockput dp) (
          thn (upd_inode ip (\<lambda>x. x\<lparr>i_nlink := i_nlink x - 1\<rparr>)) (
          thn (iupdate ip) (
          thn (iunlockput ip) (
          thn end_op
              (ret 0)))))))))))))))))"

section \<open>Creating and opening\<close>

definition create :: "uchar list \<Rightarrow> ushort \<Rightarrow> ushort \<Rightarrow> ushort \<Rightarrow> (nat option, 'z fsst_scheme) kop" where
  "create path type' major' minor' =
     bnd (nameiparent path) (\<lambda>d. case d of None \<Rightarrow> ret None | Some (dp, nm) \<Rightarrow>
     thn (ilock (Some dp)) (
     bnd (dirlookup dp nm) (\<lambda>q. case q of
       Some (ip, _) \<Rightarrow>
         thn (iunlockput dp) (
         thn (ilock (Some ip)) (
         bnd (get_inode ip i_type) (\<lambda>ty.
         if type' = T_FILE \<and> (ty = T_FILE \<or> ty = T_DEVICE) then ret (Some ip)
         else thn (iunlockput ip) (ret None))))
     | None \<Rightarrow>
         bnd (get_inode dp i_dev) (\<lambda>dev.
         bnd (ialloc dev type') (\<lambda>ip.
         thn (ilock (Some ip)) (
         thn (upd_inode ip (\<lambda>x. x\<lparr>i_major := major'\<rparr>)) (
         thn (upd_inode ip (\<lambda>x. x\<lparr>i_minor := minor'\<rparr>)) (
         thn (upd_inode ip (\<lambda>x. x\<lparr>i_nlink := 1\<rparr>)) (
         thn (iupdate ip) (
         bnd (get_inode ip i_inum) (\<lambda>inum.
         thn (whenk (type' = T_DIR) (
                thn (upd_inode dp (\<lambda>x. x\<lparr>i_nlink := i_nlink x + 1\<rparr>)) (
                thn (iupdate dp) (
                bnd (dirlink ip (str ''.'') inum) (\<lambda>r.
                if r < 0 then kpanic ''create dots''
                else bnd (get_inode dp i_inum) (\<lambda>dinum.
                     bnd (dirlink ip (str ''..'') dinum) (\<lambda>r.
                     if r < 0 then kpanic ''create dots'' else ret ()))))))) (
         bnd (dirlink dp nm inum) (\<lambda>r.
         if r < 0 then kpanic ''create: dirlink''
         else thn (iunlockput dp)
                  (ret (Some ip)))))))))))))))"

definition o_bit :: "int \<Rightarrow> int \<Rightarrow> bool" where
  "o_bit omode flag \<longleftrightarrow> omode AND flag \<noteq> 0"

definition sys_open_inode :: "uchar list \<Rightarrow> int \<Rightarrow> (nat option, 'z fist_scheme) kop" where
  "sys_open_inode path omode =
     (if o_bit omode O_CREATE
      then bnd (create path T_FILE 0 0) (\<lambda>q. case q of
             None \<Rightarrow> thn end_op (ret None)
           | Some ip \<Rightarrow> ret (Some ip))
      else bnd (namei path) (\<lambda>q. case q of
             None \<Rightarrow> thn end_op (ret None)
           | Some ip \<Rightarrow>
               thn (ilock (Some ip)) (
               bnd (get_inode ip i_type) (\<lambda>ty.
               if ty = T_DIR \<and> omode \<noteq> O_RDONLY
               then thn (iunlockput ip) (thn end_op (ret None))
               else ret (Some ip)))))"

definition sys_open_file :: "nat \<Rightarrow> int \<Rightarrow> nat \<Rightarrow> nat \<Rightarrow> (uint64, 'z fist_scheme) kop" where
  "sys_open_file ip omode f fd =
     bnd (get_inode ip (\<lambda>x. x)) (\<lambda>x.
     thn (if i_type x = T_DEVICE
          then thn (upd_file f (\<lambda>y. y\<lparr>f_type := FD_DEVICE\<rparr>)) (upd_file f (\<lambda>y. y\<lparr>f_major := i_major x\<rparr>))
          else thn (upd_file f (\<lambda>y. y\<lparr>f_type := FD_INODE\<rparr>)) (upd_file f (\<lambda>y. y\<lparr>f_off := 0\<rparr>))) (
     thn (upd_file f (\<lambda>y. y\<lparr>f_ip := Some ip\<rparr>)) (
     thn (upd_file f (\<lambda>y. y\<lparr>f_readable := \<not> o_bit omode O_WRONLY\<rparr>)) (
     thn (upd_file f (\<lambda>y. y\<lparr>f_writable := o_bit omode O_WRONLY \<or> o_bit omode O_RDWR\<rparr>)) (
     thn (whenk (o_bit omode O_TRUNC \<and> i_type x = T_FILE) (itrunc ip)) (
     thn (iunlock (Some ip)) (
     thn end_op
         (ret (of_nat fd)))))))))"

definition sys_open :: "(uint64, 'z fist_scheme) kop" where
  "sys_open =
     bnd (argstr 0 MAXPATH) (\<lambda>p'. case p' of None \<Rightarrow> ret minus1 | Some path \<Rightarrow>
     bnd (argint 1) (\<lambda>omode.
     thn begin_op (
     bnd (sys_open_inode path omode) (\<lambda>q. case q of None \<Rightarrow> ret minus1 | Some ip \<Rightarrow>
     bnd (get_inode ip (\<lambda>x. x)) (\<lambda>x.
     if i_type x = T_DEVICE \<and> (sint (i_major x) < 0 \<or> sint (i_major x) \<ge> NDEV)
     then thn (iunlockput ip) (thn end_op (ret minus1))
     else bnd filealloc (\<lambda>q. case q of
            None \<Rightarrow> thn (iunlockput ip) (thn end_op (ret minus1))
          | Some f \<Rightarrow>
              bnd (fdalloc f) (\<lambda>q. case q of
                None \<Rightarrow> thn (fileclose f) (thn (iunlockput ip) (thn end_op (ret minus1)))
              | Some fd \<Rightarrow> sys_open_file ip omode f fd)))))))"

definition sys_mkdir :: "(uint64, 'z fist_scheme) kop" where
  "sys_mkdir =
     thn begin_op (
     bnd (argstr 0 MAXPATH) (\<lambda>p'. case p' of None \<Rightarrow> thn end_op (ret minus1) | Some path \<Rightarrow>
     bnd (create path T_DIR 0 0) (\<lambda>q. case q of None \<Rightarrow> thn end_op (ret minus1) | Some ip \<Rightarrow>
     thn (iunlockput ip) (
     thn end_op
         (ret 0)))))"

definition sys_mknod :: "(uint64, 'z fist_scheme) kop" where
  "sys_mknod =
     thn begin_op (
     bnd (argstr 0 MAXPATH) (\<lambda>p'. case p' of None \<Rightarrow> thn end_op (ret minus1) | Some path \<Rightarrow>
     bnd (argint 1) (\<lambda>major'.
     bnd (argint 2) (\<lambda>minor'.
     bnd (create path T_DEVICE (of_int major') (of_int minor')) (\<lambda>q. case q of None \<Rightarrow> thn end_op (ret minus1) | Some ip \<Rightarrow>
     thn (iunlockput ip) (
     thn end_op
         (ret 0)))))))"

definition sys_chdir :: "(uint64, 'z fist_scheme) kop" where
  "sys_chdir =
     bnd curproc (\<lambda>p.
     thn begin_op (
     bnd (argstr 0 MAXPATH) (\<lambda>p'. case p' of None \<Rightarrow> thn end_op (ret minus1) | Some path \<Rightarrow>
     bnd (namei path) (\<lambda>q. case q of None \<Rightarrow> thn end_op (ret minus1) | Some ip \<Rightarrow>
     thn (ilock (Some ip)) (
     bnd (get_inode ip i_type) (\<lambda>ty.
     if ty \<noteq> T_DIR then thn (iunlockput ip) (thn end_op (ret minus1))
     else thn (iunlock (Some ip)) (
          bnd (get_proc p cwd) (\<lambda>c.
          bnd (deref c) (\<lambda>c.
          thn (iput c) (
          thn end_op (
          thn (upd_proc p (\<lambda>x. x\<lparr>cwd := Some ip\<rparr>))
              (ret 0))))))))))))"

section \<open>exec and pipe\<close>

text \<open>
  Reading \<^verbatim>\<open>argv\<close> into pages: the pages so far, and whether the end was reached (otherwise \<^verbatim>\<open>goto bad\<close>).
  \<open>n\<close> slots of \<^verbatim>\<open>argv\<close> are left.
\<close>

fun fetch_argv :: "uint64 \<Rightarrow> nat \<Rightarrow> addr list \<Rightarrow> (bool \<times> addr list, 'z kmst_scheme) kop" where
  "fetch_argv uargv 0 argv = ret (False, argv)"
| "fetch_argv uargv (Suc n) argv =
     bnd (fetchaddr (uargv + 8 * of_nat (length argv))) (\<lambda>q. case q of
       None \<Rightarrow> ret (False, argv)
     | Some uarg \<Rightarrow>
         if uarg = 0 then ret (True, argv)
         else bnd kalloc (\<lambda>pa.
              if pa = 0 then ret (False, argv)
              else bnd (fetchstr uarg 4096) (\<lambda>(r, bs).
                   thn (modify (\<lambda>s. s\<lparr>mem := mem_write (mem s) pa bs\<rparr>)) (
                   if r < 0 then ret (False, argv @ [pa])
                   else fetch_argv uargv n (argv @ [pa])))))"

definition sys_exec :: "(uint64, 'z fist_scheme) kop" where
  "sys_exec =
     bnd (argstr 0 MAXPATH) (\<lambda>p'. case p' of None \<Rightarrow> ret minus1 | Some path \<Rightarrow>
     bnd (argaddr 1) (\<lambda>uargv.
     bnd (fetch_argv uargv MAXARG []) (\<lambda>(ok, argv).
     if ok
     then bnd (exec path argv) (\<lambda>r.
          thn (for_each argv kfree)
              (ret (of_int r)))
     else thn (for_each argv kfree)
              (ret minus1))))"

definition set_ofile :: "nat \<Rightarrow> nat \<Rightarrow> nat option \<Rightarrow> (unit, 'z fist_scheme) kop" where
  "set_ofile p fd q = upd_proc p (\<lambda>x. x\<lparr>ofile := (ofile x)[fd := q]\<rparr>)"

definition sys_pipe :: "(uint64, 'z fist_scheme) kop" where
  "sys_pipe =
     bnd curproc (\<lambda>p.
     bnd (argaddr 0) (\<lambda>fdarray.
     bnd pipealloc (\<lambda>q. case q of None \<Rightarrow> ret minus1 | Some (rdf, wrf) \<Rightarrow>
     bnd (fdalloc rdf) (\<lambda>q0. case q0 of
       None \<Rightarrow> thn (fileclose rdf) (thn (fileclose wrf) (ret minus1))
     | Some fd0 \<Rightarrow>
         bnd (fdalloc wrf) (\<lambda>q1. case q1 of
           None \<Rightarrow> thn (set_ofile p fd0 None) (thn (fileclose rdf) (thn (fileclose wrf) (ret minus1)))
         | Some fd1 \<Rightarrow>
             bnd (get_proc p ppagetable) (\<lambda>pt.
             bnd (copyout pt fdarray (le_bytes 4 (of_nat fd0 :: uint))) (\<lambda>r0.
             bnd (if r0 < 0 then ret r0 else copyout pt (fdarray + 4) (le_bytes 4 (of_nat fd1 :: uint))) (\<lambda>r1.
             if r1 < 0
             then thn (set_ofile p fd0 None) (
                  thn (set_ofile p fd1 None) (
                  thn (fileclose rdf) (
                  thn (fileclose wrf)
                      (ret minus1))))
             else ret 0))))))))"

end
