(* ===== verification/Trap.thy ===== *)
theory Trap
  imports Sysfile
begin

text \<open>
  Traps and the machine around them: process system calls (\<^verbatim>\<open>kernel/sysproc.c\<close>), the system call table
  (\<^verbatim>\<open>syscall.c\<close>, \<^verbatim>\<open>syscall.h\<close>), the trap handlers (\<^verbatim>\<open>trap.c\<close>), the interrupt controller (\<^verbatim>\<open>plic.c\<close>), the
  machine-mode start-up code (\<^verbatim>\<open>start.c\<close>) and \<^verbatim>\<open>main.c\<close>.

  Memory-mapped registers of the interrupt controller and the timer are parameters: \<open>plic_irqs\<close> holds the
  values that the next reads of the claim register give (0, none pending, once it is used up), \<open>mtime\<close>
  the value of the time register, and \<open>mmio_w\<close> records writes, newest first.
\<close>

record kern = fist +
  ticks :: uint
  first_forkret :: bool
  started :: bool
  plic_irqs :: "uint list"
  mtime :: uint64
  mmio_w :: "(uint64 \<times> uint64) list"

definition w_reg :: "uint64 \<Rightarrow> uint64 \<Rightarrow> (unit, 'z kern_scheme) kop" where
  "w_reg a v = modify (\<lambda>s. s\<lparr>mmio_w := (a, v) # mmio_w s\<rparr>)"

section \<open>Process system calls (sysproc.c)\<close>

definition sys_exit :: "(uint64, 'z kern_scheme) kop" where
  "sys_exit = bnd (argint 0) (\<lambda>n. exit n)"

definition sys_getpid :: "(uint64, 'z kern_scheme) kop" where
  "sys_getpid = bnd curproc (\<lambda>p. bnd (get_proc p pid) (\<lambda>i. ret (of_int i)))"

definition sys_fork :: "(uint64, 'z kern_scheme) kop" where
  "sys_fork = bnd fork (\<lambda>r. ret (of_int r))"

definition sys_wait :: "(uint64, 'z kern_scheme) kop" where
  "sys_wait = bnd (argaddr 0) (\<lambda>p. bnd (wait p) (\<lambda>r. ret (of_int r)))"

definition sys_sbrk :: "(uint64, 'z kern_scheme) kop" where
  "sys_sbrk =
     bnd (argint 0) (\<lambda>n.
     bnd curproc (\<lambda>p.
     bnd (get_proc p (\<lambda>x. ucast (psz x) :: uint)) (\<lambda>a.
     bnd (growproc n) (\<lambda>r.
     if r < 0 then ret minus1 else ret (scast a)))))"

text \<open>In \<^verbatim>\<open>ticks - ticks0 < n\<close> the left side is unsigned, so \<open>n\<close> is converted to unsigned.\<close>

definition sys_sleep_loop :: "uint \<Rightarrow> uint \<Rightarrow> (uint64, 'z kern_scheme) kop" where
  "sys_sleep_loop n ticks0 =
     bnd (gets ticks) (\<lambda>t.
     if t - ticks0 < n
     then bnd curproc (\<lambda>p.
          bnd (get_proc p killed) (\<lambda>k.
          if k then thn (release LkTicks) (ret minus1)
          else sleep_away ChTicks LkTicks))
     else thn (release LkTicks) (ret 0))"

definition sys_sleep :: "(uint64, 'z kern_scheme) kop" where
  "sys_sleep =
     bnd (argint 0) (\<lambda>n.
     thn (acquire LkTicks) (
     bnd (gets ticks) (\<lambda>ticks0.
     sys_sleep_loop (of_int n) ticks0)))"

definition sys_sleep_resume :: "bool \<Rightarrow> uint \<Rightarrow> uint \<Rightarrow> (uint64, 'z kern_scheme) kop" where
  "sys_sleep_resume ie n ticks0 = thn (sleep_resume ie LkTicks) (sys_sleep_loop n ticks0)"

definition sys_kill :: "(uint64, 'z kern_scheme) kop" where
  "sys_kill = bnd (argint 0) (\<lambda>p. bnd (kill p) (\<lambda>r. ret (of_int r)))"

definition sys_uptime :: "(uint64, 'z kern_scheme) kop" where
  "sys_uptime =
     thn (acquire LkTicks) (
     bnd (gets ticks) (\<lambda>xticks.
     thn (release LkTicks)
         (ret (ucast xticks))))"

section \<open>The system call table (syscall.c)\<close>

definition syscalls :: "int \<Rightarrow> (uint64, 'z kern_scheme) kop option" where
  "syscalls num =
     (if num = 1 then Some sys_fork
      else if num = 2 then Some sys_exit
      else if num = 3 then Some sys_wait
      else if num = 4 then Some sys_pipe
      else if num = 5 then Some sys_read
      else if num = 6 then Some sys_kill
      else if num = 7 then Some sys_exec
      else if num = 8 then Some sys_fstat
      else if num = 9 then Some sys_chdir
      else if num = 10 then Some sys_dup
      else if num = 11 then Some sys_getpid
      else if num = 12 then Some sys_sbrk
      else if num = 13 then Some sys_sleep
      else if num = 14 then Some sys_uptime
      else if num = 15 then Some sys_open
      else if num = 16 then Some sys_write
      else if num = 17 then Some sys_mknod
      else if num = 18 then Some sys_unlink
      else if num = 19 then Some sys_link
      else if num = 20 then Some sys_mkdir
      else if num = 21 then Some sys_close
      else None)"

definition syscall :: "(unit, 'z kern_scheme) kop" where
  "syscall =
     bnd curproc (\<lambda>p.
     bnd (tf_load p TF_a7) (\<lambda>a7.
     (let num = sint (ucast a7 :: uint) in
     case syscalls num of
       Some f \<Rightarrow> bnd f (\<lambda>r. tf_store p TF_a0 r)
     | None \<Rightarrow>
         bnd (get_proc p (\<lambda>x. x)) (\<lambda>x.
         thn (printf (str ''%d %s: unknown sys call %d'' @ [10])
                [PInt (of_int (pid x)), PStr (Some (takeWhile (\<lambda>c. c \<noteq> 0) (pname x))), PInt (ucast a7)])
             (tf_store p TF_a0 minus1)))))"

section \<open>The interrupt controller (plic.c)\<close>

definition UART0_IRQ :: uint where "UART0_IRQ = 10"
definition VIRTIO0_IRQ :: uint where "VIRTIO0_IRQ = 1"

definition PLIC_SENABLE :: "nat \<Rightarrow> uint64" where "PLIC_SENABLE hart = PLIC + 0x2080 + of_nat hart * 0x100"
definition PLIC_SPRIORITY :: "nat \<Rightarrow> uint64" where "PLIC_SPRIORITY hart = PLIC + 0x201000 + of_nat hart * 0x2000"
definition PLIC_SCLAIM :: "nat \<Rightarrow> uint64" where "PLIC_SCLAIM hart = PLIC + 0x201004 + of_nat hart * 0x2000"

definition plicinit :: "(unit, 'z kern_scheme) kop" where
  "plicinit =
     thn (w_reg (PLIC + ucast UART0_IRQ * 4) 1)
         (w_reg (PLIC + ucast VIRTIO0_IRQ * 4) 1)"

definition plicinithart :: "(unit, 'z kern_scheme) kop" where
  "plicinithart =
     bnd cpuid (\<lambda>hart.
     thn (w_reg (PLIC_SENABLE hart) (push_bit (unat UART0_IRQ) 1 OR push_bit (unat VIRTIO0_IRQ) 1))
         (w_reg (PLIC_SPRIORITY hart) 0))"

definition plic_claim :: "(uint, 'z kern_scheme) kop" where
  "plic_claim =
     bnd cpuid (\<lambda>hart.
     bnd (gets (\<lambda>s. case plic_irqs s of [] \<Rightarrow> 0 | i # _ \<Rightarrow> i)) (\<lambda>irq.
     thn (modify (\<lambda>s. s\<lparr>plic_irqs := tl (plic_irqs s)\<rparr>))
         (ret irq)))"

definition plic_complete :: "uint \<Rightarrow> (unit, 'z kern_scheme) kop" where
  "plic_complete irq = bnd cpuid (\<lambda>hart. w_reg (PLIC_SCLAIM hart) (ucast irq))"

section \<open>Traps (trap.c)\<close>

definition trapinit :: "(unit, 'z kern_scheme) kop" where
  "trapinit = initlock LkTicks ''time''"

definition trapinithart :: "(unit, 'z kern_scheme) kop" where
  "trapinithart = bnd (gets (\<lambda>s. sym_kernelvec (syms (mach s)))) w_stvec"

definition clockintr :: "(unit, 'z kern_scheme) kop" where
  "clockintr =
     thn (acquire LkTicks) (
     thn (modify (\<lambda>s. s\<lparr>ticks := ticks s + 1\<rparr>)) (
     thn (wakeup ChTicks)
         (release LkTicks)))"

definition devintr :: "(int, 'z kern_scheme) kop" where
  "devintr =
     bnd r_scause (\<lambda>cause.
     if cause AND 0x8000000000000000 \<noteq> 0 \<and> cause AND 0xff = 9
     then bnd plic_claim (\<lambda>irq.
          thn (if irq = UART0_IRQ then uartintr
               else if irq = VIRTIO0_IRQ then virtio_disk_intr
               else whenk (irq \<noteq> 0) (printf (str ''unexpected interrupt irq=%d'' @ [10]) [PInt irq])) (
          thn (whenk (irq \<noteq> 0) (plic_complete irq))
              (ret 1)))
     else if cause = 0x8000000000000001
     then bnd cpuid (\<lambda>id'.
          thn (whenk (id' = 0) clockintr) (
          bnd r_sip (\<lambda>x.
          thn (w_sip (x AND NOT 2))
              (ret 2))))
     else ret 0)"

text \<open>\<^verbatim>\<open>usertrapret\<close> ends in the jump to \<^verbatim>\<open>userret\<close> with these two arguments.\<close>

definition usertrapret :: "(uint64 \<times> uint64 \<times> uint64, 'z kern_scheme) kop" where
  "usertrapret =
     bnd curproc (\<lambda>p.
     thn intr_off (
     bnd (gets (\<lambda>s. syms (mach s))) (\<lambda>sy.
     thn (w_stvec (TRAMPOLINE + (sym_uservec sy - sym_trampoline sy))) (
     bnd r_satp (\<lambda>v.
     thn (tf_store p TF_kernel_satp v) (
     bnd (get_proc p kstack) (\<lambda>ks.
     thn (tf_store p TF_kernel_sp (ks + PGSIZE)) (
     thn (tf_store p TF_kernel_trap (sym_usertrap sy)) (
     bnd r_tp (\<lambda>h.
     thn (tf_store p TF_kernel_hartid h) (
     bnd r_sstatus (\<lambda>x.
     thn (w_sstatus ((x AND NOT SSTATUS_SPP) OR SSTATUS_SPIE)) (
     bnd (tf_load p TF_epc) (\<lambda>epc.
     thn (w_sepc epc) (
     bnd (get_proc p ppagetable) (\<lambda>pt.
     ret (TRAMPOLINE + (sym_userret sy - sym_trampoline sy), TRAPFRAME, MAKE_SATP pt)))))))))))))))))"

definition usertrap :: "(uint64 \<times> uint64 \<times> uint64, 'z kern_scheme) kop" where
  "usertrap =
     bnd r_sstatus (\<lambda>st.
     if st AND SSTATUS_SPP \<noteq> 0 then kpanic ''usertrap: not from user mode''
     else thn trapinithart (
     bnd curproc (\<lambda>p.
     bnd r_sepc (\<lambda>epc.
     thn (tf_store p TF_epc epc) (
     bnd r_scause (\<lambda>cause.
     bnd (if cause = 8
          then bnd (get_proc p killed) (\<lambda>k.
               thn (whenk k (exit (- 1))) (
               bnd (tf_load p TF_epc) (\<lambda>e.
               thn (tf_store p TF_epc (e + 4)) (
               thn intr_on (
               thn syscall
                   (ret 0))))))
          else bnd devintr (\<lambda>which.
               if which \<noteq> 0 then ret which
               else bnd (get_proc p pid) (\<lambda>i.
                    thn (printf (str ''usertrap(): unexpected scause %p pid=%d'' @ [10]) [PPtr cause, PInt (of_int i)]) (
                    bnd r_sepc (\<lambda>epc.
                    bnd r_stval (\<lambda>tval.
                    thn (printf (str ''            sepc=%p stval=%p'' @ [10]) [PPtr epc, PPtr tval]) (
                    thn (upd_proc p (\<lambda>x. x\<lparr>killed := True\<rparr>))
                        (ret 0)))))))) (\<lambda>which_dev.
     bnd (get_proc p killed) (\<lambda>k.
     thn (whenk k (exit (- 1))) (
     thn (whenk (which_dev = 2) yield)
         usertrapret)))))))))"

definition kerneltrap :: "(unit, 'z kern_scheme) kop" where
  "kerneltrap =
     bnd r_sepc (\<lambda>epc.
     bnd r_sstatus (\<lambda>st.
     bnd r_scause (\<lambda>cause.
     if st AND SSTATUS_SPP = 0 then kpanic ''kerneltrap: not from supervisor mode''
     else bnd intr_get (\<lambda>i.
     if i then kpanic ''kerneltrap: interrupts enabled''
     else bnd devintr (\<lambda>which_dev.
     if which_dev = 0
     then thn (printf (str ''scause %p'' @ [10]) [PPtr cause]) (
          bnd r_sepc (\<lambda>e.
          bnd r_stval (\<lambda>v.
          thn (printf (str ''sepc=%p stval=%p'' @ [10]) [PPtr e, PPtr v])
              (kpanic ''kerneltrap''))))
     else bnd (if which_dev = 2
               then bnd myproc (\<lambda>q. case q of
                      None \<Rightarrow> ret False
                    | Some p \<Rightarrow> bnd (get_proc p state) (\<lambda>s. ret (s = RUNNING)))
               else ret False) (\<lambda>y.
          thn (whenk y yield) (
          thn (w_sepc epc)
              (w_sstatus st))))))))"

definition forkret :: "(uint64 \<times> uint64 \<times> uint64, 'z kern_scheme) kop" where
  "forkret =
     bnd curproc (\<lambda>p.
     thn (release (LkProc p)) (
     bnd (gets first_forkret) (\<lambda>f.
     thn (whenk f (
            thn (modify (\<lambda>s. s\<lparr>first_forkret := False\<rparr>))
                (fsinit ROOTDEV)))
         usertrapret)))"

section \<open>Start-up (start.c, main.c)\<close>

definition CLINT_MTIMECMP :: "nat \<Rightarrow> uint64" where "CLINT_MTIMECMP hartid = CLINT + 0x4000 + 8 * of_nat hartid"
definition CLINT_MTIME :: uint64 where "CLINT_MTIME = CLINT + 0xBFF8"

definition timerinit :: "(unit, 'z kern_scheme) kop" where
  "timerinit =
     bnd r_mhartid (\<lambda>h.
     (let id' = unat (ucast h :: uint); interval = 1000000 in
     bnd (gets mtime) (\<lambda>t.
     thn (w_reg (CLINT_MTIMECMP id') (t + interval)) (
     bnd (gets (\<lambda>s. sym_mscratch0 (syms (mach s)))) (\<lambda>ms.
     (let scratch = ms + 8 * (32 * of_nat id') in
     thn (store64 (scratch + 32) (CLINT_MTIMECMP id')) (
     thn (store64 (scratch + 40) interval) (
     thn (w_mscratch scratch) (
     bnd (gets (\<lambda>s. sym_timervec (syms (mach s)))) (\<lambda>tv.
     thn (w_mtvec tv) (
     bnd r_mstatus (\<lambda>x.
     thn (w_mstatus (x OR MSTATUS_MIE)) (
     bnd r_mie (\<lambda>x.
     w_mie (x OR MIE_MTIE)))))))))))))))"

definition start :: "(unit, 'z kern_scheme) kop" where
  "start =
     bnd r_mstatus (\<lambda>x.
     thn (w_mstatus ((x AND NOT MSTATUS_MPP_MASK) OR MSTATUS_MPP_S)) (
     bnd (gets (\<lambda>s. sym_main (syms (mach s)))) (\<lambda>mn.
     thn (w_mepc mn) (
     thn (w_satp 0) (
     thn (w_medeleg 0xffff) (
     thn (w_mideleg 0xffff) (
     bnd r_sie (\<lambda>x.
     thn (w_sie (x OR SIE_SEIE OR SIE_STIE OR SIE_SSIE)) (
     thn timerinit (
     bnd r_mhartid (\<lambda>h.
     w_tp (scast (ucast h :: uint)))))))))))))"

text \<open>\<^verbatim>\<open>main\<close> up to the call of \<^verbatim>\<open>scheduler\<close>; a hart other than 0 spins until hart 0 has set \<^verbatim>\<open>started\<close>.\<close>

definition main :: "(unit, 'z kern_scheme) kop" where
  "main =
     bnd cpuid (\<lambda>id'.
     if id' = 0
     then thn consoleinit (
          thn printfinit (
          thn (printf [10] []) (
          thn (printf (str ''xv6 kernel is booting'' @ [10]) []) (
          thn (printf [10] []) (
          thn kinit (
          thn kvminit (
          thn kvminithart (
          thn procinit (
          thn trapinit (
          thn trapinithart (
          thn plicinit (
          thn plicinithart (
          thn binit (
          thn iinit (
          thn fileinit (
          thn virtio_disk_init (
          thn userinit
              (modify (\<lambda>s. s\<lparr>started := True\<rparr>)))))))))))))))))))
     else bnd (gets started) (\<lambda>st.
          if \<not> st then (\<lambda>_. Hang)
          else thn (printf (str ''hart %d starting'' @ [10]) [PInt (of_nat id')]) (
               thn kvminithart (
               thn trapinithart
                   plicinithart))))"

end
