(* ===== verification/Boot.thy ===== *)
theory Boot
  imports Trap
begin

text \<open>
  States in which one process runs kernel code and holds no spin lock, and a concrete state of the
  whole kernel: process 1 runs, memory is zero, no page is free, the disk is all zero and the device
  is a function that serves the request at the end of the available ring.
\<close>

section \<open>Quiet states\<close>

definition quiet :: "machine \<Rightarrow> nat \<Rightarrow> bool" where
  "quiet m p \<longleftrightarrow> cpu_ok m \<and> depth m = 0 \<and> cur m = Some p \<and> (\<forall>lk. unlocked m lk)"

lemma quietD:
  assumes "quiet m p"
  shows "cpu_ok m" and "depth m = 0" and "cur m = Some p" and "unlocked m lk" and "procs_unlocked m"
  using assms by (simp_all add: quiet_def procs_unlocked_def)

lemma quiet_note [simp]: "quiet (m_note m) p = quiet m p"
  by (simp add: quiet_def)

lemma quiet_lock:
  assumes "quiet m p"
  shows "cpu_ok (m_acquire lk m)" and "not_proc_lock lk \<Longrightarrow> procs_unlocked (m_acquire lk m)"
    and "held (m_acquire lk m) lk"
  using quietD [OF assms] by (simp_all add: cpu_ok_def)

section \<open>A concrete kernel\<close>

definition idle_buf :: buf where
  "idle_buf = \<lparr>b_valid = 0, b_disk = 0, b_dev = 0, b_blockno = 0, b_refcnt = 0, b_prev = 0, b_next = 0,
     b_data = replicate BSIZE 0\<rparr>"

definition idle_disk :: vdisk where
  "idle_disk = \<lparr>desc = (\<lambda>_. \<lparr>vd_addr = Dma0, vd_len = 0, vd_flags = 0, vd_next = 0\<rparr>), avail_idx = 0,
     avail_ring = (\<lambda>_. 0), used_id = 0, used_elems = (\<lambda>_. 0), vfree = (\<lambda>_. True), used_idx = 0,
     info_b = (\<lambda>_. None), info_status = (\<lambda>_. 0)\<rparr>"

definition idle_inode :: inode where
  "idle_inode = \<lparr>i_dev = 0, i_inum = 0, i_ref = 0, i_valid = False, i_type = 0, i_major = 0, i_minor = 0,
     i_nlink = 0, i_size = 0, i_addrs = replicate (NDIRECT + 1) 0\<rparr>"

definition idle_file :: kfile where
  "idle_file = \<lparr>f_type = FD_NONE, f_ref = 0, f_readable = False, f_writable = False, f_pipe = 0, f_ip = None,
     f_off = 0, f_major = 0\<rparr>"

definition idle_log :: klog where
  "idle_log = \<lparr>log_start = 2, log_size = 30, log_outstanding = 0, log_committing = False, log_dev = 1,
     log_lh = \<lparr>lh_n = 0, lh_block = replicate LOGSIZE 0\<rparr>\<rparr>"

definition boot_sb :: superblock where
  "boot_sb = \<lparr>sb_magic = FSMAGIC, sb_size = 1000, sb_nblocks = 954, sb_ninodes = 200, sb_nlog = 30, sb_logstart = 2,
     sb_inodestart = 32, sb_bmapstart = 45\<rparr>"

text \<open>One request served: the header, the data and the status byte of the chain that was made available last.\<close>

definition serve_one :: device where
  "serve_one hs = (\<lambda>(d, bs, im).
     (let h = unat (avail_ring d (unat (avail_idx d - 1) mod NUM));
          hdr = (case vd_addr (desc d h) of DmaHdr k \<Rightarrow> hs k | _ \<Rightarrow> \<lparr>vh_type = 0, vh_reserved = 0, vh_sector = 0\<rparr>);
          i1 = unat (vd_next (desc d h));
          i2 = unat (vd_next (desc d i1));
          off = 512 * unat (vh_sector hdr);
          b = (case vd_addr (desc d i1) of DmaData b \<Rightarrow> b | _ \<Rightarrow> 0);
          n = unat (vd_len (desc d i1));
          st = (case vd_addr (desc d i2) of DmaStatus k \<Rightarrow> k | _ \<Rightarrow> 0)
      in (d\<lparr>used_elems := (used_elems d)(unat (used_id d) mod NUM := of_nat h), used_id := used_id d + 1,
            info_status := (info_status d)(st := 0)\<rparr>,
          (if vh_type hdr = VIRTIO_BLK_T_IN then bs(b := (bs b)\<lparr>b_data := map im [off..<off + n]\<rparr>) else bs),
          (if vh_type hdr = VIRTIO_BLK_T_IN then im
           else (\<lambda>x. if off \<le> x \<and> x < off + n then b_data (bs b) ! (x - off) else im x)))))"

definition boot :: kern where
  "boot = \<lparr>mach = m_setproc (Some 1) idle_machine, procs = (\<lambda>_. idle_proc)(1 := idle_proc\<lparr>state := RUNNING, pid := 1\<rparr>),
     nextpid = 2, initproc = None, slocks = (\<lambda>_. \<lparr>sl_locked = 0, sl_name = [], sl_pid = 0\<rparr>), mem = (\<lambda>_. 0),
     freelist = 0, kernel_pagetable = 0,
     bufs = (\<lambda>_. idle_buf), disk = idle_disk, hdrs = (\<lambda>_. \<lparr>vh_type = 0, vh_reserved = 0, vh_sector = 0\<rparr>),
     vread = (\<lambda>_. 0), vwrites = [], vdev = serve_one, img = (\<lambda>_. 0), whist = [], lg = idle_log,
     sb = boot_sb, inodes = (\<lambda>_. idle_inode),
     uart_tx_buf = replicate UART_TX_BUF_SIZE 0, uart_tx_w = 0, uart_tx_r = 0, panicked = False, lsr_tx = [],
     uart_rx = [], uwrites = [], pr_locking = True, cons_buf = replicate INPUT_BUF 0, cons_r = 0, cons_w = 0,
     cons_e = 0, devsw_tab = (\<lambda>_. \<lparr>dev_read = None, dev_write = None\<rparr>),
     ftable = (\<lambda>_. idle_file), pipes = (\<lambda>_. \<lparr>pi_data = replicate PIPESIZE 0, pi_nread = 0, pi_nwrite = 0,
       pi_readopen = False, pi_writeopen = False\<rparr>), stack_pad = [0, 0, 0, 0],
     ticks = 0, first_forkret = False, started = True, plic_irqs = [], mtime = 0, mmio_w = []\<rparr>"

lemma boot_quiet [simp]: "quiet (mach boot) 1"
  by (simp add: boot_def quiet_def)

end
