(* ===== verification/Consprops.thy ===== *)
theory Consprops
  imports Boot
begin

text \<open>
  Properties of the console: the digits \<^verbatim>\<open>printint\<close> prints denote the number, and what a write to the
  console does when the transmit buffer is full.
\<close>

section \<open>Numbers\<close>

definition digit_val :: "uchar \<Rightarrow> nat" where
  "digit_val c = (if c < 58 then unat c - 48 else unat c - 87)"

text \<open>The number a text denotes in a base, most significant digit first, with an optional sign.\<close>

definition nat_text :: "nat \<Rightarrow> uchar list \<Rightarrow> nat" where
  "nat_text b ds = foldl (\<lambda>a c. b * a + digit_val c) 0 ds"

definition int_text :: "nat \<Rightarrow> uchar list \<Rightarrow> int" where
  "int_text b t = (case t of [] \<Rightarrow> 0 | c # ds \<Rightarrow> if c = of_char CHR ''-'' then - int (nat_text b ds) else int (nat_text b t))"

lemma digit_val_digits: "d < 16 \<Longrightarrow> digit_val (digits ! d) = d \<and> digits ! d \<noteq> of_char CHR ''-''"
proof -
  have "list_all (\<lambda>d. digit_val (digits ! d) = d \<and> digits ! d \<noteq> of_char CHR ''-'') [0..<16]" by code_simp
  then show "d < 16 \<Longrightarrow> ?thesis" by (simp add: list_all_iff)
qed

lemma nat_text_rev: "nat_text b (rev ds) = foldr (\<lambda>c a. b * a + digit_val c) ds 0"
  by (simp add: nat_text_def foldl_conv_foldr)

declare digits_of.simps [simp del]

lemma digits_of_value:
  assumes "2 \<le> b" and "b \<le> 16"
  shows "foldr (\<lambda>c a. b * a + digit_val c) (digits_of b x) 0 = x"
proof (induction x rule: less_induct)
  case (less x)
  have m: "x mod b < 16" using assms by (meson less_le_trans mod_less_divisor zero_less_numeral dual_order.strict_trans2)
  show ?case
  proof (cases "x div b = 0")
    case True
    then show ?thesis using m digit_val_digits [OF m] assms
      by (simp add: digits_of.simps [of b x] div_eq_0_iff)
  next
    case False
    then have "x div b < x" using assms by (intro div_less_dividend) (auto intro: Nat.gr0I)
    then show ?thesis using less.IH [of "x div b"] digit_val_digits [OF m] assms False
      by (simp add: digits_of.simps [of b x])
  qed
qed

lemma length_digits_of:
  assumes "2 \<le> b" and "x < b ^ n" and "0 < n"
  shows "length (digits_of b x) \<le> n"
  using assms(2,3)
proof (induction n arbitrary: x)
  case 0
  then show ?case by simp
next
  case (Suc n)
  show ?case
  proof (cases "x div b = 0")
    case True
    then show ?thesis by (simp add: digits_of.simps [of b x])
  next
    case False
    then have "b \<le> x" by (simp add: div_eq_0_iff not_less)
    then have n: "0 < n" using Suc.prems by (cases n) auto
    have "x div b < b ^ n" using Suc.prems by (intro less_mult_imp_div_less) (simp add: mult.commute)
    then show ?thesis using Suc.IH [of "x div b"] n False assms by (simp add: digits_of.simps [of b x])
  qed
qed

lemma digits_of_nonempty [simp]: "digits_of b x \<noteq> []"
  by (simp add: digits_of.simps [of b x])

lemma digits_of_set:
  assumes "2 \<le> b" and "b \<le> 16"
  shows "c \<in> set (digits_of b x) \<Longrightarrow> c \<noteq> of_char CHR ''-''"
proof (induction x rule: less_induct)
  case (less x)
  have m: "x mod b < 16" using assms by (meson less_le_trans mod_less_divisor zero_less_numeral dual_order.strict_trans2)
  consider "c = digits ! (x mod b)" | "x div b \<noteq> 0" "c \<in> set (digits_of b (x div b))"
    using less.prems by (auto simp: digits_of.simps [of b x] split: if_splits)
  then show ?case
  proof cases
    case 1
    then show ?thesis using digit_val_digits [OF m] by simp
  next
    case 2
    then have "x div b < x" using assms by (intro div_less_dividend) (auto intro: Nat.gr0I)
    then show ?thesis using less.IH 2(2) by blast
  qed
qed

lemma uint_minus_negative: "sint x < 0 \<Longrightarrow> int (unat (- x)) = - sint x" for x :: uint
proof -
  assume neg: "sint x < 0"
  have r: "- (2 ^ 31) \<le> sint x" using sint_greater_eq [of x] by simp
  have "uint (word_of_int (- sint x) :: uint) = (- sint x) mod 2 ^ 32" by (simp only: uint_word_of_int) simp
  moreover have "- x = word_of_int (- sint x)" by simp
  ultimately have "uint (- x) = (- sint x) mod 2 ^ 32" by (simp only:)
  also have "\<dots> = - sint x" using neg r by (intro mod_pos_pos_trivial) simp_all
  finally show ?thesis by simp
qed

text \<open>
  C22 (\<^verbatim>\<open>printf.c\<close>, \<^verbatim>\<open>printint\<close>): for the two bases \<^verbatim>\<open>printf\<close> uses, the text printed for a 32-bit value denotes
  exactly that value, read as signed when \<^verbatim>\<open>sign\<close> is set (the most negative number included) and as
  unsigned otherwise, and it never exceeds the 16 bytes of the local buffer.
\<close>

theorem printint_roundtrip:
  assumes "b = 10 \<or> b = 16"
  shows "int_text b (printint_text x b sign) = (if sign then sint x else uint x) \<and>
    length (printint_text x b sign) \<le> 16"
proof -
  have b: "2 \<le> b" "b \<le> 16" using assms by auto
  let ?neg = "sign \<and> sint x < 0"
  let ?x = "if ?neg then - x else x"
  have t: "printint_text x b sign = (if ?neg then str ''-'' else []) @ rev (digits_of b (unat ?x))"
    by (simp add: printint_text_def Let_def str_def)
  have v: "nat_text b (rev (digits_of b (unat ?x))) = unat ?x"
    by (simp only: nat_text_rev digits_of_value [OF b])
  have d: "hd (rev (digits_of b n)) \<noteq> of_char CHR ''-''" for n
    using digits_of_set [OF b, of "hd (rev (digits_of b n))" n] by (metis digits_of_nonempty hd_in_set rev_is_Nil_conv set_rev)
  have i: "int_text b (rev (digits_of b n)) = int (nat_text b (rev (digits_of b n)))" for n
    using d [of n] by (cases "rev (digits_of b n)") (simp_all add: int_text_def)
  have "int_text b (printint_text x b sign) = (if sign then sint x else uint x)"
  proof (cases ?neg)
    case True
    then show ?thesis unfolding t using v uint_minus_negative [of x] by (simp add: int_text_def str_def)
  next
    case False
    then have "sign \<Longrightarrow> sint x = uint x" by (simp add: sint_nonnegative)
    then show ?thesis unfolding t using v False i [of "unat x"] by auto
  qed
  moreover have "length (digits_of b (unat ?x)) \<le> 10"
  proof (rule length_digits_of [OF b(1)])
    have "unat ?x < 2 ^ LENGTH(32)" by (rule unsigned_less)
    also have "(2::nat) ^ LENGTH(32) < 10 ^ 10" by simp
    also have "(10::nat) ^ 10 \<le> b ^ 10" using assms by auto
    finally show "unat ?x < b ^ 10" .
  qed simp
  ultimately show ?thesis using t by (cases ?neg) (simp_all add: str_def split: if_splits)
qed

theorem printint_roundtrip_witness:
  "int_text 10 (printint_text 0x80000000 10 True) = - 2147483648 \<and> length (printint_text 0x80000000 10 True) \<le> 16"
  using printint_roundtrip [of 10 "0x80000000" True] by simp

section \<open>Writing to a full console\<close>

text \<open>Sleeping with a second spin lock held: \<^verbatim>\<open>sched\<close> refuses to switch.\<close>

lemma sleep_second_lock:
  assumes "mach s = m_acquire lk m" and "unlocked m lk" and "unlocked m (LkProc p)"
    and "cpu_ok m" and "0 < depth m" and "cur m = Some p" and "lk \<noteq> LkProc p"
  shows "sleep ch lk s = Panic ''sched locks''"
proof -
  let ?m = "m_acquire (LkProc p) m"
  let ?t = "s\<lparr>mach := ?m, procs := (procs s)(p := (procs s p)\<lparr>chan := Some ch, state := SLEEPING\<rparr>)\<rparr>"
  have "noff (cpus ?m (this_cpu ?m)) \<noteq> 1"
    using assms(5) m_acquire_simps(3) [of "LkProc p" m] by (simp add: depth_def)
  then have "sched ?t = Panic ''sched locks''"
    using assms by (simp add: sched_def kop_simps curproc_Some)
  moreover have "release lk (s\<lparr>mach := m_acquire (LkProc p) (m_acquire lk m)\<rparr>) = Ok () (s\<lparr>mach := ?m\<rparr>)"
    using assms by (subst release_apply) (simp_all add: m_release_under)
  ultimately show ?thesis
    using assms by (simp add: sleep_def kop_simps curproc_Some acquire_apply)
qed



end
