(* ===== verification/Ring.thy ===== *)
theory Ring
  imports Prelude
begin

text \<open>
  Bounded first-in first-out buffers: the contract the kernel's ring buffers implement, what follows
  from it for a run of insertions and removals, and the arithmetic of rings indexed by free-running
  32-bit counters.
\<close>

section \<open>The contract\<close>

locale fifo =
  fixes ok :: "'s \<Rightarrow> bool" and content :: "'s \<Rightarrow> 'a list" and push :: "'a \<Rightarrow> 's \<Rightarrow> 's"
    and front :: "'s \<Rightarrow> 'a" and pop :: "'s \<Rightarrow> 's" and cap :: nat
  assumes push_ok: "ok s \<Longrightarrow> length (content s) < cap \<Longrightarrow> ok (push c s) \<and> content (push c s) = content s @ [c]"
    and pop_ok: "ok s \<Longrightarrow> content s \<noteq> [] \<Longrightarrow> ok (pop s) \<and> content s = front s # content (pop s)"
    and bounded: "ok s \<Longrightarrow> length (content s) \<le> cap"
begin

lemma push_all:
  "ok s \<Longrightarrow> length (content s) + length cs \<le> cap \<Longrightarrow> ok (fold push cs s) \<and> content (fold push cs s) = content s @ cs"
proof (induction cs arbitrary: s)
  case Nil
  then show ?case by simp
next
  case (Cons c cs)
  then have "ok (push c s)" "content (push c s) = content s @ [c]" using push_ok by simp_all
  then show ?case using Cons.IH [of "push c s"] Cons.prems by simp
qed

lemma pop_all:
  "ok s \<Longrightarrow> n \<le> length (content s) \<Longrightarrow> ok ((pop ^^ n) s) \<and> content ((pop ^^ n) s) = drop n (content s)"
proof (induction n)
  case 0
  then show ?case by simp
next
  case (Suc n)
  then have IH: "ok ((pop ^^ n) s)" "content ((pop ^^ n) s) = drop n (content s)" by simp_all
  then have "content ((pop ^^ n) s) \<noteq> []" using Suc.prems by simp
  with pop_ok [OF IH(1)] IH(2) have "ok (pop ((pop ^^ n) s))" "drop n (content s) = front ((pop ^^ n) s) # content (pop ((pop ^^ n) s))"
    by simp_all
  then show ?case by (metis drop_Suc funpow.simps(2) comp_apply list.sel(3) tl_drop)
qed

lemma front_nth: "ok s \<Longrightarrow> n < length (content s) \<Longrightarrow> front ((pop ^^ n) s) = content s ! n"
  using pop_all [of s n] pop_ok [of "(pop ^^ n) s"] by (metis Cons_nth_drop_Suc drop_eq_Nil leD less_imp_le_nat list.inject)

text \<open>What was inserted comes out in order after what was there before.\<close>

lemma fifo_order:
  assumes "ok s" and "length (content s) + length cs \<le> cap" and "n < length (content s) + length cs"
  shows "front ((pop ^^ n) (fold push cs s)) = (content s @ cs) ! n"
  using push_all [OF assms(1,2)] front_nth [of "fold push cs s" n] assms(3) by simp

end

section \<open>Rings with free-running counters\<close>

definition ring_content :: "nat \<Rightarrow> 'a list \<Rightarrow> uint \<Rightarrow> uint \<Rightarrow> 'a list" where
  "ring_content N d r w = map (\<lambda>i. d ! ((unat r + i) mod N)) [0..<unat (w - r)]"

lemma length_ring_content [simp]: "length (ring_content N d r w) = unat (w - r)"
  by (simp add: ring_content_def)

lemma unat_plus_mod: "N dvd 2 ^ 32 \<Longrightarrow> unat (r + of_nat i :: uint) mod N = (unat r + i) mod N"
  by (simp add: unat_word_ariths unat_of_nat mod_mod_cancel mod_add_right_eq)

lemma unat_succ: "unat k < 2 ^ 32 - 1 \<Longrightarrow> unat (k + 1 :: uint) = unat k + 1"
  by (simp add: unat_word_ariths)

lemma ring_push:
  assumes "N dvd 2 ^ 32" and "N < 2 ^ 32" and "length d = N" and "unat (w - r) < N"
  shows "ring_content N (d[unat w mod N := c]) r (w + 1) = ring_content N d r w @ [c]"
proof -
  let ?k = "unat (w - r)"
  have N: "0 < N" using assms(4) by simp
  have len: "unat (w + 1 - r) = ?k + 1"
  proof -
    have "w + 1 - r = (w - r) + 1" by simp
    then show ?thesis using assms(2,4) unat_succ [of "w - r"] by (simp only:)
  qed
  have w: "unat w mod N = (unat r + ?k) mod N"
    using unat_plus_mod [OF assms(1), of r ?k] by simp
  have diff: "(unat r + i) mod N \<noteq> (unat r + ?k) mod N" if "i < ?k" for i
  proof
    assume "(unat r + i) mod N = (unat r + ?k) mod N"
    then have "N dvd (unat r + ?k) - (unat r + i)" using that by (intro mod_eq_dvd_iff_nat [THEN iffD1]) auto
    then have "N dvd ?k - i" by simp
    then show False using that assms(4) by (auto dest: dvd_imp_le)
  qed
  show ?thesis
  proof (rule nth_equalityI)
    show "length (ring_content N (d[unat w mod N := c]) r (w + 1)) = length (ring_content N d r w @ [c])"
      using len by simp
    fix i assume "i < length (ring_content N (d[unat w mod N := c]) r (w + 1))"
    then have "i < ?k \<or> i = ?k" using len by auto
    then show "ring_content N (d[unat w mod N := c]) r (w + 1) ! i = (ring_content N d r w @ [c]) ! i"
      using len diff [THEN not_sym] N assms(3) by (auto simp: ring_content_def w nth_append)
  qed
qed

lemma ring_pop:
  assumes "N dvd 2 ^ 32" and "w \<noteq> r"
  shows "ring_content N d r w = d ! (unat r mod N) # ring_content N d (r + 1) w"
proof -
  have "0 < unat (w - r)" using assms(2) by (simp add: unat_gt_0)
  moreover have "unat (w - (r + 1)) = unat (w - r) - 1"
  proof -
    have "w - (r + 1) = (w - r) - 1" by simp
    moreover have "unat (w - r - 1) = unat (w - r) - 1" using assms(2) by (intro unat_minus_one) simp
    ultimately show ?thesis by (simp only:)
  qed
  ultimately have len: "unat (w - r) = Suc (unat (w - (r + 1)))" by simp
  have "(unat (r + 1) + i) mod N = (unat r + Suc i) mod N" for i
    using unat_plus_mod [OF assms(1), of r 1] by (simp add: mod_add_cong)
  then show ?thesis by (simp add: ring_content_def len upt_conv_Cons map_Suc_upt [symmetric] comp_def del: upt_Suc)
qed

end
