(* ===== verification/Pipeprops.thy ===== *)
theory Pipeprops
  imports Boot Ring
begin

text \<open>
  Pipes are first-in first-out: the ring buffer of \<^verbatim>\<open>struct pipe\<close> implements the contract of \<open>Ring\<close>, and
  \<^verbatim>\<open>pipewrite\<close> and \<^verbatim>\<open>piperead\<close> move bytes between it and user memory.
\<close>

section \<open>The ring buffer of a pipe\<close>

definition pipe_ok :: "pipe \<Rightarrow> bool" where
  "pipe_ok x \<longleftrightarrow> length (pi_data x) = PIPESIZE \<and> unat (pi_nwrite x - pi_nread x) \<le> PIPESIZE"

definition pipe_bytes :: "pipe \<Rightarrow> uchar list" where
  "pipe_bytes x = ring_content PIPESIZE (pi_data x) (pi_nread x) (pi_nwrite x)"

definition pipe_push :: "uchar \<Rightarrow> pipe \<Rightarrow> pipe" where
  "pipe_push c x = x\<lparr>pi_data := (pi_data x)[unat (pi_nwrite x) mod PIPESIZE := c], pi_nwrite := pi_nwrite x + 1\<rparr>"

definition pipe_front :: "pipe \<Rightarrow> uchar" where
  "pipe_front x = pi_data x ! (unat (pi_nread x) mod PIPESIZE)"

definition pipe_pop :: "pipe \<Rightarrow> pipe" where
  "pipe_pop x = x\<lparr>pi_nread := pi_nread x + 1\<rparr>"

lemma PIPESIZE_ring: "PIPESIZE dvd 2 ^ 32" "PIPESIZE < 2 ^ 32"
  by (simp_all add: PIPESIZE_def)

lemma length_pipe_bytes [simp]: "length (pipe_bytes x) = unat (pi_nwrite x - pi_nread x)"
  by (simp add: pipe_bytes_def)

interpretation pq: fifo pipe_ok pipe_bytes pipe_push pipe_front pipe_pop PIPESIZE
proof
  fix x c assume x: "pipe_ok x" "length (pipe_bytes x) < PIPESIZE"
  then have len: "unat (pi_nwrite x + 1 - pi_nread x) = unat (pi_nwrite x - pi_nread x) + 1"
  proof -
    have "pi_nwrite x + 1 - pi_nread x = (pi_nwrite x - pi_nread x) + 1" by simp
    then show ?thesis using x(2) PIPESIZE_ring(2) unat_succ [of "pi_nwrite x - pi_nread x"] by (simp only:) simp
  qed
  have "pipe_bytes (pipe_push c x) = pipe_bytes x @ [c]"
    using x PIPESIZE_ring by (simp add: pipe_bytes_def pipe_push_def ring_push pipe_ok_def)
  then show "pipe_ok (pipe_push c x) \<and> pipe_bytes (pipe_push c x) = pipe_bytes x @ [c]"
    using x len by (simp add: pipe_ok_def pipe_push_def)
next
  fix x assume x: "pipe_ok x" "pipe_bytes x \<noteq> []"
  then have ne: "pi_nwrite x \<noteq> pi_nread x" by (auto simp: pipe_bytes_def ring_content_def)
  have eq: "pipe_bytes x = pipe_front x # pipe_bytes (pipe_pop x)"
    using ring_pop [OF PIPESIZE_ring(1) ne] by (simp add: pipe_bytes_def pipe_front_def pipe_pop_def)
  then have "length (pipe_bytes (pipe_pop x)) \<le> length (pipe_bytes x)" by (simp only: length_Cons)
  then have "pipe_ok (pipe_pop x)"
    using x(1) by (simp add: pipe_ok_def pipe_pop_def)
  with eq show "pipe_ok (pipe_pop x) \<and> pipe_bytes x = pipe_front x # pipe_bytes (pipe_pop x)" by blast
next
  fix x assume "pipe_ok x"
  then show "length (pipe_bytes x) \<le> PIPESIZE" by (simp add: pipe_ok_def)
qed

lemma pipe_full: "pipe_ok x \<Longrightarrow> pi_nwrite x = pi_nread x + of_nat PIPESIZE \<longleftrightarrow> length (pipe_bytes x) = PIPESIZE"
proof -
  have "(of_nat PIPESIZE :: uint) = of_nat (unat (pi_nwrite x - pi_nread x)) \<longleftrightarrow> PIPESIZE = unat (pi_nwrite x - pi_nread x)"
    if "pipe_ok x"
    using that by (auto simp: pipe_ok_def PIPESIZE_def word_unat_eq_iff)
  then show "pipe_ok x \<Longrightarrow> ?thesis" by (auto simp: algebra_simps)
qed

lemma pipe_empty: "pi_nread x = pi_nwrite x \<longleftrightarrow> pipe_bytes x = []"
proof -
  have "pipe_bytes x = [] \<longleftrightarrow> unat (pi_nwrite x - pi_nread x) = 0" by (simp flip: length_0_conv)
  then show ?thesis by (auto simp: unat_eq_0)
qed

section \<open>Effects\<close>

lemma pipe_apply [simp]:
  "get_pipe pi g s = Ok (g (pipes s pi)) s"
  "upd_pipe pi g s = Ok () (s\<lparr>pipes := (pipes s)(pi := g (pipes s pi))\<rparr>)"
  by (simp_all add: get_pipe_def upd_pipe_def)

lemma pipes_last [simp]:
  "s\<lparr>pipes := x, mach := m\<rparr> = s\<lparr>mach := m, pipes := x\<rparr>"
  "s\<lparr>pipes := x, procs := p\<rparr> = s\<lparr>procs := p, pipes := x\<rparr>"
  "s\<lparr>pipes := x, mem := b\<rparr> = s\<lparr>mem := b, pipes := x\<rparr>" for s :: "'z fist_scheme"
  by (cases s; simp)+

lemma copyin_one:
  assumes "tree_ok (mem s) root" and "user_mapped (mem s) root va"
  shows "copyin root va 1 s = Ok (0, user_bytes (mem s) root va 1) s"
proof -
  have "range_mapped (mem s) root va 1" using assms(2) by (simp add: range_mapped_def)
  then show ?thesis using copyin_spec [OF assms(1), of va 1] by auto
qed

lemma user_bytes_Suc: "user_bytes m root va (Suc k) = hd (user_bytes m root va 1) # user_bytes m root (va + 1) k"
  using user_bytes_split [of 1 "Suc k" m root va] by (simp add: user_bytes_def)

lemma range_mapped_Suc: "range_mapped m root va (Suc k) \<longleftrightarrow> user_mapped m root va \<and> range_mapped m root (va + 1) k"
  using range_mapped_split [of 1 "Suc k" m root va] by (simp add: range_mapped_def)

declare pipewrite_loop.simps(2) [simp del] piperead_loop.simps(2) [simp del]

lemma pipewrite_advance:
  fixes s :: "'z fist_scheme"
  assumes "tree_ok (mem s) root" and "root = ppagetable (procs s pr)" and "range_mapped (mem s) root (a + of_nat i) k"
    and "pipe_ok (pipes s pi)" and "length (pipe_bytes (pipes s pi)) + k \<le> PIPESIZE"
  shows "pipewrite_loop pi pr a i (k + n) s = pipewrite_loop pi pr a (i + k) n
    (s\<lparr>pipes := (pipes s)(pi := fold pipe_push (user_bytes (mem s) root (a + of_nat i) k) (pipes s pi))\<rparr>)"
  using assms
proof (induction k arbitrary: i s)
  case 0
  then show ?case by (simp add: user_bytes_def)
next
  case (Suc k)
  let ?x = "pipes s pi" and ?c = "hd (user_bytes (mem s) root (a + of_nat i) 1)"
  let ?t = "s\<lparr>pipes := (pipes s)(pi := pipe_push ?c ?x)\<rparr>"
  have m: "user_mapped (mem s) root (a + of_nat i)" "range_mapped (mem s) root (a + of_nat (i + 1)) k"
    using Suc.prems(3) range_mapped_Suc [of "mem s" root "a + of_nat i" k] by (simp_all add: add_ac)
  have push: "pipe_ok (pipe_push ?c ?x)" "pipe_bytes (pipe_push ?c ?x) = pipe_bytes ?x @ [?c]"
    using pq.push_ok [of ?x ?c] Suc.prems(4,5) by simp_all
  have nf: "pi_nwrite ?x \<noteq> pi_nread ?x + of_nat PIPESIZE"
    using pipe_full [OF Suc.prems(4)] Suc.prems(5) by simp
  have "length (pipe_bytes (pipe_push ?c ?x)) + k \<le> PIPESIZE" using push(2) Suc.prems(5) by (simp only: length_append) simp
  then have "pipewrite_loop pi pr a (i + 1) (k + n) ?t = pipewrite_loop pi pr a (i + 1 + k) n
    (?t\<lparr>pipes := (pipes ?t)(pi := fold pipe_push (user_bytes (mem ?t) root (a + of_nat (i + 1)) k) (pipes ?t pi))\<rparr>)"
    using Suc.prems(1,2) m(2) push(1) by (intro Suc.IH) simp_all
  moreover have "pipewrite_loop pi pr a i (Suc k + n) s = pipewrite_loop pi pr a (i + 1) (k + n) ?t"
    using copyin_one [OF Suc.prems(1) m(1)] nf Suc.prems(2) by (simp add: pipewrite_loop.simps(2) kop_simps pipe_push_def)
  ultimately have "pipewrite_loop pi pr a i (Suc k + n) s = pipewrite_loop pi pr a (i + 1 + k) n
    (s\<lparr>pipes := (pipes s)(pi := fold pipe_push (user_bytes (mem s) root (a + of_nat (i + 1)) k) (pipe_push ?c ?x))\<rparr>)"
    by simp
  moreover have "fold pipe_push (user_bytes (mem s) root (a + of_nat i) (Suc k)) ?x =
    fold pipe_push (user_bytes (mem s) root (a + of_nat (i + 1)) k) (pipe_push ?c ?x)"
    unfolding user_bytes_Suc [of "mem s" root "a + of_nat i" k] by (simp add: add_ac)
  ultimately show ?case by (simp only: add_Suc_right add_Suc add_0 plus_1_eq_Suc add.commute [of i 1])
qed

lemma fold_push_fields [simp]:
  "pi_readopen (fold pipe_push cs x) = pi_readopen x" "pi_writeopen (fold pipe_push cs x) = pi_writeopen x"
  by (induction cs arbitrary: x) (simp_all add: pipe_push_def)

text \<open>The three ways the loop of \<^verbatim>\<open>pipewrite\<close> ends once it cannot advance.\<close>

lemma pipewrite_done:
  assumes "quiet m pr" and "mach s = m_acquire (LkPipe pi) m"
  shows "pipewrite_loop pi pr a i 0 s = Ok (int i) (s\<lparr>mach := m_note m, procs := wake_all (ChPipeNread pi) (procs s)\<rparr>)"
  using quietD [OF assms(1)] quiet_lock [OF assms(1)] assms(2) by (simp add: kop_simps wakeup_all)

lemma pipewrite_stuck:
  assumes "quiet m pr" and "mach s = m_acquire (LkPipe pi) m" and "pipe_ok (pipes s pi)"
    and "length (pipe_bytes (pipes s pi)) = PIPESIZE"
  shows "pipewrite_loop pi pr a i (Suc n) s =
    (if \<not> pi_readopen (pipes s pi) \<or> killed (procs s pr) then Ok (- 1) (s\<lparr>mach := m_note m\<rparr>)
     else Blocked (s\<lparr>mach := m_acquire (LkProc pr) m,
       procs := (wake_all (ChPipeNread pi) (procs s))(pr := (wake_all (ChPipeNread pi) (procs s) pr)
         \<lparr>chan := Some (ChPipeNwrite pi), state := SLEEPING\<rparr>)\<rparr>))"
proof -
  note q = quietD [OF assms(1)] quiet_lock [OF assms(1)]
  let ?t = "s\<lparr>mach := m_acquire (LkPipe pi) m, procs := wake_all (ChPipeNread pi) (procs s)\<rparr>"
  have "sleep (ChPipeNwrite pi) (LkPipe pi) ?t = Blocked (?t\<lparr>mach := m_acquire (LkProc pr) m,
      procs := (procs ?t)(pr := (procs ?t pr)\<lparr>chan := Some (ChPipeNwrite pi), state := SLEEPING\<rparr>)\<rparr>)"
    using q by (intro sleep_apply) simp_all
  then show ?thesis
    using q assms(2) pipe_full [OF assms(3)] assms(4)
    by (simp add: pipewrite_loop.simps(2) kop_simps wakeup_all sleep_away_def)
qed

text \<open>
  C20 (\<^verbatim>\<open>pipe.c\<close>, \<^verbatim>\<open>pipewrite\<close>): writing \<open>n\<close> bytes of mapped user memory to a pipe appends exactly those bytes,
  in order, behind what the pipe holds. If they fit, it returns \<open>n\<close> with the readers woken; if not, it
  fills the pipe, then fails with -1 when the read end is closed or the writer was killed, and otherwise
  wakes the readers and sleeps on \<^verbatim>\<open>pi->nwrite\<close>.
\<close>

theorem pipewrite_appends:
  fixes s :: "'z fist_scheme" and pi a n
  assumes "quiet (mach s) pr" and "tree_ok (mem s) (ppagetable (procs s pr))"
    and "range_mapped (mem s) (ppagetable (procs s pr)) a n" and "pipe_ok (pipes s pi)"
  defines "bs \<equiv> user_bytes (mem s) (ppagetable (procs s pr)) a n"
    and "room \<equiv> PIPESIZE - length (pipe_bytes (pipes s pi))"
  shows "\<exists>t. pipe_ok (pipes t pi) \<and> pipe_bytes (pipes t pi) = pipe_bytes (pipes s pi) @ take room bs \<and> mem t = mem s \<and>
    (if n \<le> room then pipewrite pi a (int n) s = Ok (int n) t \<and> procs t = wake_all (ChPipeNread pi) (procs s)
     else if \<not> pi_readopen (pipes s pi) \<or> killed (procs s pr)
     then pipewrite pi a (int n) s = Ok (- 1) t \<and> procs t = procs s
     else pipewrite pi a (int n) s = Blocked t \<and> state (procs t pr) = SLEEPING \<and>
       chan (procs t pr) = Some (ChPipeNwrite pi) \<and>
       (\<forall>q. q \<noteq> pr \<longrightarrow> procs t q = wake_all (ChPipeNread pi) (procs s) q))"
proof -
  note q = quietD [OF assms(1)]
  let ?k = "min n room" and ?root = "ppagetable (procs s pr)" and ?m = "m_note (mach s)"
  let ?x = "fold pipe_push (user_bytes (mem s) ?root a ?k) (pipes s pi)"
  let ?t = "s\<lparr>mach := m_acquire (LkPipe pi) ?m, pipes := (pipes s)(pi := ?x)\<rparr>"
  have qm: "quiet ?m pr" using assms(1) by simp
  have len: "length (pipe_bytes (pipes s pi)) + ?k \<le> PIPESIZE"
    using pq.bounded [OF assms(4)] by (simp add: room_def)
  have bs: "user_bytes (mem s) ?root a ?k = take room bs"
    unfolding bs_def user_bytes_def by (cases "n \<le> room") (simp_all add: take_map min_def)
  have lbs: "length bs = n" by (simp add: bs_def)
  have x: "pipe_ok ?x" "pipe_bytes ?x = pipe_bytes (pipes s pi) @ take room bs"
    using pq.push_all [OF assms(4), of "user_bytes (mem s) ?root a ?k"] len bs lbs by simp_all
  let ?s = "s\<lparr>mach := m_acquire (LkPipe pi) ?m\<rparr>"
  have "tree_ok (mem ?s) ?root" "?root = ppagetable (procs ?s pr)" "range_mapped (mem ?s) ?root (a + of_nat 0) ?k"
    "pipe_ok (pipes ?s pi)" "length (pipe_bytes (pipes ?s pi)) + ?k \<le> PIPESIZE"
    using assms(2,3,4) len by (simp_all add: range_mapped_def)
  note adv' = pipewrite_advance [OF this, of "n - ?k"]
  have "pipewrite pi a (int n) s = pipewrite_loop pi pr a 0 n ?s"
    using q by (simp add: pipewrite_def kop_simps curproc_Some acquire_apply)
  also have "\<dots> = pipewrite_loop pi pr a 0 (?k + (n - ?k)) ?s" by simp
  also have "\<dots> = pipewrite_loop pi pr a ?k (n - ?k) ?t" unfolding adv' by simp
  finally have adv: "pipewrite pi a (int n) s = pipewrite_loop pi pr a ?k (n - ?k) ?t" .
  show ?thesis
  proof (cases "n \<le> room")
    case True
    let ?u = "?t\<lparr>mach := m_note ?m, procs := wake_all (ChPipeNread pi) (procs s)\<rparr>"
    have k: "min n room = n" using True by simp
    have "pipewrite pi a (int n) s = Ok (int n) ?u"
      unfolding adv k using pipewrite_done [OF qm, of ?t pi a n] k by simp
    then show ?thesis using x True by (intro exI [of _ ?u]) simp
  next
    case False
    then obtain j where j: "n - ?k = Suc j" by (metis Suc_diff_Suc min.absorb2 nat_le_linear not_le)
    have full: "length (pipe_bytes ?x) = PIPESIZE"
      unfolding x(2) length_append using False pq.bounded [OF assms(4)] by (simp add: bs_def room_def min_def)
    have "mach ?t = m_acquire (LkPipe pi) ?m" "pipe_ok (pipes ?t pi)" "length (pipe_bytes (pipes ?t pi)) = PIPESIZE"
      using x(1) full by simp_all
    note stuck = pipewrite_stuck [OF qm this, of a ?k j]
    let ?w = "wake_all (ChPipeNread pi) (procs s)"
    let ?u = "?t\<lparr>mach := m_acquire (LkProc pr) ?m,
      procs := ?w(pr := (?w pr)\<lparr>chan := Some (ChPipeNwrite pi), state := SLEEPING\<rparr>)\<rparr>"
    show ?thesis
    proof (cases "\<not> pi_readopen (pipes s pi) \<or> killed (procs s pr)")
      case True
      then have "pipewrite pi a (int n) s = Ok (- 1) (?t\<lparr>mach := m_note ?m\<rparr>)" unfolding adv j stuck by simp
      then show ?thesis using x False True by (intro exI [of _ "?t\<lparr>mach := m_note ?m\<rparr>"]) simp
    next
      case open': False
      then have "pipewrite pi a (int n) s = Blocked ?u" unfolding adv j stuck by simp
      then show ?thesis using x False open' by (intro exI [of _ ?u]) simp
    qed
  qed
qed

section \<open>Reading\<close>

lemma range_owned_cong:
  assumes "\<And>v. pte_of (mem t) root v = pte_of (mem s) root v" and "nodes (mem t) root = nodes (mem s) root"
  shows "range_owned ps t root va n = range_owned ps s root va n"
  using user_cong(1) [of "mem t" root "mem s", OF assms(1)] assms by (simp add: range_owned_def)

definition filled :: "'z kmst_scheme \<Rightarrow> addr \<Rightarrow> uint64 \<Rightarrow> uchar list \<Rightarrow> memory \<Rightarrow> bool" where
  "filled s root va bs m \<longleftrightarrow>
     (\<forall>j < length bs. m (user_addr (mem s) root (va + of_nat j)) = bs ! j) \<and>
     (\<forall>x. (\<forall>j < length bs. x \<noteq> user_addr (mem s) root (va + of_nat j)) \<longrightarrow> m x = mem s x)"

lemma filled_Cons:
  assumes "filled s root va [c] (mem t)" and "filled t root (va + 1) bs m"
    and "\<And>v. pte_of (mem t) root v = pte_of (mem s) root v"
    and "inj_on (\<lambda>i. user_addr (mem s) root (va + of_nat i)) {..<Suc (length bs)}"
  shows "filled s root va (c # bs) m"
proof -
  let ?f = "\<lambda>i. user_addr (mem s) root (va + of_nat i)"
  note u = user_cong(1) [of "mem t" root "mem s", OF assms(3)]
  have sh: "va + 1 + of_nat j = va + of_nat (Suc j)" for j by simp
  have first: "mem t (?f 0) = c" and t: "x \<noteq> ?f 0 \<Longrightarrow> mem t x = mem s x" for x
    using assms(1) by (simp_all add: filled_def)
  have rest: "j < length bs \<Longrightarrow> m (?f (Suc j)) = bs ! j" for j
    using assms(2) unfolding filled_def u sh by blast
  have other: "(\<forall>j < length bs. x \<noteq> ?f (Suc j)) \<Longrightarrow> m x = mem t x" for x
    using assms(2) unfolding filled_def u sh by blast
  have "m (?f j) = (c # bs) ! j" if "j < length (c # bs)" for j
  proof (cases j)
    case 0
    have "?f 0 \<noteq> ?f (Suc i)" if "i < length bs" for i
      using inj_onD [OF assms(4), of 0 "Suc i"] that by auto
    then show ?thesis using other first 0 by simp
  next
    case (Suc i)
    then show ?thesis using rest that by simp
  qed
  moreover have "m x = mem s x" if "\<forall>j < length (c # bs). x \<noteq> ?f j" for x
  proof -
    have "x \<noteq> ?f 0" "\<forall>j < length bs. x \<noteq> ?f (Suc j)" using that by auto
    then show ?thesis using other t by metis
  qed
  ultimately show ?thesis unfolding filled_def by blast
qed

lemma copyout_one:
  fixes s :: "'z kmst_scheme"
  assumes "pt_ok ps s root" and "range_mapped (mem s) root va (Suc k)" and "range_owned ps s root va (Suc k)"
  shows "\<exists>t. copyout root va [c] s = Ok 0 t \<and> t = s\<lparr>mem := mem t\<rparr> \<and> pt_ok ps t root \<and>
    (\<forall>v. pte_of (mem t) root v = pte_of (mem s) root v) \<and> nodes (mem t) root = nodes (mem s) root \<and>
    filled s root va [c] (mem t)"
proof -
  have "range_mapped (mem s) root va (length [c])"
    using range_mapped_first [OF assms(2)] by (simp add: range_mapped_def)
  moreover have "range_owned ps s root va (length [c])"
    using range_owned_first [OF assms(3)] by (simp add: range_owned_def inj_on_def)
  ultimately show ?thesis using copyout_spec [OF assms(1), of va "[c]"] unfolding filled_def by simp
qed

lemma piperead_loop_spec:
  fixes s :: "'z fist_scheme"
  assumes "pt_ok ps s root" and "root = ppagetable (procs s pr)" and "pipe_ok (pipes s pi)"
    and "range_mapped (mem s) root (a + of_nat i) (min n (length (pipe_bytes (pipes s pi))))"
    and "range_owned ps s root (a + of_nat i) (min n (length (pipe_bytes (pipes s pi))))"
  shows "\<exists>m. piperead_loop pi pr a i n s = Ok (i + min n (length (pipe_bytes (pipes s pi))))
      (s\<lparr>mem := m, pipes := (pipes s)(pi := (pipe_pop ^^ min n (length (pipe_bytes (pipes s pi)))) (pipes s pi))\<rparr>) \<and>
    pt_ok ps (s\<lparr>mem := m\<rparr>) root \<and> (\<forall>v. pte_of m root v = pte_of (mem s) root v) \<and>
    filled s root (a + of_nat i) (take n (pipe_bytes (pipes s pi))) m"
  using assms
proof (induction n arbitrary: i s)
  case 0
  have "s = s\<lparr>mem := mem s, pipes := (pipes s)(pi := pipes s pi)\<rparr>" by simp
  then show ?case using 0 by (intro exI [of _ "mem s"]) (simp add: filled_def)
next
  case (Suc n)
  let ?x = "pipes s pi"
  show ?case
  proof (cases "pipe_bytes ?x")
    case Nil
    then have "pi_nread ?x = pi_nwrite ?x" by (simp add: pipe_empty)
    then have "piperead_loop pi pr a i (Suc n) s = Ok i s" by (simp add: piperead_loop.simps(2))
    then show ?thesis using Nil Suc.prems(1) by (intro exI [of _ "mem s"]) (simp add: filled_def del: length_pipe_bytes)
  next
    case (Cons c bs)
    let ?k = "min n (length bs)" and ?va = "a + of_nat i"
    let ?s = "s\<lparr>pipes := (pipes s)(pi := pipe_pop ?x)\<rparr>"
    have min: "min (Suc n) (length (pipe_bytes ?x)) = Suc ?k" using Cons by simp
    have pop: "pipe_ok (pipe_pop ?x)" "pipe_front ?x = c" "pipe_bytes (pipe_pop ?x) = bs"
      using pq.pop_ok [OF Suc.prems(3)] Cons by simp_all
    have ne: "pi_nread ?x \<noteq> pi_nwrite ?x" using Cons by (simp add: pipe_empty)
    have r: "range_mapped (mem s) root ?va (Suc ?k)" "range_owned ps s root ?va (Suc ?k)"
      using Suc.prems(4,5) unfolding min by simp_all
    then have "range_mapped (mem ?s) root ?va (Suc ?k)" "range_owned ps ?s root ?va (Suc ?k)" "pt_ok ps ?s root"
      using Suc.prems(1) by (simp_all add: range_owned_def pt_ok_def kmem_ok_def ram_page_def)
    then obtain u where u: "copyout root ?va [c] ?s = Ok 0 u" "u = ?s\<lparr>mem := mem u\<rparr>" "pt_ok ps u root"
      "\<forall>v. pte_of (mem u) root v = pte_of (mem s) root v" "nodes (mem u) root = nodes (mem s) root"
      "filled s root ?va [c] (mem u)"
      using copyout_one [of ps ?s root ?va ?k c] by (auto simp: filled_def)
    have pu: "pipes u = (pipes s)(pi := pipe_pop ?x)" "procs u = procs s" by (subst u(2), simp)+
    then have pp: "pipes u pi = pipe_pop ?x" by simp
    have va: "?va + 1 = a + of_nat (i + 1)" by simp
    have "range_mapped (mem u) root (a + of_nat (i + 1)) ?k" "range_owned ps u root (a + of_nat (i + 1)) ?k"
      using r range_mapped_Suc range_owned_split(1) [OF r(2), of 1] user_cong(3) [OF u(4) [rule_format]]
        range_owned_cong [OF u(4) [rule_format] u(5)] by (simp_all add: add_ac)
    then have "\<exists>m. piperead_loop pi pr a (i + 1) n u = Ok (i + 1 + min n (length bs))
        (u\<lparr>mem := m, pipes := (pipes u)(pi := (pipe_pop ^^ min n (length bs)) (pipe_pop ?x))\<rparr>) \<and>
      pt_ok ps (u\<lparr>mem := m\<rparr>) root \<and> (\<forall>v. pte_of m root v = pte_of (mem u) root v) \<and>
      filled u root (a + of_nat (i + 1)) (take n bs) m"
      using Suc.prems(2) pu(2) by (intro Suc.IH [of u "i + 1", unfolded pp pop(3), OF u(3) _ pop(1)]) simp_all
    then obtain m where m: "piperead_loop pi pr a (i + 1) n u = Ok (i + 1 + ?k)
        (u\<lparr>mem := m, pipes := (pipes u)(pi := (pipe_pop ^^ ?k) (pipe_pop ?x))\<rparr>)"
      "pt_ok ps (u\<lparr>mem := m\<rparr>) root" "\<forall>v. pte_of m root v = pte_of (mem u) root v"
      "filled u root (a + of_nat (i + 1)) (take n bs) m" by blast
    have su: "u\<lparr>mem := m, pipes := (pipes u)(pi := (pipe_pop ^^ ?k) (pipe_pop ?x))\<rparr> =
      s\<lparr>mem := m, pipes := (pipes s)(pi := (pipe_pop ^^ Suc ?k) ?x)\<rparr>"
      by (subst u(2)) (simp add: pu funpow_swap1)
    have "piperead_loop pi pr a i (Suc n) s = piperead_loop pi pr a (i + 1) n u"
      using u(1) ne pop(2) Suc.prems(2) by (simp add: piperead_loop.simps(2) kop_simps pipe_pop_def pipe_front_def)
    then have run: "piperead_loop pi pr a i (Suc n) s =
      Ok (i + Suc ?k) (s\<lparr>mem := m, pipes := (pipes s)(pi := (pipe_pop ^^ Suc ?k) ?x)\<rparr>)"
      unfolding m(1) su by simp
    have "pt_ok ps (s\<lparr>mem := m\<rparr>) root"
    proof -
      have "u\<lparr>mem := m\<rparr> = s\<lparr>mem := m, pipes := pipes u\<rparr>" by (subst u(2)) (simp add: pu)
      then show ?thesis using m(2) by (simp add: pt_ok_def kmem_ok_def ram_page_def)
    qed
    moreover have "filled s root ?va (take (Suc n) (pipe_bytes ?x)) m"
      unfolding Cons take_Suc_Cons
    proof (rule filled_Cons [OF u(6) _ u(4) [rule_format]])
      show "filled u root (?va + 1) (take n bs) m" using m(4) unfolding va .
      have "Suc (length (take n bs)) = Suc ?k" by simp
      then show "inj_on (\<lambda>i. user_addr (mem s) root (?va + of_nat i)) {..<Suc (length (take n bs))}"
        using r(2) unfolding range_owned_def by (simp only: min.commute)
    qed
    moreover have "\<forall>v. pte_of m root v = pte_of (mem s) root v" using m(3) u(4) by simp
    ultimately show ?thesis unfolding min using run by blast
  qed
qed

lemma filled_bytes:
  assumes "filled s root va bs m" and "\<And>v. pte_of m root v = pte_of (mem s) root v"
  shows "user_bytes m root va (length bs) = bs"
  using assms user_cong(1) [of m root "mem s"] by (auto simp: filled_def user_bytes_def intro: nth_equalityI)


section \<open>A concrete pipe\<close>

text \<open>Process 1 has one page of memory and the pipe at address 0 holds the two bytes 7 and 8.\<close>

definition pipe_kern :: kern where
  "pipe_kern = boot\<lparr>mem := one_page_mem, freelist := 0x80050000,
     procs := (procs boot)(1 := (procs boot 1)\<lparr>ppagetable := 0x80040000\<rparr>),
     pipes := (pipes boot)(0 := \<lparr>pi_data = (replicate PIPESIZE 0)[0 := 7, 1 := 8], pi_nread = 0, pi_nwrite = 2,
       pi_readopen = True, pi_writeopen = True\<rparr>)\<rparr>"

lemma pipe_kern_simps [simp]:
  "mach pipe_kern = mach boot" "mem pipe_kern = one_page_mem" "ppagetable (procs pipe_kern (Suc 0)) = 0x80040000"
  "pipe_ok (pipes pipe_kern 0)" "pipe_bytes (pipes pipe_kern 0) = [7, 8]" "killed (procs pipe_kern (Suc 0)) = False"
  by (simp_all add: pipe_kern_def boot_def pipe_ok_def pipe_bytes_def ring_content_def PIPESIZE_def idle_proc_def upt_rec)

lemma pipe_kern_quiet [simp]: "quiet (mach pipe_kern) (Suc 0)"
  using boot_quiet by simp

lemma pipe_kern_pt: "pt_ok [0x80050000] pipe_kern 0x80040000" "range_owned [0x80050000] pipe_kern 0x80040000 5 3"
  using one_page_ok one_page_range(2)
  by (simp_all add: pt_ok_def kmem_ok_def ram_page_def range_owned_def one_page_def two_pages_def pipe_kern_def boot_def)

theorem pipewrite_appends_witness:
  "\<exists>t. pipewrite 0 5 3 pipe_kern = Ok 3 t \<and> pipe_bytes (pipes t 0) = [7, 8] @ user_bytes one_page_mem 0x80040000 5 3"
proof -
  have "tree_ok one_page_mem 0x80040000" using pipe_kern_pt(1) by (simp add: pt_ok_def)
  moreover have "range_mapped one_page_mem 0x80040000 5 3" using one_page_range(1) by (simp add: one_page_def)
  ultimately have "\<exists>t. pipe_bytes (pipes t 0) = [7, 8] @ take 510 (user_bytes one_page_mem 0x80040000 5 3) \<and>
      pipewrite 0 5 (int 3) pipe_kern = Ok (int 3) t"
    using pipewrite_appends [OF pipe_kern_quiet, of 5 3 0] by (auto simp: PIPESIZE_def)
  then show ?thesis by (auto simp: user_bytes_def)
qed


end
