(* ===== verification/Diskprops.thy ===== *)
theory Diskprops
  imports Boot
begin

text \<open>
  What a disk transfer does: the contract of the device the driver relies on, the descriptors a request
  occupies, and the effect of \<^verbatim>\<open>virtio_disk_rw\<close> on the buffer and on the image.
\<close>

section \<open>Effects of the primitives\<close>

lemma disk_prims [simp]:
  "get_buf i f s = Ok (f (bufs s i)) s"
  "upd_buf i g s = Ok () (s\<lparr>bufs := (bufs s)(i := g (bufs s i))\<rparr>)"
  "get_disk h s = Ok (h (disk s)) s"
  "upd_disk k s = Ok () (s\<lparr>disk := k (disk s)\<rparr>)"
  "upd_desc i j s = Ok () (s\<lparr>disk := (disk s)\<lparr>desc := (desc (disk s))(i := j (desc (disk s) i))\<rparr>\<rparr>)"
  "r_mmio r s = Ok (vread s r) s"
  "w_mmio r v s = Ok () (s\<lparr>vwrites := (r, v) # vwrites s\<rparr>)"
  by (simp_all add: get_buf_def upd_buf_def get_disk_def upd_disk_def upd_desc_def r_mmio_def w_mmio_def)

lemma dst_last [simp]:
  "s\<lparr>bufs := x, mach := m\<rparr> = s\<lparr>mach := m, bufs := x\<rparr>"
  "s\<lparr>bufs := x, procs := p\<rparr> = s\<lparr>procs := p, bufs := x\<rparr>"
  "s\<lparr>bufs := x, slocks := l\<rparr> = s\<lparr>slocks := l, bufs := x\<rparr>"
  "s\<lparr>disk := d, mach := m\<rparr> = s\<lparr>mach := m, disk := d\<rparr>"
  "s\<lparr>disk := d, procs := p\<rparr> = s\<lparr>procs := p, disk := d\<rparr>"
  "s\<lparr>disk := d, slocks := l\<rparr> = s\<lparr>slocks := l, disk := d\<rparr>"
  "s\<lparr>disk := d, bufs := x\<rparr> = s\<lparr>bufs := x, disk := d\<rparr>"
  "s\<lparr>hdrs := h, mach := m\<rparr> = s\<lparr>mach := m, hdrs := h\<rparr>"
  "s\<lparr>hdrs := h, procs := p\<rparr> = s\<lparr>procs := p, hdrs := h\<rparr>"
  "s\<lparr>hdrs := h, slocks := l\<rparr> = s\<lparr>slocks := l, hdrs := h\<rparr>"
  "s\<lparr>hdrs := h, bufs := x\<rparr> = s\<lparr>bufs := x, hdrs := h\<rparr>"
  "s\<lparr>hdrs := h, disk := d\<rparr> = s\<lparr>disk := d, hdrs := h\<rparr>"
  "s\<lparr>vwrites := w, mach := m\<rparr> = s\<lparr>mach := m, vwrites := w\<rparr>"
  "s\<lparr>vwrites := w, procs := p\<rparr> = s\<lparr>procs := p, vwrites := w\<rparr>"
  "s\<lparr>vwrites := w, slocks := l\<rparr> = s\<lparr>slocks := l, vwrites := w\<rparr>"
  "s\<lparr>vwrites := w, bufs := x\<rparr> = s\<lparr>bufs := x, vwrites := w\<rparr>"
  "s\<lparr>vwrites := w, disk := d\<rparr> = s\<lparr>disk := d, vwrites := w\<rparr>"
  "s\<lparr>vwrites := w, hdrs := h\<rparr> = s\<lparr>hdrs := h, vwrites := w\<rparr>" for s :: "'z dst_scheme"
  by (cases s; simp)+

lemma img_last [simp]:
  "s\<lparr>img := i, mach := m\<rparr> = s\<lparr>mach := m, img := i\<rparr>"
  "s\<lparr>img := i, procs := p\<rparr> = s\<lparr>procs := p, img := i\<rparr>"
  "s\<lparr>img := i, slocks := l\<rparr> = s\<lparr>slocks := l, img := i\<rparr>"
  "s\<lparr>img := i, bufs := x\<rparr> = s\<lparr>bufs := x, img := i\<rparr>"
  "s\<lparr>img := i, disk := d\<rparr> = s\<lparr>disk := d, img := i\<rparr>"
  "s\<lparr>img := i, hdrs := h\<rparr> = s\<lparr>hdrs := h, img := i\<rparr>"
  "s\<lparr>img := i, vwrites := w\<rparr> = s\<lparr>vwrites := w, img := i\<rparr>"
  "s\<lparr>whist := z, mach := m\<rparr> = s\<lparr>mach := m, whist := z\<rparr>"
  "s\<lparr>whist := z, procs := p\<rparr> = s\<lparr>procs := p, whist := z\<rparr>"
  "s\<lparr>whist := z, slocks := l\<rparr> = s\<lparr>slocks := l, whist := z\<rparr>"
  "s\<lparr>whist := z, bufs := x\<rparr> = s\<lparr>bufs := x, whist := z\<rparr>"
  "s\<lparr>whist := z, disk := d\<rparr> = s\<lparr>disk := d, whist := z\<rparr>"
  "s\<lparr>whist := z, hdrs := h\<rparr> = s\<lparr>hdrs := h, whist := z\<rparr>"
  "s\<lparr>whist := z, vwrites := w\<rparr> = s\<lparr>vwrites := w, whist := z\<rparr>"
  "s\<lparr>whist := z, img := i\<rparr> = s\<lparr>img := i, whist := z\<rparr>" for s :: "'z dst_scheme"
  by (cases s; simp)+

section \<open>Blocks of an image\<close>

definition img_block :: "image \<Rightarrow> nat \<Rightarrow> uchar list" where
  "img_block im n = map im [n * BSIZE..<n * BSIZE + BSIZE]"

definition img_put :: "image \<Rightarrow> nat \<Rightarrow> uchar list \<Rightarrow> image" where
  "img_put im n bs = (\<lambda>x. if n * BSIZE \<le> x \<and> x < n * BSIZE + BSIZE then bs ! (x - n * BSIZE) else im x)"

lemma length_img_block [simp]: "length (img_block im n) = BSIZE"
  by (simp add: img_block_def)

lemma img_block_put_same [simp]: "length bs = BSIZE \<Longrightarrow> img_block (img_put im n bs) n = bs"
  by (rule nth_equalityI) (simp_all add: img_block_def img_put_def)

lemma img_block_put_other [simp]: "m \<noteq> n \<Longrightarrow> img_block (img_put im n bs) m = img_block im m"
proof -
  assume "m \<noteq> n"
  then have "m * BSIZE + BSIZE \<le> n * BSIZE \<or> n * BSIZE + BSIZE \<le> m * BSIZE"
    by (metis add.commute mult_Suc mult_le_mono1 nat_neq_iff Suc_leI)
  then show ?thesis by (auto simp: img_block_def img_put_def)
qed

section \<open>The contract of the device\<close>

text \<open>
  What the driver relies on, the documented behaviour of a virtio block device: when exactly one request
  is outstanding (the available index is one ahead of the used index) and the chain it names is a
  header, a data buffer and a status byte, one round of the device's work transfers the sectors
  between the image and the buffer, in the direction the header says, writes status 0, and appends the
  chain to the used ring. Nothing else the driver can see changes.
\<close>

definition chain_ok :: "vdisk \<Rightarrow> nat \<Rightarrow> nat \<Rightarrow> nat \<Rightarrow> nat \<Rightarrow> nat \<Rightarrow> nat \<Rightarrow> bool \<Rightarrow> bool" where
  "chain_ok d h i1 i2 k b st wr \<longleftrightarrow>
     avail_idx d = used_id d + 1 \<and> avail_ring d (unat (used_id d) mod NUM) = of_nat h \<and>
     h < NUM \<and> i1 < NUM \<and> i2 < NUM \<and>
     desc d h = \<lparr>vd_addr = DmaHdr k, vd_len = 16, vd_flags = VRING_DESC_F_NEXT, vd_next = of_nat i1\<rparr> \<and>
     desc d i1 = \<lparr>vd_addr = DmaData b, vd_len = of_nat BSIZE,
       vd_flags = (if wr then 0 else VRING_DESC_F_WRITE) OR VRING_DESC_F_NEXT, vd_next = of_nat i2\<rparr> \<and>
     desc d i2 = \<lparr>vd_addr = DmaStatus st, vd_len = 1, vd_flags = VRING_DESC_F_WRITE, vd_next = 0\<rparr>"

definition virtio_device :: "device \<Rightarrow> bool" where
  "virtio_device dev \<longleftrightarrow>
     (\<forall>hs d bs im h i1 i2 k b st wr n.
        chain_ok d h i1 i2 k b st wr \<and>
        hs k = \<lparr>vh_type = (if wr then VIRTIO_BLK_T_OUT else VIRTIO_BLK_T_IN), vh_reserved = 0,
          vh_sector = of_nat (2 * n)\<rparr> \<and> n < 2 ^ 31 \<and> length (b_data (bs b)) = BSIZE \<longrightarrow>
        dev hs (d, bs, im) =
          (d\<lparr>used_elems := (used_elems d)(unat (used_id d) mod NUM := of_nat h), used_id := used_id d + 1,
             info_status := (info_status d)(st := 0)\<rparr>,
           (if wr then bs else bs(b := (bs b)\<lparr>b_data := img_block im n\<rparr>)),
           (if wr then img_put im n (b_data (bs b)) else im)))"

section \<open>A request\<close>

definition disk_idle :: "vdisk \<Rightarrow> bool" where
  "disk_idle d \<longleftrightarrow> (\<forall>i < NUM. vfree d i) \<and> avail_idx d = used_id d \<and> unat (used_idx d) = unat (used_id d) mod NUM"

definition req_header :: "nat \<Rightarrow> bool \<Rightarrow> virtio_blk_outhdr" where
  "req_header n wr = \<lparr>vh_type = (if wr then VIRTIO_BLK_T_OUT else VIRTIO_BLK_T_IN), vh_reserved = 0,
     vh_sector = of_nat (2 * n)\<rparr>"

definition req_disk :: "nat \<Rightarrow> bool \<Rightarrow> nat \<Rightarrow> vdisk \<Rightarrow> vdisk" where
  "req_disk b wr k d = d\<lparr>desc := (desc d)(
       0 := \<lparr>vd_addr = DmaHdr k, vd_len = 16, vd_flags = VRING_DESC_F_NEXT, vd_next = 1\<rparr>,
       1 := \<lparr>vd_addr = DmaData b, vd_len = of_nat BSIZE,
              vd_flags = (if wr then 0 else VRING_DESC_F_WRITE) OR VRING_DESC_F_NEXT, vd_next = 2\<rparr>,
       2 := \<lparr>vd_addr = DmaStatus 0, vd_len = 1, vd_flags = VRING_DESC_F_WRITE, vd_next = 0\<rparr>),
     avail_idx := avail_idx d + 1, avail_ring := (avail_ring d)(unat (avail_idx d) mod NUM := 0),
     vfree := (vfree d)(0 := False, 1 := False, 2 := False),
     info_b := (info_b d)(0 := Some b), info_status := (info_status d)(0 := 0)\<rparr>"

lemma alloc3_idle:
  assumes "\<forall>i < NUM. vfree (disk s) i"
  shows "alloc3_desc s = Ok (Some [0, 1, 2])
    (s\<lparr>disk := (disk s)\<lparr>vfree := (vfree (disk s))(0 := False, 1 := False, 2 := False)\<rparr>\<rparr>)"
  using assms
  by (simp add: alloc3_desc_def numeral_3_eq_3 alloc_desc_def NUM_def upt_rec numeral_2_eq_2 kop_simps)

lemma sector_of:
  assumes "unat x < 2 ^ 31"
  shows "ucast (x * of_nat (BSIZE div 512) :: uint) = (of_nat (2 * unat x) :: uint64)"
proof -
  have "unat (x * 2) = 2 * unat x"
    using assms by (simp add: unat_word_ariths)
  moreover have "unat (of_nat (2 * unat x) :: uint64) = 2 * unat x"
    using assms by (simp only: unat_of_nat) simp
  ultimately have "unat (ucast (x * of_nat (BSIZE div 512) :: uint) :: uint64) = unat (of_nat (2 * unat x) :: uint64)"
    by (simp add: BSIZE_def)
  then show ?thesis by (simp only: word_unat_eq_iff)
qed

lemma desc_fields [simp]:
  "x\<lparr>vd_addr := a, vd_len := l, vd_flags := f, vd_next := n\<rparr> = \<lparr>vd_addr = a, vd_len = l, vd_flags = f, vd_next = n\<rparr>"
  by (cases x) simp

lemma disk_submit_apply:
  assumes "unat (b_blockno (bufs s b)) < 2 ^ 31"
  shows "disk_submit b wr [0, 1, 2]
      (s\<lparr>disk := (disk s)\<lparr>vfree := (vfree (disk s))(0 := False, 1 := False, 2 := False)\<rparr>\<rparr>) =
    Ok () (s\<lparr>bufs := (bufs s)(b := (bufs s b)\<lparr>b_disk := 1\<rparr>), disk := req_disk b wr (stack_slot (mach s)) (disk s),
      hdrs := (hdrs s)(stack_slot (mach s) := req_header (unat (b_blockno (bufs s b))) wr),
      vwrites := (VIRTIO_MMIO_QUEUE_NOTIFY, 0) # vwrites s\<rparr>)"
  using sector_of [OF assms]
  by (cases wr; cases "disk s") (simp_all add: disk_submit_def kop_simps req_header_def req_disk_def)

section \<open>Completion\<close>

definition done_disk :: "vdisk \<Rightarrow> vdisk" where
  "done_disk d = d\<lparr>used_id := used_id d + 1, used_elems := (used_elems d)(unat (used_id d) mod NUM := 0),
     info_status := (info_status d)(0 := 0)\<rparr>"

lemma req_chain: "disk_idle d \<Longrightarrow> chain_ok (req_disk b wr k d) 0 1 2 k b 0 wr"
  by (simp add: chain_ok_def req_disk_def disk_idle_def NUM_def)

lemma device_serves:
  assumes "virtio_device dev" and "disk_idle d" and "hs k = req_header n wr" and "n < 2 ^ 31" and "length (b_data (bs b)) = BSIZE"
  shows "dev hs (req_disk b wr k d, bs, im) =
    (done_disk (req_disk b wr k d), (if wr then bs else bs(b := (bs b)\<lparr>b_data := img_block im n\<rparr>)),
     (if wr then img_put im n (b_data (bs b)) else im))"
  using assms(1) [unfolded virtio_device_def, rule_format, of "req_disk b wr k d" 0 1 2 k b 0 wr hs n bs im]
    req_chain [OF assms(2), of b wr k] assms(3-5)
  by (cases "req_disk b wr k d") (simp add: req_header_def done_disk_def)

lemma used_succ:
  fixes u v :: ushort
  assumes "unat u = unat v mod NUM"
  shows "unat (v + 1) mod NUM = (unat u + 1) mod NUM" and "unat u mod NUM \<noteq> unat (v + 1) mod NUM"
    and "unat (of_nat ((unat u + 1) mod NUM) :: ushort) = (unat u + 1) mod NUM"
proof -
  have "unat (v + 1) = (unat v + 1) mod 2 ^ 16" by (simp add: unat_word_ariths)
  then show eq: "unat (v + 1) mod NUM = (unat u + 1) mod NUM"
    unfolding assms by (simp add: NUM_def mod_mod_cancel mod_simps)
  show "unat u mod NUM \<noteq> unat (v + 1) mod NUM"
    unfolding eq using assms by (simp add: NUM_def mod_Suc)
  have "(unat u + 1) mod NUM < 8" by (simp add: NUM_def)
  then show "unat (of_nat ((unat u + 1) mod NUM) :: ushort) = (unat u + 1) mod NUM"
    by (simp add: unat_of_nat)
qed

lemma intr_completes:
  fixes s :: "'z dst_scheme"
  assumes "cpu_ok (mach s)" and "unlocked (mach s) LkDisk" and "procs_unlocked (mach s)"
    and "disk s = done_disk (req_disk b wr k d)" and "disk_idle d"
  shows "virtio_disk_intr s = Ok () (s\<lparr>mach := m_note (mach s), procs := wake_all (ChBuf b) (procs s),
    bufs := (bufs s)(b := (bufs s b)\<lparr>b_disk := 0\<rparr>),
    disk := (disk s)\<lparr>used_idx := of_nat ((unat (used_idx d) + 1) mod NUM)\<rparr>,
    vwrites := (VIRTIO_MMIO_INTERRUPT_ACK, vread s VIRTIO_MMIO_INTERRUPT_STATUS AND 3) # vwrites s\<rparr>)"
proof -
  have d: "used_idx (disk s) = used_idx d" "used_id (disk s) = used_id d + 1" "used_elems (disk s) (unat (used_idx d)) = 0"
    "info_status (disk s) 0 = 0" "info_b (disk s) 0 = Some b"
    using assms(5) unfolding assms(4) by (simp_all add: done_disk_def req_disk_def disk_idle_def)
  note u = used_succ [of "used_idx d" "used_id d"]
  have idle: "unat (used_idx d) = unat (used_id d) mod NUM" using assms(5) by (simp add: disk_idle_def)
  let ?s = "s\<lparr>mach := m_acquire LkDisk (mach s)\<rparr>"
  let ?t = "?s\<lparr>procs := wake_all (ChBuf b) (procs s), bufs := (bufs s)(b := (bufs s b)\<lparr>b_disk := 0\<rparr>),
      disk := (disk s)\<lparr>used_idx := of_nat ((unat (used_idx d) + 1) mod NUM)\<rparr>\<rparr>"
  have stop: "virtio_intr_loop (Suc n) ?t = Ok () ?t" for n
    using d(2) u [OF idle] by (simp add: kop_simps del: One_nat_def)
  have step: "virtio_intr_loop (Suc n) ?s = virtio_intr_loop n ?t" for n
    using assms(1-3) d u(1,2) [OF idle] by (simp add: kop_simps wakeup_all del: One_nat_def)
  have "virtio_intr_loop NUM ?s = virtio_intr_loop (Suc (Suc 6)) ?s" by (simp add: NUM_def del: virtio_intr_loop.simps)
  then have "virtio_intr_loop NUM ?s = Ok () ?t" by (simp only: step stop)
  then show ?thesis
    using assms(1,2) by (simp add: virtio_disk_intr_def acquire_apply kop_simps)
qed

section \<open>The sleep of a process that waits for the disk\<close>

lemma syms_more [simp]: "syms (m_intena ie m) = syms m" "syms (m_release lk m) = syms m"
  by (simp_all add: m_intena_def m_release_def m_pop_def m_lock_def Let_def)

lemma quiet_setproc: "quiet m p \<Longrightarrow> quiet (m_setproc (Some p) (m_setproc None m)) p"
  by (simp add: quiet_def)

lemma sleep_resume_quiet:
  assumes "mach s = m_acquire (LkProc p) m" and "quiet m p" and "not_proc_lock lk"
  shows "\<exists>m'. sleep_resume ie lk s =
      Ok () (s\<lparr>mach := m_acquire lk m', procs := (procs s)(p := (procs s p)\<lparr>chan := None\<rparr>)\<rparr>) \<and>
    quiet m' p \<and> syms m' = syms m"
proof -
  note q = quietD [OF assms(2)]
  let ?n = "m_intena ie (m_acquire (LkProc p) m)"
  let ?m = "m_release (LkProc p) ?n"
  let ?u = "s\<lparr>mach := ?n, procs := (procs s)(p := (procs s p)\<lparr>chan := None\<rparr>)\<rparr>"
  have "0 < depth ?n" using q(2) by simp
  then have cur: "curproc (s\<lparr>mach := ?n\<rparr>) = Ok p (s\<lparr>mach := ?n\<rparr>)"
    using q by (simp add: curproc_Some)
  have rel: "release (LkProc p) ?u = Ok () (?u\<lparr>mach := ?m\<rparr>)"
    using q by (subst release_apply) simp_all
  have acq: "acquire lk (?u\<lparr>mach := ?m\<rparr>) = Ok () (?u\<lparr>mach := m_acquire lk ?m\<rparr>)"
    using q(4) by (subst acquire_apply) simp_all
  have "sched_resume ie s = Ok () (s\<lparr>mach := ?n\<rparr>)"
    using assms(1) by (simp add: sched_resume_apply m_intena_def)
  then have "sleep_resume ie lk s = Ok () (?u\<lparr>mach := m_acquire lk ?m\<rparr>)"
    using cur rel acq assms(3) by (simp add: sleep_resume_def kop_simps)
  moreover have "quiet ?m p" using q by (simp add: quiet_def cpu_ok_def)
  ultimately show ?thesis by (intro exI [of _ ?m]) simp
qed

text \<open>What a finished transfer of block \<open>n\<close> leaves in the buffer and in the image.\<close>

definition got :: "bool \<Rightarrow> image \<Rightarrow> nat \<Rightarrow> buf \<Rightarrow> buf" where
  "got wr im n x = (if wr then x else x\<lparr>b_data := img_block im n\<rparr>)\<lparr>b_disk := 0\<rparr>"

definition put :: "bool \<Rightarrow> image \<Rightarrow> nat \<Rightarrow> buf \<Rightarrow> image" where
  "put wr im n x = (if wr then img_put im n (b_data x) else im)"

lemma disk_sleep_completes:
  fixes s :: "'z dst_scheme"
  assumes "mach s = m_acquire LkDisk m" and "quiet m p" and "p < NPROC" and "virtio_device (vdev s)"
    and "disk s = req_disk b wr k d" and "disk_idle d" and "hdrs s k = req_header n wr" and "n < 2 ^ 31"
    and "length (b_data (bufs s b)) = BSIZE"
  shows "\<exists>m' w. disk_sleep b s = Ok () (s\<lparr>mach := m_acquire LkDisk m',
      procs := (wake_all (ChBuf b) (procs s))(p := (procs s p)\<lparr>chan := None, state := RUNNING\<rparr>),
      bufs := (bufs s)(b := got wr (img s) n (bufs s b)),
      disk := (done_disk (disk s))\<lparr>used_idx := of_nat ((unat (used_idx d) + 1) mod NUM)\<rparr>,
      vwrites := w, img := put wr (img s) n (bufs s b), whist := put wr (img s) n (bufs s b) # whist s\<rparr>) \<and>
    quiet m' p \<and> syms m' = syms m"
proof -
  note q = quietD [OF assms(2)]
  let ?x = "(procs s p)\<lparr>chan := Some (ChBuf b), state := SLEEPING\<rparr>" and ?im = "put wr (img s) n (bufs s b)"
  let ?t1 = "s\<lparr>mach := m_acquire (LkProc p) m, procs := (procs s)(p := ?x)\<rparr>"
  let ?m2 = "m_note (m_setproc None m)"
  let ?B = "if wr then bufs s else (bufs s)(b := (bufs s b)\<lparr>b_data := img_block (img s) n\<rparr>)"
  let ?t3 = "?t1\<lparr>mach := ?m2, bufs := ?B, disk := done_disk (disk s), img := ?im, whist := ?im # whist s\<rparr>"
  let ?w = "(VIRTIO_MMIO_INTERRUPT_ACK, vread s VIRTIO_MMIO_INTERRUPT_STATUS AND 3) # vwrites s"
  let ?ps = "wake_all (ChBuf b) ((procs s)(p := ?x))"
  let ?d = "(done_disk (disk s))\<lparr>used_idx := of_nat ((unat (used_idx d) + 1) mod NUM)\<rparr>"
  let ?t4 = "?t3\<lparr>mach := ?m2, procs := ?ps, bufs := ?B(b := (?B b)\<lparr>b_disk := 0\<rparr>), disk := ?d, vwrites := ?w\<rparr>"
  let ?m5 = "m_setproc (Some p) ?m2"
  let ?t5 = "?t4\<lparr>mach := m_acquire (LkProc p) ?m5, procs := ?ps(p := (?ps p)\<lparr>state := RUNNING\<rparr>)\<rparr>"
  let ?ie = "intena (cpus (mach ?t1) (this_cpu (mach ?t1)))"
  have b: "sleep (ChBuf b) LkDisk s = Blocked ?t1"
    using assms(1) q by (intro sleep_apply) simp_all
  have l: "scheduler_leave p ?t1 = Ok () (?t1\<lparr>mach := ?m2\<rparr>)"
    using scheduler_leave_apply [of ?t1 p m] q by simp
  have w: "vdev_work (?t1\<lparr>mach := ?m2\<rparr>) = Ok () ?t3"
    using device_serves [OF assms(4,6), where hs = "hdrs s" and bs = "bufs s", OF assms(7-9), of "img s"] assms(5) by (simp add: vdev_work_def put_def)
  have i: "virtio_disk_intr ?t3 = Ok () ?t4"
    using intr_completes [of ?t3 b wr k d] q assms(5,6) by simp
  have run: "?ps p = (procs s p)\<lparr>chan := Some (ChBuf b), state := RUNNABLE\<rparr>"
    using assms(3) by (simp add: wake_all_def wake_def)
  have e: "scheduler_enter p ?t4 = Ok (Some p) ?t5"
    using scheduler_enter_apply [of ?t4 p] q run by simp
  have "quiet ?m5 p" using assms(2) by (simp add: quiet_def)
  then obtain m' where m': "sleep_resume ?ie LkDisk ?t5 =
      Ok () (?t5\<lparr>mach := m_acquire LkDisk m', procs := (procs ?t5)(p := (procs ?t5 p)\<lparr>chan := None\<rparr>)\<rparr>)"
    "quiet m' p" "syms m' = syms ?m5"
    using sleep_resume_quiet [of ?t5 p ?m5 LkDisk ?ie] by auto
  have ps: "(procs ?t5)(p := (procs ?t5 p)\<lparr>chan := None\<rparr>) =
      (wake_all (ChBuf b) (procs s))(p := (procs s p)\<lparr>chan := None, state := RUNNING\<rparr>)"
    using run by (cases "procs s p") (auto simp: wake_all_def fun_eq_iff)
  have bs: "bufs ?t5 = (bufs s)(b := got wr (img s) n (bufs s b))" by (simp add: got_def)
  have "disk_sleep b s = Ok () (?t5\<lparr>mach := m_acquire LkDisk m', procs := (procs ?t5)(p := (procs ?t5 p)\<lparr>chan := None\<rparr>)\<rparr>)"
    using b l w i e m'(1) q(3) by (simp add: disk_sleep_def kop_simps)
  then show ?thesis unfolding ps using m'(2,3) bs by (intro exI [of _ m'] exI [of _ ?w]) simp
qed

section \<open>The whole transfer\<close>

text \<open>
  A process runs alone: it may use the disk, and the other processes are at most woken. \<open>io_frame\<close>
  says what disk and cache operations may change at all.
\<close>

definition others_woken :: "nat \<Rightarrow> (nat \<Rightarrow> proc) \<Rightarrow> (nat \<Rightarrow> proc) \<Rightarrow> bool" where
  "others_woken p P Q \<longleftrightarrow> Q p = P p \<and>
     (\<forall>q. Q q = P q \<or> state (P q) = SLEEPING \<and> Q q = (P q)\<lparr>state := RUNNABLE\<rparr>)"

lemma others_woken_refl [simp]: "others_woken p P P"
  by (simp add: others_woken_def)

lemma others_woken_trans [trans]:
  assumes "others_woken p P Q" and "others_woken p Q R"
  shows "others_woken p P R"
proof -
  have "R q = P q \<or> state (P q) = SLEEPING \<and> R q = (P q)\<lparr>state := RUNNABLE\<rparr>" for q
  proof (cases "Q q = P q")
    case True
    then show ?thesis using assms(2) unfolding others_woken_def by metis
  next
    case False
    then have Q: "state (P q) = SLEEPING" "Q q = (P q)\<lparr>state := RUNNABLE\<rparr>"
      using assms(1) unfolding others_woken_def by metis+
    then have "state (Q q) \<noteq> SLEEPING" by simp
    then have "R q = Q q" using assms(2) unfolding others_woken_def by metis
    then show ?thesis using Q by simp
  qed
  then show ?thesis using assms by (simp add: others_woken_def)
qed

lemma others_woken_wake:
  "state (P p) \<noteq> SLEEPING \<Longrightarrow> others_woken p P (wake_all ch P)"
  by (auto simp: others_woken_def wake_all_def wake_def)

definition io_ok :: "nat \<Rightarrow> 'z dst_scheme \<Rightarrow> bool" where
  "io_ok p s \<longleftrightarrow> quiet (mach s) p \<and> p < NPROC \<and> state (procs s p) = RUNNING \<and> chan (procs s p) = None \<and>
     virtio_device (vdev s) \<and> disk_idle (disk s) \<and> (\<forall>b \<le> NBUF. length (b_data (bufs s b)) = BSIZE)"

definition io_frame :: "nat \<Rightarrow> 'z dst_scheme \<Rightarrow> 'z dst_scheme \<Rightarrow> bool" where
  "io_frame p s t \<longleftrightarrow>
     t = s\<lparr>mach := mach t, procs := procs t, slocks := slocks t, bufs := bufs t, disk := disk t, hdrs := hdrs t,
       vwrites := vwrites t, img := img t, whist := whist t\<rparr> \<and>
     syms (mach t) = syms (mach s) \<and> others_woken p (procs s) (procs t)"

lemma io_frame_refl [simp]: "io_frame p s s"
  by (simp add: io_frame_def)

lemma io_frame_trans [trans]:
  assumes "io_frame p s t" and "io_frame p t u"
  shows "io_frame p s u"
proof -
  have "u = s\<lparr>mach := mach u, procs := procs u, slocks := slocks u, bufs := bufs u, disk := disk u, hdrs := hdrs u,
       vwrites := vwrites u, img := img u, whist := whist u\<rparr>"
    using assms(1) [unfolded io_frame_def, THEN conjunct1] assms(2) [unfolded io_frame_def, THEN conjunct1]
    by (cases s; cases t; cases u) simp
  then show ?thesis using assms others_woken_trans unfolding io_frame_def by metis
qed

lemma free_desc_apply:
  assumes "cpu_ok (mach s)" and "procs_unlocked (mach s)" and "i < NUM" and "\<not> vfree (disk s) i"
  shows "free_desc i s = Ok () (s\<lparr>mach := m_note (mach s), procs := wake_all ChDiskFree (procs s),
    disk := (disk s)\<lparr>desc := (desc (disk s))(i := (desc (disk s) i)\<lparr>vd_addr := Dma0\<rparr>), vfree := (vfree (disk s))(i := True)\<rparr>\<rparr>)"
  using assms by (simp add: free_desc_def kop_simps wakeup_all)

lemma wake_all_twice [simp]: "wake_all ch (wake_all ch P) = wake_all ch P"
  by (simp add: wake_all_def wake_def fun_eq_iff)

definition freed_disk :: "vdisk \<Rightarrow> vdisk" where
  "freed_disk d = d\<lparr>desc := (desc d)(0 := (desc d 0)\<lparr>vd_addr := Dma0\<rparr>, 1 := (desc d 1)\<lparr>vd_addr := Dma0\<rparr>,
     2 := (desc d 2)\<lparr>vd_addr := Dma0\<rparr>), vfree := (vfree d)(0 := True, 1 := True, 2 := True)\<rparr>"

lemma vdisk_commute [simp]:
  "d\<lparr>vfree := f, desc := e\<rparr> = d\<lparr>desc := e, vfree := f\<rparr>" for d :: vdisk
  by (cases d) simp

lemma free_chain_apply:
  fixes s :: "'z dst_scheme"
  assumes "mach s = m_acquire LkDisk m" and "quiet m p"
    and "vd_flags (desc (disk s) 0) = VRING_DESC_F_NEXT" and "vd_next (desc (disk s) 0) = 1"
    and "vd_flags (desc (disk s) 1) = f OR VRING_DESC_F_NEXT" and "vd_next (desc (disk s) 1) = 2"
    and "vd_flags (desc (disk s) 2) = VRING_DESC_F_WRITE"
    and "\<not> vfree (disk s) 0" and "\<not> vfree (disk s) 1" and "\<not> vfree (disk s) 2"
  shows "free_chain 0 s = Ok () (s\<lparr>procs := wake_all ChDiskFree (procs s), disk := freed_disk (disk s)\<rparr>)"
proof -
  note q = quietD [OF assms(2)]
  have m: "cpu_ok (mach s)" "procs_unlocked (mach s)" "m_note (mach s) = mach s"
    using q assms(1) by simp_all
  have fl: "VRING_DESC_F_NEXT AND VRING_DESC_F_NEXT \<noteq> 0" "(f OR VRING_DESC_F_NEXT) AND VRING_DESC_F_NEXT \<noteq> 0"
    "VRING_DESC_F_WRITE AND VRING_DESC_F_NEXT = 0"
    by (simp_all add: VRING_DESC_F_NEXT_def VRING_DESC_F_WRITE_def bit.conj_disj_distrib2)
  have lt: "(0 :: nat) < NUM" "1 < NUM" "2 < NUM" by (simp_all add: NUM_def)
  have n: "unat (2 :: ushort) = 2" "unat (1 :: ushort) = 1" by simp_all
  let ?d1 = "(disk s)\<lparr>desc := (desc (disk s))(0 := (desc (disk s) 0)\<lparr>vd_addr := Dma0\<rparr>), vfree := (vfree (disk s))(0 := True)\<rparr>"
  let ?s1 = "s\<lparr>procs := wake_all ChDiskFree (procs s), disk := ?d1\<rparr>"
  let ?d2 = "?d1\<lparr>desc := (desc ?d1)(1 := (desc (disk s) 1)\<lparr>vd_addr := Dma0\<rparr>), vfree := (vfree ?d1)(1 := True)\<rparr>"
  let ?s2 = "?s1\<lparr>disk := ?d2\<rparr>"
  have r1: "free_chain_loop (Suc k) 0 s = free_chain_loop k 1 ?s1" for k
    using m assms(3,4,8) lt(1) fl(1) n by (simp add: free_desc_apply kop_simps)
  have r2: "free_chain_loop (Suc k) 1 ?s1 = free_chain_loop k 2 ?s2" for k
    using m assms(5,6,9) lt(2) fl(2) n by (simp add: free_desc_apply kop_simps)
  have r3: "free_chain_loop (Suc k) 2 ?s2 = Ok () (s\<lparr>procs := wake_all ChDiskFree (procs s), disk := freed_disk (disk s)\<rparr>)" for k
    using m assms(7,10) lt(3) fl(3) by (simp add: free_desc_apply kop_simps freed_disk_def)
  have "free_chain_loop (NUM + 1) 0 s = free_chain_loop (Suc (Suc (Suc 6))) 0 s"
    by (simp add: NUM_def del: free_chain_loop.simps)
  then show ?thesis unfolding free_chain_def r1 r2 r3 .
qed

lemma got_put_disk [simp]:
  "got wr im n (x\<lparr>b_disk := v\<rparr>) = got wr im n x" "put wr im n (x\<lparr>b_disk := v\<rparr>) = put wr im n x"
  "b_disk (got wr im n x) = 0" "length (b_data x) = BSIZE \<Longrightarrow> length (b_data (got wr im n x)) = BSIZE"
  by (cases x; simp add: got_def put_def)+

lemma idle_again:
  assumes "disk_idle d"
  shows "disk_idle (freed_disk ((done_disk (req_disk b wr k d))
    \<lparr>used_idx := of_nat ((unat (used_idx d) + 1) mod NUM), info_b := i\<rparr>))"
proof -
  have i: "unat (used_idx d) = unat (used_id d) mod NUM" using assms by (simp add: disk_idle_def)
  show ?thesis
    using assms used_succ [OF i]
    by (simp add: disk_idle_def freed_disk_def done_disk_def req_disk_def del: One_nat_def)
qed

lemma virtio_disk_rw_spec:
  fixes s :: "'z dst_scheme"
  assumes "io_ok p s" and "b < NBUF" and "unat (b_blockno (bufs s b)) < 2 ^ 31"
  defines "n \<equiv> unat (b_blockno (bufs s b))"
  shows "\<exists>t. virtio_disk_rw b wr s = Ok () t \<and> io_frame p s t \<and> io_ok p t \<and> slocks t = slocks s \<and>
    bufs t = (bufs s)(b := got wr (img s) n (bufs s b)) \<and> img t = put wr (img s) n (bufs s b) \<and>
    whist t = img t # whist s"
proof -
  have q: "quiet (mach s) p" "p < NPROC" "state (procs s p) = RUNNING" "chan (procs s p) = None"
    "virtio_device (vdev s)" "disk_idle (disk s)" "length (b_data (bufs s b)) = BSIZE"
    using assms(1,2) by (simp_all add: io_ok_def)
  note l = quietD [OF q(1)]
  let ?k = "stack_slot (mach s)" and ?m = "mach s"
  let ?s1 = "s\<lparr>mach := m_acquire LkDisk ?m\<rparr>"
  let ?s2 = "?s1\<lparr>bufs := (bufs s)(b := (bufs s b)\<lparr>b_disk := 1\<rparr>), disk := req_disk b wr ?k (disk s),
      hdrs := (hdrs s)(?k := req_header n wr), vwrites := (VIRTIO_MMIO_QUEUE_NOTIFY, 0) # vwrites s\<rparr>"
  have a: "alloc3_desc ?s1 = Ok (Some [0, 1, 2])
      (?s1\<lparr>disk := (disk ?s1)\<lparr>vfree := (vfree (disk ?s1))(0 := False, 1 := False, 2 := False)\<rparr>\<rparr>)"
    using q(6) by (intro alloc3_idle) (simp add: disk_idle_def)
  have k: "stack_slot (m_acquire LkDisk ?m) = ?k" by (simp add: stack_slot_def)
  have sub: "disk_submit b wr [0, 1, 2]
      (?s1\<lparr>disk := (disk ?s1)\<lparr>vfree := (vfree (disk ?s1))(0 := False, 1 := False, 2 := False)\<rparr>\<rparr>) = Ok () ?s2"
    using disk_submit_apply [of ?s1 b wr] assms(3) k by (simp add: n_def)
  have h: "hdrs ?s2 ?k = req_header n wr" by simp
  have bl: "length (b_data (bufs ?s2 b)) = BSIZE" using q(7) by simp
  have n: "n < 2 ^ 31" using assms(3) by (simp add: n_def)
  obtain m' w where ds: "disk_sleep b ?s2 = Ok () (?s2\<lparr>mach := m_acquire LkDisk m',
      procs := (wake_all (ChBuf b) (procs s))(p := (procs s p)\<lparr>chan := None, state := RUNNING\<rparr>),
      bufs := (bufs ?s2)(b := got wr (img s) n (bufs ?s2 b)),
      disk := (done_disk (disk ?s2))\<lparr>used_idx := of_nat ((unat (used_idx (disk s)) + 1) mod NUM)\<rparr>,
      vwrites := w, img := put wr (img s) n (bufs ?s2 b), whist := put wr (img s) n (bufs ?s2 b) # whist s\<rparr>)"
    "quiet m' p" "syms m' = syms ?m"
    using disk_sleep_completes [OF _ q(1,2) _ _ q(6) h n bl] q(5) by auto
  let ?im = "put wr (img s) n (bufs s b)"
  let ?d = "(done_disk (req_disk b wr ?k (disk s)))
      \<lparr>used_idx := of_nat ((unat (used_idx (disk s)) + 1) mod NUM), info_b := (info_b (disk s))(0 := None)\<rparr>"
  let ?ps = "(wake_all (ChBuf b) (procs s))(p := (procs s p)\<lparr>chan := None, state := RUNNING\<rparr>)"
  let ?s3 = "s\<lparr>mach := m_acquire LkDisk m', procs := ?ps, bufs := (bufs s)(b := got wr (img s) n (bufs s b)), disk := ?d,
      hdrs := (hdrs s)(?k := req_header n wr), vwrites := w, img := ?im, whist := ?im # whist s\<rparr>"
  let ?t = "?s3\<lparr>mach := m_note m', procs := wake_all ChDiskFree ?ps, disk := freed_disk ?d\<rparr>"
  let ?e = "(done_disk (req_disk b wr ?k (disk s)))\<lparr>used_idx := of_nat ((unat (used_idx (disk s)) + 1) mod NUM)\<rparr>"
  have w: "disk_wait 2 b ?s2 = Ok () (?s3\<lparr>disk := ?e\<rparr>)"
    using ds(1) by (simp add: numeral_2_eq_2 kop_simps)
  have e: "?e\<lparr>info_b := (info_b ?e)(0 := None)\<rparr> = ?d" by (simp add: req_disk_def done_disk_def)
  have f: "free_chain 0 ?s3 = Ok () (?s3\<lparr>procs := wake_all ChDiskFree ?ps, disk := freed_disk ?d\<rparr>)"
    using free_chain_apply [of ?s3 m' p "if wr then 0 else VRING_DESC_F_WRITE"] ds(2)
    by (simp add: done_disk_def req_disk_def)
  have run: "virtio_disk_rw b wr s = Ok () ?t"
    using a sub w e f l(4) quietD [OF ds(2)]
    by (simp add: virtio_disk_rw_def acquire_apply kop_simps virtio_disk_rest_def)
  have "(procs s p)\<lparr>chan := None, state := RUNNING\<rparr> = procs s p" using q(3,4) by (cases "procs s p") simp
  then have "?ps = wake_all (ChBuf b) (procs s)" using q(3) by (simp add: wake_all_def wake_def fun_eq_iff)
  then have ps: "others_woken p (procs s) (wake_all ChDiskFree ?ps)"
    using q(3) others_woken_trans [OF others_woken_wake others_woken_wake, of "procs s" p "ChBuf b" ChDiskFree]
    by (simp add: wake_all_def wake_def)
  then have p: "wake_all ChDiskFree ?ps p = procs s p" by (simp add: others_woken_def)
  have "io_frame p s ?t" using ps ds(3) by (simp add: io_frame_def)
  moreover have "io_ok p ?t"
    using p q ds(2) idle_again [OF q(6)] assms(1) by (simp add: io_ok_def)
  ultimately show ?thesis using run by (intro exI [of _ ?t]) simp
qed

section \<open>A concrete disk\<close>

lemma serve_one_device: "virtio_device serve_one"
proof -
  have "serve_one hs (d, bs, im) =
      (d\<lparr>used_elems := (used_elems d)(unat (used_id d) mod NUM := of_nat h), used_id := used_id d + 1,
         info_status := (info_status d)(st := 0)\<rparr>,
       (if wr then bs else bs(b := (bs b)\<lparr>b_data := img_block im n\<rparr>)),
       (if wr then img_put im n (b_data (bs b)) else im))"
    if c: "chain_ok d h i1 i2 k b st wr" and hs: "hs k = req_header n wr" and n: "n < 2 ^ 31"
    for hs d bs im h i1 i2 k b st wr n
  proof -
    have u: "unat (of_nat h :: ushort) = h" "unat (of_nat i1 :: ushort) = i1" "unat (of_nat i2 :: ushort) = i2"
      using c by (simp_all add: chain_ok_def NUM_def unat_of_nat)
    have "unat (of_nat (2 * n) :: uint64) = 2 * n" using n by (simp only: unat_of_nat) simp
    then have off: "512 * unat (of_nat (2 * n) :: uint64) = n * BSIZE" by (simp add: BSIZE_def)
    have len: "unat (of_nat BSIZE :: uint) = BSIZE" by (simp add: BSIZE_def)
    have av: "avail_ring d (unat (avail_idx d - 1) mod NUM) = of_nat h"
      and ds: "vd_addr (desc d h) = DmaHdr k" "vd_next (desc d h) = of_nat i1"
        "vd_addr (desc d i1) = DmaData b" "vd_len (desc d i1) = of_nat BSIZE" "vd_next (desc d i1) = of_nat i2"
        "vd_addr (desc d i2) = DmaStatus st"
      using c by (simp_all add: chain_ok_def)
    have com: "e\<lparr>used_elems := x, used_id := y\<rparr> = e\<lparr>used_id := y, used_elems := x\<rparr>" for e :: vdisk and x y
      by (cases e) simp
    show ?thesis
      unfolding serve_one_def Let_def split av u ds hs req_header_def virtio_blk_outhdr.simps off len dmaptr.case
      by (simp add: img_block_def img_put_def VIRTIO_BLK_T_OUT_def VIRTIO_BLK_T_IN_def com cong: if_cong)
  qed
  then show ?thesis unfolding virtio_device_def req_header_def by blast
qed

lemma boot_io [simp]: "io_ok (Suc 0) boot"
  using boot_quiet serve_one_device
  by (simp add: io_ok_def boot_def NPROC_def idle_proc_def disk_idle_def idle_disk_def idle_buf_def)

section \<open>Property\<close>

text \<open>
  C25 (\<^verbatim>\<open>virtio_disk.c\<close>): with a device that obeys its contract, a process that writes a buffer to its
  block and then reads the block into another buffer gets the bytes it wrote. Both calls return with no
  lock held, all descriptors free and the rings in step, so the next request can start; no other block
  of the disk and no other buffer changes.
\<close>

theorem disk_write_read:
  fixes s :: "'z dst_scheme"
  assumes "io_ok p s" and "b < NBUF" and "b' < NBUF" and "b \<noteq> b'"
    and "b_blockno (bufs s b') = b_blockno (bufs s b)" and "unat (b_blockno (bufs s b)) < 2 ^ 31"
  shows "\<exists>t u. virtio_disk_rw b True s = Ok () t \<and> virtio_disk_rw b' False t = Ok () u \<and>
    b_data (bufs u b') = b_data (bufs s b) \<and> io_ok p u \<and>
    (\<forall>n. n \<noteq> unat (b_blockno (bufs s b)) \<longrightarrow> img_block (img u) n = img_block (img s) n) \<and>
    (\<forall>c. c \<noteq> b \<and> c \<noteq> b' \<longrightarrow> bufs u c = bufs s c)"
proof -
  let ?n = "unat (b_blockno (bufs s b))"
  have len: "length (b_data (bufs s b)) = BSIZE" using assms(1,2) by (simp add: io_ok_def)
  obtain t where t: "virtio_disk_rw b True s = Ok () t" "io_ok p t" "bufs t = (bufs s)(b := got True (img s) ?n (bufs s b))"
    "img t = img_put (img s) ?n (b_data (bufs s b))"
    using virtio_disk_rw_spec [OF assms(1,2,6), of True] by (auto simp: put_def)
  have "unat (b_blockno (bufs t b')) < 2 ^ 31" "b_blockno (bufs t b') = b_blockno (bufs s b)"
    using t(3) assms(4-6) by simp_all
  then obtain u where u: "virtio_disk_rw b' False t = Ok () u" "io_ok p u"
    "bufs u = (bufs t)(b' := got False (img t) ?n (bufs t b'))" "img u = img t"
    using virtio_disk_rw_spec [OF t(2) assms(3), of False] by (auto simp: put_def)
  have "b_data (bufs u b') = b_data (bufs s b)" using u(3) t(4) len by (simp add: got_def)
  then show ?thesis using t u by (intro exI [of _ t] exI [of _ u]) simp
qed

theorem disk_write_read_witness:
  "\<exists>t u. virtio_disk_rw 3 True boot = Ok () t \<and> virtio_disk_rw 4 False t = Ok () u \<and>
     b_data (bufs u 4) = replicate BSIZE 0"
proof -
  have "b_blockno (bufs boot 4) = b_blockno (bufs boot 3)" "unat (b_blockno (bufs boot 3)) < 2 ^ 31"
    "b_data (bufs boot 3) = replicate BSIZE 0" "(3 :: nat) < NBUF" "(4 :: nat) < NBUF"
    by (simp_all add: boot_def idle_buf_def NBUF_def)
  with disk_write_read [OF boot_io, of 3 4] show ?thesis by auto
qed

end
