(* ===== verification/Bcache.thy ===== *)
theory Bcache
  imports Diskprops
begin

text \<open>
  The buffer cache is a faithful copy of the disk: the doubly linked list stays well formed and in order of
  use, a block is cached at most once, and \<^verbatim>\<open>bread\<close>, \<^verbatim>\<open>bwrite\<close> and \<^verbatim>\<open>brelse\<close> refine operations on a map
  from block numbers to contents.
\<close>

section \<open>Doubly linked lists\<close>

fun lseg :: "(nat \<Rightarrow> nat) \<Rightarrow> (nat \<Rightarrow> nat) \<Rightarrow> nat \<Rightarrow> nat list \<Rightarrow> nat \<Rightarrow> bool" where
  "lseg N P a [] z \<longleftrightarrow> N a = z \<and> P z = a"
| "lseg N P a (x # xs) z \<longleftrightarrow> N a = x \<and> P x = a \<and> lseg N P x xs z"

lemma lseg_append: "lseg N P a (xs @ y # ys) z \<longleftrightarrow> lseg N P a xs y \<and> lseg N P y ys z"
  by (induction xs arbitrary: a) auto

lemma lseg_first: "lseg N P a xs z \<Longrightarrow> N a = hd (xs @ [z])"
  by (cases xs) auto

lemma lseg_last: "lseg N P a xs z \<Longrightarrow> P z = last (a # xs)"
  by (induction xs arbitrary: a) auto

lemma lseg_cong:
  assumes "\<And>x. x \<in> set (a # xs) \<Longrightarrow> N' x = N x" and "\<And>x. x \<in> set (xs @ [z]) \<Longrightarrow> P' x = P x"
  shows "lseg N' P' a xs z = lseg N P a xs z"
  using assms by (induction xs arbitrary: a) auto

lemma lseg_unlink:
  assumes "lseg N P a (us @ b # vs) z" and "distinct (us @ b # vs)" and "a \<notin> set (us @ b # vs)" and "z \<notin> set (us @ b # vs)"
  shows "lseg (N(P b := N b)) (P(N b := P b)) a (us @ vs) z"
proof -
  have seg: "lseg N P a us b" "lseg N P b vs z" using assms(1) by (simp_all add: lseg_append)
  have p: "P b = last (a # us)" and n: "N b = hd (vs @ [z])" using lseg_last [OF seg(1)] lseg_first [OF seg(2)] by auto
  have end': "N b \<notin> set us" using n assms(2,4) by (cases vs) auto
  have start': "P b \<notin> set (vs)" "P b \<noteq> b" using p assms(2,3) by (cases us rule: rev_cases; auto)+
  have left: "lseg (N(P b := N b)) (P(N b := P b)) a us (N b)"
  proof (cases us rule: rev_cases)
    case Nil
    then show ?thesis using p by simp
  next
    case (snoc ws q)
    have q: "P b = q" using p snoc by simp
    have "lseg (N(P b := N b)) (P(N b := P b)) a ws q = lseg N P a ws q"
      using snoc assms(2,3) end' q by (intro lseg_cong) auto
    then show ?thesis using seg(1) snoc q by (simp add: lseg_append)
  qed
  show ?thesis
  proof (cases vs)
    case Nil
    then show ?thesis using left n by simp
  next
    case (Cons y ws)
    have y: "N b = y" using n Cons by simp
    have "lseg (N(P b := N b)) (P(N b := P b)) y ws z = lseg N P y ws z"
      using Cons assms(2,4) start' y by (intro lseg_cong) auto
    then show ?thesis using left seg(2) Cons y by (simp add: lseg_append)
  qed
qed

lemma lseg_push:
  assumes "lseg N P a xs z" and "b \<notin> set xs" and "b \<noteq> a" and "b \<noteq> z" and "a \<notin> set xs" and "distinct (xs @ [z])"
  shows "lseg (N(b := N a, a := b)) (P(b := a, N a := b)) a (b # xs) z"
proof (cases xs)
  case Nil
  then show ?thesis using assms by simp
next
  case (Cons y ys)
  have "lseg (N(b := N a, a := b)) (P(b := a, N a := b)) y ys z = lseg N P y ys z"
    using Cons assms by (intro lseg_cong) auto
  then show ?thesis using Cons assms by auto
qed

section \<open>The scans\<close>

definition dll :: "(nat \<Rightarrow> buf) \<Rightarrow> nat list \<Rightarrow> bool" where
  "dll B ls \<longleftrightarrow> lseg (\<lambda>x. b_next (B x)) (\<lambda>x. b_prev (B x)) NBUF ls NBUF \<and> distinct ls \<and> set ls = {..<NBUF}"

lemma dll_length: "dll B ls \<Longrightarrow> length ls = NBUF"
  using distinct_card [of ls] by (simp add: dll_def)

definition is_block :: "(nat \<Rightarrow> buf) \<Rightarrow> uint \<Rightarrow> uint \<Rightarrow> nat \<Rightarrow> bool" where
  "is_block B dev n b \<longleftrightarrow> b_dev (B b) = dev \<and> b_blockno (B b) = n"

definition take_buf :: "nat \<Rightarrow> (nat option, 'z dst_scheme) kop" where
  "take_buf b = thn (release LkBcache) (thn (acquiresleep (LkBufSleep b)) (ret (Some b)))"

lemma bget_cached_scan:
  assumes "lseg (\<lambda>x. b_next (bufs s x)) (\<lambda>x. b_prev (bufs s x)) a xs NBUF" and "NBUF \<notin> set xs" and "length xs < n"
  shows "bget_cached n dev bno (b_next (bufs s a)) s =
    (case List.find (is_block (bufs s) dev bno) xs of
       None \<Rightarrow> Ok None s
     | Some b \<Rightarrow> take_buf b (s\<lparr>bufs := (bufs s)(b := (bufs s b)\<lparr>b_refcnt := b_refcnt (bufs s b) + 1\<rparr>)\<rparr>))"
  using assms
proof (induction xs arbitrary: a n)
  case Nil
  then show ?case by (cases n) (simp_all add: kop_simps)
next
  case (Cons x xs)
  then obtain k where n: "n = Suc k" by (cases n) auto
  have x: "b_next (bufs s a) = x" "x \<noteq> NBUF" using Cons.prems by auto
  have "bget_cached k dev bno (b_next (bufs s x)) s =
    (case List.find (is_block (bufs s) dev bno) xs of
       None \<Rightarrow> Ok None s
     | Some b \<Rightarrow> take_buf b (s\<lparr>bufs := (bufs s)(b := (bufs s b)\<lparr>b_refcnt := b_refcnt (bufs s b) + 1\<rparr>)\<rparr>))"
    using Cons.prems n by (intro Cons.IH) simp_all
  then show ?case
    using x n by (simp add: kop_simps is_block_def [of _ _ _ x] take_buf_def)
qed

definition recycled :: "uint \<Rightarrow> uint \<Rightarrow> buf \<Rightarrow> buf" where
  "recycled dev bno x = x\<lparr>b_dev := dev, b_blockno := bno, b_valid := 0, b_refcnt := 1\<rparr>"

lemma bget_recycle_scan:
  assumes "lseg (\<lambda>x. b_next (bufs s x)) (\<lambda>x. b_prev (bufs s x)) NBUF xs z" and "NBUF \<notin> set xs" and "length xs < n"
  shows "bget_recycle n dev bno (b_prev (bufs s z)) s =
    (case List.find (\<lambda>b. b_refcnt (bufs s b) = 0) (rev xs) of
       None \<Rightarrow> Ok None s
     | Some b \<Rightarrow> take_buf b (s\<lparr>bufs := (bufs s)(b := recycled dev bno (bufs s b))\<rparr>))"
  using assms
proof (induction xs arbitrary: z n rule: rev_induct)
  case Nil
  then show ?case by (cases n) (simp_all add: kop_simps)
next
  case (snoc x xs)
  then obtain k where n: "n = Suc k" by (cases n) auto
  have x: "b_prev (bufs s z) = x" "x \<noteq> NBUF" "lseg (\<lambda>x. b_next (bufs s x)) (\<lambda>x. b_prev (bufs s x)) NBUF xs x"
    using snoc.prems by (auto simp: lseg_append)
  have "bget_recycle k dev bno (b_prev (bufs s x)) s =
    (case List.find (\<lambda>b. b_refcnt (bufs s b) = 0) (rev xs) of
       None \<Rightarrow> Ok None s
     | Some b \<Rightarrow> take_buf b (s\<lparr>bufs := (bufs s)(b := recycled dev bno (bufs s b))\<rparr>))"
    using snoc.prems n x(3) by (intro snoc.IH) simp_all
  then show ?case
    using x(1,2) n by (simp add: kop_simps take_buf_def recycled_def)
qed

definition grab :: "nat \<Rightarrow> int \<Rightarrow> buf \<Rightarrow> 'z dst_scheme \<Rightarrow> 'z dst_scheme" where
  "grab b i x s = s\<lparr>mach := m_note (mach s),
     slocks := (slocks s)(LkBufSleep b := (slocks s (LkBufSleep b))\<lparr>sl_locked := 1, sl_pid := i\<rparr>),
     bufs := (bufs s)(b := x)\<rparr>"

lemma take_buf_apply:
  fixes s :: "'z dst_scheme"
  assumes "quiet m p" and "sl_locked (slocks s (LkBufSleep b)) = 0"
  shows "take_buf b (s\<lparr>mach := m_acquire LkBcache m, bufs := B\<rparr>) =
    Ok (Some b) (s\<lparr>mach := m_note m,
      slocks := (slocks s)(LkBufSleep b := (slocks s (LkBufSleep b))\<lparr>sl_locked := 1, sl_pid := pid (procs s p)\<rparr>),
      bufs := B\<rparr>)"
proof -
  note q = quietD [OF assms(1)]
  let ?s = "s\<lparr>mach := m_note m, bufs := B\<rparr>"
  have "acquiresleep (LkBufSleep b) ?s = Ok () (sl_take (LkBufSleep b) (pid (procs ?s p)) ?s)"
    using q assms(2) by (intro acquiresleep_free) simp_all
  then show ?thesis using q by (simp add: take_buf_def kop_simps sl_take_def)
qed

lemma bget_apply:
  fixes s :: "'z dst_scheme"
  assumes "quiet (mach s) p" and "dll (bufs s) ls"
    and "\<And>b. List.find (is_block (bufs s) dev bno) ls = Some b \<Longrightarrow> sl_locked (slocks s (LkBufSleep b)) = 0"
    and "\<And>b. List.find (\<lambda>b. b_refcnt (bufs s b) = 0) (rev ls) = Some b \<Longrightarrow> sl_locked (slocks s (LkBufSleep b)) = 0"
  shows "bget dev bno s =
    (case List.find (is_block (bufs s) dev bno) ls of
       Some b \<Rightarrow> Ok b (grab b (pid (procs s p)) ((bufs s b)\<lparr>b_refcnt := b_refcnt (bufs s b) + 1\<rparr>) s)
     | None \<Rightarrow> (case List.find (\<lambda>b. b_refcnt (bufs s b) = 0) (rev ls) of
         Some b \<Rightarrow> Ok b (grab b (pid (procs s p)) (recycled dev bno (bufs s b)) s)
       | None \<Rightarrow> Panic ''bget: no buffers''))"
proof -
  note q = quietD [OF assms(1)]
  let ?s = "s\<lparr>mach := m_acquire LkBcache (mach s)\<rparr>"
  have l: "lseg (\<lambda>x. b_next (bufs ?s x)) (\<lambda>x. b_prev (bufs ?s x)) NBUF ls NBUF" "NBUF \<notin> set ls" "length ls < NBUF + 1"
    using assms(2) dll_length [OF assms(2)] by (simp_all add: dll_def)
  note c = bget_cached_scan [OF l, of dev bno] and r = bget_recycle_scan [OF l, of dev bno]
  note tk = take_buf_apply [OF assms(1)]
  have enter: "bget dev bno s = bnd (get_buf NBUF b_next) (\<lambda>first.
     bnd (bget_cached (NBUF + 1) dev bno first) (\<lambda>r. case r of
       Some b \<Rightarrow> ret b
     | None \<Rightarrow>
         bnd (get_buf NBUF b_prev) (\<lambda>last'.
         bnd (bget_recycle (NBUF + 1) dev bno last') (\<lambda>r. case r of
           Some b \<Rightarrow> ret b
         | None \<Rightarrow> kpanic ''bget: no buffers'')))) ?s"
    using q by (simp add: bget_def acquire_apply kop_simps)
  show ?thesis
  proof (cases "List.find (is_block (bufs s) dev bno) ls")
    case (Some b)
    then show ?thesis unfolding enter
      using c tk [of s b] assms(3) [OF Some] by (simp add: kop_simps grab_def)
  next
    case None
    then show ?thesis
    proof (cases "List.find (\<lambda>b. b_refcnt (bufs s b) = 0) (rev ls)")
      case (Some b)
      then show ?thesis unfolding enter
        using c r None tk [of s b] assms(4) [OF Some] by (simp add: kop_simps grab_def)
    next
      case no: None
      then show ?thesis unfolding enter using c r None by (simp add: kop_simps)
    qed
  qed
qed

section \<open>The cache as a map of blocks\<close>

text \<open>
  The abstract state of the cache: \<open>C\<close> gives the contents of every block, \<open>D\<close> the blocks whose copy on
  disk is out of date, \<open>H\<close> the buffers the process has locked. All buffers in use belong to one device.
\<close>

definition bufs_ok :: "uint \<Rightarrow> (nat \<Rightarrow> uchar list) \<Rightarrow> nat set \<Rightarrow> image \<Rightarrow> (nat \<Rightarrow> buf) \<Rightarrow> bool" where
  "bufs_ok dv C D im B \<longleftrightarrow>
     (\<forall>b < NBUF. (b_dev (B b) = dv \<or> b_dev (B b) = 0 \<and> b_valid (B b) = 0 \<and> b_refcnt (B b) = 0) \<and>
        unat (b_blockno (B b)) < 2 ^ 31 \<and> (b_valid (B b) \<noteq> 0 \<longrightarrow> b_data (B b) = C (unat (b_blockno (B b))))) \<and>
     (\<forall>b < NBUF. \<forall>c < NBUF. b_dev (B b) = dv \<and> b_dev (B c) = dv \<and> b_blockno (B b) = b_blockno (B c) \<longrightarrow> b = c) \<and>
     (\<forall>n. n \<notin> D \<longrightarrow> img_block im n = C n) \<and>
     (\<forall>n \<in> D. \<exists>b < NBUF. b_dev (B b) = dv \<and> unat (b_blockno (B b)) = n \<and> b_valid (B b) \<noteq> 0 \<and> b_refcnt (B b) \<noteq> 0)"

definition locks_ok :: "nat \<Rightarrow> nat set \<Rightarrow> 'z dst_scheme \<Rightarrow> bool" where
  "locks_ok p H s \<longleftrightarrow> H \<subseteq> {..<NBUF} \<and>
     (\<forall>b < NBUF. if b \<in> H
        then sl_locked (slocks s (LkBufSleep b)) = 1 \<and> sl_pid (slocks s (LkBufSleep b)) = pid (procs s p) \<and>
          b_valid (bufs s b) \<noteq> 0
        else sl_locked (slocks s (LkBufSleep b)) = 0)"

definition cache_ok :: "nat \<Rightarrow> uint \<Rightarrow> (nat \<Rightarrow> uchar list) \<Rightarrow> nat set \<Rightarrow> nat set \<Rightarrow> 'z dst_scheme \<Rightarrow> bool" where
  "cache_ok p dv C D H s \<longleftrightarrow> io_ok p s \<and> dv \<noteq> 0 \<and> (\<exists>ls. dll (bufs s) ls) \<and>
     bufs_ok dv C D (img s) (bufs s) \<and> locks_ok p H s"

lemma bufs_okD:
  assumes "bufs_ok dv C D im B"
  shows "b < NBUF \<Longrightarrow> b_dev (B b) = dv \<or> b_dev (B b) = 0 \<and> b_valid (B b) = 0 \<and> b_refcnt (B b) = 0"
    and "b < NBUF \<Longrightarrow> unat (b_blockno (B b)) < 2 ^ 31"
    and "b < NBUF \<Longrightarrow> b_valid (B b) \<noteq> 0 \<Longrightarrow> b_data (B b) = C (unat (b_blockno (B b)))"
    and "b < NBUF \<Longrightarrow> c < NBUF \<Longrightarrow> b_dev (B b) = dv \<Longrightarrow> b_dev (B c) = dv \<Longrightarrow> b_blockno (B b) = b_blockno (B c) \<Longrightarrow> b = c"
    and "n \<notin> D \<Longrightarrow> img_block im n = C n"
    and "n \<in> D \<Longrightarrow> \<exists>b < NBUF. b_dev (B b) = dv \<and> unat (b_blockno (B b)) = n \<and> b_valid (B b) \<noteq> 0 \<and> b_refcnt (B b) \<noteq> 0"
  using assms unfolding bufs_ok_def by blast+

lemma locks_okD:
  assumes "locks_ok p H s"
  shows "b \<in> H \<Longrightarrow> b < NBUF" and "b \<in> H \<Longrightarrow> sl_locked (slocks s (LkBufSleep b)) = 1"
    and "b \<in> H \<Longrightarrow> sl_pid (slocks s (LkBufSleep b)) = pid (procs s p)" and "b \<in> H \<Longrightarrow> b_valid (bufs s b) \<noteq> 0"
    and "b < NBUF \<Longrightarrow> b \<notin> H \<Longrightarrow> sl_locked (slocks s (LkBufSleep b)) = 0"
  using assms unfolding locks_ok_def by (auto split: if_splits)

lemma held_block:
  assumes "cache_ok p dv C D H s" and "b \<in> H"
  shows "b < NBUF" and "b_dev (bufs s b) = dv" and "unat (b_blockno (bufs s b)) < 2 ^ 31"
    and "b_data (bufs s b) = C (unat (b_blockno (bufs s b)))" and "b_valid (bufs s b) \<noteq> 0"
proof -
  have bo: "bufs_ok dv C D (img s) (bufs s)" and lo: "locks_ok p H s" using assms(1) by (auto simp: cache_ok_def)
  note L = locks_okD(1-4) [OF lo assms(2)] and B = bufs_okD [OF bo]
  show "b < NBUF" "b_valid (bufs s b) \<noteq> 0" using L by simp_all
  show "b_dev (bufs s b) = dv" using B(1) [of b] L by blast
  show "unat (b_blockno (bufs s b)) < 2 ^ 31" "b_data (bufs s b) = C (unat (b_blockno (bufs s b)))"
    using B(2,3) [of b] L by blast+
qed

text \<open>Putting block \<open>n\<close> into buffer \<open>b\<close>, which held it before or was free.\<close>

lemma bufs_ok_load:
  assumes ok: "bufs_ok dv C D im B" and b: "b < NBUF"
    and y: "b_dev y = dv" "b_blockno y = n" "b_valid y \<noteq> 0" "b_data y = C (unat n)" "b_refcnt y \<noteq> 0" "unat n < 2 ^ 31"
    and other: "\<And>c. c < NBUF \<Longrightarrow> c \<noteq> b \<Longrightarrow> \<not> is_block B dv n c"
    and old: "is_block B dv n b \<or> b_refcnt (B b) = 0"
  shows "bufs_ok dv C D im (B(b := y))"
proof -
  note B = bufs_okD [OF ok]
  have "b_dev ((B(b := y)) c) = dv \<or> b_dev ((B(b := y)) c) = 0 \<and> b_valid ((B(b := y)) c) = 0 \<and> b_refcnt ((B(b := y)) c) = 0"
    "unat (b_blockno ((B(b := y)) c)) < 2 ^ 31"
    "b_valid ((B(b := y)) c) \<noteq> 0 \<longrightarrow> b_data ((B(b := y)) c) = C (unat (b_blockno ((B(b := y)) c)))" if "c < NBUF" for c
    using B(1-3) [OF that] y by (cases "c = b"; simp)+
  moreover have "c = e" if "c < NBUF" "e < NBUF" "b_dev ((B(b := y)) c) = dv" "b_dev ((B(b := y)) e) = dv"
      "b_blockno ((B(b := y)) c) = b_blockno ((B(b := y)) e)" for c e
    using that B(4) [OF that(1,2)] other [OF that(1)] other [OF that(2)] y
    by (cases "c = b"; cases "e = b") (simp_all add: is_block_def)
  moreover have "\<exists>c < NBUF. b_dev ((B(b := y)) c) = dv \<and> unat (b_blockno ((B(b := y)) c)) = k \<and>
      b_valid ((B(b := y)) c) \<noteq> 0 \<and> b_refcnt ((B(b := y)) c) \<noteq> 0" if k: "k \<in> D" for k
  proof -
    obtain c where c: "c < NBUF" "b_dev (B c) = dv" "unat (b_blockno (B c)) = k" "b_valid (B c) \<noteq> 0" "b_refcnt (B c) \<noteq> 0"
      using B(6) [OF k] by blast
    show ?thesis
    proof (cases "c = b")
      case True
      then have "b_blockno (B b) = n" using old c(5) by (simp add: is_block_def)
      then show ?thesis using c True y b by (intro exI [of _ b]) simp
    next
      case False
      then show ?thesis using c by (intro exI [of _ c]) simp
    qed
  qed
  ultimately show ?thesis using B(5) unfolding bufs_ok_def by blast
qed

section \<open>Reading a block\<close>

definition hist :: "image set \<Rightarrow> 'z dst_scheme \<Rightarrow> 'z dst_scheme \<Rightarrow> bool" where
  "hist S s t \<longleftrightarrow> (\<exists>new. whist t = new @ whist s \<and> set new \<subseteq> S)"

lemma hist_refl [simp]: "hist S s s"
  by (simp add: hist_def)

lemma hist_trans: "hist S s t \<Longrightarrow> hist S t u \<Longrightarrow> hist S s u"
  unfolding hist_def by (metis append.assoc le_sup_iff set_append)

lemma hist_mono: "hist S s t \<Longrightarrow> S \<subseteq> T \<Longrightarrow> hist T s t"
  unfolding hist_def by blast

lemma grab_io:
  assumes "io_ok p s" and "length (b_data x) = BSIZE"
  shows "io_ok p (grab b i x s)" and "io_frame p s (grab b i x s)"
  using assms by (simp_all add: io_ok_def io_frame_def grab_def)

definition bread_rest :: "nat \<Rightarrow> (nat, 'z dst_scheme) kop" where
  "bread_rest b = bnd (get_buf b b_valid) (\<lambda>v.
     if v = 0 then thn (virtio_disk_rw b False) (thn (upd_buf b (\<lambda>x. x\<lparr>b_valid := 1\<rparr>)) (ret b)) else ret b)"

lemma bread_unfold: "bread dev n = bnd (bget dev n) bread_rest"
  by (simp add: bread_def bread_rest_def [abs_def])

lemma bread_rest_spec:
  fixes s :: "'z dst_scheme"
  assumes "io_ok p s" and "b < NBUF" and "unat (b_blockno (bufs s b)) < 2 ^ 31"
  shows "\<exists>t y. bread_rest b s = Ok b t \<and> io_frame p s t \<and> io_ok p t \<and> slocks t = slocks s \<and> img t = img s \<and>
    hist {img s} s t \<and> bufs t = (bufs s)(b := y) \<and> b_valid y \<noteq> 0 \<and> b_dev y = b_dev (bufs s b) \<and>
    b_blockno y = b_blockno (bufs s b) \<and> b_refcnt y = b_refcnt (bufs s b) \<and>
    b_prev y = b_prev (bufs s b) \<and> b_next y = b_next (bufs s b) \<and>
    b_data y = (if b_valid (bufs s b) = 0 then img_block (img s) (unat (b_blockno (bufs s b))) else b_data (bufs s b))"
proof (cases "b_valid (bufs s b) = 0")
  case True
  let ?n = "unat (b_blockno (bufs s b))"
  obtain t where t: "virtio_disk_rw b False s = Ok () t" "io_frame p s t" "io_ok p t" "slocks t = slocks s"
    "bufs t = (bufs s)(b := got False (img s) ?n (bufs s b))" "img t = img s" "whist t = img s # whist s"
    using virtio_disk_rw_spec [OF assms, of False] by (auto simp: put_def)
  let ?y = "(got False (img s) ?n (bufs s b))\<lparr>b_valid := 1\<rparr>"
  let ?t = "t\<lparr>bufs := (bufs s)(b := ?y)\<rparr>"
  have "bread_rest b s = Ok b ?t" using True t(1,5) by (simp add: bread_rest_def kop_simps)
  moreover have "io_frame p t ?t" by (simp add: io_frame_def)
  moreover have "io_ok p ?t" using t(3) assms(1) by (simp add: io_ok_def)
  moreover have "hist {img s} s ?t" using t(7) by (simp add: hist_def)
  ultimately show ?thesis
    using t True io_frame_trans [OF t(2)] by (intro exI [of _ ?t] exI [of _ ?y]) (simp add: got_def)
next
  case False
  then show ?thesis using assms(1) by (intro exI [of _ s] exI [of _ "bufs s b"]) (simp add: bread_rest_def kop_simps)
qed

lemma find_SomeD: "List.find P xs = Some x \<Longrightarrow> x \<in> set xs \<and> P x"
  by (auto simp: find_Some_iff)

lemma dll_upd:
  assumes "dll B ls" and "b_prev y = b_prev (B b)" and "b_next y = b_next (B b)"
  shows "dll (B(b := y)) ls"
proof -
  have "(\<lambda>x. b_next ((B(b := y)) x)) = (\<lambda>x. b_next (B x))" "(\<lambda>x. b_prev ((B(b := y)) x)) = (\<lambda>x. b_prev (B x))"
    using assms(2,3) by auto
  then show ?thesis using assms(1) unfolding dll_def by simp
qed

lemma bget_spec:
  fixes s :: "'z dst_scheme"
  assumes ok: "cache_ok p dv C D H s" and n: "unat n < 2 ^ 31"
    and "\<forall>b \<in> H. b_blockno (bufs s b) \<noteq> n \<and> b_refcnt (bufs s b) \<noteq> 0"
    and "(\<exists>b < NBUF. is_block (bufs s) dv n b) \<or> (\<exists>b < NBUF. b_refcnt (bufs s b) = 0)"
  shows "\<exists>b x. bget dv n s = Ok b (grab b (pid (procs s p)) x s) \<and> b < NBUF \<and> b \<notin> H \<and>
    b_dev x = dv \<and> b_blockno x = n \<and> b_refcnt x = b_refcnt (bufs s b) + 1 \<and> length (b_data x) = BSIZE \<and>
    b_prev x = b_prev (bufs s b) \<and> b_next x = b_next (bufs s b) \<and>
    (b_valid x \<noteq> 0 \<longrightarrow> b_data x = C (unat n)) \<and> (b_valid x = 0 \<longrightarrow> unat n \<notin> D) \<and>
    (is_block (bufs s) dv n b \<or> b_refcnt (bufs s b) = 0) \<and> (\<forall>c < NBUF. c \<noteq> b \<longrightarrow> \<not> is_block (bufs s) dv n c)"
proof -
  obtain ls where ls: "dll (bufs s) ls" and bo: "bufs_ok dv C D (img s) (bufs s)" and lo: "locks_ok p H s"
    and io: "io_ok p s" using ok by (auto simp: cache_ok_def)
  have q: "quiet (mach s) p" and len: "\<And>b. b < NBUF \<Longrightarrow> length (b_data (bufs s b)) = BSIZE" using io by (simp_all add: io_ok_def)
  note B = bufs_okD [OF bo] and L = locks_okD [OF lo]
  have set: "set ls = {..<NBUF}" using ls by (simp add: dll_def)
  have c: "b < NBUF \<and> is_block (bufs s) dv n b \<and> b \<notin> H" if "List.find (is_block (bufs s) dv n) ls = Some b" for b
    using find_SomeD [OF that] set assms(3) by (auto simp: is_block_def)
  have r: "b < NBUF \<and> b_refcnt (bufs s b) = 0 \<and> b \<notin> H" if "List.find (\<lambda>b. b_refcnt (bufs s b) = 0) (rev ls) = Some b" for b
    using find_SomeD [OF that] set assms(3) by auto
  have dirty: "\<exists>b < NBUF. is_block (bufs s) dv n b \<and> b_valid (bufs s b) \<noteq> 0" if "unat n \<in> D"
    using B(6) [OF that] by (auto simp: is_block_def word_unat_eq_iff)
  note g = bget_apply [OF q ls, of dv n]
  show ?thesis
  proof (cases "List.find (is_block (bufs s) dv n) ls")
    case (Some b)
    note cb = c [OF Some]
    have "bget dv n s = Ok b (grab b (pid (procs s p)) ((bufs s b)\<lparr>b_refcnt := b_refcnt (bufs s b) + 1\<rparr>) s)"
      using g c r L(5) Some by simp
    moreover have "\<not> is_block (bufs s) dv n e" if "e < NBUF" "e \<noteq> b" for e
      using B(4) [of e b] cb that by (auto simp: is_block_def)
    moreover have "unat n \<notin> D" if "b_valid (bufs s b) = 0"
      using dirty that calculation(2) by blast
    ultimately show ?thesis using cb len B(3) [of b]
      by (intro exI [of _ b] exI [of _ "(bufs s b)\<lparr>b_refcnt := b_refcnt (bufs s b) + 1\<rparr>"]) (auto simp: is_block_def)
  next
    case None
    then have none: "\<not> is_block (bufs s) dv n e" if "e < NBUF" for e
      using that set by (auto simp: find_None_iff)
    have "List.find (\<lambda>b. b_refcnt (bufs s b) = 0) (rev ls) \<noteq> None"
      using assms(4) none set by (auto simp: find_None_iff)
    then obtain b where b: "List.find (\<lambda>b. b_refcnt (bufs s b) = 0) (rev ls) = Some b" by blast
    note rb = r [OF b]
    have "bget dv n s = Ok b (grab b (pid (procs s p)) (recycled dv n (bufs s b)) s)"
      using g c r L(5) None b by simp
    then show ?thesis using rb len none dirty
      by (intro exI [of _ b] exI [of _ "recycled dv n (bufs s b)"]) (auto simp: recycled_def)
  qed
qed

lemma bread_spec:
  fixes s :: "'z dst_scheme"
  assumes ok: "cache_ok p dv C D H s" and n: "unat n < 2 ^ 31"
    and nh: "\<forall>b \<in> H. b_blockno (bufs s b) \<noteq> n \<and> b_refcnt (bufs s b) \<noteq> 0"
    and room: "(\<exists>b < NBUF. is_block (bufs s) dv n b) \<or> (\<exists>b < NBUF. b_refcnt (bufs s b) = 0)"
    and ref: "\<forall>b < NBUF. is_block (bufs s) dv n b \<longrightarrow> b_refcnt (bufs s b) + 1 \<noteq> 0"
  shows "\<exists>b t. bread dv n s = Ok b t \<and> cache_ok p dv C D (insert b H) t \<and> io_frame p s t \<and> img t = img s \<and>
    hist {img s} s t \<and> b < NBUF \<and> b \<notin> H \<and> b_blockno (bufs t b) = n \<and>
    b_refcnt (bufs t b) = b_refcnt (bufs s b) + 1 \<and> (is_block (bufs s) dv n b \<or> b_refcnt (bufs s b) = 0) \<and>
    (\<forall>c. c \<noteq> b \<longrightarrow> bufs t c = bufs s c)"
proof -
  obtain b x where g: "bget dv n s = Ok b (grab b (pid (procs s p)) x s)" and b: "b < NBUF" "b \<notin> H"
    and x: "b_dev x = dv" "b_blockno x = n" "b_refcnt x = b_refcnt (bufs s b) + 1" "length (b_data x) = BSIZE"
      "b_prev x = b_prev (bufs s b)" "b_next x = b_next (bufs s b)"
      "b_valid x \<noteq> 0 \<longrightarrow> b_data x = C (unat n)" "b_valid x = 0 \<longrightarrow> unat n \<notin> D"
    and old: "is_block (bufs s) dv n b \<or> b_refcnt (bufs s b) = 0"
    and other: "\<forall>c < NBUF. c \<noteq> b \<longrightarrow> \<not> is_block (bufs s) dv n c"
    using bget_spec [OF ok n nh room] by blast
  obtain ls where ls: "dll (bufs s) ls" and bo: "bufs_ok dv C D (img s) (bufs s)" and lo: "locks_ok p H s"
    and io: "io_ok p s" and dv: "dv \<noteq> 0" using ok by (auto simp: cache_ok_def)
  let ?s = "grab b (pid (procs s p)) x s"
  note gi = grab_io [OF io x(4), of b "pid (procs s p)"]
  have gs: "bufs ?s = (bufs s)(b := x)" "img ?s = img s" "procs ?s = procs s" "whist ?s = whist s"
    "slocks ?s = (slocks s)(LkBufSleep b := (slocks s (LkBufSleep b))\<lparr>sl_locked := 1, sl_pid := pid (procs s p)\<rparr>)"
    by (simp_all add: grab_def)
  have bn: "unat (b_blockno (bufs ?s b)) < 2 ^ 31" using x(2) n gs(1) by simp
  obtain t y where t: "bread_rest b ?s = Ok b t" "io_frame p ?s t" "io_ok p t" "slocks t = slocks ?s" "img t = img s"
      "hist {img s} ?s t" "bufs t = (bufs s)(b := y)"
    and y: "b_valid y \<noteq> 0" "b_dev y = dv" "b_blockno y = n" "b_refcnt y = b_refcnt (bufs s b) + 1"
      "b_prev y = b_prev (bufs s b)" "b_next y = b_next (bufs s b)"
      "b_data y = (if b_valid x = 0 then img_block (img s) (unat n) else b_data x)"
    using bread_rest_spec [OF gi(1) b(1) bn, unfolded gs(1,2) fun_upd_same fun_upd_upd x(1-3,5,6)] by blast
  have data: "b_data y = C (unat n)" using y(7) x(7,8) bufs_okD(5) [OF bo, of "unat n"] by simp
  have r: "b_refcnt y \<noteq> 0" using y(4) old ref b(1) by auto
  have "bufs_ok dv C D (img t) (bufs t)"
    unfolding t(5,7) using bufs_ok_load [OF bo b(1) y(2,3,1) data r n _ old] other by blast
  moreover have "dll (bufs t) ls" unfolding t(7) using dll_upd [OF ls y(5,6)] .
  moreover have "procs t p = procs s p"
    using t(2) gs(3) by (simp add: io_frame_def others_woken_def)
  then have "locks_ok p (insert b H) t"
    using lo b y(1) unfolding locks_ok_def t(4,7) gs(5) by auto
  ultimately have "cache_ok p dv C D (insert b H) t" using t(3) dv by (auto simp: cache_ok_def)
  moreover have "bread dv n s = Ok b t" using g t(1) by (simp add: bread_unfold)
  moreover have "hist {img s} s t" using t(6) gs(4) by (simp add: hist_def)
  ultimately show ?thesis
    using io_frame_trans [OF gi(2) t(2)] t(5,7) b y(3,4) old by (intro exI [of _ b] exI [of _ t]) simp
qed

section \<open>Writing, changing and releasing a block\<close>

text \<open>The fields that matter to the contents; \<^verbatim>\<open>prev\<close>, \<^verbatim>\<open>next\<close> and \<^verbatim>\<open>disk\<close> do not.\<close>

definition core :: "buf \<Rightarrow> buf" where
  "core x = x\<lparr>b_disk := 0, b_prev := 0, b_next := 0\<rparr>"

lemma core_simps [simp]:
  "b_valid (core x) = b_valid x" "b_dev (core x) = b_dev x" "b_blockno (core x) = b_blockno x"
  "b_refcnt (core x) = b_refcnt x" "b_data (core x) = b_data x"
  by (simp_all add: core_def)

lemma core_eqD:
  assumes "core x = core y"
  shows "b_valid x = b_valid y" "b_dev x = b_dev y" "b_blockno x = b_blockno y" "b_refcnt x = b_refcnt y" "b_data x = b_data y"
  using arg_cong [OF assms, of b_valid] arg_cong [OF assms, of b_dev] arg_cong [OF assms, of b_blockno]
    arg_cong [OF assms, of b_refcnt] arg_cong [OF assms, of b_data] by simp_all

lemma bufs_ok_core:
  assumes "\<And>b. core (B' b) = core (B b)"
  shows "bufs_ok dv C D im B' = bufs_ok dv C D im B"
  using core_eqD [OF assms] by (simp add: bufs_ok_def)

lemma locks_ok_core:
  assumes "\<And>b. core (bufs t b) = core (bufs s b)" and "slocks t = slocks s" and "procs t p = procs s p"
  shows "locks_ok p H t = locks_ok p H s"
  using core_eqD [OF assms(1)] assms(2,3) by (simp add: locks_ok_def)

lemma core_got [simp]: "core (got True im n x) = core x"
  by (cases x) (simp add: core_def got_def)

lemma holdingsleep_held:
  assumes "cache_ok p dv C D H s" and "b \<in> H"
  shows "holdingsleep (LkBufSleep b) s = Ok True (s\<lparr>mach := m_note (mach s)\<rparr>)"
proof -
  have q: "quiet (mach s) p" and lo: "locks_ok p H s" using assms(1) by (simp_all add: cache_ok_def io_ok_def)
  show ?thesis
    using holdingsleep_apply [of s "LkBufSleep b" p] quietD [OF q] locks_okD(2,3) [OF lo assms(2)] by simp
qed

lemma io_note: "io_ok p s \<Longrightarrow> io_ok p (s\<lparr>mach := m_note (mach s)\<rparr>)"
  by (simp add: io_ok_def)

lemma io_frame_note: "io_frame p s (s\<lparr>mach := m_note (mach s)\<rparr>)"
  by (simp add: io_frame_def)

lemma frame_proc: "io_frame p s t \<Longrightarrow> procs t p = procs s p"
  by (simp add: io_frame_def others_woken_def)

lemma bwrite_spec:
  fixes s :: "'z dst_scheme"
  assumes ok: "cache_ok p dv C D H s" and b: "b \<in> H"
  defines "n \<equiv> unat (b_blockno (bufs s b))"
  shows "\<exists>t. bwrite b s = Ok () t \<and> cache_ok p dv C (D - {n}) H t \<and> io_frame p s t \<and>
    img t = img_put (img s) n (C n) \<and> hist {img t} s t \<and> (\<forall>c. core (bufs t c) = core (bufs s c))"
proof -
  note hb = held_block [OF ok b]
  obtain ls where ls: "dll (bufs s) ls" and bo: "bufs_ok dv C D (img s) (bufs s)" and lo: "locks_ok p H s"
    and io: "io_ok p s" and dv: "dv \<noteq> 0" using ok by (auto simp: cache_ok_def)
  let ?s = "s\<lparr>mach := m_note (mach s)\<rparr>"
  have "unat (b_blockno (bufs ?s b)) < 2 ^ 31" using hb(3) by simp
  from virtio_disk_rw_spec [OF io_note [OF io] hb(1) this, of True]
  obtain t where t: "virtio_disk_rw b True ?s = Ok () t" "io_frame p ?s t" "io_ok p t" "slocks t = slocks s"
    "bufs t = (bufs s)(b := got True (img s) n (bufs s b))" "img t = img_put (img s) n (b_data (bufs s b))"
    "whist t = img t # whist s" by (auto simp: put_def n_def)
  have core: "core (bufs t c) = core (bufs s c)" for c using t(5) by simp
  have fr: "io_frame p s t" using io_frame_trans [OF io_frame_note t(2)] .
  have len: "length (C n) = BSIZE" using hb(1) io by (simp add: io_ok_def n_def flip: hb(4))
  have im: "img t = img_put (img s) n (C n)" using t(6) hb(4) by (simp add: n_def)
  have "img_block (img t) k = C k" if "k \<notin> D - {n}" for k
    using that len bufs_okD(5) [OF bo, of k] unfolding im by (cases "k = n") simp_all
  then have "bufs_ok dv C (D - {n}) (img t) (bufs s)" using bo unfolding bufs_ok_def by blast
  then have "bufs_ok dv C (D - {n}) (img t) (bufs t)" using bufs_ok_core [of "bufs t" "bufs s"] core by blast
  moreover have "dll (bufs t) ls" unfolding t(5) using ls by (intro dll_upd) (simp_all add: got_def)
  moreover have "locks_ok p H t" using lo locks_ok_core [OF core t(4) frame_proc [OF fr]] by blast
  moreover have "bwrite b s = Ok () t"
    using holdingsleep_held [OF ok b] t(1) by (simp add: bwrite_def kop_simps)
  moreover have "hist {img t} s t" using t(7) by (simp add: hist_def)
  ultimately show ?thesis using t(3) dv fr im core by (intro exI [of _ t]) (auto simp: cache_ok_def)
qed

lemma change_spec:
  fixes s :: "'z dst_scheme"
  assumes ok: "cache_ok p dv C D H s" and b: "b \<in> H" and r: "b_refcnt (bufs s b) \<noteq> 0" and d: "length d = BSIZE"
  defines "n \<equiv> unat (b_blockno (bufs s b))"
  defines "t \<equiv> s\<lparr>bufs := (bufs s)(b := (bufs s b)\<lparr>b_data := d\<rparr>)\<rparr>"
  shows "cache_ok p dv (C(n := d)) (insert n D) H t" and "io_frame p s t"
proof -
  note hb = held_block [OF ok b]
  obtain ls where ls: "dll (bufs s) ls" and bo: "bufs_ok dv C D (img s) (bufs s)" and lo: "locks_ok p H s"
    and io: "io_ok p s" and dv: "dv \<noteq> 0" using ok by (auto simp: cache_ok_def)
  note B = bufs_okD [OF bo]
  have sel: "b_dev (bufs t c) = b_dev (bufs s c)" "b_blockno (bufs t c) = b_blockno (bufs s c)"
    "b_valid (bufs t c) = b_valid (bufs s c)" "b_refcnt (bufs t c) = b_refcnt (bufs s c)" for c
    by (simp_all add: t_def)
  have data: "b_data (bufs t c) = (C(n := d)) (unat (b_blockno (bufs s c)))" if "c < NBUF" "b_valid (bufs s c) \<noteq> 0" for c
  proof (cases "c = b")
    case True
    then show ?thesis by (simp add: t_def n_def)
  next
    case False
    have "b_dev (bufs s c) = dv" using B(1) [OF that(1)] that(2) by blast
    then have "b_blockno (bufs s c) \<noteq> b_blockno (bufs s b)" using B(4) [OF that(1) hb(1)] hb(2) False by blast
    then have "unat (b_blockno (bufs s c)) \<noteq> n" by (simp add: n_def word_unat_eq_iff)
    then show ?thesis using B(3) [OF that] False by (simp add: t_def)
  qed
  have dirty: "\<exists>c < NBUF. b_dev (bufs s c) = dv \<and> unat (b_blockno (bufs s c)) = k \<and> b_valid (bufs s c) \<noteq> 0 \<and>
      b_refcnt (bufs s c) \<noteq> 0" if "k \<in> insert n D" for k
    using that B(6) hb(1,2,5) r by (auto simp: n_def)
  have clean: "img_block (img s) k = (C(n := d)) k" if "k \<notin> insert n D" for k using that B(5) by simp
  have "bufs_ok dv (C(n := d)) (insert n D) (img s) (bufs t)"
    unfolding bufs_ok_def sel using B(1,2,4) data dirty clean by blast
  moreover have "dll (bufs t) ls" unfolding t_def using dll_upd [OF ls] by simp
  moreover have "locks_ok p H t" using lo by (simp add: locks_ok_def t_def)
  moreover have "io_ok p t" using io d by (simp add: io_ok_def t_def)
  ultimately show "cache_ok p dv (C(n := d)) (insert n D) H t" using dv by (auto simp: cache_ok_def t_def)
  show "io_frame p s t" by (simp add: io_frame_def t_def)
qed

lemma ref_spec:
  fixes s :: "'z dst_scheme"
  assumes ok: "cache_ok p dv C D H s" and b: "b < NBUF" "b_dev (bufs s b) = dv"
    and r: "r \<noteq> 0 \<or> unat (b_blockno (bufs s b)) \<notin> D"
  defines "t \<equiv> s\<lparr>mach := m_note (mach s), bufs := (bufs s)(b := (bufs s b)\<lparr>b_refcnt := r\<rparr>)\<rparr>"
  shows "cache_ok p dv C D H t" and "io_frame p s t"
proof -
  obtain ls where ls: "dll (bufs s) ls" and bo: "bufs_ok dv C D (img s) (bufs s)" and lo: "locks_ok p H s"
    and io: "io_ok p s" and dv: "dv \<noteq> 0" using ok by (auto simp: cache_ok_def)
  note B = bufs_okD [OF bo]
  have sel: "b_dev (bufs t c) = b_dev (bufs s c)" "b_blockno (bufs t c) = b_blockno (bufs s c)"
    "b_valid (bufs t c) = b_valid (bufs s c)" "b_data (bufs t c) = b_data (bufs s c)" for c
    by (simp_all add: t_def)
  have dev: "b_dev (bufs s c) = dv \<or> b_dev (bufs s c) = 0 \<and> b_valid (bufs s c) = 0 \<and> b_refcnt (bufs t c) = 0" if "c < NBUF" for c
    using B(1) [OF that] b(2) by (cases "c = b") (simp_all add: t_def)
  have dirty: "\<exists>c < NBUF. b_dev (bufs s c) = dv \<and> unat (b_blockno (bufs s c)) = k \<and> b_valid (bufs s c) \<noteq> 0 \<and>
      b_refcnt (bufs t c) \<noteq> 0" if k: "k \<in> D" for k
  proof -
    obtain c where c: "c < NBUF" "b_dev (bufs s c) = dv" "unat (b_blockno (bufs s c)) = k" "b_valid (bufs s c) \<noteq> 0"
      "b_refcnt (bufs s c) \<noteq> 0" using B(6) [OF k] by blast
    then show ?thesis using r k by (intro exI [of _ c]) (cases "c = b"; simp add: t_def)
  qed
  have "bufs_ok dv C D (img s) (bufs t)"
    unfolding bufs_ok_def sel using B(2-5) dev dirty by blast
  moreover have "dll (bufs t) ls" unfolding t_def using dll_upd [OF ls] by simp
  moreover have "locks_ok p H t" using lo by (simp add: locks_ok_def t_def)
  moreover have "io_ok p t" using io by (simp add: io_ok_def t_def)
  ultimately show "cache_ok p dv C D H t" using dv by (auto simp: cache_ok_def t_def)
  show "io_frame p s t" by (simp add: io_frame_def t_def)
qed

lemma pin_apply:
  assumes "quiet (mach s) p"
  shows "bpin b s = Ok () (s\<lparr>mach := m_note (mach s), bufs := (bufs s)(b := (bufs s b)\<lparr>b_refcnt := b_refcnt (bufs s b) + 1\<rparr>)\<rparr>)"
    and "bunpin b s = Ok () (s\<lparr>mach := m_note (mach s), bufs := (bufs s)(b := (bufs s b)\<lparr>b_refcnt := b_refcnt (bufs s b) - 1\<rparr>)\<rparr>)"
  using quietD [OF assms] by (simp_all add: bpin_def bunpin_def acquire_apply kop_simps)

text \<open>The pointer updates of \<^verbatim>\<open>brelse\<close>: unlink the buffer and insert it behind the head.\<close>

definition set_prev :: "nat \<Rightarrow> nat \<Rightarrow> (nat \<Rightarrow> buf) \<Rightarrow> nat \<Rightarrow> buf" where
  "set_prev x v B = B(x := (B x)\<lparr>b_prev := v\<rparr>)"

definition set_next :: "nat \<Rightarrow> nat \<Rightarrow> (nat \<Rightarrow> buf) \<Rightarrow> nat \<Rightarrow> buf" where
  "set_next x v B = B(x := (B x)\<lparr>b_next := v\<rparr>)"

lemma set_pointer_simps [simp]:
  "b_next (set_next x v B c) = (if c = x then v else b_next (B c))" "b_next (set_prev x v B c) = b_next (B c)"
  "b_prev (set_prev x v B c) = (if c = x then v else b_prev (B c))" "b_prev (set_next x v B c) = b_prev (B c)"
  "b_valid (set_prev x v B c) = b_valid (B c)" "b_valid (set_next x v B c) = b_valid (B c)"
  "b_dev (set_prev x v B c) = b_dev (B c)" "b_dev (set_next x v B c) = b_dev (B c)"
  "b_blockno (set_prev x v B c) = b_blockno (B c)" "b_blockno (set_next x v B c) = b_blockno (B c)"
  "b_refcnt (set_prev x v B c) = b_refcnt (B c)" "b_refcnt (set_next x v B c) = b_refcnt (B c)"
  "b_data (set_prev x v B c) = b_data (B c)" "b_data (set_next x v B c) = b_data (B c)"
  by (simp_all add: set_prev_def set_next_def)

definition relink :: "nat \<Rightarrow> (nat \<Rightarrow> buf) \<Rightarrow> nat \<Rightarrow> buf" where
  "relink b B0 = (let
     B1 = set_prev (b_next (B0 b)) (b_prev (B0 b)) B0;
     B2 = set_next (b_prev (B1 b)) (b_next (B1 b)) B1;
     B3 = set_next b (b_next (B2 NBUF)) B2;
     B4 = set_prev b NBUF B3;
     B5 = set_prev (b_next (B4 NBUF)) b B4
   in set_next NBUF b B5)"

lemma relink_fields:
  "b_valid (relink b B c) = b_valid (B c)" "b_dev (relink b B c) = b_dev (B c)" "b_blockno (relink b B c) = b_blockno (B c)"
  "b_refcnt (relink b B c) = b_refcnt (B c)" "b_data (relink b B c) = b_data (B c)"
  by (simp_all only: relink_def Let_def set_pointer_simps)

lemma relink_core [simp]: "core (relink b B c) = core (B c)"
proof -
  have "core x = \<lparr>b_valid = b_valid x, b_disk = 0, b_dev = b_dev x, b_blockno = b_blockno x, b_refcnt = b_refcnt x,
      b_prev = 0, b_next = 0, b_data = b_data x\<rparr>" for x by (cases x) (simp add: core_def)
  then show ?thesis by (simp add: relink_fields)
qed

lemma relink_pointers:
  assumes "b_next (B b) \<noteq> b" and "b \<noteq> NBUF"
  defines "N \<equiv> \<lambda>x. b_next (B x)" and "P \<equiv> \<lambda>x. b_prev (B x)"
  defines "N1 \<equiv> N(P b := N b)" and "P1 \<equiv> P(N b := P b)"
  shows "(\<lambda>x. b_next (relink b B x)) = N1(b := N1 NBUF, NBUF := b)"
    and "(\<lambda>x. b_prev (relink b B x)) = P1(b := NBUF, N1 NBUF := b)"
  using assms(1,2) by (auto simp: relink_def Let_def N1_def P1_def N_def P_def fun_eq_iff)

lemma relink_dll:
  assumes "dll B ls" and "b < NBUF"
  shows "dll (relink b B) (b # remove1 b ls)"
proof -
  let ?N = "\<lambda>x. b_next (B x)" and ?P = "\<lambda>x. b_prev (B x)"
  have l: "lseg ?N ?P NBUF ls NBUF" "distinct ls" "set ls = {..<NBUF}" using assms(1) by (simp_all add: dll_def)
  then obtain us vs where ls: "ls = us @ b # vs" using assms(2) by (metis lessThan_iff split_list)
  have "lseg ?N ?P b vs NBUF" using l(1) ls by (simp add: lseg_append)
  then have "?N b = hd (vs @ [NBUF])" by (rule lseg_first)
  then have ne: "b_next (B b) \<noteq> b" "b \<noteq> NBUF" using l(2,3) ls assms(2) by (cases vs; auto)+
  let ?N1 = "?N(?P b := ?N b)" and ?P1 = "?P(?N b := ?P b)"
  have nin: "NBUF \<notin> set (us @ b # vs)" using l(3) ls by auto
  have un: "lseg ?N1 ?P1 NBUF (us @ vs) NBUF"
    using lseg_unlink [of ?N ?P NBUF us b vs NBUF] l(1,2) nin ls by simp
  have "lseg (?N1(b := ?N1 NBUF, NBUF := b)) (?P1(b := NBUF, ?N1 NBUF := b)) NBUF (b # us @ vs) NBUF"
    using nin l(2) ls assms(2) by (intro lseg_push [OF un]) auto
  moreover have "remove1 b ls = us @ vs" using l(2) ls by (auto simp: remove1_append)
  ultimately show ?thesis
    unfolding dll_def relink_pointers [of B b, OF ne] using l(2,3) ls by auto
qed

lemma upd_pointer:
  "upd_buf x (\<lambda>y. y\<lparr>b_prev := v\<rparr>) s = Ok () (s\<lparr>bufs := set_prev x v (bufs s)\<rparr>)"
  "upd_buf x (\<lambda>y. y\<lparr>b_next := v\<rparr>) s = Ok () (s\<lparr>bufs := set_next x v (bufs s)\<rparr>)"
  by (simp_all add: set_prev_def set_next_def)

lemma relink_run:
  fixes s :: "'z dst_scheme"
  shows "bnd (get_buf b b_next) (\<lambda>n.
     bnd (get_buf b b_prev) (\<lambda>p.
     thn (upd_buf n (\<lambda>x. x\<lparr>b_prev := p\<rparr>)) (
     bnd (get_buf b b_prev) (\<lambda>p.
     bnd (get_buf b b_next) (\<lambda>n.
     thn (upd_buf p (\<lambda>x. x\<lparr>b_next := n\<rparr>)) (
     bnd (get_buf NBUF b_next) (\<lambda>h.
     thn (upd_buf b (\<lambda>x. x\<lparr>b_next := h\<rparr>)) (
     thn (upd_buf b (\<lambda>x. x\<lparr>b_prev := NBUF\<rparr>)) (
     bnd (get_buf NBUF b_next) (\<lambda>h.
     thn (upd_buf h (\<lambda>x. x\<lparr>b_prev := b\<rparr>))
         (upd_buf NBUF (\<lambda>x. x\<lparr>b_next := b\<rparr>)))))))))))) s = Ok () (s\<lparr>bufs := relink b (bufs s)\<rparr>)"
  by (simp add: kop_simps upd_pointer relink_def Let_def del: disk_prims(2) set_pointer_simps)

lemma brelse_apply:
  fixes s :: "'z dst_scheme"
  assumes ok: "cache_ok p dv C D H s" and b: "b \<in> H"
  defines "B \<equiv> (bufs s)(b := (bufs s b)\<lparr>b_refcnt := b_refcnt (bufs s b) - 1\<rparr>)"
  shows "brelse b s = Ok () (s\<lparr>mach := m_note (mach s), procs := wake_all (ChSleepLock (LkBufSleep b)) (procs s),
    slocks := (slocks s)(LkBufSleep b := (slocks s (LkBufSleep b))\<lparr>sl_locked := 0, sl_pid := 0\<rparr>),
    bufs := if b_refcnt (bufs s b) - 1 = 0 then relink b B else B\<rparr>)"
proof -
  have q: "quiet (mach s) p" using ok by (simp add: cache_ok_def io_ok_def)
  note l = quietD [OF q]
  let ?s = "s\<lparr>mach := m_note (mach s)\<rparr>" and ?lk = "LkBufSleep b"
  have r: "releasesleep ?lk ?s = Ok () (sl_drop ?lk ?s)" using l by (intro releasesleep_apply) simp_all
  show ?thesis
    using holdingsleep_held [OF ok b] r l
    by (simp add: brelse_def thn_apply bnd_Ok whenk_apply acquire_apply sl_drop_def B_def relink_run del: bnd_apply)
qed

lemma brelse_spec:
  fixes s :: "'z dst_scheme"
  assumes ok: "cache_ok p dv C D H s" and b: "b \<in> H"
    and r: "b_refcnt (bufs s b) \<noteq> 1 \<or> unat (b_blockno (bufs s b)) \<notin> D"
  shows "\<exists>t. brelse b s = Ok () t \<and> cache_ok p dv C D (H - {b}) t \<and> io_frame p s t \<and> img t = img s \<and> whist t = whist s \<and>
    core (bufs t b) = (core (bufs s b))\<lparr>b_refcnt := b_refcnt (bufs s b) - 1\<rparr> \<and>
    (\<forall>c. c \<noteq> b \<longrightarrow> core (bufs t c) = core (bufs s c))"
proof -
  note hb = held_block [OF ok b]
  let ?r = "b_refcnt (bufs s b) - 1"
  let ?B = "(bufs s)(b := (bufs s b)\<lparr>b_refcnt := ?r\<rparr>)"
  let ?B' = "if ?r = 0 then relink b ?B else ?B"
  let ?t = "s\<lparr>mach := m_note (mach s), procs := wake_all (ChSleepLock (LkBufSleep b)) (procs s),
    slocks := (slocks s)(LkBufSleep b := (slocks s (LkBufSleep b))\<lparr>sl_locked := 0, sl_pid := 0\<rparr>), bufs := ?B'\<rparr>"
  have "?r \<noteq> 0 \<or> unat (b_blockno (bufs s b)) \<notin> D" using r by simp
  note rs = ref_spec [OF ok hb(1,2) this]
  obtain ls where ls: "dll ?B ls" and bo: "bufs_ok dv C D (img s) ?B" and lo: "locks_ok p H s"
    and io: "io_ok p s" and dv: "dv \<noteq> 0" using rs(1) ok by (auto simp: cache_ok_def)
  have core: "core (?B' c) = core (?B c)" for c by simp
  have "\<exists>ls'. dll ?B' ls'" using ls relink_dll [OF ls hb(1)] by auto
  moreover have "bufs_ok dv C D (img s) ?B'" using bufs_ok_core [of ?B' ?B] core bo by blast
  moreover have run: "state (procs s p) = RUNNING" using io by (simp add: io_ok_def)
  then have woken: "others_woken p (procs s) (wake_all (ChSleepLock (LkBufSleep b)) (procs s))"
    by (intro others_woken_wake) simp
  then have pp: "wake_all (ChSleepLock (LkBufSleep b)) (procs s) p = procs s p" by (simp add: others_woken_def)
  have "locks_ok p (H - {b}) ?t"
    using lo pp core_eqD(1) [OF core] unfolding locks_ok_def by auto
  moreover have "io_ok p ?t"
    using io pp core_eqD(5) [OF core] by (auto simp: io_ok_def)
  ultimately have "cache_ok p dv C D (H - {b}) ?t" using dv by (simp add: cache_ok_def)
  moreover have "io_frame p s ?t" using woken by (simp add: io_frame_def)
  moreover have "core (?B b) = (core (bufs s b))\<lparr>b_refcnt := ?r\<rparr>" by (simp add: core_def)
  ultimately show ?thesis
    using brelse_apply [OF ok b] core by (intro exI [of _ ?t]) simp
qed

section \<open>Reference counts\<close>

text \<open>
  \<open>w\<close> counts the pins on every block. A buffer's \<^verbatim>\<open>refcnt\<close> is the pins on its block, plus one while the
  process holds it; pinned blocks stay cached. The count is a C \<^verbatim>\<open>uint\<close> and may wrap.
\<close>

definition bc :: "nat \<Rightarrow> uint \<Rightarrow> (nat \<Rightarrow> uchar list) \<Rightarrow> nat set \<Rightarrow> nat set \<Rightarrow> (uint \<Rightarrow> uint) \<Rightarrow> 'z dst_scheme \<Rightarrow> bool" where
  "bc p dv C D H w s \<longleftrightarrow> cache_ok p dv C D H s \<and>
     (\<forall>b < NBUF. b_refcnt (bufs s b) =
        (if b_dev (bufs s b) = dv then w (b_blockno (bufs s b)) else 0) + (if b \<in> H then 1 else 0)) \<and>
     (\<forall>x. w x \<noteq> 0 \<longrightarrow> (\<exists>b < NBUF. is_block (bufs s) dv x b))"

definition pins :: "(uint \<Rightarrow> uint) \<Rightarrow> uint set" where
  "pins w = {x. w x \<noteq> 0}"

lemma free_buffer:
  assumes "bc p dv C D H w s" and "card (pins w) + card H < NBUF"
  shows "\<exists>b < NBUF. b_refcnt (bufs s b) = 0"
proof (rule ccontr)
  assume none: "\<not> ?thesis"
  have ok: "cache_ok p dv C D H s" using assms(1) by (simp add: bc_def)
  then have H: "H \<subseteq> {..<NBUF}" and bo: "bufs_ok dv C D (img s) (bufs s)" by (simp_all add: cache_ok_def locks_ok_def)
  let ?G = "{..<NBUF} - H"
  have ref: "b_dev (bufs s b) = dv \<and> w (b_blockno (bufs s b)) \<noteq> 0" if "b \<in> ?G" for b
  proof -
    have "b_refcnt (bufs s b) \<noteq> 0" "b_refcnt (bufs s b) = (if b_dev (bufs s b) = dv then w (b_blockno (bufs s b)) else 0) + (if b \<in> H then 1 else 0)"
      using that none assms(1) unfolding bc_def by blast+
    then show ?thesis using that by (auto split: if_splits)
  qed
  have "inj_on (\<lambda>b. b_blockno (bufs s b)) ?G"
    using ref bufs_okD(4) [OF bo] by (auto intro!: inj_onI)
  moreover have "(\<lambda>b. b_blockno (bufs s b)) ` ?G \<subseteq> pins w" using ref by (auto simp: pins_def)
  moreover have "finite (pins w)" by (rule finite_subset [OF subset_UNIV]) simp
  ultimately have "card ?G \<le> card (pins w)" by (metis card_inj_on_le)
  moreover have "card ?G = NBUF - card H" using H by (simp add: card_Diff_subset finite_subset [of H "{..<NBUF}"])
  ultimately show False using assms(2) by simp
qed

lemma bread_bc:
  fixes s :: "'z dst_scheme"
  assumes ok: "bc p dv C D H w s" and n: "unat n < 2 ^ 31"
    and held: "\<forall>b \<in> H. b_blockno (bufs s b) \<noteq> n \<and> w (b_blockno (bufs s b)) \<noteq> - 1"
    and room: "w n \<noteq> 0 \<or> card (pins w) + card H < NBUF" and pin: "w n \<noteq> - 1"
  shows "\<exists>b t. bread dv n s = Ok b t \<and> bc p dv C D (insert b H) w t \<and> io_frame p s t \<and> img t = img s \<and>
    hist {img s} s t \<and> b \<notin> H \<and> b_blockno (bufs t b) = n \<and> (\<forall>c. c \<noteq> b \<longrightarrow> bufs t c = bufs s c)"
proof -
  have co: "cache_ok p dv C D H s" and ref: "\<And>b. b < NBUF \<Longrightarrow> b_refcnt (bufs s b) =
      (if b_dev (bufs s b) = dv then w (b_blockno (bufs s b)) else 0) + (if b \<in> H then 1 else 0)"
    and cached: "\<And>x. w x \<noteq> 0 \<Longrightarrow> \<exists>b < NBUF. is_block (bufs s) dv x b" using ok by (simp_all add: bc_def)
  note hb = held_block [OF co]
  have nh: "\<forall>b \<in> H. b_blockno (bufs s b) \<noteq> n \<and> b_refcnt (bufs s b) \<noteq> 0"
    using held ref hb(1,2) by (simp add: eq_neg_iff_add_eq_0)
  have rm: "(\<exists>b < NBUF. is_block (bufs s) dv n b) \<or> (\<exists>b < NBUF. b_refcnt (bufs s b) = 0)"
    using room cached free_buffer [OF ok] by blast
  have rf: "\<forall>b < NBUF. is_block (bufs s) dv n b \<longrightarrow> b_refcnt (bufs s b) + 1 \<noteq> 0"
    using ref pin held by (auto simp: is_block_def eq_neg_iff_add_eq_0)
  obtain b t where t: "bread dv n s = Ok b t" "cache_ok p dv C D (insert b H) t" "io_frame p s t" "img t = img s"
      "hist {img s} s t" "b < NBUF" "b \<notin> H" "b_blockno (bufs t b) = n" "b_refcnt (bufs t b) = b_refcnt (bufs s b) + 1"
      "is_block (bufs s) dv n b \<or> b_refcnt (bufs s b) = 0" "\<And>c. c \<noteq> b \<Longrightarrow> bufs t c = bufs s c"
    using bread_spec [OF co n nh rm rf] by blast
  have dev: "b_dev (bufs t b) = dv" using held_block(2) [OF t(2)] by simp
  have old: "b_refcnt (bufs s b) = w n"
  proof (cases "is_block (bufs s) dv n b")
    case True
    then show ?thesis using ref [OF t(6)] t(7) by (simp add: is_block_def)
  next
    case False
    then have z: "b_refcnt (bufs s b) = 0" using t(10) by blast
    have "w n = 0"
    proof (rule ccontr)
      assume "w n \<noteq> 0"
      then obtain c where c: "c < NBUF" "is_block (bufs s) dv n c" using cached by blast
      then have "c \<noteq> b" using False by auto
      then have "is_block (bufs t) dv n c" using c t(11) by (simp add: is_block_def)
      then have "c = b" using bufs_okD(4) [of dv C D "img t" "bufs t" c b] t(2,6,8) dev c(1) by (simp add: cache_ok_def is_block_def)
      then show False using \<open>c \<noteq> b\<close> by simp
    qed
    then show ?thesis using z by simp
  qed
  have "b_refcnt (bufs t c) =
      (if b_dev (bufs t c) = dv then w (b_blockno (bufs t c)) else 0) + (if c \<in> insert b H then 1 else 0)" if "c < NBUF" for c
    using ref [OF that] t(8,9,11) dev old by (cases "c = b") simp_all
  moreover have "\<exists>c < NBUF. is_block (bufs t) dv x c" if x: "w x \<noteq> 0" for x
  proof -
    obtain c where c: "c < NBUF" "is_block (bufs s) dv x c" using cached [OF x] by blast
    show ?thesis
    proof (cases "c = b")
      case True
      then have "w (b_blockno (bufs s b)) \<noteq> 0" "b_dev (bufs s b) = dv" using c x by (auto simp: is_block_def)
      then have "b_refcnt (bufs s b) \<noteq> 0" using ref [OF t(6)] t(7) by simp
      then have "is_block (bufs s) dv n b" using t(10) by blast
      then have "x = n" using c True by (simp add: is_block_def)
      then show ?thesis using t(6,8) dev by (auto simp: is_block_def)
    next
      case False
      then show ?thesis using c t(11) by (auto simp: is_block_def)
    qed
  qed
  ultimately have "bc p dv C D (insert b H) w t" using t(2) by (simp add: bc_def)
  then show ?thesis using t by (intro exI [of _ b] exI [of _ t]) simp
qed

lemma bc_core:
  assumes "bc p dv C D H w s" and "cache_ok p dv C' D' H t" and "\<And>c. core (bufs t c) = core (bufs s c)"
  shows "bc p dv C' D' H w t"
  using assms(1,2) core_eqD [OF assms(3)] by (simp add: bc_def is_block_def)

lemma bc_ref:
  assumes "bc p dv C D H w s" and "b \<in> H"
  shows "b_refcnt (bufs s b) = w (b_blockno (bufs s b)) + 1"
  using assms held_block(1,2) [of p dv C D H s b] by (simp add: bc_def)

lemma bc_cache: "bc p dv C D H w s \<Longrightarrow> cache_ok p dv C D H s"
  by (simp add: bc_def)

lemma bwrite_bc:
  fixes s :: "'z dst_scheme"
  assumes ok: "bc p dv C D H w s" and b: "b \<in> H" and n: "n = unat (b_blockno (bufs s b))"
  shows "\<exists>t. bwrite b s = Ok () t \<and> bc p dv C (D - {n}) H w t \<and> io_frame p s t \<and>
    img t = img_put (img s) n (C n) \<and> hist {img t} s t \<and> (\<forall>c. core (bufs t c) = core (bufs s c))"
proof -
  obtain t where "bwrite b s = Ok () t" "cache_ok p dv C (D - {n}) H t" "io_frame p s t" "img t = img_put (img s) n (C n)"
    "hist {img t} s t" "\<And>c. core (bufs t c) = core (bufs s c)" using bwrite_spec [OF bc_cache [OF ok] b] unfolding n by blast
  then show ?thesis using bc_core [OF ok] by blast
qed

lemma change_bc:
  fixes s :: "'z dst_scheme"
  assumes ok: "bc p dv C D H w s" and b: "b \<in> H" and n: "n = unat (b_blockno (bufs s b))"
    and r: "w (b_blockno (bufs s b)) \<noteq> - 1" and d: "length d = BSIZE"
  defines "t \<equiv> s\<lparr>bufs := (bufs s)(b := (bufs s b)\<lparr>b_data := d\<rparr>)\<rparr>"
  shows "bc p dv (C(n := d)) (insert n D) H w t" and "io_frame p s t"
proof -
  have "b_refcnt (bufs s b) \<noteq> 0" using bc_ref [OF ok b] r by (simp add: eq_neg_iff_add_eq_0)
  note c = change_spec [OF bc_cache [OF ok] b this d]
  have sel: "b_dev (bufs t c) = b_dev (bufs s c)" "b_blockno (bufs t c) = b_blockno (bufs s c)"
    "b_refcnt (bufs t c) = b_refcnt (bufs s c)" for c by (simp_all add: t_def)
  show "bc p dv (C(n := d)) (insert n D) H w t"
    using ok c(1) unfolding n t_def [symmetric] bc_def is_block_def sel by blast
  show "io_frame p s t" using c(2) by (simp add: t_def)
qed

lemma reference_bc:
  fixes s :: "'z dst_scheme"
  assumes ok: "bc p dv C D H w s" and b: "b \<in> H" and r: "b_refcnt (bufs s b) + k \<noteq> 0 \<or> unat (b_blockno (bufs s b)) \<notin> D"
  defines "t \<equiv> s\<lparr>mach := m_note (mach s), bufs := (bufs s)(b := (bufs s b)\<lparr>b_refcnt := b_refcnt (bufs s b) + k\<rparr>)\<rparr>"
  defines "x \<equiv> b_blockno (bufs s b)"
  shows "bc p dv C D H (w(x := w x + k)) t" and "io_frame p s t"
proof -
  note co = bc_cache [OF ok] note hb = held_block [OF co b]
  note rs = ref_spec [OF co hb(1,2) r]
  have ref: "b_refcnt (bufs s c) = (if b_dev (bufs s c) = dv then w (b_blockno (bufs s c)) else 0) + (if c \<in> H then 1 else 0)"
    and cached: "w y \<noteq> 0 \<Longrightarrow> \<exists>c < NBUF. is_block (bufs s) dv y c" if "c < NBUF" for c y using ok that by (simp_all add: bc_def)
  have bo: "bufs_ok dv C D (img s) (bufs s)" using co by (simp add: cache_ok_def)
  have sel: "b_dev (bufs t c) = b_dev (bufs s c)" "b_blockno (bufs t c) = b_blockno (bufs s c)" for c by (simp_all add: t_def)
  have "b_refcnt (bufs t c) = (if b_dev (bufs t c) = dv then (w(x := w x + k)) (b_blockno (bufs t c)) else 0) + (if c \<in> H then 1 else 0)"
    if "c < NBUF" for c
  proof (cases "c = b")
    case True
    then show ?thesis using ref [OF hb(1)] hb(2) unfolding sel by (simp add: t_def x_def)
  next
    case False
    then have "b_dev (bufs s c) = dv \<Longrightarrow> b_blockno (bufs s c) \<noteq> x"
      using bufs_okD(4) [OF bo that hb(1)] hb(2) by (auto simp: x_def)
    then show ?thesis using ref [OF that] False unfolding sel by (simp add: t_def)
  qed
  moreover have "\<exists>c < NBUF. is_block (bufs t) dv y c" if "(w(x := w x + k)) y \<noteq> 0" for y
    using that hb(1,2) cached [OF hb(1), of y] unfolding is_block_def sel by (cases "y = x") (auto simp: x_def)
  ultimately show "bc p dv C D H (w(x := w x + k)) t" using rs(1) by (simp add: bc_def t_def)
  show "io_frame p s t" using rs(2) by (simp add: t_def)
qed

lemma bpin_bc:
  fixes s :: "'z dst_scheme"
  assumes ok: "bc p dv C D H w s" and b: "b \<in> H" and x: "x = b_blockno (bufs s b)" and r: "w x \<noteq> - 2"
  shows "\<exists>t. bpin b s = Ok () t \<and> bc p dv C D H (w(x := w x + 1)) t \<and> io_frame p s t \<and> img t = img s \<and> whist t = whist s \<and>
    (\<forall>c. b_blockno (bufs t c) = b_blockno (bufs s c))"
proof -
  have "quiet (mach s) p" using bc_cache [OF ok] by (simp add: cache_ok_def io_ok_def)
  note pa = pin_apply(1) [OF this, of b]
  have "b_refcnt (bufs s b) + 1 \<noteq> 0" using bc_ref [OF ok b] r x by (simp add: add.assoc eq_neg_iff_add_eq_0)
  then show ?thesis using reference_bc [OF ok b, of 1] unfolding pa x by auto
qed

lemma bunpin_bc:
  fixes s :: "'z dst_scheme"
  assumes ok: "bc p dv C D H w s" and b: "b \<in> H" and x: "x = b_blockno (bufs s b)" and r: "w x \<noteq> 0 \<or> unat x \<notin> D"
  shows "\<exists>t. bunpin b s = Ok () t \<and> bc p dv C D H (w(x := w x - 1)) t \<and> io_frame p s t \<and> img t = img s \<and> whist t = whist s \<and>
    (\<forall>c. b_blockno (bufs t c) = b_blockno (bufs s c))"
proof -
  have "quiet (mach s) p" using bc_cache [OF ok] by (simp add: cache_ok_def io_ok_def)
  note pa = pin_apply(2) [OF this, of b]
  have "b_refcnt (bufs s b) + - 1 \<noteq> 0 \<or> unat (b_blockno (bufs s b)) \<notin> D" using bc_ref [OF ok b] r x by simp
  then show ?thesis using reference_bc [OF ok b, of "- 1"] unfolding pa x by auto
qed

lemma brelse_bc:
  fixes s :: "'z dst_scheme"
  assumes ok: "bc p dv C D H w s" and b: "b \<in> H" and r: "w (b_blockno (bufs s b)) \<noteq> 0 \<or> unat (b_blockno (bufs s b)) \<notin> D"
  shows "\<exists>t. brelse b s = Ok () t \<and> bc p dv C D (H - {b}) w t \<and> io_frame p s t \<and> img t = img s \<and> whist t = whist s \<and>
    (\<forall>c. b_blockno (bufs t c) = b_blockno (bufs s c))"
proof -
  note co = bc_cache [OF ok] note hb = held_block [OF co b]
  have "b_refcnt (bufs s b) \<noteq> 1 \<or> unat (b_blockno (bufs s b)) \<notin> D" using bc_ref [OF ok b] r by auto
  then obtain t where t: "brelse b s = Ok () t" "cache_ok p dv C D (H - {b}) t" "io_frame p s t" "img t = img s" "whist t = whist s"
      "core (bufs t b) = (core (bufs s b))\<lparr>b_refcnt := b_refcnt (bufs s b) - 1\<rparr>" "\<And>c. c \<noteq> b \<Longrightarrow> core (bufs t c) = core (bufs s c)"
    using brelse_spec [OF co b] by blast
  have tb: "b_dev (bufs t b) = b_dev (bufs s b)" "b_blockno (bufs t b) = b_blockno (bufs s b)" "b_refcnt (bufs t b) = b_refcnt (bufs s b) - 1"
    using arg_cong [OF t(6), of b_dev] arg_cong [OF t(6), of b_blockno] arg_cong [OF t(6), of b_refcnt] by simp_all
  have sel: "b_dev (bufs t c) = b_dev (bufs s c)" "b_blockno (bufs t c) = b_blockno (bufs s c)" for c
    using tb core_eqD(2,3) [OF t(7)] by (cases "c = b"; simp)+
  have "b_refcnt (bufs t c) = (if b_dev (bufs t c) = dv then w (b_blockno (bufs t c)) else 0) + (if c \<in> H - {b} then 1 else 0)"
    if "c < NBUF" for c
    using ok that b tb(3) core_eqD(4) [OF t(7)] unfolding sel by (cases "c = b") (simp_all add: bc_def)
  then have "bc p dv C D (H - {b}) w t" using ok t(2) unfolding bc_def is_block_def sel by blast
  then show ?thesis using t sel by blast
qed

section \<open>A concrete cache\<close>

definition ring_buf :: "nat \<Rightarrow> buf" where
  "ring_buf b = idle_buf\<lparr>b_prev := (if b = 0 then NBUF else b - 1), b_next := (if b = NBUF then 0 else b + 1)\<rparr>"

definition boot_cache :: kern where
  "boot_cache = boot\<lparr>bufs := ring_buf\<rparr>"

lemma ring_lseg: "k \<le> n \<Longrightarrow> n < NBUF \<Longrightarrow> lseg (\<lambda>x. b_next (ring_buf x)) (\<lambda>x. b_prev (ring_buf x)) k [Suc k..<Suc n] (Suc n)"
proof (induction n)
  case 0
  then show ?case by (simp add: ring_buf_def)
next
  case (Suc n)
  show ?case
  proof (cases "k = Suc n")
    case True
    then show ?thesis using Suc.prems by (simp add: ring_buf_def)
  next
    case False
    then have "lseg (\<lambda>x. b_next (ring_buf x)) (\<lambda>x. b_prev (ring_buf x)) k [Suc k..<Suc n] (Suc n)"
      using Suc by simp
    moreover have "[Suc k..<Suc (Suc n)] = [Suc k..<Suc n] @ [Suc n]" using False Suc.prems by simp
    ultimately show ?thesis using Suc.prems by (simp add: lseg_append ring_buf_def)
  qed
qed

lemma ring_dll: "dll ring_buf [0..<NBUF]"
proof -
  have "lseg (\<lambda>x. b_next (ring_buf x)) (\<lambda>x. b_prev (ring_buf x)) 0 [Suc 0..<Suc 29] (Suc 29)"
    by (rule ring_lseg) (simp_all add: NBUF_def)
  moreover have "[0..<NBUF] = 0 # [Suc 0..<Suc 29]" "NBUF = Suc 29" by (simp_all add: NBUF_def upt_conv_Cons)
  moreover have "set [0..<NBUF] = {..<NBUF}" by auto
  ultimately show ?thesis unfolding dll_def by (simp add: ring_buf_def)
qed

lemma boot_cache_ok: "cache_ok (Suc 0) 1 (img_block (\<lambda>_. 0)) {} {} boot_cache"
proof -
  have "io_ok (Suc 0) boot_cache"
    using boot_io by (simp add: io_ok_def boot_cache_def ring_buf_def idle_buf_def)
  moreover have "bufs_ok 1 (img_block (\<lambda>_. 0)) {} (img boot_cache) ring_buf"
    by (simp add: bufs_ok_def boot_cache_def boot_def ring_buf_def idle_buf_def)
  moreover have "locks_ok (Suc 0) {} boot_cache"
    by (simp add: locks_ok_def boot_cache_def boot_def)
  ultimately show ?thesis using ring_dll by (auto simp: cache_ok_def boot_cache_def)
qed

section \<open>Property\<close>

text \<open>
  C24 (\<^verbatim>\<open>bio.c\<close>): the buffer cache refines a map from block numbers to contents. \<^verbatim>\<open>bread\<close> returns a locked
  buffer with the contents of the block, whether the block was cached or a buffer had to be recycled and
  filled from the disk, and leaves the map as it is; changing the buffer, writing it and releasing it
  updates the map at that block only, on disk as well, and every block can then be read again. No
  block is ever cached twice, whatever was cached before.
\<close>

theorem bcache_refines_blocks:
  fixes s :: "'z dst_scheme"
  assumes "cache_ok p dv C D {} s" and "unat n < 2 ^ 31" and "length d = BSIZE"
    and "(\<exists>b < NBUF. is_block (bufs s) dv n b) \<or> (\<exists>b < NBUF. b_refcnt (bufs s b) = 0)"
    and "\<forall>b < NBUF. is_block (bufs s) dv n b \<longrightarrow> b_refcnt (bufs s b) + 1 \<noteq> 0"
  shows "\<exists>b t u. bread dv n s = Ok b t \<and> b_data (bufs t b) = C (unat n) \<and> cache_ok p dv C D {b} t \<and>
    thn (upd_buf b (\<lambda>x. x\<lparr>b_data := d\<rparr>)) (thn (bwrite b) (brelse b)) t = Ok () u \<and>
    cache_ok p dv (C(unat n := d)) (D - {unat n}) {} u \<and> img_block (img u) (unat n) = d \<and>
    (\<forall>m. m \<noteq> unat n \<longrightarrow> img_block (img u) m = img_block (img s) m)"
proof -
  obtain b t where t: "bread dv n s = Ok b t" "cache_ok p dv C D (insert b {}) t" "img t = img s" "b < NBUF"
    "b_blockno (bufs t b) = n" "b_refcnt (bufs t b) = b_refcnt (bufs s b) + 1"
    "is_block (bufs s) dv n b \<or> b_refcnt (bufs s b) = 0"
    using bread_spec [OF assms(1,2) _ assms(4,5)] by blast
  have r: "b_refcnt (bufs t b) \<noteq> 0" using t(4,6,7) assms(5) by auto
  let ?t = "t\<lparr>bufs := (bufs t)(b := (bufs t b)\<lparr>b_data := d\<rparr>)\<rparr>"
  have c: "cache_ok p dv (C(unat n := d)) (insert (unat n) D) {b} ?t"
    using change_spec(1) [OF t(2) _ r assms(3)] t(5) by simp
  have n: "unat (b_blockno (bufs ?t b)) = unat n" using t(5) by simp
  obtain v where v: "bwrite b ?t = Ok () v" "cache_ok p dv (C(unat n := d)) (insert (unat n) D - {unat n}) {b} v"
    "img v = img_put (img s) (unat n) d" "\<forall>c. core (bufs v c) = core (bufs ?t c)"
    using bwrite_spec [OF c, of b] t(3) unfolding n by auto
  have "b_blockno (bufs v b) = n" using core_eqD(3) [OF v(4) [rule_format], of b] t(5) by simp
  then obtain u where u: "brelse b v = Ok () u" "cache_ok p dv (C(unat n := d)) (insert (unat n) D - {unat n}) ({b} - {b}) u"
    "img u = img v"
    using brelse_spec [OF v(2), of b] by auto
  have "insert (unat n) D - {unat n} = D - {unat n}" by auto
  then have "cache_ok p dv (C(unat n := d)) (D - {unat n}) {} u" using u(2) by simp
  moreover have "thn (upd_buf b (\<lambda>x. x\<lparr>b_data := d\<rparr>)) (thn (bwrite b) (brelse b)) t = Ok () u"
    using v(1) u(1) by (simp add: kop_simps)
  ultimately show ?thesis
    using t(1,2) held_block(4) [OF t(2), of b] t(5) u(3) v(3) assms(3)
    by (intro exI [of _ b] exI [of _ t] exI [of _ u]) simp
qed

theorem bcache_refines_blocks_witness:
  "\<exists>b t u. bread 1 7 boot_cache = Ok b t \<and> b_data (bufs t b) = img_block (\<lambda>_. 0) 7 \<and>
     thn (upd_buf b (\<lambda>x. x\<lparr>b_data := replicate BSIZE 9\<rparr>)) (thn (bwrite b) (brelse b)) t = Ok () u \<and>
     img_block (img u) 7 = replicate BSIZE 9"
proof -
  have "(\<exists>b < NBUF. is_block (bufs boot_cache) 1 7 b) \<or> (\<exists>b < NBUF. b_refcnt (bufs boot_cache b) = 0)"
    by (intro disjI2 exI [of _ 0]) (simp add: boot_cache_def ring_buf_def idle_buf_def NBUF_def)
  moreover have "\<forall>b < NBUF. is_block (bufs boot_cache) 1 7 b \<longrightarrow> b_refcnt (bufs boot_cache b) + 1 \<noteq> 0"
    by (simp add: boot_cache_def ring_buf_def idle_buf_def)
  moreover have "unat (7 :: uint) < 2 ^ 31" "length (replicate BSIZE (9 :: uchar)) = BSIZE" by simp_all
  ultimately obtain b t u where "bread 1 7 boot_cache = Ok b t" "b_data (bufs t b) = img_block (\<lambda>_. 0) (unat (7 :: uint))"
    "thn (upd_buf b (\<lambda>x. x\<lparr>b_data := replicate BSIZE 9\<rparr>)) (thn (bwrite b) (brelse b)) t = Ok () u"
    "img_block (img u) (unat (7 :: uint)) = replicate BSIZE 9"
    using bcache_refines_blocks [OF boot_cache_ok] by metis
  then show ?thesis by (intro exI [of _ b] exI [of _ t] exI [of _ u]) simp
qed

end
