(* ===== verification/Logprops.thy ===== *)
theory Logprops
  imports Bcache
begin

text \<open>
  The log makes transactions atomic: whatever the moment of a crash, recovery leaves either all of a
  transaction's blocks on the disk or none. The argument uses the buffer cache only through the laws
  of the locale \<open>block_cache\<close>.
\<close>

section \<open>What the log needs of the cache\<close>

lemma thn_assoc: "thn (thn a b) c = thn a (thn b c)"
  by (rule ext) (simp add: kop_simps split: outcome.splits)

lemma lg_last [simp]:
  "s\<lparr>lg := l, mach := m\<rparr> = s\<lparr>mach := m, lg := l\<rparr>"
  "s\<lparr>lg := l, bufs := x\<rparr> = s\<lparr>bufs := x, lg := l\<rparr>" for s :: "'z lgst_scheme"
  by (cases s; simp)+

lemma log_prims [simp]:
  "get_log f s = Ok (f (lg s)) s"
  "upd_log g s = Ok () (s\<lparr>lg := g (lg s)\<rparr>)"
  by (simp_all add: get_log_def upd_log_def)

section \<open>The header block\<close>

definition hdr_n :: "uchar list \<Rightarrow> int" where
  "hdr_n d = sint (get32 d 0)"

definition hdr_block :: "uchar list \<Rightarrow> nat \<Rightarrow> uint" where
  "hdr_block d i = get32 d (4 + 4 * i)"

definition hdr_put :: "uchar list \<Rightarrow> nat \<Rightarrow> uint list \<Rightarrow> uchar list" where
  "hdr_put d n bl = fold (\<lambda>i d. put32 d (4 + 4 * i) (bl ! i)) [0..<n] (put32 d 0 (of_nat n))"

lemma hdr_put_props:
  assumes "length d = BSIZE" and "n \<le> LOGSIZE"
  shows "length (hdr_put d n bl) = BSIZE" and "hdr_n (hdr_put d n bl) = int n"
    and "i < n \<Longrightarrow> hdr_block (hdr_put d n bl) i = bl ! i"
proof -
  let ?f = "\<lambda>k. fold (\<lambda>i d. put32 d (4 + 4 * i) (bl ! i)) [0..<k] (put32 d 0 (of_nat n))"
  have s: "4 + 4 * i + 4 \<le> BSIZE" if "i < LOGSIZE" for i using that by (simp add: BSIZE_def LOGSIZE_def MAXOPBLOCKS_def)
  have loop: "length (?f k) = BSIZE \<and> get32 (?f k) 0 = of_nat n \<and> (\<forall>i < k. get32 (?f k) (4 + 4 * i) = bl ! i)" if "k \<le> n" for k
    using that
  proof (induction k)
    case 0
    have "4 \<le> length d" using assms(1) by (simp add: BSIZE_def)
    then show ?case using assms(1) by simp
  next
    case (Suc k)
    then have k: "length (?f k) = BSIZE" "get32 (?f k) 0 = of_nat n" "\<forall>i < k. get32 (?f k) (4 + 4 * i) = bl ! i" by simp_all
    have sk: "4 + 4 * k + 4 \<le> length (?f k)" using s [of k] Suc.prems assms(2) k(1) by simp
    have step: "?f (Suc k) = put32 (?f k) (4 + 4 * k) (bl ! k)" by simp
    have "get32 (?f (Suc k)) (4 + 4 * i) = bl ! i" if "i < Suc k" for i
    proof (cases "i = k")
      case True
      then show ?thesis unfolding step using sk by simp
    next
      case False
      then show ?thesis unfolding step using sk that k(3) by (subst get32_put32_other) auto
    qed
    moreover have "get32 (?f (Suc k)) 0 = of_nat n" unfolding step using sk k(2) by (subst get32_put32_other) auto
    moreover have "length (?f (Suc k)) = BSIZE" unfolding step using sk k(1) by simp
    ultimately show ?case by blast
  qed
  have "sint (of_nat n :: uint) = int n" using assms(2) by (simp add: LOGSIZE_def MAXOPBLOCKS_def signed_of_nat signed_take_bit_int_eq_self)
  then show "length (hdr_put d n bl) = BSIZE" "hdr_n (hdr_put d n bl) = int n" "i < n \<Longrightarrow> hdr_block (hdr_put d n bl) i = bl ! i"
    using loop [of n] by (simp_all add: hdr_put_def hdr_n_def hdr_block_def)
qed

definition log_region :: "nat \<Rightarrow> nat set" where
  "log_region \<sigma> = {\<sigma>..<\<sigma> + LOGSIZE}"

text \<open>The in-memory header lists \<open>n\<close> different home blocks outside the log.\<close>

definition log_shape :: "uint \<Rightarrow> nat \<Rightarrow> nat \<Rightarrow> klog \<Rightarrow> bool" where
  "log_shape dv \<sigma> n l \<longleftrightarrow> log_dev l = dv \<and> unat (log_start l) = \<sigma> \<and> \<sigma> + LOGSIZE < 2 ^ 31 \<and>
     lh_n (log_lh l) = int n \<and> n < LOGSIZE \<and> length (lh_block (log_lh l)) = LOGSIZE \<and>
     distinct (take n (lh_block (log_lh l))) \<and>
     (\<forall>i < n. unat (lh_block (log_lh l) ! i) < 2 ^ 31 \<and> unat (lh_block (log_lh l) ! i) \<notin> log_region \<sigma>)"

lemma log_block_unat:
  assumes "unat a + LOGSIZE < 2 ^ 31" and "i < LOGSIZE"
  shows "unat (a + of_nat i + 1 :: uint) = unat a + i + 1"
  using assms by (simp add: unat_word_ariths unat_of_nat LOGSIZE_def MAXOPBLOCKS_def)

section \<open>What recovery makes of an image\<close>

text \<open>The contents block \<open>k\<close> has after the log found on the image has been installed.\<close>

definition rec_block :: "nat \<Rightarrow> image \<Rightarrow> nat \<Rightarrow> uchar list" where
  "rec_block \<sigma> im k =
     (case List.find (\<lambda>i. unat (hdr_block (img_block im \<sigma>) i) = k) (rev [0..<nat (hdr_n (img_block im \<sigma>))]) of
        Some i \<Rightarrow> img_block im (\<sigma> + 1 + i)
      | None \<Rightarrow> img_block im k)"

definition header_is :: "nat \<Rightarrow> image \<Rightarrow> nat \<Rightarrow> uint list \<Rightarrow> bool" where
  "header_is \<sigma> im n bl \<longleftrightarrow> hdr_n (img_block im \<sigma>) = int n \<and> (\<forall>i < n. hdr_block (img_block im \<sigma>) i = bl ! i)"

lemma rec_block_logged:
  assumes "header_is \<sigma> im n bl" and "distinct (take n bl)" and "n \<le> length bl" and "i < n"
  shows "rec_block \<sigma> im (unat (bl ! i)) = img_block im (\<sigma> + 1 + i)"
proof -
  let ?P = "\<lambda>j. unat (hdr_block (img_block im \<sigma>) j) = unat (bl ! i)"
  have uniq: "j = i" if "j < n" "?P j" for j
  proof -
    have "take n bl ! j = take n bl ! i" using that assms(1,4) by (simp add: header_is_def word_unat_eq_iff)
    then show ?thesis using nth_eq_iff_index_eq [OF assms(2), of j i] assms(3,4) that(1) by simp
  qed
  have "?P i" using assms(1,4) by (simp add: header_is_def)
  then have "List.find ?P (rev [0..<n]) \<noteq> None" using assms(4) by (auto simp: find_None_iff)
  then obtain j where j: "List.find ?P (rev [0..<n]) = Some j" by blast
  then have "j < n" "?P j" using find_SomeD [OF j] by auto
  then have "j = i" using uniq by blast
  then show ?thesis using j assms(1) by (simp add: rec_block_def header_is_def)
qed

lemma rec_block_other:
  assumes "header_is \<sigma> im n bl" and "\<And>i. i < n \<Longrightarrow> unat (bl ! i) \<noteq> k"
  shows "rec_block \<sigma> im k = img_block im k"
proof -
  have "List.find (\<lambda>j. unat (hdr_block (img_block im \<sigma>) j) = k) (rev [0..<n]) = None"
    using assms by (auto simp: find_None_iff header_is_def)
  then show ?thesis using assms(1) by (simp add: rec_block_def header_is_def)
qed

definition complete :: "nat \<Rightarrow> nat \<Rightarrow> uint list \<Rightarrow> (nat \<Rightarrow> uchar list) \<Rightarrow> image \<Rightarrow> bool" where
  "complete \<sigma> n bl C im \<longleftrightarrow> header_is \<sigma> im n bl \<and> (\<forall>i < n. img_block im (\<sigma> + 1 + i) = C (unat (bl ! i))) \<and>
     (\<forall>m. m \<notin> log_region \<sigma> \<and> (\<forall>i < n. m \<noteq> unat (bl ! i)) \<longrightarrow> img_block im m = C m)"

lemma complete_recovers:
  assumes "complete \<sigma> n bl C im" and "distinct (take n bl)" and "n \<le> length bl" and "m \<notin> log_region \<sigma>"
  shows "rec_block \<sigma> im m = C m"
proof (cases "\<exists>i < n. m = unat (bl ! i)")
  case True
  then show ?thesis using assms rec_block_logged [of \<sigma> im n bl] by (auto simp: complete_def)
next
  case False
  then show ?thesis using assms rec_block_other [of \<sigma> im n bl m] by (auto simp: complete_def)
qed

lemma empty_header:
  assumes "hdr_n (img_block im \<sigma>) = 0"
  shows "rec_block \<sigma> im m = img_block im m"
  using assms by (simp add: rec_block_def)

definition header_ok :: "nat \<Rightarrow> image \<Rightarrow> bool" where
  "header_ok \<sigma> im \<longleftrightarrow> (\<exists>n bl. header_is \<sigma> im n bl \<and> length bl = n \<and> n < LOGSIZE \<and> distinct bl \<and>
     (\<forall>x \<in> set bl. unat x < 2 ^ 31 \<and> unat x \<notin> log_region \<sigma>))"

text \<open>An image from which recovery restores the contents \<open>V\<close>.\<close>

definition recovers_to :: "nat \<Rightarrow> (nat \<Rightarrow> uchar list) \<Rightarrow> image \<Rightarrow> bool" where
  "recovers_to \<sigma> V im \<longleftrightarrow> header_ok \<sigma> im \<and> (\<forall>m. m \<notin> log_region \<sigma> \<longrightarrow> rec_block \<sigma> im m = V m)"

lemma empty_recovers:
  assumes "hdr_n (img_block im \<sigma>) = 0" and "\<And>m. m \<notin> log_region \<sigma> \<Longrightarrow> img_block im m = V m"
  shows "recovers_to \<sigma> V im"
proof -
  have "header_is \<sigma> im 0 []" using assms(1) by (simp add: header_is_def)
  then have "header_ok \<sigma> im" unfolding header_ok_def by (intro exI [of _ 0] exI [of _ "[]"]) (simp add: LOGSIZE_def MAXOPBLOCKS_def)
  then show ?thesis using assms by (simp add: recovers_to_def empty_header)
qed

lemma log_shapeD:
  assumes "log_shape dv \<sigma> n l"
  shows "n < LOGSIZE" and "unat (log_start l) = \<sigma>" and "\<sigma> + LOGSIZE < 2 ^ 31" and "log_dev l = dv"
    and "length (lh_block (log_lh l)) = LOGSIZE" and "lh_n (log_lh l) = int n" and "distinct (take n (lh_block (log_lh l)))"
    and "i < n \<Longrightarrow> unat (lh_block (log_lh l) ! i) < 2 ^ 31" and "i < n \<Longrightarrow> unat (lh_block (log_lh l) ! i) \<notin> log_region \<sigma>"
    and "unat (log_start l) \<in> log_region \<sigma>" and "n \<le> length (lh_block (log_lh l))"
    and "i < LOGSIZE \<Longrightarrow> unat (log_start l + of_nat i + 1) = \<sigma> + 1 + i"
    and "i + 1 < LOGSIZE \<Longrightarrow> \<sigma> + 1 + i \<in> log_region \<sigma>"
  using assms log_block_unat [of "log_start l" i] by (simp_all add: log_shape_def log_region_def)

lemma shape_header_ok:
  assumes "log_shape dv \<sigma> n l" and "header_is \<sigma> im n (lh_block (log_lh l))"
  shows "header_ok \<sigma> im"
proof -
  note sh = log_shapeD [OF assms(1)]
  let ?bl = "take n (lh_block (log_lh l))"
  have "header_is \<sigma> im n ?bl" using assms(2) by (simp add: header_is_def)
  moreover have "unat x < 2 ^ 31 \<and> unat x \<notin> log_region \<sigma>" if "x \<in> set ?bl" for x
    using that sh(8,9) by (auto simp: in_set_conv_nth)
  ultimately show ?thesis unfolding header_ok_def using sh(1,7,11) by (intro exI [of _ n] exI [of _ ?bl]) simp
qed

lemma logged_blocks:
  assumes "log_shape dv \<sigma> n l"
  defines "L \<equiv> set (take n (lh_block (log_lh l)))"
  shows "i < n \<Longrightarrow> lh_block (log_lh l) ! i \<in> L" and "a \<in> L \<Longrightarrow> \<exists>i < n. a = lh_block (log_lh l) ! i"
    and "a \<in> L \<Longrightarrow> unat a \<notin> log_region \<sigma>"
    and "D \<subseteq> unat ` L \<Longrightarrow> unat a \<in> log_region \<sigma> \<Longrightarrow> a \<notin> L \<and> unat a \<notin> D"
    and "pins v \<subseteq> L \<Longrightarrow> card (pins v) < NBUF"
proof -
  note sh = log_shapeD [OF assms(1)]
  show "i < n \<Longrightarrow> lh_block (log_lh l) ! i \<in> L"
    unfolding L_def using sh(1,5) by (auto simp: in_set_conv_nth intro!: exI [of _ i])
  show out: "a \<in> L \<Longrightarrow> \<exists>i < n. a = lh_block (log_lh l) ! i" for a
    by (auto simp: in_set_conv_nth L_def)
  show r: "a \<in> L \<Longrightarrow> unat a \<notin> log_region \<sigma>" for a using out sh(9) by blast
  show "D \<subseteq> unat ` L \<Longrightarrow> unat a \<in> log_region \<sigma> \<Longrightarrow> a \<notin> L \<and> unat a \<notin> D"
    using r by (metis imageE subset_eq)
  show "card (pins v) < NBUF" if "pins v \<subseteq> L"
    using card_mono [OF _ that] card_length [of "take n (lh_block (log_lh l))"] sh(1)
    by (simp add: L_def LOGSIZE_def MAXOPBLOCKS_def NBUF_def)
qed

lemma lh_fields [simp]: "h\<lparr>lh_n := a, lh_block := b\<rparr> = \<lparr>lh_n = a, lh_block = b\<rparr>" for h :: logheader
  by (cases h) simp

locale block_cache =
  fixes inv :: "(nat \<Rightarrow> uchar list) \<Rightarrow> nat set \<Rightarrow> nat set \<Rightarrow> (uint \<Rightarrow> uint) \<Rightarrow> 'z lgst_scheme \<Rightarrow> bool"
    and dv :: uint
  assumes bread_law: "inv C D H w s \<Longrightarrow> unat x < 2 ^ 31 \<Longrightarrow>
      \<forall>b \<in> H. b_blockno (bufs s b) \<noteq> x \<and> w (b_blockno (bufs s b)) \<noteq> - 1 \<Longrightarrow>
      w x \<noteq> 0 \<or> card (pins w) + card H < NBUF \<Longrightarrow> w x \<noteq> - 1 \<Longrightarrow>
      \<exists>b t. bread dv x s = Ok b t \<and> inv C D (insert b H) w t \<and> lg t = lg s \<and> img t = img s \<and>
        hist {img s} s t \<and> b \<notin> H \<and> b_blockno (bufs t b) = x \<and> (\<forall>c. c \<noteq> b \<longrightarrow> bufs t c = bufs s c)"
    and bwrite_law: "inv C D H w s \<Longrightarrow> b \<in> H \<Longrightarrow> n = unat (b_blockno (bufs s b)) \<Longrightarrow>
      \<exists>t. bwrite b s = Ok () t \<and> inv C (D - {n}) H w t \<and> lg t = lg s \<and>
        img t = img_put (img s) n (C n) \<and> hist {img t} s t \<and> (\<forall>c. b_blockno (bufs t c) = b_blockno (bufs s c))"
    and change_law: "inv C D H w s \<Longrightarrow> b \<in> H \<Longrightarrow> n = unat (b_blockno (bufs s b)) \<Longrightarrow>
      w (b_blockno (bufs s b)) \<noteq> - 1 \<Longrightarrow> length d = BSIZE \<Longrightarrow>
      inv (C(n := d)) (insert n D) H w (s\<lparr>bufs := (bufs s)(b := (bufs s b)\<lparr>b_data := d\<rparr>)\<rparr>)"
    and bpin_law: "inv C D H w s \<Longrightarrow> b \<in> H \<Longrightarrow> x = b_blockno (bufs s b) \<Longrightarrow> w x \<noteq> - 2 \<Longrightarrow>
      \<exists>t. bpin b s = Ok () t \<and> inv C D H (w(x := w x + 1)) t \<and> lg t = lg s \<and> img t = img s \<and> whist t = whist s \<and>
        (\<forall>c. b_blockno (bufs t c) = b_blockno (bufs s c))"
    and bunpin_law: "inv C D H w s \<Longrightarrow> b \<in> H \<Longrightarrow> x = b_blockno (bufs s b) \<Longrightarrow> w x \<noteq> 0 \<or> unat x \<notin> D \<Longrightarrow>
      \<exists>t. bunpin b s = Ok () t \<and> inv C D H (w(x := w x - 1)) t \<and> lg t = lg s \<and> img t = img s \<and> whist t = whist s \<and>
        (\<forall>c. b_blockno (bufs t c) = b_blockno (bufs s c))"
    and brelse_law: "inv C D H w s \<Longrightarrow> b \<in> H \<Longrightarrow>
      w (b_blockno (bufs s b)) \<noteq> 0 \<or> unat (b_blockno (bufs s b)) \<notin> D \<Longrightarrow>
      \<exists>t. brelse b s = Ok () t \<and> inv C D (H - {b}) w t \<and> lg t = lg s \<and> img t = img s \<and> whist t = whist s \<and>
        (\<forall>c. b_blockno (bufs t c) = b_blockno (bufs s c))"
    and data_law: "inv C D H w s \<Longrightarrow> b \<in> H \<Longrightarrow> b_data (bufs s b) = C (unat (b_blockno (bufs s b)))"
    and size_law: "inv C D H w s \<Longrightarrow> length (C n) = BSIZE"
    and clean_law: "inv C D H w s \<Longrightarrow> n \<notin> D \<Longrightarrow> img_block (img s) n = C n"
    and log_law: "inv C D H w s \<Longrightarrow> inv C D H w (s\<lparr>lg := l\<rparr>)"
begin

lemma write_log_one_spec:
  assumes "inv C D {} w s" and "log_dev (lg s) = dv"
    and l: "l = log_start (lg s) + of_nat i + 1" "unat l < 2 ^ 31" "w l = 0" "unat l \<notin> D"
    and x: "x = lh_block (log_lh (lg s)) ! i" "unat x < 2 ^ 31" "w x \<noteq> 0" "w x \<noteq> - 1" and "x \<noteq> l"
    and room: "card (pins w) < NBUF"
  shows "\<exists>t. write_log_one i s = Ok () t \<and> inv (C(unat l := C (unat x))) D {} w t \<and> lg t = lg s \<and>
    img t = img_put (img s) (unat l) (C (unat x)) \<and> hist {img s, img t} s t"
proof -
  obtain b1 t1 where 1: "bread dv l s = Ok b1 t1" "inv C D {b1} w t1" "lg t1 = lg s" "img t1 = img s" "hist {img s} s t1"
    "b_blockno (bufs t1 b1) = l"
    using bread_law [OF assms(1), of l] l room by auto
  obtain b2 t2 where 2: "bread dv x t1 = Ok b2 t2" "inv C D {b2, b1} w t2" "lg t2 = lg s" "img t2 = img s" "hist {img s} t1 t2"
    "b2 \<noteq> b1" "b_blockno (bufs t2 b2) = x" "b_blockno (bufs t2 b1) = l"
    using bread_law [OF 1(2), of x] x l(3) \<open>x \<noteq> l\<close> 1 by auto
  have d2: "b_data (bufs t2 b2) = C (unat x)" using data_law [OF 2(2), of b2] 2(7) by simp
  let ?t3 = "t2\<lparr>bufs := (bufs t2)(b1 := (bufs t2 b1)\<lparr>b_data := C (unat x)\<rparr>)\<rparr>"
  let ?C = "C(unat l := C (unat x))"
  have 3: "inv ?C (insert (unat l) D) {b2, b1} w ?t3"
    using change_law [OF 2(2), of b1] 2(8) l(3) size_law [OF 2(2)] by simp
  have eq: "insert (unat l) D - {unat l} = D" using l(4) by auto
  have "unat l = unat (b_blockno (bufs ?t3 b1))" using 2(8) by simp
  from bwrite_law [OF 3 _ this] eq obtain t4 where 4: "bwrite b1 ?t3 = Ok () t4" "inv ?C D {b2, b1} w t4" "lg t4 = lg s"
    "img t4 = img_put (img s) (unat l) (C (unat x))" "hist {img t4} ?t3 t4" "\<forall>c. b_blockno (bufs t4 c) = b_blockno (bufs ?t3 c)"
    using 2(3,4) by auto
  have "w (b_blockno (bufs t4 b2)) \<noteq> 0" using 4(6) 2(6,7) x(3) by simp
  then obtain t5 where 5: "brelse b2 t4 = Ok () t5" "inv ?C D ({b2, b1} - {b2}) w t5" "lg t5 = lg s" "img t5 = img t4"
    "whist t5 = whist t4" "\<forall>c. b_blockno (bufs t5 c) = b_blockno (bufs t4 c)"
    using brelse_law [OF 4(2), of b2] 4(3) by auto
  have H5: "{b2, b1} - {b2} = {b1}" using 2(6) by auto
  have "unat (b_blockno (bufs t5 b1)) \<notin> D" using 5(6) 4(6) 2(8) l(4) by simp
  then obtain t6 where 6: "brelse b1 t5 = Ok () t6" "inv ?C D ({b1} - {b1}) w t6" "lg t6 = lg s" "img t6 = img t4"
    "whist t6 = whist t4"
    using brelse_law [OF 5(2) [unfolded H5], of b1] 5(3-5) by auto
  have "hist {img s, img t6} s t6"
    using hist_trans [OF hist_trans [OF hist_mono [OF 1(5)] hist_mono [OF 2(5)]]] 4(5) 6(4,5) unfolding hist_def by fastforce
  moreover have "write_log_one i s = Ok () t6"
    using 1 2 d2 4(1) 5(1) 6(1) assms(2) l(1) x(1) by (simp add: write_log_one_def kop_simps)
  ultimately show ?thesis using 6 4(4) by auto
qed

lemma install_trans_one_spec:
  assumes "inv C D {} w s" and "log_dev (lg s) = dv"
    and l: "l = log_start (lg s) + of_nat i + 1" "unat l < 2 ^ 31" "w l = 0" "unat l \<notin> D"
    and x: "x = lh_block (log_lh (lg s)) ! i" "unat x < 2 ^ 31" "w x \<noteq> - 1" and "x \<noteq> l"
    and room: "card (pins w) < NBUF" "w x \<noteq> 0 \<or> card (pins w) + 1 < NBUF"
  shows "\<exists>t. install_trans_one i s = Ok () t \<and> inv (C(unat x := C (unat l))) (D - {unat x}) {} (w(x := w x - 1)) t \<and>
    lg t = lg s \<and> img t = img_put (img s) (unat x) (C (unat l)) \<and> hist {img s, img t} s t"
proof -
  obtain b1 t1 where 1: "bread dv l s = Ok b1 t1" "inv C D {b1} w t1" "lg t1 = lg s" "img t1 = img s" "hist {img s} s t1"
    "b_blockno (bufs t1 b1) = l"
    using bread_law [OF assms(1), of l] l room by auto
  obtain b2 t2 where 2: "bread dv x t1 = Ok b2 t2" "inv C D {b2, b1} w t2" "lg t2 = lg s" "img t2 = img s" "hist {img s} t1 t2"
    "b2 \<noteq> b1" "b_blockno (bufs t2 b2) = x" "b_blockno (bufs t2 b1) = l"
    using bread_law [OF 1(2), of x] x l(3) \<open>x \<noteq> l\<close> 1 room(2) by auto
  have d1: "b_data (bufs t2 b1) = C (unat l)" using data_law [OF 2(2), of b1] 2(8) by simp
  let ?t3 = "t2\<lparr>bufs := (bufs t2)(b2 := (bufs t2 b2)\<lparr>b_data := C (unat l)\<rparr>)\<rparr>"
  let ?C = "C(unat x := C (unat l))" and ?w = "w(x := w x - 1)"
  have 3: "inv ?C (insert (unat x) D) {b2, b1} w ?t3"
    using change_law [OF 2(2), of b2] 2(7) x(3) size_law [OF 2(2)] by simp
  have "unat x = unat (b_blockno (bufs ?t3 b2))" using 2(7) by simp
  moreover have "insert (unat x) D - {unat x} = D - {unat x}" by auto
  ultimately obtain t4 where 4: "bwrite b2 ?t3 = Ok () t4" "inv ?C (D - {unat x}) {b2, b1} w t4" "lg t4 = lg s"
    "img t4 = img_put (img s) (unat x) (C (unat l))" "hist {img t4} ?t3 t4" "\<forall>c. b_blockno (bufs t4 c) = b_blockno (bufs ?t3 c)"
    using bwrite_law [OF 3, of b2 "unat x"] 2(3,4) by auto
  have bl: "b_blockno (bufs t4 b2) = x" "b_blockno (bufs t4 b1) = l" using 4(6) 2(6-8) by simp_all
  then obtain t5 where 5: "bunpin b2 t4 = Ok () t5" "inv ?C (D - {unat x}) {b2, b1} ?w t5" "lg t5 = lg s" "img t5 = img t4"
    "whist t5 = whist t4" "\<forall>c. b_blockno (bufs t5 c) = b_blockno (bufs t4 c)"
    using bunpin_law [OF 4(2), of b2 x] 4(3) by auto
  obtain t6 where 6: "brelse b1 t5 = Ok () t6" "inv ?C (D - {unat x}) ({b2, b1} - {b1}) ?w t6" "lg t6 = lg s" "img t6 = img t4"
    "whist t6 = whist t4" "\<forall>c. b_blockno (bufs t6 c) = b_blockno (bufs t4 c)"
    using brelse_law [OF 5(2), of b1] 5(3-6) bl l(4) by auto
  have H6: "{b2, b1} - {b1} = {b2}" using 2(6) by auto
  obtain t7 where 7: "brelse b2 t6 = Ok () t7" "inv ?C (D - {unat x}) ({b2} - {b2}) ?w t7" "lg t7 = lg s" "img t7 = img t4"
    "whist t7 = whist t4"
    using brelse_law [OF 6(2) [unfolded H6], of b2] 6(3-6) bl by auto
  have "hist {img s, img t7} s t7"
    using hist_trans [OF hist_trans [OF hist_mono [OF 1(5)] hist_mono [OF 2(5)]]] 4(5) 7(4,5) unfolding hist_def by fastforce
  moreover have "install_trans_one i s = Ok () t7"
    using 1 2 d1 4(1) 5(1) 6(1) 7(1) assms(2) l(1) x(1) by (simp add: install_trans_one_def kop_simps)
  ultimately show ?thesis using 7 4(4) by auto
qed

lemma upd_data_loop:
  "for_each xs (\<lambda>i. bnd (get_log (\<lambda>l. g l i)) (\<lambda>v. upd_buf b (\<lambda>x. x\<lparr>b_data := f (b_data x) i v\<rparr>))) s =
    Ok () (s\<lparr>bufs := (bufs s)(b := (bufs s b)\<lparr>b_data := fold (\<lambda>i d. f d i (g (lg s) i)) xs (b_data (bufs s b))\<rparr>)\<rparr>)"
  for s :: "'z lgst_scheme"
  by (induction xs arbitrary: s) (simp_all add: kop_simps)

lemma write_head_spec:
  assumes "inv C D {} w s" and "log_dev (lg s) = dv" and n: "lh_n (log_lh (lg s)) = int n" "n \<le> LOGSIZE"
    and l: "l = log_start (lg s)" "unat l < 2 ^ 31" "w l = 0" "unat l \<notin> D" and room: "card (pins w) < NBUF"
  defines "d \<equiv> hdr_put (C (unat l)) n (lh_block (log_lh (lg s)))"
  shows "\<exists>t. write_head s = Ok () t \<and> inv (C(unat l := d)) D {} w t \<and> lg t = lg s \<and>
    img t = img_put (img s) (unat l) d \<and> hist {img s, img t} s t"
proof -
  obtain b t1 where 1: "bread dv l s = Ok b t1" "inv C D {b} w t1" "lg t1 = lg s" "img t1 = img s" "hist {img s} s t1"
    "b_blockno (bufs t1 b) = l"
    using bread_law [OF assms(1), of l] l room by auto
  have dat: "b_data (bufs t1 b) = C (unat l)" using data_law [OF 1(2), of b] 1(6) by simp
  let ?t2 = "t1\<lparr>bufs := (bufs t1)(b := (bufs t1 b)\<lparr>b_data := d\<rparr>)\<rparr>"
  have len: "length d = BSIZE" unfolding d_def using hdr_put_props(1) [OF size_law [OF 1(2)] n(2)] .
  have 2: "inv (C(unat l := d)) (insert (unat l) D) {b} w ?t2"
    using change_law [OF 1(2), of b "unat l" d] 1(6) l(3) len by simp
  have "insert (unat l) D - {unat l} = D" using l(4) by auto
  then obtain t3 where 3: "bwrite b ?t2 = Ok () t3" "inv (C(unat l := d)) D {b} w t3" "lg t3 = lg s"
    "img t3 = img_put (img s) (unat l) d" "hist {img t3} ?t2 t3" "\<forall>c. b_blockno (bufs t3 c) = b_blockno (bufs ?t2 c)"
    using bwrite_law [OF 2, of b "unat l"] 1(3,4,6) by auto
  obtain t4 where 4: "brelse b t3 = Ok () t4" "inv (C(unat l := d)) D ({b} - {b}) w t4" "lg t4 = lg s" "img t4 = img t3"
    "whist t4 = whist t3"
    using brelse_law [OF 3(2), of b] 3(3,6) 1(6) l(4) by auto
  have "fold (\<lambda>i d. put32 d (4 + 4 * i) (lh_block (log_lh (lg s)) ! i)) [0..<n] (put32 (C (unat l)) 0 (of_nat n)) = d"
    by (simp add: d_def hdr_put_def)
  then have "write_head s = Ok () t4"
    using 1 dat 3(1) 4(1) assms(2) l(1) n(1)
    by (simp add: write_head_def kop_simps upd_data_loop [where f = "\<lambda>d i v. put32 d (4 + 4 * i) v"])
  moreover have "hist {img s, img t4} s t4"
    using hist_mono [OF 1(5)] 3(5) 4(4,5) unfolding hist_def by fastforce
  ultimately show ?thesis using 3(4) 4 by auto
qed

lemma write_log_loop:
  assumes "inv C D {} w s" and sh: "log_shape dv \<sigma> n (lg s)" and "k \<le> n"
    and x: "\<And>i. i < n \<Longrightarrow> w (lh_block (log_lh (lg s)) ! i) \<noteq> 0 \<and> w (lh_block (log_lh (lg s)) ! i) \<noteq> - 1"
    and R: "\<And>a. unat a \<in> log_region \<sigma> \<Longrightarrow> w a = 0 \<and> unat a \<notin> D" and room: "card (pins w) < NBUF"
  defines "S \<equiv> {im. \<forall>m. m \<notin> log_region \<sigma> - {\<sigma>} \<longrightarrow> img_block im m = img_block (img s) m}"
  defines "G \<equiv> \<lambda>k m. if \<sigma> + 1 \<le> m \<and> m < \<sigma> + 1 + k then C (unat (lh_block (log_lh (lg s)) ! (m - \<sigma> - 1))) else C m"
  shows "\<exists>t. for_each [0..<k] write_log_one s = Ok () t \<and> inv (G k) D {} w t \<and> lg t = lg s \<and> img t \<in> S \<and> hist S s t"
  using assms(3)
proof (induction k)
  case 0
  have "G 0 = C" by (rule ext) (auto simp: G_def)
  then show ?case using assms(1) by (simp add: S_def)
next
  case (Suc k)
  then obtain t where t: "for_each [0..<k] write_log_one s = Ok () t" "inv (G k) D {} w t" "lg t = lg s" "img t \<in> S" "hist S s t"
    by auto
  let ?l = "log_start (lg s) + of_nat k + 1" and ?x = "lh_block (log_lh (lg s)) ! k"
  have k: "k < n" "n < LOGSIZE" "unat (log_start (lg s)) = \<sigma>" "\<sigma> + LOGSIZE < 2 ^ 31" "log_dev (lg s) = dv"
    using Suc.prems sh by (simp_all add: log_shape_def)
  have l: "unat ?l = \<sigma> + k + 1" using log_block_unat [of "log_start (lg s)" k] k by simp
  then have lr: "unat ?l \<in> log_region \<sigma>" using k by (simp add: log_region_def)
  have xr: "unat ?x < 2 ^ 31" "unat ?x \<notin> log_region \<sigma>" using sh k(1) by (simp_all add: log_shape_def)
  have xl: "?x \<noteq> ?l" using lr xr(2) by auto
  have "unat ?l < 2 ^ 31" using l k by simp
  then obtain u where u: "write_log_one k t = Ok () u" "inv ((G k)(unat ?l := G k (unat ?x))) D {} w u" "lg u = lg s"
      "img u = img_put (img t) (unat ?l) (G k (unat ?x))" "hist {img t, img u} t u"
    using write_log_one_spec [OF t(2), of ?l k ?x] t(3) k(5) R [OF lr] x [OF k(1)] xr(1) xl room by auto
  have "G k (unat ?x) = C (unat ?x)" using xr(2) k by (auto simp: G_def log_region_def)
  then have G: "(G k)(unat ?l := G k (unat ?x)) = G (Suc k)" unfolding l by (rule_tac ext) (auto simp: G_def)
  have "img u \<in> S" using t(4) lr l unfolding u(4) S_def by (auto simp: log_region_def img_block_put_other)
  then have "hist S s u" using hist_trans [OF t(5) hist_mono [OF u(5)]] t(4) by simp
  moreover have "for_each [0..<Suc k] write_log_one s = Ok () u"
    using t(1) u(1) by (simp add: for_each_append kop_simps)
  ultimately show ?case using u(2,3) G \<open>img u \<in> S\<close> by auto
qed

lemma install_loop:
  assumes "inv C D {} w s" and sh: "log_shape dv \<sigma> n (lg s)" and "k \<le> n"
    and R: "\<And>a. unat a \<in> log_region \<sigma> \<Longrightarrow> w a = 0 \<and> unat a \<notin> D"
  defines "bl \<equiv> lh_block (log_lh (lg s))"
  defines "W \<equiv> \<lambda>k a. if a \<in> set (take k bl) then w a - 1 else w a"
  assumes x: "\<And>i. i < n \<Longrightarrow> w (bl ! i) \<noteq> - 1"
    and room: "\<And>i. i < n \<Longrightarrow> card (pins (W i)) < NBUF \<and> (w (bl ! i) \<noteq> 0 \<or> card (pins (W i)) + 1 < NBUF)"
  defines "S \<equiv> {im. (\<forall>m \<in> log_region \<sigma>. img_block im m = img_block (img s) m) \<and>
      (\<forall>m. m \<notin> log_region \<sigma> \<longrightarrow> img_block im m = img_block (img s) m \<or>
         (\<exists>i < n. m = unat (bl ! i) \<and> img_block im m = C (\<sigma> + 1 + i)))}"
  defines "G \<equiv> \<lambda>k m. case List.find (\<lambda>i. unat (bl ! i) = m) [0..<k] of Some i \<Rightarrow> C (\<sigma> + 1 + i) | None \<Rightarrow> C m"
  shows "\<exists>t. for_each [0..<k] install_trans_one s = Ok () t \<and> inv (G k) (D - unat ` set (take k bl)) {} (W k) t \<and>
    lg t = lg s \<and> img t \<in> S \<and> hist S s t"
  using assms(3)
proof (induction k)
  case 0
  have "G 0 = C" "W 0 = w" by (rule ext; simp add: G_def W_def)+
  then show ?case using assms(1) by (simp add: S_def)
next
  case (Suc k)
  then obtain t where t: "for_each [0..<k] install_trans_one s = Ok () t" "inv (G k) (D - unat ` set (take k bl)) {} (W k) t"
    "lg t = lg s" "img t \<in> S" "hist S s t" by auto
  let ?l = "log_start (lg s) + of_nat k + 1" and ?x = "bl ! k" and ?D = "D - unat ` set (take k bl)"
  have k: "k < n" "n < LOGSIZE" "unat (log_start (lg s)) = \<sigma>" "\<sigma> + LOGSIZE < 2 ^ 31" "log_dev (lg s) = dv" "length bl = LOGSIZE"
    and br: "\<And>i. i < n \<Longrightarrow> unat (bl ! i) < 2 ^ 31 \<and> unat (bl ! i) \<notin> log_region \<sigma>" and dis: "distinct (take n bl)"
    using Suc.prems sh by (simp_all add: log_shape_def bl_def)
  have l: "unat ?l = \<sigma> + k + 1" using log_block_unat [of "log_start (lg s)" k] k by simp
  then have lr: "unat ?l \<in> log_region \<sigma>" using k by (simp add: log_region_def)
  have xl: "?x \<noteq> ?l" using lr br [OF k(1)] by auto
  have tk: "\<exists>i < k. a = bl ! i" if "a \<in> set (take k bl)" for a using that by (auto simp: in_set_conv_nth)
  have nl: "?l \<notin> set (take k bl)" using tk [of ?l] br lr k(1) by (metis less_trans)
  have neq: "bl ! i \<noteq> ?x" if "i < k" for i
    using that dis k(1,2,6) nth_eq_iff_index_eq [OF dis, of i k] by simp
  then have nx: "?x \<notin> set (take k bl)" using tk by metis
  have w: "W k ?l = 0" "unat ?l \<notin> ?D" "W k ?x = w ?x" using R [OF lr] nl nx by (simp_all add: W_def)
  have "unat ?l < 2 ^ 31" using l k by simp
  then obtain u where u: "install_trans_one k t = Ok () u"
      "inv ((G k)(unat ?x := G k (unat ?l))) (?D - {unat ?x}) {} ((W k)(?x := W k ?x - 1)) u" "lg u = lg s"
      "img u = img_put (img t) (unat ?x) (G k (unat ?l))" "hist {img t, img u} t u"
    using install_trans_one_spec [OF t(2), of ?l k ?x] t(3) k(5) w x [OF k(1)] br [OF k(1)] xl room [OF k(1)] by (auto simp: bl_def)
  have "unat (bl ! i) \<noteq> unat ?l" if "i < k" for i
  proof -
    have "unat (bl ! i) \<notin> log_region \<sigma>" using br [of i] that k(1) by simp
    then show ?thesis using lr by metis
  qed
  then have "List.find (\<lambda>i. unat (bl ! i) = unat ?l) [0..<k] = None" by (auto simp: find_None_iff)
  then have gl: "G k (unat ?l) = C (\<sigma> + 1 + k)" by (simp add: G_def l)
  have sn: "set (take (Suc k) bl) = insert ?x (set (take k bl))" using k by (simp add: take_Suc_conv_app_nth)
  have fx: "List.find (\<lambda>i. unat (bl ! i) = unat ?x) [0..<k] = None" using neq by (auto simp: find_None_iff word_unat_eq_iff)
  have find_app: "List.find P (xs @ ys) = (case List.find P xs of None \<Rightarrow> List.find P ys | Some a \<Rightarrow> Some a)" for P and xs ys :: "nat list"
    by (induction xs) simp_all
  have G: "(G k)(unat ?x := G k (unat ?l)) = G (Suc k)"
  proof (rule ext)
    fix m
    show "((G k)(unat ?x := G k (unat ?l))) m = G (Suc k) m"
      unfolding gl using fx by (cases "m = unat ?x"; cases "List.find (\<lambda>i. unat (bl ! i) = m) [0..<k]") (auto simp: G_def find_app)
  qed
  have D: "?D - {unat ?x} = D - unat ` set (take (Suc k) bl)" unfolding sn by auto
  have W: "(W k)(?x := W k ?x - 1) = W (Suc k)" using nx by (rule_tac ext) (simp add: W_def sn)
  have "img u \<in> S"
  proof -
    have "img_block (img u) m = img_block (img t) m" if "m \<noteq> unat ?x" for m using that u(4) by simp
    moreover have "img_block (img u) (unat ?x) = C (\<sigma> + 1 + k)" using u(4) gl size_law [OF assms(1)] by simp
    ultimately show ?thesis using t(4) br [OF k(1)] k(1) unfolding S_def by (smt (verit) mem_Collect_eq)
  qed
  then have "hist S s u" using hist_trans [OF t(5) hist_mono [OF u(5)]] t(4) by simp
  moreover have "for_each [0..<Suc k] install_trans_one s = Ok () u"
    using t(1) u(1) by (simp add: for_each_append kop_simps)
  ultimately show ?case using u(2,3) G D W \<open>img u \<in> S\<close> by auto
qed

text \<open>Up to the commit point: the log blocks, then the header.\<close>

lemma commit_point:
  assumes ok: "inv C D {} w s" and shape: "log_shape dv \<sigma> n (lg s)"
  defines "bl \<equiv> lh_block (log_lh (lg s))"
  assumes D: "D \<subseteq> unat ` set (take n bl)" and w: "w = (\<lambda>a. if a \<in> set (take n bl) then 1 else 0)"
    and hdr0: "hdr_n (img_block (img s) \<sigma>) = 0"
  defines "S \<equiv> {im. recovers_to \<sigma> (img_block (img s)) im \<or> complete \<sigma> n bl C im}"
  shows "\<exists>t C'. thn write_log write_head s = Ok () t \<and> inv C' D {} w t \<and> lg t = lg s \<and> complete \<sigma> n bl C (img t) \<and>
    (\<forall>m. m \<notin> log_region \<sigma> \<longrightarrow> C' m = C m) \<and> (\<forall>i < n. C' (\<sigma> + 1 + i) = C (unat (bl ! i))) \<and> hist S s t"
proof -
  note sh = log_shapeD [OF shape, folded bl_def] and lb = logged_blocks [OF shape, folded bl_def]
  have R: "w a = 0 \<and> unat a \<notin> D" if "unat a \<in> log_region \<sigma>" for a using lb(4) [OF D that] w by simp
  have wp: "card (pins w) < NBUF" using w by (intro lb(5)) (auto simp: pins_def)
  have wx: "w (bl ! i) \<noteq> 0 \<and> w (bl ! i) \<noteq> - 1" if "i < n" for i using lb(1) [OF that] w by simp
  let ?S1 = "{im. \<forall>m. m \<notin> log_region \<sigma> - {\<sigma>} \<longrightarrow> img_block im m = img_block (img s) m}"
  let ?G = "\<lambda>m. if \<sigma> + 1 \<le> m \<and> m < \<sigma> + 1 + n then C (unat (bl ! (m - \<sigma> - 1))) else C m"
  obtain t1 where 1: "for_each [0..<n] write_log_one s = Ok () t1" "inv ?G D {} w t1" "lg t1 = lg s" "img t1 \<in> ?S1" "hist ?S1 s t1"
    using write_log_loop [OF ok shape order_refl _ R wp] wx unfolding bl_def by auto
  have old: "?S1 \<subseteq> S" using hdr0 by (auto simp: S_def log_region_def intro!: empty_recovers)
  let ?l = "log_start (lg s)" and ?d = "hdr_put (?G \<sigma>) n bl"
  let ?C = "?G(\<sigma> := ?d)"
  have l1: "log_dev (lg t1) = dv" "lh_n (log_lh (lg t1)) = int n" "?l = log_start (lg t1)" "unat ?l < 2 ^ 31"
    using 1(3) sh by simp_all
  obtain t2 where 2: "write_head t1 = Ok () t2" "inv ?C D {} w t2" "lg t2 = lg s"
      "img t2 = img_put (img t1) \<sigma> ?d" "hist {img t1, img t2} t1 t2"
    using write_head_spec [OF 1(2) l1(1,2) less_imp_le [OF sh(1)] l1(3,4)] R [OF sh(10)] wp 1(3) sh(2) unfolding bl_def by auto
  have dl: "length (?G \<sigma>) = BSIZE" using size_law [OF 1(2)] by blast
  note hp = hdr_put_props [OF dl less_imp_le [OF sh(1)], where bl = bl]
  have logged: "?C (\<sigma> + 1 + i) = C (unat (bl ! i))" "img_block (img t2) (\<sigma> + 1 + i) = C (unat (bl ! i))" if "i < n" for i
  proof -
    show c: "?C (\<sigma> + 1 + i) = C (unat (bl ! i))" using that by simp
    have "\<sigma> + 1 + i \<notin> D" using R [of "?l + of_nat i + 1"] sh(12,13) [of i] that sh(1) by simp
    then show "img_block (img t2) (\<sigma> + 1 + i) = C (unat (bl ! i))" using clean_law [OF 2(2)] c by simp
  qed
  have home: "?C m = C m" if "m \<notin> log_region \<sigma>" for m using that sh(1) by (auto simp: log_region_def)
  have rest: "img_block (img t2) m = C m" if "m \<notin> log_region \<sigma>" "\<forall>i < n. m \<noteq> unat (bl ! i)" for m
  proof -
    have "m \<notin> D" using D lb(2) that(2) by blast
    then show ?thesis using clean_law [OF 2(2)] home [OF that(1)] by simp
  qed
  have c2: "complete \<sigma> n bl C (img t2)" using 2(4) hp logged(2) rest by (simp add: complete_def header_is_def)
  then have "hist S s t2"
    using hist_trans [OF hist_mono [OF 1(5) old] hist_mono [OF 2(5)]] 1(4) old by (auto simp: S_def)
  moreover have "thn write_log write_head s = Ok () t2" using 1(1) 2(1) sh(6) by (simp add: write_log_def kop_simps)
  ultimately show ?thesis using 2(2,3) c2 home logged(1) by (intro exI [of _ t2] exI [of _ ?C]) simp
qed

text \<open>From a complete log to an empty one: used by \<^verbatim>\<open>commit\<close> and by recovery.\<close>

lemma install_and_clear:
  assumes ok: "inv C D {} w s" and shape: "log_shape dv \<sigma> n (lg s)"
    and R': "\<forall>a. unat a \<in> log_region \<sigma> \<longrightarrow> w a = 0 \<and> unat a \<notin> D"
  defines "bl \<equiv> lh_block (log_lh (lg s))"
  defines "W \<equiv> \<lambda>k a. if a \<in> set (take k bl) then w a - 1 else w a"
  assumes x: "\<forall>i < n. w (bl ! i) \<noteq> - 1"
    and room: "\<forall>i < n. card (pins (W i)) < NBUF \<and> (w (bl ! i) \<noteq> 0 \<or> card (pins (W i)) + 1 < NBUF)" "card (pins (W n)) < NBUF"
    and D: "D \<subseteq> unat ` set (take n bl)" and hdr: "header_is \<sigma> (img s) n bl"
  defines "S \<equiv> {im. recovers_to \<sigma> (rec_block \<sigma> (img s)) im}"
  shows "\<exists>t C'. thn install_trans (thn (set_lh_n 0) write_head) s = Ok () t \<and> inv C' {} {} (W n) t \<and>
    lg t = (lg s)\<lparr>log_lh := (log_lh (lg s))\<lparr>lh_n := 0\<rparr>\<rparr> \<and> hdr_n (img_block (img t) \<sigma>) = 0 \<and>
    (\<forall>m. m \<notin> log_region \<sigma> \<longrightarrow> C' m = rec_block \<sigma> (img s) m) \<and> hist S s t"
proof -
  note R = R' [rule_format]
  note sh = log_shapeD [OF shape, folded bl_def] and lb = logged_blocks [OF shape, folded bl_def]
  let ?G = "\<lambda>m. case List.find (\<lambda>i. unat (bl ! i) = m) [0..<n] of Some i \<Rightarrow> C (\<sigma> + 1 + i) | None \<Rightarrow> C m"
  let ?S1 = "{im. (\<forall>m \<in> log_region \<sigma>. img_block im m = img_block (img s) m) \<and>
      (\<forall>m. m \<notin> log_region \<sigma> \<longrightarrow> img_block im m = img_block (img s) m \<or>
         (\<exists>i < n. m = unat (bl ! i) \<and> img_block im m = C (\<sigma> + 1 + i)))}"
  obtain t1 where 1: "for_each [0..<n] install_trans_one s = Ok () t1" "inv ?G (D - unat ` set (take n bl)) {} (W n) t1"
      "lg t1 = lg s" "img t1 \<in> ?S1" "hist ?S1 s t1"
    using install_loop [OF ok shape order_refl R] x [rule_format] room(1) [rule_format] unfolding bl_def W_def by blast
  have D0: "D - unat ` set (take n bl) = {}" using D by auto
  note rl = rec_block_logged [OF hdr sh(7,11)]
  have logc: "C (\<sigma> + 1 + i) = img_block (img s) (\<sigma> + 1 + i)" if "i < n" for i
    using clean_law [OF ok] R [of "log_start (lg s) + of_nat i + 1"] sh(12,13) [of i] that sh(1) by simp
  have home: "?G m = rec_block \<sigma> (img s) m" if "m \<notin> log_region \<sigma>" for m
  proof (cases "List.find (\<lambda>i. unat (bl ! i) = m) [0..<n]")
    case (Some i)
    then show ?thesis using find_SomeD [OF Some] rl logc by auto
  next
    case None
    then have ne: "\<And>i. i < n \<Longrightarrow> unat (bl ! i) \<noteq> m" by (auto simp: find_None_iff)
    then have "m \<notin> D" using D lb(2) by blast
    then show ?thesis using None clean_law [OF ok] rec_block_other [OF hdr ne] by simp
  qed
  have same: "im \<in> S" if "im \<in> ?S1" for im
  proof -
    have "\<sigma> \<in> log_region \<sigma>" using sh(1) by (simp add: log_region_def)
    then have h: "header_is \<sigma> im n bl" using that hdr by (simp add: header_is_def)
    have "rec_block \<sigma> im m = rec_block \<sigma> (img s) m" if "m \<notin> log_region \<sigma>" for m
    proof (cases "\<exists>i < n. m = unat (bl ! i)")
      case True
      then obtain i where i: "i < n" "m = unat (bl ! i)" by blast
      then show ?thesis using rl rec_block_logged [OF h sh(7,11)] \<open>im \<in> ?S1\<close> sh(1) sh(13) [of i] by simp
    next
      case False
      then have ne: "\<And>i. i < n \<Longrightarrow> unat (bl ! i) \<noteq> m" by blast
      have "img_block im m = img_block (img s) m" using \<open>im \<in> ?S1\<close> that False by blast
      then show ?thesis using rec_block_other [OF h ne] rec_block_other [OF hdr ne] by simp
    qed
    then show ?thesis using shape_header_ok [OF shape, of im] h by (simp add: S_def recovers_to_def bl_def)
  qed
  let ?t = "t1\<lparr>lg := (lg s)\<lparr>log_lh := (log_lh (lg s))\<lparr>lh_n := 0\<rparr>\<rparr>\<rparr>" and ?l = "log_start (lg s)"
  have 2: "inv ?G {} {} (W n) ?t" using log_law [OF 1(2) [unfolded D0]] .
  have "?l \<notin> set (take n bl)" using lb(3) sh(10) by blast
  then have wl: "W n ?l = 0" using R [OF sh(10)] by (simp add: W_def)
  let ?d = "hdr_put (?G \<sigma>) 0 bl"
  obtain t3 where 3: "write_head ?t = Ok () t3" "inv (?G(\<sigma> := ?d)) {} {} (W n) t3" "lg t3 = lg ?t"
      "img t3 = img_put (img t1) \<sigma> ?d" "hist {img t1, img t3} ?t t3"
  proof -
    have lt: "log_dev (lg ?t) = dv" "lh_n (log_lh (lg ?t)) = int 0" "(0 :: nat) \<le> LOGSIZE" "?l = log_start (lg ?t)"
      "unat ?l < 2 ^ 31" "unat ?l \<notin> {}" "lh_block (log_lh (lg ?t)) = bl" "img ?t = img t1"
      using sh by (simp_all add: bl_def)
    note wh = write_head_spec [OF 2 lt(1-5) wl lt(6) room(2), unfolded lt(7,8) sh(2)]
    show thesis using wh by (elim exE conjE) (rule that)
  qed
  have dl: "length (?G \<sigma>) = BSIZE" using size_law [OF 2] by blast
  have h0: "hdr_n (img_block (img t3) \<sigma>) = 0" using 3(4) hdr_put_props(1,2) [OF dl, of 0 bl] by simp
  have fin: "(?G(\<sigma> := ?d)) m = rec_block \<sigma> (img s) m" if "m \<notin> log_region \<sigma>" for m
    using home [OF that] that sh(1) by (auto simp: log_region_def)
  then have "img t3 \<in> S" using clean_law [OF 3(2)] by (simp add: S_def empty_recovers [OF h0])
  then have "hist S ?t t3" using same [OF 1(4)] by (intro hist_mono [OF 3(5)]) simp
  moreover have "hist S s t1" using same by (intro hist_mono [OF 1(5)]) blast
  then have "hist S s ?t" by (simp add: hist_def)
  ultimately have "hist S s t3" by (rule hist_trans [rotated])
  moreover have "thn install_trans (thn (set_lh_n 0) write_head) s = Ok () t3"
    using 1(1,3) 3(1) sh(6) by (simp add: install_trans_def kop_simps set_lh_n_def)
  ultimately show ?thesis using 3(2,3) h0 fin by (intro exI [of _ t3] exI [of _ "?G(\<sigma> := ?d)"]) simp
qed

lemma commit_spec:
  assumes ok: "inv C D {} w s" and shape: "log_shape dv \<sigma> n (lg s)"
  defines "bl \<equiv> lh_block (log_lh (lg s))"
  assumes D: "D \<subseteq> unat ` set (take n bl)" and w: "w = (\<lambda>a. if a \<in> set (take n bl) then 1 else 0)"
    and hdr0: "hdr_n (img_block (img s) \<sigma>) = 0"
  defines "S \<equiv> {im. recovers_to \<sigma> (img_block (img s)) im \<or> recovers_to \<sigma> C im}"
  shows "\<exists>t C'. commit s = Ok () t \<and> inv C' {} {} (\<lambda>_. 0) t \<and> (\<forall>m. m \<notin> log_region \<sigma> \<longrightarrow> C' m = C m) \<and>
    lg t = (lg s)\<lparr>log_lh := (log_lh (lg s))\<lparr>lh_n := 0\<rparr>\<rparr> \<and> hdr_n (img_block (img t) \<sigma>) = 0 \<and> hist S s t"
proof (cases "n = 0")
  case True
  have z: "lh_n (log_lh (lg s)) = 0" using log_shapeD(6) [OF shape] True by simp
  then have "lg s = (lg s)\<lparr>log_lh := (log_lh (lg s))\<lparr>lh_n := 0\<rparr>\<rparr>" by (cases "lg s"; cases "log_lh (lg s)") simp
  moreover have "D = {}" "w = (\<lambda>_. 0)" using D w True by simp_all
  ultimately show ?thesis using ok z hdr0 by (intro exI [of _ s] exI [of _ C]) (simp add: commit_def kop_simps)
next
  case False
  note sh = log_shapeD [OF shape, folded bl_def] and lb = logged_blocks [OF shape, folded bl_def]
  let ?S1 = "{im. recovers_to \<sigma> (img_block (img s)) im \<or> complete \<sigma> n bl C im}"
  obtain t1 C1 where 1: "thn write_log write_head s = Ok () t1" "inv C1 D {} w t1" "lg t1 = lg s" "complete \<sigma> n bl C (img t1)"
      "hist ?S1 s t1"
    using commit_point [OF ok shape D [unfolded bl_def] w [unfolded bl_def] hdr0] unfolding bl_def by blast
  note rec = complete_recovers [OF 1(4) sh(7,11)]
  have R: "w a = 0 \<and> unat a \<notin> D" if "unat a \<in> log_region \<sigma>" for a using lb(4) [OF D that] w by simp
  let ?W = "\<lambda>k a. if a \<in> set (take k bl) then w a - 1 else w a"
  have sub: "set (take k bl) \<subseteq> set (take n bl)" if "k \<le> n" for k using that by (rule set_take_subset_set_take)
  have few: "card (pins (?W k)) < NBUF" if "k \<le> n" for k
    using sub [OF that] w by (intro lb(5)) (auto simp: pins_def split: if_splits)
  have w1: "w (bl ! i) = 1" if "i < n" for i using lb(1) [OF that] w by simp
  have shape1: "log_shape dv \<sigma> n (lg t1)" and bl1: "lh_block (log_lh (lg t1)) = bl" using shape 1(3) by (simp_all add: bl_def)
  have hdr: "header_is \<sigma> (img t1) n bl" using 1(4) by (simp add: complete_def)
  have W0: "?W n = (\<lambda>_. 0)" using w by auto
  obtain t2 C2 where 2: "thn install_trans (thn (set_lh_n 0) write_head) t1 = Ok () t2" "inv C2 {} {} (?W n) t2"
      "lg t2 = (lg s)\<lparr>log_lh := (log_lh (lg s))\<lparr>lh_n := 0\<rparr>\<rparr>" "hdr_n (img_block (img t2) \<sigma>) = 0"
      "\<forall>m. m \<notin> log_region \<sigma> \<longrightarrow> C2 m = rec_block \<sigma> (img t1) m"
      "hist {im. recovers_to \<sigma> (rec_block \<sigma> (img t1)) im} t1 t2"
  proof -
    have p: "\<forall>i < n. w (bl ! i) \<noteq> - 1"
      "\<forall>i < n. card (pins (?W i)) < NBUF \<and> (w (bl ! i) \<noteq> 0 \<or> card (pins (?W i)) + 1 < NBUF)"
      "\<forall>a. unat a \<in> log_region \<sigma> \<longrightarrow> w a = 0 \<and> unat a \<notin> D"
      using w1 few R by simp_all
    show thesis using install_and_clear [OF 1(2) shape1 p(3), unfolded bl1, unfolded 1(3), OF p(1,2) few [OF order_refl] D hdr]
      by (elim exE conjE) (rule that)
  qed
  have "recovers_to \<sigma> C im" if "complete \<sigma> n bl C im" for im
    using complete_recovers [OF that sh(7,11)] shape_header_ok [OF shape, of im] that
    by (simp add: recovers_to_def complete_def bl_def)
  then have "?S1 \<subseteq> S" by (auto simp: S_def)
  then have "hist S s t2"
    using rec by (intro hist_trans [OF hist_mono [OF 1(5)] hist_mono [OF 2(6)]]) (auto simp: S_def recovers_to_def)
  moreover have "commit s = Ok () t2"
    using 1(1) 2(1) False sh(6) by (simp add: commit_def whenk_def flip: thn_assoc [of write_log write_head])
  ultimately show ?thesis using 2(2-5) rec W0 by (intro exI [of _ t2] exI [of _ C2]) simp
qed

lemma set_lh_block_loop:
  "\<forall>i \<in> set xs. i < LOGSIZE \<Longrightarrow> for_each xs (\<lambda>i. set_lh_block i (f i)) s = Ok () (s\<lparr>lg := (lg s)\<lparr>log_lh :=
     (log_lh (lg s))\<lparr>lh_block := fold (\<lambda>i bl. bl[i := f i]) xs (lh_block (log_lh (lg s)))\<rparr>\<rparr>\<rparr>)" for s :: "'z lgst_scheme"
  by (induction xs arbitrary: s) (simp_all add: set_lh_block_def kop_simps)

lemma fold_list_update:
  "n \<le> length bl \<Longrightarrow> length (fold (\<lambda>i bl. bl[i := f i]) [0..<n] bl) = length bl \<and>
     (\<forall>i < n. fold (\<lambda>i bl. bl[i := f i]) [0..<n] bl ! i = f i)"
  by (induction n) (auto simp: nth_list_update less_Suc_eq)

lemma read_head_spec:
  assumes ok: "inv C D {} w s" and "log_dev (lg s) = dv" and l: "l = log_start (lg s)" "unat l < 2 ^ 31" "w l = 0" "unat l \<notin> D"
    and room: "card (pins w) < NBUF" and n: "hdr_n (C (unat l)) = int n" "n \<le> LOGSIZE" "length (lh_block (log_lh (lg s))) = LOGSIZE"
  shows "\<exists>t bl. read_head s = Ok () t \<and> inv C D {} w t \<and> lg t = (lg s)\<lparr>log_lh := \<lparr>lh_n = int n, lh_block = bl\<rparr>\<rparr> \<and>
    length bl = LOGSIZE \<and> (\<forall>i < n. bl ! i = hdr_block (C (unat l)) i) \<and> img t = img s \<and> hist {img s} s t"
proof -
  obtain b t1 where 1: "bread dv l s = Ok b t1" "inv C D {b} w t1" "lg t1 = lg s" "img t1 = img s" "hist {img s} s t1"
    "b_blockno (bufs t1 b) = l"
    using bread_law [OF ok, of l] l room by auto
  have dat: "b_data (bufs t1 b) = C (unat l)" using data_law [OF 1(2), of b] 1(6) by simp
  let ?bl = "fold (\<lambda>i bl. bl[i := hdr_block (C (unat l)) i]) [0..<n] (lh_block (log_lh (lg s)))"
  let ?l = "(lg s)\<lparr>log_lh := \<lparr>lh_n = int n, lh_block = ?bl\<rparr>\<rparr>"
  have 2: "inv C D {b} w (t1\<lparr>lg := ?l\<rparr>)" using log_law [OF 1(2)] .
  obtain t3 where 3: "brelse b (t1\<lparr>lg := ?l\<rparr>) = Ok () t3" "inv C D ({b} - {b}) w t3" "lg t3 = ?l" "img t3 = img t1" "whist t3 = whist t1"
    using brelse_law [OF 2, of b] 1(6) l(4) by auto
  have "read_head s = Ok () t3"
    using 1 dat 3(1) assms(2) l(1) n set_lh_block_loop [of "[0..<n]" "hdr_block (C (unat l))"]
    by (simp add: read_head_def kop_simps set_lh_n_def hdr_n_def hdr_block_def)
  moreover have "hist {img s} s t3" using 1(5) 3(5) by (simp add: hist_def)
  ultimately show ?thesis
    using 3 1(4) fold_list_update [of n "lh_block (log_lh (lg s))" "hdr_block (C (unat l))"] n(2,3)
    by (intro exI [of _ t3] exI [of _ ?bl]) simp
qed

lemma recover_spec:
  assumes ok: "inv C {} {} (\<lambda>_. 0) s" and "log_dev (lg s) = dv" and \<sigma>: "unat (log_start (lg s)) = \<sigma>" "\<sigma> + LOGSIZE < 2 ^ 31"
    and len: "length (lh_block (log_lh (lg s))) = LOGSIZE" and hdr: "header_is \<sigma> (img s) n bl" and "length bl = n" and "n < LOGSIZE"
    and bl: "distinct bl" "\<forall>x \<in> set bl. unat x < 2 ^ 31 \<and> unat x \<notin> log_region \<sigma>"
  defines "S \<equiv> {im. recovers_to \<sigma> (rec_block \<sigma> (img s)) im}"
  shows "\<exists>t C'. recover_from_log s = Ok () t \<and> inv C' {} {} (\<lambda>a. if a \<in> set bl then - 1 else 0) t \<and> lh_n (log_lh (lg t)) = 0 \<and>
    hdr_n (img_block (img t) \<sigma>) = 0 \<and> (\<forall>m. m \<notin> log_region \<sigma> \<longrightarrow> C' m = rec_block \<sigma> (img s) m) \<and> hist S s t"
proof -
  have z: "card (pins (\<lambda>_. 0)) < NBUF" by (simp add: pins_def NBUF_def)
  have c: "C \<sigma> = img_block (img s) \<sigma>" using clean_law [OF ok, of \<sigma>] by simp
  have h: "hdr_n (C (unat (log_start (lg s)))) = int n" using hdr c \<sigma>(1) by (simp add: header_is_def)
  have ls: "unat (log_start (lg s)) < 2 ^ 31" using \<sigma> by simp
  obtain t1 bl' where 1: "read_head s = Ok () t1" "inv C {} {} (\<lambda>_. 0) t1" "lg t1 = (lg s)\<lparr>log_lh := \<lparr>lh_n = int n, lh_block = bl'\<rparr>\<rparr>"
      "length bl' = LOGSIZE" "\<forall>i < n. bl' ! i = hdr_block (C (unat (log_start (lg s)))) i" "img t1 = img s" "hist {img s} s t1"
    using read_head_spec [OF ok assms(2) refl ls refl _ z h less_imp_le [OF assms(8)] len] by blast
  have "bl' ! i = bl ! i" if "i < n" for i using 1(5) that hdr c \<sigma>(1) by (simp add: header_is_def)
  then have tk: "take n bl' = bl" using 1(4) assms(7,8) by (intro nth_equalityI) simp_all
  have nth: "bl' ! i \<in> set bl" if "i < n" for i using that assms(7) tk by (metis nth_mem nth_take)
  have shape: "log_shape dv \<sigma> n (lg t1)"
    using 1(3,4) assms(2,8) \<sigma> bl tk nth by (simp add: log_shape_def)
  let ?W = "\<lambda>k (a :: uint). if a \<in> set (take k bl') then (0 :: uint) - 1 else 0"
  have lb: "lh_block (log_lh (lg t1)) = bl'" using 1(3) by simp
  have pw: "card (pins (?W k)) \<le> k" for k
  proof -
    have "pins (?W k) \<subseteq> set (take k bl')" by (auto simp: pins_def)
    then have "card (pins (?W k)) \<le> card (set (take k bl'))" by (intro card_mono) simp_all
    also have "\<dots> \<le> k" using card_length [of "take k bl'"] by simp
    finally show ?thesis .
  qed
  have room: "\<forall>i < n. card (pins (?W i)) < NBUF \<and> ((0 :: uint) \<noteq> 0 \<or> card (pins (?W i)) + 1 < NBUF)" "card (pins (?W n)) < NBUF"
  proof -
    have lt: "n < NBUF" using assms(8) by (simp add: LOGSIZE_def MAXOPBLOCKS_def NBUF_def)
    have "card (pins (?W i)) + 1 < NBUF" if "i < n" for i using pw [of i] that lt by linarith
    then show "\<forall>i < n. card (pins (?W i)) < NBUF \<and> ((0 :: uint) \<noteq> 0 \<or> card (pins (?W i)) + 1 < NBUF)"
      using add_lessD1 by blast
    show "card (pins (?W n)) < NBUF" using pw [of n] lt by linarith
  qed
  have hdr1: "header_is \<sigma> (img t1) n bl'" using hdr 1(6) tk assms(7) \<open>\<And>i. i < n \<Longrightarrow> bl' ! i = bl ! i\<close> by (simp add: header_is_def)
  have p: "\<forall>a. unat a \<in> log_region \<sigma> \<longrightarrow> (0 :: uint) = 0 \<and> unat a \<notin> {}" "\<forall>i < n. (0 :: uint) \<noteq> - 1"
    "{} \<subseteq> unat ` set (take n bl')" by simp_all
  obtain t2 C2 where 2: "thn install_trans (thn (set_lh_n 0) write_head) t1 = Ok () t2" "inv C2 {} {} (?W n) t2"
      "lg t2 = (lg t1)\<lparr>log_lh := (log_lh (lg t1))\<lparr>lh_n := 0\<rparr>\<rparr>" "hdr_n (img_block (img t2) \<sigma>) = 0"
      "\<forall>m. m \<notin> log_region \<sigma> \<longrightarrow> C2 m = rec_block \<sigma> (img t1) m"
      "hist {im. recovers_to \<sigma> (rec_block \<sigma> (img t1)) im} t1 t2"
    using install_and_clear [OF 1(2) shape p(1), unfolded lb, OF p(2) room p(3) hdr1] by (elim exE conjE) (rule that)
  have "header_ok \<sigma> (img s)" using hdr assms(7,8) bl unfolding header_ok_def by blast
  then have "hist S s t2"
    using 1(6) by (intro hist_trans [OF hist_mono [OF 1(7)] hist_mono [OF 2(6)]]) (auto simp: S_def recovers_to_def)
  moreover have "recover_from_log s = Ok () t2" using 1(1) 2(1) by (simp add: recover_from_log_def kop_simps)
  moreover have "?W n = (\<lambda>a. if a \<in> set bl then - 1 else 0)" using tk by auto
  ultimately show ?thesis using 2 1(6) by (intro exI [of _ t2] exI [of _ C2]) simp
qed

end

end
