(* ===== verification/Txn.thy ===== *)
theory Txn
  imports Logprops
begin

text \<open>
  Transactions: \<^verbatim>\<open>begin_op\<close>, updates of blocks through \<^verbatim>\<open>log_write\<close>, \<^verbatim>\<open>end_op\<close>, and recovery after a crash.
\<close>

section \<open>The buffer cache obeys the laws of the log's interface\<close>

lemma io_frame_lg: "io_frame p s t \<Longrightarrow> lg t = lg s" for s :: "'z lgst_scheme"
  unfolding io_frame_def by (elim conjE) (erule ssubst, simp)

lemma block_size:
  assumes "bc p dv C D H w s" shows "length (C n) = BSIZE"
proof -
  have co: "cache_ok p dv C D H s" using assms by (simp add: bc_def)
  then have bo: "bufs_ok dv C D (img s) (bufs s)" and len: "\<And>b. b < NBUF \<Longrightarrow> length (b_data (bufs s b)) = BSIZE"
    by (simp_all add: cache_ok_def io_ok_def)
  show ?thesis
  proof (cases "n \<in> D")
    case True
    then obtain b where "b < NBUF" "unat (b_blockno (bufs s b)) = n" "b_valid (bufs s b) \<noteq> 0" using bufs_okD(6) [OF bo] by blast
    then show ?thesis using bufs_okD(3) [OF bo, of b] len [of b] by simp
  next
    case False
    then show ?thesis using bufs_okD(5) [OF bo, of n] by (metis length_img_block)
  qed
qed

lemma lg_irrelevant [simp]:
  fixes s :: "'z lgst_scheme"
  shows "io_ok p (s\<lparr>lg := l\<rparr>) = io_ok p s" "bc p dv C D H w (s\<lparr>lg := l\<rparr>) = bc p dv C D H w s"
  by (simp_all add: io_ok_def bc_def cache_ok_def locks_ok_def)

interpretation log_bc: block_cache "bc p dv" dv for p dv
proof
  fix C D H w x and s :: "'z lgst_scheme"
  assume a: "bc p dv C D H w s" "unat x < 2 ^ 31" "\<forall>b \<in> H. b_blockno (bufs s b) \<noteq> x \<and> w (b_blockno (bufs s b)) \<noteq> - 1"
    "w x \<noteq> 0 \<or> card (pins w) + card H < NBUF" "w x \<noteq> - 1"
  show "\<exists>b t. bread dv x s = Ok b t \<and> bc p dv C D (insert b H) w t \<and> lg t = lg s \<and> img t = img s \<and>
      hist {img s} s t \<and> b \<notin> H \<and> b_blockno (bufs t b) = x \<and> (\<forall>c. c \<noteq> b \<longrightarrow> bufs t c = bufs s c)"
    using bread_bc [OF a] io_frame_lg by blast
next
  fix C D H w b n and s :: "'z lgst_scheme"
  assume a: "bc p dv C D H w s" "b \<in> H" "n = unat (b_blockno (bufs s b))"
  obtain t where "bwrite b s = Ok () t" "bc p dv C (D - {n}) H w t" "io_frame p s t"
    "img t = img_put (img s) n (C n)" "hist {img t} s t" "\<And>c. core (bufs t c) = core (bufs s c)" using bwrite_bc [OF a] by blast
  then show "\<exists>t. bwrite b s = Ok () t \<and> bc p dv C (D - {n}) H w t \<and> lg t = lg s \<and>
      img t = img_put (img s) n (C n) \<and> hist {img t} s t \<and> (\<forall>c. b_blockno (bufs t c) = b_blockno (bufs s c))"
    using io_frame_lg core_eqD(3) by blast
next
  fix C D H w b n and d :: "uchar list" and s :: "'z lgst_scheme"
  assume a: "bc p dv C D H w s" "b \<in> H" "n = unat (b_blockno (bufs s b))" "w (b_blockno (bufs s b)) \<noteq> - 1" "length d = BSIZE"
  show "bc p dv (C(n := d)) (insert n D) H w (s\<lparr>bufs := (bufs s)(b := (bufs s b)\<lparr>b_data := d\<rparr>)\<rparr>)"
    by (rule change_bc(1) [OF a])
next
  fix C D H w b x and s :: "'z lgst_scheme"
  assume a: "bc p dv C D H w s" "b \<in> H" "x = b_blockno (bufs s b)" "w x \<noteq> - 2"
  show "\<exists>t. bpin b s = Ok () t \<and> bc p dv C D H (w(x := w x + 1)) t \<and> lg t = lg s \<and> img t = img s \<and> whist t = whist s \<and>
      (\<forall>c. b_blockno (bufs t c) = b_blockno (bufs s c))"
    using bpin_bc [OF a] io_frame_lg by blast
next
  fix C D H w b x and s :: "'z lgst_scheme"
  assume a: "bc p dv C D H w s" "b \<in> H" "x = b_blockno (bufs s b)" "w x \<noteq> 0 \<or> unat x \<notin> D"
  show "\<exists>t. bunpin b s = Ok () t \<and> bc p dv C D H (w(x := w x - 1)) t \<and> lg t = lg s \<and> img t = img s \<and> whist t = whist s \<and>
      (\<forall>c. b_blockno (bufs t c) = b_blockno (bufs s c))"
    using bunpin_bc [OF a] io_frame_lg by blast
next
  fix C D H w b and s :: "'z lgst_scheme"
  assume a: "bc p dv C D H w s" "b \<in> H" "w (b_blockno (bufs s b)) \<noteq> 0 \<or> unat (b_blockno (bufs s b)) \<notin> D"
  show "\<exists>t. brelse b s = Ok () t \<and> bc p dv C D (H - {b}) w t \<and> lg t = lg s \<and> img t = img s \<and> whist t = whist s \<and>
      (\<forall>c. b_blockno (bufs t c) = b_blockno (bufs s c))"
    using brelse_bc [OF a] io_frame_lg by blast
next
  fix C D H w b and s :: "'z lgst_scheme"
  assume "bc p dv C D H w s" "b \<in> H"
  then show "b_data (bufs s b) = C (unat (b_blockno (bufs s b)))" using held_block(4) bc_cache by blast
next
  fix C D H w n and s :: "'z lgst_scheme"
  assume "bc p dv C D H w s"
  then show "length (C n) = BSIZE" by (rule block_size)
next
  fix C D H w n and s :: "'z lgst_scheme"
  assume "bc p dv C D H w s" "n \<notin> D"
  then show "img_block (img s) n = C n" using bufs_okD(5) by (auto simp: bc_def cache_ok_def)
next
  fix C D H w l and s :: "'z lgst_scheme"
  assume "bc p dv C D H w s"
  then show "bc p dv C D H w (s\<lparr>lg := l\<rparr>)" by simp
qed

section \<open>log\_write\<close>

lemma find_logged_spec:
  "i \<le> find_logged bl i k b \<and> find_logged bl i k b \<le> i + k \<and>
   (find_logged bl i k b < i + k \<longrightarrow> bl ! find_logged bl i k b = b) \<and>
   (find_logged bl i k b = i + k \<longrightarrow> (\<forall>j. i \<le> j \<and> j < i + k \<longrightarrow> bl ! j \<noteq> b))"
proof (induction bl i k b rule: find_logged.induct)
  case (2 bl i k b)
  show ?case
  proof (cases "bl ! i = b")
    case True
    then show ?thesis by simp
  next
    case False
    then have "bl ! j \<noteq> b" if "i \<le> j" "j < i + Suc k" "find_logged bl (i + 1) k b = i + 1 + k" for j
      using 2 that by (cases "j = i") auto
    then show ?thesis using 2 False by auto
  qed
qed auto

definition pin_of :: "uint set \<Rightarrow> uint \<Rightarrow> uint" where
  "pin_of L a = (if a \<in> L then 1 else 0)"

definition logged :: "nat \<Rightarrow> klog \<Rightarrow> uint set" where
  "logged n l = set (take n (lh_block (log_lh l)))"

lemma bc_machine:
  fixes s :: "'z dst_scheme"
  assumes "bc p dv C D H w s" and "quiet m p" and "P p = procs s p"
  shows "bc p dv C D H w (s\<lparr>mach := m, procs := P\<rparr>)"
  using assms by (simp add: bc_def cache_ok_def io_ok_def locks_ok_def)

lemma bc_quiet: "bc p dv C D H w s \<Longrightarrow> quiet (mach s) p"
  by (simp add: bc_def cache_ok_def io_ok_def)

lemma log_write_apply:
  fixes s :: "'z lgst_scheme" and b
  assumes q: "quiet (mach s) p" and sh: "log_shape dv \<sigma> n (lg s)" and "int n < log_size (lg s) - 1" and "1 \<le> log_outstanding (lg s)"
  defines "x \<equiv> b_blockno (bufs s b)"
  shows "log_write b s = Ok () (if x \<in> logged n (lg s) then s\<lparr>mach := m_note (mach s)\<rparr>
    else s\<lparr>mach := m_note (mach s), bufs := (bufs s)(b := (bufs s b)\<lparr>b_refcnt := b_refcnt (bufs s b) + 1\<rparr>),
      lg := (lg s)\<lparr>log_lh := \<lparr>lh_n = int n + 1, lh_block = (lh_block (log_lh (lg s)))[n := x]\<rparr>\<rparr>\<rparr>)"
proof -
  note l = quietD [OF q] and sh = log_shapeD [OF sh]
  let ?bl = "lh_block (log_lh (lg s))" and ?i = "find_logged (lh_block (log_lh (lg s))) 0 n x"
  note fl = find_logged_spec [of 0 ?bl n x, simplified]
  have pin: "bpin b (u\<lparr>mach := m_acquire LkLog (mach s)\<rparr>) = Ok () (u\<lparr>mach := m_acquire LkLog (mach s),
      bufs := (bufs u)(b := (bufs u b)\<lparr>b_refcnt := b_refcnt (bufs u b) + 1\<rparr>)\<rparr>)" for u :: "'z lgst_scheme"
    using l by (simp add: bpin_def acquire_apply kop_simps)
  have enter: "log_write b s = thn (set_lh_block ?i x) (thn (whenk (?i = n) (thn (bpin b) (set_lh_n (int n + 1)))) (release LkLog))
      (s\<lparr>mach := m_acquire LkLog (mach s)\<rparr>)"
    using assms(3,4) sh(1,6) l by (simp add: log_write_def acquire_apply kop_simps x_def)
  show ?thesis
  proof (cases "x \<in> logged n (lg s)")
    case True
    then obtain j where "j < n" "?bl ! j = x" using sh(11) by (auto simp: logged_def in_set_conv_nth)
    then have i: "?i < n" "?bl ! ?i = x" using fl by (metis le_neq_implies_less)+
    have "?bl[?i := x] = ?bl" using i(2) list_update_id [of ?bl ?i] by simp
    then have "(lg s)\<lparr>log_lh := (log_lh (lg s))\<lparr>lh_block := ?bl[?i := x]\<rparr>\<rparr> = lg s" by (cases "lg s"; cases "log_lh (lg s)") simp
    then show ?thesis unfolding enter using True i(1) sh(1) l by (simp add: set_lh_block_def kop_simps)
  next
    case False
    then have i: "?i = n" using fl sh(11) by (auto simp: logged_def in_set_conv_nth le_less)
    have "set_lh_block n x (s\<lparr>mach := m_acquire LkLog (mach s)\<rparr>) = Ok () (s\<lparr>mach := m_acquire LkLog (mach s),
       lg := (lg s)\<lparr>log_lh := (log_lh (lg s))\<lparr>lh_block := ?bl[n := x]\<rparr>\<rparr>\<rparr>)"
      using sh(1) by (simp add: set_lh_block_def)
    moreover note pin [of "s\<lparr>lg := (lg s)\<lparr>log_lh := (log_lh (lg s))\<lparr>lh_block := ?bl[n := x]\<rparr>\<rparr>\<rparr>"]
    moreover have "(log_lh (lg s))\<lparr>lh_block := c, lh_n := a\<rparr> = \<lparr>lh_n = a, lh_block = c\<rparr>" for a c by (cases "log_lh (lg s)") simp
    ultimately show ?thesis unfolding enter using False i l by (simp add: kop_simps set_lh_n_def)
  qed
qed

section \<open>An open transaction\<close>

text \<open>
  \<open>Old\<close> is what the disk holds outside the log, \<open>C\<close> what the file system sees, and \<open>L\<close> the blocks of the
  transaction: exactly they may differ, and they are pinned in the cache.
\<close>

definition log_inv :: "nat \<Rightarrow> uint \<Rightarrow> nat \<Rightarrow> (nat \<Rightarrow> uchar list) \<Rightarrow> (nat \<Rightarrow> uchar list) \<Rightarrow> uint set \<Rightarrow> 'z lgst_scheme \<Rightarrow> bool" where
  "log_inv p dv \<sigma> Old C L s \<longleftrightarrow> (\<exists>n D. log_shape dv \<sigma> n (lg s) \<and> L = logged n (lg s) \<and> bc p dv C D {} (pin_of L) s \<and>
     D \<subseteq> unat ` L \<and> hdr_n (img_block (img s) \<sigma>) = 0 \<and> (\<forall>m. m \<notin> log_region \<sigma> \<longrightarrow> img_block (img s) m = Old m) \<and>
     log_size (lg s) \<le> int LOGSIZE)"

definition update_block :: "uint \<Rightarrow> uint \<times> uchar list \<Rightarrow> (unit, 'z lgst_scheme) kop" where
  "update_block dv = (\<lambda>(x, d). bnd (bread dv x) (\<lambda>b.
     thn (upd_buf b (\<lambda>y. y\<lparr>b_data := d\<rparr>)) (thn (log_write b) (brelse b))))"

definition same_log :: "klog \<Rightarrow> klog \<Rightarrow> bool" where
  "same_log l l' \<longleftrightarrow> l' = l\<lparr>log_lh := log_lh l'\<rparr>"

lemma same_log_trans: "same_log a b \<Longrightarrow> same_log b c \<Longrightarrow> same_log a c"
  unfolding same_log_def by (metis klog.surjective klog.update_convs(6))

lemma same_logD:
  assumes "same_log l l'"
  shows "log_size l' = log_size l" and "log_outstanding l' = log_outstanding l" and "log_committing l' = log_committing l"
  using assms unfolding same_log_def by (metis klog.select_convs klog.surjective klog.update_convs(6))+

lemma card_logged:
  assumes "log_shape dv \<sigma> n l" shows "card (logged n l) = n"
  using distinct_card [OF log_shapeD(7) [OF assms]] log_shapeD(11) [OF assms] by (simp add: logged_def)

lemma pins_pin_of [simp]: "pins (pin_of L) = L"
  by (simp add: pins_def pin_of_def)

lemma pin_of_neq [simp]: "pin_of L x \<noteq> - 1"
  by (simp add: pin_of_def)

lemma log_append:
  assumes "log_shape dv \<sigma> n l" and "n + 1 < LOGSIZE" and "x \<notin> logged n l" and "unat x < 2 ^ 31" and "unat x \<notin> log_region \<sigma>"
  defines "l' \<equiv> l\<lparr>log_lh := \<lparr>lh_n = int n + 1, lh_block = (lh_block (log_lh l))[n := x]\<rparr>\<rparr>"
  shows "log_shape dv \<sigma> (n + 1) l'" and "logged (n + 1) l' = insert x (logged n l)"
proof -
  note sh = log_shapeD [OF assms(1)]
  have tk: "take (n + 1) ((lh_block (log_lh l))[n := x]) = take n (lh_block (log_lh l)) @ [x]"
    using sh(1,5) by (simp add: take_Suc_conv_app_nth)
  show "logged (n + 1) l' = insert x (logged n l)" using tk by (simp add: logged_def l'_def)
  have "unat ((lh_block (log_lh l))[n := x] ! i) < 2 ^ 31 \<and> unat ((lh_block (log_lh l))[n := x] ! i) \<notin> log_region \<sigma>" if "i < n + 1" for i
    using that sh(8,9) [of i] assms(4,5) sh(1,5) by (cases "i = n") simp_all
  then show "log_shape dv \<sigma> (n + 1) l'"
    using sh tk assms(2,3) by (simp add: log_shape_def l'_def logged_def)
qed

lemma change_logged:
  fixes s :: "'z lgst_scheme"
  assumes ok: "bc p dv C D H (pin_of L) s" and b: "b \<in> H" and x: "x = b_blockno (bufs s b)" "unat x < 2 ^ 31" "unat x \<notin> log_region \<sigma>"
    and sh: "log_shape dv \<sigma> n (lg s)" and L: "L = logged n (lg s)" and d: "length d = BSIZE"
    and room: "int n < log_size (lg s) - 1" "n + 1 < LOGSIZE" and out: "1 \<le> log_outstanding (lg s)"
  shows "\<exists>t n'. log_write b (s\<lparr>bufs := (bufs s)(b := (bufs s b)\<lparr>b_data := d\<rparr>)\<rparr>) = Ok () t \<and>
    bc p dv (C(unat x := d)) (insert (unat x) D) H (pin_of (insert x L)) t \<and> log_shape dv \<sigma> n' (lg t) \<and> insert x L = logged n' (lg t) \<and>
    same_log (lg s) (lg t) \<and> img t = img s \<and> whist t = whist s \<and> (\<forall>c. b_blockno (bufs t c) = b_blockno (bufs s c)) \<and>
    io_frame p (s\<lparr>lg := lg t\<rparr>) t"
proof -
  let ?s = "s\<lparr>bufs := (bufs s)(b := (bufs s b)\<lparr>b_data := d\<rparr>)\<rparr>" and ?C = "C(unat x := d)" and ?D = "insert (unat x) D"
  have 2: "bc p dv ?C ?D H (pin_of L) ?s" using change_bc(1) [OF ok b _ _ d, of "unat x"] x(1) by (simp add: pin_of_def)
  have sh2: "log_shape dv \<sigma> n (lg ?s)" "int n < log_size (lg ?s) - 1" "1 \<le> log_outstanding (lg ?s)" using sh room out by simp_all
  note lw = log_write_apply [OF bc_quiet [OF 2] sh2, of b]
  have b2: "b_blockno (bufs ?s b) = x" using x(1) by simp
  show ?thesis
  proof (cases "x \<in> L")
    case True
    let ?t = "?s\<lparr>mach := m_note (mach ?s), procs := procs ?s\<rparr>"
    have "bc p dv ?C ?D H (pin_of L) ?t" using bc_quiet [OF 2] by (intro bc_machine [OF 2]) simp_all
    then show ?thesis using lw True b2 L sh
      by (intro exI [of _ ?t] exI [of _ n]) (simp add: insert_absorb same_log_def io_frame_def)
  next
    case False
    let ?t = "?s\<lparr>mach := m_note (mach ?s), bufs := (bufs ?s)(b := (bufs ?s b)\<lparr>b_refcnt := b_refcnt (bufs ?s b) + 1\<rparr>)\<rparr>"
    let ?l = "(lg s)\<lparr>log_lh := \<lparr>lh_n = int n + 1, lh_block = (lh_block (log_lh (lg s)))[n := x]\<rparr>\<rparr>"
    have "b_refcnt (bufs ?s b) = 1" using bc_ref [OF 2 b] b2 False by (simp add: pin_of_def)
    then have "bc p dv ?C ?D H ((pin_of L)(x := pin_of L x + 1)) ?t" using reference_bc(1) [OF 2 b, of 1] b2 by simp
    moreover have "(pin_of L)(x := pin_of L x + 1) = pin_of (insert x L)" using False by (auto simp: pin_of_def)
    ultimately have "bc p dv ?C ?D H (pin_of (insert x L)) (?t\<lparr>lg := ?l\<rparr>)" by simp
    then show ?thesis using lw False b2 L log_append [OF sh room(2) _ x(2,3)]
      by (intro exI [of _ "?t\<lparr>lg := ?l\<rparr>"] exI [of _ "n + 1"]) (simp add: same_log_def io_frame_def)
  qed
qed

lemma update_block_spec:
  fixes s :: "'z lgst_scheme"
  assumes inv: "log_inv p dv \<sigma> Old C L s" and x: "unat x < 2 ^ 31" "unat x \<notin> log_region \<sigma>" and d: "length d = BSIZE"
    and room: "int (card L) < log_size (lg s) - 1" and out: "1 \<le> log_outstanding (lg s)"
  shows "\<exists>t. update_block dv (x, d) s = Ok () t \<and> log_inv p dv \<sigma> Old (C(unat x := d)) (insert x L) t \<and>
    same_log (lg s) (lg t) \<and> img t = img s \<and> hist {img s} s t"
proof -
  obtain n D where sh: "log_shape dv \<sigma> n (lg s)" and L: "L = logged n (lg s)" and ok: "bc p dv C D {} (pin_of L) s"
    and D: "D \<subseteq> unat ` L" and disk: "hdr_n (img_block (img s) \<sigma>) = 0" "\<forall>m. m \<notin> log_region \<sigma> \<longrightarrow> img_block (img s) m = Old m"
    and sz: "log_size (lg s) \<le> int LOGSIZE" using inv unfolding log_inv_def by blast
  have n: "card L = n" using card_logged [OF sh] L by simp
  have lt: "n + 1 < LOGSIZE" using room sz n by simp
  have nb: "n < NBUF" using lt by (simp add: LOGSIZE_def MAXOPBLOCKS_def NBUF_def)
  obtain b t1 where 1: "bread dv x s = Ok b t1" "bc p dv C D {b} (pin_of L) t1" "lg t1 = lg s" "img t1 = img s" "hist {img s} s t1"
      "b_blockno (bufs t1 b) = x"
    using log_bc.bread_law [OF ok x(1)] n nb by auto
  let ?t2 = "t1\<lparr>bufs := (bufs t1)(b := (bufs t1 b)\<lparr>b_data := d\<rparr>)\<rparr>" and ?C = "C(unat x := d)" and ?D = "insert (unat x) D"
  note cl = change_logged [OF 1(2) _ 1(6) [symmetric] x, of n d]
  obtain t3 n' where 3: "log_write b ?t2 = Ok () t3" "bc p dv ?C ?D {b} (pin_of (insert x L)) t3" "log_shape dv \<sigma> n' (lg t3)"
      "insert x L = logged n' (lg t3)" "same_log (lg s) (lg t3)" "img t3 = img s" "whist t3 = whist t1" "b_blockno (bufs t3 b) = x"
    using cl sh L d room n lt out 1(3,4,6) by auto
  obtain t4 where 4: "brelse b t3 = Ok () t4" "bc p dv ?C ?D ({b} - {b}) (pin_of (insert x L)) t4" "lg t4 = lg t3" "img t4 = img t3"
      "whist t4 = whist t3"
    using log_bc.brelse_law [OF 3(2), of b] 3(8) by (auto simp: pin_of_def)
  have "log_size (lg t4) = log_size (lg s)" using 3(5) 4(3) unfolding same_log_def by (metis klog.ext_inject klog.surjective klog.update_convs(6))
  moreover have "?D \<subseteq> unat ` insert x L" using D by blast
  ultimately have "log_inv p dv \<sigma> Old ?C (insert x L) t4"
    unfolding log_inv_def using 3(3,4,6) 4(2-4) disk sz by (intro exI [of _ n'] exI [of _ ?D]) simp
  moreover have "update_block dv (x, d) s = Ok () t4"
    using 1(1) 3(1) 4(1) by (simp add: update_block_def kop_simps)
  moreover have "hist {img s} s t4" using 1(5) 3(7) 4(5) by (simp add: hist_def)
  ultimately show ?thesis using 3(5,6) 4(3,4) by auto
qed

section \<open>begin\_op and end\_op\<close>

lemma begin_op_apply:
  fixes s :: "'z lgst_scheme"
  assumes q: "quiet (mach s) p"
  shows "begin_op s =
    (if log_committing (lg s) \<or> lh_n (log_lh (lg s)) + (log_outstanding (lg s) + 1) * int MAXOPBLOCKS > int LOGSIZE
     then Blocked (s\<lparr>mach := m_acquire (LkProc p) (m_note (mach s)),
       procs := (procs s)(p := (procs s p)\<lparr>chan := Some ChLog, state := SLEEPING\<rparr>)\<rparr>)
     else Ok () (s\<lparr>mach := m_note (mach s), lg := (lg s)\<lparr>log_outstanding := log_outstanding (lg s) + 1\<rparr>\<rparr>))"
proof -
  note l = quietD [OF q]
  let ?m = "m_note (mach s)"
  have a: "m_acquire LkLog (mach s) = m_acquire LkLog ?m" by simp
  have "sleep ChLog LkLog (s\<lparr>mach := m_acquire LkLog (mach s)\<rparr>) = Blocked (s\<lparr>mach := m_acquire (LkProc p) ?m,
      procs := (procs s)(p := (procs s p)\<lparr>chan := Some ChLog, state := SLEEPING\<rparr>)\<rparr>)"
    using l a sleep_apply [of "s\<lparr>mach := m_acquire LkLog (mach s)\<rparr>" LkLog ?m p ChLog] by simp
  then show ?thesis using l by (simp add: begin_op_def begin_op_loop_def acquire_apply kop_simps)
qed

lemma bc_running: "bc p dv C D H w s \<Longrightarrow> state (procs s p) = RUNNING"
  by (simp add: bc_def cache_ok_def io_ok_def)

lemma wake_all_self [simp]: "state (P p) = RUNNING \<Longrightarrow> wake_all ch P p = P p"
  by (simp add: wake_all_def wake_def)

lemma log_inv_machine:
  fixes s :: "'z lgst_scheme"
  assumes "log_inv p dv \<sigma> Old C L s" and "quiet m p" and "P p = procs s p"
    and "log_lh l = log_lh (lg s)" and "log_start l = log_start (lg s)" and "log_dev l = log_dev (lg s)" and "log_size l = log_size (lg s)"
  shows "log_inv p dv \<sigma> Old C L (s\<lparr>mach := m, procs := P, lg := l\<rparr>)"
proof -
  obtain n D where h: "log_shape dv \<sigma> n (lg s)" "L = logged n (lg s)" "bc p dv C D {} (pin_of L) s" "D \<subseteq> unat ` L"
      "hdr_n (img_block (img s) \<sigma>) = 0" "\<forall>m. m \<notin> log_region \<sigma> \<longrightarrow> img_block (img s) m = Old m" "log_size (lg s) \<le> int LOGSIZE"
    using assms(1) unfolding log_inv_def by blast
  have "log_shape dv \<sigma> n l" "logged n l = logged n (lg s)" using h(1) assms(4-6) by (simp_all add: log_shape_def logged_def)
  then show ?thesis unfolding log_inv_def using h bc_machine [where P = P, OF h(3) assms(2,3)] assms(7)
    by (intro exI [of _ n] exI [of _ D]) simp
qed

lemma log_inv_bc:
  assumes "log_inv p dv \<sigma> Old C L s"
  shows "quiet (mach s) p" and "state (procs s p) = RUNNING" and "log_size (lg s) \<le> int LOGSIZE"
    and "lh_n (log_lh (lg s)) = int (card L)"
proof -
  obtain n D where h: "log_shape dv \<sigma> n (lg s)" "L = logged n (lg s)" "bc p dv C D {} (pin_of L) s" "log_size (lg s) \<le> int LOGSIZE"
    using assms unfolding log_inv_def by blast
  show "quiet (mach s) p" by (rule bc_quiet [OF h(3)])
  show "state (procs s p) = RUNNING" by (rule bc_running [OF h(3)])
  show "log_size (lg s) \<le> int LOGSIZE" by (rule h(4))
  show "lh_n (log_lh (lg s)) = int (card L)" using log_shapeD(6) [OF h(1)] card_logged [OF h(1)] h(2) by simp
qed

lemma log_inv_finite: "log_inv p dv \<sigma> Old C L s \<Longrightarrow> finite L"
  unfolding log_inv_def logged_def by auto

definition put_block :: "uint \<times> uchar list \<Rightarrow> (nat \<Rightarrow> uchar list) \<Rightarrow> nat \<Rightarrow> uchar list" where
  "put_block u V = V(unat (fst u) := snd u)"

lemma updates_spec:
  fixes s :: "'z lgst_scheme"
  assumes "log_inv p dv \<sigma> Old C L s" and "\<forall>(x, d) \<in> set us. unat x < 2 ^ 31 \<and> unat x \<notin> log_region \<sigma> \<and> length d = BSIZE"
    and "int (card (L \<union> fst ` set us)) < log_size (lg s) - 1" and "1 \<le> log_outstanding (lg s)"
  shows "\<exists>t. for_each us (update_block dv) s = Ok () t \<and>
    log_inv p dv \<sigma> Old (fold put_block us C) (L \<union> fst ` set us) t \<and>
    same_log (lg s) (lg t) \<and> img t = img s \<and> hist {img s} s t"
  using assms
proof (induction us arbitrary: C L s)
  case Nil
  then show ?case by (simp add: kop_simps same_log_def)
next
  case (Cons u us)
  obtain x d where u: "u = (x, d)" by (cases u)
  have un: "insert x L \<union> fst ` set us = L \<union> fst ` set (u # us)" using u by auto
  have "card L \<le> card (L \<union> fst ` set (u # us))" using log_inv_finite [OF Cons.prems(1)] by (intro card_mono) auto
  then have "int (card L) < log_size (lg s) - 1" using Cons.prems(3) by simp
  then obtain t1 where 1: "update_block dv (x, d) s = Ok () t1" "log_inv p dv \<sigma> Old (put_block u C) (insert x L) t1"
      "same_log (lg s) (lg t1)" "img t1 = img s" "hist {img s} s t1"
    using update_block_spec [OF Cons.prems(1), of x d] Cons.prems(2,4) u by (auto simp: put_block_def)
  have sz: "log_size (lg t1) = log_size (lg s)" "log_outstanding (lg t1) = log_outstanding (lg s)"
    using same_logD [OF 1(3)] by simp_all
  have "\<exists>t. for_each us (update_block dv) t1 = Ok () t \<and>
      log_inv p dv \<sigma> Old (fold put_block us (put_block u C)) (insert x L \<union> fst ` set us) t \<and>
      same_log (lg t1) (lg t) \<and> img t = img t1 \<and> hist {img t1} t1 t"
    using Cons.prems(2-4) sz un by (intro Cons.IH [OF 1(2)]) simp_all
  then obtain t where 2: "for_each us (update_block dv) t1 = Ok () t"
      "log_inv p dv \<sigma> Old (fold put_block us (put_block u C)) (insert x L \<union> fst ` set us) t"
      "same_log (lg t1) (lg t)" "img t = img t1" "hist {img t1} t1 t" by blast
  have "hist {img s} s t" using hist_trans [OF 1(5)] 2(5) 1(4) by simp
  then show ?case using 1 2 u un same_log_trans [OF 1(3) 2(3)] by (intro exI [of _ t]) (simp add: kop_simps)
qed

lemma end_op_apply:
  fixes s :: "'z lgst_scheme"
  assumes q: "quiet (mach s) p" and "\<not> log_committing (lg s)"
  defines "l \<equiv> (lg s)\<lparr>log_outstanding := log_outstanding (lg s) - 1\<rparr>"
  shows "end_op s =
    (if log_outstanding l = 0
     then thn commit (thn (acquire LkLog) (thn (upd_log (\<lambda>l. l\<lparr>log_committing := False\<rparr>)) (thn (wakeup ChLog) (release LkLog))))
       (s\<lparr>mach := m_note (mach s), lg := l\<lparr>log_committing := True\<rparr>\<rparr>)
     else Ok () (s\<lparr>mach := m_note (mach s), procs := wake_all ChLog (procs s), lg := l\<rparr>))"
  using quietD [OF q] quiet_lock [OF q, of LkLog] assms(2)
  by (simp add: end_op_def acquire_apply kop_simps wakeup_all l_def)

lemma end_op_spec:
  fixes s :: "'z lgst_scheme"
  assumes inv: "log_inv p dv \<sigma> Old C L s" and nc: "\<not> log_committing (lg s)" and out: "log_outstanding (lg s) = 1"
  shows "\<exists>t C'. end_op s = Ok () t \<and> log_inv p dv \<sigma> C' C' {} t \<and> (\<forall>m. m \<notin> log_region \<sigma> \<longrightarrow> C' m = C m) \<and>
    \<not> log_committing (lg t) \<and> log_outstanding (lg t) = 0 \<and> log_size (lg t) = log_size (lg s) \<and>
    hist {im. recovers_to \<sigma> Old im \<or> recovers_to \<sigma> C im} s t"
proof -
  let ?l = "(lg s)\<lparr>log_outstanding := 0, log_committing := True\<rparr>"
  let ?s = "s\<lparr>mach := m_note (mach s), procs := procs s, lg := ?l\<rparr>"
  have "log_inv p dv \<sigma> Old C L ?s" using log_inv_bc(1) [OF inv] by (intro log_inv_machine [OF inv]) simp_all
  then obtain n D where h: "log_shape dv \<sigma> n ?l" "L = logged n ?l" "bc p dv C D {} (pin_of L) ?s" "D \<subseteq> unat ` L"
      "hdr_n (img_block (img s) \<sigma>) = 0" "\<forall>m. m \<notin> log_region \<sigma> \<longrightarrow> img_block (img s) m = Old m" "log_size (lg s) \<le> int LOGSIZE"
    unfolding log_inv_def by auto
  obtain t1 C' where 1: "commit ?s = Ok () t1" "bc p dv C' {} {} (\<lambda>_. 0) t1" "\<forall>m. m \<notin> log_region \<sigma> \<longrightarrow> C' m = C m"
      "lg t1 = ?l\<lparr>log_lh := (log_lh ?l)\<lparr>lh_n := 0\<rparr>\<rparr>" "hdr_n (img_block (img t1) \<sigma>) = 0"
      "hist {im. recovers_to \<sigma> (img_block (img s)) im \<or> recovers_to \<sigma> C im} ?s t1"
    using log_bc.commit_spec [OF h(3), of \<sigma> n] h(1,2,4,5) by (simp add: pin_of_def [abs_def] logged_def) blast
  note q1 = bc_quiet [OF 1(2)]
  let ?t = "t1\<lparr>mach := m_note (mach t1), procs := wake_all ChLog (procs t1), lg := (lg t1)\<lparr>log_committing := False\<rparr>\<rparr>"
  have e: "end_op s = Ok () ?t"
    using end_op_apply [OF log_inv_bc(1) [OF inv] nc] out 1(1) quietD [OF q1] quiet_lock [OF q1, of LkLog]
    by (simp add: kop_simps acquire_apply wakeup_all)
  have "recovers_to \<sigma> (img_block (img s)) im = recovers_to \<sigma> Old im" for im using h(6) by (simp add: recovers_to_def)
  then have hi: "hist {im. recovers_to \<sigma> Old im \<or> recovers_to \<sigma> C im} s ?t" using 1(6) by (simp add: hist_def)
  have b: "bc p dv C' {} {} (pin_of {}) ?t"
    using bc_machine [where P = "wake_all ChLog (procs t1)", OF 1(2), of "m_note (mach t1)"] q1 bc_running [OF 1(2)]
    by (simp add: pin_of_def [abs_def])
  have "log_inv p dv \<sigma> C' C' {} ?t" unfolding log_inv_def
    using b h(1,7) 1(4,5) log_bc.clean_law [OF b] by (intro exI [of _ 0] exI [of _ "{}"]) (simp add: log_shape_def logged_def)
  then show ?thesis using e hi 1(3,4) by (intro exI [of _ ?t] exI [of _ C']) simp
qed

section \<open>A concrete disk\<close>

lemma boot_bc: "bc (Suc 0) 1 (img_block im) {} {} (\<lambda>_. 0) (boot_cache\<lparr>img := im\<rparr>)"
proof -
  have "bufs_ok 1 (img_block im) {} im ring_buf" by (simp add: bufs_ok_def ring_buf_def idle_buf_def)
  then have "cache_ok (Suc 0) 1 (img_block im) {} {} (boot_cache\<lparr>img := im\<rparr>)"
    using boot_cache_ok by (auto simp: cache_ok_def boot_cache_def io_ok_def locks_ok_def)
  then show ?thesis by (simp add: bc_def boot_cache_def ring_buf_def idle_buf_def)
qed

lemma boot_lg [simp]: "lg boot_cache = idle_log" "img boot_cache = (\<lambda>_. 0)"
  by (simp_all add: boot_cache_def boot_def)

lemma zero_block: "img_block (\<lambda>_. 0) n = replicate BSIZE 0"
  by (simp add: img_block_def map_replicate_const)

lemma hdr_n_zero [simp]: "hdr_n (replicate BSIZE 0) = 0"
  by (simp add: hdr_n_def get32_def bytes_at_def BSIZE_def numeral_eq_Suc)

lemma boot_log_inv: "log_inv (Suc 0) 1 2 (img_block (\<lambda>_. 0)) (img_block (\<lambda>_. 0)) {} boot_cache"
proof -
  have "boot_cache\<lparr>img := (\<lambda>_. 0)\<rparr> = boot_cache" by (simp add: boot_cache_def boot_def)
  from boot_bc [of "\<lambda>_. 0", unfolded this]
  have "bc (Suc 0) 1 (img_block (\<lambda>_. 0)) {} {} (pin_of {}) boot_cache" by (simp add: pin_of_def [abs_def])
  then show ?thesis unfolding log_inv_def
    by (intro exI [of _ 0] exI [of _ "{}"]) (simp add: log_shape_def logged_def idle_log_def LOGSIZE_def MAXOPBLOCKS_def zero_block)
qed

section \<open>Properties\<close>

text \<open>A system call's transaction: it updates blocks through the cache and the log, between \<^verbatim>\<open>begin_op\<close> and \<^verbatim>\<open>end_op\<close>.\<close>

definition transaction :: "uint \<Rightarrow> (uint \<times> uchar list) list \<Rightarrow> (unit, 'z lgst_scheme) kop" where
  "transaction dv us = thn begin_op (thn (for_each us (update_block dv)) end_op)"

text \<open>
  C1 (\<^verbatim>\<open>log.c\<close>): a transaction of at most \<^verbatim>\<open>MAXOPBLOCKS\<close> blocks is atomic. From an idle log it runs to its
  end, after which the disk holds its updates and the log is idle again; and every state the disk went
  through on the way, so every state a crash can leave, is one from which recovery restores either the
  contents before the transaction or those after it.
\<close>

theorem transaction_atomic:
  fixes s :: "'z lgst_scheme"
  assumes "log_inv p dv \<sigma> V V {} s" and "\<not> log_committing (lg s)" and "log_outstanding (lg s) = 0"
    and "int MAXOPBLOCKS < log_size (lg s) - 1" and "card (fst ` set us) \<le> MAXOPBLOCKS"
    and "\<forall>(x, d) \<in> set us. unat x < 2 ^ 31 \<and> unat x \<notin> log_region \<sigma> \<and> length d = BSIZE"
  shows "\<exists>t V'. transaction dv us s = Ok () t \<and> log_inv p dv \<sigma> V' V' {} t \<and>
    (\<forall>m. m \<notin> log_region \<sigma> \<longrightarrow> img_block (img t) m = fold put_block us V m) \<and>
    \<not> log_committing (lg t) \<and> log_outstanding (lg t) = 0 \<and> log_size (lg t) = log_size (lg s) \<and>
    hist {im. recovers_to \<sigma> V im \<or> recovers_to \<sigma> (fold put_block us V) im} s t"
proof -
  note b = log_inv_bc [OF assms(1)]
  let ?s = "s\<lparr>mach := m_note (mach s), procs := procs s, lg := (lg s)\<lparr>log_outstanding := 1\<rparr>\<rparr>"
  have 1: "begin_op s = Ok () ?s" using begin_op_apply [OF b(1)] b(4) assms(2,3) by (simp add: LOGSIZE_def)
  have "log_inv p dv \<sigma> V V {} ?s" using b(1) by (intro log_inv_machine [OF assms(1)]) simp_all
  from updates_spec [OF this assms(6)] obtain u where 2: "for_each us (update_block dv) ?s = Ok () u"
      "log_inv p dv \<sigma> V (fold put_block us V) (fst ` set us) u" "same_log (lg ?s) (lg u)" "img u = img s" "hist {img s} ?s u"
    using assms(4,5) by auto
  obtain t V' where 3: "end_op u = Ok () t" "log_inv p dv \<sigma> V' V' {} t" "\<forall>m. m \<notin> log_region \<sigma> \<longrightarrow> V' m = fold put_block us V m"
      "\<not> log_committing (lg t)" "log_outstanding (lg t) = 0" "log_size (lg t) = log_size (lg u)"
      "hist {im. recovers_to \<sigma> V im \<or> recovers_to \<sigma> (fold put_block us V) im} u t"
    using end_op_spec [OF 2(2)] same_logD [OF 2(3)] assms(2) by auto
  have "recovers_to \<sigma> V (img s)" using assms(1) unfolding log_inv_def by (elim exE conjE) (simp add: empty_recovers)
  then have "hist {im. recovers_to \<sigma> V im \<or> recovers_to \<sigma> (fold put_block us V) im} s u" using 2(5) by (auto simp: hist_def)
  from hist_trans [OF this 3(7)] show ?thesis
    using 1 2(1) 3 same_logD(1) [OF 2(3)] unfolding log_inv_def
    by (intro exI [of _ t] exI [of _ V']) (auto simp: transaction_def kop_simps)
qed

theorem transaction_atomic_witness:
  "\<exists>t V'. transaction 1 [(40, replicate BSIZE 1), (41, replicate BSIZE 2)] boot_cache = Ok () t \<and>
    log_inv (Suc 0) 1 2 V' V' {} t \<and> img_block (img t) 41 = replicate BSIZE 2"
proof -
  let ?us = "[(40, replicate BSIZE 1), (41, replicate BSIZE 2)] :: (uint \<times> uchar list) list"
  have "\<forall>(x, d) \<in> set ?us. unat x < 2 ^ 31 \<and> unat x \<notin> log_region 2 \<and> length d = BSIZE"
    by (simp add: log_region_def LOGSIZE_def MAXOPBLOCKS_def)
  from transaction_atomic [OF boot_log_inv _ _ _ _ this] show ?thesis
    by (auto simp: idle_log_def MAXOPBLOCKS_def log_region_def LOGSIZE_def put_block_def)
qed

text \<open>
  C2 (\<^verbatim>\<open>log.c\<close>, \<^verbatim>\<open>recover_from_log\<close>): recovery on a disk that recovers to \<open>V\<close> ends with \<open>V\<close> installed in
  place and an empty header; and every state of the disk on the way still recovers to \<open>V\<close>, so a crash
  during recovery loses nothing.
\<close>

theorem recovery_restores:
  fixes s :: "'z lgst_scheme"
  assumes "bc p dv C {} {} (\<lambda>_. 0) s" and "log_dev (lg s) = dv" and "unat (log_start (lg s)) = \<sigma>" and "\<sigma> + LOGSIZE < 2 ^ 31"
    and "length (lh_block (log_lh (lg s))) = LOGSIZE" and "recovers_to \<sigma> V (img s)"
  shows "\<exists>t. recover_from_log s = Ok () t \<and> lh_n (log_lh (lg t)) = 0 \<and> hdr_n (img_block (img t) \<sigma>) = 0 \<and>
    (\<forall>m. m \<notin> log_region \<sigma> \<longrightarrow> img_block (img t) m = V m) \<and> hist {im. recovers_to \<sigma> V im} s t"
proof -
  have v: "rec_block \<sigma> (img s) m = V m" if "m \<notin> log_region \<sigma>" for m using assms(6) that by (simp add: recovers_to_def)
  then have S: "recovers_to \<sigma> (rec_block \<sigma> (img s)) im = recovers_to \<sigma> V im" for im by (simp add: recovers_to_def)
  obtain n bl where "header_is \<sigma> (img s) n bl" "length bl = n" "n < LOGSIZE" "distinct bl"
      "\<forall>x \<in> set bl. unat x < 2 ^ 31 \<and> unat x \<notin> log_region \<sigma>"
    using assms(6) unfolding recovers_to_def header_ok_def by blast
  from log_bc.recover_spec [OF assms(1-5) this] obtain t C' where t: "recover_from_log s = Ok () t"
      "bc p dv C' {} {} (\<lambda>a. if a \<in> set bl then - 1 else 0) t" "lh_n (log_lh (lg t)) = 0" "hdr_n (img_block (img t) \<sigma>) = 0"
      "\<forall>m. m \<notin> log_region \<sigma> \<longrightarrow> C' m = rec_block \<sigma> (img s) m" "hist {im. recovers_to \<sigma> (rec_block \<sigma> (img s)) im} s t"
    by (elim exE conjE) (rule that)
  have "img_block (img t) m = V m" if "m \<notin> log_region \<sigma>" for m using log_bc.clean_law [OF t(2), of m] t(5) v that by simp
  then show ?thesis using t S by (intro exI [of _ t]) simp
qed

text \<open>A disk left by a crash after the commit point: the header names block 40, whose new contents are in the log.\<close>

definition crashed :: image where
  "crashed = img_put (img_put (\<lambda>_. 0) 3 (replicate BSIZE 7)) 2 (hdr_put (replicate BSIZE 0) 1 [40])"

lemma crashed_blocks:
  "img_block crashed 2 = hdr_put (replicate BSIZE 0) 1 [40]" "img_block crashed 3 = replicate BSIZE 7"
  "header_is 2 crashed 1 [40]"
  using hdr_put_props [where d = "replicate BSIZE 0" and n = 1 and bl = "[40]"]
  by (simp_all add: crashed_def header_is_def LOGSIZE_def MAXOPBLOCKS_def)

lemma crashed_recovers: "recovers_to 2 (rec_block 2 crashed) crashed" "rec_block 2 crashed 40 = replicate BSIZE 7"
  using crashed_blocks rec_block_logged [OF crashed_blocks(3), of 0]
  by (auto simp: recovers_to_def header_ok_def log_region_def LOGSIZE_def MAXOPBLOCKS_def intro!: exI [of _ 1] exI [of _ "[40]"])

theorem recovery_restores_witness:
  "\<exists>t. recover_from_log (boot_cache\<lparr>img := crashed\<rparr>) = Ok () t \<and> img_block (img t) 40 = replicate BSIZE 7"
  using recovery_restores [OF boot_bc [of crashed], of 2 "rec_block 2 crashed"] crashed_recovers
  by (auto simp: idle_log_def log_region_def LOGSIZE_def MAXOPBLOCKS_def)

text \<open>
  C27 (\<^verbatim>\<open>log.c\<close>, \<^verbatim>\<open>install_trans\<close>): recovery unpins blocks that nobody pinned. After it every buffer that
  caches a recovered block has the reference count \<open>2\<^sup>3\<^sup>2 - 1\<close> although nobody uses it, so \<^verbatim>\<open>bget\<close> never
  recycles it.
\<close>

theorem recovery_leaks_buffers:
  fixes s :: "'z lgst_scheme"
  assumes "bc p dv C {} {} (\<lambda>_. 0) s" and "log_dev (lg s) = dv" and "unat (log_start (lg s)) = \<sigma>" and "\<sigma> + LOGSIZE < 2 ^ 31"
    and "length (lh_block (log_lh (lg s))) = LOGSIZE" and "header_is \<sigma> (img s) n bl" and "length bl = n" and "n < LOGSIZE"
    and "distinct bl" and "\<forall>x \<in> set bl. unat x < 2 ^ 31 \<and> unat x \<notin> log_region \<sigma>"
  shows "\<exists>t. recover_from_log s = Ok () t \<and>
    (\<forall>x \<in> set bl. \<exists>b < NBUF. is_block (bufs t) dv x b \<and> unat (b_refcnt (bufs t b)) = 2 ^ 32 - 1)"
proof -
  obtain t C' where t: "recover_from_log s = Ok () t" "bc p dv C' {} {} (\<lambda>a. if a \<in> set bl then - 1 else 0) t"
    using log_bc.recover_spec [OF assms] by (elim exE conjE) (rule that)
  have "\<exists>b < NBUF. is_block (bufs t) dv x b \<and> unat (b_refcnt (bufs t b)) = 2 ^ 32 - 1" if x: "x \<in> set bl" for x
  proof -
    obtain b where b: "b < NBUF" "is_block (bufs t) dv x b" using t(2) x unfolding bc_def by force
    then have "b_refcnt (bufs t b) = - 1" using t(2) x unfolding bc_def by (auto simp: is_block_def)
    moreover have "unat (- 1 :: uint) = 2 ^ 32 - 1" by (simp add: unat_eq_nat_uint uint_word_ariths)
    ultimately show ?thesis using b by metis
  qed
  then show ?thesis using t(1) by blast
qed

theorem recovery_leaks_buffers_witness:
  "\<exists>t. recover_from_log (boot_cache\<lparr>img := crashed\<rparr>) = Ok () t \<and>
    (\<exists>b < NBUF. is_block (bufs t) 1 40 b \<and> unat (b_refcnt (bufs t b)) = 2 ^ 32 - 1)"
  using recovery_leaks_buffers [OF boot_bc [of crashed], where \<sigma> = 2 and n = 1 and bl = "[40]"] crashed_blocks(3)
  by (auto simp: idle_log_def log_region_def LOGSIZE_def MAXOPBLOCKS_def)


definition full_log :: klog where
  "full_log = idle_log\<lparr>log_outstanding := 3, log_lh := \<lparr>lh_n = 29, lh_block = map word_of_nat [100..<130]\<rparr>\<rparr>"


end
