(* ===== verification/User.thy ===== *)
theory User
  imports Sysfile
begin

text \<open>
  User programs and the user library (\<^verbatim>\<open>user/user.h\<close>, \<^verbatim>\<open>ulib.c\<close>, \<^verbatim>\<open>printf.c\<close>). A program is a tree of
  system calls: a node is a call with its arguments, and its branches are what the program does for each
  answer of the kernel, so \<^verbatim>\<open>fork\<close> has the parent and the child among its branches. \<open>UExit\<close> is the
  \<^verbatim>\<open>exit\<close> system call, \<open>UFault\<close> what C leaves undefined, \<open>UHang\<close> the end of the fuel of a loop that reads
  until the kernel says stop. Strings are lists of bytes without the final nul.
\<close>

section \<open>System calls\<close>

datatype ureq =
    ReqFork | ReqWait | ReqPipe | ReqWrite int "uchar list" | ReqRead int int | ReqClose int | ReqKill int
  | ReqExec "uchar list" "uchar list list" | ReqOpen "uchar list" int | ReqMknod "uchar list" int int
  | ReqUnlink "uchar list" | ReqFstat int | ReqLink "uchar list" "uchar list" | ReqMkdir "uchar list"
  | ReqChdir "uchar list" | ReqDup int | ReqGetpid | ReqSbrk int | ReqSleep int | ReqUptime

text \<open>
  The answer to a call: the value in \<^verbatim>\<open>a0\<close> and what the kernel copied out: the bytes read, the two
  descriptors of a pipe, the exit status of a child, the \<^verbatim>\<open>struct stat\<close> of a file.
\<close>

record uresp =
  r_val :: int
  r_bytes :: "uchar list"
  r_fds :: "int \<times> int"
  r_status :: int
  r_stat :: stat

datatype 'a uop = URet 'a | UExit int | UCall ureq "uresp \<Rightarrow> 'a uop" | UFault | UHang

primrec ubnd :: "'a uop \<Rightarrow> ('a \<Rightarrow> 'b uop) \<Rightarrow> 'b uop" where
  "ubnd (URet a) f = f a"
| "ubnd (UExit n) f = UExit n"
| "ubnd (UCall r k) f = UCall r (\<lambda>x. ubnd (k x) f)"
| "ubnd UFault f = UFault"
| "ubnd UHang f = UHang"

definition uthn :: "'a uop \<Rightarrow> 'b uop \<Rightarrow> 'b uop" where
  "uthn m k = ubnd m (\<lambda>_. k)"

fun ueach :: "'a list \<Rightarrow> ('a \<Rightarrow> unit uop) \<Rightarrow> unit uop" where
  "ueach [] f = URet ()"
| "ueach (x # xs) f = uthn (f x) (ueach xs f)"

definition fork_u :: "int uop" where "fork_u = UCall ReqFork (\<lambda>r. URet (r_val r))"
definition exit_u :: "int \<Rightarrow> 'a uop" where "exit_u n = UExit n"
definition wait_u :: "(int \<times> int) uop" where "wait_u = UCall ReqWait (\<lambda>r. URet (r_val r, r_status r))"
definition pipe_u :: "(int \<times> int \<times> int) uop" where "pipe_u = UCall ReqPipe (\<lambda>r. URet (r_val r, r_fds r))"
definition write_u :: "int \<Rightarrow> uchar list \<Rightarrow> int uop" where "write_u fd bs = UCall (ReqWrite fd bs) (\<lambda>r. URet (r_val r))"
definition read_u :: "int \<Rightarrow> int \<Rightarrow> (int \<times> uchar list) uop" where
  "read_u fd n = UCall (ReqRead fd n) (\<lambda>r. URet (r_val r, r_bytes r))"
definition close_u :: "int \<Rightarrow> int uop" where "close_u fd = UCall (ReqClose fd) (\<lambda>r. URet (r_val r))"
definition kill_u :: "int \<Rightarrow> int uop" where "kill_u p = UCall (ReqKill p) (\<lambda>r. URet (r_val r))"
definition exec_u :: "uchar list \<Rightarrow> uchar list list \<Rightarrow> int uop" where
  "exec_u path argv = UCall (ReqExec path argv) (\<lambda>r. URet (r_val r))"
definition open_u :: "uchar list \<Rightarrow> int \<Rightarrow> int uop" where "open_u path mode = UCall (ReqOpen path mode) (\<lambda>r. URet (r_val r))"
definition mknod_u :: "uchar list \<Rightarrow> int \<Rightarrow> int \<Rightarrow> int uop" where
  "mknod_u path ma mi = UCall (ReqMknod path ma mi) (\<lambda>r. URet (r_val r))"
definition unlink_u :: "uchar list \<Rightarrow> int uop" where "unlink_u path = UCall (ReqUnlink path) (\<lambda>r. URet (r_val r))"
definition fstat_u :: "int \<Rightarrow> (int \<times> stat) uop" where "fstat_u fd = UCall (ReqFstat fd) (\<lambda>r. URet (r_val r, r_stat r))"
definition link_u :: "uchar list \<Rightarrow> uchar list \<Rightarrow> int uop" where "link_u p q = UCall (ReqLink p q) (\<lambda>r. URet (r_val r))"
definition mkdir_u :: "uchar list \<Rightarrow> int uop" where "mkdir_u path = UCall (ReqMkdir path) (\<lambda>r. URet (r_val r))"
definition chdir_u :: "uchar list \<Rightarrow> int uop" where "chdir_u path = UCall (ReqChdir path) (\<lambda>r. URet (r_val r))"
definition dup_u :: "int \<Rightarrow> int uop" where "dup_u fd = UCall (ReqDup fd) (\<lambda>r. URet (r_val r))"
definition getpid_u :: "int uop" where "getpid_u = UCall ReqGetpid (\<lambda>r. URet (r_val r))"
definition sbrk_u :: "int \<Rightarrow> int uop" where "sbrk_u n = UCall (ReqSbrk n) (\<lambda>r. URet (r_val r))"
definition sleep_u :: "int \<Rightarrow> int uop" where "sleep_u n = UCall (ReqSleep n) (\<lambda>r. URet (r_val r))"
definition uptime_u :: "int uop" where "uptime_u = UCall ReqUptime (\<lambda>r. URet (r_val r))"

lemmas ucall_defs = fork_u_def exit_u_def wait_u_def pipe_u_def write_u_def read_u_def close_u_def kill_u_def exec_u_def
  open_u_def mknod_u_def unlink_u_def fstat_u_def link_u_def mkdir_u_def chdir_u_def dup_u_def getpid_u_def sbrk_u_def
  sleep_u_def uptime_u_def

section \<open>Running a program\<close>

text \<open>
  A program run against a kernel: a function that answers a call in a world and changes the world.
  The answer is \<open>None\<close> when the call does not return: the \<^verbatim>\<open>exec\<close> succeeded or the process was killed.
\<close>

datatype 'a uend = Done 'a | Exited int | Gone | Faulted | Diverged

primrec urun :: "('w \<Rightarrow> ureq \<Rightarrow> uresp option \<times> 'w) \<Rightarrow> 'a uop \<Rightarrow> 'w \<Rightarrow> 'a uend \<times> 'w" where
  "urun kn (URet a) w = (Done a, w)"
| "urun kn (UExit n) w = (Exited n, w)"
| "urun kn (UCall r k) w =
     (case kn w r of (Some x, w') \<Rightarrow> urun kn (k x) w' | (None, w') \<Rightarrow> (Gone, w'))"
| "urun kn UFault w = (Faulted, w)"
| "urun kn UHang w = (Diverged, w)"

primrec uend_then :: "'a uend \<times> 'w \<Rightarrow> ('a \<Rightarrow> 'w \<Rightarrow> 'b uend \<times> 'w) \<Rightarrow> 'b uend \<times> 'w" where
  "uend_then (e, w) f = (case e of Done a \<Rightarrow> f a w | Exited n \<Rightarrow> (Exited n, w) | Gone \<Rightarrow> (Gone, w)
     | Faulted \<Rightarrow> (Faulted, w) | Diverged \<Rightarrow> (Diverged, w))"

lemma urun_bnd: "urun kn (ubnd m f) w = uend_then (urun kn m w) (\<lambda>a. urun kn (f a))"
  by (induction m arbitrary: w) (auto split: prod.splits option.splits)

lemma urun_thn: "urun kn (uthn m k) w = uend_then (urun kn m w) (\<lambda>_. urun kn k)"
  by (simp add: uthn_def urun_bnd)

lemma ubnd_assoc: "ubnd (ubnd m f) g = ubnd m (\<lambda>a. ubnd (f a) g)"
  by (induction m) auto

section \<open>ulib.c\<close>

text \<open>
  The string routines get the bytes a pointer points at as a function of the offset; \<^verbatim>\<open>memset\<close> and
  \<^verbatim>\<open>memmove\<close> work on the memory of the process.
\<close>

partial_function (option) strcpy_loop :: "cptr \<Rightarrow> nat \<Rightarrow> uchar list option" where
  "strcpy_loop t i =
     (if t i \<noteq> 0 then Option.bind (strcpy_loop t (i + 1)) (\<lambda>r. Some (t i # r)) else Some [0])"

definition strcpy :: "cptr \<Rightarrow> uchar list option" where
  "strcpy t = strcpy_loop t 0"

partial_function (option) strcmp_loop :: "cptr \<Rightarrow> cptr \<Rightarrow> nat \<Rightarrow> int option" where
  "strcmp_loop p q i = (if p i \<noteq> 0 \<and> p i = q i then strcmp_loop p q (i + 1) else Some (uint (p i) - uint (q i)))"

definition strcmp :: "cptr \<Rightarrow> cptr \<Rightarrow> int option" where
  "strcmp p q = strcmp_loop p q 0"

partial_function (option) strlen_u_loop :: "cptr \<Rightarrow> nat \<Rightarrow> nat option" where
  "strlen_u_loop s n = (if s n \<noteq> 0 then strlen_u_loop s (n + 1) else Some n)"

definition strlen_u :: "cptr \<Rightarrow> nat option" where
  "strlen_u s = strlen_u_loop s 0"

definition memset_u :: "addr \<Rightarrow> int \<Rightarrow> uint \<Rightarrow> memory \<Rightarrow> memory" where
  "memset_u dst c n m = fold (\<lambda>i m. m(dst + of_nat i := of_int c)) [0..<unat n] m"

text \<open>The result of \<^verbatim>\<open>strchr\<close> is the suffix that starts at the character, or no suffix.\<close>

fun strchr :: "uchar list \<Rightarrow> uchar \<Rightarrow> uchar list option" where
  "strchr [] c = None"
| "strchr (x # xs) c = (if x = c then Some (x # xs) else strchr xs c)"

fun gets_loop :: "nat \<Rightarrow> uchar list \<Rightarrow> uchar list uop" where
  "gets_loop 0 acc = URet acc"
| "gets_loop (Suc n) acc =
     ubnd (read_u 0 1) (\<lambda>(cc, bs).
     if cc < 1 then URet acc
     else if hd bs = 10 \<or> hd bs = 13 then URet (acc @ [hd bs])
     else gets_loop n (acc @ [hd bs]))"

definition gets_u :: "int \<Rightarrow> uchar list uop" where
  "gets_u max' = gets_loop (nat (max' - 1)) []"

definition stat_u :: "uchar list \<Rightarrow> (int \<times> stat option) uop" where
  "stat_u n =
     ubnd (open_u n O_RDONLY) (\<lambda>fd.
     if fd < 0 then URet (- 1, None)
     else ubnd (fstat_u fd) (\<lambda>(r, st).
          uthn (close_u fd) (URet (r, if r < 0 then None else Some st))))"

text \<open>\<^verbatim>\<open>atoi\<close> computes in a C \<^verbatim>\<open>int\<close>; a number that overflows is undefined, which is \<open>None\<close>.\<close>

fun atoi_loop :: "uchar list \<Rightarrow> int \<Rightarrow> int option" where
  "atoi_loop [] n = Some n"
| "atoi_loop (c # s) n =
     (if 48 \<le> c \<and> c \<le> 57
      then if n * 10 + uint c < 2 ^ 31 then atoi_loop s (n * 10 + uint c - 48) else None
      else Some n)"

definition atoi :: "uchar list \<Rightarrow> int option" where
  "atoi s = atoi_loop s 0"

definition memmove_u :: "addr \<Rightarrow> addr \<Rightarrow> int \<Rightarrow> memory \<Rightarrow> memory" where
  "memmove_u dst src n m =
     (if src > dst
      then fold (\<lambda>i m. m(dst + of_nat i := m (src + of_nat i))) [0..<nat n] m
      else fold (\<lambda>i m. m(dst + of_nat i := m (src + of_nat i))) (rev [0..<nat n]) m)"

fun memcmp_u_loop :: "cptr \<Rightarrow> cptr \<Rightarrow> nat \<Rightarrow> nat \<Rightarrow> int" where
  "memcmp_u_loop p q i 0 = 0"
| "memcmp_u_loop p q i (Suc n) =
     (if p i \<noteq> q i then uint (p i) - uint (q i) else memcmp_u_loop p q (i + 1) n)"

definition memcmp_u :: "cptr \<Rightarrow> cptr \<Rightarrow> uint \<Rightarrow> int" where
  "memcmp_u v1 v2 n = memcmp_u_loop v1 v2 0 (unat n)"

definition memcpy_u :: "addr \<Rightarrow> addr \<Rightarrow> uint \<Rightarrow> memory \<Rightarrow> memory" where
  "memcpy_u dst src n = memmove_u dst src (sint n)"

section \<open>printf.c\<close>

definition udigits :: "uchar list" where
  "udigits = str ''0123456789ABCDEF''"

definition putc :: "int \<Rightarrow> uchar \<Rightarrow> unit uop" where
  "putc fd c = uthn (write_u fd [c]) (URet ())"

function udigits_of :: "nat \<Rightarrow> nat \<Rightarrow> uchar list" where
  "udigits_of base x = udigits ! (x mod base) # (if x div base = 0 \<or> base < 2 then [] else udigits_of base (x div base))"
  by pat_completeness auto

termination udigits_of
  by (relation "measure snd") (auto simp: not_less intro!: div_less_dividend intro: Nat.gr0I)

declare udigits_of.simps [simp del]

definition printint_u :: "int \<Rightarrow> uint \<Rightarrow> nat \<Rightarrow> bool \<Rightarrow> unit uop" where
  "printint_u fd xx base sign =
     (let neg = sign \<and> sint xx < 0; x = (if neg then - xx else xx) in
      ueach (rev (udigits_of base (unat x) @ (if neg then str ''-'' else []))) (putc fd))"

definition printptr_u :: "int \<Rightarrow> uint64 \<Rightarrow> unit uop" where
  "printptr_u fd x =
     uthn (putc fd 48) (
     uthn (putc fd 120)
          (ueach [0..<16] (\<lambda>i. putc fd (udigits ! unat (drop_bit 60 (push_bit (4 * i) x))))))"

text \<open>
  The arguments are those of the kernel's \<^verbatim>\<open>printf\<close>; \<open>pct\<close> is whether the variable \<^verbatim>\<open>state\<close> is \<^verbatim>\<open>'%'\<close>. An
  argument that is missing or of another type is undefined.
\<close>

fun vprintf :: "int \<Rightarrow> bool \<Rightarrow> uchar list \<Rightarrow> parg list \<Rightarrow> unit uop" where
  "vprintf fd pct [] ap = URet ()"
| "vprintf fd False (c # fmt) ap =
     (if c = 37 then vprintf fd True fmt ap else uthn (putc fd c) (vprintf fd False fmt ap))"
| "vprintf fd True (c # fmt) ap =
     (if c = of_char CHR ''d'' then
        (case ap of PInt x # ap' \<Rightarrow> uthn (printint_u fd x 10 True) (vprintf fd False fmt ap') | _ \<Rightarrow> UFault)
      else if c = of_char CHR ''l'' then
        (case ap of PPtr x # ap' \<Rightarrow> uthn (printint_u fd (ucast x) 10 False) (vprintf fd False fmt ap') | _ \<Rightarrow> UFault)
      else if c = of_char CHR ''x'' then
        (case ap of PInt x # ap' \<Rightarrow> uthn (printint_u fd x 16 False) (vprintf fd False fmt ap') | _ \<Rightarrow> UFault)
      else if c = of_char CHR ''p'' then
        (case ap of PPtr x # ap' \<Rightarrow> uthn (printptr_u fd x) (vprintf fd False fmt ap') | _ \<Rightarrow> UFault)
      else if c = of_char CHR ''s'' then
        (case ap of
           PStr q # ap' \<Rightarrow>
             uthn (ueach (case q of None \<Rightarrow> str ''(null)'' | Some t \<Rightarrow> t) (putc fd)) (vprintf fd False fmt ap')
         | _ \<Rightarrow> UFault)
      else if c = of_char CHR ''c'' then
        (case ap of PInt x # ap' \<Rightarrow> uthn (putc fd (ucast x)) (vprintf fd False fmt ap') | _ \<Rightarrow> UFault)
      else if c = 37 then uthn (putc fd c) (vprintf fd False fmt ap)
      else uthn (putc fd 37) (uthn (putc fd c) (vprintf fd False fmt ap)))"

definition fprintf :: "int \<Rightarrow> uchar list \<Rightarrow> parg list \<Rightarrow> unit uop" where
  "fprintf fd fmt ap = vprintf fd False fmt ap"

definition printf_u :: "uchar list \<Rightarrow> parg list \<Rightarrow> unit uop" where
  "printf_u fmt ap = vprintf 1 False fmt ap"

section \<open>Output\<close>

text \<open>The text \<^verbatim>\<open>printint\<close> and \<^verbatim>\<open>vprintf\<close> write.\<close>

definition uint_text :: "uint \<Rightarrow> nat \<Rightarrow> bool \<Rightarrow> uchar list" where
  "uint_text x b sign =
     (if sign \<and> sint x < 0 then str ''-'' @ rev (udigits_of b (unat (- x))) else rev (udigits_of b (unat x)))"

fun fmt_text :: "bool \<Rightarrow> uchar list \<Rightarrow> parg list \<Rightarrow> uchar list" where
  "fmt_text pct [] ap = []"
| "fmt_text False (c # fmt) ap = (if c = 37 then fmt_text True fmt ap else c # fmt_text False fmt ap)"
| "fmt_text True (c # fmt) ap =
     (case ap of
        PInt x # ap' \<Rightarrow> (if c = of_char CHR ''d'' then uint_text x 10 True else if c = of_char CHR ''x'' then uint_text x 16 False else [ucast x]) @
          fmt_text False fmt ap'
      | PStr q # ap' \<Rightarrow> (case q of None \<Rightarrow> str ''(null)'' | Some t \<Rightarrow> t) @ fmt_text False fmt ap'
      | PPtr x # ap' \<Rightarrow> uint_text (ucast x) 10 False @ fmt_text False fmt ap'
      | [] \<Rightarrow> [])"

text \<open>Formats in which each percent sign is one of \<^verbatim>\<open>%d\<close>, \<^verbatim>\<open>%x\<close>, \<^verbatim>\<open>%c\<close>, \<^verbatim>\<open>%s\<close> and \<^verbatim>\<open>%l\<close> with an argument of its type.\<close>

fun fmt_ok :: "bool \<Rightarrow> uchar list \<Rightarrow> parg list \<Rightarrow> bool" where
  "fmt_ok pct [] ap = (\<not> pct)"
| "fmt_ok False (c # fmt) ap = fmt_ok (c = 37) fmt ap"
| "fmt_ok True (c # fmt) ap =
     (case ap of
        PInt x # ap' \<Rightarrow> c \<in> {of_char CHR ''d'', of_char CHR ''x'', of_char CHR ''c''} \<and> fmt_ok False fmt ap'
      | PStr q # ap' \<Rightarrow> c = of_char CHR ''s'' \<and> fmt_ok False fmt ap'
      | PPtr x # ap' \<Rightarrow> c = of_char CHR ''l'' \<and> fmt_ok False fmt ap'
      | [] \<Rightarrow> False)"

text \<open>A kernel that takes every byte a program writes: what the programs that print rely on.\<close>

locale output_kernel =
  fixes kn :: "'w \<Rightarrow> ureq \<Rightarrow> uresp option \<times> 'w"
    and put :: "int \<Rightarrow> uchar list \<Rightarrow> 'w \<Rightarrow> 'w"
  assumes write_law: "\<exists>r. kn w (ReqWrite fd bs) = (Some r, put fd bs w)"
    and put_nil: "put fd [] w = w"
    and put_append: "put fd bs (put fd as w) = put fd (as @ bs) w"
begin

lemma run_putc: "urun kn (putc fd c) w = (Done (), put fd [c] w)"
  using write_law [of w fd "[c]"] by (auto simp: putc_def uthn_def write_u_def)

lemma run_puts: "urun kn (ueach cs (putc fd)) w = (Done (), put fd cs w)"
  by (induction cs arbitrary: w) (simp_all add: urun_thn run_putc put_nil put_append)

lemma run_printint: "urun kn (printint_u fd x b sign) w = (Done (), put fd (uint_text x b sign) w)"
  by (simp add: printint_u_def Let_def run_puts str_def uint_text_def)

lemma run_vprintf: "fmt_ok pct fmt ap \<Longrightarrow> urun kn (vprintf fd pct fmt ap) w = (Done (), put fd (fmt_text pct fmt ap) w)"
proof (induction pct fmt ap arbitrary: w rule: fmt_text.induct)
  case (2 c fmt ap)
  then show ?case by (auto simp: urun_thn run_putc put_append)
next
  case (3 c fmt ap)
  show ?case
  proof (cases ap)
    case Nil
    then show ?thesis using 3 by simp
  next
    case (Cons q ap')
    then show ?thesis using 3 by (cases q) (auto simp: urun_thn run_putc run_puts run_printint put_append)
  qed
qed (simp add: put_nil)

end

text \<open>A kernel that records what is written by descriptor, whatever number it returns.\<close>

definition uresp_of :: "int \<Rightarrow> uchar list \<Rightarrow> uresp" where
  "uresp_of v bs = \<lparr>r_val = v, r_bytes = bs, r_fds = (0, 0), r_status = 0,
     r_stat = \<lparr>st_dev = 0, st_ino = 0, st_type = 0, st_nlink = 0, st_size = 0\<rparr>\<rparr>"

lemma uresp_of_simps [simp]: "r_val (uresp_of v bs) = v" "r_bytes (uresp_of v bs) = bs"
  by (simp_all add: uresp_of_def)

definition recorder :: "int \<Rightarrow> (int \<Rightarrow> uchar list) \<Rightarrow> ureq \<Rightarrow> uresp option \<times> (int \<Rightarrow> uchar list)" where
  "recorder v w r = (case r of ReqWrite fd bs \<Rightarrow> (Some (uresp_of v []), w(fd := w fd @ bs)) | _ \<Rightarrow> (None, w))"

interpretation rec_out: output_kernel "recorder v" "\<lambda>fd bs w. w(fd := w fd @ bs)" for v
  by unfold_locales (simp_all add: recorder_def)

section \<open>Numbers\<close>

lemma udigits_nth: "d < 10 \<Longrightarrow> uint (udigits ! d) = int (48 + d)"
proof -
  have "list_all (\<lambda>d. uint (udigits ! d) = int (48 + d)) [0..<10]" by code_simp
  then show "d < 10 \<Longrightarrow> ?thesis" by (simp add: list_all_iff)
qed

lemma atoi_digit:
  assumes "d < 10" and "n * 10 + int d + 48 < 2 ^ 31"
  shows "atoi_loop ((udigits ! d) # r) n = atoi_loop r (n * 10 + int d)"
  using assms udigits_nth [OF assms(1)] by (simp add: word_le_def)

lemma atoi_udigits:
  assumes "x + 48 < 2 ^ 31"
  shows "atoi_loop (rev (udigits_of 10 x) @ r) 0 = atoi_loop r (int x)"
  using assms
proof (induction x arbitrary: r rule: less_induct)
  case (less x)
  have m: "x mod 10 < 10" by simp
  show ?case
  proof (cases "x div 10 = 0")
    case True
    then show ?thesis using atoi_digit [OF m, of 0 r] by (simp add: udigits_of.simps [of 10 x] div_eq_0_iff)
  next
    case False
    then have "x div 10 < x" by (intro div_less_dividend) (auto intro: Nat.gr0I)
    moreover have "int (x div 10) * 10 + int (x mod 10) = int x" by (metis div_mult_mod_eq mult.commute of_nat_add of_nat_mult of_nat_numeral)
    ultimately show ?thesis
      using less.IH [of "x div 10" "udigits ! (x mod 10) # r"] atoi_digit [OF m, of "int (x div 10)" r] less.prems False
      by (simp add: udigits_of.simps [of 10 x])
  qed
qed

section \<open>memmove\<close>

lemma memmove_u_copies:
  assumes "n < 2 ^ 31" and "unat src + n \<le> 2 ^ 64" and "unat dst + n \<le> 2 ^ 64"
  shows "memmove_u dst src (int n) m = mem_write m dst (mem_read m src n)"
proof -
  have d: "unat (a - b) = (if b \<le> a then unat a - unat b else 2 ^ 64 + unat a - unat b)" for a b :: addr
  proof (cases "b \<le> a")
    case False
    have "unat b < 2 ^ LENGTH(64)" by (rule unsigned_less)
    then show ?thesis using False by (simp add: unat_sub_if_size word_size word_le_nat_alt)
  qed (simp add: unat_sub)
  show ?thesis
  proof (cases "src > dst")
    case True
    then have "unat (dst - src) = 2 ^ 64 + unat dst - unat src" using d [of dst src] by (simp add: not_le [symmetric])
    then have "n \<le> unat (dst - src)" using assms(2) by linarith
    then have "\<not> (0 < unat (dst - src) \<and> unat (dst - src) < n)" by simp
    then show ?thesis using True assms(1) by (simp add: memmove_u_def copy_up)
  next
    case False
    have "n \<le> unat (src - dst)" if "src \<noteq> dst"
    proof -
      have "unat (src - dst) = 2 ^ 64 + unat src - unat dst" using that False d [of src dst] by (simp add: not_less)
      then show ?thesis using assms(3) by linarith
    qed
    then have "\<not> (0 < unat (src - dst) \<and> unat (src - dst) < n)" by (cases "src = dst") auto
    then show ?thesis using False assms(1) by (simp add: memmove_u_def copy_down)
  qed
qed

section \<open>Properties\<close>



text \<open>
  \<^verbatim>\<open>memmove\<close> of \<^verbatim>\<open>ulib.c\<close>: the user library's \<^verbatim>\<open>memmove\<close>, which chooses its direction by comparing the
  pointers, copies as if through a temporary also when the ranges overlap.
\<close>

lemma memmove_u_overlap:
  assumes "n < 2 ^ 31" and "unat src + n \<le> 2 ^ 64" and "unat dst + n \<le> 2 ^ 64"
  shows "mem_read (memmove_u dst src (int n) m) dst n = mem_read m src n \<and>
    (\<forall>x. \<not> inside x dst n \<longrightarrow> memmove_u dst src (int n) m x = m x)"
  using mem_read_write_same [of "mem_read m src n" m dst] assms(1) memmove_u_copies [OF assms, of m]
  by (simp add: mem_write_other)

end
