(* ===== verification/Umalloc.thy ===== *)
theory Umalloc
  imports User
begin

text \<open>
  The memory allocator of user programs (\<^verbatim>\<open>user/umalloc.c\<close>): a circular list of free blocks in address
  order, closed by the static header \<^verbatim>\<open>base\<close>. Addresses count headers (16 bytes). \<^verbatim>\<open>sbrk\<close> is the kernel's:
  it returns the old break, where the new memory begins, or fails; whether the next calls succeed is a
  list in the state. A request of 2 GiB or more makes \<^verbatim>\<open>sbrk\<close>'s argument overflow, and sizes computed
  from it are outside the memory of the process: that is the outcome \<open>Panic ''undefined''\<close>.
\<close>

section \<open>Model\<close>

record uheap =
  hptr :: "nat \<Rightarrow> nat"
  hsize :: "nat \<Rightarrow> uint"
  hbase :: nat
  freep :: nat
  hbrk :: nat
  grants :: "bool list"

type_synonym 'a hop = "('a, uheap) kop"

definition get_ptr :: "nat \<Rightarrow> nat hop" where "get_ptr p = gets (\<lambda>s. hptr s p)"
definition get_size :: "nat \<Rightarrow> uint hop" where "get_size p = gets (\<lambda>s. hsize s p)"
definition set_ptr :: "nat \<Rightarrow> nat \<Rightarrow> unit hop" where "set_ptr p q = modify (\<lambda>s. s\<lparr>hptr := (hptr s)(p := q)\<rparr>)"
definition set_size :: "nat \<Rightarrow> uint \<Rightarrow> unit hop" where "set_size p n = modify (\<lambda>s. s\<lparr>hsize := (hsize s)(p := n)\<rparr>)"
definition set_freep :: "nat \<Rightarrow> unit hop" where "set_freep p = modify (\<lambda>s. s\<lparr>freep := p\<rparr>)"

text \<open>The loop of \<^verbatim>\<open>free\<close>; the list has at most one node per address below the break.\<close>

fun free_slot :: "nat \<Rightarrow> nat \<Rightarrow> nat \<Rightarrow> nat hop" where
  "free_slot 0 bp p = (\<lambda>_. Hang)"
| "free_slot (Suc k) bp p =
     bnd (get_ptr p) (\<lambda>q.
     if bp > p \<and> bp < q then ret p
     else if p \<ge> q \<and> (bp > p \<or> bp < q) then ret p
     else free_slot k bp q)"

definition free :: "nat \<Rightarrow> unit hop" where
  "free ap =
     (let bp = ap - 1 in
      bnd (gets hbrk) (\<lambda>brk.
      bnd (gets freep) (\<lambda>f.
      bnd (free_slot (brk + 1) bp f) (\<lambda>p.
      bnd (get_ptr p) (\<lambda>q.
      bnd (get_size bp) (\<lambda>n.
      thn (if bp + unat n = q
           then bnd (get_size q) (\<lambda>k.
                thn (set_size bp (n + k)) (
                bnd (get_ptr q) (set_ptr bp)))
           else set_ptr bp q) (
      bnd (get_size p) (\<lambda>m.
      thn (if p + unat m = bp
           then bnd (get_size bp) (\<lambda>n.
                thn (set_size p (m + n)) (
                bnd (get_ptr bp) (set_ptr p)))
           else set_ptr p bp)
          (set_freep p)))))))))"

definition sbrk_h :: "nat \<Rightarrow> nat option hop" where
  "sbrk_h nu =
     (if 16 * nu \<ge> 2 ^ 31 then kpanic ''undefined''
      else bnd (gets grants) (\<lambda>g. case g of
          [] \<Rightarrow> ret None
        | ok # g' \<Rightarrow>
            bnd (gets hbrk) (\<lambda>old.
            thn (modify (\<lambda>s. s\<lparr>grants := g', hbrk := (if ok then old + nu else old)\<rparr>))
                (ret (if ok then Some old else None)))))"

definition morecore :: "uint \<Rightarrow> nat hop" where
  "morecore nu =
     (let nu = (if nu < 4096 then 4096 else nu) in
      bnd (sbrk_h (unat nu)) (\<lambda>r. case r of
        None \<Rightarrow> ret 0
      | Some hp \<Rightarrow> thn (set_size hp nu) (thn (free (hp + 1)) (gets freep))))"

text \<open>The loop of \<^verbatim>\<open>malloc\<close> goes round the list at most twice: once before and once after \<^verbatim>\<open>morecore\<close>.\<close>

fun malloc_loop :: "nat \<Rightarrow> uint \<Rightarrow> nat \<Rightarrow> nat \<Rightarrow> nat hop" where
  "malloc_loop 0 nunits prevp p = (\<lambda>_. Hang)"
| "malloc_loop (Suc k) nunits prevp p =
     bnd (get_size p) (\<lambda>n.
     if n \<ge> nunits
     then bnd (if n = nunits
               then thn (bnd (get_ptr p) (set_ptr prevp)) (ret p)
               else thn (set_size p (n - nunits)) (
                    thn (set_size (p + unat (n - nunits)) nunits)
                        (ret (p + unat (n - nunits))))) (\<lambda>p.
          thn (set_freep prevp) (ret (p + 1)))
     else bnd (gets freep) (\<lambda>f.
          if p = f
          then bnd (morecore nunits) (\<lambda>p.
               if p = 0 then ret 0
               else bnd (get_ptr p) (\<lambda>q. malloc_loop k nunits p q))
          else bnd (get_ptr p) (\<lambda>q. malloc_loop k nunits p q)))"

definition malloc :: "uint \<Rightarrow> nat hop" where
  "malloc nbytes =
     (let nunits = of_nat ((unat nbytes + 16 - 1) div 16 + 1) in
      bnd (gets freep) (\<lambda>f.
      bnd (if f = 0
           then bnd (gets hbase) (\<lambda>base.
                thn (set_ptr base base) (thn (set_freep base) (thn (set_size base 0) (ret base))))
           else ret f) (\<lambda>prevp.
      bnd (gets hbrk) (\<lambda>brk.
      bnd (get_ptr prevp) (\<lambda>p. malloc_loop (2 * brk + 4) nunits prevp p)))))"

section \<open>Rings of addresses\<close>

text \<open>The nodes of a circular list in address order: each points at the next higher node, the last at the lowest.\<close>

definition above :: "nat set \<Rightarrow> nat \<Rightarrow> nat set" where
  "above N p = {q \<in> N. p < q}"

definition ring :: "nat set \<Rightarrow> nat \<Rightarrow> (nat \<Rightarrow> nat) \<Rightarrow> bool" where
  "ring N b f \<longleftrightarrow> finite N \<and> b \<in> N \<and> (\<forall>x \<in> N. b \<le> x) \<and>
     (\<forall>x \<in> N. f x = (if above N x = {} then b else Min (above N x)))"

text \<open>The nodes from \<open>p\<close> on round the ring to \<open>t\<close>.\<close>

definition arc :: "nat set \<Rightarrow> nat \<Rightarrow> nat \<Rightarrow> nat set" where
  "arc N p t = (if p \<le> t then {q \<in> N. p \<le> q \<and> q \<le> t} else {q \<in> N. p \<le> q \<or> q \<le> t})"

lemma ringD:
  assumes "ring N b f"
  shows "finite N" and "b \<in> N" and "x \<in> N \<Longrightarrow> b \<le> x"
  using assms by (auto simp: ring_def)

lemma ring_next:
  assumes "ring N b f" and "x \<in> N"
  shows "f x \<in> N \<and> (if above N x = {} then f x = b else x < f x \<and> (\<forall>z \<in> N. x < z \<longrightarrow> f x \<le> z))"
proof (cases "above N x = {}")
  case True
  then show ?thesis using assms by (simp add: ring_def)
next
  case False
  have fin: "finite (above N x)" using assms by (simp add: ring_def above_def)
  have "f x = Min (above N x)" using assms False by (simp add: ring_def)
  then show ?thesis using Min_in [OF fin False] Min_le [OF fin] False by (auto simp: above_def)
qed

lemma ringI:
  assumes "finite N" and "b \<in> N" and "\<And>x. x \<in> N \<Longrightarrow> b \<le> x"
    and "\<And>x. x \<in> N \<Longrightarrow> f x \<in> N \<and> (x < f x \<and> (\<forall>z \<in> N. x < z \<longrightarrow> f x \<le> z) \<or> f x = b \<and> (\<forall>z \<in> N. z \<le> x))"
  shows "ring N b f"
proof -
  have "f x = (if above N x = {} then b else Min (above N x))" if x: "x \<in> N" for x
  proof (cases "above N x = {}")
    case True
    then show ?thesis using assms(4) [OF x] by (auto simp: above_def)
  next
    case False
    then have "x < f x" "\<forall>z \<in> N. x < z \<longrightarrow> f x \<le> z" "f x \<in> N" using assms(4) [OF x] by (auto simp: above_def)
    then have "Min (above N x) = f x" using assms(1) by (intro Min_eqI) (auto simp: above_def)
    then show ?thesis using False by simp
  qed
  then show ?thesis using assms by (simp add: ring_def)
qed

lemma ring_insert:
  assumes r: "ring N b f" and p: "p \<in> N" "p < x" "\<forall>z \<in> N. z < x \<longrightarrow> z \<le> p" and x: "x \<notin> N"
  shows "ring (insert x N) b (f(x := f p, p := x))"
proof (rule ringI)
  show "finite (insert x N)" "b \<in> insert x N" using ringD [OF r] by auto
  show "b \<le> y" if "y \<in> insert x N" for y using that ringD(3) [OF r] p by (auto intro: le_less_trans less_imp_le)
  fix y assume y: "y \<in> insert x N"
  note np = ring_next [OF r p(1)]
  have gt: "x < z" if "z \<in> N" "p < z" for z using that p(3) x by (metis leD linorder_neqE_nat)
  let ?f = "f(x := f p, p := x)"
  consider "y = p" | "y = x" | "y \<in> N" "y \<noteq> p" "y \<noteq> x" using y by auto
  then show "?f y \<in> insert x N \<and> (y < ?f y \<and> (\<forall>z \<in> insert x N. y < z \<longrightarrow> ?f y \<le> z) \<or> ?f y = b \<and> (\<forall>z \<in> insert x N. z \<le> y))"
  proof cases
    case 1
    then show ?thesis using p gt by (auto intro: less_imp_le)
  next
    case 2
    show ?thesis
    proof (cases "above N p = {}")
      case True
      then show ?thesis using 2 np p by (auto simp: above_def not_less intro: less_imp_le le_trans)
    next
      case False
      then show ?thesis using 2 np p gt by (auto split: if_splits)
    qed
  next
    case 3
    note ny = ring_next [OF r 3(1)]
    show ?thesis
    proof (cases "y < p")
      case True
      then have "above N y \<noteq> {}" using p(1) by (auto simp: above_def)
      then show ?thesis using 3 ny p True by (auto split: if_splits intro: le_trans less_imp_le)
    next
      case False
      then have "x < y" using 3 gt by auto
      then show ?thesis using 3 ny by (auto simp: above_def split: if_splits)
    qed
  qed
qed

lemma ring_remove:
  assumes r: "ring N b f" and x: "x \<in> N" "x \<noteq> b" and p: "p \<in> N" "f p = x"
  shows "ring (N - {x}) b (f(p := f x))"
proof (rule ringI)
  show "finite (N - {x})" "b \<in> N - {x}" using ringD [OF r] x by auto
  show "b \<le> y" if "y \<in> N - {x}" for y using that ringD(3) [OF r] by auto
  note np = ring_next [OF r p(1)] and nx = ring_next [OF r x(1)]
  have px: "p < x" "\<forall>z \<in> N. p < z \<longrightarrow> x \<le> z" using np p(2) x(2) by (auto split: if_splits)
  fix y assume y: "y \<in> N - {x}"
  note ny = ring_next [OF r, of y]
  let ?f = "f(p := f x)"
  have fx: "f x \<noteq> x" using nx x(2) by (auto split: if_splits)
  show "?f y \<in> N - {x} \<and> (y < ?f y \<and> (\<forall>z \<in> N - {x}. y < z \<longrightarrow> ?f y \<le> z) \<or> ?f y = b \<and> (\<forall>z \<in> N - {x}. z \<le> y))"
  proof (cases "y = p")
    case True
    show ?thesis
    proof (cases "above N x = {}")
      case True
      then have "z \<le> p" if "z \<in> N - {x}" for z using that px(2) by (force simp: above_def not_less)
      then show ?thesis using \<open>y = p\<close> nx fx True by auto
    next
      case False
      then show ?thesis using \<open>y = p\<close> nx fx px by (auto split: if_splits)
    qed
  next
    case False
    have "f y \<noteq> x"
    proof
      assume "f y = x"
      then have "y < x" "\<forall>z \<in> N. y < z \<longrightarrow> x \<le> z" using ny y x(2) by (auto split: if_splits)
      then show False using px p(1) y False by (metis DiffD1 leD linorder_neqE_nat)
    qed
    then show ?thesis using False ny y by (auto simp: above_def not_less split: if_splits)
  qed
qed

lemma arc_self: "t \<in> N \<Longrightarrow> arc N t t = {t}"
  by (auto simp: arc_def)

lemma arc_sub: "arc N p t \<subseteq> N"
  by (auto simp: arc_def)

lemma arc_mem: "p \<in> N \<Longrightarrow> p \<in> arc N p t"
  by (simp add: arc_def)

lemma arc_step:
  assumes "ring N b f" and "p \<in> N" and "t \<in> N" and "p \<noteq> t"
  shows "arc N (f p) t = arc N p t - {p}"
proof (cases "above N p = {}")
  case True
  then have "f p = b" "t < p" "b \<le> t" "\<forall>z \<in> N. z \<le> p \<and> b \<le> z"
    using ring_next [OF assms(1,2)] ringD [OF assms(1)] assms(3,4) by (auto simp: above_def not_less)
  then show ?thesis by (auto simp: arc_def)
next
  case False
  then have n: "p < f p" "\<forall>z \<in> N. p < z \<longrightarrow> f p \<le> z" using ring_next [OF assms(1,2)] by auto
  have iff: "(f p \<le> z) = (p \<le> z \<and> z \<noteq> p)" if "z \<in> N" for z using n that by (metis leD le_less less_le_trans)
  show ?thesis
  proof (cases "p < t")
    case True
    then show ?thesis using n iff assms(3) by (auto simp: arc_def)
  next
    case False
    then have "t < p" "\<not> f p \<le> t" using assms(4) n by auto
    then show ?thesis using iff by (auto simp: arc_def)
  qed
qed

lemma arc_full:
  assumes "ring N b f" and "t \<in> N"
  shows "arc N (f t) t = N"
proof (cases "above N t = {}")
  case True
  then have "f t = b" "\<forall>z \<in> N. z \<le> t \<and> b \<le> z"
    using ring_next [OF assms] ringD [OF assms(1)] by (auto simp: above_def not_less)
  then show ?thesis using assms(2) by (auto simp: arc_def)
next
  case False
  then have n: "t < f t" "\<forall>z \<in> N. t < z \<longrightarrow> f t \<le> z" using ring_next [OF assms] by auto
  then show ?thesis by (auto simp: arc_def)
qed

lemma free_slot_spec:
  assumes r: "ring N b (hptr s)" and t: "t \<in> N" "t < x" "\<forall>z \<in> N. z < x \<longrightarrow> z \<le> t" and x: "x \<notin> N"
    and "p \<in> N" and "card (arc N p t) \<le> k"
  shows "free_slot k x p s = Ok t s"
  using assms(6,7)
proof (induction k arbitrary: p)
  case 0
  have "finite (arc N p t)" using ringD(1) [OF r] by (simp add: arc_def)
  then show ?case using 0 arc_mem [of p N t] by (auto simp: card_gt_0_iff)
next
  case (Suc k)
  have b: "b \<le> t" using ringD(3) [OF r t(1)] .
  note np = ring_next [OF r Suc.prems(1)]
  show ?case
  proof (cases "p = t")
    case True
    show ?thesis
    proof (cases "above N t = {}")
      case True
      then show ?thesis using \<open>p = t\<close> np t(2) b by (simp add: get_ptr_def kop_simps)
    next
      case False
      then have "t < hptr s t" "hptr s t \<in> N" using np \<open>p = t\<close> by auto
      then have "x < hptr s t" using t(3) x by (metis leD linorder_neqE_nat)
      then show ?thesis using \<open>p = t\<close> t(2) by (simp add: get_ptr_def kop_simps)
    qed
  next
    case False
    have go: "\<not> (p < x \<and> x < hptr s p)" "\<not> (hptr s p \<le> p \<and> (p < x \<or> x < hptr s p))"
    proof -
      have "\<not> p < t" if "above N p = {}" using that t(1) by (auto simp: above_def)
      moreover have "x < p" if "t < p" using that t(3) x Suc.prems(1) by (metis leD linorder_neqE_nat)
      ultimately show "\<not> (p < x \<and> x < hptr s p)" "\<not> (hptr s p \<le> p \<and> (p < x \<or> x < hptr s p))"
        using np t b False by (cases "p < t"; auto split: if_splits)+
    qed
    have "finite (arc N p t)" using ringD(1) [OF r] by (simp add: arc_def)
    then have "card (arc N (hptr s p) t) \<le> k"
      using arc_step [OF r Suc.prems(1) t(1) False] arc_mem [OF Suc.prems(1), of t] Suc.prems(2) by simp
    then have "free_slot k x (hptr s p) s = Ok t s" using np by (intro Suc.IH) simp_all
    then show ?thesis using go by (auto simp: get_ptr_def kop_simps)
  qed
qed

section \<open>Freeing\<close>

definition link :: "nat \<Rightarrow> nat \<Rightarrow> uheap \<Rightarrow> uheap" where
  "link p x s = s\<lparr>hptr := (hptr s)(x := hptr s p, p := x)\<rparr>"

definition merge :: "nat \<Rightarrow> uheap \<Rightarrow> uheap" where
  "merge u s = s\<lparr>hptr := (hptr s)(u := hptr s (hptr s u)), hsize := (hsize s)(u := hsize s u + hsize s (hptr s u))\<rparr>"

lemma free_apply:
  assumes "free_slot (hbrk s + 1) x (freep s) s = Ok p s" and "p < x" and "hptr s p \<noteq> x"
  shows "free (x + 1) s = Ok () (
    let s1 = link p x s;
        s2 = (if x + unat (hsize s x) = hptr s p then merge x s1 else s1);
        s3 = (if p + unat (hsize s p) = x then merge p s2 else s2) in s3\<lparr>freep := p\<rparr>)"
  using assms
  by (simp add: free_def Let_def kop_simps get_ptr_def get_size_def set_ptr_def set_size_def set_freep_def link_def merge_def fun_upd_twist)

text \<open>
  The shape of the heap: \<open>N\<close> are the nodes of the free list, \<open>A\<close> the headers of the blocks in use. Blocks lie
  between \<^verbatim>\<open>base\<close> and the break and do not overlap; free blocks do not even touch.
\<close>

definition sz :: "uheap \<Rightarrow> nat \<Rightarrow> nat" where
  "sz s x = unat (hsize s x)"

definition blocks_ok :: "uheap \<Rightarrow> nat set \<Rightarrow> nat set \<Rightarrow> bool" where
  "blocks_ok s N A \<longleftrightarrow> ring N (hbase s) (hptr s) \<and> 0 < hbase s \<and> hsize s (hbase s) = 0 \<and> hbase s \<notin> A \<and> N \<inter> A = {} \<and>
     hbrk s < 2 ^ 32 \<and> hbase s < hbrk s \<and>
     (\<forall>x \<in> N \<union> A. hbase s \<le> x \<and> x + sz s x \<le> hbrk s \<and> (x \<noteq> hbase s \<longrightarrow> 0 < sz s x)) \<and>
     (\<forall>x \<in> N \<union> A. \<forall>y \<in> N \<union> A. x < y \<longrightarrow> x + sz s x \<le> y)"

definition touch :: "uheap \<Rightarrow> nat set \<Rightarrow> nat set" where
  "touch s N = {u \<in> N. sz s u \<noteq> 0 \<and> u + sz s u \<in> N}"

definition free_cells :: "uheap \<Rightarrow> nat set \<Rightarrow> nat set" where
  "free_cells s N = (\<Union>x \<in> N. {x..<x + sz s x})"

lemma free_cells_insert: "free_cells s (insert x M) = {x..<x + sz s x} \<union> free_cells s M"
  by (simp add: free_cells_def)

lemma blocks_okD:
  assumes "blocks_ok s N A"
  shows "ring N (hbase s) (hptr s)" and "0 < hbase s" and "hsize s (hbase s) = 0" and "hbase s \<notin> A" and "N \<inter> A = {}"
    and "hbrk s < 2 ^ 32" and "\<And>x. x \<in> N \<union> A \<Longrightarrow> hbase s \<le> x \<and> x + sz s x \<le> hbrk s \<and> (x \<noteq> hbase s \<longrightarrow> 0 < sz s x)"
    and "\<And>x y. x \<in> N \<union> A \<Longrightarrow> y \<in> N \<union> A \<Longrightarrow> x < y \<Longrightarrow> x + sz s x \<le> y"
    and "hbase s < hbrk s"
  using assms unfolding blocks_ok_def by blast+

lemma link_simps [simp]:
  "hbase (link p x s) = hbase s" "hsize (link p x s) = hsize s" "hbrk (link p x s) = hbrk s" "grants (link p x s) = grants s"
  "freep (link p x s) = freep s" "sz (link p x s) = sz s" "hptr (link p x s) = (hptr s)(x := hptr s p, p := x)"
  by (simp_all add: link_def sz_def [abs_def])

lemma merge_simps [simp]:
  "hbase (merge u s) = hbase s" "hbrk (merge u s) = hbrk s" "grants (merge u s) = grants s" "freep (merge u s) = freep s"
  "hptr (merge u s) = (hptr s)(u := hptr s (hptr s u))" "x \<noteq> u \<Longrightarrow> hsize (merge u s) x = hsize s x" "x \<noteq> u \<Longrightarrow> sz (merge u s) x = sz s x"
  by (simp_all add: merge_def sz_def)

lemma link_ok:
  assumes ok: "blocks_ok s N A" and x: "x \<in> A" and p: "p \<in> N" "p < x" "\<forall>z \<in> N. z < x \<longrightarrow> z \<le> p"
  shows "blocks_ok (link p x s) (insert x N) (A - {x})"
    and "touch (link p x s) (insert x N) \<subseteq>
      touch s N \<union> (if x + sz s x = hptr s p then {x} else {}) \<union> (if p + sz s p = x then {p} else {})"
    and "free_cells (link p x s) (insert x N) = free_cells s N \<union> {x..<x + sz s x}"
    and "hptr s p \<noteq> x"
proof -
  note o = blocks_okD [OF ok] and np = ring_next [OF blocks_okD(1) [OF ok] p(1)]
  have xN: "x \<notin> N" using o(5) x by blast
  have un: "insert x N \<union> (A - {x}) = N \<union> A" using x by blast
  have "ring (insert x N) (hbase s) ((hptr s)(x := hptr s p, p := x))" by (rule ring_insert [OF o(1) p xN])
  then show "blocks_ok (link p x s) (insert x N) (A - {x})" using ok unfolding blocks_ok_def link_simps un by auto
  show q: "hptr s p \<noteq> x" using np xN by auto
  show "free_cells (link p x s) (insert x N) = free_cells s N \<union> {x..<x + sz s x}" by (auto simp: free_cells_def)
  show "touch (link p x s) (insert x N) \<subseteq>
      touch s N \<union> (if x + sz s x = hptr s p then {x} else {}) \<union> (if p + sz s p = x then {p} else {})"
  proof
    fix u assume "u \<in> touch (link p x s) (insert x N)"
    then have u: "u \<in> insert x N" "sz s u \<noteq> 0" "u + sz s u \<in> insert x N" by (auto simp: touch_def)
    consider "u = x" | "u \<in> N" "u + sz s u = x" | "u \<in> N" "u + sz s u \<in> N" using u by blast
    then show "u \<in> touch s N \<union> (if x + sz s x = hptr s p then {x} else {}) \<union> (if p + sz s p = x then {p} else {})"
    proof cases
      case 1
      have v: "x + sz s x \<in> N" "x < x + sz s x" using u 1 by auto
      then have "p < x + sz s x" using p(2) by simp
      then have "above N p \<noteq> {}" using v by (auto simp: above_def)
      then have h: "p < hptr s p" "hptr s p \<le> x + sz s x" "hptr s p \<in> N" using np v \<open>p < x + sz s x\<close> by auto
      then have "x < hptr s p" using p(3) q by (metis leD linorder_neqE_nat)
      then have "x + sz s x \<le> hptr s p" using o(8) [of x "hptr s p"] x h(3) by simp
      then show ?thesis using h(2) 1 by simp
    next
      case 2
      then have "u \<le> p" using p(3) u(2) by simp
      moreover have "\<not> u < p" using o(8) [of u p] 2 p by auto
      ultimately show ?thesis using 2 by simp
    next
      case 3
      then show ?thesis using u(2) by (simp add: touch_def)
    qed
  qed
qed

lemma merge_ok:
  assumes ok: "blocks_ok s N A" and u: "u \<in> N" "sz s u \<noteq> 0" and v: "hptr s u = u + sz s u"
  defines "v \<equiv> hptr s u"
  shows "blocks_ok (merge u s) (N - {v}) A" and "touch (merge u s) (N - {v}) \<subseteq> touch s N - {u} \<union> (if v \<in> touch s N then {u} else {})"
    and "free_cells (merge u s) (N - {v}) = free_cells s N" and "u \<in> N - {v}"
proof -
  note o = blocks_okD [OF ok] and nu = ring_next [OF blocks_okD(1) [OF ok] u(1)]
  have v: "v \<in> N" "u < v" "v = u + sz s u" using nu u(2) v by (auto simp: v_def)
  have vb: "v \<noteq> hbase s" using o(7) [of u] u v by auto
  have us: "sz (merge u s) u = sz s u + sz s v"
  proof -
    have "v + sz s v \<le> hbrk s" using o(7) [of v] v by simp
    then have "sz s u + sz s v < 2 ^ 32" using o(6) v(3) by simp
    then show ?thesis by (simp add: merge_def sz_def v_def unat_word_ariths)
  qed
  have s: "sz (merge u s) x = (if x = u then sz s u + sz s v else sz s x)" for x using us by simp
  show "u \<in> N - {v}" using u v by simp
  have "ring (N - {v}) (hbase s) ((hptr s)(u := hptr s v))" by (rule ring_remove [OF o(1) v(1) vb u(1)]) (simp add: v_def)
  moreover have "x + sz (merge u s) x \<le> y" if "x \<in> N - {v} \<union> A" "y \<in> N - {v} \<union> A" "x < y" for x y
  proof (cases "x = u")
    case True
    then have "v \<le> y" using o(8) [of u y] that u(1) v(3) by auto
    moreover have "y \<noteq> v" using that o(5) v(1) by auto
    ultimately have "v + sz s v \<le> y" using o(8) [of v y] that v by auto
    then show ?thesis using True s v(3) by simp
  next
    case False
    then show ?thesis using o(8) [of x y] that s by auto
  qed
  moreover have "x + sz (merge u s) x \<le> hbrk s" if "x \<in> N - {v} \<union> A" for x
    using o(7) [of x] o(7) [of v] that s v u by auto
  moreover have "hsize (merge u s) (hbase s) = 0" using o(3) u(2) by (auto simp: sz_def merge_def)
  ultimately show "blocks_ok (merge u s) (N - {v}) A"
    using o s u unfolding blocks_ok_def by (auto simp: v_def)
  show "touch (merge u s) (N - {v}) \<subseteq> touch s N - {u} \<union> (if v \<in> touch s N then {u} else {})"
  proof
    fix x assume "x \<in> touch (merge u s) (N - {v})"
    then have x: "x \<in> N" "x \<noteq> v" "sz (merge u s) x \<noteq> 0" "x + sz (merge u s) x \<in> N" "x + sz (merge u s) x \<noteq> v" by (auto simp: touch_def)
    show "x \<in> touch s N - {u} \<union> (if v \<in> touch s N then {u} else {})"
    proof (cases "x = u")
      case True
      then show ?thesis using x s v by (auto simp: touch_def add.assoc)
    next
      case False
      then show ?thesis using x s by (auto simp: touch_def)
    qed
  qed
  have "{u..<u + sz (merge u s) u} = {u..<u + sz s u} \<union> {v..<v + sz s v}" using us v(3) by auto
  moreover have "N = insert u (insert v (N - {u, v}))" "N - {v} = insert u (N - {u, v})" using u(1) v(1,2) by auto
  then have "free_cells s N = {u..<u + sz s u} \<union> {v..<v + sz s v} \<union> free_cells s (N - {u, v})"
    "free_cells (merge u s) (N - {v}) = {u..<u + sz (merge u s) u} \<union> free_cells (merge u s) (N - {u, v})"
    by (metis free_cells_insert Un_assoc)+
  moreover have "free_cells (merge u s) (N - {u, v}) = free_cells s (N - {u, v})" using s by (auto simp: free_cells_def)
  ultimately show "free_cells (merge u s) (N - {v}) = free_cells s N" by simp
qed

definition heap_inv :: "uheap \<Rightarrow> nat set \<Rightarrow> nat set \<Rightarrow> bool" where
  "heap_inv s N A \<longleftrightarrow> blocks_ok s N A \<and> freep s \<in> N \<and> touch s N = {}"

lemma nodes_bounded:
  assumes "blocks_ok s N A" shows "card N \<le> hbrk s"
proof -
  note o = blocks_okD [OF assms]
  have "N \<subseteq> {1..hbrk s}"
  proof
    fix x assume "x \<in> N"
    then show "x \<in> {1..hbrk s}" using o(2) o(7) [of x] by simp
  qed
  then show "card N \<le> hbrk s" using card_mono [of "{1..hbrk s}" N] by simp
qed

lemma freep_irrelevant [simp]:
  "blocks_ok (s\<lparr>freep := p\<rparr>) N A = blocks_ok s N A" "touch (s\<lparr>freep := p\<rparr>) N = touch s N" "free_cells (s\<lparr>freep := p\<rparr>) N = free_cells s N"
  by (simp_all add: blocks_ok_def touch_def free_cells_def sz_def)

lemma free_spec:
  assumes inv: "heap_inv s N A" and x: "x \<in> A"
  shows "\<exists>t N'. free (x + 1) s = Ok () t \<and> heap_inv t N' (A - {x}) \<and> free_cells t N' = free_cells s N \<union> {x..<x + sz s x} \<and>
    hbase t = hbase s \<and> hbrk t = hbrk s \<and> grants t = grants s \<and> (\<forall>y \<in> A - {x}. hsize t y = hsize s y) \<and> N' \<subseteq> insert x N"
proof -
  have ok: "blocks_ok s N A" and fp: "freep s \<in> N" and nt: "touch s N = {}" using inv by (simp_all add: heap_inv_def)
  note o = blocks_okD [OF ok]
  have fin: "finite N" using ringD(1) [OF o(1)] .
  have xN: "x \<notin> N" using x o(5) by blast
  have bx: "hbase s < x" using o(7) [of x] o(4) x by (metis UnCI le_neq_implies_less)
  define p where "p = Max {z \<in> N. z < x}"
  have ne: "{z \<in> N. z < x} \<noteq> {}" using bx ringD(2) [OF o(1)] by blast
  then have p: "p \<in> N" "p < x" "\<forall>z \<in> N. z < x \<longrightarrow> z \<le> p"
    using Max_in [OF _ ne] Max_ge [of "{z \<in> N. z < x}"] fin by (auto simp: p_def)
  have "card (arc N (freep s) p) \<le> hbrk s + 1"
    using card_mono [OF fin arc_sub, of "freep s" p] nodes_bounded [OF ok] by simp
  from free_slot_spec [OF o(1) p xN fp this] have slot: "free_slot (hbrk s + 1) x (freep s) s = Ok p s" .
  note l = link_ok [OF ok x p]
  define q where "q = hptr s p"
  define s1 where "s1 = link p x s"
  define s2 where "s2 = (if x + sz s x = q then merge x s1 else s1)"
  define N2 where "N2 = (if x + sz s x = q then insert x N - {q} else insert x N)"
  define s3 where "s3 = (if p + sz s p = x then merge p s2 else s2)"
  define N3 where "N3 = (if p + sz s p = x then N2 - {x} else N2)"
  have run: "free (x + 1) s = Ok () (s3\<lparr>freep := p\<rparr>)"
    using free_apply [OF slot p(2) l(4)] by (simp add: s3_def s2_def s1_def q_def sz_def Let_def)
  have ptr1: "hptr s1 x = q" "hptr s1 p = x" using p(2) by (simp_all add: s1_def q_def)
  have 2: "blocks_ok s2 N2 (A - {x}) \<and> touch s2 N2 \<subseteq> (if p + sz s p = x then {p} else {}) \<and>
      free_cells s2 N2 = free_cells s N \<union> {x..<x + sz s x} \<and> x \<in> N2 \<and> p \<in> N2 \<and> hptr s2 p = x \<and> sz s2 p = sz s p \<and>
      hbase s2 = hbase s \<and> hbrk s2 = hbrk s \<and> grants s2 = grants s \<and> (\<forall>y \<in> A - {x}. hsize s2 y = hsize s y)"
  proof (cases "x + sz s x = q")
    case True
    have "0 < sz s x" using o(7) [of x] x o(4) by auto
    then have m: "x \<in> insert x N" "sz s1 x \<noteq> 0" "hptr s1 x = x + sz s1 x" using True ptr1 by (simp_all add: s1_def)
    note mo = merge_ok [OF l(1) [folded s1_def] m, unfolded ptr1]
    have "q \<noteq> p" "q \<noteq> x" using True p(2) \<open>0 < sz s x\<close> by auto
    then have "q \<notin> touch s1 (insert x N)" using l(2) nt by (auto simp: s1_def split: if_splits)
    then have "touch (merge x s1) (insert x N - {q}) \<subseteq> (if p + sz s p = x then {p} else {})"
      using mo(2) l(2) nt p(2) by (auto simp: s1_def split: if_splits)
    then show ?thesis using True mo l(3) p \<open>q \<noteq> p\<close> ptr1 by (simp add: s2_def N2_def s1_def)
  next
    case False
    then show ?thesis using l nt p ptr1 by (auto simp: s2_def N2_def s1_def q_def split: if_splits)
  qed
  have 3: "blocks_ok s3 N3 (A - {x}) \<and> touch s3 N3 = {} \<and> free_cells s3 N3 = free_cells s N \<union> {x..<x + sz s x} \<and> p \<in> N3 \<and>
      hbase s3 = hbase s \<and> hbrk s3 = hbrk s \<and> grants s3 = grants s \<and> (\<forall>y \<in> A - {x}. hsize s3 y = hsize s y)"
  proof (cases "p + sz s p = x")
    case True
    have m: "p \<in> N2" "sz s2 p \<noteq> 0" "hptr s2 p = p + sz s2 p" using 2 True p(2) by auto
    note mo = merge_ok [OF conjunct1 [OF 2] m]
    have "touch (merge p s2) (N2 - {x}) = {}" using mo(2) 2 p(2) by (auto split: if_splits)
    moreover have "y \<noteq> p" if "y \<in> A" for y using that o(5) p(1) by blast
    ultimately show ?thesis using True mo 2 by (simp add: s3_def N3_def)
  next
    case False
    then show ?thesis using 2 by (auto simp: s3_def N3_def)
  qed
  then have "heap_inv (s3\<lparr>freep := p\<rparr>) N3 (A - {x})" by (simp add: heap_inv_def)
  moreover have "N3 \<subseteq> insert x N" by (auto simp: N3_def N2_def)
  ultimately show ?thesis using run 3 by (intro exI [of _ "s3\<lparr>freep := p\<rparr>"] exI [of _ N3]) simp
qed

section \<open>Allocating\<close>

text \<open>\<open>taken s N A n r t N'\<close>: the block at \<open>r\<close> of \<open>n\<close> units was cut out of the free blocks of \<open>s\<close>.\<close>

definition taken :: "uheap \<Rightarrow> nat set \<Rightarrow> nat set \<Rightarrow> nat \<Rightarrow> nat \<Rightarrow> uheap \<Rightarrow> nat set \<Rightarrow> bool" where
  "taken s N A n r t N' \<longleftrightarrow> heap_inv t N' (insert r A) \<and> r \<notin> A \<and> sz t r = n \<and> {r..<r + n} \<subseteq> free_cells s N \<and>
     free_cells t N' = free_cells s N - {r..<r + n} \<and> hbase t = hbase s \<and> hbrk t = hbrk s \<and> grants t = grants s \<and>
     (\<forall>y \<in> A. hsize t y = hsize s y)"

lemma cells_apart:
  assumes "blocks_ok s N A" and "p \<in> N"
  shows "free_cells s (N - {p}) = free_cells s N - {p..<p + sz s p}"
proof -
  have "\<not> (x \<le> c \<and> c < x + sz s x)" if "x \<in> N" "x \<noteq> p" "p \<le> c" "c < p + sz s p" for x c
    using that blocks_okD(8) [OF assms(1), of x p] blocks_okD(8) [OF assms(1), of p x] assms(2) by (cases "x < p") auto
  then show ?thesis by (auto simp: free_cells_def)
qed

lemma take_whole:
  assumes inv: "heap_inv s N A" and p: "p \<in> N" "sz s p = n" "0 < n" and q: "q \<in> N" "hptr s q = p"
  shows "taken s N A n p (s\<lparr>hptr := (hptr s)(q := hptr s p), freep := q\<rparr>) (N - {p})"
proof -
  have ok: "blocks_ok s N A" and nt: "touch s N = {}" using inv by (simp_all add: heap_inv_def)
  note o = blocks_okD [OF ok]
  let ?t = "s\<lparr>hptr := (hptr s)(q := hptr s p), freep := q\<rparr>"
  have pb: "p \<noteq> hbase s" using p o(3) by (auto simp: sz_def)
  have qp: "q \<noteq> p" using ring_next [OF o(1) p(1)] q pb by (auto split: if_splits)
  have sz: "sz ?t = sz s" by (simp add: sz_def fun_eq_iff)
  have un: "N - {p} \<union> insert p A = N \<union> A" using p(1) by blast
  have "ring (N - {p}) (hbase s) ((hptr s)(q := hptr s p))" by (rule ring_remove [OF o(1) p(1) pb q])
  then have "blocks_ok ?t (N - {p}) (insert p A)" using ok pb unfolding blocks_ok_def sz un by auto
  moreover have "touch ?t (N - {p}) = {}" using nt by (auto simp: touch_def sz)
  moreover have "p \<notin> A" using o(5) p(1) by blast
  moreover have "free_cells ?t (N - {p}) = free_cells s N - {p..<p + n}" using cells_apart [OF ok p(1)] p(2) by (simp add: free_cells_def sz)
  moreover have "{p..<p + n} \<subseteq> free_cells s N" using p by (auto simp: free_cells_def)
  ultimately show ?thesis using q(1) qp p(2) by (simp add: taken_def heap_inv_def sz)
qed

lemma take_tail:
  assumes inv: "heap_inv s N A" and p: "p \<in> N" "0 < unat n" "n < hsize s p" and q: "q \<in> N"
  defines "r \<equiv> p + unat (hsize s p - n)"
  shows "taken s N A (unat n) r (s\<lparr>hsize := (hsize s)(p := hsize s p - n, r := n), freep := q\<rparr>) N"
proof -
  have ok: "blocks_ok s N A" and nt: "touch s N = {}" using inv by (simp_all add: heap_inv_def)
  note o = blocks_okD [OF ok]
  let ?t = "s\<lparr>hsize := (hsize s)(p := hsize s p - n, r := n), freep := q\<rparr>"
  have lt: "unat n < sz s p" using p(3) by (simp add: sz_def word_less_nat_alt)
  have d: "unat (hsize s p - n) = sz s p - unat n" using p(3) by (simp add: sz_def unat_sub order_less_imp_le)
  have r: "r = p + (sz s p - unat n)" "p < r" "r + unat n = p + sz s p" using d lt p(2) by (simp_all add: r_def)
  have fresh: "r \<notin> N \<union> A"
  proof
    assume "r \<in> N \<union> A"
    then have "p + sz s p \<le> r" using o(8) [of p r] p(1) r(2) by simp
    then show False using r(3) p(2) by simp
  qed
  have sz: "sz ?t x = (if x = r then unat n else if x = p then sz s p - unat n else sz s x)" for x using d r(2) by (simp add: sz_def)
  have pb: "p \<noteq> hbase s" using p(3) o(3) by auto
  have "x + sz ?t x \<le> y" if xy: "x \<in> N \<union> insert r A" "y \<in> N \<union> insert r A" "x < y" for x y
  proof -
    consider "x = r" "y \<in> N \<union> A" | "x \<in> N \<union> A" "y = r" | "x \<in> N \<union> A" "y \<in> N \<union> A" using xy by blast
    then show ?thesis
    proof cases
      case 1
      then have "p + sz s p \<le> y" using o(8) [of p y] p(1) \<open>x < y\<close> r(2) by simp
      then show ?thesis using 1 sz r(3) by simp
    next
      case 2
      show ?thesis
      proof (cases "x = p")
        case True
        then show ?thesis using 2 sz r by simp
      next
        case False
        have "\<not> p < x" using o(8) [of p x] p(1) 2 \<open>x < y\<close> r(3) by auto
        then have "x + sz s x \<le> p" using o(8) [of x p] p(1) 2 False by simp
        moreover have "x \<noteq> r" using 2 \<open>x < y\<close> by simp
        ultimately show ?thesis using 2 False sz r(2) by simp
      qed
    next
      case 3
      then have "x \<noteq> r" using fresh by blast
      then show ?thesis using o(8) [OF 3 \<open>x < y\<close>] sz [of x] by auto
    qed
  qed
  moreover have "hbase s \<le> x \<and> x + sz ?t x \<le> hbrk s \<and> (x \<noteq> hbase s \<longrightarrow> 0 < sz ?t x)" if "x \<in> N \<union> insert r A" for x
    using that o(7) [of x] o(7) [of p] p(1,2) r lt sz [of x] by auto
  moreover have "hbase s \<noteq> r" using fresh ringD(2) [OF o(1)] by blast
  ultimately have "blocks_ok ?t N (insert r A)" using o fresh pb unfolding blocks_ok_def by auto
  moreover have "u \<notin> touch ?t N" for u
    using nt sz [of u] fresh r(1) by (cases "u = p") (auto simp: touch_def)
  moreover have "{r..<r + unat n} \<subseteq> free_cells s N" using p(1) r by (auto simp: free_cells_def)
  moreover have "free_cells ?t N = free_cells s N - {r..<r + unat n}"
  proof -
    have N: "N = insert p (N - {p})" using p(1) by blast
    have "sz ?t x = sz s x" if "x \<in> N - {p}" for x using sz [of x] that fresh by auto
    then have "free_cells ?t (N - {p}) = free_cells s (N - {p})" unfolding free_cells_def by (intro SUP_cong) simp_all
    moreover have "{p..<p + sz ?t p} = {p..<p + sz s p} - {r..<r + unat n}" using sz [of p] r by auto
    moreover have "free_cells s (N - {p}) \<inter> {r..<r + unat n} = {}" using cells_apart [OF ok p(1)] r by auto
    ultimately have "free_cells ?t (insert p (N - {p})) = free_cells s (insert p (N - {p})) - {r..<r + unat n}"
      unfolding free_cells_insert by auto
    then show ?thesis using N by simp
  qed
  moreover have "\<forall>y \<in> A. hsize ?t y = hsize s y" using fresh o(5) p(1) by auto
  ultimately show ?thesis using fresh q sz [of r] by (auto simp: taken_def heap_inv_def)
qed

lemma malloc_take:
  assumes inv: "heap_inv s N A" and p: "p \<in> N" "0 < unat n" "n \<le> hsize s p" and q: "q \<in> N" "hptr s q = p"
  shows "\<exists>r t N'. malloc_loop (Suc k) n q p s = Ok (r + 1) t \<and> taken s N A (unat n) r t N'"
proof (cases "hsize s p = n")
  case True
  then show ?thesis using take_whole [OF inv p(1) _ p(2) q]
    by (intro exI) (simp add: kop_simps get_size_def get_ptr_def set_ptr_def set_freep_def sz_def)
next
  case False
  then have "n < hsize s p" using p(3) by simp
  then show ?thesis using take_tail [OF inv p(1,2) _ q(1)] False p(3)
    by (intro exI) (auto simp: kop_simps get_size_def set_size_def set_freep_def)
qed

lemma malloc_search:
  assumes inv: "heap_inv s N A" and n: "0 < unat n" and "p \<in> N" and "q \<in> N" and "hptr s q = p"
    and "y \<in> arc N p (freep s)" and "n \<le> hsize s y" and "card (arc N p (freep s)) \<le> k"
  shows "\<exists>r t N'. malloc_loop k n q p s = Ok (r + 1) t \<and> taken s N A (unat n) r t N'"
  using assms(3-8)
proof (induction k arbitrary: p q)
  case 0
  have "finite (arc N p (freep s))" using inv ringD(1) finite_subset [OF arc_sub] by (metis heap_inv_def blocks_okD(1))
  then show ?case using 0 by auto
next
  case (Suc k)
  have ok: "blocks_ok s N A" and fp: "freep s \<in> N" using inv by (simp_all add: heap_inv_def)
  note r = blocks_okD(1) [OF ok]
  show ?case
  proof (cases "n \<le> hsize s p")
    case True
    then show ?thesis by (intro malloc_take [OF inv Suc.prems(1) n _ Suc.prems(2,3)])
  next
    case False
    then have ne: "p \<noteq> freep s" using Suc.prems arc_self [OF fp] by auto
    note st = arc_step [OF r Suc.prems(1) fp ne]
    have "finite (arc N p (freep s))" using ringD(1) [OF r] finite_subset [OF arc_sub] by blast
    then have "card (arc N (hptr s p) (freep s)) \<le> k" "y \<in> arc N (hptr s p) (freep s)"
      using st arc_mem [OF Suc.prems(1)] Suc.prems(4,5,6) False by auto
    then have "\<exists>r t N'. malloc_loop k n p (hptr s p) s = Ok (r + 1) t \<and> taken s N A (unat n) r t N'"
      using ring_next [OF r Suc.prems(1)] Suc.prems by (intro Suc.IH) simp_all
    then show ?thesis using False ne by (simp add: kop_simps get_size_def get_ptr_def)
  qed
qed

definition grow_then :: "nat \<Rightarrow> uint \<Rightarrow> nat hop" where
  "grow_then k n = bnd (morecore n) (\<lambda>p. if p = 0 then ret 0 else bnd (get_ptr p) (\<lambda>q. malloc_loop k n p q))"

lemma malloc_nothing:
  assumes inv: "heap_inv s N A" and "p \<in> N" and "\<forall>y \<in> arc N p (freep s). \<not> n \<le> hsize s y" and "card (arc N p (freep s)) \<le> m"
  shows "\<exists>j \<ge> k. malloc_loop (m + k) n q p s = grow_then j n s"
  using assms(2-4)
proof (induction m arbitrary: p q)
  case 0
  have "finite (arc N p (freep s))" using inv ringD(1) finite_subset [OF arc_sub] by (metis heap_inv_def blocks_okD(1))
  then show ?case using 0 arc_mem by (metis card_gt_0_iff empty_iff le_zero_eq less_numeral_extra(3))
next
  case (Suc m)
  have ok: "blocks_ok s N A" and fp: "freep s \<in> N" using inv by (simp_all add: heap_inv_def)
  note r = blocks_okD(1) [OF ok]
  have big: "\<not> n \<le> hsize s p" using Suc.prems(1,2) arc_mem by blast
  show ?case
  proof (cases "p = freep s")
    case True
    then show ?thesis using big by (intro exI [of _ "m + k"]) (simp add: kop_simps get_size_def grow_then_def)
  next
    case False
    note st = arc_step [OF r Suc.prems(1) fp False]
    have "finite (arc N p (freep s))" using ringD(1) [OF r] finite_subset [OF arc_sub] by blast
    then have "card (arc N (hptr s p) (freep s)) \<le> m" using st arc_mem [OF Suc.prems(1)] Suc.prems(3) by simp
    then have "\<exists>j \<ge> k. malloc_loop (m + k) n p (hptr s p) s = grow_then j n s"
      using ring_next [OF r Suc.prems(1)] Suc.prems(2) st by (intro Suc.IH) auto
    then show ?thesis using big False by (simp add: kop_simps get_size_def get_ptr_def)
  qed
qed

lemma contiguous:
  assumes inv: "heap_inv s N A" and c: "{a..<a + n} \<subseteq> free_cells s N" "0 < n"
  shows "\<exists>y \<in> N. n \<le> sz s y"
proof -
  have ok: "blocks_ok s N A" and nt: "touch s N = {}" using inv by (simp_all add: heap_inv_def)
  have "a \<in> free_cells s N" using c by auto
  then obtain y where y: "y \<in> N" "y \<le> a" "a < y + sz s y" by (auto simp: free_cells_def)
  have "a + n \<le> y + sz s y"
  proof (rule ccontr)
    assume "\<not> a + n \<le> y + sz s y"
    then have "y + sz s y \<in> free_cells s N" using c(1) y by auto
    then obtain z where z: "z \<in> N" "z \<le> y + sz s y" "y + sz s y < z + sz s z" by (auto simp: free_cells_def)
    have "z \<noteq> y" "\<not> z < y" using z y blocks_okD(8) [OF ok, of z y] by auto
    then have "y + sz s y \<le> z" using blocks_okD(8) [OF ok, of y z] y z by simp
    then have "y + sz s y = z" using z by simp
    then have "y \<in> touch s N" using y z by (auto simp: touch_def)
    then show False using nt by simp
  qed
  then show ?thesis using y by (intro bexI [of _ y]) simp_all
qed

text \<open>The units \<^verbatim>\<open>morecore\<close> asks for.\<close>

definition core_units :: "uint \<Rightarrow> nat" where
  "core_units n = max 4096 (unat n)"

lemma core_units_word: "core_units n = unat (if n < 4096 then 4096 else n)"
  by (auto simp: core_units_def word_less_nat_alt)

lemma morecore_spec:
  assumes inv: "heap_inv s N A" and fit: "16 * core_units n < 2 ^ 31" "hbrk s + core_units n < 2 ^ 32"
  shows "case grants s of
      True # g \<Rightarrow> \<exists>t N'. morecore n s = Ok (freep t) t \<and> heap_inv t N' A \<and>
        free_cells t N' = free_cells s N \<union> {hbrk s..<hbrk s + core_units n} \<and>
        hbase t = hbase s \<and> hbrk t = hbrk s + core_units n \<and> (\<forall>y \<in> A. hsize t y = hsize s y) \<and>
        card N' \<le> hbrk s + 1
    | _ \<Rightarrow> morecore n s = Ok 0 (s\<lparr>grants := tl (grants s)\<rparr>)"
proof (cases "\<exists>g. grants s = True # g")
  case False
  then show ?thesis using fit(1) unfolding core_units_word
    by (auto simp: morecore_def sbrk_h_def Let_def kop_simps split: list.splits bool.splits if_splits)
next
  case True
  then obtain g where g: "grants s = True # g" by blast
  have ok: "blocks_ok s N A" and fp: "freep s \<in> N" and nt: "touch s N = {}" using inv by (simp_all add: heap_inv_def)
  note o = blocks_okD [OF ok]
  let ?x = "hbrk s" and ?n = "core_units n"
  let ?s = "s\<lparr>grants := g, hbrk := hbrk s + ?n, hsize := (hsize s)(?x := of_nat ?n)\<rparr>"
  have n0: "0 < ?n" by (simp add: core_units_def)
  have below: "y + sz s y \<le> ?x" "y < ?x" if "y \<in> N \<union> A" "y \<noteq> hbase s" for y using o(7) [OF that(1)] that(2) by auto
  then have lt: "y < ?x" if "y \<in> N \<union> A" for y using that o(9) by (cases "y = hbase s") auto
  then have fresh: "?x \<notin> N \<union> A" by blast
  have nw: "unat (of_nat ?n :: uint) = ?n" using fit(2) by (simp add: unat_of_nat)
  have sz: "sz ?s y = (if y = ?x then ?n else sz s y)" for y using nw by (simp add: sz_def)
  have "y + sz ?s y \<le> z" if yz: "y \<in> N \<union> insert ?x A" "z \<in> N \<union> insert ?x A" "y < z" for y z
  proof -
    have "y \<noteq> ?x" using yz lt [of z] by auto
    then show ?thesis using yz o(7) [of y] o(8) [of y z] sz [of y] by (cases "z = ?x") auto
  qed
  moreover have "hbase s \<le> y \<and> y + sz ?s y \<le> hbrk s + ?n \<and> (y \<noteq> hbase s \<longrightarrow> 0 < sz ?s y)" if "y \<in> N \<union> insert ?x A" for y
    using that o(7) [of y] o(9) sz [of y] n0 by (cases "y = ?x") auto
  ultimately have "blocks_ok ?s N (insert ?x A)" using o(1-6,9) fresh fit(2) unfolding blocks_ok_def by simp
  moreover have "touch ?s N = {}" using nt sz fresh by (auto simp: touch_def)
  ultimately have "heap_inv ?s N (insert ?x A)" using fp by (simp add: heap_inv_def)
  from free_spec [OF this, of ?x] obtain t N' where t: "free (?x + 1) ?s = Ok () t" "heap_inv t N' (insert ?x A - {?x})"
      "free_cells t N' = free_cells ?s N \<union> {?x..<?x + sz ?s ?x}" "hbase t = hbase s" "hbrk t = hbrk s + ?n"
      "\<forall>y \<in> insert ?x A - {?x}. hsize t y = hsize ?s y" "N' \<subseteq> insert ?x N" by auto
  have "finite N" using ringD(1) [OF o(1)] .
  then have "card N' \<le> hbrk s + 1"
    using card_mono [OF _ t(7)] card_insert_le_m1 [of "hbrk s + 1" N ?x] nodes_bounded [OF ok] by simp
  moreover
  have A: "insert ?x A - {?x} = A" using fresh by auto
  moreover have "sz ?s y = sz s y" if "y \<in> N" for y using sz [of y] that fresh by auto
  then have "free_cells ?s N = free_cells s N" unfolding free_cells_def by (intro SUP_cong) simp_all
  moreover have "morecore n s = Ok (freep t) t"
    using t(1) g fit(1) nw unfolding core_units_word by (auto simp: morecore_def sbrk_h_def Let_def kop_simps set_size_def)
  ultimately show ?thesis using t A sz fresh g by (auto intro!: exI [of _ t] exI [of _ N'])
qed

text \<open>The number of units \<^verbatim>\<open>malloc\<close> takes for a number of bytes, its header included.\<close>

definition units :: "uint \<Rightarrow> nat" where
  "units nbytes = (unat nbytes + 16 - 1) div 16 + 1"

lemma units_word: "unat (of_nat (units b) :: uint) = units b" "0 < units b"
proof -
  have "units b < 2 ^ 32" using unat_uint_bound [of b] by (simp add: units_def)
  then show "unat (of_nat (units b) :: uint) = units b" by (simp add: unat_of_nat)
qed (simp add: units_def)

definition got_block :: "uheap \<Rightarrow> nat set \<Rightarrow> nat set \<Rightarrow> nat \<Rightarrow> nat \<Rightarrow> uheap \<Rightarrow> nat set \<Rightarrow> bool" where
  "got_block s N A n r t N' \<longleftrightarrow> heap_inv t N' (insert r A) \<and> r \<notin> A \<and> sz t r = n \<and> hbrk s \<le> hbrk t \<and>
     {r..<r + n} \<subseteq> free_cells s N \<union> {hbrk s..<hbrk t} \<and>
     free_cells t N' = free_cells s N \<union> {hbrk s..<hbrk t} - {r..<r + n} \<and> hbase t = hbase s \<and> (\<forall>y \<in> A. hsize t y = hsize s y)"

definition no_block :: "uheap \<Rightarrow> nat set \<Rightarrow> nat set \<Rightarrow> nat \<Rightarrow> uheap \<Rightarrow> bool" where
  "no_block s N A n t \<longleftrightarrow> heap_inv t N A \<and> hbrk t = hbrk s \<and> hbase t = hbase s \<and> hsize t = hsize s \<and>
     (\<forall>y \<in> N. sz s y < n) \<and> (\<forall>g. grants s \<noteq> True # g)"

lemma malloc_loop_spec:
  assumes inv: "heap_inv s N A" and n: "0 < unat n"
    and fit: "16 * core_units n < 2 ^ 31" "hbrk s + core_units n < 2 ^ 32"
  defines "run \<equiv> malloc_loop (2 * hbrk s + 4) n (freep s) (hptr s (freep s)) s"
  shows "(\<exists>r t N'. run = Ok (r + 1) t \<and> got_block s N A (unat n) r t N') \<or> (\<exists>t. run = Ok 0 t \<and> no_block s N A (unat n) t)"
proof -
  have ok: "blocks_ok s N A" and fp: "freep s \<in> N" using inv by (simp_all add: heap_inv_def)
  note r = blocks_okD(1) [OF ok] and full = arc_full [OF blocks_okD(1) [OF ok] fp]
  have h: "hptr s (freep s) \<in> N" using ring_next [OF r fp] by simp
  have c: "card N \<le> hbrk s" by (rule nodes_bounded [OF ok])
  show ?thesis
  proof (cases "\<exists>y \<in> N. n \<le> hsize s y")
    case True
    then obtain y where "y \<in> N" "n \<le> hsize s y" by blast
    then have "\<exists>r t N'. run = Ok (r + 1) t \<and> taken s N A (unat n) r t N'"
      unfolding run_def using c full by (intro malloc_search [OF inv n h fp refl, of y]) simp_all
    moreover have "got_block s N A (unat n) r t N'" if "taken s N A (unat n) r t N'" for r t N'
      using that unfolding taken_def got_block_def by simp
    ultimately show ?thesis by blast
  next
    case False
    then have small: "\<forall>y \<in> N. \<not> n \<le> hsize s y" by blast
    have fuel: "2 * hbrk s + 4 = hbrk s + (hbrk s + 4)" by simp
    have "\<exists>j \<ge> hbrk s + 4. run = grow_then j n s"
      unfolding run_def fuel using small c by (intro malloc_nothing [OF inv h]) (simp_all only: full)
    then obtain j where j: "hbrk s + 4 \<le> j" "run = grow_then j n s" by blast
    note mc = morecore_spec [OF inv fit]
    show ?thesis
    proof (cases "\<exists>g. grants s = True # g")
      case True
      then obtain t N' where t: "morecore n s = Ok (freep t) t" "heap_inv t N' A"
          "free_cells t N' = free_cells s N \<union> {hbrk s..<hbrk s + core_units n}" "hbase t = hbase s" "hbrk t = hbrk s + core_units n"
          "\<forall>y \<in> A. hsize t y = hsize s y" "card N' \<le> hbrk s + 1"
        using mc by auto
      have okt: "blocks_ok t N' A" and fpt: "freep t \<in> N'" using t(2) by (simp_all add: heap_inv_def)
      note ot = blocks_okD [OF okt]
      have f0: "freep t \<noteq> 0" using ot(2) ot(7) [of "freep t"] fpt by auto
      have "{hbrk s..<hbrk s + core_units n} \<subseteq> free_cells t N'" "0 < core_units n" using t(3) by (auto simp: core_units_def)
      then obtain y where y: "y \<in> N'" "core_units n \<le> sz t y" using contiguous [OF t(2)] by blast
      then have yn: "n \<le> hsize t y" by (simp add: core_units_def sz_def word_le_nat_alt)
      have ht: "hptr t (freep t) \<in> N'" using ring_next [OF ot(1) fpt] by simp
      have "\<exists>r u N''. malloc_loop j n (freep t) (hptr t (freep t)) t = Ok (r + 1) u \<and> taken t N' A (unat n) r u N''"
        using arc_full [OF ot(1) fpt] y yn t(7) j(1) by (intro malloc_search [OF t(2) n ht fpt refl, of y]) simp_all
      then obtain r u N'' where u: "malloc_loop j n (freep t) (hptr t (freep t)) t = Ok (r + 1) u" "taken t N' A (unat n) r u N''" by blast
      have "run = Ok (r + 1) u" unfolding j(2) using t(1) f0 u(1) by (simp add: grow_then_def kop_simps get_ptr_def)
      moreover have "got_block s N A (unat n) r u N''" using u(2) t(3-6) by (simp add: taken_def got_block_def)
      ultimately show ?thesis by blast
    next
      case False
      then have m: "morecore n s = Ok 0 (s\<lparr>grants := tl (grants s)\<rparr>)" using mc by (auto split: list.splits bool.splits)
      have "heap_inv (s\<lparr>grants := g\<rparr>) N A" for g using inv by (simp add: heap_inv_def blocks_ok_def touch_def sz_def)
      moreover have "sz s y < unat n" if "y \<in> N" for y using small that by (simp add: sz_def word_le_nat_alt not_le)
      ultimately have "no_block s N A (unat n) (s\<lparr>grants := tl (grants s)\<rparr>)" using False by (simp add: no_block_def)
      then show ?thesis using m j(2) by (simp add: grow_then_def kop_simps)
    qed
  qed
qed

text \<open>Before the first call \<^verbatim>\<open>freep\<close> is null and \<^verbatim>\<open>base\<close> is zero, as C's static variables are.\<close>

definition heap_ready :: "uheap \<Rightarrow> nat set \<Rightarrow> nat set \<Rightarrow> bool" where
  "heap_ready s N A \<longleftrightarrow> heap_inv s N A \<or>
     freep s = 0 \<and> N = {hbase s} \<and> A = {} \<and> 0 < hbase s \<and> hbase s < hbrk s \<and> hbrk s < 2 ^ 32 \<and> hsize s (hbase s) = 0"

lemma malloc_spec:
  assumes "heap_ready s N A" and fit: "16 * max 4096 (units b) < 2 ^ 31" "hbrk s + max 4096 (units b) < 2 ^ 32"
  shows "(\<exists>r t N'. malloc b s = Ok (r + 1) t \<and> got_block s N A (units b) r t N') \<or>
    (\<exists>t. malloc b s = Ok 0 t \<and> no_block s N A (units b) t)"
proof -
  note u = units_word [of b]
  have f: "16 * core_units (of_nat (units b)) < 2 ^ 31" "hbrk s + core_units (of_nat (units b)) < 2 ^ 32"
    using fit u by (simp_all add: core_units_def)
  show ?thesis
  proof (cases "heap_inv s N A")
    case True
    have "freep s \<noteq> 0" using True blocks_okD(2,7) by (fastforce simp: heap_inv_def)
    then have "malloc b s = malloc_loop (2 * hbrk s + 4) (of_nat (units b)) (freep s) (hptr s (freep s)) s"
      by (simp add: malloc_def Let_def kop_simps get_ptr_def units_def)
    then show ?thesis using malloc_loop_spec [OF True _ f] u by simp
  next
    case False
    then have h: "freep s = 0" "N = {hbase s}" "A = {}" "0 < hbase s" "hbase s < hbrk s" "hbrk s < 2 ^ 32" "hsize s (hbase s) = 0"
      using assms(1) by (simp_all add: heap_ready_def)
    let ?s = "s\<lparr>hptr := (hptr s)(hbase s := hbase s), freep := hbase s\<rparr>"
    have "ring {hbase s} (hbase s) ((hptr s)(hbase s := hbase s))" by (simp add: ring_def above_def)
    then have inv: "heap_inv ?s N A" using h by (simp add: heap_inv_def blocks_ok_def touch_def sz_def)
    have "(hsize s)(hbase s := 0) = hsize s" using h(7) by auto
    then have "malloc b s = malloc_loop (2 * hbrk s + 4) (of_nat (units b)) (hbase s) (hbase s) ?s"
      using h(1) by (simp add: malloc_def Let_def kop_simps get_ptr_def set_ptr_def set_freep_def set_size_def units_def)
    moreover have "free_cells ?s N = free_cells s N" by (simp add: free_cells_def sz_def)
    ultimately show ?thesis using malloc_loop_spec [OF inv _ f(1)] f(2) u by (simp add: got_block_def no_block_def sz_def)
  qed
qed

section \<open>Histories of calls\<close>

text \<open>
  The states a program reaches by calling \<^verbatim>\<open>malloc\<close>, and \<^verbatim>\<open>free\<close> on pointers it holds, with the pointers it
  holds and the sizes it asked for. Requests are below 2 GiB and the break stays below 64 GiB.
\<close>

definition fits :: "uheap \<Rightarrow> uint \<Rightarrow> bool" where
  "fits s b \<longleftrightarrow> 16 * max 4096 (units b) < 2 ^ 31 \<and> hbrk s + max 4096 (units b) < 2 ^ 32"

inductive heap_hist :: "uheap \<Rightarrow> (nat \<times> uint) set \<Rightarrow> bool" where
  start: "freep s = 0 \<Longrightarrow> 0 < hbase s \<Longrightarrow> hbase s < hbrk s \<Longrightarrow> hbrk s < 2 ^ 32 \<Longrightarrow> hsize s (hbase s) = 0 \<Longrightarrow> heap_hist s {}"
| malloc_ok: "heap_hist s H \<Longrightarrow> fits s b \<Longrightarrow> malloc b s = Ok r t \<Longrightarrow> r \<noteq> 0 \<Longrightarrow> heap_hist t (insert (r, b) H)"
| malloc_null: "heap_hist s H \<Longrightarrow> fits s b \<Longrightarrow> malloc b s = Ok 0 t \<Longrightarrow> heap_hist t H"
| free: "heap_hist s H \<Longrightarrow> (r, b) \<in> H \<Longrightarrow> free r s = Ok () t \<Longrightarrow> heap_hist t (H - {(r, b)})"

definition held_inv :: "uheap \<Rightarrow> (nat \<times> uint) set \<Rightarrow> bool" where
  "held_inv s H \<longleftrightarrow> (\<exists>N. heap_ready s N ((\<lambda>(r, b). r - 1) ` H)) \<and> inj_on (\<lambda>(r, b). r - 1) H \<and>
     (\<forall>(r, b) \<in> H. 0 < r \<and> sz s (r - 1) = units b)"

lemma heap_ready_blocks: "heap_ready s N A \<Longrightarrow> A \<noteq> {} \<Longrightarrow> heap_inv s N A"
  by (auto simp: heap_ready_def)

lemma malloc_keeps:
  assumes "held_inv s H" and "fits s b"
  shows "\<exists>r t. malloc b s = Ok r t \<and> held_inv t (if r = 0 then H else insert (r, b) H)"
proof -
  let ?f = "\<lambda>(r, b). r - 1 :: nat"
  obtain N where rdy: "heap_ready s N (?f ` H)" and H: "inj_on ?f H" "\<forall>(r, b) \<in> H. 0 < r \<and> sz s (r - 1) = units b"
    using assms(1) by (auto simp: held_inv_def)
  have fit: "16 * max 4096 (units b) < 2 ^ 31" "hbrk s + max 4096 (units b) < 2 ^ 32" using assms(2) by (auto simp: fits_def)
  consider (got) r t N' where "malloc b s = Ok (r + 1) t" "got_block s N (?f ` H) (units b) r t N'"
    | (none) t where "malloc b s = Ok 0 t" "no_block s N (?f ` H) (units b) t" using malloc_spec [OF rdy fit] by blast
  then show ?thesis
  proof cases
    case got
    then have g: "heap_inv t N' (insert r (?f ` H))" "r \<notin> ?f ` H" "sz t r = units b" "\<forall>y \<in> ?f ` H. hsize t y = hsize s y"
      by (simp_all add: got_block_def)
    have "?f ` insert (r + 1, b) H = insert r (?f ` H)" by simp
    moreover have "inj_on ?f (insert (r + 1, b) H)" using H(1) g(2) by auto
    moreover have "sz t (r' - 1) = sz s (r' - 1)" if "(r', b') \<in> H" for r' b' using g(4) that by (force simp: sz_def)
    then have "\<forall>(r', b') \<in> insert (r + 1, b) H. 0 < r' \<and> sz t (r' - 1) = units b'" using H(2) g(3) by auto
    ultimately have "held_inv t (insert (r + 1, b) H)" using g(1) unfolding held_inv_def heap_ready_def by (intro conjI exI) simp_all
    then show ?thesis using got(1) by (intro exI [of _ "r + 1"] exI [of _ t]) simp
  next
    case none
    then have "heap_inv t N (?f ` H)" "hsize t = hsize s" by (simp_all add: no_block_def)
    then have "held_inv t H" using H by (auto simp: held_inv_def heap_ready_def sz_def)
    then show ?thesis using none(1) by (intro exI [of _ 0] exI [of _ t]) simp
  qed
qed

lemma free_keeps:
  assumes "held_inv s H" and "(r, b) \<in> H"
  shows "\<exists>t. free r s = Ok () t \<and> held_inv t (H - {(r, b)})"
proof -
  let ?f = "\<lambda>(r, b). r - 1 :: nat"
  obtain N where rdy: "heap_ready s N (?f ` H)" and H: "inj_on ?f H" "\<forall>(r, b) \<in> H. 0 < r \<and> sz s (r - 1) = units b"
    using assms(1) by (auto simp: held_inv_def)
  have inv: "heap_inv s N (?f ` H)" using heap_ready_blocks [OF rdy] assms(2) by blast
  have r: "r - 1 \<in> ?f ` H" "r - 1 + 1 = r" using imageI [OF assms(2), of ?f] bspec [OF H(2) assms(2)] by simp_all
  have f: "?f ` H - {r - 1} = ?f ` (H - {(r, b)})" using inj_on_image_set_diff [OF H(1), of H "{(r, b)}"] assms(2) by auto
  obtain t N' where t: "free r s = Ok () t" "heap_inv t N' (?f ` (H - {(r, b)}))" "\<forall>y \<in> ?f ` (H - {(r, b)}). hsize t y = hsize s y"
    using free_spec [OF inv r(1), unfolded r(2) f] by (elim exE conjE) (rule that)
  have "sz t (r' - 1) = units b'" if "(r', b') \<in> H - {(r, b)}" for r' b'
    using bspec [OF t(3) imageI [OF that]] bspec [OF H(2), of "(r', b')"] that by (simp add: sz_def)
  then have "\<forall>(r', b') \<in> H - {(r, b)}. 0 < r' \<and> sz t (r' - 1) = units b'" using H(2) by auto
  then have "held_inv t (H - {(r, b)})"
    using t(2) inj_on_subset [OF H(1), of "H - {(r, b)}"] unfolding held_inv_def heap_ready_def by (intro conjI exI disjI1) auto
  then show ?thesis using t(1) by blast
qed

lemma heap_hist_inv: "heap_hist s H \<Longrightarrow> held_inv s H"
proof (induction rule: heap_hist.induct)
  case (start s)
  then show ?case by (auto simp: held_inv_def heap_ready_def)
next
  case (malloc_ok s H b r t)
  then show ?case using malloc_keeps [of s H b] by auto
next
  case (malloc_null s H b t)
  then show ?case using malloc_keeps [of s H b] by auto
next
  case (free s H r b t)
  then show ?case using free_keeps [of s H r b] by auto
qed

text \<open>
  C28 (\<^verbatim>\<open>umalloc.c\<close>, \<^verbatim>\<open>malloc\<close>, \<^verbatim>\<open>free\<close>): after any history of calls the blocks a program holds lie between \<^verbatim>\<open>base\<close>
  and the break, each is as large as it was asked for (its header, one unit, lies just before it), no two of
  them overlap, not even one's contents another's header, and the next call of \<^verbatim>\<open>malloc\<close> or \<^verbatim>\<open>free\<close> returns.
\<close>

theorem user_heap_safe:
  assumes "heap_hist s H"
  shows "(\<forall>(r, b) \<in> H. hbase s < r - 1 \<and> r + (unat b + 15) div 16 \<le> hbrk s) \<and>
    (\<forall>(r, b) \<in> H. \<forall>(r', b') \<in> H. (r, b) \<noteq> (r', b') \<longrightarrow>
      {r - 1..<r + (unat b + 15) div 16} \<inter> {r' - 1..<r' + (unat b' + 15) div 16} = {}) \<and>
    (\<forall>b. fits s b \<longrightarrow> (\<exists>r t. malloc b s = Ok r t)) \<and> (\<forall>(r, b) \<in> H. \<exists>t. free r s = Ok () t)"
proof -
  let ?f = "\<lambda>(r, b). r - 1 :: nat"
  have held: "held_inv s H" by (rule heap_hist_inv [OF assms])
  then obtain N where rdy: "heap_ready s N (?f ` H)" and H: "inj_on ?f H" "\<forall>(r, b) \<in> H. 0 < r \<and> sz s (r - 1) = units b"
    by (auto simp: held_inv_def)
  have blk: "blocks_ok s N (?f ` H)" if "(r, b) \<in> H" for r b using heap_ready_blocks [OF rdy] that by (auto simp: heap_inv_def)
  have e: "r - 1 + sz s (r - 1) = r + (unat b + 15) div 16" "r - 1 \<in> ?f ` H" if "(r, b) \<in> H" for r b
    using H(2) that by (force simp: units_def)+
  have "hbase s < r - 1 \<and> r + (unat b + 15) div 16 \<le> hbrk s" if "(r, b) \<in> H" for r b
    using blocks_okD(7) [OF blk [OF that], of "r - 1"] blocks_okD(4) [OF blk [OF that]] e [OF that] by (metis UnCI le_neq_implies_less)
  moreover have "{r - 1..<r + (unat b + 15) div 16} \<inter> {r' - 1..<r' + (unat b' + 15) div 16} = {}"
    if h: "(r, b) \<in> H" "(r', b') \<in> H" "(r, b) \<noteq> (r', b')" for r b r' b'
  proof -
    have "r - 1 \<noteq> r' - 1" using inj_onD [OF H(1), of "(r, b)" "(r', b')"] h by auto
    then have "r + (unat b + 15) div 16 \<le> r' - 1 \<or> r' + (unat b' + 15) div 16 \<le> r - 1"
      using blocks_okD(8) [OF blk [OF h(1)], of "r - 1" "r' - 1"] blocks_okD(8) [OF blk [OF h(1)], of "r' - 1" "r - 1"] e [OF h(1)] e [OF h(2)]
      by (metis UnCI linorder_neqE_nat)
    then show ?thesis by auto
  qed
  ultimately show ?thesis using malloc_keeps [OF held] free_keeps [OF held] by blast
qed

definition new_heap :: uheap where
  "new_heap = \<lparr>hptr = (\<lambda>_. 0), hsize = (\<lambda>_. 0), hbase = 64, freep = 0, hbrk = 768, grants = [True, True]\<rparr>"

theorem user_heap_safe_witness:
  "\<exists>r t u. malloc 100 new_heap = Ok r t \<and> r \<noteq> 0 \<and> 64 < r - 1 \<and> r + 7 \<le> hbrk t \<and> free r t = Ok () u"
proof -
  have h0: "heap_hist new_heap {}" by (rule heap_hist.start) (simp_all add: new_heap_def)
  have f: "fits new_heap 100" by (simp add: fits_def units_def new_heap_def)
  have "heap_ready new_heap {64} {}" by (simp add: heap_ready_def new_heap_def)
  from malloc_spec [OF this, of 100] obtain r t where rt: "malloc 100 new_heap = Ok (r + 1) t" "hbase t = 64"
    by (auto simp: got_block_def no_block_def new_heap_def units_def)
  have "heap_hist t {(r + 1, 100)}" using heap_hist.malloc_ok [OF h0 f rt(1)] by simp
  from user_heap_safe [OF this] have "64 < r" "r + 1 + 7 \<le> hbrk t" "\<exists>u. free (r + 1) t = Ok () u" using rt(2) by auto
  then show ?thesis using rt(1) by (intro exI [of _ "r + 1"]) auto
qed

end
