(* ===== verification/Grep.thy ===== *)
theory Grep
  imports User
begin

text \<open>
  \<^verbatim>\<open>user/grep.c\<close>: the matcher for patterns with \<^verbatim>\<open>^ . * $\<close> against the language it is meant to accept, and the
  program around it, which keeps an incomplete line at the front of a buffer of 1024 bytes.
\<close>

section \<open>The matcher\<close>

function (sequential) matchhere :: "uchar list \<Rightarrow> uchar list \<Rightarrow> bool"
  and matchstar :: "uchar \<Rightarrow> uchar list \<Rightarrow> uchar list \<Rightarrow> bool" where
  "matchhere re text =
     (if re = [] then True
      else if 1 < length re \<and> re ! 1 = 42 then matchstar (re ! 0) (drop 2 re) text
      else if re ! 0 = 36 \<and> length re = 1 then text = []
      else if text \<noteq> [] \<and> (re ! 0 = 46 \<or> re ! 0 = hd text) then matchhere (tl re) (tl text)
      else False)"
| "matchstar c re text =
     (if matchhere re text then True
      else if text \<noteq> [] \<and> (hd text = c \<or> c = 46) then matchstar c re (tl text)
      else False)"
  by pat_completeness auto

termination
  by (relation "inv_image (less_than <*lex*> less_than <*lex*> less_than)
      (\<lambda>x. case x of Inl (re, t) \<Rightarrow> (length re, length t, 0) | Inr (c, re, t) \<Rightarrow> (length re, length t, 1 :: nat))") auto

declare matchhere.simps [simp del] matchstar.simps [simp del]

fun match_from :: "uchar list \<Rightarrow> uchar list \<Rightarrow> bool" where
  "match_from re text = (matchhere re text \<or> (case text of [] \<Rightarrow> False | _ # t \<Rightarrow> match_from re t))"

definition match_re :: "uchar list \<Rightarrow> uchar list \<Rightarrow> bool" where
  "match_re re text = (if re \<noteq> [] \<and> re ! 0 = 94 then matchhere (tl re) text else match_from re text)"

section \<open>The language of a pattern\<close>

datatype item = One uchar | Star uchar

definition fits_char :: "uchar \<Rightarrow> uchar \<Rightarrow> bool" where
  "fits_char c x \<longleftrightarrow> c = 46 \<or> x = c"

fun item_lang :: "item \<Rightarrow> uchar list set" where
  "item_lang (One c) = {[x] | x. fits_char c x}"
| "item_lang (Star c) = {xs. list_all (fits_char c) xs}"

fun items_lang :: "item list \<Rightarrow> uchar list set" where
  "items_lang [] = {[]}"
| "items_lang (i # is') = {a @ b | a b. a \<in> item_lang i \<and> b \<in> items_lang is'}"

text \<open>The items of a pattern, and whether it ends with a dollar sign.\<close>

fun items :: "uchar list \<Rightarrow> item list \<times> bool" where
  "items [] = ([], False)"
| "items [c] = (if c = 36 then ([], True) else ([One c], False))"
| "items (c # d # re) =
     (if d = 42 then (Star c # fst (items re), snd (items re))
      else (One c # fst (items (d # re)), snd (items (d # re))))"

text \<open>\<open>re\<close> accepts a beginning of the text, the whole of it when the pattern is anchored at the end.\<close>

definition accepts_here :: "uchar list \<Rightarrow> uchar list \<Rightarrow> bool" where
  "accepts_here re text \<longleftrightarrow> (\<exists>a b. text = a @ b \<and> a \<in> items_lang (fst (items re)) \<and> (snd (items re) \<longrightarrow> b = []))"

definition accepts :: "uchar list \<Rightarrow> uchar list \<Rightarrow> bool" where
  "accepts re text \<longleftrightarrow>
     (if re \<noteq> [] \<and> hd re = 94 then accepts_here (tl re) text else (\<exists>a b. text = a @ b \<and> accepts_here re b))"

lemma accepts_here_nil [simp]: "accepts_here [] text"
  by (simp add: accepts_here_def)

lemma accepts_here_dollar [simp]: "accepts_here [36] text \<longleftrightarrow> text = []"
  by (simp add: accepts_here_def)

lemma accepts_here_star:
  "accepts_here (c # 42 # re) text \<longleftrightarrow> (\<exists>a b. text = a @ b \<and> list_all (fits_char c) a \<and> accepts_here re b)"
proof
  assume "accepts_here (c # 42 # re) text"
  then obtain z b where z: "text = z @ b" "z \<in> items_lang (Star c # fst (items re))" "snd (items re) \<longrightarrow> b = []"
    unfolding accepts_here_def by auto
  then obtain a a' where "z = a @ a'" "list_all (fits_char c) a" "a' \<in> items_lang (fst (items re))" by auto
  with z show "\<exists>a b. text = a @ b \<and> list_all (fits_char c) a \<and> accepts_here re b"
    unfolding accepts_here_def by (intro exI [of _ a] exI [of _ "a' @ b"]) auto
next
  assume "\<exists>a b. text = a @ b \<and> list_all (fits_char c) a \<and> accepts_here re b"
  then obtain a z where z: "text = a @ z" "list_all (fits_char c) a" "accepts_here re z" by blast
  then obtain a' b where "z = a' @ b" "a' \<in> items_lang (fst (items re))" "snd (items re) \<longrightarrow> b = []"
    unfolding accepts_here_def by blast
  with z show "accepts_here (c # 42 # re) text"
    unfolding accepts_here_def by (intro exI [of _ "a @ a'"] exI [of _ b]) auto
qed

lemma accepts_here_one:
  assumes "re = [] \<longrightarrow> c \<noteq> 36" and "re \<noteq> [] \<longrightarrow> hd re \<noteq> 42"
  shows "accepts_here (c # re) text \<longleftrightarrow> text \<noteq> [] \<and> fits_char c (hd text) \<and> accepts_here re (tl text)"
proof -
  have it: "items (c # re) = (One c # fst (items re), snd (items re))" using assms by (cases re) auto
  show ?thesis
  proof
    assume "accepts_here (c # re) text"
    then obtain z b where "text = z @ b" "z \<in> items_lang (One c # fst (items re))" "snd (items re) \<longrightarrow> b = []"
      unfolding accepts_here_def it fst_conv snd_conv by blast
    moreover from this(2) obtain x a where "z = x # a" "fits_char c x" "a \<in> items_lang (fst (items re))" by auto
    ultimately show "text \<noteq> [] \<and> fits_char c (hd text) \<and> accepts_here re (tl text)" unfolding accepts_here_def by auto
  next
    assume "text \<noteq> [] \<and> fits_char c (hd text) \<and> accepts_here re (tl text)"
    then obtain x t where t: "text = x # t" "fits_char c x" "accepts_here re t" by (cases "text") auto
    then obtain a b where ab: "t = a @ b" "a \<in> items_lang (fst (items re))" "snd (items re) \<longrightarrow> b = []" unfolding accepts_here_def by blast
    have "x # a \<in> items_lang (One c # fst (items re))" using t(2) ab(2) by (force intro: exI [of _ "[x]"])
    then show "accepts_here (c # re) text" unfolding accepts_here_def it fst_conv snd_conv
      using t(1) ab by (intro exI [of _ "x # a"] exI [of _ b]) (simp del: items_lang.simps)
  qed
qed

lemma matchhere_accepts:
  "matchhere re text = accepts_here re text"
  "matchstar c re text = (\<exists>a b. text = a @ b \<and> list_all (fits_char c) a \<and> accepts_here re b)"
proof (induction re "text" and c re "text" rule: matchhere_matchstar.induct)
  case (1 re t)
  show ?case
  proof (cases re)
    case Nil
    then show ?thesis by (simp add: matchhere.simps)
  next
    case (Cons c re')
    show ?thesis
    proof (cases "re' \<noteq> [] \<and> hd re' = 42")
      case True
      then obtain r where "re = c # 42 # r" using Cons by (cases re') auto
      then show ?thesis using 1(1) by (simp add: matchhere.simps [of "c # 42 # r"] accepts_here_star)
    next
      case False
      then have nostar: "\<not> (1 < length re \<and> re ! 1 = 42)" using Cons by (cases re') auto
      show ?thesis
      proof (cases "re' = [] \<and> c = 36")
        case True
        then show ?thesis using Cons by (simp add: matchhere.simps [of "[36]"])
      next
        case nodollar: False
        have eq: "accepts_here re t \<longleftrightarrow> t \<noteq> [] \<and> fits_char c (hd t) \<and> accepts_here re' (tl t)"
          unfolding Cons using False nodollar by (intro accepts_here_one) auto
        have "matchhere re t \<longleftrightarrow> t \<noteq> [] \<and> (c = 46 \<or> c = hd t) \<and> matchhere re' (tl t)"
          using nostar nodollar Cons by (subst matchhere.simps) auto
        then show ?thesis unfolding eq using 1(2) nostar nodollar Cons by (auto simp: fits_char_def)
      qed
    qed
  qed
next
  case (2 c re t)
  have "matchstar c re t \<longleftrightarrow> accepts_here re t \<or> (t \<noteq> [] \<and> fits_char c (hd t) \<and>
      (\<exists>a b. tl t = a @ b \<and> list_all (fits_char c) a \<and> accepts_here re b))"
  proof -
    have m: "matchstar c re t \<longleftrightarrow> matchhere re t \<or> t \<noteq> [] \<and> fits_char c (hd t) \<and> matchstar c re (tl t)"
      by (subst matchstar.simps) (auto simp: fits_char_def)
    have IH: "matchstar c re (tl t) = (\<exists>a b. tl t = a @ b \<and> list_all (fits_char c) a \<and> accepts_here re b)"
      if "\<not> matchhere re t" "t \<noteq> []" "fits_char c (hd t)"
      using 2(2) [OF that(1)] that(2,3) unfolding fits_char_def by auto
    show ?thesis unfolding m using 2(1) IH by (cases "matchhere re t"; cases "t = []"; cases "fits_char c (hd t)") simp_all
  qed
  also have "\<dots> \<longleftrightarrow> (\<exists>a b. t = a @ b \<and> list_all (fits_char c) a \<and> accepts_here re b)"
    by (cases t) (simp_all add: Cons_eq_append_conv, metis list.pred_inject)
  finally show ?case .
qed

lemma match_from_accepts: "match_from re text = (\<exists>a b. text = a @ b \<and> accepts_here re b)"
proof (induction "text")
  case Nil
  then show ?case by (simp add: matchhere_accepts)
next
  case (Cons x t)
  then show ?case by (auto simp: matchhere_accepts Cons_eq_append_conv)
qed

section \<open>Property\<close>

text \<open>
  C29 (\<^verbatim>\<open>grep.c\<close>, \<^verbatim>\<open>match\<close>, \<^verbatim>\<open>matchhere\<close>, \<^verbatim>\<open>matchstar\<close>): the matcher, which terminates on every pattern and text,
  decides the language of the pattern: a text matches when some part of it, or its beginning if the pattern starts
  with a caret, is a concatenation of what the pattern's items stand for, and that part reaches the end of
  the text if the pattern ends with a dollar sign.
\<close>

theorem match_language: "match_re re t = accepts re t"
  by (cases re) (auto simp: match_re_def accepts_def matchhere_accepts match_from_accepts simp del: match_from.simps)

end
