(* ===== verification/Filters.thy ===== *)
theory Filters
  imports Grep
begin

text \<open>
  The programs that read a stream and write another: \<^verbatim>\<open>echo\<close>, \<^verbatim>\<open>cat\<close>, \<^verbatim>\<open>wc\<close> and the main part of \<^verbatim>\<open>grep\<close>. Each
  loop until end of file has fuel for the number of calls of \<^verbatim>\<open>read\<close>; the properties show that one more
  than the bytes of the input is enough.
\<close>

section \<open>echo.c\<close>

fun echo_loop :: "uchar list list \<Rightarrow> unit uop" where
  "echo_loop [] = URet ()"
| "echo_loop (a # as) =
     uthn (write_u 1 a) (
     uthn (if as \<noteq> [] then write_u 1 (str '' '') else write_u 1 [10])
          (echo_loop as))"

definition echo_main :: "uchar list list \<Rightarrow> unit uop" where
  "echo_main argv = uthn (echo_loop (tl argv)) (exit_u 0)"

section \<open>cat.c\<close>

fun cat :: "nat \<Rightarrow> int \<Rightarrow> unit uop" where
  "cat 0 fd = UHang"
| "cat (Suc k) fd =
     ubnd (read_u fd 512) (\<lambda>(n, bs).
     if n > 0
     then ubnd (write_u 1 (take (nat n) bs)) (\<lambda>r.
          if r \<noteq> n then uthn (fprintf 2 (str ''cat: write error'' @ [10]) []) (exit_u 1)
          else cat k fd)
     else if n < 0 then uthn (fprintf 2 (str ''cat: read error'' @ [10]) []) (exit_u 1)
     else URet ())"

definition cat_main :: "nat \<Rightarrow> uchar list list \<Rightarrow> unit uop" where
  "cat_main k argv =
     (if length argv \<le> 1 then uthn (cat k 0) (exit_u 0)
      else uthn (ueach (tl argv) (\<lambda>a.
             ubnd (open_u a 0) (\<lambda>fd.
             if fd < 0 then uthn (fprintf 2 (str ''cat: cannot open %s'' @ [10]) [PStr (Some a)]) (exit_u 1)
             else uthn (cat k fd) (uthn (close_u fd) (URet ())))))
           (exit_u 0))"

section \<open>wc.c\<close>

record wcount =
  wc_l :: int
  wc_w :: int
  wc_c :: int
  inword :: bool

definition wc_char :: "uchar \<Rightarrow> wcount \<Rightarrow> wcount" where
  "wc_char ch s =
     (let s = s\<lparr>wc_c := wc_c s + 1\<rparr>;
          s = (if ch = 10 then s\<lparr>wc_l := wc_l s + 1\<rparr> else s) in
      if strchr [32, 13, 9, 10, 11] ch \<noteq> None then s\<lparr>inword := False\<rparr>
      else if \<not> inword s then s\<lparr>wc_w := wc_w s + 1, inword := True\<rparr>
      else s)"

fun wc_loop :: "nat \<Rightarrow> int \<Rightarrow> uchar list \<Rightarrow> wcount \<Rightarrow> unit uop" where
  "wc_loop 0 fd nm s = UHang"
| "wc_loop (Suc k) fd nm s =
     ubnd (read_u fd 512) (\<lambda>(n, bs).
     if n > 0 then wc_loop k fd nm (fold wc_char (take (nat n) bs) s)
     else if n < 0 then uthn (printf_u (str ''wc: read error'' @ [10]) []) (exit_u 1)
     else printf_u (str ''%d %d %d %s'' @ [10]) [PInt (of_int (wc_l s)), PInt (of_int (wc_w s)), PInt (of_int (wc_c s)), PStr (Some nm)])"

definition wc :: "nat \<Rightarrow> int \<Rightarrow> uchar list \<Rightarrow> unit uop" where
  "wc k fd nm = wc_loop k fd nm \<lparr>wc_l = 0, wc_w = 0, wc_c = 0, inword = False\<rparr>"

definition wc_main :: "nat \<Rightarrow> uchar list list \<Rightarrow> unit uop" where
  "wc_main k argv =
     (if length argv \<le> 1 then uthn (wc k 0 []) (exit_u 0)
      else uthn (ueach (tl argv) (\<lambda>a.
             ubnd (open_u a 0) (\<lambda>fd.
             if fd < 0 then uthn (printf_u (str ''wc: cannot open %s'' @ [10]) [PStr (Some a)]) (exit_u 1)
             else uthn (wc k fd a) (uthn (close_u fd) (URet ())))))
           (exit_u 0))"

section \<open>grep.c\<close>

text \<open>
  The inner loop over the lines in the buffer: \<open>p\<close> are the bytes from the pointer \<^verbatim>\<open>p\<close> on. \<^verbatim>\<open>strchr\<close> stops at a
  nul. The result are the bytes that are moved to the front of the buffer.
\<close>

lemma strchr_split:
  "strchr xs c = (if c \<in> set xs then Some (dropWhile (\<lambda>x. x \<noteq> c) xs) else None)"
  by (induction xs) auto

function grep_scan :: "uchar list \<Rightarrow> uchar list \<Rightarrow> uchar list uop" where
  "grep_scan pattern p =
     (case strchr (takeWhile (\<lambda>c. c \<noteq> 0) p) 10 of
        None \<Rightarrow> URet p
      | Some q \<Rightarrow>
          (let line = take (length (takeWhile (\<lambda>c. c \<noteq> 0) p) - length q) p in
           uthn (if match_re pattern line then write_u 1 (line @ [10]) else URet 0)
                (grep_scan pattern (drop (length line + 1) p))))"
  by pat_completeness auto

termination
  by (relation "measure (\<lambda>(pattern, p). length p)") (auto simp: strchr_split split: if_splits intro!: diff_less)

declare grep_scan.simps [simp del]

fun grep :: "nat \<Rightarrow> uchar list \<Rightarrow> int \<Rightarrow> uchar list \<Rightarrow> unit uop" where
  "grep 0 pattern fd b = UHang"
| "grep (Suc k) pattern fd b =
     ubnd (read_u fd (1024 - int (length b) - 1)) (\<lambda>(n, bs).
     if n > 0 then ubnd (grep_scan pattern (b @ take (nat n) bs)) (grep k pattern fd)
     else URet ())"

definition grep_main :: "nat \<Rightarrow> uchar list list \<Rightarrow> unit uop" where
  "grep_main k argv =
     (if length argv \<le> 1 then uthn (fprintf 2 (str ''usage: grep pattern [file ...]'' @ [10]) []) (exit_u 1)
      else if length argv \<le> 2 then uthn (grep k (argv ! 1) 0 []) (exit_u 0)
      else uthn (ueach (drop 2 argv) (\<lambda>a.
             ubnd (open_u a 0) (\<lambda>fd.
             if fd < 0 then uthn (printf_u (str ''grep: cannot open %s'' @ [10]) [PStr (Some a)]) (exit_u 1)
             else uthn (grep k (argv ! 1) fd []) (uthn (close_u fd) (URet ())))))
           (exit_u 0))"

section \<open>A stream of input\<close>

text \<open>
  A kernel with one input stream: \<^verbatim>\<open>read\<close> takes some of the bytes that are left, at least one and as many as the
  list \<open>sizes\<close> says, but no more than asked for; \<^verbatim>\<open>write\<close> appends to the output of its descriptor.
\<close>

record feedw =
  inp :: "uchar list"
  sizes :: "nat list"
  outs :: "int \<Rightarrow> uchar list"

definition feed_read :: "nat \<Rightarrow> feedw \<Rightarrow> nat" where
  "feed_read n w = min n (min (length (inp w)) (case sizes w of [] \<Rightarrow> n | c # _ \<Rightarrow> c + 1))"

definition feed :: "feedw \<Rightarrow> ureq \<Rightarrow> uresp option \<times> feedw" where
  "feed w r = (case r of
       ReqRead fd n \<Rightarrow>
         (let k = feed_read (nat n) w in
          (Some (uresp_of (int k) (take k (inp w))), w\<lparr>inp := drop k (inp w), sizes := tl (sizes w)\<rparr>))
     | ReqWrite fd bs \<Rightarrow> (Some (uresp_of (int (length bs)) []), w\<lparr>outs := (outs w)(fd := outs w fd @ bs)\<rparr>)
     | _ \<Rightarrow> (None, w))"

definition emit :: "int \<Rightarrow> uchar list \<Rightarrow> feedw \<Rightarrow> feedw" where
  "emit fd bs w = w\<lparr>outs := (outs w)(fd := outs w fd @ bs)\<rparr>"

lemma emit_simps [simp]: "inp (emit fd bs w) = inp w" "sizes (emit fd bs w) = sizes w" "outs (emit fd bs w) = (outs w)(fd := outs w fd @ bs)"
  by (simp_all add: emit_def)

interpretation feed_out: output_kernel feed emit
  by unfold_locales (simp_all add: feed_def emit_def)

lemma run_read:
  "urun feed (ubnd (read_u fd n) f) w =
    urun feed (f (int (feed_read (nat n) w), take (feed_read (nat n) w) (inp w)))
      (w\<lparr>inp := drop (feed_read (nat n) w) (inp w), sizes := tl (sizes w)\<rparr>)"
  by (simp add: read_u_def feed_def Let_def)

lemma run_write:
  "urun feed (ubnd (write_u fd bs) f) w = urun feed (f (int (length bs))) (emit fd bs w)"
  by (simp add: write_u_def feed_def emit_def)

lemma feed_read_0: "inp w = [] \<Longrightarrow> feed_read n w = 0"
  by (simp add: feed_read_def)

lemma feed_read_pos: "inp w \<noteq> [] \<Longrightarrow> 0 < n \<Longrightarrow> 0 < feed_read n w"
  by (simp add: feed_read_def split: list.splits)

lemma feed_read_le: "feed_read n w \<le> length (inp w)" "feed_read n w \<le> n"
  by (simp_all add: feed_read_def)

lemma dropWhile_shorter: "dropWhile P s = c # r \<Longrightarrow> length r < length s"
  by (metis length_Cons length_dropWhile_le less_eq_Suc_le)

subsection \<open>cat\<close>

lemma cat_copies:
  "length (inp w) < k \<Longrightarrow> \<exists>ss. urun feed (cat k fd) w = (Done (), emit 1 (inp w) (w\<lparr>inp := [], sizes := ss\<rparr>))"
proof (induction k arbitrary: w)
  case 0
  then show ?case by simp
next
  case (Suc k)
  let ?j = "feed_read 512 w"
  show ?case
  proof (cases "inp w = []")
    case True
    then show ?thesis by (auto simp: run_read feed_read_0 feed_out.put_nil)
  next
    case False
    then have j: "0 < ?j" by (simp add: feed_read_pos)
    let ?w = "emit 1 (take ?j (inp w)) (w\<lparr>inp := drop ?j (inp w), sizes := tl (sizes w)\<rparr>)"
    have len: "length (take ?j (inp w)) = ?j" using feed_read_le [of 512 w] by simp
    have "length (inp ?w) < k" using Suc.prems j False by (cases "inp w") auto
    from Suc.IH [OF this] obtain ss where "urun feed (cat k fd) ?w = (Done (), emit 1 (inp ?w) (?w\<lparr>inp := [], sizes := ss\<rparr>))" by blast
    moreover have "urun feed (cat (Suc k) fd) w = urun feed (cat k fd) ?w" using j len by (simp add: run_read run_write)
    moreover have "emit 1 (inp ?w) (?w\<lparr>inp := [], sizes := ss\<rparr>) = emit 1 (inp w) (w\<lparr>inp := [], sizes := ss\<rparr>)"
      by (simp add: emit_def)
    ultimately show ?thesis by (intro exI [of _ ss]) (simp only:)
  qed
qed

subsection \<open>wc\<close>

definition is_space :: "uchar \<Rightarrow> bool" where
  "is_space c \<longleftrightarrow> c \<in> {32, 13, 9, 10, 11}"

text \<open>The words of a text: the maximal runs of characters that are not space.\<close>

function words :: "uchar list \<Rightarrow> uchar list list" where
  "words s = (case dropWhile is_space s of [] \<Rightarrow> []
     | c # r \<Rightarrow> (c # takeWhile (\<lambda>x. \<not> is_space x) r) # words (dropWhile (\<lambda>x. \<not> is_space x) r))"
  by pat_completeness auto

termination
  by (relation "measure length") (auto dest!: dropWhile_shorter intro: le_less_trans [OF length_dropWhile_le])

declare words.simps [simp del]

lemma words_nil [simp]: "words [] = []"
  by (simp add: words.simps)

lemma words_space: "is_space c \<Longrightarrow> words (c # s) = words s"
  by (simp add: words.simps [of "c # s"] words.simps [of s])

lemma words_char: "\<not> is_space c \<Longrightarrow> words (c # s) = (c # takeWhile (\<lambda>x. \<not> is_space x) s) # words (dropWhile (\<lambda>x. \<not> is_space x) s)"
  by (simp add: words.simps [of "c # s"])

lemma wc_fold:
  fixes s cs
  defines "t \<equiv> fold wc_char cs s"
  shows "wc_l t = wc_l s + int (count_list cs 10) \<and> wc_c t = wc_c s + int (length cs) \<and>
    wc_w t = wc_w s + int (length (words (if inword s then dropWhile (\<lambda>x. \<not> is_space x) cs else cs)))"
  unfolding t_def
proof (induction cs arbitrary: s)
  case Nil
  then show ?case by simp
next
  case (Cons c cs)
  have sp: "strchr [32, 13, 9, 10, 11] c \<noteq> None \<longleftrightarrow> is_space c" by (auto simp: is_space_def)
  show ?case using Cons [of "wc_char c s"] sp
    by (cases "is_space c"; cases "inword s") (auto simp: wc_char_def Let_def words_space words_char)
qed

lemma wc_counts:
  "length (inp w) < k \<Longrightarrow> \<exists>ss. urun feed (wc_loop k fd nm s) w =
    (let t = fold wc_char (inp w) s in
     (Done (), emit 1 (fmt_text False (str ''%d %d %d %s'' @ [10]) [PInt (of_int (wc_l t)), PInt (of_int (wc_w t)), PInt (of_int (wc_c t)), PStr (Some nm)])
       (w\<lparr>inp := [], sizes := ss\<rparr>)))"
proof (induction k arbitrary: w s)
  case 0
  then show ?case by simp
next
  case (Suc k)
  let ?j = "feed_read 512 w"
  show ?case
  proof (cases "inp w = []")
    case True
    have ok: "fmt_ok False (str ''%d %d %d %s'' @ [10]) [PInt a, PInt b, PInt c, PStr (Some nm)]" for a b c by (simp add: str_def)
    then show ?thesis using True unfolding wc_loop.simps run_read by (auto simp: feed_read_0 printf_u_def feed_out.run_vprintf [OF ok])
  next
    case False
    then have j: "0 < ?j" by (simp add: feed_read_pos)
    let ?w = "w\<lparr>inp := drop ?j (inp w), sizes := tl (sizes w)\<rparr>"
    have "length (inp ?w) < k" using Suc.prems j False by (cases "inp w") auto
    from Suc.IH [OF this, of "fold wc_char (take ?j (inp w)) s"] show ?thesis
      using j fold_append [of wc_char "take ?j (inp w)" "drop ?j (inp w)"] by (simp add: run_read)
  qed
qed

subsection \<open>grep\<close>

text \<open>The complete lines of a text, without their newlines, and the incomplete line at its end.\<close>

function split_lines :: "uchar list \<Rightarrow> uchar list list \<times> uchar list" where
  "split_lines s = (case dropWhile (\<lambda>c. c \<noteq> 10) s of [] \<Rightarrow> ([], s)
     | _ # r \<Rightarrow> (takeWhile (\<lambda>c. c \<noteq> 10) s # fst (split_lines r), snd (split_lines r)))"
  by pat_completeness auto

termination
  by (relation "measure length") (auto dest: dropWhile_shorter)

declare split_lines.simps [simp del]

lemma split_lines_none: "10 \<notin> set s \<Longrightarrow> split_lines s = ([], s)"
proof -
  assume "10 \<notin> set s"
  then have d: "dropWhile (\<lambda>c. c \<noteq> 10) s = []" by (auto simp: dropWhile_eq_Nil_conv)
  show ?thesis unfolding split_lines.simps [of s] d by simp
qed

lemma split_lines_line: "10 \<notin> set l \<Longrightarrow> split_lines (l @ 10 # r) = (l # fst (split_lines r), snd (split_lines r))"
proof -
  assume "10 \<notin> set l"
  then have d: "dropWhile (\<lambda>c. c \<noteq> 10) (l @ 10 # r) = 10 # r" "takeWhile (\<lambda>c. c \<noteq> 10) (l @ 10 # r) = l"
    by (induction l) simp_all
  show ?thesis unfolding split_lines.simps [of "l @ 10 # r"] d by simp
qed

text \<open>Induction over the lines of a text.\<close>

lemma lines_induct [case_names none line]:
  assumes "\<And>s. 10 \<notin> set s \<Longrightarrow> P s" and "\<And>l r. 10 \<notin> set l \<Longrightarrow> P r \<Longrightarrow> P (l @ 10 # r)"
  shows "P (s :: uchar list)"
proof (induction s rule: length_induct)
  case (1 s)
  show ?case
  proof (cases "10 \<in> set s")
    case True
    then obtain l r where "s = l @ 10 # r" "10 \<notin> set l" by (metis split_list_first)
    then show ?thesis using assms(2) 1 by simp
  next
    case False
    then show ?thesis by (rule assms(1))
  qed
qed

lemma split_lines_append:
  "split_lines (a @ b) = (fst (split_lines a) @ fst (split_lines (snd (split_lines a) @ b)), snd (split_lines (snd (split_lines a) @ b)))"
  by (induction a rule: lines_induct) (simp_all add: split_lines_none split_lines_line)

lemma split_lines_rest: "10 \<notin> set (snd (split_lines a))" "set (snd (split_lines a)) \<subseteq> set a"
  by (induction a rule: lines_induct) (auto simp: split_lines_none split_lines_line)

lemma grep_scan_none: "10 \<notin> set p \<Longrightarrow> grep_scan pat p = URet p"
  by (simp add: grep_scan.simps [of pat p] strchr_split) (metis set_takeWhileD)

lemma grep_scan_line:
  assumes "10 \<notin> set l" and "0 \<notin> set l"
  shows "grep_scan pat (l @ 10 # r) = uthn (if match_re pat l then write_u 1 (l @ [10]) else URet 0) (grep_scan pat r)"
proof -
  let ?t = "takeWhile (\<lambda>c. c \<noteq> 0) r"
  have tw: "takeWhile (\<lambda>c. c \<noteq> 0) (l @ 10 # r) = l @ 10 # ?t" using assms(2) by (induction l) simp_all
  moreover have "dropWhile (\<lambda>x. x \<noteq> 10) (l @ 10 # ?t) = 10 # ?t" using assms(1) by (induction l) simp_all
  ultimately show ?thesis by (subst grep_scan.simps) (simp add: strchr_split)
qed

definition grep_output :: "uchar list \<Rightarrow> uchar list list \<Rightarrow> uchar list" where
  "grep_output pat ls = concat (map (\<lambda>l. l @ [10]) (filter (match_re pat) ls))"

lemma grep_scan_run:
  "0 \<notin> set p \<Longrightarrow> urun feed (grep_scan pat p) w = (Done (snd (split_lines p)), emit 1 (grep_output pat (fst (split_lines p))) w)"
proof (induction p arbitrary: w rule: lines_induct)
  case (none s)
  then show ?case by (simp add: grep_scan_none split_lines_none grep_output_def feed_out.put_nil)
next
  case (line l r)
  then show ?case
    by (simp add: grep_scan_line split_lines_line grep_output_def uthn_def run_write feed_out.put_append)
qed

lemma incomplete_line_bound:
  assumes "\<forall>l \<in> insert (snd (split_lines (r @ z))) (set (fst (split_lines (r @ z)))). length l \<le> m" and "10 \<notin> set r"
  shows "length r \<le> m"
proof (cases "10 \<in> set z")
  case True
  then obtain a b where z: "z = a @ 10 # b" "10 \<notin> set a" by (metis split_list_first)
  then have "r @ a \<in> set (fst (split_lines (r @ z)))" using split_lines_line [of "r @ a" b] assms(2) by simp
  then have "length (r @ a) \<le> m" using assms(1) by blast
  then show ?thesis by simp
next
  case False
  then show ?thesis using assms split_lines_none [of "r @ z"] by simp
qed

lemma grep_run:
  "length (inp w) < k \<Longrightarrow> 0 \<notin> set (b @ inp w) \<Longrightarrow> 10 \<notin> set b \<Longrightarrow>
   \<forall>l \<in> insert (snd (split_lines (b @ inp w))) (set (fst (split_lines (b @ inp w)))). length l \<le> 1022 \<Longrightarrow>
   \<exists>ss. urun feed (grep k pat fd b) w = (Done (), emit 1 (grep_output pat (fst (split_lines (b @ inp w)))) (w\<lparr>inp := [], sizes := ss\<rparr>))"
proof (induction k arbitrary: b w)
  case 0
  then show ?case by simp
next
  case (Suc k)
  have lb: "length b \<le> 1022" by (rule incomplete_line_bound [OF Suc.prems(4,3)])
  define n where "n = nat (1024 - int (length b) - 1)"
  define j where "j = feed_read n w"
  have step: "urun feed (grep (Suc k) pat fd b) w = urun feed (if 0 < j then ubnd (grep_scan pat (b @ take j (inp w))) (grep k pat fd) else URet ())
      (w\<lparr>inp := drop j (inp w), sizes := tl (sizes w)\<rparr>)"
    unfolding grep.simps run_read n_def j_def by simp
  show ?case
  proof (cases "inp w = []")
    case True
    then have "j = 0" by (simp add: j_def feed_read_0)
    then show ?thesis unfolding step using True Suc.prems(3) by (auto simp: split_lines_none grep_output_def feed_out.put_nil)
  next
    case False
    then have j: "0 < j" using lb by (simp add: feed_read_pos j_def n_def)
    let ?p = "b @ take j (inp w)" and ?w = "w\<lparr>inp := drop j (inp w), sizes := tl (sizes w)\<rparr>"
    let ?r = "snd (split_lines ?p)" and ?o = "grep_output pat (fst (split_lines ?p))"
    have all: "b @ inp w = ?p @ drop j (inp w)" by simp
    note sp = split_lines_append [of ?p "drop j (inp w)", folded all]
    have p0: "0 \<notin> set ?p" "0 \<notin> set (?r @ inp (emit 1 ?o ?w))" using Suc.prems(2) split_lines_rest(2) [of ?p] by (auto dest: in_set_takeD in_set_dropD)
    have "length (inp (emit 1 ?o ?w)) < k" using Suc.prems(1) j False by (cases "inp w") auto
    moreover have "\<forall>l \<in> insert (snd (split_lines (?r @ inp (emit 1 ?o ?w)))) (set (fst (split_lines (?r @ inp (emit 1 ?o ?w))))). length l \<le> 1022"
      using Suc.prems(4) unfolding sp by simp
    ultimately obtain ss where "urun feed (grep k pat fd ?r) (emit 1 ?o ?w) =
        (Done (), emit 1 (grep_output pat (fst (split_lines (?r @ inp (emit 1 ?o ?w))))) ((emit 1 ?o ?w)\<lparr>inp := [], sizes := ss\<rparr>))"
      using Suc.IH [of "emit 1 ?o ?w" ?r] p0 split_lines_rest(1) by blast
    then show ?thesis unfolding step using j
      by (intro exI [of _ ss]) (simp add: urun_bnd grep_scan_run [OF p0(1)] sp grep_output_def emit_def)
  qed
qed

section \<open>Properties\<close>

text \<open>
  C30 (\<^verbatim>\<open>grep.c\<close>, \<^verbatim>\<open>grep\<close>): on an input without nul bytes whose lines have at most 1022 bytes, however the kernel
  cuts it into reads, \<^verbatim>\<open>grep\<close> returns and has written exactly the complete lines in which the pattern matches, in
  order. The buffer's bookkeeping loses and repeats nothing.
\<close>

theorem grep_prints_matching_lines:
  assumes "0 \<notin> set (inp w)" and "length (inp w) < k"
    and "\<forall>l \<in> insert (snd (split_lines (inp w))) (set (fst (split_lines (inp w)))). length l \<le> 1022"
  shows "\<exists>w'. urun feed (grep k pat fd []) w = (Done (), w') \<and> inp w' = [] \<and>
    outs w' = (outs w)(1 := outs w 1 @ concat (map (\<lambda>l. l @ [10]) (filter (match_re pat) (fst (split_lines (inp w))))))"
  using grep_run [of w k "[]" pat fd] assms by (auto simp: grep_output_def)

definition three_lines :: feedw where
  "three_lines = \<lparr>inp = str ''ab'' @ [10] @ str ''cd'' @ [10] @ str ''ad'' @ [10], sizes = [3, 0], outs = (\<lambda>_. [])\<rparr>"

lemma three_lines_split: "split_lines (inp three_lines) = ([str ''ab'', str ''cd'', str ''ad''], [])"
proof -
  have "inp three_lines = str ''ab'' @ 10 # str ''cd'' @ 10 # str ''ad'' @ 10 # []" by (simp add: three_lines_def)
  moreover have "10 \<notin> set (str ''ab'')" "10 \<notin> set (str ''cd'')" "10 \<notin> set (str ''ad'')" by (simp_all add: str_def)
  ultimately show ?thesis by (simp add: split_lines_line split_lines_none)
qed

theorem grep_prints_matching_lines_witness:
  "\<exists>w'. urun feed (grep 10 (str ''^a'') 0 []) three_lines = (Done (), w') \<and> outs w' 1 = str ''ab'' @ [10] @ str ''ad'' @ [10]"
proof -
  have m: "match_re (str ''^a'') (str ''ab'')" "\<not> match_re (str ''^a'') (str ''cd'')" "match_re (str ''^a'') (str ''ad'')" by code_simp+
  have "0 \<notin> set (inp three_lines)" "length (inp three_lines) < 10" by (simp_all add: three_lines_def str_def)
  moreover have "\<forall>l \<in> insert (snd (split_lines (inp three_lines))) (set (fst (split_lines (inp three_lines)))). length l \<le> 1022"
    unfolding three_lines_split by (simp add: str_def)
  ultimately obtain w' where w: "urun feed (grep 10 (str ''^a'') 0 []) three_lines = (Done (), w')"
      "outs w' = (outs three_lines)(1 := outs three_lines 1 @ concat (map (\<lambda>l. l @ [10]) (filter (match_re (str ''^a'')) (fst (split_lines (inp three_lines))))))"
    using grep_prints_matching_lines [of three_lines 10 "str ''^a''" 0] by blast
  have "outs three_lines 1 = []" by (simp add: three_lines_def)
  then show ?thesis using w m unfolding three_lines_split by (intro exI [of _ w']) simp
qed



text \<open>
  C32 (\<^verbatim>\<open>wc.c\<close>): \<^verbatim>\<open>wc\<close> returns and has printed the number of newlines, of words and of bytes of its input,
  however the kernel cuts the input, also inside a word, into reads.
\<close>

theorem wc_prints_counts:
  assumes "length (inp w) < k"
  shows "\<exists>w'. urun feed (wc k fd nm) w = (Done (), w') \<and> inp w' = [] \<and>
    outs w' = (outs w)(1 := outs w 1 @ fmt_text False (str ''%d %d %d %s'' @ [10])
      [PInt (of_nat (count_list (inp w) 10)), PInt (of_nat (length (words (inp w)))), PInt (of_nat (length (inp w))), PStr (Some nm)])"
  using wc_counts [OF assms, of fd nm "\<lparr>wc_l = 0, wc_w = 0, wc_c = 0, inword = False\<rparr>"]
    wc_fold [of "inp w" "\<lparr>wc_l = 0, wc_w = 0, wc_c = 0, inword = False\<rparr>"]
  by (auto simp: wc_def Let_def)

theorem wc_prints_counts_witness:
  "\<exists>w'. urun feed (wc 10 0 (str ''f'')) three_lines = (Done (), w') \<and>
    outs w' 1 = fmt_text False (str ''%d %d %d %s'' @ [10]) [PInt 3, PInt 3, PInt 9, PStr (Some (str ''f''))]"
proof -
  have "length (inp three_lines) < 10" "count_list (inp three_lines) 10 = 3" "length (inp three_lines) = 9"
    by (simp_all add: three_lines_def str_def)
  moreover have "length (words (inp three_lines)) = 3" by code_simp
  ultimately show ?thesis using wc_prints_counts [of three_lines 10 0 "str ''f''"] by (auto simp: three_lines_def)
qed

text \<open>
  C33 (\<^verbatim>\<open>cat.c\<close>): whatever the sizes of the reads, \<^verbatim>\<open>cat\<close> comes to an end after at most one more call of \<^verbatim>\<open>read\<close>
  than there are bytes, and by then every byte of its input has been written, in order.
\<close>

theorem cat_writes_everything:
  assumes "length (inp w) < k"
  shows "\<exists>w'. urun feed (cat k fd) w = (Done (), w') \<and> inp w' = [] \<and> outs w' = (outs w)(1 := outs w 1 @ inp w)"
  using cat_copies [OF assms, of fd] by auto

theorem cat_writes_everything_witness:
  "\<exists>w'. urun feed (cat 10 0) three_lines = (Done (), w') \<and> outs w' 1 = inp three_lines"
  using cat_writes_everything [of three_lines 10 0] by (auto simp: three_lines_def str_def)

end
