(* ===== verification/Shell.thy ===== *)
theory Shell
  imports User
begin

text \<open>
  The shell (\<^verbatim>\<open>user/sh.c\<close>): the parser over a line in a buffer, and the commands it runs. A pointer into the line
  is an offset; the end of the line, \<^verbatim>\<open>es\<close>, is its length, where the byte is nul. A command keeps the offsets of its
  words until \<^verbatim>\<open>nulterminate\<close> has stored a nul after each. The parser's functions call each other
  with fuel; it is enough for every line to start with eight times its length plus eight.
\<close>

section \<open>Commands\<close>

definition MAXARGS :: nat where "MAXARGS = 10"

datatype cmd =
    EXEC "(nat \<times> nat) list"
  | REDIR cmd nat nat int int
  | PIPE cmd cmd
  | LIST cmd cmd
  | BACK cmd

datatype 'a presult = PDone 'a | PPanic "uchar list" | PFuel

primrec pbnd :: "'a presult \<Rightarrow> ('a \<Rightarrow> 'b presult) \<Rightarrow> 'b presult" where
  "pbnd (PDone a) f = f a"
| "pbnd (PPanic m) f = PPanic m"
| "pbnd PFuel f = PFuel"

text \<open>The constructors, where \<^verbatim>\<open>malloc\<close> has the memory.\<close>

definition execcmd :: "(nat \<times> nat) list \<Rightarrow> cmd" where [simp]: "execcmd args = EXEC args"
definition redircmd :: "cmd \<Rightarrow> nat \<Rightarrow> nat \<Rightarrow> int \<Rightarrow> int \<Rightarrow> cmd" where [simp]: "redircmd subcmd q eq mode fd = REDIR subcmd q eq mode fd"
definition pipecmd :: "cmd \<Rightarrow> cmd \<Rightarrow> cmd" where [simp]: "pipecmd left right = PIPE left right"
definition listcmd :: "cmd \<Rightarrow> cmd \<Rightarrow> cmd" where [simp]: "listcmd left right = LIST left right"
definition backcmd :: "cmd \<Rightarrow> cmd" where [simp]: "backcmd subcmd = BACK subcmd"

section \<open>Tokens\<close>

definition whitespace :: "uchar list" where "whitespace = [32, 9, 13, 10, 11]"
definition symbols :: "uchar list" where "symbols = str ''<|>&;()''"

definition byte_at :: "uchar list \<Rightarrow> nat \<Rightarrow> uchar" where
  "byte_at b s = (if s < length b then b ! s else 0)"

text \<open>The loop \<^verbatim>\<open>while(s < es && P(*s)) s++\<close>.\<close>

definition skip_while :: "(uchar \<Rightarrow> bool) \<Rightarrow> uchar list \<Rightarrow> nat \<Rightarrow> nat" where
  "skip_while P b s = s + length (takeWhile P (drop s b))"

definition is_ws :: "uchar \<Rightarrow> bool" where
  "is_ws c \<longleftrightarrow> strchr whitespace c \<noteq> None"

definition is_word :: "uchar \<Rightarrow> bool" where
  "is_word c \<longleftrightarrow> strchr whitespace c = None \<and> strchr symbols c = None"

text \<open>The result: the token, where it begins and ends, and where the next one begins.\<close>

definition gettoken :: "uchar list \<Rightarrow> nat \<Rightarrow> uchar \<times> nat \<times> nat \<times> nat" where
  "gettoken b s =
     (let q = skip_while is_ws b s;
          c = byte_at b q;
          (ret, eq) =
            (if c = 0 then (c, q)
             else if c \<in> set (str ''|();&<'') then (c, q + 1)
             else if c = of_char CHR ''>'' then (if byte_at b (q + 1) = of_char CHR ''>'' then (of_char CHR ''+'', q + 2) else (c, q + 1))
             else (of_char CHR ''a'', skip_while is_word b q)) in
      (ret, q, eq, skip_while is_ws b eq))"

definition peek :: "uchar list \<Rightarrow> nat \<Rightarrow> uchar list \<Rightarrow> bool \<times> nat" where
  "peek b s toks =
     (let s = skip_while is_ws b s in (byte_at b s \<noteq> 0 \<and> strchr toks (byte_at b s) \<noteq> None, s))"

section \<open>The parser\<close>

definition wrap_redirs :: "cmd \<Rightarrow> (nat \<times> nat \<times> int \<times> int) list \<Rightarrow> cmd" where
  "wrap_redirs c rs = foldl (\<lambda>c (q, eq, mode, fd). redircmd c q eq mode fd) c rs"

definition tok_next :: "uchar list \<Rightarrow> nat \<Rightarrow> nat" where
  "tok_next b s = snd (snd (snd (gettoken b s)))"

text \<open>
  \<^verbatim>\<open>parseexec\<close> adds the words it finds to the command it made first, which by then may be inside redirections: the
  loop keeps the words and the redirections apart and puts them together at its end.
\<close>

fun parseredirs :: "nat \<Rightarrow> uchar list \<Rightarrow> (nat \<times> nat \<times> int \<times> int) list \<Rightarrow> nat \<Rightarrow> ((nat \<times> nat \<times> int \<times> int) list \<times> nat) presult" where
  "parseredirs 0 b rs s = PFuel"
| "parseredirs (Suc k) b rs s =
     (case peek b s (str ''<>'') of
        (False, s) \<Rightarrow> PDone (rs, s)
      | (True, s) \<Rightarrow>
          (case gettoken b s of (tok, _, _, s) \<Rightarrow>
           case gettoken b s of (tok', q, eq, s) \<Rightarrow>
           if tok' \<noteq> of_char CHR ''a'' then PPanic (str ''missing file for redirection'')
           else if tok = of_char CHR ''<'' then parseredirs k b (rs @ [(q, eq, O_RDONLY, 0)]) s
           else if tok = of_char CHR ''>'' then parseredirs k b (rs @ [(q, eq, O_WRONLY OR O_CREATE OR O_TRUNC, 1)]) s
           else if tok = of_char CHR ''+'' then parseredirs k b (rs @ [(q, eq, O_WRONLY OR O_CREATE, 1)]) s
           else parseredirs k b rs s))"

fun parse_args :: "nat \<Rightarrow> uchar list \<Rightarrow> (nat \<times> nat) list \<Rightarrow> (nat \<times> nat \<times> int \<times> int) list \<Rightarrow> nat \<Rightarrow> (cmd \<times> nat) presult" where
  "parse_args 0 b args rs s = PFuel"
| "parse_args (Suc k) b args rs s =
     (case peek b s (str ''|)&;'') of
        (True, s) \<Rightarrow> PDone (wrap_redirs (execcmd args) rs, s)
      | (False, s) \<Rightarrow>
          (case gettoken b s of (tok, q, eq, s) \<Rightarrow>
           if tok = 0 then PDone (wrap_redirs (execcmd args) rs, s)
           else if tok \<noteq> of_char CHR ''a'' then PPanic (str ''syntax'')
           else if length args + 1 \<ge> MAXARGS then PPanic (str ''too many args'')
           else pbnd (parseredirs k b rs s) (\<lambda>(rs, s). parse_args k b (args @ [(q, eq)]) rs s)))"

fun parse_backs :: "nat \<Rightarrow> uchar list \<Rightarrow> cmd \<Rightarrow> nat \<Rightarrow> (cmd \<times> nat) presult" where
  "parse_backs 0 b c s = PFuel"
| "parse_backs (Suc k) b c s =
     (case peek b s (str ''&'') of
        (True, s) \<Rightarrow> parse_backs k b (backcmd c) (tok_next b s)
      | (False, s) \<Rightarrow> PDone (c, s))"

fun parseline :: "nat \<Rightarrow> uchar list \<Rightarrow> nat \<Rightarrow> (cmd \<times> nat) presult"
  and parsepipe :: "nat \<Rightarrow> uchar list \<Rightarrow> nat \<Rightarrow> (cmd \<times> nat) presult"
  and parseexec :: "nat \<Rightarrow> uchar list \<Rightarrow> nat \<Rightarrow> (cmd \<times> nat) presult"
  and parseblock :: "nat \<Rightarrow> uchar list \<Rightarrow> nat \<Rightarrow> (cmd \<times> nat) presult" where
  "parseline 0 b s = PFuel"
| "parseline (Suc k) b s =
     pbnd (parsepipe k b s) (\<lambda>(c, s).
     pbnd (parse_backs k b c s) (\<lambda>(c, s).
     case peek b s (str '';'') of
       (True, s) \<Rightarrow> pbnd (parseline k b (tok_next b s)) (\<lambda>(d, s). PDone (listcmd c d, s))
     | (False, s) \<Rightarrow> PDone (c, s)))"
| "parsepipe 0 b s = PFuel"
| "parsepipe (Suc k) b s =
     pbnd (parseexec k b s) (\<lambda>(c, s).
     case peek b s (str ''|'') of
       (True, s) \<Rightarrow> pbnd (parsepipe k b (tok_next b s)) (\<lambda>(d, s). PDone (pipecmd c d, s))
     | (False, s) \<Rightarrow> PDone (c, s))"
| "parseexec 0 b s = PFuel"
| "parseexec (Suc k) b s =
     (case peek b s (str ''('') of
        (True, s) \<Rightarrow> parseblock k b s
      | (False, s) \<Rightarrow> pbnd (parseredirs k b [] s) (\<lambda>(rs, s). parse_args k b [] rs s))"
| "parseblock 0 b s = PFuel"
| "parseblock (Suc k) b s =
     (case peek b s (str ''('') of
        (False, s) \<Rightarrow> PPanic (str ''parseblock'')
      | (True, s) \<Rightarrow>
          pbnd (parseline k b (tok_next b s)) (\<lambda>(c, s).
          case peek b s (str '')'') of
            (False, s) \<Rightarrow> PPanic (str ''syntax - missing )'')
          | (True, s) \<Rightarrow> pbnd (parseredirs k b [] (tok_next b s)) (\<lambda>(rs, s). PDone (wrap_redirs c rs, s))))"

text \<open>\<^verbatim>\<open>nulterminate\<close> stores a nul at the end of each word; the end of the line is a nul already.\<close>

fun nulterminate :: "cmd \<Rightarrow> uchar list \<Rightarrow> uchar list" where
  "nulterminate (EXEC args) b = fold (\<lambda>(q, eq) b. b[eq := 0]) args b"
| "nulterminate (REDIR c q eq mode fd) b = (nulterminate c b)[eq := 0]"
| "nulterminate (PIPE l r) b = nulterminate r (nulterminate l b)"
| "nulterminate (LIST l r) b = nulterminate r (nulterminate l b)"
| "nulterminate (BACK c) b = nulterminate c b"

definition parse_fuel :: "uchar list \<Rightarrow> nat" where
  "parse_fuel b = 8 * length b + 8"

definition parsecmd :: "uchar list \<Rightarrow> (cmd \<times> uchar list) presult" where
  "parsecmd b =
     pbnd (parseline (parse_fuel b) b 0) (\<lambda>(c, s).
     case peek b s [] of (_, s) \<Rightarrow>
       if s \<noteq> length b then PPanic (str ''leftovers: '' @ drop s b @ [10] @ str ''syntax'')
       else PDone (c, nulterminate c b))"

section \<open>Running commands\<close>

definition cstring :: "uchar list \<Rightarrow> nat \<Rightarrow> uchar list" where
  "cstring b q = takeWhile (\<lambda>c. c \<noteq> 0) (drop q b)"

definition panic_sh :: "uchar list \<Rightarrow> 'a uop" where
  "panic_sh m = uthn (fprintf 2 (str ''%s'' @ [10]) [PStr (Some m)]) (exit_u 1)"

definition fork1 :: "int uop" where
  "fork1 = ubnd fork_u (\<lambda>pid. if pid = - 1 then panic_sh (str ''fork'') else URet pid)"

text \<open>The command \<open>c\<close> with its words in the buffer \<open>b\<close>.\<close>

fun runcmd :: "uchar list \<Rightarrow> cmd \<Rightarrow> unit uop" where
  "runcmd b (EXEC args) =
     (case args of
        [] \<Rightarrow> exit_u 1
      | (q, _) # _ \<Rightarrow>
          uthn (exec_u (cstring b q) (map (\<lambda>(q, _). cstring b q) args)) (
          uthn (fprintf 2 (str ''exec %s failed'' @ [10]) [PStr (Some (cstring b q))])
               (exit_u 0)))"
| "runcmd b (REDIR c q eq mode fd) =
     uthn (close_u fd) (
     ubnd (open_u (cstring b q) mode) (\<lambda>r.
     if r < 0 then uthn (fprintf 2 (str ''open %s failed'' @ [10]) [PStr (Some (cstring b q))]) (exit_u 1)
     else uthn (runcmd b c) (exit_u 0)))"
| "runcmd b (LIST l r) =
     ubnd fork1 (\<lambda>pid.
     uthn (if pid = 0 then runcmd b l else URet ()) (
     uthn wait_u (
     uthn (runcmd b r) (exit_u 0))))"
| "runcmd b (PIPE l r) =
     ubnd pipe_u (\<lambda>(e, p0, p1).
     if e < 0 then panic_sh (str ''pipe'')
     else ubnd fork1 (\<lambda>pid.
          uthn (if pid = 0
                then uthn (close_u 1) (uthn (dup_u p1) (uthn (close_u p0) (uthn (close_u p1) (runcmd b l))))
                else URet ()) (
          ubnd fork1 (\<lambda>pid.
          uthn (if pid = 0
                then uthn (close_u 0) (uthn (dup_u p0) (uthn (close_u p0) (uthn (close_u p1) (runcmd b r))))
                else URet ()) (
          uthn (close_u p0) (
          uthn (close_u p1) (
          uthn wait_u (
          uthn wait_u (exit_u 0)))))))))"
| "runcmd b (BACK c) =
     ubnd fork1 (\<lambda>pid.
     uthn (if pid = 0 then runcmd b c else URet ()) (exit_u 0))"

definition getcmd :: "int \<Rightarrow> uchar list option uop" where
  "getcmd nbuf =
     uthn (fprintf 2 (str ''$ '') []) (
     ubnd (gets_u nbuf) (\<lambda>b. URet (if byte_at b 0 = 0 then None else Some (cstring b 0))))"

fun sh_open_console :: "nat \<Rightarrow> unit uop" where
  "sh_open_console 0 = UHang"
| "sh_open_console (Suc k) =
     ubnd (open_u (str ''console'') O_RDWR) (\<lambda>fd.
     if fd \<ge> 0
     then if fd \<ge> 3 then uthn (close_u fd) (URet ()) else sh_open_console k
     else URet ())"

fun sh_loop :: "nat \<Rightarrow> unit uop" where
  "sh_loop 0 = UHang"
| "sh_loop (Suc k) =
     ubnd (getcmd 100) (\<lambda>r. case r of
       None \<Rightarrow> URet ()
     | Some b \<Rightarrow>
         if byte_at b 0 = of_char CHR ''c'' \<and> byte_at b 1 = of_char CHR ''d'' \<and> byte_at b 2 = 32
         then ubnd (chdir_u (drop 3 (butlast b))) (\<lambda>r.
              uthn (if r < 0 then fprintf 2 (str ''cannot cd %s'' @ [10]) [PStr (Some (drop 3 (butlast b)))] else URet ())
                   (sh_loop k))
         else ubnd fork1 (\<lambda>pid.
              uthn (if pid = 0
                    then (case parsecmd b of
                            PDone (c, b') \<Rightarrow> runcmd b' c
                          | PPanic m \<Rightarrow> panic_sh m
                          | PFuel \<Rightarrow> UHang)
                    else URet ()) (
              uthn wait_u (sh_loop k))))"

definition sh_main :: "nat \<Rightarrow> unit uop" where
  "sh_main k = uthn (sh_open_console k) (uthn (sh_loop k) (exit_u 0))"

section \<open>The parser always returns\<close>

lemma drop_skip: "drop (skip_while P b s) b = dropWhile P (drop s b)"
  by (simp add: skip_while_def dropWhile_eq_drop add.commute)

lemma skip_bounds: "s \<le> skip_while P b s" "s \<le> length b \<Longrightarrow> skip_while P b s \<le> length b"
proof -
  show "s \<le> skip_while P b s" by (simp add: skip_while_def)
  have "length (takeWhile P (drop s b)) \<le> length b - s" by (metis length_drop length_takeWhile_le)
  then show "s \<le> length b \<Longrightarrow> skip_while P b s \<le> length b" by (simp add: skip_while_def)
qed

lemma byte_at_end: "byte_at b s \<noteq> 0 \<Longrightarrow> s < length b"
  by (auto simp: byte_at_def split: if_splits)

lemma skip_stop: "skip_while P b s < length b \<Longrightarrow> \<not> P (byte_at b (skip_while P b s))"
proof -
  assume lt: "skip_while P b s < length b"
  then have "drop (skip_while P b s) b = b ! skip_while P b s # drop (Suc (skip_while P b s)) b" by (simp add: Cons_nth_drop_Suc)
  then have "dropWhile P (drop s b) = b ! skip_while P b s # drop (Suc (skip_while P b s)) b" by (simp only: drop_skip)
  from hd_dropWhile [of P "drop s b"] this show ?thesis using lt by (simp add: byte_at_def)
qed

lemma skip_start: "s < length b \<Longrightarrow> P (byte_at b s) \<Longrightarrow> s < skip_while P b s"
  by (auto simp: skip_while_def byte_at_def Cons_nth_drop_Suc [symmetric])

lemma skip_none: "s < length b \<Longrightarrow> \<not> P (byte_at b s) \<Longrightarrow> skip_while P b s = s"
  by (auto simp: skip_while_def byte_at_def Cons_nth_drop_Suc [symmetric])

lemma word_char:
  assumes "\<not> is_ws c" and "c \<notin> set (str ''|();&<'')" and "c \<noteq> of_char CHR ''>''"
  shows "is_word c"
  using assms by (auto simp: is_ws_def is_word_def symbols_def str_def)

lemma gettoken_bounds:
  assumes "gettoken b s = (tok, q, eq, s')" and "s \<le> length b"
  shows "s \<le> q" and "q \<le> eq" and "eq \<le> s'" and "s' \<le> length b" and "byte_at b q \<noteq> 0 \<Longrightarrow> q < eq"
    and "tok = 0 \<longleftrightarrow> byte_at b q = 0" and "q = skip_while is_ws b s" and "s' = skip_while is_ws b eq"
    and "tok = of_char CHR ''a'' \<Longrightarrow> eq = skip_while is_word b q \<and> is_word (byte_at b q) \<and> byte_at b q \<noteq> 0"
proof -
  show q: "q = skip_while is_ws b s" and s': "s' = skip_while is_ws b eq" using assms(1) by (auto simp: gettoken_def Let_def split: if_splits)
  show "s \<le> q" unfolding q by (rule skip_bounds)
  have qn: "q \<le> length b" unfolding q by (rule skip_bounds(2) [OF assms(2)])
  have e: "q \<le> eq \<and> eq \<le> length b \<and> (byte_at b q \<noteq> 0 \<longrightarrow> q < eq) \<and> (tok = 0 \<longleftrightarrow> byte_at b q = 0) \<and>
    (tok = of_char CHR ''a'' \<longrightarrow> eq = skip_while is_word b q \<and> is_word (byte_at b q) \<and> byte_at b q \<noteq> 0)"
  proof (cases "byte_at b q = 0")
    case True
    then show ?thesis using assms(1) q qn by (auto simp: gettoken_def Let_def)
  next
    case False
    then have lt: "q < length b" by (rule byte_at_end)
    have "\<not> is_ws (byte_at b q)" using skip_stop [of is_ws b s] lt q by simp
    then have w: "is_word (byte_at b q)" if "byte_at b q \<notin> set (str ''|();&<'')" "byte_at b q \<noteq> of_char CHR ''>''"
      using that by (intro word_char)
    have "q \<le> skip_while is_word b q" "skip_while is_word b q \<le> length b" using skip_bounds qn by auto
    moreover have "of_char CHR ''a'' \<notin> set (str ''|();&<'')" "of_char CHR ''a'' \<noteq> (0 :: uchar)" "of_char CHR ''+'' \<noteq> (of_char CHR ''a'' :: uchar)"
      "of_char CHR ''>'' \<noteq> (of_char CHR ''a'' :: uchar)" "of_char CHR ''+'' \<noteq> (0 :: uchar)" "of_char CHR ''>'' \<noteq> (0 :: uchar)" by (simp_all add: str_def)
    ultimately show ?thesis using assms(1) q lt w skip_start [of q b is_word] False byte_at_end [of b "q + 1"]
      unfolding gettoken_def Let_def by (auto split: if_splits)
  qed
  then show "q \<le> eq" "byte_at b q \<noteq> 0 \<Longrightarrow> q < eq" "tok = 0 \<longleftrightarrow> byte_at b q = 0"
    "tok = of_char CHR ''a'' \<Longrightarrow> eq = skip_while is_word b q \<and> is_word (byte_at b q) \<and> byte_at b q \<noteq> 0" by auto
  show "eq \<le> s'" unfolding s' by (rule skip_bounds)
  show "s' \<le> length b" unfolding s' using e by (intro skip_bounds(2)) simp
qed

lemma peek_bounds:
  assumes "peek b s toks = (f, s')" and "s \<le> length b"
  shows "s \<le> s'" and "s' \<le> length b" and "f \<Longrightarrow> s' < tok_next b s'" and "tok_next b s' \<le> length b" and "s' = skip_while is_ws b s"
proof -
  show s': "s' = skip_while is_ws b s" using assms(1) by (auto simp: peek_def Let_def)
  show "s \<le> s'" "s' \<le> length b" using skip_bounds assms(2) s' by auto
  obtain tok q eq s'' where g: "gettoken b s' = (tok, q, eq, s'')" by (metis prod_cases4)
  note gb = gettoken_bounds [OF g \<open>s' \<le> length b\<close>]
  show "tok_next b s' \<le> length b" using gb(4) g by (simp add: tok_next_def)
  assume f
  then have nz: "byte_at b s' \<noteq> 0" using assms(1) by (auto simp: peek_def Let_def)
  then have "\<not> is_ws (byte_at b s')" using skip_stop [of is_ws b s] byte_at_end [OF nz] s' by simp
  then have "q = s'" using gb(7) skip_none [of s' b is_ws] byte_at_end [OF nz] by simp
  then show "s' < tok_next b s'" using gb(3,5) nz g by (simp add: tok_next_def)
qed

text \<open>
  A word of the line: its bytes are no separators and it is not followed by another such byte. The words of a
  command are the offsets of its arguments and file names.
\<close>

definition word_ok :: "uchar list \<Rightarrow> nat \<times> nat \<Rightarrow> bool" where
  "word_ok b = (\<lambda>(q, eq). q < eq \<and> eq \<le> length b \<and> (\<forall>i. q \<le> i \<and> i < eq \<longrightarrow> is_word (b ! i)) \<and> (eq < length b \<longrightarrow> \<not> is_word (b ! eq)))"

fun cmd_words :: "cmd \<Rightarrow> (nat \<times> nat) set" where
  "cmd_words (EXEC args) = set args"
| "cmd_words (REDIR c q eq mode fd) = insert (q, eq) (cmd_words c)"
| "cmd_words (PIPE l r) = cmd_words l \<union> cmd_words r"
| "cmd_words (LIST l r) = cmd_words l \<union> cmd_words r"
| "cmd_words (BACK c) = cmd_words c"

definition redir_words :: "(nat \<times> nat \<times> int \<times> int) list \<Rightarrow> (nat \<times> nat) set" where
  "redir_words rs = (\<lambda>(q, eq, _). (q, eq)) ` set rs"

definition words_ok :: "uchar list \<Rightarrow> (nat \<times> nat) set \<Rightarrow> bool" where
  "words_ok b W \<longleftrightarrow> (\<forall>w \<in> W. word_ok b w)"

lemma words_ok_simps [simp]:
  "words_ok b {}" "words_ok b (insert w W) \<longleftrightarrow> word_ok b w \<and> words_ok b W" "words_ok b (V \<union> W) \<longleftrightarrow> words_ok b V \<and> words_ok b W"
  by (auto simp: words_ok_def)

lemma redir_words_simps [simp]: "redir_words [] = {}" "redir_words (rs @ [(q, eq, m, f)]) = insert (q, eq) (redir_words rs)"
  by (simp_all add: redir_words_def)

lemma wrap_words [simp]: "cmd_words (wrap_redirs c rs) = cmd_words c \<union> redir_words rs"
  by (induction rs arbitrary: c) (auto simp: wrap_redirs_def redir_words_def)

lemma gettoken_word:
  assumes "gettoken b s = (of_char CHR ''a'', q, eq, s')" and "s \<le> length b"
  shows "word_ok b (q, eq)"
proof -
  note gb = gettoken_bounds [OF assms]
  have e: "eq = skip_while is_word b q" and w: "is_word (byte_at b q)" "byte_at b q \<noteq> 0" using gb(9) by simp_all
  have "is_word (b ! i)" if i: "q \<le> i" "i < eq" for i
  proof -
    have n: "i - q < length (takeWhile is_word (drop q b))" using i e by (simp add: skip_while_def)
    then have "takeWhile is_word (drop q b) ! (i - q) = drop q b ! (i - q)" by (rule takeWhile_nth)
    also have "\<dots> = b ! i" using i gb(3,4) by simp
    finally show ?thesis using nth_mem [OF n] by (metis set_takeWhileD)
  qed
  moreover have "\<not> is_word (b ! eq)" if "eq < length b" using skip_stop [of is_word b q] that e by (simp add: byte_at_def)
  ultimately show ?thesis using gb(3,4,5) w(2) by (auto simp: word_ok_def)
qed

text \<open>A parser function started at \<open>s\<close> has come to an end, no further back and inside the line, with a result in \<open>Q\<close>.\<close>

definition ends :: "uchar list \<Rightarrow> nat \<Rightarrow> ('a \<Rightarrow> bool) \<Rightarrow> ('a \<times> nat) presult \<Rightarrow> bool" where
  "ends b s Q r \<longleftrightarrow> (case r of PDone (x, s') \<Rightarrow> s \<le> s' \<and> s' \<le> length b \<and> Q x | PPanic _ \<Rightarrow> True | PFuel \<Rightarrow> False)"

lemma ends_bnd:
  assumes "ends b s P r" and "\<And>x s'. r = PDone (x, s') \<Longrightarrow> s \<le> s' \<Longrightarrow> s' \<le> length b \<Longrightarrow> P x \<Longrightarrow> ends b s Q (f (x, s'))"
  shows "ends b s Q (pbnd r f)"
proof (cases r)
  case (PDone a)
  then obtain x s' where "r = PDone (x, s')" by (cases a) auto
  then show ?thesis using assms by (simp add: ends_def)
qed (use assms(1) in \<open>simp_all add: ends_def\<close>)

lemma ends_later: "ends b s Q r \<Longrightarrow> u \<le> s \<Longrightarrow> ends b u Q r"
  by (auto simp: ends_def split: presult.splits)

lemma ends_simps [simp]: "ends b s Q (PPanic m)" "ends b s Q (PDone (x, s')) \<longleftrightarrow> s \<le> s' \<and> s' \<le> length b \<and> Q x"
  by (simp_all add: ends_def)

definition redirs_good :: "uchar list \<Rightarrow> (nat \<times> nat \<times> int \<times> int) list \<Rightarrow> bool" where
  "redirs_good b rs \<longleftrightarrow> words_ok b (redir_words rs)"

definition cmd_good :: "uchar list \<Rightarrow> cmd \<Rightarrow> bool" where
  "cmd_good b c \<longleftrightarrow> words_ok b (cmd_words c)"

lemma cmd_good_simps [simp]:
  "cmd_good b (EXEC as) \<longleftrightarrow> words_ok b (set as)" "cmd_good b (PIPE l r) \<longleftrightarrow> cmd_good b l \<and> cmd_good b r"
  "cmd_good b (LIST l r) \<longleftrightarrow> cmd_good b l \<and> cmd_good b r" "cmd_good b (BACK c) \<longleftrightarrow> cmd_good b c"
  "cmd_good b (wrap_redirs c rs) \<longleftrightarrow> cmd_good b c \<and> redirs_good b rs"
  by (auto simp: cmd_good_def redirs_good_def)

lemma redirs_good_simps [simp]: "redirs_good b []" "redirs_good b (rs @ [(q, eq, m, f)]) \<longleftrightarrow> redirs_good b rs \<and> word_ok b (q, eq)"
  by (auto simp: redirs_good_def)

lemma parseredirs_ends: "s \<le> length b \<Longrightarrow> length b - s < k \<Longrightarrow> redirs_good b rs \<Longrightarrow> ends b s (redirs_good b) (parseredirs k b rs s)"
proof (induction k arbitrary: rs s)
  case 0
  then show ?case by simp
next
  case (Suc k)
  obtain f s1 where p: "peek b s (str ''<>'') = (f, s1)" by force
  note pb = peek_bounds [OF p Suc.prems(1)]
  obtain tok q eq s2 where g: "gettoken b s1 = (tok, q, eq, s2)" by (metis prod_cases4)
  obtain tok' q' eq' s3 where g': "gettoken b s2 = (tok', q', eq', s3)" by (metis prod_cases4)
  note gb = gettoken_bounds [OF g pb(2)] note gb' = gettoken_bounds [OF g' gb(4)]
  show ?case
  proof (cases "f \<and> tok' = of_char CHR ''a''")
    case True
    then have lt: "s1 < s2" using pb(3) g by (simp add: tok_next_def)
    have 3: "s < s3" "s3 \<le> length b" using lt pb(1) gb' by auto
    have w: "word_ok b (q', eq')" using gettoken_word [OF _ gb(4)] g' True by simp
    have "ends b s (redirs_good b) (parseredirs k b rs' s3)" if "redirs_good b rs'" for rs'
      using 3 that Suc.prems ends_later [OF Suc.IH [of s3 rs']] by simp
    then show ?thesis using p g g' True w Suc.prems(3) by simp
  next
    case False
    then show ?thesis using p pb(1,2) g g' Suc.prems(3) by (cases f) simp_all
  qed
qed

lemma parse_args_ends:
  "s \<le> length b \<Longrightarrow> length b - s + 1 < k \<Longrightarrow> words_ok b (set args) \<Longrightarrow> redirs_good b rs \<Longrightarrow>
   ends b s (cmd_good b) (parse_args k b args rs s)"
proof (induction k arbitrary: args rs s)
  case 0
  then show ?case by simp
next
  case (Suc k)
  obtain f s1 where p: "peek b s (str ''|)&;'') = (f, s1)" by force
  note pb = peek_bounds [OF p Suc.prems(1)]
  obtain tok q eq s2 where g: "gettoken b s1 = (tok, q, eq, s2)" by (metis prod_cases4)
  note gb = gettoken_bounds [OF g pb(2)]
  show ?case
  proof (cases "f \<or> tok \<noteq> of_char CHR ''a'' \<or> length args + 1 \<ge> MAXARGS")
    case True
    then show ?thesis using p g pb(1,2) gb(1-4) Suc.prems(3,4) by (cases f) auto
  next
    case False
    then have "byte_at b q \<noteq> 0" and w: "word_ok b (q, eq)" using gb(9) gettoken_word [OF _ pb(2)] g by simp_all
    then have 2: "s < s2" using gb(1,3,5) pb(1) by simp
    have "ends b s (cmd_good b) (pbnd (parseredirs k b rs s2) (\<lambda>(rs, s). parse_args k b (args @ [(q, eq)]) rs s))"
    proof (rule ends_bnd)
      have r: "ends b s2 (redirs_good b) (parseredirs k b rs s2)" using Suc.prems 2 gb(4) by (intro parseredirs_ends) simp_all
      then show "ends b s (redirs_good b) (parseredirs k b rs s2)" using 2 by (simp add: ends_later)
      fix rs' u assume u: "parseredirs k b rs s2 = PDone (rs', u)" "s \<le> u" "u \<le> length b" "redirs_good b rs'"
      have "s2 \<le> u" using r u(1) by simp
      then have "ends b u (cmd_good b) (parse_args k b (args @ [(q, eq)]) rs' u)"
        using Suc.prems 2 u(3,4) w by (intro Suc.IH) simp_all
      then show "ends b s (cmd_good b) ((\<lambda>(rs, s). parse_args k b (args @ [(q, eq)]) rs s) (rs', u))" using u(2) by (simp add: ends_later)
    qed
    moreover have "tok \<noteq> 0" using False by auto
    ultimately show ?thesis using p g False by simp
  qed
qed

lemma parse_backs_ends: "s \<le> length b \<Longrightarrow> length b - s < k \<Longrightarrow> cmd_good b c \<Longrightarrow> ends b s (cmd_good b) (parse_backs k b c s)"
proof (induction k arbitrary: c s)
  case 0
  then show ?case by simp
next
  case (Suc k)
  obtain f s1 where p: "peek b s (str ''&'') = (f, s1)" by force
  note pb = peek_bounds [OF p Suc.prems(1)]
  show ?case
  proof (cases f)
    case True
    then have "ends b (tok_next b s1) (cmd_good b) (parse_backs k b (BACK c) (tok_next b s1))"
      using pb Suc.prems by (intro Suc.IH) simp_all
    moreover have "s \<le> tok_next b s1" using pb(1,3) True by simp
    moreover have "parse_backs (Suc k) b c s = parse_backs k b (BACK c) (tok_next b s1)" using p True by simp
    ultimately show ?thesis using ends_later by metis
  next
    case False
    then show ?thesis using p pb Suc.prems(3) by simp
  qed
qed

lemma parser_ends:
  "s \<le> length b \<Longrightarrow> 8 * (length b - s) + 7 < k \<Longrightarrow> ends b s (cmd_good b) (parseline k b s)"
  "s \<le> length b \<Longrightarrow> 8 * (length b - s) + 6 < k \<Longrightarrow> ends b s (cmd_good b) (parsepipe k b s)"
  "s \<le> length b \<Longrightarrow> 8 * (length b - s) + 5 < k \<Longrightarrow> ends b s (cmd_good b) (parseexec k b s)"
  "s \<le> length b \<Longrightarrow> 8 * (length b - s) + 4 < k \<Longrightarrow> ends b s (cmd_good b) (parseblock k b s)"
proof (induction k arbitrary: s)
  case (Suc k)
  note IH = Suc.IH
  {
    case 1
    have p: "ends b s (cmd_good b) (parsepipe k b s)" using 1 by (intro IH(2)) simp_all
    have rest: "ends b s (cmd_good b) (pbnd (parse_backs k b c u) (\<lambda>(c, s). case peek b s (str '';'') of
        (True, s) \<Rightarrow> pbnd (parseline k b (tok_next b s)) (\<lambda>(d, s). PDone (listcmd c d, s)) | (False, s) \<Rightarrow> PDone (c, s)))"
      if u: "s \<le> u" "u \<le> length b" "cmd_good b c" for c u
    proof (rule ends_bnd)
      show "ends b s (cmd_good b) (parse_backs k b c u)" using u 1 by (intro ends_later [OF parse_backs_ends]) simp_all
      fix c' v assume v: "s \<le> v" "v \<le> length b" "cmd_good b c'"
      obtain f v' where pk: "peek b v (str '';'') = (f, v')" by force
      note pb = peek_bounds [OF pk v(2)]
      have l: "ends b s (cmd_good b) (parseline k b (tok_next b v'))" if f
        using pb(1,3,4) that 1 v by (intro ends_later [OF IH(1)]) simp_all
      show "ends b s (cmd_good b) ((\<lambda>(c, s). case peek b s (str '';'') of
          (True, s) \<Rightarrow> pbnd (parseline k b (tok_next b s)) (\<lambda>(d, s). PDone (listcmd c d, s)) | (False, s) \<Rightarrow> PDone (c, s)) (c', v))"
        using pk l pb(1,2) v(1,3) by (cases f) (auto intro: ends_bnd)
    qed
    show ?case unfolding parseline.simps by (rule ends_bnd [OF p]) (simp only: prod.case rest)
  next
    case 2
    have p: "ends b s (cmd_good b) (parseexec k b s)" using 2 by (intro IH(3)) simp_all
    have rest: "ends b s (cmd_good b) (case peek b v (str ''|'') of
        (True, s) \<Rightarrow> pbnd (parsepipe k b (tok_next b s)) (\<lambda>(d, s). PDone (pipecmd c d, s)) | (False, s) \<Rightarrow> PDone (c, s))"
      if v: "s \<le> v" "v \<le> length b" "cmd_good b c" for c v
    proof -
      obtain f v' where pk: "peek b v (str ''|'') = (f, v')" by force
      note pb = peek_bounds [OF pk v(2)]
      have "ends b s (cmd_good b) (parsepipe k b (tok_next b v'))" if f
        using pb(1,3,4) that 2 v by (intro ends_later [OF IH(2)]) simp_all
      then show ?thesis using pk pb(1,2) v(1,3) by (cases f) (auto intro: ends_bnd)
    qed
    show ?case unfolding parsepipe.simps by (rule ends_bnd [OF p]) (simp only: prod.case rest)
  next
    case 3
    obtain f v where pk: "peek b s (str ''('') = (f, v)" by force
    note pb = peek_bounds [OF pk 3(1)]
    have "ends b s (cmd_good b) (parseblock k b v)" using pb(1,2) 3 by (intro ends_later [OF IH(4)]) simp_all
    moreover have "ends b s (cmd_good b) (pbnd (parseredirs k b [] v) (\<lambda>(rs, s). parse_args k b [] rs s))"
    proof (rule ends_bnd)
      show "ends b s (redirs_good b) (parseredirs k b [] v)" using pb(1,2) 3 by (intro ends_later [OF parseredirs_ends]) simp_all
      fix rs u assume "s \<le> u" "u \<le> length b" "redirs_good b rs"
      then show "ends b s (cmd_good b) ((\<lambda>(rs, s). parse_args k b [] rs s) (rs, u))"
        using 3 by (simp add: ends_later [OF parse_args_ends])
    qed
    ultimately show ?case using pk by (cases f) simp_all
  next
    case 4
    obtain f v where pk: "peek b s (str ''('') = (f, v)" by force
    note pb = peek_bounds [OF pk 4(1)]
    have "ends b s (cmd_good b) (pbnd (parseline k b (tok_next b v)) (\<lambda>(c, s). case peek b s (str '')'') of
        (False, s) \<Rightarrow> PPanic (str ''syntax - missing )'')
      | (True, s) \<Rightarrow> pbnd (parseredirs k b [] (tok_next b s)) (\<lambda>(rs, s). PDone (wrap_redirs c rs, s))))" if f
    proof (rule ends_bnd)
      show "ends b s (cmd_good b) (parseline k b (tok_next b v))" using pb(1,3,4) that 4 by (intro ends_later [OF IH(1)]) simp_all
      fix c u assume u: "s \<le> u" "u \<le> length b" "cmd_good b c"
      obtain g w where pw: "peek b u (str '')'') = (g, w)" by force
      note pbw = peek_bounds [OF pw u(2)]
      have "ends b s (redirs_good b) (parseredirs k b [] (tok_next b w))" if g
        using pbw(1,3,4) that u 4 by (intro ends_later [OF parseredirs_ends]) simp_all
      then show "ends b s (cmd_good b) ((\<lambda>(c, s). case peek b s (str '')'') of
          (False, s) \<Rightarrow> PPanic (str ''syntax - missing )'')
        | (True, s) \<Rightarrow> pbnd (parseredirs k b [] (tok_next b s)) (\<lambda>(rs, s). PDone (wrap_redirs c rs, s))) (c, u))"
        using pw u(3) by (cases g) (auto intro: ends_bnd)
    qed
    then show ?case using pk by (cases f) simp_all
  }
qed simp_all

section \<open>The nuls the parser stores\<close>

lemma nulterminate_nth:
  "length (nulterminate c b) = length b \<and>
   (\<forall>i < length b. nulterminate c b ! i = (if i \<in> snd ` cmd_words c then 0 else b ! i))"
proof (induction c arbitrary: b)
  case (EXEC args)
  show ?case by (induction args arbitrary: b) (auto simp: nth_list_update split: prod.splits)
next
  case (REDIR c q eq mode fd)
  have "snd ` cmd_words (REDIR c q eq mode fd) = insert eq (snd ` cmd_words c)" by auto
  then show ?case using REDIR [of b] by (cases "eq < length b") (simp_all add: nth_list_update list_update_beyond)
next
  case (PIPE l r)
  show ?case using PIPE.IH(1) [of b] PIPE.IH(2) [of "nulterminate l b"] by (auto simp: image_Un)
next
  case (LIST l r)
  show ?case using LIST.IH(1) [of b] LIST.IH(2) [of "nulterminate l b"] by (auto simp: image_Un)
next
  case (BACK c)
  then show ?case by simp
qed

definition word_text :: "uchar list \<Rightarrow> nat \<times> nat \<Rightarrow> uchar list" where
  "word_text b = (\<lambda>(q, eq). take (eq - q) (drop q b))"

lemma nulterminate_words:
  assumes "cmd_good b c" and "(q, eq) \<in> cmd_words c" and "0 \<notin> set b"
  shows "cstring (nulterminate c b) q = word_text b (q, eq)"
proof -
  let ?b = "nulterminate c b"
  have len: "length ?b = length b" and nth: "\<And>i. i < length b \<Longrightarrow> ?b ! i = (if i \<in> snd ` cmd_words c then 0 else b ! i)"
    using nulterminate_nth [of c b] by auto
  have ok: "word_ok b w" if "w \<in> cmd_words c" for w using assms(1) that by (simp add: cmd_good_def words_ok_def)
  have qe: "q < eq" "eq \<le> length b" "\<And>i. q \<le> i \<Longrightarrow> i < eq \<Longrightarrow> is_word (b ! i)" using ok [OF assms(2)] by (auto simp: word_ok_def)
  have keep: "?b ! i = b ! i" if i: "q \<le> i" "i < eq" for i
  proof -
    have "i \<noteq> snd w" if "w \<in> cmd_words c" for w using ok [OF that] qe(2,3) i by (auto simp: word_ok_def split: prod.splits)
    then show ?thesis using nth [of i] i qe(2) by auto
  qed
  have "take (eq - q) (drop q ?b) = word_text b (q, eq)"
    using qe len keep by (intro nth_equalityI) (auto simp: word_text_def)
  moreover have "0 \<notin> set (word_text b (q, eq))" using assms(3) by (auto simp: word_text_def dest: in_set_takeD in_set_dropD)
  moreover have "takeWhile (\<lambda>c. c \<noteq> 0) (drop eq ?b) = []"
  proof (cases "eq < length b")
    case True
    then have "drop eq ?b = ?b ! eq # drop (Suc eq) ?b" using len by (simp add: Cons_nth_drop_Suc)
    moreover have "?b ! eq = 0" using nth [OF True] assms(2) by force
    ultimately show ?thesis by simp
  qed (simp add: len)
  moreover have "drop q ?b = take (eq - q) (drop q ?b) @ drop eq ?b"
    using qe(1) by (metis append_take_drop_id drop_drop le_add_diff_inverse2 less_imp_le)
  ultimately have "drop q ?b = word_text b (q, eq) @ drop eq ?b" "takeWhile (\<lambda>c. c \<noteq> 0) (drop eq ?b) = []"
    and nz: "\<And>x. x \<in> set (word_text b (q, eq)) \<Longrightarrow> x \<noteq> 0" by auto
  then show ?thesis unfolding cstring_def using takeWhile_append2 [of "word_text b (q, eq)" "\<lambda>c. c \<noteq> 0" "drop eq ?b"] by simp
qed

text \<open>
  C36 (\<^verbatim>\<open>sh.c\<close>, \<^verbatim>\<open>parsecmd\<close>): the parser comes to an end on every line: with a message, or with a command whose every
  word lies inside the line, is bounded by separators, and after \<^verbatim>\<open>nulterminate\<close> reads back from the buffer exactly
  as it was typed, so no nul was stored inside another word.
\<close>

theorem parsecmd_returns:
  assumes "0 \<notin> set b"
  shows "case parsecmd b of
      PDone (c, b') \<Rightarrow> \<forall>(q, eq) \<in> cmd_words c. q < eq \<and> eq \<le> length b \<and> cstring b' q = take (eq - q) (drop q b)
    | PPanic m \<Rightarrow> True
    | PFuel \<Rightarrow> False"
proof -
  have "ends b 0 (cmd_good b) (parseline (parse_fuel b) b 0)" by (rule parser_ends) (simp_all add: parse_fuel_def)
  then consider (panic) m where "parseline (parse_fuel b) b 0 = PPanic m"
    | (ok) c s where "parseline (parse_fuel b) b 0 = PDone (c, s)" "cmd_good b c"
    unfolding ends_def by (cases "parseline (parse_fuel b) b 0") auto
  then show ?thesis
  proof cases
    case panic
    then show ?thesis by (simp add: parsecmd_def)
  next
    case ok
    have "q < eq \<and> eq \<le> length b \<and> cstring (nulterminate c b) q = take (eq - q) (drop q b)" if "(q, eq) \<in> cmd_words c" for q eq
      using nulterminate_words [OF ok(2) that assms] ok(2) that by (auto simp: word_text_def cmd_good_def words_ok_def word_ok_def)
    then show ?thesis using ok(1) by (auto simp: parsecmd_def split: prod.splits if_splits)
  qed
qed

theorem parsecmd_returns_witness:
  "\<exists>c b'. parsecmd (str ''wc <f|ls'') = PDone (c, b') \<and> (4, 5) \<in> cmd_words c \<and> cstring b' 4 = str ''f'' \<and> cstring b' 6 = str ''ls''"
proof -
  have p: "parsecmd (str ''wc <f|ls'') = PDone (PIPE (REDIR (EXEC [(0, 2)]) 4 5 0 0) (EXEC [(6, 8)]), [119, 99, 0, 60, 102, 0, 108, 115])"
    by code_simp
  have "0 \<notin> set (str ''wc <f|ls'')" by (simp add: str_def)
  from parsecmd_returns [OF this] show ?thesis unfolding p by (simp add: str_def)
qed

end
