(* ===== verification/Shellprops.thy ===== *)
theory Shellprops
  imports Shell
begin

text \<open>
  The shell's grammar: every command, printed with as few parentheses as precedence and associativity allow,
  is parsed back.
\<close>

section \<open>Abstract commands\<close>

datatype rop = RIn | ROut | RApp

datatype shcmd =
    SExec "uchar list list"
  | SRedir shcmd "uchar list" rop
  | SPipe shcmd shcmd
  | SList shcmd shcmd
  | SBack shcmd

fun rop_text :: "rop \<Rightarrow> uchar list" where
  "rop_text RIn = str ''<''"
| "rop_text ROut = str ''>''"
| "rop_text RApp = str ''>>''"

fun rop_mode :: "rop \<Rightarrow> int \<times> int" where
  "rop_mode RIn = (O_RDONLY, 0)"
| "rop_mode ROut = (O_WRONLY OR O_CREATE OR O_TRUNC, 1)"
| "rop_mode RApp = (O_WRONLY OR O_CREATE, 1)"

text \<open>The command \<open>c\<close> of the parser stands for an abstract command, its words read by \<open>W\<close>.\<close>

fun denotes :: "(nat \<times> nat \<Rightarrow> uchar list) \<Rightarrow> cmd \<Rightarrow> shcmd \<Rightarrow> bool" where
  "denotes W (EXEC as) a \<longleftrightarrow> a = SExec (map W as)"
| "denotes W (REDIR c q eq m f) a \<longleftrightarrow> (\<exists>c' r. a = SRedir c' (W (q, eq)) r \<and> (m, f) = rop_mode r \<and> denotes W c c')"
| "denotes W (PIPE l r) a \<longleftrightarrow> (\<exists>l' r'. a = SPipe l' r' \<and> denotes W l l' \<and> denotes W r r')"
| "denotes W (LIST l r) a \<longleftrightarrow> (\<exists>l' r'. a = SList l' r' \<and> denotes W l l' \<and> denotes W r r')"
| "denotes W (BACK c) a \<longleftrightarrow> (\<exists>c'. a = SBack c' \<and> denotes W c c')"

lemma denotes_cong: "(\<And>w. w \<in> cmd_words c \<Longrightarrow> W w = V w) \<Longrightarrow> denotes W c a = denotes V c a"
proof (induction c arbitrary: a)
  case (EXEC as)
  then have "map W as = map V as" by simp
  then show ?case by (simp only: denotes.simps)
qed auto

section \<open>Printing\<close>

text \<open>
  The tokens of a command at a level of the grammar: 0 a line, 1 commands followed by ampersands, 2 a pipeline, 3 a
  simple command. A command of a lower level is put in parentheses.
\<close>

definition paren :: "bool \<Rightarrow> uchar list list \<Rightarrow> uchar list list" where
  "paren p ts = (if p then [str ''(''] @ ts @ [str '')''] else ts)"

fun tokens :: "nat \<Rightarrow> shcmd \<Rightarrow> uchar list list" where
  "tokens n (SExec ws) = ws"
| "tokens n (SRedir c f r) = tokens 3 c @ [rop_text r, f]"
| "tokens n (SPipe l r) = paren (2 < n) (tokens 3 l @ [str ''|''] @ tokens 2 r)"
| "tokens n (SBack c) = paren (1 < n) (tokens 1 c @ [str ''&''])"
| "tokens n (SList l r) = paren (0 < n) (tokens 1 l @ [str '';''] @ tokens 0 r)"

definition flat :: "uchar list list \<Rightarrow> uchar list" where
  "flat ts = concat (map (\<lambda>t. t @ [32]) ts)"

definition print_sh :: "shcmd \<Rightarrow> uchar list" where
  "print_sh c = flat (tokens 0 c)"

definition is_name :: "uchar list \<Rightarrow> bool" where
  "is_name t \<longleftrightarrow> t \<noteq> [] \<and> list_all (\<lambda>c. is_word c \<and> c \<noteq> 0) t"

definition is_sym :: "uchar list \<Rightarrow> bool" where
  "is_sym t \<longleftrightarrow> t \<in> {str ''|'', str ''('', str '')'', str '';'', str ''&'', str ''<'', str ''>'', str ''>>''}"

fun sh_ok :: "shcmd \<Rightarrow> bool" where
  "sh_ok (SExec ws) \<longleftrightarrow> list_all is_name ws \<and> length ws < MAXARGS"
| "sh_ok (SRedir c f r) \<longleftrightarrow> sh_ok c \<and> is_name f"
| "sh_ok (SPipe l r) \<longleftrightarrow> sh_ok l \<and> sh_ok r"
| "sh_ok (SList l r) \<longleftrightarrow> sh_ok l \<and> sh_ok r"
| "sh_ok (SBack c) \<longleftrightarrow> sh_ok c"

abbreviation is_token :: "uchar list \<Rightarrow> bool" where
  "is_token t \<equiv> is_sym t \<or> is_name t"

lemma strchr_None: "strchr xs c = None \<longleftrightarrow> c \<notin> set xs"
  by (induction xs) auto

lemma is_ws_set: "is_ws c \<longleftrightarrow> c \<in> set whitespace"
  and is_word_set: "is_word c \<longleftrightarrow> c \<notin> set whitespace \<and> c \<notin> set symbols"
  by (simp_all add: is_ws_def is_word_def strchr_None)

lemma token_start: "is_token t \<Longrightarrow> t \<noteq> [] \<and> \<not> is_ws (hd t) \<and> hd t \<noteq> 0"
  by (cases t) (auto simp: is_sym_def is_name_def is_ws_set is_word_set whitespace_def str_def)

lemma tokens_ok: "sh_ok c \<Longrightarrow> list_all is_token (tokens n c)"
proof (induction c arbitrary: n)
  case (SRedir c f r)
  then show ?case by (cases r) (auto simp: is_sym_def)
qed (auto simp: paren_def is_sym_def list.pred_set)

lemma flat_simps [simp]: "flat [] = []" "flat (t # ts) = t @ 32 # flat ts" "flat (ts @ us) = flat ts @ flat us"
  by (simp_all add: flat_def)

lemma flat_start: "list_all is_token ts \<Longrightarrow> dropWhile is_ws (flat ts) = flat ts"
proof (cases ts)
  case (Cons t us)
  assume "list_all is_token ts"
  then have "t \<noteq> []" "\<not> is_ws (hd t)" using token_start [of t] Cons by auto
  then show ?thesis using Cons by (cases t) auto
qed simp

section \<open>Reading tokens\<close>

text \<open>From \<open>s\<close> on, after white space, the line consists of the tokens \<open>ts\<close>.\<close>

definition sees :: "uchar list \<Rightarrow> nat \<Rightarrow> uchar list list \<Rightarrow> bool" where
  "sees b s ts \<longleftrightarrow> s \<le> length b \<and> dropWhile is_ws (drop s b) = flat ts \<and> list_all is_token ts"

definition nxt :: "uchar list list \<Rightarrow> uchar" where
  "nxt ts = (if ts = [] then 0 else hd (hd ts))"

lemma byte_at_drop: "byte_at b s = (case drop s b of [] \<Rightarrow> 0 | c # _ \<Rightarrow> c)"
  by (cases "s < length b") (simp_all add: byte_at_def Cons_nth_drop_Suc [symmetric])

lemma sees_skip:
  assumes "sees b s ts"
  shows "drop (skip_while is_ws b s) b = flat ts" and "byte_at b (skip_while is_ws b s) = nxt ts" and "sees b (skip_while is_ws b s) ts"
proof -
  show d: "drop (skip_while is_ws b s) b = flat ts" using assms by (simp add: sees_def drop_skip)
  have "t \<noteq> []" if "ts = t # us" for t us using assms that token_start [of t] by (auto simp: sees_def)
  then show "byte_at b (skip_while is_ws b s) = nxt ts"
    unfolding byte_at_drop d by (cases ts) (auto simp: nxt_def neq_Nil_conv)
  show "sees b (skip_while is_ws b s) ts" using assms d flat_start [of ts] skip_bounds(2) [of s b is_ws] by (simp add: sees_def)
qed

lemma peek_sees:
  assumes "sees b s ts"
  shows "\<exists>s'. peek b s toks = (nxt ts \<noteq> 0 \<and> nxt ts \<in> set toks, s') \<and> sees b s' ts"
  using sees_skip [OF assms] by (simp add: peek_def Let_def strchr_None)

lemma sees_next:
  assumes "drop e b = 32 # flat ts" and "list_all is_token ts"
  shows "sees b (skip_while is_ws b e) ts"
proof -
  have "e \<le> length b" using assms(1) by (metis drop_all list.discI nle_le)
  moreover have "drop (skip_while is_ws b e) b = flat ts"
    unfolding drop_skip assms(1) using flat_start [OF assms(2)] by (simp add: is_ws_set whitespace_def)
  ultimately show ?thesis using assms(2) flat_start [OF assms(2)] skip_bounds(2) by (simp add: sees_def)
qed

lemma gettoken_name:
  assumes "sees b s (t # ts)" and "is_name t"
  shows "\<exists>q eq s'. gettoken b s = (of_char CHR ''a'', q, eq, s') \<and> word_text b (q, eq) = t \<and> sees b s' ts"
proof -
  let ?q = "skip_while is_ws b s"
  note sk = sees_skip [OF assms(1)]
  have ts: "list_all is_token ts" using assms(1) by (simp add: sees_def)
  have c: "nxt (t # ts) = hd t" "t \<noteq> []" "is_word (hd t)" "hd t \<noteq> 0" using assms(2) by (cases t; simp add: nxt_def is_name_def)+
  have w: "takeWhile is_word (t @ 32 # flat ts) = t"
    using assms(2) by (subst takeWhile_append2) (auto simp: is_name_def list.pred_set is_word_set whitespace_def)
  have d: "drop ?q b = t @ 32 # flat ts" using sk(1) by simp
  have e: "skip_while is_word b ?q = ?q + length t" unfolding skip_while_def [of is_word] d w ..
  have de: "drop (?q + length t) b = 32 # flat ts" using d by (metis add.commute append_eq_conv_conj drop_drop)
  have "hd t \<notin> set (str ''|();&<'')" "hd t \<noteq> of_char CHR ''>''" using c(3) by (auto simp: is_word_set symbols_def str_def)
  then have "gettoken b s = (of_char CHR ''a'', ?q, ?q + length t, skip_while is_ws b (?q + length t))"
    using sk(2) c e by (simp add: gettoken_def Let_def)
  moreover have "word_text b (?q, ?q + length t) = t" using d by (simp add: word_text_def)
  ultimately show ?thesis using sees_next [OF de ts] by blast
qed

definition sym_code :: "uchar list \<Rightarrow> uchar" where
  "sym_code t = (if t = str ''>>'' then of_char CHR ''+'' else hd t)"

lemma gettoken_sym:
  assumes "sees b s (t # ts)" and "is_sym t"
  shows "\<exists>q eq s'. gettoken b s = (sym_code t, q, eq, s') \<and> sees b s' ts"
proof -
  let ?q = "skip_while is_ws b s"
  note sk = sees_skip [OF assms(1)]
  have ts: "list_all is_token ts" using assms(1) by (simp add: sees_def)
  have d: "drop ?q b = t @ 32 # flat ts" using sk(1) by simp
  have de: "drop (?q + length t) b = 32 # flat ts" using d by (metis add.commute append_eq_conv_conj drop_drop)
  have c: "byte_at b ?q = hd t" using sk(2) assms(2) by (auto simp: nxt_def)
  have c1: "byte_at b (?q + 1) = (t @ 32 # flat ts) ! 1"
  proof -
    have l: "length (drop ?q b) \<ge> 2" using d assms(2) by (auto simp: is_sym_def str_def)
    then have "?q + 1 < length b" by simp
    then have "byte_at b (?q + 1) = drop ?q b ! 1" by (simp add: byte_at_def)
    then show ?thesis using d by simp
  qed
  have "gettoken b s = (sym_code t, ?q, ?q + length t, skip_while is_ws b (?q + length t))"
    using assms(2) c c1 unfolding is_sym_def by (auto simp: gettoken_def Let_def sym_code_def str_def)
  then show ?thesis using sees_next [OF de ts] by blast
qed

lemma gettoken_nil:
  assumes "sees b s []"
  shows "\<exists>q eq s'. gettoken b s = (0, q, eq, s') \<and> sees b s' []"
proof -
  let ?q = "skip_while is_ws b s"
  note sk = sees_skip [OF assms]
  have "skip_while is_ws b ?q = ?q" using sk(1) by (simp add: skip_while_def)
  then have "gettoken b s = (0, ?q, ?q, ?q)" using sk(2) by (simp add: gettoken_def Let_def nxt_def)
  then show ?thesis using sk(3) by blast
qed

lemma tok_next_sym: "sees b s (t # ts) \<Longrightarrow> is_sym t \<Longrightarrow> sees b (tok_next b s) ts"
  using gettoken_sym [of b s t ts] by (auto simp: tok_next_def)

lemma nxt_simps [simp]: "nxt [] = 0" "t \<noteq> [] \<Longrightarrow> nxt ((t @ xs) # ts) = hd t" "nxt (t # ts) = hd t"
  by (simp_all add: nxt_def)

lemma name_nxt: "is_name t \<Longrightarrow> nxt (t # ts) \<notin> set symbols \<and> nxt (t # ts) \<noteq> 0"
  by (cases t) (simp_all add: is_name_def is_word_set)

section \<open>What the parser's functions read\<close>

text \<open>A result, unless the fuel was too little: the tokens \<open>ts\<close> are left and the value is in \<open>Q\<close>.\<close>

definition gives :: "uchar list \<Rightarrow> uchar list list \<Rightarrow> ('a \<Rightarrow> bool) \<Rightarrow> ('a \<times> nat) presult \<Rightarrow> bool" where
  "gives b ts Q r \<longleftrightarrow> (case r of PDone (x, s) \<Rightarrow> sees b s ts \<and> Q x | PPanic _ \<Rightarrow> False | PFuel \<Rightarrow> True)"

lemma gives_simps [simp]: "gives b ts Q PFuel" "gives b ts Q (PDone (x, s)) \<longleftrightarrow> sees b s ts \<and> Q x"
  by (simp_all add: gives_def)

lemma gives_bnd:
  assumes "gives b ts P r" and "\<And>x s. sees b s ts \<Longrightarrow> P x \<Longrightarrow> gives b us Q (f (x, s))"
  shows "gives b us Q (pbnd r f)"
  using assms by (cases r) (auto simp: gives_def)

definition rtoks :: "(uchar list \<times> rop) list \<Rightarrow> uchar list list" where
  "rtoks rs = concat (map (\<lambda>(f, r). [rop_text r, f]) rs)"

definition redirs :: "shcmd \<Rightarrow> (uchar list \<times> rop) list \<Rightarrow> shcmd" where
  "redirs c rs = foldl (\<lambda>c (f, r). SRedir c f r) c rs"

definition rmatch :: "uchar list \<Rightarrow> (nat \<times> nat \<times> int \<times> int) list \<Rightarrow> (uchar list \<times> rop) list \<Rightarrow> bool" where
  "rmatch b ps rs \<longleftrightarrow> map (\<lambda>(q, eq, m, f). (word_text b (q, eq), m, f)) ps = map (\<lambda>(f, r). (f, rop_mode r)) rs"

abbreviation names_ok :: "(uchar list \<times> rop) list \<Rightarrow> bool" where
  "names_ok rs \<equiv> list_all (\<lambda>(f, r). is_name f) rs"

lemma rtoks_simps [simp]: "rtoks [] = []" "rtoks ((f, r) # rs) = rop_text r # f # rtoks rs"
  by (simp_all add: rtoks_def)

lemma redirs_simps [simp]: "redirs c [] = c" "redirs c ((f, r) # rs) = redirs (SRedir c f r) rs"
  by (simp_all add: redirs_def)

lemma rmatch_snoc: "rmatch b ps rs \<Longrightarrow> word_text b (q, eq) = f \<Longrightarrow> (m, d) = rop_mode r \<Longrightarrow> rmatch b (ps @ [(q, eq, m, d)]) (rs @ [(f, r)])"
  by (simp add: rmatch_def)

lemma denotes_wrap: "denotes (word_text b) c a \<Longrightarrow> rmatch b ps rs \<Longrightarrow> denotes (word_text b) (wrap_redirs c ps) (redirs a rs)"
proof (induction ps arbitrary: c a rs)
  case Nil
  then show ?case by (simp add: rmatch_def wrap_redirs_def)
next
  case (Cons p ps)
  obtain q eq m d where p: "p = (q, eq, m, d)" by (metis prod_cases4)
  from Cons.prems(2) obtain f r rs' where rs: "rs = (f, r) # rs'" "word_text b (q, eq) = f" "(m, d) = rop_mode r" "rmatch b ps rs'"
    unfolding rmatch_def p by (cases rs) auto
  have "denotes (word_text b) (wrap_redirs (REDIR c q eq m d) ps) (redirs (SRedir a f r) rs')"
    using rs Cons.prems(1) by (intro Cons.IH) auto
  then show ?case using rs(1) p by (simp add: wrap_redirs_def)
qed

lemma rop_sym: "is_sym (rop_text r)" "hd (rop_text r) \<in> set (str ''<>'')" "hd (rop_text r) \<noteq> 0"
  by (cases r; simp add: is_sym_def str_def)+

lemma parseredirs_reads:
  assumes "sees b s (rtoks rs @ ts)" and "names_ok rs" and "nxt ts \<notin> set (str ''<>'')" and "rmatch b ps qs"
  shows "gives b ts (\<lambda>ps. rmatch b ps (qs @ rs)) (parseredirs k b ps s)"
  using assms
proof (induction rs arbitrary: k s ps qs)
  case Nil
  obtain s' where "peek b s (str ''<>'') = (False, s')" "sees b s' ts" using peek_sees [of b s ts "str ''<>''"] Nil.prems by auto
  then show ?case using Nil.prems by (cases k) simp_all
next
  case (Cons a rs)
  obtain f r where a: "a = (f, r)" by force
  show ?case
  proof (cases k)
    case (Suc j)
    have s0: "sees b s (rop_text r # f # rtoks rs @ ts)" using Cons.prems(1) a by simp
    then obtain s1 where p: "peek b s (str ''<>'') = (True, s1)" and s1: "sees b s1 (rop_text r # f # rtoks rs @ ts)"
      using peek_sees [OF s0, of "str ''<>''"] rop_sym [of r] by auto
    from gettoken_sym [OF s1 rop_sym(1)] obtain q1 e1 s2 where g: "gettoken b s1 = (sym_code (rop_text r), q1, e1, s2)"
      and s2: "sees b s2 (f # rtoks rs @ ts)" by blast
    from gettoken_name [OF s2] obtain q e s3 where g': "gettoken b s2 = (of_char CHR ''a'', q, e, s3)" "word_text b (q, e) = f"
      and s3: "sees b s3 (rtoks rs @ ts)" using Cons.prems(2) a by auto
    have "gives b ts (\<lambda>ps. rmatch b ps ((qs @ [(f, r)]) @ rs)) (parseredirs j b (ps @ [(q, e, fst (rop_mode r), snd (rop_mode r))]) s3)"
      using Cons.prems(2-4) s3 rmatch_snoc [OF Cons.prems(4) g'(2), of "fst (rop_mode r)" "snd (rop_mode r)" r] by (intro Cons.IH) simp_all
    moreover have "parseredirs k b ps s = parseredirs j b (ps @ [(q, e, fst (rop_mode r), snd (rop_mode r))]) s3"
      using Suc p g g'(1) by (cases r) (simp_all add: sym_code_def str_def)
    ultimately show ?thesis using a by simp
  qed simp
qed

definition follow :: "uchar list list \<Rightarrow> string \<Rightarrow> bool" where
  "follow ts cs \<longleftrightarrow> nxt ts = 0 \<or> nxt ts \<in> set (str cs)"

lemma parse_args_reads:
  assumes "sees b s (ws @ rtoks rs @ ts)" and "ws = [] \<longrightarrow> rs = []" and "list_all is_name ws" and "names_ok rs"
    and "follow ts ''|)&;''" and "rmatch b ps qs" and "length as + length ws < MAXARGS"
  shows "gives b ts (\<lambda>c. denotes (word_text b) c (redirs (SExec (map (word_text b) as @ ws)) (qs @ rs))) (parse_args k b as ps s)"
  using assms
proof (induction ws arbitrary: k s ps qs rs as)
  case Nil
  obtain s' where p: "peek b s (str ''|)&;'') = (nxt ts \<noteq> 0, s')" "sees b s' ts"
    using peek_sees [of b s ts "str ''|)&;''"] Nil.prems by (auto simp: follow_def)
  have d: "denotes (word_text b) (wrap_redirs (EXEC as) ps) (redirs (SExec (map (word_text b) as)) qs)"
    using Nil.prems(6) by (intro denotes_wrap) simp_all
  show ?case
  proof (cases k)
    case (Suc j)
    show ?thesis
    proof (cases "nxt ts = 0")
      case True
      then have "ts = []" using p(2) token_start [of "hd ts"] by (cases ts) (auto simp: sees_def)
      then obtain q e s2 where g: "gettoken b s' = (0, q, e, s2)" "sees b s2 ts" using gettoken_nil p(2) by blast
      show ?thesis using Suc p(1) True g d Nil.prems(2) by simp
    next
      case False
      then show ?thesis using Suc p d Nil.prems(2) by simp
    qed
  qed simp
next
  case (Cons w ws)
  show ?case
  proof (cases k)
    case (Suc j)
    have s0: "sees b s (w # ws @ rtoks rs @ ts)" and w: "is_name w" using Cons.prems(1,3) by simp_all
    obtain s1 where p: "peek b s (str ''|)&;'') = (False, s1)" and s1: "sees b s1 (w # ws @ rtoks rs @ ts)"
      using peek_sees [OF s0, of "str ''|)&;''"] name_nxt [OF w] by (auto simp: symbols_def str_def)
    from gettoken_name [OF s1 w] obtain q e s2 where g: "gettoken b s1 = (of_char CHR ''a'', q, e, s2)" "word_text b (q, e) = w"
      and s2: "sees b s2 (ws @ rtoks rs @ ts)" by blast
    define rs1 rs2 where "rs1 = (if ws = [] then rs else [])" and "rs2 = (if ws = [] then [] else rs)"
    have r12: "ws @ rtoks rs @ ts = rtoks rs1 @ ws @ rtoks rs2 @ ts" "rs1 @ rs2 = rs" by (simp_all add: rs1_def rs2_def)
    have n: "nxt (ws @ rtoks rs2 @ ts) \<notin> set (str ''<>'')"
    proof (cases ws)
      case Nil
      then show ?thesis using Cons.prems(5) by (auto simp: rs2_def follow_def str_def)
    next
      case (Cons v vs)
      then have "is_name v" using Cons.prems(3) by simp
      from name_nxt [OF this] show ?thesis using Cons by (auto simp: symbols_def str_def)
    qed
    have "gives b ts (\<lambda>c. denotes (word_text b) c (redirs (SExec (map (word_text b) as @ w # ws)) (qs @ rs)))
      (pbnd (parseredirs j b ps s2) (\<lambda>(ps, s). parse_args j b (as @ [(q, e)]) ps s))"
    proof (rule gives_bnd)
      show "gives b (ws @ rtoks rs2 @ ts) (\<lambda>ps. rmatch b ps (qs @ rs1)) (parseredirs j b ps s2)"
        using s2 n Cons.prems(4,6) unfolding r12 by (intro parseredirs_reads) (simp_all add: rs1_def)
      fix ps' u assume u: "sees b u (ws @ rtoks rs2 @ ts)" "rmatch b ps' (qs @ rs1)"
      have "gives b ts (\<lambda>c. denotes (word_text b) c (redirs (SExec (map (word_text b) (as @ [(q, e)]) @ ws)) ((qs @ rs1) @ rs2)))
        (parse_args j b (as @ [(q, e)]) ps' u)"
        using Cons.prems u by (intro Cons.IH) (simp_all add: rs2_def)
      then show "gives b ts (\<lambda>c. denotes (word_text b) c (redirs (SExec (map (word_text b) as @ w # ws)) (qs @ rs)))
        ((\<lambda>(ps, s). parse_args j b (as @ [(q, e)]) ps s) (ps', u))" using g(2) r12(2) by simp
    qed
    then show ?thesis using Suc p g(1) Cons.prems(7) by simp
  qed simp
qed

section \<open>The levels of the grammar\<close>

text \<open>
  What each function of the parser reads: \<^verbatim>\<open>parseexec\<close> a simple command and the redirections after it, \<^verbatim>\<open>parsepipe\<close> a
  pipeline, the beginning of \<^verbatim>\<open>parseline\<close> a pipeline and the ampersands after it, \<^verbatim>\<open>parseline\<close> a line; each
  followed by a token that ends it.
\<close>

definition reads_exec :: "uchar list \<Rightarrow> shcmd \<Rightarrow> bool" where
  "reads_exec b c \<longleftrightarrow> (\<forall>k s rs ts. sees b s (tokens 3 c @ rtoks rs @ ts) \<and> names_ok rs \<and> follow ts ''|)&;'' \<longrightarrow>
     gives b ts (\<lambda>x. denotes (word_text b) x (redirs c rs)) (parseexec k b s))"

definition reads_pipe :: "uchar list \<Rightarrow> shcmd \<Rightarrow> bool" where
  "reads_pipe b c \<longleftrightarrow> (\<forall>k s ts. sees b s (tokens 2 c @ ts) \<and> follow ts '')&;'' \<longrightarrow>
     gives b ts (\<lambda>x. denotes (word_text b) x c) (parsepipe k b s))"

definition reads_back :: "uchar list \<Rightarrow> shcmd \<Rightarrow> bool" where
  "reads_back b c \<longleftrightarrow> (\<forall>k s n ts. sees b s (tokens 1 c @ replicate n (str ''&'') @ ts) \<and> follow ts '');'' \<longrightarrow>
     gives b ts (\<lambda>x. denotes (word_text b) x ((SBack ^^ n) c)) (pbnd (parsepipe k b s) (\<lambda>(c, s). parse_backs k b c s)))"

definition reads_line :: "uchar list \<Rightarrow> shcmd \<Rightarrow> bool" where
  "reads_line b c \<longleftrightarrow> (\<forall>k s ts. sees b s (tokens 0 c @ ts) \<and> follow ts '')'' \<longrightarrow>
     gives b ts (\<lambda>x. denotes (word_text b) x c) (parseline k b s))"

lemma reads_execD:
  "reads_exec b c \<Longrightarrow> sees b s (tokens 3 c @ rtoks rs @ ts) \<Longrightarrow> names_ok rs \<Longrightarrow> follow ts ''|)&;'' \<Longrightarrow>
   gives b ts (\<lambda>x. denotes (word_text b) x (redirs c rs)) (parseexec k b s)"
  unfolding reads_exec_def by simp

lemma reads_backD:
  "reads_back b c \<Longrightarrow> sees b s (tokens 1 c @ replicate n (str ''&'') @ ts) \<Longrightarrow> follow ts '');'' \<Longrightarrow>
   gives b ts (\<lambda>x. denotes (word_text b) x ((SBack ^^ n) c)) (pbnd (parsepipe k b s) (\<lambda>(c, s). parse_backs k b c s))"
  unfolding reads_back_def by simp

lemma peek_other: "sees b s ts \<Longrightarrow> nxt ts \<notin> set toks \<Longrightarrow> \<exists>s'. peek b s toks = (False, s') \<and> sees b s' ts"
  using peek_sees [of b s ts toks] by auto

lemma peek_this: "sees b s (t # ts) \<Longrightarrow> hd t \<in> set toks \<Longrightarrow> \<exists>s'. peek b s toks = (True, s') \<and> sees b s' (t # ts)"
  using peek_sees [of b s "t # ts" toks] token_start [of t] by (auto simp: sees_def)

lemma symbol_syms: "is_sym (str ''|'')" "is_sym (str ''('')" "is_sym (str '')'')" "is_sym (str '';'')" "is_sym (str ''&'')"
  by (simp_all add: is_sym_def)

lemma exec_pipe:
  assumes "reads_exec b c" and "tokens 2 c = tokens 3 c"
  shows "reads_pipe b c"
  unfolding reads_pipe_def
proof (intro allI impI, elim conjE)
  fix k s ts assume s: "sees b s (tokens 2 c @ ts)" and f: "follow ts '')&;''"
  have f': "follow ts ''|)&;''" and n: "nxt ts \<notin> set (str ''|'')" using f by (auto simp: follow_def str_def)
  show "gives b ts (\<lambda>x. denotes (word_text b) x c) (parsepipe k b s)"
  proof (cases k)
    case (Suc j)
    have e: "gives b ts (\<lambda>x. denotes (word_text b) x (redirs c [])) (parseexec j b s)"
      using assms s f' by (intro reads_execD) simp_all
    have "gives b ts (\<lambda>x. denotes (word_text b) x c) (pbnd (parseexec j b s) (\<lambda>(c, s). case peek b s (str ''|'') of
       (True, s) \<Rightarrow> pbnd (parsepipe j b (tok_next b s)) (\<lambda>(d, s). PDone (pipecmd c d, s)) | (False, s) \<Rightarrow> PDone (c, s)))"
      by (rule gives_bnd [OF e]) (use peek_other [OF _ n] in fastforce)
    then show ?thesis using Suc by simp
  qed simp
qed

lemma parse_backs_reads:
  "sees b s (replicate n (str ''&'') @ ts) \<Longrightarrow> follow ts '');'' \<Longrightarrow> denotes (word_text b) x c \<Longrightarrow>
   gives b ts (\<lambda>x. denotes (word_text b) x ((SBack ^^ n) c)) (parse_backs k b x s)"
proof (induction n arbitrary: k s x c)
  case 0
  have "nxt ts \<notin> set (str ''&'')" using 0(2) by (auto simp: follow_def str_def)
  then show ?case using peek_other [of b s ts "str ''&''"] 0 by (cases k) auto
next
  case (Suc n)
  have "sees b s (str ''&'' # replicate n (str ''&'') @ ts)" using Suc.prems(1) by simp
  from peek_this [OF this, of "str ''&''"] obtain s' where p: "peek b s (str ''&'') = (True, s')" "sees b s' (str ''&'' # replicate n (str ''&'') @ ts)"
    by (auto simp: str_def)
  have "gives b ts (\<lambda>x. denotes (word_text b) x ((SBack ^^ n) (SBack c))) (parse_backs j b (BACK x) (tok_next b s'))" for j
    using tok_next_sym [OF p(2) symbol_syms(5)] Suc.prems by (intro Suc.IH) simp_all
  then show ?case using p(1) by (cases k) (simp_all add: funpow_swap1)
qed

lemma pipe_back:
  assumes "reads_pipe b c" and "tokens 1 c = tokens 2 c"
  shows "reads_back b c"
  unfolding reads_back_def
proof (intro allI impI, elim conjE)
  fix k s n ts assume s: "sees b s (tokens 1 c @ replicate n (str ''&'') @ ts)" and f: "follow ts '');''"
  have "follow (replicate n (str ''&'') @ ts) '')&;''" using f by (cases n) (auto simp: follow_def str_def)
  then have p: "gives b (replicate n (str ''&'') @ ts) (\<lambda>x. denotes (word_text b) x c) (parsepipe k b s)"
    using assms s unfolding reads_pipe_def by simp
  show "gives b ts (\<lambda>x. denotes (word_text b) x ((SBack ^^ n) c)) (pbnd (parsepipe k b s) (\<lambda>(c, s). parse_backs k b c s))"
    by (rule gives_bnd [OF p]) (simp add: parse_backs_reads f)
qed

lemma pbnd_assoc: "pbnd r (\<lambda>(c, s). pbnd (f c s) g) = pbnd (pbnd r (\<lambda>(c, s). f c s)) g"
  by (cases r) auto

lemma parseline_back:
  "parseline (Suc k) b s = pbnd (pbnd (parsepipe k b s) (\<lambda>(c, s). parse_backs k b c s)) (\<lambda>(c, s). case peek b s (str '';'') of
       (True, s) \<Rightarrow> pbnd (parseline k b (tok_next b s)) (\<lambda>(d, s). PDone (listcmd c d, s)) | (False, s) \<Rightarrow> PDone (c, s))"
  unfolding parseline.simps by (rule pbnd_assoc)

lemma back_line:
  assumes "reads_back b c" and "tokens 0 c = tokens 1 c"
  shows "reads_line b c"
  unfolding reads_line_def
proof (intro allI impI, elim conjE)
  fix k s ts assume s: "sees b s (tokens 0 c @ ts)" and f: "follow ts '')''"
  have f': "follow ts '');''" and n: "nxt ts \<notin> set (str '';'')" using f by (auto simp: follow_def str_def)
  show "gives b ts (\<lambda>x. denotes (word_text b) x c) (parseline k b s)"
  proof (cases k)
    case (Suc j)
    have e: "gives b ts (\<lambda>x. denotes (word_text b) x c) (pbnd (parsepipe j b s) (\<lambda>(c, s). parse_backs j b c s))"
      using reads_backD [OF assms(1), of s 0 ts j] s f' assms(2) by simp
    show ?thesis unfolding Suc parseline_back by (rule gives_bnd [OF e]) (use peek_other [OF _ n] in fastforce)
  qed simp
qed

lemma line_exec:
  assumes "reads_line b c" and "tokens 3 c = [str ''(''] @ tokens 0 c @ [str '')'']"
  shows "reads_exec b c"
  unfolding reads_exec_def
proof (intro allI impI, elim conjE)
  fix k s rs ts assume s: "sees b s (tokens 3 c @ rtoks rs @ ts)" and r: "names_ok rs" and f: "follow ts ''|)&;''"
  have n: "nxt ts \<notin> set (str ''<>'')" using f by (auto simp: follow_def str_def)
  let ?us = "str '')'' # rtoks rs @ ts"
  have s: "sees b s (str ''('' # tokens 0 c @ ?us)" using s assms(2) by simp
  from peek_this [OF this, of "str ''(''"] obtain s1 where p1: "peek b s (str ''('') = (True, s1)" "sees b s1 (str ''('' # tokens 0 c @ ?us)"
    by (auto simp: str_def)
  from peek_this [OF p1(2), of "str ''(''"] obtain s2 where p2: "peek b s1 (str ''('') = (True, s2)" "sees b s2 (str ''('' # tokens 0 c @ ?us)"
    by (auto simp: str_def)
  have "follow ?us '')''" by (simp add: follow_def str_def)
  then have l: "gives b ?us (\<lambda>x. denotes (word_text b) x c) (parseline j b (tok_next b s2))" for j
    using assms(1) tok_next_sym [OF p2(2) symbol_syms(2)] unfolding reads_line_def by simp
  have rest: "gives b ts (\<lambda>x. denotes (word_text b) x (redirs c rs)) (case peek b u (str '')'') of
      (False, s) \<Rightarrow> PPanic (str ''syntax - missing )'')
    | (True, s) \<Rightarrow> pbnd (parseredirs j b [] (tok_next b s)) (\<lambda>(rs, s). PDone (wrap_redirs x rs, s)))"
    if u: "sees b u ?us" "denotes (word_text b) x c" for u x j
  proof -
    from peek_this [OF u(1), of "str '')''"] obtain s3 where p3: "peek b u (str '')'') = (True, s3)" "sees b s3 ?us" by (auto simp: str_def)
    have "gives b ts (\<lambda>ps. rmatch b ps ([] @ rs)) (parseredirs j b [] (tok_next b s3))"
      using tok_next_sym [OF p3(2) symbol_syms(3)] r n by (intro parseredirs_reads) (simp_all add: rmatch_def)
    then have "gives b ts (\<lambda>x. denotes (word_text b) x (redirs c rs))
      (pbnd (parseredirs j b [] (tok_next b s3)) (\<lambda>(rs, s). PDone (wrap_redirs x rs, s)))"
      by (rule gives_bnd) (simp add: denotes_wrap u(2))
    then show ?thesis using p3(1) by simp
  qed
  have "gives b ts (\<lambda>x. denotes (word_text b) x (redirs c rs)) (parseblock j b s1)" for j
  proof (cases j)
    case (Suc i)
    show ?thesis unfolding Suc parseblock.simps p2(1) by (simp only: prod.case bool.case, rule gives_bnd [OF l]) (simp only: prod.case rest)
  qed simp
  then show "gives b ts (\<lambda>x. denotes (word_text b) x (redirs c rs)) (parseexec k b s)" using p1(1) by (cases k) simp_all
qed

lemma exec_reads:
  assumes "list_all is_name ws" and "length ws < MAXARGS"
  shows "reads_exec b (SExec ws)"
  unfolding reads_exec_def
proof (intro allI impI, elim conjE)
  fix k s rs ts assume s: "sees b s (tokens 3 (SExec ws) @ rtoks rs @ ts)" and r: "names_ok rs" and f: "follow ts ''|)&;''"
  have n: "nxt ts \<notin> set (str ''<>'')" using f by (auto simp: follow_def str_def)
  have s: "sees b s (ws @ rtoks rs @ ts)" using s by simp
  define rs1 rs2 where "rs1 = (if ws = [] then rs else [])" and "rs2 = (if ws = [] then [] else rs)"
  have r12: "ws @ rtoks rs @ ts = rtoks rs1 @ ws @ rtoks rs2 @ ts" "rs1 @ rs2 = rs" by (simp_all add: rs1_def rs2_def)
  have w: "nxt (ws @ us) \<notin> set symbols" if "ws \<noteq> []" for us
    using that assms(1) name_nxt [of "hd ws" "tl ws @ us"] by (cases ws) simp_all
  have "nxt (ws @ rtoks rs @ ts) \<notin> set (str ''('')"
  proof (cases "ws = []")
    case True
    then show ?thesis using f rop_sym(2) [of "snd (hd rs)"] by (cases rs) (auto simp: follow_def str_def)
  qed (use w in \<open>auto simp: symbols_def str_def\<close>)
  from peek_other [OF s this] obtain s1 where p: "peek b s (str ''('') = (False, s1)" and s1: "sees b s1 (ws @ rtoks rs @ ts)" by blast
  have "gives b ts (\<lambda>x. denotes (word_text b) x (redirs (SExec ws) rs)) (pbnd (parseredirs j b [] s1) (\<lambda>(rs, s). parse_args j b [] rs s))" for j
  proof (rule gives_bnd)
    have "nxt (ws @ rtoks rs2 @ ts) \<notin> set (str ''<>'')"
      using w [of "rtoks rs2 @ ts"] n by (cases "ws = []") (auto simp: rs2_def symbols_def str_def)
    then show "gives b (ws @ rtoks rs2 @ ts) (\<lambda>ps. rmatch b ps ([] @ rs1)) (parseredirs j b [] s1)"
      using s1 r unfolding r12 by (intro parseredirs_reads) (simp_all add: rs1_def rmatch_def)
    fix ps u assume u: "sees b u (ws @ rtoks rs2 @ ts)" "rmatch b ps ([] @ rs1)"
    have "gives b ts (\<lambda>c. denotes (word_text b) c (redirs (SExec (map (word_text b) [] @ ws)) (rs1 @ rs2))) (parse_args j b [] ps u)"
      using u assms f r by (intro parse_args_reads) (simp_all add: rs2_def)
    then show "gives b ts (\<lambda>x. denotes (word_text b) x (redirs (SExec ws) rs)) ((\<lambda>(rs, s). parse_args j b [] rs s) (ps, u))"
      using r12(2) by simp
  qed
  then show "gives b ts (\<lambda>x. denotes (word_text b) x (redirs (SExec ws) rs)) (parseexec k b s)" using p by (cases k) simp_all
qed

lemma redir_reads:
  assumes "reads_exec b c" and "is_name f"
  shows "reads_exec b (SRedir c f r)"
  unfolding reads_exec_def
proof (intro allI impI, elim conjE)
  fix k s rs ts assume "sees b s (tokens 3 (SRedir c f r) @ rtoks rs @ ts)" "names_ok rs" "follow ts ''|)&;''"
  then show "gives b ts (\<lambda>x. denotes (word_text b) x (redirs (SRedir c f r) rs)) (parseexec k b s)"
    using reads_execD [OF assms(1), of s "(f, r) # rs" ts k] assms(2) by simp
qed

lemma pipe_reads:
  assumes "reads_exec b l" and "reads_pipe b r"
  shows "reads_pipe b (SPipe l r)"
  unfolding reads_pipe_def
proof (intro allI impI, elim conjE)
  fix k s ts assume s: "sees b s (tokens 2 (SPipe l r) @ ts)" and f: "follow ts '')&;''"
  let ?us = "str ''|'' # tokens 2 r @ ts"
  have s: "sees b s (tokens 3 l @ rtoks [] @ ?us)" using s by (simp add: paren_def)
  have e: "gives b ?us (\<lambda>x. denotes (word_text b) x (redirs l [])) (parseexec j b s)" for j
    using s by (rule reads_execD [OF assms(1)]) (simp_all add: follow_def str_def)
  have rest: "gives b ts (\<lambda>x. denotes (word_text b) x (SPipe l r)) (case peek b u (str ''|'') of
       (True, s) \<Rightarrow> pbnd (parsepipe j b (tok_next b s)) (\<lambda>(d, s). PDone (pipecmd c d, s)) | (False, s) \<Rightarrow> PDone (c, s))"
    if u: "sees b u ?us" "denotes (word_text b) c (redirs l [])" for u c j
  proof -
    from peek_this [OF u(1), of "str ''|''"] obtain s2 where p: "peek b u (str ''|'') = (True, s2)" "sees b s2 ?us" by (auto simp: str_def)
    have "gives b ts (\<lambda>x. denotes (word_text b) x r) (parsepipe j b (tok_next b s2))"
      using assms(2) tok_next_sym [OF p(2) symbol_syms(1)] f unfolding reads_pipe_def by simp
    then have "gives b ts (\<lambda>x. denotes (word_text b) x (SPipe l r)) (pbnd (parsepipe j b (tok_next b s2)) (\<lambda>(d, s). PDone (pipecmd c d, s)))"
      by (rule gives_bnd) (use u(2) in simp)
    then show ?thesis using p(1) by simp
  qed
  show "gives b ts (\<lambda>x. denotes (word_text b) x (SPipe l r)) (parsepipe k b s)"
  proof (cases k)
    case (Suc j)
    show ?thesis unfolding Suc parsepipe.simps by (rule gives_bnd [OF e]) (simp only: prod.case rest)
  qed simp
qed

lemma back_reads:
  assumes "reads_back b c"
  shows "reads_back b (SBack c)"
  unfolding reads_back_def
proof (intro allI impI, elim conjE)
  fix k s n ts assume "sees b s (tokens 1 (SBack c) @ replicate n (str ''&'') @ ts)" "follow ts '');''"
  then show "gives b ts (\<lambda>x. denotes (word_text b) x ((SBack ^^ n) (SBack c))) (pbnd (parsepipe k b s) (\<lambda>(c, s). parse_backs k b c s))"
    using reads_backD [OF assms, of s "Suc n" ts k] by (simp add: paren_def funpow_swap1)
qed

lemma list_reads:
  assumes "reads_back b l" and "reads_line b r"
  shows "reads_line b (SList l r)"
  unfolding reads_line_def
proof (intro allI impI, elim conjE)
  fix k s ts assume s: "sees b s (tokens 0 (SList l r) @ ts)" and f: "follow ts '')''"
  let ?us = "str '';'' # tokens 0 r @ ts"
  have s: "sees b s (tokens 1 l @ replicate 0 (str ''&'') @ ?us)" using s by (simp add: paren_def)
  have e: "gives b ?us (\<lambda>x. denotes (word_text b) x ((SBack ^^ 0) l)) (pbnd (parsepipe j b s) (\<lambda>(c, s). parse_backs j b c s))" for j
    using s by (rule reads_backD [OF assms(1)]) (simp add: follow_def str_def)
  have rest: "gives b ts (\<lambda>x. denotes (word_text b) x (SList l r)) (case peek b u (str '';'') of
       (True, s) \<Rightarrow> pbnd (parseline j b (tok_next b s)) (\<lambda>(d, s). PDone (listcmd c d, s)) | (False, s) \<Rightarrow> PDone (c, s))"
    if u: "sees b u ?us" "denotes (word_text b) c ((SBack ^^ 0) l)" for u c j
  proof -
    from peek_this [OF u(1), of "str '';''"] obtain s2 where p: "peek b u (str '';'') = (True, s2)" "sees b s2 ?us" by (auto simp: str_def)
    have "gives b ts (\<lambda>x. denotes (word_text b) x r) (parseline j b (tok_next b s2))"
      using assms(2) tok_next_sym [OF p(2) symbol_syms(4)] f unfolding reads_line_def by simp
    then have "gives b ts (\<lambda>x. denotes (word_text b) x (SList l r)) (pbnd (parseline j b (tok_next b s2)) (\<lambda>(d, s). PDone (listcmd c d, s)))"
      by (rule gives_bnd) (use u(2) in simp)
    then show ?thesis using p(1) by simp
  qed
  show "gives b ts (\<lambda>x. denotes (word_text b) x (SList l r)) (parseline k b s)"
  proof (cases k)
    case (Suc j)
    show ?thesis unfolding Suc parseline_back by (rule gives_bnd [OF e]) (simp only: prod.case rest)
  qed simp
qed

lemma grammar:
  "sh_ok c \<Longrightarrow> reads_exec b c \<and> reads_pipe b c \<and> reads_back b c \<and> reads_line b c"
proof (induction c)
  case (SExec ws)
  then have e: "reads_exec b (SExec ws)" by (intro exec_reads) simp_all
  from exec_pipe [OF this] pipe_back back_line show ?case using e by simp
next
  case (SRedir c f r)
  then have e: "reads_exec b (SRedir c f r)" by (intro redir_reads) simp_all
  from exec_pipe [OF this] pipe_back back_line show ?case using e by simp
next
  case (SPipe l r)
  then have p: "reads_pipe b (SPipe l r)" by (intro pipe_reads) simp_all
  then have k: "reads_back b (SPipe l r)" by (rule pipe_back) (simp add: paren_def)
  then have l: "reads_line b (SPipe l r)" by (rule back_line) (simp add: paren_def)
  have "reads_exec b (SPipe l r)" by (rule line_exec [OF l]) (simp add: paren_def)
  then show ?case using p k l by simp
next
  case (SList l r)
  then have n: "reads_line b (SList l r)" by (intro list_reads) simp_all
  then have e: "reads_exec b (SList l r)" by (rule line_exec) (simp add: paren_def)
  then have p: "reads_pipe b (SList l r)" by (rule exec_pipe) (simp add: paren_def)
  then have "reads_back b (SList l r)" by (rule pipe_back) (simp add: paren_def)
  then show ?case using n e p by simp
next
  case (SBack c)
  then have k: "reads_back b (SBack c)" by (intro back_reads) simp_all
  then have l: "reads_line b (SBack c)" by (rule back_line) (simp add: paren_def)
  then have e: "reads_exec b (SBack c)" by (rule line_exec) (simp add: paren_def)
  then have "reads_pipe b (SBack c)" by (rule exec_pipe) (simp add: paren_def)
  then show ?case using k l e by simp
qed

section \<open>Printing and parsing\<close>

lemma sees_print: "sh_ok c \<Longrightarrow> sees (print_sh c) 0 (tokens 0 c @ [])"
  using tokens_ok [of c 0] flat_start [of "tokens 0 c"] by (simp add: sees_def print_sh_def)

lemma print_nonzero: "sh_ok c \<Longrightarrow> 0 \<notin> set (print_sh c)"
proof -
  assume "sh_ok c"
  then have "0 \<notin> set t" if "t \<in> set (tokens 0 c)" for t
    using tokens_ok [of c 0] that by (auto simp: list.pred_set is_sym_def is_name_def str_def)
  then show ?thesis by (auto simp: print_sh_def flat_def)
qed

text \<open>
  C35 (\<^verbatim>\<open>sh.c\<close>, \<^verbatim>\<open>parsecmd\<close>): parsing undoes printing. A command of lists, background jobs, pipelines, redirections and
  up to nine words, printed with parentheses only where precedence and associativity need them, is parsed without a
  message into a command of that shape, whose words and file names, read from the buffer after \<^verbatim>\<open>nulterminate\<close>, are
  the ones printed and whose redirections open the file in the mode and on the descriptor of their symbol.
\<close>

theorem print_parse_roundtrip:
  assumes "sh_ok c"
  shows "\<exists>c' b'. parsecmd (print_sh c) = PDone (c', b') \<and> denotes (\<lambda>(q, _). cstring b' q) c' c"
proof -
  let ?b = "print_sh c"
  have e: "ends ?b 0 (cmd_good ?b) (parseline (parse_fuel ?b) ?b 0)" by (rule parser_ends) (simp_all add: parse_fuel_def)
  have "follow [] '')''" by (simp add: follow_def)
  then have "gives ?b [] (\<lambda>x. denotes (word_text ?b) x c) (parseline (parse_fuel ?b) ?b 0)"
    using grammar [OF assms, of ?b] sees_print [OF assms] unfolding reads_line_def by blast
  with e obtain c' s where p: "parseline (parse_fuel ?b) ?b 0 = PDone (c', s)" "sees ?b s []" "denotes (word_text ?b) c' c" "cmd_good ?b c'"
    by (auto simp: gives_def ends_def split: presult.splits)
  have "skip_while is_ws ?b s = length ?b"
    using sees_skip(1,3) [OF p(2)] by (simp add: sees_def)
  then have "parsecmd ?b = PDone (c', nulterminate c' ?b)" using p(1) by (simp add: parsecmd_def peek_def Let_def)
  moreover have "denotes (\<lambda>(q, _). cstring (nulterminate c' ?b) q) c' c"
    using p(3) nulterminate_words [OF p(4) _ print_nonzero [OF assms]] by (subst denotes_cong [where V = "word_text ?b"]) auto
  ultimately show ?thesis by blast
qed

theorem print_parse_roundtrip_witness:
  "\<exists>c' b'. parsecmd (str ''( a & ; b ) > f | wc '') = PDone (c', b') \<and>
     denotes (\<lambda>(q, _). cstring b' q) c' (SPipe (SRedir (SList (SBack (SExec [str ''a''])) (SExec [str ''b''])) (str ''f'') ROut) (SExec [str ''wc'']))"
proof -
  let ?c = "SPipe (SRedir (SList (SBack (SExec [str ''a''])) (SExec [str ''b''])) (str ''f'') ROut) (SExec [str ''wc''])"
  have "sh_ok ?c" by (simp add: is_name_def is_word_set whitespace_def symbols_def str_def MAXARGS_def)
  moreover have "print_sh ?c = str ''( a & ; b ) > f | wc ''" by (simp add: print_sh_def paren_def str_def)
  ultimately show ?thesis using print_parse_roundtrip [of ?c] by simp
qed

end
