(* ===== verification/Programs.thy ===== *)
theory Programs
  imports User
begin

text \<open>
  The remaining user programs: \<^verbatim>\<open>init\<close>, \<^verbatim>\<open>kill\<close>, \<^verbatim>\<open>ln\<close>, \<^verbatim>\<open>mkdir\<close>, \<^verbatim>\<open>rm\<close>, \<^verbatim>\<open>zombie\<close>, \<^verbatim>\<open>sleep\<close>, \<^verbatim>\<open>pingpong\<close>, \<^verbatim>\<open>ls\<close>, \<^verbatim>\<open>find\<close>,
  \<^verbatim>\<open>forktest\<close> and \<^verbatim>\<open>stressfs\<close>. Loops that go on until the kernel says stop have fuel. Bytes a program reads from its
  stack before it has written them are an argument of the definition.
\<close>

section \<open>Strings on the stack\<close>

text \<open>The string that starts in an array, with what lies behind the array; without a nul the program runs on.\<close>

definition stack_string :: "uchar list \<Rightarrow> uchar list option" where
  "stack_string bs = (if 0 \<in> set bs then Some (takeWhile (\<lambda>c. c \<noteq> 0) bs) else None)"

definition overlay :: "uchar list \<Rightarrow> uchar list \<Rightarrow> uchar list" where
  "overlay bs old = bs @ drop (length bs) old"

text \<open>A message on a descriptor and the end of the program.\<close>

definition fail_u :: "int \<Rightarrow> uchar list \<Rightarrow> int \<Rightarrow> 'a uop" where
  "fail_u fd msg n = uthn (fprintf fd (msg @ [10]) []) (exit_u n)"

definition skip_u :: "'a uop \<Rightarrow> unit uop" where
  "skip_u m = uthn m (URet ())"

section \<open>init.c\<close>

definition CONSOLE :: int where "CONSOLE = 1"

fun init_wait :: "nat \<Rightarrow> int \<Rightarrow> unit uop" where
  "init_wait 0 p = UHang"
| "init_wait (Suc k) p =
     ubnd wait_u (\<lambda>(wpid, _).
     if wpid = p then URet ()
     else if wpid < 0 then uthn (printf_u (str ''init: wait returned an error'' @ [10]) []) (exit_u 1)
     else init_wait k p)"

fun init_loop :: "nat \<Rightarrow> unit uop" where
  "init_loop 0 = UHang"
| "init_loop (Suc k) =
     uthn (printf_u (str ''init: starting sh'' @ [10]) []) (
     ubnd fork_u (\<lambda>pid.
     if pid < 0 then uthn (printf_u (str ''init: fork failed'' @ [10]) []) (exit_u 1)
     else if pid = 0
     then uthn (exec_u (str ''sh'') [str ''sh'']) (
          uthn (printf_u (str ''init: exec sh failed'' @ [10]) [])
               (exit_u 1))
     else uthn (init_wait k pid) (init_loop k)))"

definition init_main :: "nat \<Rightarrow> unit uop" where
  "init_main k =
     ubnd (open_u (str ''console'') O_RDWR) (\<lambda>r.
     uthn (if r < 0
           then uthn (mknod_u (str ''console'') CONSOLE 0) (skip_u (open_u (str ''console'') O_RDWR))
           else URet ()) (
     uthn (dup_u 0) (
     uthn (dup_u 0)
          (init_loop k))))"

section \<open>kill.c, ln.c, mkdir.c, rm.c, zombie.c, sleep.c\<close>

definition kill_main :: "uchar list list \<Rightarrow> unit uop" where
  "kill_main argv =
     (if length argv < 2 then fail_u 2 (str ''usage: kill pid...'') 1
      else uthn (ueach (tl argv) (\<lambda>a. case atoi a of Some n \<Rightarrow> skip_u (kill_u n) | None \<Rightarrow> UFault))
                (exit_u 0))"

definition ln_main :: "uchar list list \<Rightarrow> unit uop" where
  "ln_main argv =
     (if length argv \<noteq> 3 then fail_u 2 (str ''Usage: ln old new'') 1
      else ubnd (link_u (argv ! 1) (argv ! 2)) (\<lambda>r.
           uthn (if r < 0 then fprintf 2 (str ''link %s %s: failed'' @ [10]) [PStr (Some (argv ! 1)), PStr (Some (argv ! 2))] else URet ())
                (exit_u 0)))"

fun mkdir_loop :: "uchar list list \<Rightarrow> unit uop" where
  "mkdir_loop [] = URet ()"
| "mkdir_loop (a # as) =
     ubnd (mkdir_u a) (\<lambda>r.
     if r < 0 then fprintf 2 (str ''mkdir: %s failed to create'' @ [10]) [PStr (Some a)]
     else mkdir_loop as)"

definition mkdir_main :: "uchar list list \<Rightarrow> unit uop" where
  "mkdir_main argv =
     (if length argv < 2 then fail_u 2 (str ''Usage: mkdir files...'') 1
      else uthn (mkdir_loop (tl argv)) (exit_u 0))"

fun rm_loop :: "uchar list list \<Rightarrow> unit uop" where
  "rm_loop [] = URet ()"
| "rm_loop (a # as) =
     ubnd (unlink_u a) (\<lambda>r.
     if r < 0 then fprintf 2 (str ''rm: %s failed to delete'' @ [10]) [PStr (Some a)]
     else rm_loop as)"

definition rm_main :: "uchar list list \<Rightarrow> unit uop" where
  "rm_main argv =
     (if length argv < 2 then fail_u 2 (str ''Usage: rm files...'') 1
      else uthn (rm_loop (tl argv)) (exit_u 0))"

definition zombie_main :: "unit uop" where
  "zombie_main =
     ubnd fork_u (\<lambda>pid.
     uthn (if pid > 0 then skip_u (sleep_u 5) else URet ())
          (exit_u 0))"

text \<open>
  \<^verbatim>\<open>is_number\<close> is declared in \<^verbatim>\<open>user.h\<close> and defined nowhere: it is an argument. The messages do not end the program; the
  parameter of a call without arguments is the null pointer.
\<close>

definition sleep_main :: "(uchar list option \<Rightarrow> bool) \<Rightarrow> uchar list list \<Rightarrow> unit uop" where
  "sleep_main is_number argv =
     (let parameter = (if length argv \<le> 1 then None else Some (argv ! 1)) in
      uthn (if length argv \<le> 1 then skip_u (write_u 1 (str ''error: you need to input an integer parameter'')) else URet ()) (
      uthn (if \<not> is_number parameter then skip_u (write_u 1 (str ''error: you must input an integer'')) else URet ())
           (case Option.bind parameter atoi of
              None \<Rightarrow> UFault
            | Some sleep_seconds \<Rightarrow> uthn (sleep_u sleep_seconds) (exit_u 0))))"

section \<open>pingpong.c\<close>

text \<open>\<open>stack\<close> are the bytes from \<^verbatim>\<open>buf\<close> on. The four bytes received are printed with \<^verbatim>\<open>%s\<close>: there is no nul in \<^verbatim>\<open>buf\<close>.\<close>

definition pingpong_main :: "uchar list \<Rightarrow> unit uop" where
  "pingpong_main stack =
     ubnd pipe_u (\<lambda>(_, p0, p1).
     ubnd fork_u (\<lambda>fork_pid.
     ubnd getpid_u (\<lambda>pid.
     ubnd (if fork_pid = 0
           then ubnd (read_u p0 4) (\<lambda>(_, bs). uthn (write_u p1 (str ''pong'')) (URet bs))
           else uthn (write_u p1 (str ''ping'')) (uthn wait_u (ubnd (read_u p0 4) (\<lambda>(_, bs). URet bs)))) (\<lambda>bs.
     case stack_string (overlay bs stack) of
       None \<Rightarrow> UFault
     | Some buf \<Rightarrow>
         uthn (printf_u (str ''%d: received %s'' @ [10]) [PInt (of_int pid), PStr (Some buf)]) (
         uthn (close_u p0) (
         uthn (close_u p1)
              (exit_u 0)))))))"

section \<open>ls.c\<close>

text \<open>The loop \<^verbatim>\<open>for(p=path+strlen(path); p >= path && *p != '/'; p--);\<close> and \<^verbatim>\<open>p++\<close>: what follows the last slash.\<close>

definition last_name :: "uchar list \<Rightarrow> uchar list" where
  "last_name path = rev (takeWhile (\<lambda>c. c \<noteq> of_char CHR ''/'') (rev path))"

definition fmtname :: "uchar list \<Rightarrow> uchar list" where
  "fmtname path =
     (let p = last_name path in
      if length p \<ge> DIRSIZ then p else p @ replicate (DIRSIZ - length p) 32)"

text \<open>The name in an entry that a nul may end.\<close>

definition entry_name :: "uchar list \<Rightarrow> uchar list" where
  "entry_name de = takeWhile (\<lambda>c. c \<noteq> 0) (de_name de)"

fun ls_loop :: "nat \<Rightarrow> int \<Rightarrow> uchar list \<Rightarrow> unit uop" where
  "ls_loop 0 fd path = UHang"
| "ls_loop (Suc k) fd path =
     ubnd (read_u fd 16) (\<lambda>(n, de).
     if n \<noteq> 16 then URet ()
     else if de_inum de = 0 then ls_loop k fd path
     else (let buf = path @ str ''/'' @ entry_name de in
           ubnd (stat_u buf) (\<lambda>(r, st).
           uthn (case st of
                   None \<Rightarrow> printf_u (str ''ls: cannot stat %s'' @ [10]) [PStr (Some buf)]
                 | Some st \<Rightarrow>
                     printf_u (str ''%s %d %d %d'' @ [10]) [PStr (Some (fmtname buf)), PInt (scast (st_type st)), PInt (st_ino st), PInt (ucast (st_size st))])
                (ls_loop k fd path))))"

definition ls :: "nat \<Rightarrow> uchar list \<Rightarrow> unit uop" where
  "ls k path =
     ubnd (open_u path 0) (\<lambda>fd.
     if fd < 0 then fprintf 2 (str ''ls: cannot open %s'' @ [10]) [PStr (Some path)]
     else ubnd (fstat_u fd) (\<lambda>(r, st).
          if r < 0 then uthn (fprintf 2 (str ''ls: cannot stat %s'' @ [10]) [PStr (Some path)]) (skip_u (close_u fd))
          else uthn (if st_type st = T_FILE
                     then printf_u (str ''%s %d %d %l'' @ [10]) [PStr (Some (fmtname path)), PInt (scast (st_type st)), PInt (st_ino st), PPtr (st_size st)]
                     else if st_type st = T_DIR
                     then if length path + 1 + DIRSIZ + 1 > 512 then printf_u (str ''ls: path too long'' @ [10]) []
                          else ls_loop k fd path
                     else URet ())
                    (skip_u (close_u fd))))"

definition ls_main :: "nat \<Rightarrow> uchar list list \<Rightarrow> unit uop" where
  "ls_main k argv =
     (if length argv < 2 then uthn (ls k (str ''.'')) (exit_u 0)
      else uthn (ueach (tl argv) (ls k)) (exit_u 0))"

section \<open>find.c\<close>

definition get_file_name :: "uchar list \<Rightarrow> uchar list" where
  "get_file_name path = last_name path"

text \<open>
  \<open>rest\<close> are the bytes of \<^verbatim>\<open>buf\<close> behind the fourteen of a name, which \<^verbatim>\<open>memmove\<close> does not terminate. A file name of
  fourteen bytes does not fit \<^verbatim>\<open>file_name\<close>, and a path that is too long is copied all the same.
\<close>

fun find :: "nat \<Rightarrow> uchar list \<Rightarrow> uchar list \<Rightarrow> uchar list \<Rightarrow> unit uop"
  and find_loop :: "nat \<Rightarrow> uchar list \<Rightarrow> int \<Rightarrow> uchar list \<Rightarrow> uchar list \<Rightarrow> unit uop" where
  "find 0 rest path target = UHang"
| "find (Suc k) rest path target =
     ubnd (open_u path 0) (\<lambda>fd.
     uthn (if fd < 0 then fprintf 2 (str ''find: cannot open %s'' @ [10]) [PStr (Some path)] else URet ()) (
     ubnd (fstat_u fd) (\<lambda>(r, st).
     if r < 0
     then uthn (fprintf 2 (str ''find: cannot stat %s '' @ [10]) [PStr (Some path)]) (skip_u (close_u fd))
     else uthn (if st_type st = T_FILE
                then if length (get_file_name path) \<ge> DIRSIZ then UFault
                     else if get_file_name path = target then printf_u (str ''%s'' @ [10]) [PStr (Some path)]
                     else URet ()
                else URet ()) (
          uthn (if st_type st = T_DIR
                then uthn (if length path + 1 + DIRSIZ + 1 > 512 then fprintf 2 (str ''ls: path too long'' @ [10]) [] else URet ())
                          (if length path + 1 + DIRSIZ > 512 then UFault else find_loop k rest fd path target)
                else URet ())
               (skip_u (close_u fd))))))"
| "find_loop 0 rest fd path target = UHang"
| "find_loop (Suc k) rest fd path target =
     ubnd (read_u fd 16) (\<lambda>(n, de).
     if n \<noteq> 16 then URet ()
     else if de_inum de = 0 \<or> entry_name de = str ''.'' \<or> entry_name de = str ''..'' then find_loop k rest fd path target
     else (case stack_string (de_name de @ rest) of
             None \<Rightarrow> UFault
           | Some nm \<Rightarrow> uthn (find k rest (path @ str ''/'' @ nm) target) (find_loop k rest fd path target)))"

definition find_main :: "nat \<Rightarrow> uchar list \<Rightarrow> uchar list list \<Rightarrow> unit uop" where
  "find_main k rest argv =
     uthn (if length argv \<noteq> 3 then fprintf 2 (str ''find: missing argument, usage: find [dir] [file]'' @ [10]) [] else URet ())
          (if length argv < 3 then UFault else uthn (find k rest (argv ! 1) (argv ! 2)) (exit_u 0))"

section \<open>forktest.c, stressfs.c\<close>

definition print_u :: "uchar list \<Rightarrow> unit uop" where
  "print_u s = skip_u (write_u 1 s)"

text \<open>\<open>m\<close> forks are left of the thousand; the result is how many were made.\<close>

fun fork_loop :: "nat \<Rightarrow> nat \<Rightarrow> nat uop" where
  "fork_loop 0 n = URet n"
| "fork_loop (Suc m) n =
     ubnd fork_u (\<lambda>pid.
     if pid < 0 then URet n
     else if pid = 0 then exit_u 0
     else fork_loop m (n + 1))"

fun reap_loop :: "nat \<Rightarrow> unit uop" where
  "reap_loop 0 = URet ()"
| "reap_loop (Suc n) =
     ubnd wait_u (\<lambda>(r, _).
     if r < 0 then uthn (print_u (str ''wait stopped early'' @ [10])) (exit_u 1)
     else reap_loop n)"

definition forktest :: "unit uop" where
  "forktest =
     uthn (print_u (str ''fork test'' @ [10])) (
     ubnd (fork_loop 1000 0) (\<lambda>n.
     if n = 1000 then uthn (print_u (str ''fork claimed to work N times!'' @ [10])) (exit_u 1)
     else uthn (reap_loop n) (
          ubnd wait_u (\<lambda>(r, _).
          if r \<noteq> - 1 then uthn (print_u (str ''wait got too many'' @ [10])) (exit_u 1)
          else print_u (str ''fork test OK'' @ [10])))))"

definition forktest_main :: "unit uop" where
  "forktest_main = uthn forktest (exit_u 0)"

fun stress_forks :: "nat \<Rightarrow> nat \<Rightarrow> nat uop" where
  "stress_forks 0 i = URet i"
| "stress_forks (Suc m) i = ubnd fork_u (\<lambda>pid. if pid > 0 then URet i else stress_forks m (i + 1))"

definition stressfs_main :: "unit uop" where
  "stressfs_main =
     uthn (printf_u (str ''stressfs starting'' @ [10]) []) (
     ubnd (stress_forks 4 0) (\<lambda>i.
     uthn (printf_u (str ''write %d'' @ [10]) [PInt (of_nat i)]) (
     (let path = str ''stressfs'' @ [of_char CHR ''0'' + of_nat i] in
     ubnd (open_u path (O_CREATE OR O_RDWR)) (\<lambda>fd.
     uthn (ueach [0..<20] (\<lambda>_. skip_u (write_u fd (replicate 512 (of_char CHR ''a''))))) (
     uthn (close_u fd) (
     uthn (printf_u (str ''read'' @ [10]) []) (
     ubnd (open_u path O_RDONLY) (\<lambda>fd.
     uthn (ueach [0..<20] (\<lambda>_. skip_u (read_u fd 512))) (
     uthn (close_u fd) (
     uthn wait_u
          (exit_u 0))))))))))))"

end
