(* ===== verification/Grind.thy ===== *)
theory Grind
  imports Programs
begin

text \<open>
  \<^verbatim>\<open>user/grind.c\<close>: random system calls by two processes for ever. The random number generator is Park and Miller's,
  computed with Schrage's decomposition; the system calls of one turn are a definition for each of the 23 cases, and
  the loops have fuel.
\<close>

section \<open>Random numbers\<close>

definition do_rand :: "uint64 \<Rightarrow> int \<times> uint64" where
  "do_rand ctx =
     (let x = uint (ctx mod 0x7ffffffe) + 1;
          hi = x div 127773;
          lo = x mod 127773;
          x = 16807 * lo - 2836 * hi;
          x = (if x < 0 then x + 0x7fffffff else x);
          x = x - 1 in
      (x, of_int x))"

section \<open>One turn\<close>

definition to_int :: "int \<Rightarrow> int" where
  "to_int x = sint (of_int x :: uint)"

definition touch :: "string \<Rightarrow> unit uop" where
  "touch path = ubnd (open_u (str path) (O_CREATE OR O_RDWR)) (\<lambda>fd. skip_u (close_u fd))"

definition rmfile :: "string \<Rightarrow> unit uop" where
  "rmfile path = skip_u (unlink_u (str path))"

text \<open>A fork whose child does \<open>c\<close> and exits; the parent goes on with \<open>p\<close>, which gets the child's number.\<close>

definition with_child :: "string \<Rightarrow> unit uop \<Rightarrow> (int \<Rightarrow> unit uop) \<Rightarrow> unit uop" where
  "with_child msg c p =
     ubnd fork_u (\<lambda>n.
     if n = 0 then uthn c (exit_u 0)
     else if n < 0 then fail_u 1 (str msg) 1
     else p n)"

definition go_pipe :: "unit uop" where
  "go_pipe =
     ubnd pipe_u (\<lambda>(r, f0, f1).
     if r < 0 then fail_u 1 (str ''grind: pipe failed'') 1
     else with_child ''grind: fork failed''
            (uthn fork_u (
             uthn fork_u (
             ubnd (write_u f1 (str ''x'')) (\<lambda>n.
             uthn (if n \<noteq> 1 then printf_u (str ''grind: pipe write failed'' @ [10]) [] else URet ()) (
             ubnd (read_u f0 1) (\<lambda>(n, _).
             if n \<noteq> 1 then printf_u (str ''grind: pipe read failed'' @ [10]) [] else URet ()))))))
            (\<lambda>_. uthn (close_u f0) (uthn (close_u f1) (skip_u wait_u))))"

definition go_file :: "unit uop" where
  "go_file =
     uthn (rmfile ''c'') (
     ubnd (open_u (str ''c'') (O_CREATE OR O_RDWR)) (\<lambda>fd1.
     if fd1 < 0 then fail_u 1 (str ''create c failed'') 1
     else ubnd (write_u fd1 (str ''x'')) (\<lambda>n.
     if n \<noteq> 1 then fail_u 1 (str ''write c failed'') 1
     else ubnd (fstat_u fd1) (\<lambda>(r, st).
     if r \<noteq> 0 then fail_u 1 (str ''fstat failed'') 1
     else if st_size st \<noteq> 1
     then uthn (printf_u (str ''fstat reports wrong size %d'' @ [10]) [PInt (ucast (st_size st))]) (exit_u 1)
     else if st_ino st > 200
     then uthn (printf_u (str ''fstat reports crazy i-number %d'' @ [10]) [PInt (st_ino st)]) (exit_u 1)
     else uthn (close_u fd1) (rmfile ''c'')))))"

text \<open>The pipeline \<^verbatim>\<open>echo hi | cat\<close>: its two children, and the parent that reads two bytes.\<close>

definition go_echo :: "int \<Rightarrow> int \<Rightarrow> int \<Rightarrow> int \<Rightarrow> unit uop" where
  "go_echo aa0 aa1 bb0 bb1 =
     uthn (close_u bb0) (
     uthn (close_u bb1) (
     uthn (close_u aa0) (
     uthn (close_u 1) (
     ubnd (dup_u aa1) (\<lambda>r.
     if r \<noteq> 1 then fail_u 2 (str ''dup failed'') 1
     else uthn (close_u aa1) (
          uthn (exec_u (str ''grindir/../echo'') [str ''echo'', str ''hi''])
               (fail_u 2 (str ''echo: not found'') 2)))))))"

definition go_cat :: "int \<Rightarrow> int \<Rightarrow> int \<Rightarrow> int \<Rightarrow> unit uop" where
  "go_cat aa0 aa1 bb0 bb1 =
     uthn (close_u aa1) (
     uthn (close_u bb0) (
     uthn (close_u 0) (
     ubnd (dup_u aa0) (\<lambda>r.
     if r \<noteq> 0 then fail_u 2 (str ''dup failed'') 4
     else uthn (close_u aa0) (
          uthn (close_u 1) (
          ubnd (dup_u bb1) (\<lambda>r.
          if r \<noteq> 1 then fail_u 2 (str ''dup failed'') 5
          else uthn (close_u bb1) (
               uthn (exec_u (str ''/cat'') [str ''cat''])
                    (fail_u 2 (str ''cat: not found'') 6)))))))))"

definition go_collect :: "int \<Rightarrow> int \<Rightarrow> int \<Rightarrow> int \<Rightarrow> unit uop" where
  "go_collect aa0 aa1 bb0 bb1 =
     uthn (close_u aa0) (
     uthn (close_u aa1) (
     uthn (close_u bb1) (
     ubnd (read_u bb0 1) (\<lambda>(_, x).
     ubnd (read_u bb0 1) (\<lambda>(_, y).
     uthn (close_u bb0) (
     ubnd wait_u (\<lambda>(_, st1).
     ubnd wait_u (\<lambda>(_, st2).
     (let buf = takeWhile (\<lambda>c. c \<noteq> 0) (overlay x [0] @ overlay y [0]) in
      if st1 \<noteq> 0 \<or> st2 \<noteq> 0 \<or> buf \<noteq> str ''hi''
      then uthn (printf_u (str ''exec pipeline failed %d %d \"%s\"'' @ [10]) [PInt (of_int st1), PInt (of_int st2), PStr (Some buf)]) (exit_u 1)
      else URet ()))))))))) "

definition go_pipeline :: "unit uop" where
  "go_pipeline =
     ubnd pipe_u (\<lambda>(r, aa0, aa1).
     if r < 0 then fail_u 2 (str ''pipe failed'') 1
     else ubnd pipe_u (\<lambda>(r, bb0, bb1).
     if r < 0 then fail_u 2 (str ''pipe failed'') 1
     else ubnd fork_u (\<lambda>pid1.
     if pid1 = 0 then go_echo aa0 aa1 bb0 bb1
     else if pid1 < 0 then fail_u 2 (str ''fork failed'') 3
     else ubnd fork_u (\<lambda>pid2.
     if pid2 = 0 then go_cat aa0 aa1 bb0 bb1
     else if pid2 < 0 then fail_u 2 (str ''fork failed'') 7
     else go_collect aa0 aa1 bb0 bb1))))"

text \<open>The static \<^verbatim>\<open>buf\<close> and the descriptor \<^verbatim>\<open>fd\<close> are carried from one turn to the next.\<close>

definition go_turn :: "int \<Rightarrow> int \<Rightarrow> int \<times> uchar list \<Rightarrow> (int \<times> uchar list) uop" where
  "go_turn break0 what = (\<lambda>(fd, buf).
     let keep = (\<lambda>m. uthn m (URet (fd, buf))) in
     if what = 1 then keep (touch ''grindir/../a'')
     else if what = 2 then keep (touch ''grindir/../grindir/../b'')
     else if what = 3 then keep (rmfile ''grindir/../a'')
     else if what = 4 then
       keep (ubnd (chdir_u (str ''grindir'')) (\<lambda>r.
             if r \<noteq> 0 then fail_u 1 (str ''chdir grindir failed'') 1
             else uthn (rmfile ''../b'') (skip_u (chdir_u (str ''/'')))))
     else if what = 5 then
       uthn (close_u fd) (ubnd (open_u (str ''/grindir/../a'') (O_CREATE OR O_RDWR)) (\<lambda>fd. URet (fd, buf)))
     else if what = 6 then
       uthn (close_u fd) (ubnd (open_u (str ''/./grindir/./../b'') (O_CREATE OR O_RDWR)) (\<lambda>fd. URet (fd, buf)))
     else if what = 7 then keep (skip_u (write_u fd buf))
     else if what = 8 then ubnd (read_u fd 999) (\<lambda>(_, bs). URet (fd, overlay bs buf))
     else if what = 9 then
       keep (uthn (mkdir_u (str ''grindir/../a'')) (uthn (touch ''a/../a/./a'') (rmfile ''a/a'')))
     else if what = 10 then
       keep (uthn (mkdir_u (str ''/../b'')) (uthn (touch ''grindir/../b/b'') (rmfile ''b/b'')))
     else if what = 11 then keep (uthn (rmfile ''b'') (skip_u (link_u (str ''../grindir/./../a'') (str ''../b''))))
     else if what = 12 then keep (uthn (rmfile ''../grindir/../a'') (skip_u (link_u (str ''.././b'') (str ''/grindir/../a''))))
     else if what = 13 then keep (with_child ''grind: fork failed'' (URet ()) (\<lambda>_. skip_u wait_u))
     else if what = 14 then keep (with_child ''grind: fork failed'' (uthn fork_u (skip_u fork_u)) (\<lambda>_. skip_u wait_u))
     else if what = 15 then keep (skip_u (sbrk_u 6011))
     else if what = 16 then
       keep (ubnd (sbrk_u 0) (\<lambda>b.
             if b > break0 then ubnd (sbrk_u 0) (\<lambda>b. skip_u (sbrk_u (to_int (- (b - break0))))) else URet ()))
     else if what = 17 then
       keep (with_child ''grind: fork failed'' (touch ''a'') (\<lambda>n.
             ubnd (chdir_u (str ''../grindir/..'')) (\<lambda>r.
             if r \<noteq> 0 then fail_u 1 (str ''chdir failed'') 1
             else uthn (kill_u n) (skip_u wait_u))))
     else if what = 18 then
       keep (with_child ''grind: fork failed'' (ubnd getpid_u (\<lambda>n. skip_u (kill_u n))) (\<lambda>_. skip_u wait_u))
     else if what = 19 then keep go_pipe
     else if what = 20 then
       keep (with_child ''fork failed''
               (uthn (rmfile ''a'') (uthn (mkdir_u (str ''a'')) (uthn (chdir_u (str ''a'')) (uthn (rmfile ''../a'') (
                uthn (open_u (str ''x'') (O_CREATE OR O_RDWR)) (rmfile ''x''))))))
               (\<lambda>_. skip_u wait_u))
     else if what = 21 then keep go_file
     else if what = 22 then keep go_pipeline
     else URet (fd, buf))"

section \<open>The loops\<close>

fun go_loop :: "nat \<Rightarrow> int \<Rightarrow> int \<Rightarrow> uint64 \<Rightarrow> uint64 \<Rightarrow> int \<times> uchar list \<Rightarrow> unit uop" where
  "go_loop 0 which_child break0 iters rand_next s = UHang"
| "go_loop (Suc k) which_child break0 iters rand_next s =
     (let iters = iters + 1 in
      uthn (if iters mod 500 = 0 then skip_u (write_u 1 (str (if which_child \<noteq> 0 then ''B'' else ''A''))) else URet ()) (
      case do_rand rand_next of (n, rand_next) \<Rightarrow>
      ubnd (go_turn break0 (n mod 23) s) (go_loop k which_child break0 iters rand_next)))"

definition go :: "nat \<Rightarrow> uint64 \<Rightarrow> int \<Rightarrow> unit uop" where
  "go k rand_next which_child =
     ubnd (sbrk_u 0) (\<lambda>break0.
     uthn (mkdir_u (str ''grindir'')) (
     ubnd (chdir_u (str ''grindir'')) (\<lambda>r.
     if r \<noteq> 0 then fail_u 1 (str ''chdir grindir failed'') 1
     else uthn (chdir_u (str ''/''))
               (go_loop k which_child break0 0 rand_next (- 1, replicate 999 0)))))"

definition iter :: "nat \<Rightarrow> unit uop" where
  "iter k =
     uthn (rmfile ''a'') (
     uthn (rmfile ''b'') (
     ubnd fork_u (\<lambda>pid1.
     if pid1 < 0 then fail_u 1 (str ''grind: fork failed'') 1
     else if pid1 = 0 then uthn (go k 31 0) (exit_u 0)
     else ubnd fork_u (\<lambda>pid2.
     if pid2 < 0 then fail_u 1 (str ''grind: fork failed'') 1
     else if pid2 = 0 then uthn (go k 7177 1) (exit_u 0)
     else ubnd wait_u (\<lambda>(r, st).
          uthn (if (if r < 0 then - 1 else st) \<noteq> 0 then uthn (kill_u pid1) (skip_u (kill_u pid2)) else URet ()) (
          uthn wait_u
               (exit_u 0)))))))"

fun grind_main :: "nat \<Rightarrow> unit uop" where
  "grind_main 0 = UHang"
| "grind_main (Suc k) =
     ubnd fork_u (\<lambda>n.
     if n = 0 then uthn (iter k) (exit_u 0)
     else uthn (if n > 0 then skip_u wait_u else URet ()) (
          uthn (sleep_u 20)
               (grind_main k)))"

section \<open>The generator\<close>

text \<open>
  Schrage's identity: with \<open>m = a q + r\<close> and \<open>r < q\<close>, the value \<open>a (x mod q) - r (x div q)\<close> is \<open>a x\<close> modulo \<open>m\<close>, and it
  lies between \<open>-m\<close> and \<open>m\<close>.
\<close>

lemma schrage:
  fixes x :: int
  assumes "0 < x" and "x < 0x7fffffff"
  defines "y \<equiv> 16807 * (x mod 127773) - 2836 * (x div 127773)"
  shows "- 0x7fffffff < y" and "y < 0x7fffffff" and "(if y < 0 then y + 0x7fffffff else y) = 16807 * x mod 0x7fffffff"
proof -
  have hi: "0 \<le> x div 127773" "x div 127773 \<le> 16807" using assms(1,2) by (simp_all add: pos_imp_zdiv_nonneg_iff)
  have lo: "0 \<le> x mod 127773" "x mod 127773 < 127773" by simp_all
  show b1: "- 0x7fffffff < y" and b2: "y < 0x7fffffff" unfolding y_def using hi lo by linarith+
  have "y = 16807 * x - 0x7fffffff * (x div 127773)"
    unfolding y_def using div_mult_mod_eq [of x 127773] by linarith
  then have e: "16807 * x = y + 0x7fffffff * (x div 127773)" by simp
  show "(if y < 0 then y + 0x7fffffff else y) = 16807 * x mod 0x7fffffff"
  proof (cases "y < 0")
    case True
    have "16807 * x mod 0x7fffffff = (y + 0x7fffffff) mod 0x7fffffff" unfolding e by simp
    also have "\<dots> = y + 0x7fffffff" by (rule mod_pos_pos_trivial) (use b1 True in simp_all)
    finally show ?thesis using True by simp
  next
    case False
    have "16807 * x mod 0x7fffffff = y mod 0x7fffffff" unfolding e by simp
    also have "\<dots> = y" by (rule mod_pos_pos_trivial) (use b2 False in simp_all)
    finally show ?thesis using False by simp
  qed
qed

text \<open>The inverse of the multiplier: \<open>7^5 * 1407677000 = 11017 (2^31 - 1) + 1\<close>.\<close>

lemma multiplier_inverse: "1407677000 * (16807 * x) mod 0x7fffffff = x mod (0x7fffffff :: int)"
proof -
  have e: "1407677000 * (16807 * x) = x + (11017 * x) * 0x7fffffff" by linarith
  show ?thesis unfolding e by (rule mod_mult_self1)
qed

lemma multiplier_inj:
  fixes x y :: int
  assumes "16807 * x mod 0x7fffffff = 16807 * y mod 0x7fffffff" and "0 \<le> x" "x < 0x7fffffff" "0 \<le> y" "y < 0x7fffffff"
  shows "x = y"
proof -
  have "1407677000 * (16807 * x) mod 0x7fffffff = 1407677000 * (16807 * y) mod 0x7fffffff"
    using assms(1) by (rule mod_mult_cong [OF refl])
  then show ?thesis using assms(2-5) by (simp only: multiplier_inverse mod_pos_pos_trivial)
qed

definition rand_seed :: "uint64 \<Rightarrow> int" where
  "rand_seed ctx = uint ctx mod 0x7ffffffe + 1"

lemma rand_seed_range: "0 < rand_seed ctx" "rand_seed ctx < 0x7fffffff"
proof -
  have "0 \<le> uint ctx mod 0x7ffffffe" "uint ctx mod 0x7ffffffe < 0x7ffffffe" by simp_all
  then show "0 < rand_seed ctx" "rand_seed ctx < 0x7fffffff" unfolding rand_seed_def by linarith+
qed

lemma do_rand_value: "do_rand ctx = (16807 * rand_seed ctx mod 0x7fffffff - 1, of_int (16807 * rand_seed ctx mod 0x7fffffff - 1))"
proof -
  have "uint (ctx mod 0x7ffffffe) + 1 = rand_seed ctx" unfolding rand_seed_def by (simp add: uint_mod_distrib)
  then show ?thesis unfolding do_rand_def Let_def by (simp only: schrage(3) [OF rand_seed_range])
qed

lemma rand_seed_inj:
  assumes "ctx \<le> 0x7ffffffd" and "ctx' \<le> 0x7ffffffd" and "rand_seed ctx = rand_seed ctx'"
  shows "ctx = ctx'"
proof -
  have small: "uint c mod 0x7ffffffe = uint c" if "c \<le> 0x7ffffffd" for c :: uint64
  proof -
    have "uint c \<le> uint (0x7ffffffd :: uint64)" using that by (simp only: word_le_def)
    then have "uint c < 0x7ffffffe" by simp
    then show ?thesis by (intro mod_pos_pos_trivial) simp_all
  qed
  show ?thesis using assms small unfolding rand_seed_def by (simp only: add_right_cancel word_uint_eq_iff)
qed

text \<open>
  C38 (\<^verbatim>\<open>grind.c\<close>, \<^verbatim>\<open>do_rand\<close>): whatever the context, the value is \<open>7^5 x mod (2^31 - 1)\<close>, shifted into the range 0 to
  0x7ffffffd as the comments say; every intermediate result fits 32 bits with its sign, so nothing overflows; the
  context becomes the value, and two contexts of that range with the same successor are equal: the generator permutes
  its states.
\<close>

theorem do_rand_park_miller:
  fixes ctx ctx' :: uint64
  defines "x \<equiv> uint ctx mod 0x7ffffffe + 1"
  shows "fst (do_rand ctx) = 7 ^ 5 * x mod (2 ^ 31 - 1) - 1 \<and>
    0 \<le> fst (do_rand ctx) \<and> fst (do_rand ctx) \<le> 0x7ffffffd \<and>
    \<bar>16807 * (x mod 127773)\<bar> < 2 ^ 31 \<and> \<bar>2836 * (x div 127773)\<bar> < 2 ^ 31 \<and>
    \<bar>16807 * (x mod 127773) - 2836 * (x div 127773)\<bar> < 2 ^ 31 \<and>
    uint (snd (do_rand ctx)) = fst (do_rand ctx) \<and>
    (ctx \<le> 0x7ffffffd \<and> ctx' \<le> 0x7ffffffd \<and> do_rand ctx = do_rand ctx' \<longrightarrow> ctx = ctx')"
proof -
  have x: "0 < x" "x < 0x7fffffff" using rand_seed_range [of ctx] by (simp_all add: x_def rand_seed_def)
  have f: "fst (do_rand ctx) = 16807 * x mod 0x7fffffff - 1" by (simp add: do_rand_value x_def rand_seed_def)
  have lt: "0 \<le> 16807 * x mod 0x7fffffff" "16807 * x mod 0x7fffffff < 0x7fffffff" by simp_all
  have nz: "16807 * x mod 0x7fffffff \<noteq> 0" using multiplier_inj [of x 0] x by auto
  have r: "0 \<le> fst (do_rand ctx)" "fst (do_rand ctx) \<le> 0x7ffffffd" unfolding f using lt nz by linarith+
  have hi: "0 \<le> x div 127773" "x div 127773 \<le> 16807" using x by (simp_all add: pos_imp_zdiv_nonneg_iff)
  have lo: "0 \<le> x mod 127773" "x mod 127773 < 127773" by simp_all
  have i: "\<bar>16807 * (x mod 127773)\<bar> < 2 ^ 31" "\<bar>2836 * (x div 127773)\<bar> < 2 ^ 31" using hi lo by (simp_all add: abs_less_iff)
  have i': "\<bar>16807 * (x mod 127773) - 2836 * (x div 127773)\<bar> < 2 ^ 31" using schrage(1,2) [OF x] by simp
  have "snd (do_rand ctx) = of_int (fst (do_rand ctx))" by (simp add: do_rand_value)
  then have u: "uint (snd (do_rand ctx)) = fst (do_rand ctx)" using r by (simp add: uint_word_of_int)
  have j: "ctx = ctx'" if c: "ctx \<le> 0x7ffffffd" "ctx' \<le> 0x7ffffffd" "do_rand ctx = do_rand ctx'"
  proof (rule rand_seed_inj [OF c(1,2)])
    have "16807 * rand_seed ctx mod 0x7fffffff = 16807 * rand_seed ctx' mod 0x7fffffff" using arg_cong [OF c(3), of fst] by (simp add: do_rand_value)
    then show "rand_seed ctx = rand_seed ctx'" by (rule multiplier_inj) (simp_all add: rand_seed_range less_imp_le)
  qed
  have "(7 :: int) ^ 5 = 16807" "(2 :: int) ^ 31 - 1 = 0x7fffffff" by simp_all
  then show ?thesis using f r i i' u j by (simp only: simp_thms) blast
qed

theorem do_rand_park_miller_witness:
  "fst (do_rand 31) = 537823 \<and> do_rand 31 \<noteq> do_rand 7177"
proof
  show "fst (do_rand 31) = 537823" using do_rand_park_miller [of 31 7177] by simp
  show "do_rand 31 \<noteq> do_rand 7177" using do_rand_park_miller [of 31 7177] by auto
qed

end
