(* ===== verification/Xargs.thy ===== *)
theory Xargs
  imports Programs
begin

text \<open>
  \<^verbatim>\<open>user/xargs.c\<close>. The arrays keep what an earlier call or the stack left in them: \<^verbatim>\<open>line\<close> of 512 bytes, which \<^verbatim>\<open>readline\<close>
  may fill with up to \<^verbatim>\<open>MAX_LINE_LEN\<close> of 1024, \<^verbatim>\<open>curr\<close> of \<^verbatim>\<open>split\<close>, and \<^verbatim>\<open>arg\<close>, the one array of the loop body that all the
  entries of \<^verbatim>\<open>argv\<close> behind the command's own arguments point to.
\<close>

definition MAX_ARG_BYTES :: nat where "MAX_ARG_BYTES = 512"
definition MAX_LINE_LEN :: nat where "MAX_LINE_LEN = 1024"

section \<open>Reading a line\<close>

text \<open>\<^verbatim>\<open>c\<close> keeps its value when \<^verbatim>\<open>read\<close> fails, which the loop takes for a byte.\<close>

fun readline :: "nat \<Rightarrow> int \<Rightarrow> nat \<Rightarrow> uchar \<Rightarrow> nat \<Rightarrow> uchar list \<Rightarrow> (nat \<times> uchar list) uop" where
  "readline 0 fd buf_size c i buf = UHang"
| "readline (Suc k) fd buf_size c i buf =
     ubnd (read_u fd 1) (\<lambda>(n, bs).
     (let c = hd (bs @ [c]) in
      if n = 0 then URet (i, buf)
      else if i < buf_size
      then if i \<ge> length buf then UFault
           else if c \<noteq> 10 then readline k fd buf_size c (i + 1) (buf[i := c])
           else URet (i, buf[i := 0])
      else URet (buf_size + 1, buf)))"

section \<open>Splitting it\<close>

text \<open>
  \<^verbatim>\<open>strcpy(splitted[count], curr)\<close>: a slot is false when the entry of \<^verbatim>\<open>argv\<close> is the null pointer. The string in \<^verbatim>\<open>curr\<close>
  ends with the first nul there.
\<close>

definition store_arg :: "bool list \<Rightarrow> nat \<Rightarrow> uchar list \<Rightarrow> uchar list \<Rightarrow> uchar list option" where
  "store_arg slots cnt word_buf arg =
     (if cnt < length slots \<and> slots ! cnt
      then map_option (\<lambda>t. overlay (t @ [0]) arg) (stack_string word_buf)
      else None)"

fun split_loop :: "uchar \<Rightarrow> nat \<Rightarrow> nat \<Rightarrow> bool list \<Rightarrow> uchar list \<Rightarrow> nat \<Rightarrow> uchar list \<Rightarrow> nat \<Rightarrow> nat \<Rightarrow> uchar list \<Rightarrow> (nat \<times> uchar list) uop" where
  "split_loop delimiter len splitted_cap slots [] i word_buf curr_i cnt arg = URet (cnt, arg)"
| "split_loop delimiter len splitted_cap slots (c # s) i word_buf curr_i cnt arg =
     (if i \<ge> MAX_ARG_BYTES then fail_u 2 (str ''splitted string shard's length exceeds capacity!'') 1
      else if c = delimiter
      then if cnt \<ge> splitted_cap then fail_u 2 (str ''splitted section's length exceeds capacity!'') 1
           else (case store_arg slots cnt (word_buf[curr_i := 0]) arg of
                   None \<Rightarrow> UFault
                 | Some arg \<Rightarrow> split_loop delimiter len splitted_cap slots s (i + 1) (word_buf[curr_i := 0]) 0 (cnt + 1) arg)
      else (let word_buf = word_buf[curr_i := c] in
            if curr_i + 1 = len
            then if cnt \<ge> splitted_cap then fail_u 2 (str ''splitted section's length exceeds capacity!'') 1
                 else (case store_arg slots cnt word_buf arg of
                         None \<Rightarrow> UFault
                       | Some arg \<Rightarrow> split_loop delimiter len splitted_cap slots s (i + 1) word_buf 0 (cnt + 1) arg)
            else split_loop delimiter len splitted_cap slots s (i + 1) word_buf (curr_i + 1) cnt arg))"

definition split_u :: "uchar list \<Rightarrow> uchar list \<Rightarrow> uchar \<Rightarrow> nat \<Rightarrow> bool list \<Rightarrow> uchar list \<Rightarrow> (nat \<times> uchar list) uop" where
  "split_u word_buf s delimiter splitted_cap slots arg = split_loop delimiter (length s) splitted_cap slots s 0 word_buf 0 0 arg"

section \<open>Running the command\<close>

record xargst =
  x_line :: "uchar list"
  x_arg :: "uchar list"
  x_slots :: "bool list"
  x_res :: int

text \<open>The strings \<^verbatim>\<open>exec\<close> gets: the entries of \<^verbatim>\<open>argv\<close> up to the first null pointer.\<close>

definition exec_argv :: "uchar list list \<Rightarrow> xargst \<Rightarrow> uchar list list option" where
  "exec_argv args x =
     map_option (\<lambda>t. args @ map (\<lambda>_. t) (takeWhile (\<lambda>b. b) (x_slots x))) (stack_string (x_arg x))"

fun xargs_loop :: "nat \<Rightarrow> uchar \<Rightarrow> uchar list \<Rightarrow> uchar list option \<Rightarrow> uchar list list \<Rightarrow> int \<Rightarrow> xargst \<Rightarrow> int uop" where
  "xargs_loop 0 c word_buf command args fd x = UHang"
| "xargs_loop (Suc k) c word_buf command args fd x =
     ubnd (readline k fd MAX_LINE_LEN c 0 (x_line x)) (\<lambda>(read_bytes, line).
     (let x = x\<lparr>x_line := line\<rparr> in
      if read_bytes = 0 then URet 0
      else ubnd fork_u (\<lambda>n.
        if n = 0
        then (case stack_string line of
                None \<Rightarrow> UFault
              | Some s \<Rightarrow>
                  ubnd (split_u word_buf s 32 (MAXARG - length args) (x_slots x) (x_arg x)) (\<lambda>(splitted_count, arg).
                  if length args + splitted_count \<ge> MAXARG then UFault
                  else (let x = x\<lparr>x_arg := arg, x_slots := (x_slots x)[splitted_count := False]\<rparr> in
                        (case (command, exec_argv args x) of
                           (Some p, Some argv) \<Rightarrow>
                             uthn (exec_u p argv) (
                             uthn (printf_u (str ''exec failed!'') [])
                                  (xargs_loop k c word_buf command args fd x))
                         | _ \<Rightarrow> UFault))))
        else ubnd wait_u (\<lambda>(r, status).
             (let x = (if r < 0 then x else x\<lparr>x_res := status\<rparr>) in
              if x_res x = 1 then fail_u 2 (str ''child process failed'') 1
              else xargs_loop k c word_buf command args fd x)))))"

text \<open>\<open>x\<close> is what the stack holds when \<^verbatim>\<open>xargs\<close> is called.\<close>

definition xargs :: "nat \<Rightarrow> uchar \<Rightarrow> uchar list \<Rightarrow> xargst \<Rightarrow> uchar list option \<Rightarrow> uchar list list \<Rightarrow> int \<Rightarrow> int uop" where
  "xargs k c word_buf x command args fd =
     (if length args > MAXARG then UFault
      else xargs_loop k c word_buf command args fd (x\<lparr>x_slots := replicate (MAXARG - length args) True\<rparr>))"

definition xargs_main :: "nat \<Rightarrow> uchar \<Rightarrow> uchar list \<Rightarrow> xargst \<Rightarrow> uchar list list \<Rightarrow> unit uop" where
  "xargs_main k c word_buf x argv =
     uthn (if length argv \<le> 1 then printf_u (str ''usage: xargs [command] [args...]'' @ [10]) [] else URet ()) (
     uthn (xargs k c word_buf x (if length argv \<le> 1 then None else Some (argv ! 1)) (tl argv) 0)
          (exit_u 0))"

section \<open>What the command gets\<close>

text \<open>A kernel with an input stream where a fork returns in the child, and that records an \<^verbatim>\<open>exec\<close>, which succeeds.\<close>

record xworld =
  x_inp :: "uchar list"
  x_execs :: "(uchar list \<times> uchar list list) list"

definition xkern :: "xworld \<Rightarrow> ureq \<Rightarrow> uresp option \<times> xworld" where
  "xkern w r = (case r of
       ReqRead fd n \<Rightarrow>
         (let k = min (nat n) (length (x_inp w)) in
          (Some (uresp_of (int k) (take k (x_inp w))), w\<lparr>x_inp := drop k (x_inp w)\<rparr>))
     | ReqFork \<Rightarrow> (Some (uresp_of 0 []), w)
     | ReqExec p argv \<Rightarrow> (None, w\<lparr>x_execs := x_execs w @ [(p, argv)]\<rparr>)
     | _ \<Rightarrow> (None, w))"

lemma stack_string_end: "0 \<notin> set t \<Longrightarrow> stack_string (t @ 0 # r) = Some t"
  by (induction t) (auto simp: stack_string_def)

lemma readline_run:
  assumes "10 \<notin> set t" and "length p + length t < length buf" and "length p + length t < n" and "buf = p @ q" and "length t < k"
    and "x_inp w = t @ 10 # r"
  shows "urun xkern (readline k fd n c (length p) buf) w = (Done (length p + length t, p @ t @ 0 # drop (Suc (length t)) q), w\<lparr>x_inp := r\<rparr>)"
  using assms
proof (induction t arbitrary: k c p q buf w)
  case Nil
  obtain j where k: "k = Suc j" using Nil.prems(5) by (cases k) auto
  obtain a q' where q: "q = a # q'" using Nil.prems(2,4) by (cases q) auto
  have "urun xkern (readline k fd n c (length p) buf) w = (Done (length p, buf[length p := 0]), w\<lparr>x_inp := r\<rparr>)"
    using Nil.prems k by (simp add: read_u_def xkern_def Let_def)
  then show ?case using Nil.prems(4) q by simp
next
  case (Cons b t)
  obtain j where k: "k = Suc j" using Cons.prems(5) by (cases k) auto
  obtain a q' where q: "q = a # q'" using Cons.prems(2,4) by (cases q) auto
  have "urun xkern (readline k fd n c (length p) buf) w = urun xkern (readline j fd n b (Suc (length p)) (buf[length p := b])) (w\<lparr>x_inp := t @ 10 # r\<rparr>)"
    using Cons.prems k q by (simp add: read_u_def xkern_def Let_def)
  also have "\<dots> = (Done (length (p @ [b]) + length t, (p @ [b]) @ t @ 0 # drop (Suc (length t)) q'), w\<lparr>x_inp := t @ 10 # r\<rparr>\<lparr>x_inp := r\<rparr>)"
    using Cons.prems k q Cons.IH [of "p @ [b]" "(p @ [b]) @ q'" q' j "w\<lparr>x_inp := t @ 10 # r\<rparr>" b] by simp
  finally show ?case using q by simp
qed

lemma split_word:
  assumes "32 \<notin> set v" and "length p + length v < len" and "i + length v \<le> MAX_ARG_BYTES" and "length v \<le> length q"
  shows "split_loop 32 len cap slots (v @ s) i (p @ q) (length p) cnt arg =
    split_loop 32 len cap slots s (i + length v) (p @ v @ drop (length v) q) (length p + length v) cnt arg"
  using assms
proof (induction v arbitrary: i p q)
  case (Cons c v)
  obtain a q' where q: "q = a # q'" using Cons.prems(4) by (cases q) auto
  show ?case using Cons.prems Cons.IH [of "p @ [c]" "i + 1" q'] q by (simp add: Let_def)
qed simp

lemma split_space:
  assumes "0 \<notin> set v" and "i < MAX_ARG_BYTES" and "cnt < cap" and "q \<noteq> []" and "cap \<le> length slots" and "slots ! cnt"
  shows "split_loop 32 len cap slots (32 # s) i (v @ q) (length v) cnt arg =
    split_loop 32 len cap slots s (i + 1) (v @ 0 # tl q) 0 (cnt + 1) (overlay (v @ [0]) arg)"
proof -
  have "(v @ q)[length v := 0] = v @ 0 # tl q" using assms(4) by (cases q) simp_all
  then show ?thesis using assms stack_string_end [OF assms(1), of "tl q"] by (simp add: store_arg_def)
qed

text \<open>The words in front of the last one, each with its space.\<close>

definition spaced :: "uchar list list \<Rightarrow> uchar list" where
  "spaced ws = concat (map (\<lambda>v. v @ [32]) ws)"

lemma spaced_simps [simp]: "spaced [] = []" "spaced (v # ws) = v @ 32 # spaced ws"
  by (simp_all add: spaced_def)

definition plain_word :: "uchar list \<Rightarrow> bool" where
  "plain_word v \<longleftrightarrow> v \<noteq> [] \<and> list_all (\<lambda>c. c \<noteq> 0 \<and> c \<noteq> 10 \<and> c \<noteq> 32) v"

lemma split_run:
  assumes "list_all plain_word ws" and "plain_word u" and "i + length (spaced ws) + length u \<le> len" and "len < MAX_ARG_BYTES"
    and "length word_buf = MAX_ARG_BYTES" and "ws \<noteq> [] \<or> 0 < i" and "cnt + length ws \<le> cap" and "cap \<le> length slots" and "list_all (\<lambda>b. b) slots"
  shows "split_loop 32 len cap slots (spaced ws @ u) i word_buf 0 cnt arg = URet (cnt + length ws, fold (\<lambda>v. overlay (v @ [0])) ws arg)"
  using assms
proof (induction ws arbitrary: i word_buf cnt arg)
  case Nil
  have u: "32 \<notin> set u" using Nil.prems(2) by (auto simp: plain_word_def list.pred_set)
  show ?case using split_word [OF u, of "[]" len i word_buf cap slots "[]" cnt arg] Nil.prems by simp
next
  case (Cons v ws)
  have v: "32 \<notin> set v" "0 \<notin> set v" using Cons.prems(1) by (auto simp: plain_word_def list.pred_set)
  have u: "0 < length u" using Cons.prems(2) by (simp add: plain_word_def)
  have 1: "split_loop 32 len cap slots (v @ 32 # spaced ws @ u) i ([] @ word_buf) (length ([] :: uchar list)) cnt arg =
    split_loop 32 len cap slots (32 # spaced ws @ u) (i + length v) ([] @ v @ drop (length v) word_buf) (length ([] :: uchar list) + length v) cnt arg"
    using Cons.prems(3-5) u by (intro split_word v) simp_all
  have 2: "split_loop 32 len cap slots (32 # spaced ws @ u) (i + length v) (v @ drop (length v) word_buf) (length v) cnt arg =
    split_loop 32 len cap slots (spaced ws @ u) (i + length v + 1) (v @ 0 # tl (drop (length v) word_buf)) 0 (cnt + 1) (overlay (v @ [0]) arg)"
    using Cons.prems(3-5,7-9) u by (intro split_space v) (simp_all add: list_all_length)
  have 3: "split_loop 32 len cap slots (spaced ws @ u) (i + length v + 1) (v @ 0 # tl (drop (length v) word_buf)) 0 (cnt + 1) (overlay (v @ [0]) arg) =
    URet (cnt + 1 + length ws, fold (\<lambda>v. overlay (v @ [0])) ws (overlay (v @ [0]) arg))"
    using Cons.prems u by (intro Cons.IH) simp_all
  show ?case using 1 2 3 by simp
qed

lemma fold_last: "ws \<noteq> [] \<Longrightarrow> list_all plain_word ws \<Longrightarrow> stack_string (fold (\<lambda>v. overlay (v @ [0])) ws arg) = Some (last ws)"
proof (induction ws arbitrary: arg rule: rev_induct)
  case (snoc v ws)
  have "0 \<notin> set v" using snoc.prems by (auto simp: plain_word_def list.pred_set)
  then show ?case using stack_string_end [of v] by (simp add: overlay_def)
qed simp

lemma takeWhile_slots: "list_all (\<lambda>b. b) slots \<Longrightarrow> n < length slots \<Longrightarrow> takeWhile (\<lambda>b. b) (slots[n := False]) = replicate n True"
proof (induction slots arbitrary: n)
  case (Cons b slots)
  then show ?case by (cases n) auto
qed simp

text \<open>
  C39 (\<^verbatim>\<open>xargs.c\<close>): what the command gets from a line. On a line of two words or more, separated by one space, \<^verbatim>\<open>xargs\<close> runs
  the command with its own arguments and as many more as there are spaces, but each of these is the last word but one:
  the last word is dropped by \<^verbatim>\<open>split\<close>, and the others are copied one over the other into the one array all the entries
  of \<^verbatim>\<open>argv\<close> point to. Only a line of two words loses just its last.
\<close>

theorem xargs_words_lost:
  assumes "list_all plain_word ws" and "ws \<noteq> []" and "plain_word u" and "length (spaced ws) + length u < MAX_ARG_BYTES"
    and "length args + length ws < MAXARG" and "args \<noteq> []"
    and "length word_buf = MAX_ARG_BYTES" and "length (x_line x) = MAX_ARG_BYTES" and "length (spaced ws) + length u < k"
    and "x_inp w = spaced ws @ u @ 10 # rest"
  shows "urun xkern (xargs_main (Suc k) c word_buf x (str ''xargs'' # args)) w =
    (Gone, w\<lparr>x_inp := rest, x_execs := x_execs w @ [(hd args, args @ replicate (length ws) (last ws))]\<rparr>)"
proof -
  let ?t = "spaced ws @ u" and ?slots = "replicate (MAXARG - length args) True"
  let ?line = "?t @ 0 # drop (Suc (length ?t)) (x_line x)" and ?arg = "fold (\<lambda>v. overlay (v @ [0])) ws (x_arg x)"
  have t: "10 \<notin> set ?t" "0 \<notin> set ?t" "?t \<noteq> []"
    using assms(1,3) by (auto simp: spaced_def plain_word_def list.pred_set)
  have l: "length ?t < MAX_ARG_BYTES" using assms(4) by simp
  have "urun xkern (readline k 0 MAX_LINE_LEN c (length ([] :: uchar list)) (x_line x)) w =
      (Done (length ([] :: uchar list) + length ?t, [] @ ?t @ 0 # drop (Suc (length ?t)) (x_line x)), w\<lparr>x_inp := rest\<rparr>)"
    using t(1) l assms(8,9,10) by (intro readline_run) (simp_all add: MAX_ARG_BYTES_def MAX_LINE_LEN_def)
  then have r: "urun xkern (readline k 0 MAX_LINE_LEN c 0 (x_line x)) w = (Done (length ?t, ?line), w\<lparr>x_inp := rest\<rparr>)" by simp
  have sl: "list_all (\<lambda>b. b) ?slots" by (simp add: list_all_length)
  have s: "split_u word_buf ?t 32 (MAXARG - length args) ?slots (x_arg x) = URet (length ws, ?arg)"
    using split_run [OF assms(1,3), of 0 "length ?t" word_buf 0 "MAXARG - length args" ?slots "x_arg x"] assms(2,5,7) l sl
    by (simp add: split_u_def)
  have e: "exec_argv args (x\<lparr>x_slots := ?slots, x_line := ?line, x_arg := ?arg, x_slots := ?slots[length ws := False]\<rparr>) =
      Some (args @ replicate (length ws) (last ws))"
    using takeWhile_slots [OF sl, of "length ws"] fold_last [OF assms(2,1)] assms(5)
    by (simp add: exec_argv_def map_replicate_const)
  have st: "stack_string (spaced ws @ u @ 0 # q) = Some ?t" for q using stack_string_end [OF t(2)] by simp
  have "urun xkern (xargs_loop (Suc k) c word_buf (Some (hd args)) args 0 (x\<lparr>x_slots := ?slots\<rparr>)) w =
      (Gone, w\<lparr>x_inp := rest, x_execs := x_execs w @ [(hd args, args @ replicate (length ws) (last ws))]\<rparr>)"
    using assms(2,5) t(3) e by (simp add: urun_bnd r Let_def fork_u_def xkern_def [of _ ReqFork] st s urun_thn exec_u_def xkern_def)
  moreover have "(str ''xargs'' # args) ! 1 = hd args" using assms(6) by (simp add: hd_conv_nth)
  ultimately show ?thesis using assms(5,6) by (simp add: xargs_main_def xargs_def urun_thn Suc_le_eq)
qed

theorem xargs_words_lost_witness:
  "urun xkern (xargs_main 20 0 (replicate MAX_ARG_BYTES 0)
      \<lparr>x_line = replicate MAX_ARG_BYTES 0, x_arg = [], x_slots = [], x_res = 0\<rparr> [str ''xargs'', str ''echo''])
    \<lparr>x_inp = str ''a b c'' @ [10], x_execs = []\<rparr> =
    (Gone, \<lparr>x_inp = [], x_execs = [(str ''echo'', [str ''echo'', str ''b'', str ''b''])]\<rparr>)"
  using xargs_words_lost [of "[str ''a'', str ''b'']" "str ''c''" "[str ''echo'']" "replicate MAX_ARG_BYTES 0"
    "\<lparr>x_line = replicate MAX_ARG_BYTES 0, x_arg = [], x_slots = [], x_res = 0\<rparr>" 19 "\<lparr>x_inp = str ''a b c'' @ [10], x_execs = []\<rparr>" "[]" 0]
  by (simp add: plain_word_def str_def MAX_ARG_BYTES_def MAXARG_def)

end
