(* ===== verification/Primes.thy ===== *)
theory Primes
  imports Programs
begin

text \<open>
  \<^verbatim>\<open>user/primes.c\<close>: the sieve as a chain of processes joined by pipes. Each process prints the first number it gets and passes
  on those of the others that it does not divide. \<open>junk\<close> is what the stack holds in \<^verbatim>\<open>n\<close> before the first \<^verbatim>\<open>read\<close> of a call.
\<close>

section \<open>The program\<close>

definition int_at :: "uchar list \<Rightarrow> uint \<Rightarrow> uint" where
  "int_at bs old = le_word (overlay bs (le_bytes 4 old))"

text \<open>The remainder by zero, and that of the smallest number by minus one, are undefined.\<close>

fun primes_loop :: "nat \<Rightarrow> uint \<Rightarrow> uint \<Rightarrow> int \<Rightarrow> int \<Rightarrow> unit uop" where
  "primes_loop 0 n p l0 r1 = UHang"
| "primes_loop (Suc k) n p l0 r1 =
     ubnd (read_u l0 4) (\<lambda>(r, bs).
     (let n = int_at bs n in
      if r = 0 then URet ()
      else if sint p = 0 \<or> sint p = - 1 \<and> sint n = - (2 ^ 31) then UFault
      else if sint n mod sint p = 0 then primes_loop k n p l0 r1
      else uthn (write_u r1 (le_bytes 4 n)) (primes_loop k n p l0 r1)))"

fun primes :: "nat \<Rightarrow> (nat \<Rightarrow> uint) \<Rightarrow> int \<times> int \<Rightarrow> unit uop" where
  "primes 0 junk left = UHang"
| "primes (Suc k) junk left =
     uthn (close_u (snd left)) (
     ubnd (read_u (fst left) 4) (\<lambda>(r, bs).
     if r = 0 then uthn (close_u (fst left)) (exit_u 0)
     else (let n = int_at bs (junk k) in
       ubnd pipe_u (\<lambda>(_, right).
       uthn (printf_u (str ''prime %d'' @ [10]) [PInt n]) (
       ubnd fork_u (\<lambda>pid.
       if pid = 0 then uthn (primes k junk right) (exit_u 0)
       else uthn (close_u (fst right)) (
            uthn (primes_loop k n n (fst left) (snd right)) (
            uthn (close_u (fst left)) (
            uthn (close_u (snd right)) (
            uthn wait_u
                 (exit_u 0))))))))))) "

definition primes_main :: "nat \<Rightarrow> (nat \<Rightarrow> uint) \<Rightarrow> unit uop" where
  "primes_main k junk =
     ubnd pipe_u (\<lambda>(_, p).
     ubnd fork_u (\<lambda>pid.
     if pid = 0 then uthn (primes k junk p) (exit_u 0)
     else uthn (close_u (fst p)) (
          uthn (ueach [2..<36] (\<lambda>i. skip_u (write_u (snd p) (le_bytes 4 (of_nat i :: uint))))) (
          uthn (close_u (snd p)) (
          uthn wait_u
               (exit_u 0))))))"

end
