(* ===== verification/Mkfs.thy ===== *)
theory Mkfs
  imports Dir
begin

text \<open>
  The program that builds the initial file system (\<^verbatim>\<open>mkfs/mkfs.c\<close>). It runs on the host: its state is the image file, a
  list of blocks, and the counters \<^verbatim>\<open>freeinode\<close> and \<^verbatim>\<open>freeblock\<close>. A failed assertion, a short read of the image and
  \<^verbatim>\<open>exit(1)\<close> are panics. The structures on disk are those of the kernel (\<^verbatim>\<open>fs.h\<close>), in the kernel's byte order. Counters
  are natural numbers and are cut to the width of the field when they are stored. What is printed is left out.
\<close>

section \<open>Layout\<close>

definition FSSIZE :: nat where "FSSIZE = 1000"
definition NINODES :: nat where "NINODES = 200"

definition nbitmap :: nat where "nbitmap = FSSIZE div (BSIZE * 8) + 1"
definition ninodeblocks :: nat where "ninodeblocks = NINODES div IPB + 1"
definition nlog :: nat where "nlog = LOGSIZE"
definition nmeta :: nat where "nmeta = 2 + nlog + ninodeblocks + nbitmap"
definition nblocks :: nat where "nblocks = FSSIZE - nmeta"

definition zeroes :: "uchar list" where "zeroes = replicate BSIZE 0"

text \<open>The bytes written through \<^verbatim>\<open>a\<close>, read back as an integer of the little-endian host.\<close>

definition xshort :: "ushort \<Rightarrow> ushort" where
  "xshort x = le_word [ucast x, ucast (drop_bit 8 x)]"

definition xint :: "uint \<Rightarrow> uint" where
  "xint x = le_word [ucast x, ucast (drop_bit 8 x), ucast (drop_bit 16 x), ucast (drop_bit 24 x)]"

definition mk_sb :: superblock where
  "mk_sb = \<lparr>sb_magic = FSMAGIC, sb_size = xint (of_nat FSSIZE), sb_nblocks = xint (of_nat nblocks), sb_ninodes = xint (of_nat NINODES),
     sb_nlog = xint (of_nat nlog), sb_logstart = xint 2, sb_inodestart = xint (of_nat (2 + nlog)),
     sb_bmapstart = xint (of_nat (2 + nlog + ninodeblocks))\<rparr>"

definition sb_bytes :: "superblock \<Rightarrow> uchar list" where
  "sb_bytes x = concat (map (le_bytes 4) [sb_magic x, sb_size x, sb_nblocks x, sb_ninodes x, sb_nlog x, sb_logstart x, sb_inodestart x, sb_bmapstart x])"

section \<open>The image\<close>

record mkst =
  fsimg :: "uchar list list"
  freeinode :: nat
  freeblock :: nat

text \<open>Writing past the end of the image extends it with zeros; reading there is short.\<close>

definition wsect :: "nat \<Rightarrow> uchar list \<Rightarrow> (unit, mkst) kop" where
  "wsect sec buf =
     modify (\<lambda>s. s\<lparr>fsimg := (fsimg s @ replicate (sec + 1 - length (fsimg s)) zeroes)[sec := buf]\<rparr>)"

definition rsect :: "nat \<Rightarrow> (uchar list, mkst) kop" where
  "rsect sec = bnd (gets fsimg) (\<lambda>img. if sec < length img then ret (img ! sec) else kpanic ''read'')"

section \<open>Inodes\<close>

definition dinode0 :: inode where
  "dinode0 = \<lparr>i_dev = 0, i_inum = 0, i_ref = 0, i_valid = False, i_type = 0, i_major = 0, i_minor = 0, i_nlink = 0, i_size = 0,
     i_addrs = replicate (NDIRECT + 1) 0\<rparr>"

definition mk_iblock :: "nat \<Rightarrow> nat" where
  "mk_iblock inum = unat (IBLOCK (of_nat inum) mk_sb)"

definition winode :: "nat \<Rightarrow> inode \<Rightarrow> (unit, mkst) kop" where
  "winode inum ip =
     bnd (rsect (mk_iblock inum)) (\<lambda>buf.
     wsect (mk_iblock inum) (put_dinode buf (inum mod IPB * 64) ip))"

definition rinode :: "nat \<Rightarrow> (inode, mkst) kop" where
  "rinode inum =
     bnd (rsect (mk_iblock inum)) (\<lambda>buf.
     ret (get_dinode buf (inum mod IPB * 64) dinode0))"

definition mk_ialloc :: "ushort \<Rightarrow> (nat, mkst) kop" where
  "mk_ialloc type' =
     bnd (gets freeinode) (\<lambda>inum.
     thn (modify (\<lambda>s. s\<lparr>freeinode := inum + 1\<rparr>)) (
     thn (winode inum (dinode0\<lparr>i_type := xshort type', i_nlink := xshort 1, i_size := xint 0\<rparr>))
         (ret inum)))"

definition mk_balloc :: "nat \<Rightarrow> (unit, mkst) kop" where
  "mk_balloc used =
     (if \<not> used < BSIZE * 8 then kpanic ''assert''
      else wsect (unat (sb_bmapstart mk_sb))
             (fold (\<lambda>i buf. buf[i div 8 := buf ! (i div 8) OR push_bit (i mod 8) 1]) [0..<used] zeroes))"

section \<open>Appending to a file\<close>

definition take_block :: "(uint, mkst) kop" where
  "take_block = bnd (gets freeblock) (\<lambda>b. thn (modify (\<lambda>s. s\<lparr>freeblock := b + 1\<rparr>)) (ret (of_nat b)))"

text \<open>The block of the file that holds its block number \<open>fbn\<close>, and the inode after a block has been given to it.\<close>

definition iappend_direct :: "inode \<Rightarrow> nat \<Rightarrow> (nat \<times> inode, mkst) kop" where
  "iappend_direct din fbn =
     bnd (if xint (i_addrs din ! fbn) = 0
          then bnd take_block (\<lambda>b. ret (din\<lparr>i_addrs := (i_addrs din)[fbn := xint b]\<rparr>))
          else ret din) (\<lambda>din.
     ret (unat (xint (i_addrs din ! fbn)), din))"

definition iappend_indirect :: "inode \<Rightarrow> nat \<Rightarrow> (nat \<times> inode, mkst) kop" where
  "iappend_indirect din k =
     bnd (if xint (i_addrs din ! NDIRECT) = 0
          then bnd take_block (\<lambda>b. ret (din\<lparr>i_addrs := (i_addrs din)[NDIRECT := xint b]\<rparr>))
          else ret din) (\<lambda>din.
     (let ind = unat (xint (i_addrs din ! NDIRECT)) in
      bnd (rsect ind) (\<lambda>indirect.
      bnd (if get32 indirect (4 * k) = 0
           then bnd take_block (\<lambda>b.
                (let indirect = put32 indirect (4 * k) (xint b) in
                 thn (wsect ind indirect) (ret indirect)))
           else ret indirect) (\<lambda>indirect.
      ret (unat (xint (get32 indirect (4 * k))), din)))))"

definition iappend_block :: "inode \<Rightarrow> nat \<Rightarrow> (nat \<times> inode, mkst) kop" where
  "iappend_block din fbn =
     (if \<not> fbn < MAXFILE then kpanic ''assert''
      else if fbn < NDIRECT then iappend_direct din fbn
      else iappend_indirect din (fbn - NDIRECT))"

function iappend_loop :: "inode \<Rightarrow> nat \<Rightarrow> uchar list \<Rightarrow> (inode \<times> nat, mkst) kop" where
  "iappend_loop din off p =
     (if p = [] then ret (din, off)
      else (let fbn = off div BSIZE;
                n1 = min (length p) ((fbn + 1) * BSIZE - off) in
            bnd (iappend_block din fbn) (\<lambda>(x, din).
            bnd (rsect x) (\<lambda>buf.
            thn (wsect x (put_bytes buf (off - fbn * BSIZE) (take n1 p)))
                (iappend_loop din (off + n1) (drop n1 p))))))"
  by pat_completeness auto

lemma room_in_block: "off < (off div BSIZE + 1) * BSIZE"
  by (simp add: BSIZE_def)

termination iappend_loop
  using room_in_block by (relation "measure (\<lambda>(din, off, p). length p)") (auto simp: min_def)

declare iappend_loop.simps [simp del]

definition iappend :: "nat \<Rightarrow> uchar list \<Rightarrow> (unit, mkst) kop" where
  "iappend inum xp =
     bnd (rinode inum) (\<lambda>din.
     bnd (iappend_loop din (unat (xint (i_size din))) xp) (\<lambda>(din, off).
     winode inum (din\<lparr>i_size := xint (of_nat off)\<rparr>)))"

section \<open>The program\<close>

definition mk_shortname :: "uchar list \<Rightarrow> uchar list" where
  "mk_shortname path = (if take 5 path = map of_char ''user/'' then drop 5 path else path)"

definition skip_underscore :: "uchar list \<Rightarrow> uchar list" where
  "skip_underscore nm = (if take 1 nm = map of_char ''_'' then drop 1 nm else nm)"

text \<open>A file of the host: its name and, when it can be opened, what each call of \<^verbatim>\<open>read\<close> returns.\<close>

definition mk_file :: "nat \<Rightarrow> uchar list \<times> uchar list list option \<Rightarrow> (unit, mkst) kop" where
  "mk_file rootino = (\<lambda>(path, chunks).
     let shortname = mk_shortname path in
     if of_char CHR ''/'' \<in> set shortname then kpanic ''assert''
     else (case chunks of
             None \<Rightarrow> kpanic ''open''
           | Some cs \<Rightarrow>
               bnd (mk_ialloc T_FILE) (\<lambda>inum.
               thn (iappend rootino (make_dirent (xshort (of_nat inum)) (skip_underscore shortname)))
                   (for_each cs (iappend inum)))))"

definition mk_fix_root :: "nat \<Rightarrow> (unit, mkst) kop" where
  "mk_fix_root rootino =
     bnd (rinode rootino) (\<lambda>din.
     winode rootino (din\<lparr>i_size := xint (of_nat ((unat (xint (i_size din)) div BSIZE + 1) * BSIZE))\<rparr>))"

definition mkfs :: "(uchar list \<times> uchar list list option) list \<Rightarrow> (unit, mkst) kop" where
  "mkfs files =
     thn (modify (\<lambda>s. \<lparr>fsimg = [], freeinode = 1, freeblock = nmeta\<rparr>)) (
     thn (for_each [0..<FSSIZE] (\<lambda>i. wsect i zeroes)) (
     thn (wsect 1 (put_bytes zeroes 0 (sb_bytes mk_sb))) (
     bnd (mk_ialloc T_DIR) (\<lambda>rootino.
     if rootino \<noteq> unat ROOTINO then kpanic ''assert''
     else thn (iappend rootino (make_dirent (xshort (of_nat rootino)) (map of_char ''.''))) (
          thn (iappend rootino (make_dirent (xshort (of_nat rootino)) (map of_char ''..''))) (
          thn (for_each files (mk_file rootino)) (
          thn (mk_fix_root rootino) (
          bnd (gets freeblock) mk_balloc))))))))"

section \<open>The layout evaluated\<close>

lemma xint_id [simp]: "xint x = x"
proof -
  have "[ucast x, ucast (drop_bit 8 x), ucast (drop_bit 16 x), ucast (drop_bit 24 x)] = (le_bytes 4 x :: uchar list)"
    by (simp add: numeral_eq_Suc)
  then show ?thesis unfolding xint_def by (simp add: le_word_le_bytes take_bit_word_eq_self)
qed

lemma xshort_id [simp]: "xshort x = x"
proof -
  have "[ucast x, ucast (drop_bit 8 x)] = (le_bytes 2 x :: uchar list)"
    by (simp add: numeral_eq_Suc)
  then show ?thesis unfolding xshort_def by (simp add: le_word_le_bytes take_bit_word_eq_self)
qed

lemma mk_layout: "nbitmap = 1" "ninodeblocks = 13" "nlog = 30" "nmeta = 46" "IPB = 16" "BSIZE = 1024"
  by (simp_all add: nbitmap_def ninodeblocks_def nlog_def nmeta_def FSSIZE_def NINODES_def IPB_def BSIZE_def LOGSIZE_def MAXOPBLOCKS_def)

end
