(* ===== verification/Dinode.thy ===== *)
theory Dinode
  imports Fs
begin

text \<open>
  The encoding of inodes in a block: the kernel's \<^verbatim>\<open>iupdate\<close> and \<^verbatim>\<open>ilock\<close> and the program \<^verbatim>\<open>mkfs\<close> write and read it.
\<close>

definition dinode_bytes :: "inode \<Rightarrow> uchar list" where
  "dinode_bytes ip = le_bytes 2 (i_type ip) @ le_bytes 2 (i_major ip) @ le_bytes 2 (i_minor ip) @ le_bytes 2 (i_nlink ip) @
     le_bytes 4 (i_size ip) @ concat (map (le_bytes 4) (i_addrs ip))"

lemma put_bytes_adjacent:
  assumes "off + length as + length bs \<le> length d" and "off' = off + length as"
  shows "put_bytes (put_bytes d off as) off' bs = put_bytes d off (as @ bs)"
  using assms by (simp add: put_bytes_def add.commute add.left_commute)

lemma length_words [simp]: "length (concat (map (le_bytes 4) as)) = 4 * length as"
  by (induction as) simp_all

lemma put_dinode_bytes:
  assumes "off + 64 \<le> length d" and "length (i_addrs ip) = 13"
  shows "put_dinode d off ip = put_bytes d off (dinode_bytes ip)"
  using assms by (simp add: put_dinode_def put_addrs_def put16_def put32_def put_bytes_adjacent dinode_bytes_def)

lemma length_dinode_bytes [simp]: "length (i_addrs ip) = 13 \<Longrightarrow> length (dinode_bytes ip) = 64"
  by (simp add: dinode_bytes_def)

lemma bytes_at_at: "k + m \<le> n \<Longrightarrow> bytes_at (bytes_at d off n) k m = bytes_at d (off + k) m"
  by (simp add: bytes_at_def drop_take min_def add.commute)

lemma get_dinode_at: "get_dinode d off x = get_dinode (bytes_at d off 64) 0 x"
proof -
  have "get_addrs d (off + 12) = get_addrs (bytes_at d off 64) 12"
    unfolding get_addrs_def get32_def by (rule map_cong [OF refl]) (simp add: bytes_at_at NDIRECT_def add.assoc)
  then show ?thesis by (simp add: get_dinode_def get16_def get32_def bytes_at_at)
qed

lemma word_bytes_at: "i < length as \<Longrightarrow> bytes_at (concat (map (le_bytes 4) as)) (4 * i) 4 = le_bytes 4 (as ! i)"
proof (induction as arbitrary: i)
  case (Cons a as)
  then show ?case by (cases i) (simp_all add: bytes_at_def)
qed simp

lemma bytes_at_append: "length as \<le> off \<Longrightarrow> bytes_at (as @ bs) off n = bytes_at bs (off - length as) n"
  by (simp add: bytes_at_def)

text \<open>What \<^verbatim>\<open>ilock\<close> reads is what \<^verbatim>\<open>iupdate\<close> wrote; the fields that are only in memory stay as they are.\<close>

definition from_disk :: "inode \<Rightarrow> inode \<Rightarrow> inode" where
  "from_disk ip x = x\<lparr>i_type := i_type ip, i_major := i_major ip, i_minor := i_minor ip, i_nlink := i_nlink ip, i_size := i_size ip,
     i_addrs := i_addrs ip\<rparr>"

lemma get_dinode_bytes:
  assumes len: "length (i_addrs ip) = 13"
  shows "get_dinode (dinode_bytes ip) 0 x = from_disk ip x"
proof -
  have "get_addrs (dinode_bytes ip) 12 = i_addrs ip"
  proof (rule nth_equalityI)
    show "length (get_addrs (dinode_bytes ip) 12) = length (i_addrs ip)" by (simp add: get_addrs_def len NDIRECT_def)
    fix i assume "i < length (get_addrs (dinode_bytes ip) 12)"
    then have i: "i < 13" by (simp add: get_addrs_def NDIRECT_def)
    have "bytes_at (dinode_bytes ip) (12 + 4 * i) 4 = le_bytes 4 (i_addrs ip ! i)"
      using word_bytes_at [of i "i_addrs ip"] i len by (simp add: dinode_bytes_def bytes_at_append)
    then show "get_addrs (dinode_bytes ip) 12 ! i = i_addrs ip ! i"
      using i by (simp add: get_addrs_def get32_def NDIRECT_def le_word_le_bytes take_bit_word_eq_self)
  qed
  moreover have "get16 (dinode_bytes ip) 0 = i_type ip" "get16 (dinode_bytes ip) 2 = i_major ip" "get16 (dinode_bytes ip) 4 = i_minor ip"
    "get16 (dinode_bytes ip) 6 = i_nlink ip" "get32 (dinode_bytes ip) 8 = i_size ip"
    by (simp_all add: dinode_bytes_def get16_def get32_def bytes_at_def le_word_le_bytes take_bit_word_eq_self)
  ultimately show ?thesis by (simp add: get_dinode_def from_disk_def del: add_2_eq_Suc add_2_eq_Suc')
qed

lemma get_put_dinode:
  assumes "off + 64 \<le> length d" and "length (i_addrs ip) = 13"
  shows "get_dinode (put_dinode d off ip) off x = from_disk ip x"
  using assms get_dinode_bytes [OF assms(2), of x] get_dinode_at [of "put_bytes d off (dinode_bytes ip)" off x]
  by (simp add: put_dinode_bytes)

lemma length_put_dinode: "off + 64 \<le> length d \<Longrightarrow> length (i_addrs ip) = 13 \<Longrightarrow> length (put_dinode d off ip) = length d"
  by (simp add: put_dinode_bytes)

lemma get_put_dinode_other:
  assumes "off + 64 \<le> length d" and "off' + 64 \<le> length d" and "off + 64 \<le> off' \<or> off' + 64 \<le> off" and "length (i_addrs ip) = 13"
  shows "get_dinode (put_dinode d off ip) off' x = get_dinode d off' x"
proof -
  have "bytes_at (put_dinode d off ip) off' 64 = bytes_at d off' 64"
    unfolding put_dinode_bytes [OF assms(1,4)] by (rule bytes_at_put_other) (use assms in auto)
  then show ?thesis using get_dinode_at by metis
qed

end
