(* ===== verification/Mkimage.thy ===== *)
theory Mkimage
  imports Mkfs Dinode
begin

text \<open>
  Inodes and file contents in the image \<^verbatim>\<open>mkfs\<close> builds: the encoding of inodes, the invariant of the data blocks, and what
  \<^verbatim>\<open>iappend\<close> does to it.
\<close>

section \<open>Inodes on disk\<close>

text \<open>An inode as it is on disk: the fields only the kernel's copy in memory has are those of \<open>dinode0\<close>.\<close>

definition disk_form :: "inode \<Rightarrow> bool" where
  "disk_form ip \<longleftrightarrow> i_dev ip = 0 \<and> i_inum ip = 0 \<and> i_ref ip = 0 \<and> \<not> i_valid ip \<and> length (i_addrs ip) = 13"

lemma from_disk_form: "disk_form ip \<Longrightarrow> from_disk ip dinode0 = ip"
  by (rule inode.equality) (simp_all add: from_disk_def disk_form_def dinode0_def)

lemma disk_form_get: "disk_form (get_dinode d off dinode0)"
  by (simp add: disk_form_def get_dinode_def dinode0_def get_addrs_def NDIRECT_def)

section \<open>The blocks of a file\<close>

text \<open>
  The slots of a file: 0 to 267 are its blocks, the first twelve named in the inode and the others in the indirect
  block, which is slot 268. The first \<open>m\<close> slots are in use, and slot 268 when \<open>h\<close> holds.
\<close>

definition slot_addr :: "uchar list list \<Rightarrow> inode \<Rightarrow> nat \<Rightarrow> nat" where
  "slot_addr bl din f =
     (if f < 12 then unat (i_addrs din ! f)
      else if f < 268 then unat (get32 (bl ! unat (i_addrs din ! 12)) (4 * (f - 12)))
      else unat (i_addrs din ! 12))"

definition used :: "nat \<Rightarrow> bool \<Rightarrow> nat \<Rightarrow> bool" where
  "used m h f \<longleftrightarrow> f < m \<or> f = 268 \<and> h"

definition mapped :: "uchar list list \<Rightarrow> inode \<Rightarrow> nat \<Rightarrow> bool \<Rightarrow> bool" where
  "mapped bl din m h \<longleftrightarrow> m \<le> 268 \<and> (12 < m \<longrightarrow> h) \<and> (\<forall>f. m \<le> f \<and> f < 12 \<longrightarrow> i_addrs din ! f = 0) \<and>
     (\<not> h \<longrightarrow> i_addrs din ! 12 = 0) \<and>
     (h \<longrightarrow> (\<forall>f. m \<le> f \<and> 12 \<le> f \<and> f < 268 \<longrightarrow> get32 (bl ! unat (i_addrs din ! 12)) (4 * (f - 12)) = 0))"

definition chunk :: "uchar list \<Rightarrow> nat \<Rightarrow> uchar list" where
  "chunk bs f = take 1024 (drop (1024 * f) bs @ zeroes)"

definition slots_of :: "nat set \<Rightarrow> (nat \<Rightarrow> nat) \<Rightarrow> (nat \<Rightarrow> bool) \<Rightarrow> (nat \<times> nat) set" where
  "slots_of I M H = {(i, f). i \<in> I \<and> used (M i) (H i) f}"

text \<open>
  The data part of an image with the files \<open>I\<close>: their inodes \<open>D\<close>, numbers of slots \<open>M\<close> and \<open>H\<close> and contents \<open>\<sigma>\<close>. Each slot in
  use has a block of its own below \<open>fb\<close>, which holds its part of the contents, and the blocks from \<open>fb\<close> on are zero.
\<close>

definition data_inv :: "uchar list list \<Rightarrow> nat \<Rightarrow> nat set \<Rightarrow> (nat \<Rightarrow> inode) \<Rightarrow> (nat \<Rightarrow> nat) \<Rightarrow> (nat \<Rightarrow> bool) \<Rightarrow> (nat \<Rightarrow> uchar list) \<Rightarrow> bool" where
  "data_inv bl fb I D M H \<sigma> \<longleftrightarrow>
     length bl = 1000 \<and> (\<forall>b < 1000. length (bl ! b) = 1024) \<and> fb \<le> 1000 \<and>
     (\<forall>i \<in> I. disk_form (D i) \<and> mapped bl (D i) (M i) (H i)) \<and>
     (\<forall>i f. (i, f) \<in> slots_of I M H \<longrightarrow> 46 \<le> slot_addr bl (D i) f \<and> slot_addr bl (D i) f < fb) \<and>
     inj_on (\<lambda>(i, f). slot_addr bl (D i) f) (slots_of I M H) \<and>
     (\<forall>i \<in> I. \<forall>f < M i. bl ! slot_addr bl (D i) f = chunk (\<sigma> i) f) \<and>
     (\<forall>b. fb \<le> b \<and> b < 1000 \<longrightarrow> bl ! b = zeroes)"

lemma data_invD:
  assumes "data_inv bl fb I D M H \<sigma>"
  shows "length bl = 1000" and "\<And>b. b < 1000 \<Longrightarrow> length (bl ! b) = 1024" and "fb \<le> 1000"
    and "\<And>i. i \<in> I \<Longrightarrow> disk_form (D i)" and "\<And>i. i \<in> I \<Longrightarrow> mapped bl (D i) (M i) (H i)"
    and "\<And>i f. i \<in> I \<Longrightarrow> used (M i) (H i) f \<Longrightarrow> 46 \<le> slot_addr bl (D i) f \<and> slot_addr bl (D i) f < fb"
    and "\<And>i f j g. i \<in> I \<Longrightarrow> used (M i) (H i) f \<Longrightarrow> j \<in> I \<Longrightarrow> used (M j) (H j) g \<Longrightarrow>
          slot_addr bl (D i) f = slot_addr bl (D j) g \<Longrightarrow> i = j \<and> f = g"
    and "\<And>i f. i \<in> I \<Longrightarrow> f < M i \<Longrightarrow> bl ! slot_addr bl (D i) f = chunk (\<sigma> i) f"
    and "\<And>b. fb \<le> b \<Longrightarrow> b < 1000 \<Longrightarrow> bl ! b = zeroes"
proof -
  note d = assms [unfolded data_inv_def]
  show "length bl = 1000" and "\<And>b. b < 1000 \<Longrightarrow> length (bl ! b) = 1024" and "fb \<le> 1000"
    and "\<And>i. i \<in> I \<Longrightarrow> disk_form (D i)" and "\<And>i. i \<in> I \<Longrightarrow> mapped bl (D i) (M i) (H i)"
    and "\<And>i f. i \<in> I \<Longrightarrow> f < M i \<Longrightarrow> bl ! slot_addr bl (D i) f = chunk (\<sigma> i) f"
    and "\<And>b. fb \<le> b \<Longrightarrow> b < 1000 \<Longrightarrow> bl ! b = zeroes" using d by simp_all
  show "46 \<le> slot_addr bl (D i) f \<and> slot_addr bl (D i) f < fb" if "i \<in> I" "used (M i) (H i) f" for i f
  proof -
    have "(i, f) \<in> slots_of I M H" using that by (simp add: slots_of_def)
    then show ?thesis using d by simp
  qed
  show "i = j \<and> f = g" if "i \<in> I" "used (M i) (H i) f" "j \<in> I" "used (M j) (H j) g" "slot_addr bl (D i) f = slot_addr bl (D j) g" for i f j g
  proof -
    have s: "(i, f) \<in> slots_of I M H" "(j, g) \<in> slots_of I M H" using that by (simp_all add: slots_of_def)
    have "inj_on (\<lambda>(i, f). slot_addr bl (D i) f) (slots_of I M H)" using d by simp
    from inj_onD [OF this _ s] have "(i, f) = (j, g)" using that(5) by simp
    then show ?thesis by simp
  qed
qed

text \<open>One more slot: the old ones keep their addresses and the new one gets the first free block.\<close>

lemma inj_on_fresh:
  assumes "inj_on g S" and "\<And>x. x \<in> S \<Longrightarrow> g x < fb" and "\<And>x. x \<in> S \<Longrightarrow> g' x = g x" and "g' y = (fb :: nat)"
  shows "inj_on g' (insert y S)"
proof -
  have "inj_on g' S" using assms(1,3) by (simp cong: inj_on_cong)
  moreover have "g' y \<notin> g' ` (S - {y})" using assms(2,3,4) by fastforce
  ultimately show ?thesis by simp
qed

lemma slot_addr_direct: "f < 12 \<Longrightarrow> slot_addr bl din f = unat (i_addrs din ! f)"
  and slot_addr_indirect: "12 \<le> f \<Longrightarrow> f < 268 \<Longrightarrow> slot_addr bl din f = unat (get32 (bl ! slot_addr bl din 268) (4 * (f - 12)))"
  and slot_addr_ind: "slot_addr bl din 268 = unat (i_addrs din ! 12)"
  by (simp_all add: slot_addr_def)

lemma length_chunk [simp]: "length (chunk bs f) = 1024"
  by (simp add: chunk_def zeroes_def BSIZE_def)

lemma length_zeroes [simp]: "length zeroes = 1024"
  by (simp add: zeroes_def BSIZE_def)

lemma get32_zeroes: "off + 4 \<le> 1024 \<Longrightarrow> get32 zeroes off = 0"
proof -
  assume "off + 4 \<le> 1024"
  then have "bytes_at zeroes off 4 = replicate 4 0" by (simp add: bytes_at_def zeroes_def BSIZE_def)
  then show ?thesis by (simp add: get32_def numeral_eq_Suc)
qed

lemma entry_bounds: "(12 :: nat) \<le> f \<Longrightarrow> f < 268 \<Longrightarrow> 4 * (f - 12) + 4 \<le> 1024"
  by simp

lemma get32_zero_entry: "12 \<le> f \<Longrightarrow> f < 268 \<Longrightarrow> get32 zeroes (4 * (f - 12)) = 0"
  using get32_zeroes entry_bounds by blast

lemma chunk_past: "length bs \<le> 1024 * f \<Longrightarrow> chunk bs f = zeroes"
  by (simp add: chunk_def)

section \<open>Giving a block to a file\<close>

lemma data_inv_new_slot:
  assumes inv: "data_inv bl fb I D M H \<sigma>" and i: "i \<in> I" and fb: "fb < 1000" "46 \<le> fb"
    and S: "slots_of I M' H' = insert (i, f0) (slots_of I M H)" and M: "\<And>j. j \<noteq> i \<Longrightarrow> M' j = M j \<and> H' j = H j"
    and Mi: "M' i = (if f0 < 268 then f0 + 1 else M i)" "f0 < 268 \<Longrightarrow> f0 = M i"
    and len: "length bl' = 1000" "\<And>b. b < 1000 \<Longrightarrow> length (bl' ! b) = 1024"
    and din: "disk_form din'" "mapped bl' din' (M' i) (H' i)"
    and mp: "\<And>j. j \<in> I \<Longrightarrow> j \<noteq> i \<Longrightarrow> mapped bl' (D j) (M j) (H j)"
    and keep: "\<And>j f. j \<in> I \<Longrightarrow> used (M j) (H j) f \<Longrightarrow> slot_addr bl' ((D(i := din')) j) f = slot_addr bl (D j) f"
    and new: "slot_addr bl' din' f0 = fb"
    and data: "\<And>j f. j \<in> I \<Longrightarrow> f < M j \<Longrightarrow> bl' ! slot_addr bl (D j) f = bl ! slot_addr bl (D j) f"
    and zero: "f0 < 268 \<Longrightarrow> bl' ! fb = chunk (\<sigma> i) f0" "\<And>b. fb < b \<Longrightarrow> b < 1000 \<Longrightarrow> bl' ! b = zeroes"
  shows "data_inv bl' (fb + 1) I (D(i := din')) M' H' \<sigma>"
proof -
  note d = data_invD [OF inv]
  let ?D = "D(i := din')"
  let ?g = "\<lambda>(j, f). slot_addr bl (D j) f" and ?g' = "\<lambda>(j, f). slot_addr bl' (?D j) f"
  have g: "?g x < fb" "46 \<le> ?g x" "?g' x = ?g x" if "x \<in> slots_of I M H" for x
    using that d(6) keep by (auto simp: slots_of_def)
  have g0: "?g' (i, f0) = fb" using new by simp
  have j: "disk_form (?D j) \<and> mapped bl' (?D j) (M' j) (H' j)" if "j \<in> I" for j
    using din mp [OF that] M [of j] d(4) [OF that] by (cases "j = i") simp_all
  have inj: "inj_on ?g' (slots_of I M' H')" unfolding S
  proof (rule inj_on_fresh [where g = ?g and fb = fb])
    show "inj_on ?g (slots_of I M H)" using inv unfolding data_inv_def by simp
  qed (use g g0 in auto)
  have rng: "46 \<le> ?g' x \<and> ?g' x < fb + 1" if "x \<in> slots_of I M' H'" for x
  proof (cases "x = (i, f0)")
    case False
    then have x: "x \<in> slots_of I M H" using that S by simp
    show ?thesis unfolding g(3) [OF x] using g(1,2) [OF x] by linarith
  qed (use g0 fb in simp)
  have dt: "bl' ! slot_addr bl' (?D j) f = chunk (\<sigma> j) f" if jf: "j \<in> I" "f < M' j" for j f
  proof (cases "f < M j")
    case True
    then show ?thesis using keep [OF jf(1), of f] data [OF jf(1) True] d(8) [OF jf(1) True] by (simp add: used_def)
  next
    case False
    then have "j = i" using jf(2) M [of j] by auto
    moreover from this have "f = f0" "f0 < 268" using False jf(2) Mi by (auto split: if_splits)
    ultimately show ?thesis using new zero(1) by simp
  qed
  show ?thesis unfolding data_inv_def
  proof (intro conjI)
    show "\<forall>i f. (i, f) \<in> slots_of I M' H' \<longrightarrow> 46 \<le> slot_addr bl' (?D i) f \<and> slot_addr bl' (?D i) f < fb + 1" using rng by fastforce
    show "\<forall>b. fb + 1 \<le> b \<and> b < 1000 \<longrightarrow> bl' ! b = zeroes" using zero(2) by simp
  qed (use len fb j inj dt in simp_all)
qed

lemma slots_of_upd_M: "i \<in> I \<Longrightarrow> slots_of I (M(i := Suc (M i))) H = insert (i, M i) (slots_of I M H)"
  by (auto simp: slots_of_def used_def split: if_splits)

lemma slots_of_upd_H: "i \<in> I \<Longrightarrow> slots_of I M (H(i := True)) = insert (i, 268) (slots_of I M H)"
  by (auto simp: slots_of_def used_def)

lemma disk_form_addrs: "disk_form din \<Longrightarrow> disk_form (din\<lparr>i_addrs := (i_addrs din)[f := a]\<rparr>)"
  by (simp add: disk_form_def)

lemma unat_small: "b \<le> 1000 \<Longrightarrow> unat (of_nat b :: uint) = b"
  by (simp add: unat_of_nat)

lemma give_direct:
  assumes inv: "data_inv bl fb I D M H \<sigma>" and i: "i \<in> I" "M i < 12" and fb: "fb < 1000" "46 \<le> fb" and \<sigma>: "length (\<sigma> i) \<le> 1024 * M i"
  shows "data_inv bl (fb + 1) I (D(i := (D i)\<lparr>i_addrs := (i_addrs (D i))[M i := of_nat fb]\<rparr>)) (M(i := Suc (M i))) H \<sigma>"
proof (rule data_inv_new_slot [OF inv i(1) fb slots_of_upd_M [OF i(1)]])
  note d = data_invD [OF inv]
  have l: "length (i_addrs (D i)) = 13" using d(4) [OF i(1)] by (simp add: disk_form_def)
  show "mapped bl ((D i)\<lparr>i_addrs := (i_addrs (D i))[M i := of_nat fb]\<rparr>) ((M(i := Suc (M i))) i) (H i)"
    using d(5) [OF i(1)] i(2) l unfolding mapped_def by (simp add: nth_list_update)
  show "slot_addr bl ((D(i := (D i)\<lparr>i_addrs := (i_addrs (D i))[M i := of_nat fb]\<rparr>)) j) f = slot_addr bl (D j) f"
    if "j \<in> I" "used (M j) (H j) f" for j f
    using that i(2) l by (cases "j = i") (auto simp: slot_addr_def nth_list_update used_def)
  show "slot_addr bl ((D i)\<lparr>i_addrs := (i_addrs (D i))[M i := of_nat fb]\<rparr>) (M i) = fb"
    using i(2) l fb by (simp add: slot_addr_def unat_small)
  show "bl ! fb = chunk (\<sigma> i) (M i)" using d(9) [of fb] fb chunk_past [OF \<sigma>] by simp
qed (use data_invD [OF inv] i fb disk_form_addrs in auto)

lemma give_indirect:
  assumes inv: "data_inv bl fb I D M H \<sigma>" and i: "i \<in> I" "M i \<le> 12" "\<not> H i" and fb: "fb < 1000" "46 \<le> fb"
  shows "data_inv bl (fb + 1) I (D(i := (D i)\<lparr>i_addrs := (i_addrs (D i))[12 := of_nat fb]\<rparr>)) M (H(i := True)) \<sigma>"
proof (rule data_inv_new_slot [OF inv i(1) fb slots_of_upd_H [OF i(1)]])
  note d = data_invD [OF inv]
  have l: "length (i_addrs (D i)) = 13" using d(4) [OF i(1)] by (simp add: disk_form_def)
  have z: "bl ! fb = zeroes" using d(9) [of fb] fb by simp
  show "mapped bl ((D i)\<lparr>i_addrs := (i_addrs (D i))[12 := of_nat fb]\<rparr>) (M i) ((H(i := True)) i)"
    using d(5) [OF i(1)] i(2) l z fb unfolding mapped_def by (simp add: nth_list_update unat_small get32_zero_entry)
  show "slot_addr bl ((D(i := (D i)\<lparr>i_addrs := (i_addrs (D i))[12 := of_nat fb]\<rparr>)) j) f = slot_addr bl (D j) f"
    if "j \<in> I" "used (M j) (H j) f" for j f
    using that i(2,3) l by (cases "j = i") (auto simp: slot_addr_def nth_list_update used_def)
  show "slot_addr bl ((D i)\<lparr>i_addrs := (i_addrs (D i))[12 := of_nat fb]\<rparr>) 268 = fb"
    using l fb by (simp add: slot_addr_def unat_small)
qed (use data_invD [OF inv] i fb disk_form_addrs in auto)

lemma addr_frame:
  assumes "mapped bl din m h" and "h \<Longrightarrow> bl' ! slot_addr bl din 268 = bl ! slot_addr bl din 268"
  shows "used m h f \<Longrightarrow> slot_addr bl' din f = slot_addr bl din f" and "mapped bl' din m h"
proof -
  have m: "12 < m \<longrightarrow> h" "m \<le> 268" using assms(1) by (simp_all add: mapped_def)
  have e: "slot_addr bl din 268 = unat (i_addrs din ! 12)" by (simp add: slot_addr_def)
  show "slot_addr bl' din f = slot_addr bl din f" if "used m h f"
  proof (cases "f < 268 \<and> 12 \<le> f")
    case True
    then have h using that m by (auto simp: used_def)
    then show ?thesis using assms(2) e by (simp add: slot_addr_def)
  qed (auto simp: slot_addr_def)
  show "mapped bl' din m h" using assms e unfolding mapped_def by (cases h) simp_all
qed

text \<open>New contents in the blocks, with the indirect blocks kept: the addresses stay.\<close>

lemma data_inv_blocks:
  assumes inv: "data_inv bl fb I D M H \<sigma>" and len: "length bl' = 1000" "\<forall>b < 1000. length (bl' ! b) = 1024"
    and ind: "\<And>j. j \<in> I \<Longrightarrow> H j \<Longrightarrow> bl' ! slot_addr bl (D j) 268 = bl ! slot_addr bl (D j) 268"
    and data: "\<And>j g. j \<in> I \<Longrightarrow> g < M j \<Longrightarrow> bl' ! slot_addr bl (D j) g = chunk (\<sigma>' j) g"
    and zero: "\<And>b. fb \<le> b \<Longrightarrow> b < 1000 \<Longrightarrow> bl' ! b = zeroes"
  shows "data_inv bl' fb I D M H \<sigma>'"
proof -
  note d = data_invD [OF inv]
  have fr: "slot_addr bl' (D j) g = slot_addr bl (D j) g" if "j \<in> I" "used (M j) (H j) g" for j g
    using addr_frame(1) [OF d(5) ind] that by simp
  have mp: "mapped bl' (D j) (M j) (H j)" if "j \<in> I" for j using addr_frame(2) [OF d(5) ind] that by simp
  have s: "slot_addr bl' (D j) g = slot_addr bl (D j) g" if "(j, g) \<in> slots_of I M H" for j g
    using fr that by (simp add: slots_of_def)
  have inj: "inj_on (\<lambda>(j, g). slot_addr bl (D j) g) (slots_of I M H)" using inv unfolding data_inv_def by simp
  have "inj_on (\<lambda>(j, g). slot_addr bl' (D j) g) (slots_of I M H)"
    by (rule inj_on_cong [THEN iffD1, OF _ inj]) (use s in auto)
  moreover have "\<forall>j g. (j, g) \<in> slots_of I M H \<longrightarrow> 46 \<le> slot_addr bl' (D j) g \<and> slot_addr bl' (D j) g < fb"
    using s d(6) by (simp add: slots_of_def)
  moreover have "bl' ! slot_addr bl' (D j) g = chunk (\<sigma>' j) g" if "j \<in> I" "g < M j" for j g
    using fr data that by (simp add: used_def)
  ultimately show ?thesis unfolding data_inv_def using len d(3,4) mp zero by simp
qed

lemma write_data:
  assumes inv: "data_inv bl fb I D M H \<sigma>" and i: "i \<in> I" "f < M i"
    and bs: "\<And>g. g < M i \<Longrightarrow> g \<noteq> f \<Longrightarrow> chunk bs g = chunk (\<sigma> i) g"
  shows "data_inv (bl[slot_addr bl (D i) f := chunk bs f]) fb I D M H (\<sigma>(i := bs))"
proof (rule data_inv_blocks [OF inv])
  note d = data_invD [OF inv]
  let ?x = "slot_addr bl (D i) f"
  have m: "M i \<le> 268" using d(5) [OF i(1)] by (simp add: mapped_def)
  have ui: "used (M i) (H i) f" using i(2) by (simp add: used_def)
  have x: "?x < fb" "?x < 1000" using d(6) [OF i(1) ui] d(3) by simp_all
  show "bl[?x := chunk bs f] ! slot_addr bl (D j) 268 = bl ! slot_addr bl (D j) 268" if "j \<in> I" "H j" for j
  proof -
    have "?x \<noteq> slot_addr bl (D j) 268" using d(7) [OF i(1) ui that(1), of 268] that(2) i(2) m by (auto simp: used_def)
    then show ?thesis by simp
  qed
  show "bl[?x := chunk bs f] ! slot_addr bl (D j) g = chunk ((\<sigma>(i := bs)) j) g" if jg: "j \<in> I" "g < M j" for j g
  proof (cases "j = i \<and> g = f")
    case False
    have u: "used (M j) (H j) g" using jg(2) by (simp add: used_def)
    have "?x \<noteq> slot_addr bl (D j) g" using d(7) [OF i(1) ui jg(1) u] False by auto
    then show ?thesis using False bs jg d(8) [OF jg] by (cases "j = i") simp_all
  qed (use x d(1) in simp)
  show "\<forall>b < 1000. length (bl[?x := chunk bs f] ! b) = 1024" using d(1,2) x(2) by (simp add: nth_list_update)
  show "length (bl[?x := chunk bs f]) = 1000" using d(1) by simp
  show "bl[?x := chunk bs f] ! b = zeroes" if "fb \<le> b" "b < 1000" for b using d(9) [OF that] x(1) that(1) by simp
qed

lemma give_entry:
  assumes inv: "data_inv bl fb I D M H \<sigma>" and i: "i \<in> I" "12 \<le> M i" "M i < 268" "H i" and fb: "fb < 1000" "46 \<le> fb"
    and \<sigma>: "length (\<sigma> i) \<le> 1024 * M i"
  defines "ind \<equiv> slot_addr bl (D i) 268"
  shows "data_inv (bl[ind := put32 (bl ! ind) (4 * (M i - 12)) (of_nat fb)]) (fb + 1) I D (M(i := Suc (M i))) H \<sigma>"
proof -
  note d = data_invD [OF inv]
  let ?bl = "bl[ind := put32 (bl ! ind) (4 * (M i - 12)) (of_nat fb)]"
  have ui: "used (M i) (H i) 268" using i(4) by (simp add: used_def)
  have x: "ind < fb" "ind < 1000" using d(6) [OF i(1) ui] d(3) by (simp_all add: ind_def)
  have li: "length (bl ! ind) = 1024" using d(2) x(2) by simp
  have ind': "slot_addr ?bl (D i) 268 = ind" by (simp add: ind_def slot_addr_def)
  have eb: "4 * (f - 12) + 4 \<le> 1024" if "f < 268" for f :: nat using that by simp
  have get: "get32 (?bl ! ind) (4 * (f - 12)) = (if f = M i then of_nat fb else get32 (bl ! ind) (4 * (f - 12)))"
    if "12 \<le> f" "f < 268" for f
  proof (cases "f = M i")
    case True
    then show ?thesis using x d(1) li eb [OF i(3)] by simp
  next
    case False
    have "4 * (f - 12) + 4 \<le> 4 * (M i - 12) \<or> 4 * (M i - 12) + 4 \<le> 4 * (f - 12)" using False that(1) i(2) by linarith
    then have "get32 (put32 (bl ! ind) (4 * (M i - 12)) (of_nat fb)) (4 * (f - 12)) = get32 (bl ! ind) (4 * (f - 12))"
      using li eb [OF i(3)] eb [OF that(2)] by (intro get32_put32_other) simp_all
    then show ?thesis using False x d(1) by simp
  qed
  have fr: "(\<forall>g. used (M j) (H j) g \<longrightarrow> slot_addr ?bl (D j) g = slot_addr bl (D j) g) \<and> mapped ?bl (D j) (M j) (H j)"
    if j: "j \<in> I" "j \<noteq> i" for j
  proof -
    have "?bl ! slot_addr bl (D j) 268 = bl ! slot_addr bl (D j) 268" if h: "H j"
    proof -
      have "ind \<noteq> slot_addr bl (D j) 268" using d(7) [OF i(1) ui j(1), of 268] h j(2) by (auto simp: used_def ind_def)
      then show ?thesis by simp
    qed
    then show ?thesis using addr_frame [OF d(5) [OF j(1)], of ?bl] by blast
  qed
  have self: "slot_addr ?bl (D i) f = slot_addr bl (D i) f" if "used (M i) (H i) f" for f
  proof (cases "12 \<le> f \<and> f < 268")
    case True
    then have "f \<noteq> M i" using that i(3) by (auto simp: used_def)
    then show ?thesis using True get [of f] by (simp add: slot_addr_indirect ind' flip: ind_def)
  qed (auto simp: slot_addr_def)
  have "data_inv ?bl (fb + 1) I (D(i := D i)) (M(i := Suc (M i))) H \<sigma>"
  proof (rule data_inv_new_slot [OF inv i(1) fb slots_of_upd_M [OF i(1)]])
    show "mapped ?bl (D i) ((M(i := Suc (M i))) i) (H i)"
      using d(5) [OF i(1)] i get ind' unfolding mapped_def by (simp add: slot_addr_def)
    show "slot_addr ?bl ((D(i := D i)) j) f = slot_addr bl (D j) f" if "j \<in> I" "used (M j) (H j) f" for j f
      using that fr self by (cases "j = i") auto
    show "slot_addr ?bl (D i) (M i) = fb" using get [OF i(2,3)] i(2,3) fb by (simp add: slot_addr_indirect ind' unat_small)
    show "?bl ! slot_addr bl (D j) f = bl ! slot_addr bl (D j) f" if "j \<in> I" "f < M j" for j f
    proof -
      have "used (M j) (H j) f" "f \<noteq> 268" using that d(5) [OF that(1)] by (auto simp: used_def mapped_def)
      then have "ind \<noteq> slot_addr bl (D j) f" using d(7) [OF i(1) ui that(1)] by (auto simp: ind_def)
      then show ?thesis by simp
    qed
    show "?bl ! fb = chunk (\<sigma> i) (M i)" using x d(9) [of fb] fb chunk_past [OF \<sigma>] by simp
    show "?bl ! b = zeroes" if "fb < b" "b < 1000" for b using x d(9) [of b] that by simp
    show "length (?bl ! b) = 1024" if "b < 1000" for b using d(1,2) that x li eb [OF i(3)] by (simp add: nth_list_update)
  qed (use d(1,4) i fr in auto)
  then show ?thesis by simp
qed

section \<open>iappend\<close>

text \<open>The blocks a file of \<open>m\<close> blocks takes, and the number of blocks for \<open>n\<close> bytes.\<close>

definition slots :: "nat \<Rightarrow> nat" where
  "slots m = m + (if 12 < m then 1 else 0)"

definition nb :: "nat \<Rightarrow> nat" where
  "nb n = (n + 1023) div 1024"

lemma rsect_ok [simp]: "sec < length (fsimg s) \<Longrightarrow> rsect sec s = Ok (fsimg s ! sec) s"
  by (simp add: rsect_def kop_simps)

lemma wsect_ok [simp]: "sec < length (fsimg s) \<Longrightarrow> wsect sec b s = Ok () (s\<lparr>fsimg := (fsimg s)[sec := b]\<rparr>)"
  by (simp add: wsect_def)

lemma take_block_apply [simp]: "take_block s = Ok (of_nat (freeblock s)) (s\<lparr>freeblock := freeblock s + 1\<rparr>)"
  by (simp add: take_block_def kop_simps)

lemma unat_nonzero: "46 \<le> unat (w :: uint) \<Longrightarrow> w \<noteq> 0"
  by auto

lemma block_old:
  assumes inv: "data_inv (fsimg s) fb I D M H \<sigma>" and i: "i \<in> I" "f < M i"
  shows "iappend_block (D i) f s = Ok (slot_addr (fsimg s) (D i) f, D i) s"
proof -
  note d = data_invD [OF inv]
  have m: "M i \<le> 268" "12 < M i \<longrightarrow> H i" using d(5) [OF i(1)] by (simp_all add: mapped_def)
  have f: "46 \<le> slot_addr (fsimg s) (D i) f" using d(6) [OF i(1), of f] i(2) by (simp add: used_def)
  have f268: "f < MAXFILE" using m(1) i(2) by (simp add: MAXFILE_def NDIRECT_def NINDIRECT_def BSIZE_def)
  show ?thesis
  proof (cases "f < 12")
    case True
    then have "46 \<le> unat (i_addrs (D i) ! f)" using f by (simp add: slot_addr_def)
    then have "i_addrs (D i) ! f \<noteq> 0" by (rule unat_nonzero)
    then show ?thesis using True f268 by (simp add: iappend_block_def NDIRECT_def iappend_direct_def kop_simps slot_addr_def)
  next
    case False
    then have h: "H i" using m(2) i(2) by simp
    have "46 \<le> slot_addr (fsimg s) (D i) 268 \<and> slot_addr (fsimg s) (D i) 268 < 1000" using d(3) d(6) [OF i(1), of 268] h by (simp add: used_def)
    then have a: "i_addrs (D i) ! 12 \<noteq> 0" "unat (i_addrs (D i) ! 12) < length (fsimg s)"
      using unat_nonzero d(1) by (auto simp: slot_addr_def)
    have "46 \<le> unat (get32 (fsimg s ! unat (i_addrs (D i) ! 12)) (4 * (f - 12)))" using f False m(1) i(2) by (simp add: slot_addr_def)
    then have "get32 (fsimg s ! unat (i_addrs (D i) ! 12)) (4 * (f - 12)) \<noteq> 0" by (rule unat_nonzero)
    then show ?thesis using a False f268 m(1) i(2)
      by (simp add: iappend_block_def NDIRECT_def iappend_indirect_def kop_simps Let_def slot_addr_def)
  qed
qed

lemma indirect_entry:
  assumes inv: "data_inv (fsimg s) (freeblock s) I D M H \<sigma>" and i: "i \<in> I" "12 \<le> M i" "M i < 268" "H i"
    and fb: "freeblock s < 1000" "46 \<le> freeblock s" and \<sigma>: "length (\<sigma> i) \<le> 1024 * M i"
  shows "\<exists>bl. iappend_indirect (D i) (M i - 12) s = Ok (slot_addr bl (D i) (M i), D i) (s\<lparr>fsimg := bl, freeblock := freeblock s + 1\<rparr>) \<and>
    data_inv bl (freeblock s + 1) I D (M(i := Suc (M i))) H \<sigma> \<and> (\<forall>b < 46. bl ! b = fsimg s ! b)"
proof -
  note d = data_invD [OF inv]
  let ?ind = "slot_addr (fsimg s) (D i) 268"
  let ?b = "put32 (fsimg s ! ?ind) (4 * (M i - 12)) (of_nat (freeblock s))"
  let ?bl = "(fsimg s)[?ind := ?b]"
  have x: "46 \<le> ?ind" "?ind < 1000" using d(6) [OF i(1), of 268] d(3) i(4) by (simp_all add: used_def)
  have ind: "unat (i_addrs (D i) ! 12) = ?ind" by (simp add: slot_addr_def)
  have nz: "i_addrs (D i) ! 12 \<noteq> 0" by (rule unat_nonzero) (simp only: ind x(1))
  have z: "get32 (fsimg s ! ?ind) (4 * (M i - 12)) = 0" using d(5) [OF i(1)] i ind by (simp add: mapped_def)
  have eb: "4 * (M i - 12) + 4 \<le> length (fsimg s ! ?ind)" using d(2) [OF x(2)] entry_bounds [OF i(2,3)] by simp
  have run: "iappend_indirect (D i) (M i - 12) s = Ok (freeblock s, D i) (s\<lparr>fsimg := ?bl, freeblock := freeblock s + 1\<rparr>)"
    using nz ind z x d(1) eb fb by (simp add: iappend_indirect_def NDIRECT_def kop_simps Let_def unat_small)
  have inv': "data_inv ?bl (freeblock s + 1) I D (M(i := Suc (M i))) H \<sigma>" by (rule give_entry [OF inv i fb \<sigma>])
  have "slot_addr ?bl (D i) (M i) = unat (get32 (?bl ! ?ind) (4 * (M i - 12)))" using i(2,3) by (simp add: slot_addr_def)
  then have "slot_addr ?bl (D i) (M i) = freeblock s" using eb x(2) d(1) fb by (simp add: unat_small)
  moreover have "\<forall>b < 46. ?bl ! b = fsimg s ! b" using x(1) by simp
  ultimately show ?thesis using run inv' by metis
qed

lemma block_new:
  assumes inv: "data_inv (fsimg s) (freeblock s) I D M H \<sigma>" and i: "i \<in> I" "M i < 268" "H i = (12 < M i)"
    and fb: "freeblock s + slots (Suc (M i)) \<le> 1000 + slots (M i)" "46 \<le> freeblock s" and \<sigma>: "length (\<sigma> i) \<le> 1024 * M i"
  shows "\<exists>bl a. iappend_block (D i) (M i) s = Ok (slot_addr bl ((D i)\<lparr>i_addrs := a\<rparr>) (M i), (D i)\<lparr>i_addrs := a\<rparr>)
        (s\<lparr>fsimg := bl, freeblock := freeblock s + slots (Suc (M i)) - slots (M i)\<rparr>) \<and>
      data_inv bl (freeblock s + slots (Suc (M i)) - slots (M i)) I (D(i := (D i)\<lparr>i_addrs := a\<rparr>)) (M(i := Suc (M i))) (H(i := 12 < Suc (M i))) \<sigma> \<and>
      (\<forall>b < 46. bl ! b = fsimg s ! b)"
proof -
  note d = data_invD [OF inv]
  let ?bl = "fsimg s" and ?fb = "freeblock s" and ?m = "M i"
  have l: "length (i_addrs (D i)) = 13" using d(4) [OF i(1)] by (simp add: disk_form_def)
  have mf: "?m < MAXFILE" using i(2) by (simp add: MAXFILE_def NDIRECT_def NINDIRECT_def BSIZE_def)
  have mp: "mapped ?bl (D i) ?m (H i)" by (rule d(5) [OF i(1)])
  consider (dir) "?m < 12" | (ind) "?m = 12" | (entry) "12 < ?m" by linarith
  then show ?thesis
  proof cases
    case dir
    let ?a = "(i_addrs (D i))[?m := of_nat ?fb]"
    have fb1: "?fb < 1000" "slots (Suc ?m) = slots ?m + 1" using fb(1) dir by (simp_all add: slots_def)
    have z: "i_addrs (D i) ! ?m = 0" using mp dir by (simp add: mapped_def)
    have x: "slot_addr ?bl ((D i)\<lparr>i_addrs := ?a\<rparr>) ?m = ?fb" using dir l fb1(1) by (simp add: slot_addr_def unat_small)
    have "iappend_block (D i) ?m s = Ok (?fb, (D i)\<lparr>i_addrs := ?a\<rparr>) (s\<lparr>freeblock := ?fb + 1\<rparr>)"
      using dir mf z l fb1(1) by (simp add: iappend_block_def NDIRECT_def iappend_direct_def kop_simps unat_small)
    moreover have "H(i := 12 < Suc ?m) = H" using i(3) dir by (intro fun_upd_idem) simp
    ultimately have "iappend_block (D i) ?m s = Ok (slot_addr ?bl ((D i)\<lparr>i_addrs := ?a\<rparr>) ?m, (D i)\<lparr>i_addrs := ?a\<rparr>)
        (s\<lparr>fsimg := ?bl, freeblock := ?fb + slots (Suc ?m) - slots ?m\<rparr>) \<and>
      data_inv ?bl (?fb + slots (Suc ?m) - slots ?m) I (D(i := (D i)\<lparr>i_addrs := ?a\<rparr>)) (M(i := Suc ?m)) (H(i := 12 < Suc ?m)) \<sigma> \<and>
      (\<forall>b < 46. ?bl ! b = ?bl ! b)"
      using give_direct [OF inv i(1) dir fb1(1) fb(2) \<sigma>] x fb1(2) by simp
    then show ?thesis by blast
  next
    case ind
    let ?a = "(i_addrs (D i))[12 := of_nat ?fb]"
    let ?din = "(D i)\<lparr>i_addrs := ?a\<rparr>" and ?s = "s\<lparr>freeblock := ?fb + 1\<rparr>"
    have fb1: "?fb + 1 < 1000" "slots (Suc ?m) = slots ?m + 2" using fb(1) ind by (simp_all add: slots_def)
    have inv1: "data_inv (fsimg ?s) (freeblock ?s) I (D(i := ?din)) M (H(i := True)) \<sigma>"
      using give_indirect [OF inv i(1)] ind i(3) fb1(1) fb(2) by simp
    have z: "i_addrs (D i) ! 12 = 0" using mp ind i(3) by (simp add: mapped_def)
    have nz: "(of_nat ?fb :: uint) \<noteq> 0" using unat_small [of ?fb] fb1(1) fb(2) by (intro unat_nonzero) simp
    have "iappend_indirect (D i) (?m - 12) s = iappend_indirect ?din (?m - 12) ?s"
      using z nz l by (simp add: iappend_indirect_def NDIRECT_def kop_simps)
    moreover have "iappend_block (D i) ?m s = iappend_indirect (D i) (?m - 12) s" using mf ind by (simp add: iappend_block_def NDIRECT_def)
    moreover obtain bl where "iappend_indirect ((D(i := ?din)) i) (?m - 12) ?s = Ok (slot_addr bl ((D(i := ?din)) i) ?m, (D(i := ?din)) i)
        (?s\<lparr>fsimg := bl, freeblock := freeblock ?s + 1\<rparr>)"
      and "data_inv bl (freeblock ?s + 1) I (D(i := ?din)) (M(i := Suc ?m)) (H(i := True)) \<sigma>" and "\<forall>b < 46. bl ! b = fsimg ?s ! b"
      using indirect_entry [OF inv1 i(1) _ i(2)] ind fb1(1) fb(2) \<sigma> by auto
    moreover have "H(i := True) = H(i := 12 < Suc ?m)" using ind by simp
    ultimately show ?thesis using fb1(2) by (intro exI [of _ bl] exI [of _ ?a]) simp
  next
    case entry
    have fb1: "?fb < 1000" "slots (Suc ?m) = slots ?m + 1" using fb(1) entry by (simp_all add: slots_def)
    have h: "H i" using i(3) entry by simp
    obtain bl where "iappend_indirect (D i) (?m - 12) s = Ok (slot_addr bl (D i) ?m, D i) (s\<lparr>fsimg := bl, freeblock := ?fb + 1\<rparr>)"
      and "data_inv bl (?fb + 1) I D (M(i := Suc ?m)) H \<sigma>" and "\<forall>b < 46. bl ! b = ?bl ! b"
      using indirect_entry [OF inv i(1) _ i(2) h fb1(1) fb(2) \<sigma>] entry by auto
    moreover have "iappend_block (D i) ?m s = iappend_indirect (D i) (?m - 12) s" using mf entry by (simp add: iappend_block_def NDIRECT_def)
    moreover have "H(i := 12 < Suc ?m) = H" using h entry by (intro fun_upd_idem) simp
    moreover have "(D i)\<lparr>i_addrs := i_addrs (D i)\<rparr> = D i" by simp
    moreover have "D(i := D i) = D" by simp
    ultimately show ?thesis using fb1(2) by (intro exI [of _ bl] exI [of _ "i_addrs (D i)"]) (simp only: add_diff_cancel_left', simp)
  qed
qed

lemma chunk_append_same:
  assumes "length bs = off" and "f = off div 1024" and "off - 1024 * f + length q \<le> 1024"
  shows "chunk (bs @ q) f = put_bytes (chunk bs f) (off - f * 1024) q"
proof -
  let ?u = "drop (1024 * f) bs" and ?r = "off - f * 1024"
  have le: "1024 * f \<le> off" unfolding assms(2) by simp
  have r: "length ?u = ?r" "?r + length q \<le> 1024" using assms(1,3) le by (simp_all add: mult.commute)
  have "chunk (bs @ q) f = take 1024 (?u @ q @ zeroes)" using le assms(1) by (simp add: chunk_def)
  also have "\<dots> = ?u @ q @ replicate (1024 - ?r - length q) 0" using r by (simp add: zeroes_def BSIZE_def)
  finally have a: "chunk (bs @ q) f = ?u @ q @ replicate (1024 - ?r - length q) 0" .
  have "chunk bs f = ?u @ replicate (1024 - ?r) 0" using r by (simp add: chunk_def zeroes_def BSIZE_def)
  then have "put_bytes (chunk bs f) ?r q = ?u @ q @ drop (length q) (replicate (1024 - ?r) 0)" using r by (simp add: put_bytes_def)
  then show ?thesis using a by simp
qed

lemma chunk_append_other: "1024 * (g + 1) \<le> length bs \<Longrightarrow> chunk (bs @ q) g = chunk bs g"
  by (simp add: chunk_def)

lemma nb_step:
  assumes "f = off div 1024" and "0 < n" and "off + n \<le> (f + 1) * 1024"
  shows "nb (off + n) = f + 1" and "nb off = f \<or> nb off = f + 1" and "f \<le> nb off" and "off \<le> 1024 * nb off"
proof -
  have o: "1024 * f \<le> off" "off < 1024 * (f + 1)" unfolding assms(1) by simp_all
  show "nb (off + n) = f + 1" unfolding nb_def using o assms(2,3) by (intro div_nat_eqI) simp_all
  show 1: "f \<le> nb off" unfolding nb_def using o by (simp add: less_eq_div_iff_mult_less_eq)
  have "nb off < f + 2" unfolding nb_def using o by (simp add: div_less_iff_less_mult)
  with 1 show "nb off = f \<or> nb off = f + 1" by linarith
  have "off + 1023 < 1024 * (nb off + 1)" unfolding nb_def using dividend_less_div_times [of 1024 "off + 1023"] by simp
  then show "off \<le> 1024 * nb off" by simp
qed

lemma slots_mono: "m \<le> n \<Longrightarrow> slots m \<le> slots n"
  by (simp add: slots_def)

lemma nb_mono: "m \<le> n \<Longrightarrow> nb m \<le> nb n"
  by (simp add: nb_def div_le_mono)

lemma block_run:
  assumes inv: "data_inv (fsimg s) (freeblock s) I D M H \<sigma>" and i: "i \<in> I" "length (\<sigma> i) = off" "M i = nb off" "H i = (12 < M i)"
    and f: "f = off div 1024" "f < 268" and n: "0 < n" "off + n \<le> (f + 1) * 1024"
    and fb: "freeblock s + slots (nb (off + n)) \<le> 1000 + slots (nb off)" "46 \<le> freeblock s"
  shows "\<exists>bl a. iappend_block (D i) f s = Ok (slot_addr bl ((D i)\<lparr>i_addrs := a\<rparr>) f, (D i)\<lparr>i_addrs := a\<rparr>)
        (s\<lparr>fsimg := bl, freeblock := freeblock s + slots (nb (off + n)) - slots (nb off)\<rparr>) \<and>
      data_inv bl (freeblock s + slots (nb (off + n)) - slots (nb off)) I (D(i := (D i)\<lparr>i_addrs := a\<rparr>))
        (M(i := nb (off + n))) (H(i := 12 < nb (off + n))) \<sigma> \<and> (\<forall>b < 46. bl ! b = fsimg s ! b)"
proof (cases "nb off = f")
  case True
  note nbs = nb_step [OF f(1) n]
  have \<sigma>: "length (\<sigma> i) \<le> 1024 * M i" using nbs(4) i(2,3) by simp
  show ?thesis using block_new [OF inv i(1) _ i(4) _ fb(2) \<sigma>] True nbs(1) i(3) f(2) fb(1) by simp
next
  case False
  note nbs = nb_step [OF f(1) n]
  have m: "nb off = f + 1" "nb (off + n) = nb off" using nbs(1,2) False by simp_all
  have "D(i := (D i)\<lparr>i_addrs := i_addrs (D i)\<rparr>) = D" "M(i := nb (off + n)) = M" "H(i := 12 < nb (off + n)) = H"
    using i(3,4) m by (simp, intro fun_upd_idem, simp, intro fun_upd_idem, simp)
  then show ?thesis using block_old [OF inv i(1), of f] inv i(3) m
    by (intro exI [of _ "fsimg s"] exI [of _ "i_addrs (D i)"]) simp
qed

lemma mk_upd_commute: "(s :: mkst)\<lparr>freeblock := a, fsimg := b\<rparr> = s\<lparr>fsimg := b, freeblock := a\<rparr>"
  by simp

lemma iappend_loop_run:
  assumes "data_inv (fsimg s) (freeblock s) I D M H \<sigma>" and "i \<in> I" "length (\<sigma> i) = off" "M i = nb off" "H i = (12 < M i)"
    and "off + length p \<le> 268 * 1024" and "freeblock s + slots (nb (off + length p)) \<le> 1000 + slots (nb off)" and "46 \<le> freeblock s"
  shows "\<exists>bl a. iappend_loop (D i) off p s = Ok ((D i)\<lparr>i_addrs := a\<rparr>, off + length p)
        (s\<lparr>fsimg := bl, freeblock := freeblock s + slots (nb (off + length p)) - slots (nb off)\<rparr>) \<and>
      data_inv bl (freeblock s + slots (nb (off + length p)) - slots (nb off)) I (D(i := (D i)\<lparr>i_addrs := a\<rparr>))
        (M(i := nb (off + length p))) (H(i := 12 < nb (off + length p))) (\<sigma>(i := \<sigma> i @ p)) \<and> (\<forall>b < 46. bl ! b = fsimg s ! b)"
  using assms
proof (induction p arbitrary: s D M H \<sigma> off rule: length_induct)
  case (1 p)
  note IH = 1(1) [rule_format] and prems = 1(2-)
  show ?case
  proof (cases "p = []")
    case True
    have "M(i := nb off) = M" "H(i := 12 < nb off) = H" "\<sigma>(i := \<sigma> i) = \<sigma>" using prems(4,5) by (intro fun_upd_idem; simp)+
    then show ?thesis using True prems by (intro exI [of _ "fsimg s"] exI [of _ "i_addrs (D i)"]) (simp add: iappend_loop.simps)
  next
    case False
    define f where "f = off div 1024"
    define n where "n = min (length p) ((f + 1) * 1024 - off)"
    have fo: "1024 * f \<le> off" "off < (f + 1) * 1024" unfolding f_def by simp_all
    have n: "0 < n" "n \<le> length p" "off + n \<le> (f + 1) * 1024" using False fo unfolding n_def by auto
    have f: "f < 268" using fo False prems(6) by (cases p) simp_all
    note nbs = nb_step [OF f_def n(1,3)]
    have mono: "nb off \<le> nb (off + n)" "nb (off + n) \<le> nb (off + length p)" using n(2) by (simp_all add: nb_mono)
    note sm = mono [THEN slots_mono]
    define fb1 where "fb1 = freeblock s + slots (nb (off + n)) - slots (nb off)"
    have fb: "freeblock s + slots (nb (off + n)) \<le> 1000 + slots (nb off)" using prems(7) sm by simp
    obtain bl a where b: "iappend_block (D i) f s = Ok (slot_addr bl ((D i)\<lparr>i_addrs := a\<rparr>) f, (D i)\<lparr>i_addrs := a\<rparr>) (s\<lparr>fsimg := bl, freeblock := fb1\<rparr>)"
      "data_inv bl fb1 I (D(i := (D i)\<lparr>i_addrs := a\<rparr>)) (M(i := nb (off + n))) (H(i := 12 < nb (off + n))) \<sigma>" "\<forall>b < 46. bl ! b = fsimg s ! b"
      using block_run [OF prems(1-5) f_def f n(1,3) fb prems(8), folded fb1_def] by (elim exE conjE) (rule that)
    let ?din = "(D i)\<lparr>i_addrs := a\<rparr>" and ?q = "take n p"
    let ?D = "D(i := ?din)" and ?M = "M(i := nb (off + n))" and ?H = "H(i := 12 < nb (off + n))" and ?\<sigma> = "\<sigma>(i := \<sigma> i @ ?q)"
    let ?x = "slot_addr bl ?din f"
    note d = data_invD [OF b(2)]
    have x: "46 \<le> ?x" "?x < 1000" using d(6) [OF prems(2), of f] d(3) nbs(1) by (simp_all add: used_def)
    have old: "bl ! ?x = chunk (\<sigma> i) f" using d(8) [OF prems(2), of f] nbs(1) by simp
    have new: "put_bytes (bl ! ?x) (off - f * 1024) ?q = chunk (\<sigma> i @ ?q) f"
      unfolding old using chunk_append_same [OF prems(3) f_def, of ?q] n fo by simp
    have inv2: "data_inv (bl[slot_addr bl (?D i) f := chunk (\<sigma> i @ ?q) f]) fb1 I ?D ?M ?H ?\<sigma>"
    proof (rule write_data [OF b(2) prems(2)])
      show "f < ?M i" using nbs(1) by simp
      show "chunk (\<sigma> i @ ?q) g = chunk (\<sigma> i) g" if "g < ?M i" "g \<noteq> f" for g
        using that nbs(1) fo prems(3) by (intro chunk_append_other) simp
    qed
    define s2 where "s2 = s\<lparr>fsimg := bl[?x := chunk (\<sigma> i @ ?q) f], freeblock := fb1\<rparr>"
    have ne: "min (length p) (1024 + f * 1024 - off) = n" by (simp add: n_def)
    have step: "iappend_loop (D i) off p s = iappend_loop ?din (off + n) (drop n p) s2"
      unfolding iappend_loop.simps [of "D i" off p] s2_def new [symmetric]
      using False b(1) x(2) d(1) ne by (simp add: Let_def BSIZE_def f_def [symmetric] mk_upd_commute)
    have len: "length (drop n p) < length p" "off + n + length (drop n p) = off + length p" "?q @ drop n p = p" using n False by simp_all
    have inv3: "data_inv (fsimg s2) (freeblock s2) I ?D ?M ?H ?\<sigma>" using inv2 by (simp add: s2_def)
    have fbe: "freeblock s2 = fb1" "freeblock s2 + slots (nb (off + length p)) - slots (nb (off + n)) = freeblock s + slots (nb (off + length p)) - slots (nb off)"
      "46 \<le> freeblock s2" using prems(8) sm by (simp_all add: s2_def fb1_def)
    have pre: "length (?\<sigma> i) = off + n" "?M i = nb (off + n)" "?H i = (12 < ?M i)" "off + n + length (drop n p) \<le> 268 * 1024"
      "freeblock s2 + slots (nb (off + n + length (drop n p))) \<le> 1000 + slots (nb (off + n))"
      using prems(3,6,7) n sm len(2) fbe(1) by (simp_all add: fb1_def)
    have ad2: "(D i)\<lparr>i_addrs := a, i_addrs := a'\<rparr> = (D i)\<lparr>i_addrs := a'\<rparr>" for a' by simp
    obtain bl' a' where r: "iappend_loop (?D i) (off + n) (drop n p) s2 = Ok ((?D i)\<lparr>i_addrs := a'\<rparr>, off + n + length (drop n p))
        (s2\<lparr>fsimg := bl', freeblock := freeblock s2 + slots (nb (off + n + length (drop n p))) - slots (nb (off + n))\<rparr>)"
      "data_inv bl' (freeblock s2 + slots (nb (off + n + length (drop n p))) - slots (nb (off + n))) I (?D(i := (?D i)\<lparr>i_addrs := a'\<rparr>))
        (?M(i := nb (off + n + length (drop n p)))) (?H(i := 12 < nb (off + n + length (drop n p)))) (?\<sigma>(i := ?\<sigma> i @ drop n p))"
      "\<forall>b < 46. bl' ! b = fsimg s2 ! b"
      using IH [OF len(1) inv3 prems(2) pre fbe(3)] by (elim exE conjE) (rule that)
    have keep: "\<forall>b < 46. bl' ! b = fsimg s ! b" using r(3) b(3) x(1) by (simp add: s2_def)
    have run: "iappend_loop (D i) off p s = Ok ((D i)\<lparr>i_addrs := a'\<rparr>, off + length p)
        (s\<lparr>fsimg := bl', freeblock := freeblock s + slots (nb (off + length p)) - slots (nb off)\<rparr>)"
      using step r(1) unfolding len(2) fbe(2) by (simp add: s2_def)
    have inv4: "data_inv bl' (freeblock s + slots (nb (off + length p)) - slots (nb off)) I (D(i := (D i)\<lparr>i_addrs := a'\<rparr>))
        (M(i := nb (off + length p))) (H(i := 12 < nb (off + length p))) (\<sigma>(i := \<sigma> i @ p))"
      using r(2) unfolding len(2) fbe(2) by (simp only: fun_upd_same fun_upd_upd append_assoc len(3) ad2)
    show ?thesis by (rule exI [of _ bl'], rule exI [of _ a'], intro conjI run inv4 keep)
  qed
qed

section \<open>The table of inodes\<close>

definition itab :: "uchar list list \<Rightarrow> (nat \<Rightarrow> inode) \<Rightarrow> bool" where
  "itab bl D \<longleftrightarrow> (\<forall>i < 208. get_dinode (bl ! (32 + i div 16)) (i mod 16 * 64) dinode0 = D i)"

lemma mk_iblock_eq: "i < 208 \<Longrightarrow> mk_iblock i = 32 + i div 16"
proof -
  assume i: "i < 208"
  have "unat (of_nat i div 16 :: uint) = i div 16" using i by (simp add: unat_div unat_of_nat)
  moreover have "i div 16 < 13" using i by simp
  ultimately have "unat (of_nat i div 16 + 32 :: uint) = i div 16 + 32" by (subst unat_plus_if_size) (simp add: word_size)
  then show ?thesis by (simp add: mk_iblock_def IBLOCK_def mk_sb_def mk_layout)
qed

lemma winode_run:
  assumes "i < 208" and "length (fsimg s) = 1000" and "\<forall>b < 1000. length (fsimg s ! b) = 1024" and "itab (fsimg s) D" and "disk_form ip"
  shows "\<exists>bl. winode i ip s = Ok () (s\<lparr>fsimg := bl\<rparr>) \<and> itab bl (D(i := ip)) \<and> length bl = 1000 \<and> (\<forall>b < 1000. length (bl ! b) = 1024) \<and>
    (\<forall>b. b < 32 \<or> 45 \<le> b \<longrightarrow> bl ! b = fsimg s ! b)"
proof -
  let ?k = "32 + i div 16" and ?o = "i mod 16 * 64"
  let ?b = "put_dinode (fsimg s ! ?k) ?o ip"
  let ?bl = "(fsimg s)[?k := ?b]"
  have k: "?k < 45" using assms(1) by simp
  have o: "j mod 16 * 64 + 64 \<le> 1024" for j :: nat
    using mod_less_divisor [of 16 j] by linarith
  have l: "length (fsimg s ! ?k) = 1024" using assms(3) k by simp
  have ad: "length (i_addrs ip) = 13" using assms(5) by (simp add: disk_form_def)
  have lb: "length ?b = 1024" using length_put_dinode [of ?o "fsimg s ! ?k" ip] l o [of i] ad by simp
  have run: "winode i ip s = Ok () (s\<lparr>fsimg := ?bl\<rparr>)"
    using k assms(1,2) by (simp add: winode_def mk_iblock_eq kop_simps mk_layout)
  have tab: "get_dinode (?bl ! (32 + j div 16)) (j mod 16 * 64) dinode0 = (D(i := ip)) j" if j: "j < 208" for j
  proof (cases "j div 16 = i div 16")
    case True
    show ?thesis
    proof (cases "j = i")
      case True
      then show ?thesis using get_put_dinode [of ?o "fsimg s ! ?k" ip] from_disk_form [OF assms(5)] l o [of i] ad assms(2) k by simp
    next
      case False
      have "j mod 16 \<noteq> i mod 16" using False True by (metis div_mult_mod_eq)
      then have "?o + 64 \<le> j mod 16 * 64 \<or> j mod 16 * 64 + 64 \<le> ?o" by linarith
      then have "get_dinode ?b (j mod 16 * 64) dinode0 = get_dinode (fsimg s ! ?k) (j mod 16 * 64) dinode0"
        using l o [of i] o [of j] ad by (intro get_put_dinode_other) simp_all
      moreover have "get_dinode (fsimg s ! (32 + j div 16)) (j mod 16 * 64) dinode0 = D j" using assms(4) j by (simp add: itab_def)
      ultimately show ?thesis using True False k assms(2) by simp
    qed
  next
    case False
    then have "j \<noteq> i" by auto
    then show ?thesis using False assms(4) j by (simp add: itab_def)
  qed
  have "\<forall>b < 1000. length (?bl ! b) = 1024" using assms(2,3) lb k by (simp add: nth_list_update)
  then show ?thesis using run tab k assms(2) by (intro exI [of _ ?bl]) (simp add: itab_def)
qed

lemma rinode_run: "i < 208 \<Longrightarrow> length (fsimg s) = 1000 \<Longrightarrow> itab (fsimg s) D \<Longrightarrow> rinode i s = Ok (D i) s"
  by (simp add: rinode_def mk_iblock_eq kop_simps mk_layout itab_def)

lemma data_inv_frame:
  assumes inv: "data_inv bl fb I D M H \<sigma>" and len: "length bl' = 1000" "\<forall>b < 1000. length (bl' ! b) = 1024"
    and keep: "\<And>b. 46 \<le> b \<Longrightarrow> bl' ! b = bl ! b" and fb: "46 \<le> fb"
  shows "data_inv bl' fb I D M H \<sigma>"
  using data_invD(6,8,9) [OF inv] keep fb by (intro data_inv_blocks [OF inv len]) (simp_all add: used_def)

end
