(* ===== verification/Mkfsprops.thy ===== *)
theory Mkfsprops
  imports Mkimage
begin

text \<open>
  The image \<^verbatim>\<open>mkfs\<close> writes is a well-formed file system in the kernel's format.
\<close>

section \<open>The file system under construction\<close>

definition meta :: "uchar list list \<Rightarrow> bool" where
  "meta bl \<longleftrightarrow> bl ! 1 = put_bytes zeroes 0 (sb_bytes mk_sb) \<and> (\<forall>b < 32. b \<noteq> 1 \<longrightarrow> bl ! b = zeroes)"

definition blocks_of :: "(nat \<Rightarrow> uchar list) \<Rightarrow> nat \<Rightarrow> nat" where
  "blocks_of \<sigma> n = (\<Sum>i = 1..<n. slots (nb (length (\<sigma> i))))"

text \<open>The inode of a file of a type and a size, with one link.\<close>

definition has_type :: "inode \<Rightarrow> ushort \<Rightarrow> nat \<Rightarrow> bool" where
  "has_type din t n \<longleftrightarrow> i_type din = t \<and> i_major din = 0 \<and> i_minor din = 0 \<and> i_nlink din = 1 \<and> i_size din = of_nat n"

text \<open>The files 1 to \<open>freeinode - 1\<close> have the types \<open>T\<close> and the contents \<open>\<sigma>\<close>.\<close>

definition fs_inv :: "mkst \<Rightarrow> (nat \<Rightarrow> inode) \<Rightarrow> (nat \<Rightarrow> ushort) \<Rightarrow> (nat \<Rightarrow> uchar list) \<Rightarrow> bool" where
  "fs_inv s D T \<sigma> \<longleftrightarrow>
     data_inv (fsimg s) (freeblock s) {1..<freeinode s} D (\<lambda>i. nb (length (\<sigma> i))) (\<lambda>i. 12 < nb (length (\<sigma> i))) \<sigma> \<and>
     itab (fsimg s) D \<and>
     (\<forall>i \<in> {1..<freeinode s}. has_type (D i) (T i) (length (\<sigma> i))) \<and>
     (\<forall>i < 208. i \<notin> {1..<freeinode s} \<longrightarrow> D i = dinode0) \<and>
     freeblock s = 46 + blocks_of \<sigma> (freeinode s) \<and> meta (fsimg s)"

lemma blocks_of_upd:
  assumes "1 \<le> i" and "i < n"
  shows "blocks_of (\<sigma>(i := bs)) n + slots (nb (length (\<sigma> i))) = blocks_of \<sigma> n + slots (nb (length bs))"
proof -
  have i: "i \<in> {1..<n}" using assms by simp
  have "blocks_of (\<sigma>(i := bs)) n = slots (nb (length bs)) + (\<Sum>j \<in> {1..<n} - {i}. slots (nb (length (\<sigma> j))))"
    unfolding blocks_of_def by (subst sum.remove [OF _ i]) (simp_all cong: sum.cong_simp)
  moreover have "blocks_of \<sigma> n = slots (nb (length (\<sigma> i))) + (\<Sum>j \<in> {1..<n} - {i}. slots (nb (length (\<sigma> j))))"
    unfolding blocks_of_def by (subst sum.remove [OF _ i]) simp_all
  ultimately show ?thesis by simp
qed

lemma fs_inv_disk_form: "fs_inv s D T \<sigma> \<Longrightarrow> i < 208 \<Longrightarrow> disk_form (D i)"
  unfolding fs_inv_def itab_def by (metis disk_form_get)

lemma fs_invD:
  assumes "fs_inv s D T \<sigma>"
  shows "data_inv (fsimg s) (freeblock s) {1..<freeinode s} D (\<lambda>i. nb (length (\<sigma> i))) (\<lambda>i. 12 < nb (length (\<sigma> i))) \<sigma>" and "itab (fsimg s) D"
    and "\<forall>i \<in> {1..<freeinode s}. has_type (D i) (T i) (length (\<sigma> i))" and "\<forall>i < 208. i \<notin> {1..<freeinode s} \<longrightarrow> D i = dinode0"
    and "freeblock s = 46 + blocks_of \<sigma> (freeinode s)" and "meta (fsimg s)"
  using assms unfolding fs_inv_def by - (elim conjE, assumption)+

lemma nb_upd: "(\<lambda>j. nb (length ((\<sigma>(i := bs)) j))) = (\<lambda>j. nb (length (\<sigma> j)))(i := nb (length bs))"
  and big_upd: "(\<lambda>j. 12 < nb (length ((\<sigma>(i := bs)) j))) = (\<lambda>j. 12 < nb (length (\<sigma> j)))(i := 12 < nb (length bs))"
  by (simp_all add: fun_eq_iff)

lemma meta_frame: "meta bl \<Longrightarrow> (\<And>b. b < 32 \<Longrightarrow> bl' ! b = bl ! b) \<Longrightarrow> meta bl'"
  by (simp add: meta_def)

lemma itab_frame: "itab bl D \<Longrightarrow> (\<And>b. b < 46 \<Longrightarrow> bl' ! b = bl ! b) \<Longrightarrow> itab bl' D"
  by (simp add: itab_def)

text \<open>Writing the inode of a file whose data part is already in place.\<close>

lemma winode_fs:
  assumes inv: "data_inv (fsimg s) (freeblock s) I D M H \<sigma>" and tab: "itab (fsimg s) D0" and i: "i < 208" and D: "\<forall>j. j \<noteq> i \<longrightarrow> D0 j = D j"
    and "disk_form (D i)" and "46 \<le> freeblock s" and mt: "meta (fsimg s)"
  shows "\<exists>bl. winode i (D i) s = Ok () (s\<lparr>fsimg := bl\<rparr>) \<and> data_inv bl (freeblock s) I D M H \<sigma> \<and> itab bl D \<and> meta bl"
proof -
  note d = data_invD [OF inv]
  have lens: "\<forall>b < 1000. length (fsimg s ! b) = 1024" using d(2) by simp
  obtain bl where b: "winode i (D i) s = Ok () (s\<lparr>fsimg := bl\<rparr>)" "itab bl (D0(i := D i))" "length bl = 1000" "\<forall>b < 1000. length (bl ! b) = 1024"
    "\<forall>b. b < 32 \<or> 45 \<le> b \<longrightarrow> bl ! b = fsimg s ! b"
    using winode_run [OF i d(1) lens tab assms(5)] by (elim exE conjE) (rule that)
  have "data_inv bl (freeblock s) I D M H \<sigma>" using b(5) assms(6) by (intro data_inv_frame [OF inv b(3,4)]) simp_all
  moreover have "itab bl D" using b(2) D unfolding itab_def by (metis fun_upd_apply)
  moreover have "meta bl" using b(5) by (intro meta_frame [OF mt]) simp
  ultimately show ?thesis using b(1) by blast
qed

lemma data_inv_size:
  assumes inv: "data_inv bl fb I D M H \<sigma>" and i: "i \<in> I"
  shows "data_inv bl fb I (D(i := (D i)\<lparr>i_size := n\<rparr>)) M H \<sigma>"
proof -
  have s: "slot_addr bl ((D(i := (D i)\<lparr>i_size := n\<rparr>)) j) = slot_addr bl (D j)" for j by (simp add: slot_addr_def fun_eq_iff)
  have m: "mapped bl ((D(i := (D i)\<lparr>i_size := n\<rparr>)) j) = mapped bl (D j)" for j by (simp add: mapped_def fun_eq_iff)
  have d: "disk_form ((D(i := (D i)\<lparr>i_size := n\<rparr>)) j) = disk_form (D j)" for j by (simp add: disk_form_def)
  show ?thesis using inv unfolding data_inv_def s m d .
qed

lemma iappend_run:
  assumes inv: "fs_inv s D T \<sigma>" and i: "1 \<le> i" "i < freeinode s" and n: "freeinode s \<le> 200"
    and len: "length (\<sigma> i) + length p \<le> 268 * 1024" and room: "blocks_of (\<sigma>(i := \<sigma> i @ p)) (freeinode s) \<le> 954"
  shows "\<exists>s' D'. iappend i p s = Ok () s' \<and> fs_inv s' D' T (\<sigma>(i := \<sigma> i @ p)) \<and> freeinode s' = freeinode s"
proof -
  let ?\<sigma> = "\<sigma>(i := \<sigma> i @ p)" and ?I = "{1..<freeinode s}" and ?n = "length (\<sigma> i) + length p"
  note v = fs_invD [OF inv] and dv = data_invD [OF fs_invD(1) [OF inv]]
  have iI: "i \<in> ?I" and i208: "i < 208" using i n by simp_all
  have hi: "has_type (D i) (T i) (length (\<sigma> i))" using v(3) iI by blast
  have size: "unat (xint (i_size (D i))) = length (\<sigma> i)" using hi len by (simp add: has_type_def unat_of_nat)
  define fb where "fb = freeblock s + slots (nb ?n) - slots (nb (length (\<sigma> i)))"
  have fb: "fb = 46 + blocks_of ?\<sigma> (freeinode s)" using blocks_of_upd [OF i, of \<sigma> "\<sigma> i @ p"] v(5) by (simp add: fb_def)
  have fb1: "freeblock s + slots (nb ?n) \<le> 1000 + slots (nb (length (\<sigma> i)))"
    using blocks_of_upd [OF i, of \<sigma> "\<sigma> i @ p"] v(5) room by simp
  have fb46: "46 \<le> freeblock s" using v(5) by simp
  obtain bl a where l: "iappend_loop (D i) (length (\<sigma> i)) p s = Ok ((D i)\<lparr>i_addrs := a\<rparr>, ?n) (s\<lparr>fsimg := bl, freeblock := fb\<rparr>)"
    "data_inv bl fb ?I (D(i := (D i)\<lparr>i_addrs := a\<rparr>)) ((\<lambda>i. nb (length (\<sigma> i)))(i := nb ?n)) ((\<lambda>i. 12 < nb (length (\<sigma> i)))(i := 12 < nb ?n)) ?\<sigma>"
    "\<forall>b < 46. bl ! b = fsimg s ! b"
    using iappend_loop_run [OF v(1) iI refl refl refl len fb1 fb46, folded fb_def] by (elim exE conjE) (rule that)
  define din where "din = (D i)\<lparr>i_addrs := a, i_size := of_nat ?n\<rparr>"
  define s1 where "s1 = s\<lparr>fsimg := bl, freeblock := fb\<rparr>"
  have df: "disk_form ((D i)\<lparr>i_addrs := a\<rparr>)" using data_invD(4) [OF l(2) iI] by simp
  have "data_inv bl fb ?I (D(i := din)) ((\<lambda>i. nb (length (\<sigma> i)))(i := nb ?n)) ((\<lambda>i. 12 < nb (length (\<sigma> i)))(i := 12 < nb ?n)) ?\<sigma>"
    using data_inv_size [OF l(2) iI] by (simp add: din_def)
  then have inv1: "data_inv (fsimg s1) (freeblock s1) ?I (D(i := din)) (\<lambda>j. nb (length (?\<sigma> j))) (\<lambda>j. 12 < nb (length (?\<sigma> j))) ?\<sigma>"
    unfolding nb_upd big_upd by (simp add: s1_def)
  have tab1: "itab (fsimg s1) D" using l(3) by (intro itab_frame [OF v(2)]) (simp add: s1_def)
  have mt1: "meta (fsimg s1)" using l(3) by (intro meta_frame [OF v(6)]) (simp add: s1_def)
  have dd: "disk_form ((D(i := din)) i)" using df by (simp add: din_def disk_form_def)
  have oth: "\<forall>j. j \<noteq> i \<longrightarrow> D j = (D(i := din)) j" by simp
  have fb2: "46 \<le> freeblock s1" using fb by (simp add: s1_def)
  obtain bl' where w: "winode i ((D(i := din)) i) s1 = Ok () (s1\<lparr>fsimg := bl'\<rparr>)"
    "data_inv bl' (freeblock s1) ?I (D(i := din)) (\<lambda>j. nb (length (?\<sigma> j))) (\<lambda>j. 12 < nb (length (?\<sigma> j))) ?\<sigma>" "itab bl' (D(i := din))" "meta bl'"
    using winode_fs [OF inv1 tab1 i208 oth dd fb2 mt1] by (elim exE conjE) (rule that)
  have run: "iappend i p s = Ok () (s1\<lparr>fsimg := bl'\<rparr>)"
    using rinode_run [OF i208 dv(1) v(2)] l(1) w(1) size by (simp add: iappend_def kop_simps s1_def din_def)
  have "fs_inv (s1\<lparr>fsimg := bl'\<rparr>) (D(i := din)) T ?\<sigma>"
    unfolding fs_inv_def
  proof (intro conjI)
    show "\<forall>j \<in> {1..<freeinode (s1\<lparr>fsimg := bl'\<rparr>)}. has_type ((D(i := din)) j) (T j) (length (?\<sigma> j))"
      using v(3) hi by (simp add: s1_def din_def has_type_def)
    show "\<forall>j < 208. j \<notin> {1..<freeinode (s1\<lparr>fsimg := bl'\<rparr>)} \<longrightarrow> (D(i := din)) j = dinode0" using v(4) iI by (simp add: s1_def)
  qed (use w(2-4) fb in \<open>simp_all add: s1_def\<close>)
  then show ?thesis using run by (intro exI [of _ "s1\<lparr>fsimg := bl'\<rparr>"] exI [of _ "D(i := din)"]) (simp add: s1_def)
qed

section \<open>Making files\<close>

lemma nb_0 [simp]: "nb 0 = 0"
  by (simp add: nb_def)

lemma slots_0 [simp]: "slots 0 = 0"
  by (simp add: slots_def)

lemma data_inv_new_file:
  assumes inv: "data_inv bl fb I D M H \<sigma>" and i: "i \<notin> I" and din: "disk_form din" "i_addrs din = replicate 13 0"
  shows "data_inv bl fb (insert i I) (D(i := din)) (M(i := 0)) (H(i := False)) (\<sigma>(i := []))"
proof -
  note d = data_invD [OF inv]
  have s: "slots_of (insert i I) (M(i := 0)) (H(i := False)) = slots_of I M H" using i by (auto simp: slots_of_def used_def split: if_splits)
  have j: "j \<noteq> i" if "(j, f) \<in> slots_of I M H" for j f using that i by (auto simp: slots_of_def)
  have a: "slot_addr bl ((D(i := din)) j) f = slot_addr bl (D j) f" if "(j, f) \<in> slots_of I M H" for j f using j [OF that] by simp
  have inj: "inj_on (\<lambda>(j, g). slot_addr bl (D j) g) (slots_of I M H)" using inv unfolding data_inv_def by simp
  have "inj_on (\<lambda>(j, g). slot_addr bl ((D(i := din)) j) g) (slots_of I M H)"
    by (rule inj_on_cong [THEN iffD1, OF _ inj]) (use a in auto)
  moreover have "mapped bl din 0 False" using din(2) by (simp add: mapped_def)
  moreover have "\<forall>j f. (j, f) \<in> slots_of I M H \<longrightarrow> 46 \<le> slot_addr bl ((D(i := din)) j) f \<and> slot_addr bl ((D(i := din)) j) f < fb"
    using d(6) a by (simp add: slots_of_def)
  moreover have "\<forall>j \<in> insert i I. disk_form ((D(i := din)) j) \<and> mapped bl ((D(i := din)) j) ((M(i := 0)) j) ((H(i := False)) j)"
    using d(4,5) din(1) i \<open>mapped bl din 0 False\<close> by auto
  moreover have "\<forall>j \<in> insert i I. \<forall>f < (M(i := 0)) j. bl ! slot_addr bl ((D(i := din)) j) f = chunk ((\<sigma>(i := [])) j) f" using d(8) by simp
  ultimately show ?thesis unfolding data_inv_def s using d(1,2,3,9) by simp
qed

lemma ialloc_run:
  assumes inv: "fs_inv s D T \<sigma>" and n: "1 \<le> freeinode s" "freeinode s < 200"
  shows "\<exists>s' D'. mk_ialloc t s = Ok (freeinode s) s' \<and> fs_inv s' D' (T(freeinode s := t)) (\<sigma>(freeinode s := [])) \<and>
    freeinode s' = freeinode s + 1"
proof -
  let ?i = "freeinode s" and ?\<sigma> = "\<sigma>(freeinode s := [])"
  note v = fs_invD [OF inv]
  define din where "din = dinode0\<lparr>i_type := t, i_nlink := 1, i_size := 0\<rparr>"
  have df: "disk_form din" "i_addrs din = replicate 13 0" by (simp_all add: din_def disk_form_def dinode0_def NDIRECT_def)
  have I: "insert ?i {1..<?i} = {1..<?i + 1}" using n(1) by auto
  let ?s = "s\<lparr>freeinode := ?i + 1\<rparr>"
  have M: "(\<lambda>j. nb (length (?\<sigma> j))) = (\<lambda>j. nb (length (\<sigma> j)))(?i := 0)" "(\<lambda>j. 12 < nb (length (?\<sigma> j))) = (\<lambda>j. 12 < nb (length (\<sigma> j)))(?i := False)"
    by (simp_all add: fun_eq_iff)
  have "data_inv (fsimg s) (freeblock s) {1..<?i + 1} (D(?i := din)) (\<lambda>j. nb (length (?\<sigma> j))) (\<lambda>j. 12 < nb (length (?\<sigma> j))) ?\<sigma>"
    unfolding M I [symmetric] by (rule data_inv_new_file [OF v(1) _ df]) simp
  then have inv1: "data_inv (fsimg ?s) (freeblock ?s) {1..<?i + 1} (D(?i := din)) (\<lambda>j. nb (length (?\<sigma> j))) (\<lambda>j. 12 < nb (length (?\<sigma> j))) ?\<sigma>" by simp
  have pre: "itab (fsimg ?s) D" "?i < 208" "\<forall>j. j \<noteq> ?i \<longrightarrow> D j = (D(?i := din)) j" "disk_form ((D(?i := din)) ?i)" "46 \<le> freeblock ?s" "meta (fsimg ?s)"
    using v n(2) df(1) by simp_all
  obtain bl where w: "winode ?i ((D(?i := din)) ?i) ?s = Ok () (?s\<lparr>fsimg := bl\<rparr>)"
    "data_inv bl (freeblock ?s) {1..<?i + 1} (D(?i := din)) (\<lambda>j. nb (length (?\<sigma> j))) (\<lambda>j. 12 < nb (length (?\<sigma> j))) ?\<sigma>" "itab bl (D(?i := din))" "meta bl"
    using winode_fs [OF inv1 pre] by (elim exE conjE) (rule that)
  have run: "mk_ialloc t s = Ok ?i (?s\<lparr>fsimg := bl\<rparr>)" using w(1) by (simp add: mk_ialloc_def kop_simps din_def)
  have "blocks_of ?\<sigma> (?i + 1) = blocks_of \<sigma> ?i" using n(1) by (simp add: blocks_of_def)
  moreover have "\<forall>j \<in> {1..<?i + 1}. has_type ((D(?i := din)) j) ((T(?i := t)) j) (length (?\<sigma> j))"
    using v(3) by (simp add: din_def has_type_def dinode0_def)
  moreover have "\<forall>j < 208. j \<notin> {1..<?i + 1} \<longrightarrow> (D(?i := din)) j = dinode0" using v(4) n(1) by (auto simp: less_Suc_eq)
  ultimately have "fs_inv (?s\<lparr>fsimg := bl\<rparr>) (D(?i := din)) (T(?i := t)) ?\<sigma>"
    unfolding fs_inv_def using w(2-4) v(5) by simp
  then show ?thesis using run by (intro exI [of _ "?s\<lparr>fsimg := bl\<rparr>"] exI [of _ "D(?i := din)"]) simp
qed

section \<open>The contents of the image\<close>

type_synonym host_file = "uchar list \<times> uchar list list option"

definition file_name :: "host_file \<Rightarrow> uchar list" where
  "file_name = (\<lambda>(path, _). skip_underscore (mk_shortname path))"

definition file_data :: "host_file \<Rightarrow> uchar list" where
  "file_data = (\<lambda>(_, cs). concat (the cs))"

definition root_bytes :: "host_file list \<Rightarrow> uchar list" where
  "root_bytes fs = make_dirent 1 (map of_char ''.'') @ make_dirent 1 (map of_char ''..'') @
     concat (map (\<lambda>k. make_dirent (of_nat (k + 2)) (file_name (fs ! k))) [0..<length fs])"

definition contents :: "host_file list \<Rightarrow> nat \<Rightarrow> uchar list" where
  "contents fs i = (if i = 1 then root_bytes fs else if 2 \<le> i \<and> i < length fs + 2 then file_data (fs ! (i - 2)) else [])"

definition mk_type :: "nat \<Rightarrow> ushort" where
  "mk_type i = (if i = 1 then T_DIR else T_FILE)"

text \<open>Files that fit: at most 198 of them, none larger than 268 blocks, and 954 blocks for all with their indirect blocks.\<close>

definition files_fit :: "host_file list \<Rightarrow> bool" where
  "files_fit fs \<longleftrightarrow> length fs \<le> 198 \<and>
     list_all (\<lambda>(path, cs). of_char CHR ''/'' \<notin> set (mk_shortname path) \<and> cs \<noteq> None \<and> length (concat (the cs)) \<le> 268 * 1024) fs \<and>
     blocks_of (contents fs) (length fs + 2) \<le> 954"

lemma blocks_of_mono: "(\<And>j. length (\<sigma> j) \<le> length (\<sigma>' j)) \<Longrightarrow> blocks_of \<sigma> n \<le> blocks_of \<sigma>' n"
  unfolding blocks_of_def by (intro sum_mono slots_mono nb_mono)

lemma blocks_of_more: "m \<le> n \<Longrightarrow> blocks_of \<sigma> m \<le> blocks_of \<sigma> n"
  unfolding blocks_of_def by (intro sum_mono2) auto

lemma length_dirent [simp]: "length (make_dirent i nm) = 16"
  by (simp add: make_dirent_def strncpy_def strncpy_loop_props(1) DIRSIZ_def)

lemma root_bytes_snoc: "root_bytes (fs @ [f]) = root_bytes fs @ make_dirent (of_nat (length fs + 2)) (file_name f)"
proof -
  have e: "map (\<lambda>k. make_dirent (of_nat (k + 2)) (file_name ((fs @ [f]) ! k))) [0..<length fs] =
    map (\<lambda>k. make_dirent (of_nat (k + 2)) (file_name (fs ! k))) [0..<length fs]" by (rule map_cong [OF refl]) (simp add: nth_append)
  have u: "[0..<length (fs @ [f])] = [0..<length fs] @ [length fs]" by simp
  show ?thesis unfolding root_bytes_def u map_append concat_append e by simp
qed

lemma length_root_bytes [simp]: "length (root_bytes fs) = 16 * (length fs + 2)"
proof (induction fs rule: rev_induct)
  case Nil
  show ?case by (simp add: root_bytes_def)
next
  case (snoc f fs)
  then show ?case by (simp add: root_bytes_snoc)
qed

lemma contents_snoc:
  "contents (fs @ [f]) = (contents fs)(1 := root_bytes fs @ make_dirent (of_nat (length fs + 2)) (file_name f), length fs + 2 := file_data f)"
  by (auto simp: contents_def fun_eq_iff root_bytes_snoc nth_append)

lemma files_fit_butlast:
  assumes "files_fit (fs @ [f])"
  shows "files_fit fs"
proof -
  have "blocks_of (contents fs) (length fs + 2) \<le> blocks_of (contents (fs @ [f])) (length fs + 2)"
    by (rule blocks_of_mono) (auto simp: contents_def root_bytes_snoc nth_append)
  also have "\<dots> \<le> blocks_of (contents (fs @ [f])) (length (fs @ [f]) + 2)" by (rule blocks_of_more) simp
  finally show ?thesis using assms by (simp add: files_fit_def)
qed

lemma chunks_run:
  assumes "fs_inv s D T \<sigma>" and "1 \<le> i" "i < freeinode s" and "freeinode s \<le> 200"
    and "length (\<sigma> i) + length (concat cs) \<le> 268 * 1024" and "blocks_of (\<sigma>(i := \<sigma> i @ concat cs)) (freeinode s) \<le> 954"
  shows "\<exists>s' D'. for_each cs (iappend i) s = Ok () s' \<and> fs_inv s' D' T (\<sigma>(i := \<sigma> i @ concat cs)) \<and> freeinode s' = freeinode s"
  using assms
proof (induction cs arbitrary: s D \<sigma>)
  case Nil
  then show ?case by auto
next
  case (Cons c cs)
  have "blocks_of (\<sigma>(i := \<sigma> i @ c)) (freeinode s) \<le> blocks_of (\<sigma>(i := \<sigma> i @ concat (c # cs))) (freeinode s)" by (rule blocks_of_mono) simp
  also note Cons.prems(6)
  finally have room: "blocks_of (\<sigma>(i := \<sigma> i @ c)) (freeinode s) \<le> 954" .
  have len: "length (\<sigma> i) + length c \<le> 268 * 1024" using Cons.prems(5) by simp
  obtain s1 D1 where 1: "iappend i c s = Ok () s1" "fs_inv s1 D1 T (\<sigma>(i := \<sigma> i @ c))" "freeinode s1 = freeinode s"
    using iappend_run [OF Cons.prems(1-4) len room] by (elim exE conjE) (rule that)
  let ?\<sigma> = "\<sigma>(i := \<sigma> i @ c)"
  have u: "?\<sigma>(i := ?\<sigma> i @ concat cs) = \<sigma>(i := \<sigma> i @ concat (c # cs))" by simp
  have pre: "i < freeinode s1" "freeinode s1 \<le> 200" "length (?\<sigma> i) + length (concat cs) \<le> 268 * 1024" using Cons.prems(3-5) 1(3) by simp_all
  have room': "blocks_of (?\<sigma>(i := ?\<sigma> i @ concat cs)) (freeinode s1) \<le> 954" unfolding u 1(3) by (rule Cons.prems(6))
  obtain s2 D2 where 2: "for_each cs (iappend i) s1 = Ok () s2" "fs_inv s2 D2 T (\<sigma>(i := \<sigma> i @ concat (c # cs)))" "freeinode s2 = freeinode s1"
    using Cons.IH [OF 1(2) Cons.prems(2) pre room'] unfolding u by (elim exE conjE) (rule that)
  have "for_each (c # cs) (iappend i) s = Ok () s2" "freeinode s2 = freeinode s" using 1(1,3) 2(1,3) by simp_all
  then show ?case using 2(2) by blast
qed

lemma file_run:
  assumes inv: "fs_inv s D mk_type (contents fs)" and n: "freeinode s = length fs + 2" and fit: "files_fit (fs @ [f])"
  shows "\<exists>s' D'. mk_file 1 f s = Ok () s' \<and> fs_inv s' D' mk_type (contents (fs @ [f])) \<and> freeinode s' = length fs + 3"
proof -
  obtain path cs where f: "f = (path, Some cs)" and slash: "of_char CHR ''/'' \<notin> set (mk_shortname path)" and size: "length (concat cs) \<le> 268 * 1024"
    using fit by (cases f) (auto simp: files_fit_def)
  have l: "length fs \<le> 197" using fit by (simp add: files_fit_def)
  have "length fs + 3 = length (fs @ [f]) + 2" by simp
  then have room: "blocks_of (contents (fs @ [f])) (length fs + 3) \<le> 954" using fit unfolding files_fit_def by metis
  let ?i = "length fs + 2" and ?e = "make_dirent (of_nat (length fs + 2)) (file_name f)"
  have same: "mk_type(freeinode s := T_FILE) = mk_type" "(contents fs)(freeinode s := []) = contents fs"
    by (intro fun_upd_idem; simp add: n mk_type_def contents_def)+
  have fi: "1 \<le> freeinode s" "freeinode s < 200" using l n by simp_all
  obtain s1 D1 where 1: "mk_ialloc T_FILE s = Ok ?i s1" "fs_inv s1 D1 mk_type (contents fs)" "freeinode s1 = length fs + 3"
    using ialloc_run [OF inv fi, of T_FILE, unfolded same] n by (elim exE conjE) (rule that, simp_all add: numeral_3_eq_3)
  let ?\<sigma> = "(contents fs)(1 := contents fs 1 @ ?e)"
  have \<sigma>: "?\<sigma>(?i := ?\<sigma> ?i @ concat cs) = contents (fs @ [f])" unfolding contents_snoc by (auto simp: contents_def file_data_def f fun_eq_iff)
  have "blocks_of ?\<sigma> (length fs + 3) \<le> blocks_of (contents (fs @ [f])) (length fs + 3)" unfolding \<sigma> [symmetric] by (rule blocks_of_mono) simp
  then have room1: "blocks_of ?\<sigma> (freeinode s1) \<le> 954" using room 1(3) by simp
  have pre1: "1 < freeinode s1" "freeinode s1 \<le> 200" "length (contents fs 1) + length ?e \<le> 268 * 1024" using 1(3) l by (simp_all add: contents_def)
  obtain s2 D2 where 2: "iappend 1 ?e s1 = Ok () s2" "fs_inv s2 D2 mk_type ?\<sigma>" "freeinode s2 = length fs + 3"
    using iappend_run [OF 1(2) order_refl pre1 room1] 1(3) by auto
  have pre2: "1 \<le> ?i" "?i < freeinode s2" "freeinode s2 \<le> 200" "length (?\<sigma> ?i) + length (concat cs) \<le> 268 * 1024"
    "blocks_of (?\<sigma>(?i := ?\<sigma> ?i @ concat cs)) (freeinode s2) \<le> 954"
    unfolding \<sigma> using 2(3) l size room by (simp_all add: contents_def)
  obtain s3 D3 where 3: "for_each cs (iappend ?i) s2 = Ok () s3" "fs_inv s3 D3 mk_type (contents (fs @ [f]))" "freeinode s3 = freeinode s2"
    using chunks_run [OF 2(2) pre2] unfolding \<sigma> by (elim exE conjE) (rule that)
  have "mk_file 1 f s = Ok () s3"
    using 1(1) 2(1) 3(1) slash by (simp add: mk_file_def f file_name_def kop_simps)
  then show ?thesis using 3(2,3) 2(3) by auto
qed

lemma files_run:
  assumes "fs_inv s D mk_type (contents [])" and "freeinode s = 2" and "files_fit fs"
  shows "\<exists>s' D'. for_each fs (mk_file 1) s = Ok () s' \<and> fs_inv s' D' mk_type (contents fs) \<and> freeinode s' = length fs + 2"
  using assms(3)
proof (induction fs rule: rev_induct)
  case Nil
  then show ?case using assms(1,2) by auto
next
  case (snoc f fs)
  obtain s1 D1 where 1: "for_each fs (mk_file 1) s = Ok () s1" "fs_inv s1 D1 mk_type (contents fs)" "freeinode s1 = length fs + 2"
    using snoc.IH [OF files_fit_butlast [OF snoc.prems]] by (elim exE conjE) (rule that)
  obtain s2 D2 where "mk_file 1 f s1 = Ok () s2" "fs_inv s2 D2 mk_type (contents (fs @ [f]))" "freeinode s2 = length fs + 3"
    using file_run [OF 1(2,3) snoc.prems] by (elim exE conjE) (rule that)
  then show ?case using 1(1) by (auto simp: for_each_append kop_simps)
qed

section \<open>The beginning and the end\<close>

lemma replicate_update: "(replicate m z)[n := z] = replicate m z"
  by (cases "n < m") (simp_all add: list_update_same_conv list_update_beyond)

lemma zero_loop: "fsimg s = [] \<Longrightarrow> for_each [0..<n] (\<lambda>i. wsect i zeroes) s = Ok () (s\<lparr>fsimg := replicate n zeroes\<rparr>)"
proof (induction n)
  case 0
  then show ?case by simp
next
  case (Suc n)
  have "(replicate n zeroes @ replicate (n + 1 - length (replicate n zeroes)) zeroes)[n := zeroes] = (replicate (Suc n) zeroes)[n := zeroes]"
    by (simp add: replicate_append_same)
  also have "\<dots> = replicate (Suc n) zeroes" by (rule replicate_update)
  finally have "(replicate n zeroes @ replicate (n + 1 - length (replicate n zeroes)) zeroes)[n := zeroes] = replicate (Suc n) zeroes" .
  then have "wsect n zeroes (s\<lparr>fsimg := replicate n zeroes\<rparr>) = Ok () (s\<lparr>fsimg := replicate (Suc n) zeroes\<rparr>)" by (simp add: wsect_def)
  then show ?case using Suc by (simp add: for_each_append kop_simps)
qed

lemma length_sb_bytes [simp]: "length (sb_bytes x) = 32"
  by (simp add: sb_bytes_def)

lemma get_zero_dinode: "off + 64 \<le> 1024 \<Longrightarrow> get_dinode zeroes off dinode0 = dinode0"
proof -
  assume "off + 64 \<le> 1024"
  then have "bytes_at zeroes off 64 = replicate 64 0" by (simp add: bytes_at_def zeroes_def BSIZE_def)
  moreover have "dinode_bytes dinode0 = replicate 64 0" by (simp add: dinode_bytes_def dinode0_def NDIRECT_def numeral_eq_Suc)
  moreover have "disk_form dinode0" by (simp add: disk_form_def dinode0_def NDIRECT_def)
  ultimately show ?thesis using get_dinode_at [of zeroes off dinode0] get_dinode_bytes [of dinode0 dinode0] from_disk_form [of dinode0]
    by (simp add: disk_form_def)
qed

lemma fs_inv_init:
  "fs_inv \<lparr>fsimg = (replicate 1000 zeroes)[1 := put_bytes zeroes 0 (sb_bytes mk_sb)], freeinode = 1, freeblock = 46\<rparr> (\<lambda>_. dinode0) T (\<lambda>_. [])"
proof -
  let ?bl = "(replicate 1000 zeroes)[1 := put_bytes zeroes 0 (sb_bytes mk_sb)]"
  have "length (?bl ! b) = 1024" if "b < 1000" for b using that by (simp add: nth_list_update)
  then have "data_inv ?bl 46 {1..<1} (\<lambda>_. dinode0) (\<lambda>_. nb 0) (\<lambda>_. 12 < nb 0) (\<lambda>_. [])"
    by (simp add: data_inv_def slots_of_def)
  moreover have "itab ?bl (\<lambda>_. dinode0)"
    unfolding itab_def
  proof (intro allI impI)
    fix i :: nat assume "i < 208"
    moreover have "i mod 16 * 64 + 64 \<le> 1024" using mod_less_divisor [of 16 i] by linarith
    ultimately show "get_dinode (?bl ! (32 + i div 16)) (i mod 16 * 64) dinode0 = dinode0" by (simp add: get_zero_dinode)
  qed
  moreover have "meta ?bl" by (simp add: meta_def)
  ultimately show ?thesis by (simp add: fs_inv_def blocks_of_def)
qed

lemma mkfs_start:
  "\<exists>s D. thn (modify (\<lambda>s. \<lparr>fsimg = [], freeinode = 1, freeblock = nmeta\<rparr>)) (
     thn (for_each [0..<FSSIZE] (\<lambda>i. wsect i zeroes)) (
     thn (wsect 1 (put_bytes zeroes 0 (sb_bytes mk_sb))) (
     bnd (mk_ialloc T_DIR) f))) u = f 1 s \<and> fs_inv s D mk_type (\<lambda>_. []) \<and> freeinode s = 2"
proof -
  let ?s = "\<lparr>fsimg = (replicate 1000 zeroes)[1 := put_bytes zeroes 0 (sb_bytes mk_sb)], freeinode = 1, freeblock = 46\<rparr>"
  have same: "mk_type(freeinode ?s := T_DIR) = mk_type" "(\<lambda>_ :: nat. [])(freeinode ?s := []) = (\<lambda>_. [])" by (auto simp: mk_type_def)
  have fi: "1 \<le> freeinode ?s" "freeinode ?s < 200" by simp_all
  obtain s D where "mk_ialloc T_DIR ?s = Ok 1 s" "fs_inv s D mk_type (\<lambda>_. [])" "freeinode s = 2"
    using ialloc_run [OF fs_inv_init [of mk_type] fi, of T_DIR, unfolded same] by (elim exE conjE) (rule that, simp_all add: numeral_2_eq_2)
  then show ?thesis by (intro exI [of _ s] exI [of _ D]) (simp add: kop_simps zero_loop FSSIZE_def mk_layout)
qed

text \<open>The bitmap.\<close>

definition bitmap :: "nat \<Rightarrow> uchar list" where
  "bitmap n = fold (\<lambda>i buf. buf[i div 8 := buf ! (i div 8) OR push_bit (i mod 8) 1]) [0..<n] zeroes"

lemma bitmap_bit: "n \<le> 8192 \<Longrightarrow> length (bitmap n) = 1024 \<and> (\<forall>b < 8192. bit (bitmap n ! (b div 8)) (b mod 8) \<longleftrightarrow> b < n)"
proof (induction n)
  case 0
  have "zeroes ! (b div 8) = 0" if "b < 8192" for b using that by (simp add: zeroes_def BSIZE_def)
  then show ?case by (simp add: bitmap_def)
next
  case (Suc n)
  let ?B = "bitmap n"
  have s: "bitmap (Suc n) = ?B[n div 8 := ?B ! (n div 8) OR push_bit (n mod 8) 1]" by (simp add: bitmap_def)
  have len: "length ?B = 1024" and IH: "\<And>b. b < 8192 \<Longrightarrow> bit (?B ! (b div 8)) (b mod 8) \<longleftrightarrow> b < n" using Suc by simp_all
  have "bit (bitmap (Suc n) ! (b div 8)) (b mod 8) \<longleftrightarrow> b < Suc n" if b: "b < 8192" for b
  proof (cases "b div 8 = n div 8")
    case True
    then have e: "b mod 8 = n mod 8 \<longleftrightarrow> b = n" by (metis div_mult_mod_eq)
    have "bit (push_bit (n mod 8) 1 :: uchar) (b mod 8) \<longleftrightarrow> b = n"
      unfolding e [symmetric] by (auto simp: bit_simps)
    then show ?thesis using True b IH [OF b] len s by (auto simp: bit_or_iff)
  next
    case False
    then have "b \<noteq> n" by auto
    then show ?thesis using False b IH [OF b] s by (auto simp: less_Suc_eq)
  qed
  then show ?case using len s by simp
qed

lemma bitmap_free: "n \<le> 8192 \<Longrightarrow> b < 8192 \<Longrightarrow> bitmap n ! (b div 8) AND bit_mask b = 0 \<longleftrightarrow> n \<le> b"
  using bitmap_bit [of n] by (auto simp: bit_mask_def bit_iff_and_push_bit_not_eq_0 not_less)

lemma balloc_run:
  assumes "length (fsimg s) = 1000" and "n < 8192"
  shows "mk_balloc n s = Ok () (s\<lparr>fsimg := (fsimg s)[45 := bitmap n]\<rparr>)"
  using assms by (simp add: mk_balloc_def bitmap_def mk_sb_def mk_layout)

text \<open>The bytes in the first \<open>m\<close> blocks of a file.\<close>

definition block_bytes :: "uchar list list \<Rightarrow> inode \<Rightarrow> nat \<Rightarrow> uchar list" where
  "block_bytes bl din m = concat (map (\<lambda>f. bl ! slot_addr bl din f) [0..<m])"

lemma concat_slices: "concat (map (\<lambda>f. take 1024 (drop (1024 * f) z)) [0..<j]) = take (1024 * j) z"
proof (induction j)
  case (Suc j)
  have "take (1024 * Suc j) z = take (1024 * j) z @ take 1024 (drop (1024 * j) z)" using take_add [of "1024 * j" 1024 z] by (simp add: add.commute)
  then show ?case using Suc by simp
qed simp

lemma concat_chunks: "length bs \<le> 1024 * m \<Longrightarrow> concat (map (chunk bs) [0..<m]) = bs @ replicate (1024 * m - length bs) 0"
proof -
  assume m: "length bs \<le> 1024 * m"
  let ?z = "bs @ replicate (1024 * m - length bs) 0"
  have len: "length ?z = 1024 * m" using m by simp
  have ch: "chunk bs f = take 1024 (drop (1024 * f) ?z)" if "f < m" for f
    using that m by (auto simp: chunk_def zeroes_def BSIZE_def min_def)
  have e: "map (chunk bs) [0..<m] = map (\<lambda>f. take 1024 (drop (1024 * f) ?z)) [0..<m]" using ch by (intro map_cong [OF refl]) auto
  show ?thesis unfolding e concat_slices by (rule take_all) (simp only: len)
qed

lemma data_bytes:
  assumes "data_inv bl fb I D M H \<sigma>" and "i \<in> I" and "length (\<sigma> i) \<le> 1024 * M i"
  shows "block_bytes bl (D i) (M i) = \<sigma> i @ replicate (1024 * M i - length (\<sigma> i)) 0"
proof -
  have e: "map (\<lambda>f. bl ! slot_addr bl (D i) f) [0..<M i] = map (chunk (\<sigma> i)) [0..<M i]"
    using data_invD(8) [OF assms(1,2)] by simp
  show ?thesis unfolding block_bytes_def e by (rule concat_chunks [OF assms(3)])
qed

section \<open>The image is a file system\<close>

text \<open>Where the kernel finds an inode.\<close>

definition disk_inode :: "uchar list list \<Rightarrow> nat \<Rightarrow> inode" where
  "disk_inode bl i = get_dinode (bl ! unat (IBLOCK (of_nat i) (superblock_of (bl ! 1)))) (dinode_off (of_nat i)) dinode0"

lemma superblock_of_bytes: "superblock_of (put_bytes zeroes 0 (sb_bytes x)) = x"
proof -
  have "get32 (put_bytes zeroes 0 (sb_bytes x)) (4 * k) = [sb_magic x, sb_size x, sb_nblocks x, sb_ninodes x, sb_nlog x, sb_logstart x, sb_inodestart x, sb_bmapstart x] ! k"
    if k: "k < 8" for k
  proof -
    have "bytes_at (put_bytes zeroes 0 (sb_bytes x)) (4 * k) 4 = bytes_at (sb_bytes x) (4 * k) 4"
      using k by (simp add: put_bytes_def bytes_at_def)
    then show ?thesis using k by (simp add: get32_def sb_bytes_def word_bytes_at le_word_le_bytes take_bit_word_eq_self del: concat.simps list.map)
  qed
  note g = this
  show ?thesis using g [of 0] g [of 1] g [of 2] g [of 3] g [of 4] g [of 5] g [of 6] g [of 7] by (simp add: superblock_of_def)
qed

lemma nb_room: "n \<le> 1024 * nb n"
proof -
  have "n + 1023 < 1024 * (nb n + 1)" unfolding nb_def using dividend_less_div_times [of 1024 "n + 1023"] by simp
  then show ?thesis by simp
qed

lemma root_entries_run:
  assumes inv: "fs_inv s D mk_type (\<lambda>_. [])" and n: "freeinode s = 2"
  shows "\<exists>s' D'. thn (iappend 1 (make_dirent 1 (map of_char ''.''))) (thn (iappend 1 (make_dirent 1 (map of_char ''..''))) k) s = k s' \<and>
    fs_inv s' D' mk_type (contents []) \<and> freeinode s' = 2"
proof -
  let ?e = "\<lambda>nm. make_dirent 1 (map of_char nm)" and ?\<sigma> = "\<lambda>bs. (\<lambda>_ :: nat. [])(1 := bs)"
  have b: "blocks_of (?\<sigma> bs) 2 \<le> 954" if "length bs \<le> 1024" for bs
  proof -
    have "nb (length bs) \<le> nb 1024" by (rule nb_mono) (rule that)
    then have "slots (nb (length bs)) \<le> 1" by (simp add: nb_def slots_def)
    then show ?thesis by (simp add: blocks_of_def numeral_2_eq_2)
  qed
  have s: "(\<lambda>_. [])(1 := [] @ bs) = ?\<sigma> bs" "(?\<sigma> bs)(1 := ?\<sigma> bs 1 @ cs) = ?\<sigma> (bs @ cs)" for bs cs by simp_all
  have pre: "1 < freeinode s" "freeinode s \<le> 200" "length ([] :: uchar list) + length (?e ''.'') \<le> 268 * 1024" "blocks_of (?\<sigma> ([] @ ?e ''.'')) (freeinode s) \<le> 954"
    using n b [of "[] @ ?e ''.''"] by simp_all
  obtain s1 D1 where 1: "iappend 1 (?e ''.'') s = Ok () s1" "fs_inv s1 D1 mk_type (?\<sigma> (?e ''.''))" "freeinode s1 = freeinode s"
    using iappend_run [OF inv order_refl pre] unfolding s by (elim exE conjE) (rule that)
  have pre2: "1 < freeinode s1" "freeinode s1 \<le> 200" "length (?\<sigma> (?e ''.'') 1) + length (?e ''..'') \<le> 268 * 1024"
    "blocks_of ((?\<sigma> (?e ''.''))(1 := ?\<sigma> (?e ''.'') 1 @ ?e ''..'')) (freeinode s1) \<le> 954"
    unfolding s using 1(3) n b [of "?e ''.'' @ ?e ''..''"] by simp_all
  obtain s2 D2 where 2: "iappend 1 (?e ''..'') s1 = Ok () s2" "fs_inv s2 D2 mk_type (?\<sigma> (?e ''.'' @ ?e ''..''))" "freeinode s2 = freeinode s1"
    using iappend_run [OF 1(2) order_refl pre2] unfolding s by (elim exE conjE) (rule that)
  have "?\<sigma> (?e ''.'' @ ?e ''..'') = contents []" by (auto simp: contents_def root_bytes_def fun_eq_iff)
  then show ?thesis using 1(1,3) 2 n by (intro exI [of _ s2] exI [of _ D2]) (simp add: kop_simps)
qed

lemma fix_root_run:
  assumes inv: "fs_inv s D mk_type (contents files)" and n: "freeinode s = length files + 2" and l: "length files \<le> 198"
  shows "\<exists>bl D'. mk_fix_root 1 s = Ok () (s\<lparr>fsimg := bl\<rparr>) \<and>
    data_inv bl (freeblock s) {1..<length files + 2} D' (\<lambda>i. nb (length (contents files i))) (\<lambda>i. 12 < nb (length (contents files i))) (contents files) \<and>
    itab bl D' \<and> meta bl \<and> has_type (D' 1) T_DIR ((16 * (length files + 2) div 1024 + 1) * 1024) \<and> (\<forall>i. i \<noteq> 1 \<longrightarrow> D' i = D i)"
proof -
  note v = fs_invD [OF inv] and dv = data_invD [OF fs_invD(1) [OF inv]]
  let ?n = "(16 * (length files + 2) div 1024 + 1) * 1024"
  have one: "1 \<in> {1..<freeinode s}" using n by simp
  have c1: "length (contents files 1) = 16 * (length files + 2)" by (simp add: contents_def)
  have h: "has_type (D 1) T_DIR (16 * (length files + 2))" using bspec [OF v(3) one] c1 by (simp add: mk_type_def)
  have sz: "unat (i_size (D 1)) = 16 * (length files + 2)" using h l unfolding has_type_def by (simp only: unat_of_nat) simp
  define din where "din = (D 1)\<lparr>i_size := of_nat ?n\<rparr>"
  let ?D = "D(1 := din)"
  have inv1: "data_inv (fsimg s) (freeblock s) {1..<freeinode s} ?D (\<lambda>i. nb (length (contents files i))) (\<lambda>i. 12 < nb (length (contents files i))) (contents files)"
    unfolding din_def by (rule data_inv_size [OF v(1) one])
  have oth: "\<forall>j. j \<noteq> 1 \<longrightarrow> D j = ?D j" by simp
  have df: "disk_form (?D 1)" using dv(4) [OF one] by (simp add: din_def disk_form_def)
  have small: "(1 :: nat) < 208" "46 \<le> freeblock s" using v(5) by simp_all
  obtain bl where w: "winode 1 (?D 1) s = Ok () (s\<lparr>fsimg := bl\<rparr>)"
    "data_inv bl (freeblock s) {1..<freeinode s} ?D (\<lambda>i. nb (length (contents files i))) (\<lambda>i. 12 < nb (length (contents files i))) (contents files)"
    "itab bl ?D" "meta bl"
    using winode_fs [OF inv1 v(2) small(1) oth df small(2) v(6)] by (elim exE conjE) (rule that)
  have "mk_fix_root 1 s = Ok () (s\<lparr>fsimg := bl\<rparr>)"
    using rinode_run [OF small(1) dv(1) v(2)] w(1) sz by (simp add: mk_fix_root_def kop_simps din_def BSIZE_def)
  moreover have "has_type (?D 1) T_DIR ?n" using h by (simp add: din_def has_type_def)
  ultimately show ?thesis using w(2-4) unfolding n by (intro exI [of _ bl] exI [of _ ?D]) simp
qed

lemma mkfs_run:
  assumes fit: "files_fit files"
  shows "\<exists>s D. mkfs files u = Ok () (s\<lparr>fsimg := (fsimg s)[45 := bitmap (freeblock s)]\<rparr>) \<and>
    data_inv (fsimg s) (freeblock s) {1..<length files + 2} D (\<lambda>i. nb (length (contents files i))) (\<lambda>i. 12 < nb (length (contents files i))) (contents files) \<and>
    itab (fsimg s) D \<and> meta (fsimg s) \<and> freeblock s = 46 + blocks_of (contents files) (length files + 2) \<and>
    has_type (D 1) T_DIR ((16 * (length files + 2) div 1024 + 1) * 1024) \<and>
    (\<forall>i. 2 \<le> i \<and> i < length files + 2 \<longrightarrow> has_type (D i) T_FILE (length (contents files i))) \<and>
    (\<forall>i < 208. i = 0 \<or> length files + 2 \<le> i \<longrightarrow> D i = dinode0)"
proof -
  have l: "length files \<le> 198" using fit by (simp add: files_fit_def)
  let ?rest = "thn (for_each files (mk_file 1)) (thn (mk_fix_root 1) (bnd (gets freeblock) mk_balloc))"
  let ?f = "\<lambda>rootino. if rootino \<noteq> unat ROOTINO then kpanic ''assert''
     else thn (iappend rootino (make_dirent (xshort (of_nat rootino)) (map of_char ''.''))) (
          thn (iappend rootino (make_dirent (xshort (of_nat rootino)) (map of_char ''..''))) (
          thn (for_each files (mk_file rootino)) (thn (mk_fix_root rootino) (bnd (gets freeblock) mk_balloc))))"
  obtain s1 D1 where 1: "mkfs files u = ?f 1 s1" "fs_inv s1 D1 mk_type (\<lambda>_. [])" "freeinode s1 = 2"
    using mkfs_start [of ?f u, folded mkfs_def] by (elim exE conjE) (rule that)
  obtain s2 D2 where 2: "?f 1 s1 = ?rest s2" "fs_inv s2 D2 mk_type (contents [])" "freeinode s2 = 2"
    using root_entries_run [OF 1(2,3), of ?rest] by (auto simp: ROOTINO_def)
  obtain s3 D3 where 3: "for_each files (mk_file 1) s2 = Ok () s3" "fs_inv s3 D3 mk_type (contents files)" "freeinode s3 = length files + 2"
    using files_run [OF 2(2,3) fit] by (elim exE conjE) (rule that)
  obtain bl D4 where 4: "mk_fix_root 1 s3 = Ok () (s3\<lparr>fsimg := bl\<rparr>)"
    "data_inv bl (freeblock s3) {1..<length files + 2} D4 (\<lambda>i. nb (length (contents files i))) (\<lambda>i. 12 < nb (length (contents files i))) (contents files)"
    "itab bl D4" "meta bl" "has_type (D4 1) T_DIR ((16 * (length files + 2) div 1024 + 1) * 1024)" "\<forall>i. i \<noteq> 1 \<longrightarrow> D4 i = D3 i"
    using fix_root_run [OF 3(2,3) l] by (elim exE conjE) (rule that)
  note v = fs_invD [OF 3(2), unfolded 3(3)]
  let ?s = "s3\<lparr>fsimg := bl\<rparr>"
  have "length (fsimg ?s) = 1000" "freeblock ?s < 8192" using data_invD(1,3) [OF 4(2)] by simp_all
  from balloc_run [OF this] have "mkfs files u = Ok () (?s\<lparr>fsimg := (fsimg ?s)[45 := bitmap (freeblock ?s)]\<rparr>)"
    using 1(1) 2(1) 3(1) 4(1) by (simp add: kop_simps)
  moreover have "has_type (D4 i) T_FILE (length (contents files i))" if i: "2 \<le> i" "i < length files + 2" for i
  proof -
    have "has_type (D3 i) (mk_type i) (length (contents files i))" using v(3) i by (intro bspec [OF v(3)]) simp
    then show ?thesis using 4(6) i(1) by (simp add: mk_type_def)
  qed
  moreover have "\<forall>i < 208. i = 0 \<or> length files + 2 \<le> i \<longrightarrow> D4 i = dinode0" using v(4) 4(6) by auto
  ultimately show ?thesis using 4(2-5) v(5) by (intro exI [of _ ?s] exI [of _ D4]) simp
qed

text \<open>The slots of all files, and the blocks they are in.\<close>

definition file_slots :: "host_file list \<Rightarrow> (nat \<times> nat) set" where
  "file_slots files = slots_of {1..<length files + 2} (\<lambda>i. nb (length (contents files i))) (\<lambda>i. 12 < nb (length (contents files i)))"

lemma card_used: "m \<le> 268 \<Longrightarrow> finite {f. used m h f} \<and> card {f. used m h f} = m + (if h then 1 else 0)"
proof -
  assume "m \<le> 268"
  moreover have "{f. used m h f} = {..<m} \<union> (if h then {268} else {})" by (auto simp: used_def)
  ultimately show ?thesis by (auto simp: card_insert_if)
qed

lemma card_file_slots:
  assumes "\<And>i. 1 \<le> i \<Longrightarrow> i < length files + 2 \<Longrightarrow> nb (length (contents files i)) \<le> 268"
  shows "card (file_slots files) = blocks_of (contents files) (length files + 2)"
proof -
  let ?m = "\<lambda>i. nb (length (contents files i))"
  have e: "file_slots files = (SIGMA i:{1..<length files + 2}. {f. used (?m i) (12 < ?m i) f})" by (auto simp: file_slots_def slots_of_def)
  have c: "finite {f. used (?m i) (12 < ?m i) f} \<and> card {f. used (?m i) (12 < ?m i) f} = slots (?m i)" if "i \<in> {1..<length files + 2}" for i
    using card_used [OF assms] that by (simp add: slots_def)
  have "card (file_slots files) = (\<Sum>i \<in> {1..<length files + 2}. card {f. used (?m i) (12 < ?m i) f})"
    unfolding e using c by (intro card_SigmaI) simp_all
  also have "\<dots> = (\<Sum>i \<in> {1..<length files + 2}. slots (?m i))" by (rule sum.cong [OF refl]) (simp only: c)
  finally show ?thesis by (simp add: blocks_of_def)
qed

lemma disk_inode_eq:
  assumes "itab bl D" and "meta bl" and "i < 200"
  shows "disk_inode bl i = D i"
proof -
  have sb: "superblock_of (bl ! 1) = mk_sb" using assms(2) superblock_of_bytes [of mk_sb] by (simp add: meta_def)
  have "unat (of_nat i :: uint) = i" using assms(3) by (simp add: unat_small)
  then have "dinode_off (of_nat i) = i mod 16 * 64" by (simp add: dinode_off_def mk_layout)
  moreover have "unat (IBLOCK (of_nat i) mk_sb) = 32 + i div 16" using mk_iblock_eq [of i] assms(3) by (simp add: mk_iblock_def)
  ultimately show ?thesis using assms(1,3) unfolding disk_inode_def sb by (simp add: itab_def)
qed

text \<open>The image with its bitmap.\<close>

lemma final_image:
  assumes "data_inv bl0 fb I D M H \<sigma>" and "itab bl0 D" and "meta bl0" and "46 \<le> fb"
  defines "bl \<equiv> bl0[45 := bitmap fb]"
  shows "data_inv bl fb I D M H \<sigma>" and "itab bl D" and "meta bl" and "bl ! 45 = bitmap fb"
proof -
  note d = data_invD [OF assms(1)]
  have fb: "fb \<le> 8192" using d(3) by simp
  have len: "length bl = 1000" "\<forall>b < 1000. length (bl ! b) = 1024" using d(1,2) bitmap_bit [OF fb] by (simp_all add: bl_def nth_list_update)
  show "data_inv bl fb I D M H \<sigma>" using len assms(4) by (intro data_inv_frame [OF assms(1)]) (simp_all add: bl_def)
  show "meta bl" by (rule meta_frame [OF assms(3)]) (simp add: bl_def)
  show "bl ! 45 = bitmap fb" using d(1) by (simp add: bl_def)
  show "itab bl D" unfolding itab_def
  proof (intro allI impI)
    fix i :: nat assume i: "i < 208"
    then have "32 + i div 16 \<noteq> 45" using div_less_iff_less_mult [of 16 i 13] by simp
    then show "get_dinode (bl ! (32 + i div 16)) (i mod 16 * 64) dinode0 = D i" using assms(2) i by (simp add: bl_def itab_def)
  qed
qed

text \<open>The files own all the blocks from \<^verbatim>\<open>nmeta\<close> on that were given away.\<close>

lemma owned_blocks:
  assumes inv: "data_inv bl fb {1..<length files + 2} D (\<lambda>i. nb (length (contents files i))) (\<lambda>i. 12 < nb (length (contents files i))) \<sigma>"
    and fb: "fb = 46 + blocks_of (contents files) (length files + 2)"
  shows "(\<lambda>(i, f). slot_addr bl (D i) f) ` file_slots files = {46..<fb}"
proof (rule card_subset_eq)
  let ?a = "\<lambda>(i, f). slot_addr bl (D i) f"
  have inj: "inj_on ?a (file_slots files)" using inv unfolding data_inv_def file_slots_def by simp
  have "nb (length (contents files i)) \<le> 268" if "1 \<le> i" "i < length files + 2" for i
    using data_invD(5) [OF inv, of i] that by (simp add: mapped_def)
  then have "card (file_slots files) = blocks_of (contents files) (length files + 2)" by (rule card_file_slots)
  then show "card (?a ` file_slots files) = card {46..<fb}" using card_image [OF inj] fb by simp
  show "?a ` file_slots files \<subseteq> {46..<fb}" using data_invD(6) [OF inv] by (auto simp: file_slots_def slots_of_def)
qed simp

text \<open>
  C37 (\<^verbatim>\<open>mkfs.c\<close>): for files that fit, \<^verbatim>\<open>mkfs\<close> returns and the image is a well-formed file system in the kernel's format. It
  has \<^verbatim>\<open>FSSIZE\<close> blocks of \<^verbatim>\<open>BSIZE\<close> bytes; the kernel's \<^verbatim>\<open>readsb\<close> finds the super block, and an empty log; where the kernel looks
  for them, inode 1 is a directory, the next ones are the files, with one link and their size, and the others are free.
  The blocks of the root hold the entries for ``.'', ``..'' and every file in order and are zero behind them, those of a
  file hold its bytes. No block belongs to two files or twice to one, and the bitmap has marked exactly the blocks
  before the data and those that belong to a file. The size of the root is the next multiple of \<^verbatim>\<open>BSIZE\<close> above that of its
  entries, which is one block too many when they fill their blocks.
\<close>

theorem mkfs_wellformed:
  assumes "files_fit files"
  shows "\<exists>s. mkfs files u = Ok () s \<and>
    (let bl = fsimg s; n = length files + 2; ino = disk_inode bl; addr = (\<lambda>(i, f). slot_addr bl (ino i) f) in
      length bl = FSSIZE \<and> (\<forall>b < FSSIZE. length (bl ! b) = BSIZE) \<and>
      superblock_of (bl ! 1) = mk_sb \<and> get32 (bl ! unat (sb_logstart mk_sb)) 0 = 0 \<and>
      has_type (ino 1) T_DIR ((16 * n div BSIZE + 1) * BSIZE) \<and>
      (\<forall>k < length files. has_type (ino (k + 2)) T_FILE (length (file_data (files ! k)))) \<and>
      (\<forall>i < NINODES. i = 0 \<or> n \<le> i \<longrightarrow> i_type (ino i) = 0) \<and>
      block_bytes bl (ino 1) (nb (16 * n)) = root_bytes files @ replicate (1024 * nb (16 * n) - 16 * n) 0 \<and>
      (\<forall>k < length files. take (length (file_data (files ! k))) (block_bytes bl (ino (k + 2)) (nb (length (file_data (files ! k))))) = file_data (files ! k)) \<and>
      inj_on addr (file_slots files) \<and>
      (\<forall>b < BPB. bl ! unat (sb_bmapstart mk_sb) ! (b div 8) AND bit_mask b \<noteq> 0 \<longleftrightarrow> b < nmeta \<or> b \<in> addr ` file_slots files))"
proof -
  let ?n = "length files + 2" and ?\<sigma> = "contents files"
  obtain s D where run: "mkfs files u = Ok () (s\<lparr>fsimg := (fsimg s)[45 := bitmap (freeblock s)]\<rparr>)"
    and inv0: "data_inv (fsimg s) (freeblock s) {1..<?n} D (\<lambda>i. nb (length (?\<sigma> i))) (\<lambda>i. 12 < nb (length (?\<sigma> i))) ?\<sigma>"
    and tab0: "itab (fsimg s) D" and mt0: "meta (fsimg s)" and fb: "freeblock s = 46 + blocks_of ?\<sigma> ?n"
    and t1: "has_type (D 1) T_DIR ((16 * ?n div 1024 + 1) * 1024)" and tf: "\<forall>i. 2 \<le> i \<and> i < ?n \<longrightarrow> has_type (D i) T_FILE (length (?\<sigma> i))"
    and un: "\<forall>i < 208. i = 0 \<or> ?n \<le> i \<longrightarrow> D i = dinode0"
    using mkfs_run [OF assms, of u] by (elim exE conjE) (rule that)
  define bl where "bl = (fsimg s)[45 := bitmap (freeblock s)]"
  have fb46: "46 \<le> freeblock s" using fb by simp
  note fi = final_image [OF inv0 tab0 mt0 fb46, folded bl_def]
  note d = data_invD [OF fi(1)]
  have l: "?n \<le> 200" using assms by (simp add: files_fit_def)
  have ino: "disk_inode bl i = D i" if "i < 200" for i by (rule disk_inode_eq [OF fi(2,3) that])
  have slots: "(\<lambda>(i, f). slot_addr bl (disk_inode bl i) f) x = (\<lambda>(i, f). slot_addr bl (D i) f) x" if "x \<in> file_slots files" for x
    using that ino l by (auto simp: file_slots_def slots_of_def)
  have inj0: "inj_on (\<lambda>(i, f). slot_addr bl (D i) f) (file_slots files)" using fi(1) unfolding data_inv_def file_slots_def by simp
  have inj: "inj_on (\<lambda>(i, f). slot_addr bl (disk_inode bl i) f) (file_slots files)"
    by (rule inj_on_cong [THEN iffD1, OF _ inj0]) (rule slots [symmetric])
  have img: "(\<lambda>(i, f). slot_addr bl (disk_inode bl i) f) ` file_slots files = {46..<freeblock s}"
    unfolding owned_blocks [OF fi(1) fb, symmetric] by (rule image_cong [OF refl]) (rule slots)
  have bytes: "block_bytes bl (D i) (nb (length (?\<sigma> i))) = ?\<sigma> i @ replicate (1024 * nb (length (?\<sigma> i)) - length (?\<sigma> i)) 0" if "i \<in> {1..<?n}" for i
    by (rule data_bytes [OF fi(1) that]) (rule nb_room)
  have sb: "superblock_of (bl ! 1) = mk_sb" using fi(3) superblock_of_bytes [of mk_sb] by (simp add: meta_def)
  have c1: "?\<sigma> 1 = root_bytes files" and ck: "\<And>k. k < length files \<Longrightarrow> ?\<sigma> (k + 2) = file_data (files ! k)" by (simp_all add: contents_def)
  have log: "get32 (bl ! 2) 0 = 0" using fi(3) get32_zeroes [of 0] by (simp add: meta_def)
  have filei: "has_type (disk_inode bl (k + 2)) T_FILE (length (file_data (files ! k)))"
    "take (length (file_data (files ! k))) (block_bytes bl (disk_inode bl (k + 2)) (nb (length (file_data (files ! k))))) = file_data (files ! k)"
    if k: "k < length files" for k
  proof -
    have i: "disk_inode bl (k + 2) = D (k + 2)" using k l by (intro ino) simp
    show "has_type (disk_inode bl (k + 2)) T_FILE (length (file_data (files ! k)))"
      unfolding i ck [OF k, symmetric] using tf k by simp
    have "k + 2 \<in> {1..<?n}" using k by simp
    from bytes [OF this] show "take (length (file_data (files ! k))) (block_bytes bl (disk_inode bl (k + 2)) (nb (length (file_data (files ! k))))) = file_data (files ! k)"
      unfolding i ck [OF k] by simp
  qed
  have i1: "disk_inode bl 1 = D 1" by (rule ino) simp
  have root: "block_bytes bl (disk_inode bl 1) (nb (16 * ?n)) = root_bytes files @ replicate (1024 * nb (16 * ?n) - 16 * ?n) 0"
    using bytes [of 1] unfolding i1 c1 by simp
  have map: "bl ! 45 ! (b div 8) AND bit_mask b \<noteq> 0 \<longleftrightarrow> b < 46 \<or> b \<in> {46..<freeblock s}" if "b < 8192" for b
    unfolding fi(4) using bitmap_free [OF _ that, of "freeblock s"] d(3) fb46 by auto
  have free: "i_type (disk_inode bl i) = 0" if "i < 200" "i = 0 \<or> ?n \<le> i" for i
  proof -
    have "i < 208" using that(1) by simp
    then have "D i = dinode0" using un that(2) by blast
    then show ?thesis using ino [OF that(1)] by (simp add: dinode0_def)
  qed
  have layout: "unat (sb_logstart mk_sb) = 2" "unat (sb_bmapstart mk_sb) = 45" by (simp_all add: mk_sb_def mk_layout)
  have im: "fsimg (s\<lparr>fsimg := bl\<rparr>) = bl" by simp
  show ?thesis
    unfolding Let_def layout mk_layout FSSIZE_def NINODES_def BPB_def
  proof (rule exI [of _ "s\<lparr>fsimg := bl\<rparr>"], unfold im img, intro conjI)
    show "mkfs files u = Ok () (s\<lparr>fsimg := bl\<rparr>)" unfolding bl_def by (rule run)
    show "has_type (disk_inode bl 1) T_DIR ((16 * ?n div 1024 + 1) * 1024)" unfolding i1 by (rule t1)
    show "\<forall>b < 1024 * 8. (bl ! 45 ! (b div 8) AND bit_mask b \<noteq> 0) = (b < 46 \<or> b \<in> {46..<freeblock s})" using map by simp
    show "\<forall>i < 200. i = 0 \<or> ?n \<le> i \<longrightarrow> i_type (disk_inode bl i) = 0" using free by blast
  qed (((intro allI impI d(1,2) sb log filei root inj); assumption?)+)
qed

text \<open>The hypothesis holds of a list with one file, the two characters of which are written in one piece.\<close>

definition cat_files :: "host_file list" where
  "cat_files = [(map of_char ''user/_cat'', Some [[65, 66]])]"

lemma cat_files_fit: "files_fit cat_files"
  by (simp add: files_fit_def cat_files_def mk_shortname_def blocks_of_def contents_def file_data_def slots_def nb_def)

theorem mkfs_wellformed_witness:
  "files_fit cat_files \<and>
   (\<exists>s. mkfs cat_files \<lparr>fsimg = [], freeinode = 0, freeblock = 0\<rparr> = Ok () s \<and> has_type (disk_inode (fsimg s) 1) T_DIR 1024 \<and>
      has_type (disk_inode (fsimg s) 2) T_FILE 2)"
  using cat_files_fit mkfs_wellformed [OF cat_files_fit, of "\<lparr>fsimg = [], freeinode = 0, freeblock = 0\<rparr>"]
  by (auto simp: Let_def cat_files_def file_data_def BSIZE_def numeral_2_eq_2)

end
