(* ===== verification/Fsblocks.thy ===== *)
theory Fsblocks
  imports Txn
begin

text \<open>
  Block allocation (\<^verbatim>\<open>balloc\<close>, \<^verbatim>\<open>bfree\<close>, \<^verbatim>\<open>bzero\<close> of \<^verbatim>\<open>fs.c\<close>) inside a transaction. The locale \<open>txn_blocks\<close> is what the file
  system relies on: blocks can be read, changed through the log and released, and the file system sees the contents \<open>C\<close> of
  the blocks whatever the cache, the log and the disk hold.
\<close>

section \<open>What the file system needs of the log\<close>

text \<open>
  \<open>view C L H s\<close>: the blocks have the contents \<open>C\<close>, \<open>L\<close> are those the transaction has logged, \<open>H\<close> are the buffers the process
  holds. \<open>fr s t\<close>: nothing the file system keeps in memory has changed, the inode cache excepted, and nothing was written
  to the disk. \<open>cap\<close> is the number of blocks the log takes, \<open>home\<close> are the blocks outside the log.
\<close>

definition held_same :: "nat set \<Rightarrow> 'z fsst_scheme \<Rightarrow> 'z fsst_scheme \<Rightarrow> bool" where
  "held_same H s t \<longleftrightarrow> inodes t = inodes s \<and> (\<forall>c \<in> H. b_blockno (bufs t c) = b_blockno (bufs s c))"

locale txn_blocks =
  fixes view :: "(nat \<Rightarrow> uchar list) \<Rightarrow> uint set \<Rightarrow> nat set \<Rightarrow> 'z fsst_scheme \<Rightarrow> bool"
    and fr :: "'z fsst_scheme \<Rightarrow> 'z fsst_scheme \<Rightarrow> bool" and dv :: uint and cap :: nat and home :: "uint \<Rightarrow> bool"
  assumes bread_law: "view C L H s \<Longrightarrow> home x \<Longrightarrow> \<forall>b \<in> H. b_blockno (bufs s b) \<noteq> x \<Longrightarrow> card L + card H < NBUF \<Longrightarrow>
      \<exists>b t. bread dv x s = Ok b t \<and> view C L (insert b H) t \<and> fr s t \<and> held_same H s t \<and> b \<notin> H \<and> b_blockno (bufs t b) = x"
    and write_law: "view C L H s \<Longrightarrow> b \<in> H \<Longrightarrow> x = b_blockno (bufs s b) \<Longrightarrow> home x \<Longrightarrow> length d = BSIZE \<Longrightarrow> card L < cap \<Longrightarrow>
      g (bufs s b) = (bufs s b)\<lparr>b_data := d\<rparr> \<Longrightarrow>
      \<exists>u t. upd_buf b g s = Ok () u \<and> log_write b u = Ok () t \<and> view (C(unat x := d)) (insert x L) H t \<and> fr s t \<and> held_same H s t"
    and brelse_law: "view C L H s \<Longrightarrow> b \<in> H \<Longrightarrow>
      \<exists>t. brelse b s = Ok () t \<and> view C L (H - {b}) t \<and> fr s t \<and> held_same H s t"
    and data_law: "view C L H s \<Longrightarrow> b \<in> H \<Longrightarrow> b_data (bufs s b) = C (unat (b_blockno (bufs s b)))"
    and size_law: "view C L H s \<Longrightarrow> length (C n) = BSIZE"
    and inode_law: "view C L H s \<Longrightarrow> view C L H (s\<lparr>inodes := I\<rparr>)"
    and fr_refl: "fr s (s\<lparr>inodes := I\<rparr>)"
    and fr_trans: "fr s t \<Longrightarrow> fr t u \<Longrightarrow> fr s u"
    and fr_sb: "fr s t \<Longrightarrow> sb t = sb s"
    and home_small: "home x \<Longrightarrow> unat x < 2 ^ 31"
    and cap_small: "view C L H s \<Longrightarrow> cap < NBUF" and finite_logged: "view C L H s \<Longrightarrow> finite L" and finite_held: "view C L H s \<Longrightarrow> finite H"
    and myproc_law: "view C L H s \<Longrightarrow> \<exists>q t. myproc s = Ok q t \<and> view C L H t \<and> fr s t \<and> held_same H s t"

section \<open>The bitmap\<close>

definition blk_free :: "superblock \<Rightarrow> (nat \<Rightarrow> uchar list) \<Rightarrow> nat \<Rightarrow> bool" where
  "blk_free x C b \<longleftrightarrow> C (unat (BBLOCK (of_nat b) x)) ! (b mod BPB div 8) AND bit_mask (b mod BPB) = 0"

text \<open>The bitmap blocks are outside the log; a free block is too, and it is not a bitmap block.\<close>

definition bitmap_ok :: "(uint \<Rightarrow> bool) \<Rightarrow> superblock \<Rightarrow> (nat \<Rightarrow> uchar list) \<Rightarrow> bool" where
  "bitmap_ok home x C \<longleftrightarrow> unat (sb_size x) < 2 ^ 31 \<and> (\<forall>b < unat (sb_size x). home (BBLOCK (of_nat b) x) \<and>
     (blk_free x C b \<longrightarrow> home (of_nat b) \<and> (\<forall>c < unat (sb_size x). BBLOCK (of_nat c) x \<noteq> of_nat b)))"

definition mark_block :: "superblock \<Rightarrow> nat \<Rightarrow> bool \<Rightarrow> (nat \<Rightarrow> uchar list) \<Rightarrow> nat \<Rightarrow> uchar list" where
  "mark_block x b v C =
     (let bm = unat (BBLOCK (of_nat b) x); i = b mod BPB div 8; m = bit_mask (b mod BPB) in
      C(bm := (C bm)[i := if v then C bm ! i OR m else C bm ! i AND NOT m]))"

definition zero_at :: "nat \<Rightarrow> (nat \<Rightarrow> uchar list) \<Rightarrow> nat \<Rightarrow> uchar list" where
  "zero_at b C = C(b := replicate BSIZE 0)"

lemma mask_bits:
  "w AND bit_mask j = 0 \<longleftrightarrow> \<not> bit w (j mod 8)"
  "bit (w OR bit_mask i) (j mod 8) \<longleftrightarrow> bit w (j mod 8) \<or> i mod 8 = j mod 8"
  "bit (w AND NOT (bit_mask i)) (j mod 8) \<longleftrightarrow> bit w (j mod 8) \<and> i mod 8 \<noteq> j mod 8"
proof -
  have lt: "j mod 8 < 8" by simp
  show "w AND bit_mask j = 0 \<longleftrightarrow> \<not> bit w (j mod 8)"
    by (simp add: bit_mask_def bit_iff_and_push_bit_not_eq_0)
  show "bit (w OR bit_mask i) (j mod 8) \<longleftrightarrow> bit w (j mod 8) \<or> i mod 8 = j mod 8"
    using lt by (auto simp: bit_mask_def bit_simps)
  show "bit (w AND NOT (bit_mask i)) (j mod 8) \<longleftrightarrow> bit w (j mod 8) \<and> i mod 8 \<noteq> j mod 8"
    using lt by (auto simp: bit_mask_def bit_simps)
qed

lemma bitmap_block:
  assumes "b < 2 ^ 31"
  shows "BBLOCK (of_nat b) x = of_nat (b div BPB) + sb_bmapstart x"
proof -
  have "(of_nat b :: uint) div of_nat BPB = of_nat (b div BPB)"
    using assms by (simp add: word_arith_nat_div unat_of_nat BPB_def BSIZE_def)
  then show ?thesis by (simp add: BBLOCK_def)
qed

lemma same_bitmap_block:
  assumes "b < 2 ^ 31" "c < 2 ^ 31"
  shows "BBLOCK (of_nat b) x = BBLOCK (of_nat c) x \<longleftrightarrow> b div BPB = c div BPB"
proof -
  have "b div BPB < 2 ^ 31" "c div BPB < 2 ^ 31" using assms div_le_dividend [of _ BPB] by (meson le_less_trans)+
  then have "(of_nat (b div BPB) :: uint) = of_nat (c div BPB) \<longleftrightarrow> b div BPB = c div BPB"
    by (simp add: word_unat_eq_iff unat_of_nat)
  then show ?thesis using assms by (simp add: bitmap_block)
qed

lemma mark_block_free:
  assumes "b < 2 ^ 31" "c < 2 ^ 31" and "\<And>n. length (C n) = BSIZE"
  shows "blk_free x (mark_block x b v C) c \<longleftrightarrow> (if c = b then \<not> v else blk_free x C c)"
proof -
  let ?b = "b mod BPB" and ?c = "c mod BPB"
  have i: "?b div 8 < BSIZE" "?c div 8 < BSIZE" by (simp_all add: BPB_def BSIZE_def less_mult_imp_div_less)
  have eq: "c = b \<longleftrightarrow> c div BPB = b div BPB \<and> ?c div 8 = ?b div 8 \<and> ?b mod 8 = ?c mod 8"
    by (metis div_mult_mod_eq)
  show ?thesis
  proof (cases "unat (BBLOCK (of_nat c) x) = unat (BBLOCK (of_nat b) x) \<and> ?c div 8 = ?b div 8")
    case True
    then have "c div BPB = b div BPB" using assms(1,2) same_bitmap_block [of c b x] by (simp add: word_unat_eq_iff)
    then have "c = b \<longleftrightarrow> ?b mod 8 = ?c mod 8" using eq True by simp
    then show ?thesis using True i assms(3) by (auto simp: blk_free_def mark_block_def Let_def mask_bits)
  next
    case False
    then have "c \<noteq> b" by auto
    then show ?thesis using False i assms(3) by (auto simp: blk_free_def mark_block_def Let_def)
  qed
qed

lemma zero_at_free:
  assumes "\<And>c. c < n \<Longrightarrow> BBLOCK (of_nat c) x \<noteq> of_nat b" and "c < n" and "b < 2 ^ 31"
  shows "blk_free x (zero_at b C) c = blk_free x C c"
proof -
  have "unat (BBLOCK (of_nat c) x) \<noteq> b"
  proof
    assume "unat (BBLOCK (of_nat c) x) = b"
    then have "of_nat b = (of_nat (unat (BBLOCK (of_nat c) x)) :: uint)" by simp
    then show False using assms(1) [OF assms(2)] by simp
  qed
  then show ?thesis by (simp add: blk_free_def zero_at_def)
qed

section \<open>Allocation\<close>

lemma upt_split: "i < m \<Longrightarrow> [0..<m] = [0..<i] @ i # [Suc i..<m]"
  using upt_add_eq_append [of 0 i "m - i"] by (simp add: upt_conv_Cons)

lemma for_until_append:
  "for_until (xs @ ys) f s = (case for_until xs f s of Ok r t \<Rightarrow> (case r of None \<Rightarrow> for_until ys f t | Some v \<Rightarrow> Ok r t) | Panic m \<Rightarrow> Panic m
     | Blocked t \<Rightarrow> Blocked t | Hang \<Rightarrow> Hang)"
  by (induction xs arbitrary: s) (simp_all add: kop_simps split: outcome.splits option.splits)

lemma for_until_none:
  assumes "\<And>x s. x \<in> set xs \<Longrightarrow> I s \<Longrightarrow> \<exists>t. f x s = Ok None t \<and> I t" and "I s"
  shows "\<exists>t. for_until xs f s = Ok None t \<and> I t"
  using assms
proof (induction xs arbitrary: s)
  case (Cons x xs)
  obtain t where "f x s = Ok None t" "I t" using Cons.prems by auto
  then show ?case using Cons.IH [of t] Cons.prems(1) by (auto simp: kop_simps)
qed simp

text \<open>The buffers held are of blocks in use, and not of the bitmap.\<close>

definition held_data :: "superblock \<Rightarrow> (nat \<Rightarrow> uchar list) \<Rightarrow> nat set \<Rightarrow> 'z fsst_scheme \<Rightarrow> bool" where
  "held_data x C H s \<longleftrightarrow> (\<forall>c \<in> H. \<forall>n < unat (sb_size x). b_blockno (bufs s c) \<noteq> BBLOCK (of_nat n) x \<and>
     (blk_free x C n \<longrightarrow> b_blockno (bufs s c) \<noteq> of_nat n))"

lemma group_member:
  assumes "k * BPB + i < 2 ^ 31" "i < BPB"
  shows "(k * BPB + i) div BPB = k" "(k * BPB + i) mod BPB = i" "BBLOCK (of_nat (k * BPB + i)) x = BBLOCK (of_nat (k * BPB)) x"
proof -
  show d: "(k * BPB + i) div BPB = k" "(k * BPB + i) mod BPB = i" using assms(2) by simp_all
  have "k * BPB div BPB = k" using assms(2) by simp
  moreover have "k * BPB < 2 ^ 31" using assms(1) by simp
  ultimately show "BBLOCK (of_nat (k * BPB + i)) x = BBLOCK (of_nat (k * BPB)) x"
    using same_bitmap_block [of "k * BPB + i" "k * BPB" x] assms(1) d(1) by simp
qed

context txn_blocks
begin

lemma fr_same [simp]: "fr s s"
  using fr_refl [of s "inodes s"] by simp

lemma held_refl [simp]: "held_same H s s"
  by (simp add: held_same_def)

lemma held_trans: "held_same H s t \<Longrightarrow> held_same H t u \<Longrightarrow> held_same H s u"
  by (simp add: held_same_def)

lemma held_mono: "held_same H s t \<Longrightarrow> H' \<subseteq> H \<Longrightarrow> held_same H' s t"
  by (auto simp: held_same_def)

text \<open>Reading a block, changing it through the log and giving it back.\<close>

lemma rewrite_block:
  assumes v: "view C L H s" and x: "home x" "\<forall>b \<in> H. b_blockno (bufs s b) \<noteq> x" and room: "card L < cap" "card L + card H < NBUF"
    and f: "length (f (C (unat x))) = BSIZE"
  shows "\<exists>t. bnd (bread dv x) (\<lambda>b. thn (upd_buf b (\<lambda>y. y\<lparr>b_data := f (b_data y)\<rparr>)) (thn (log_write b) (brelse b))) s = Ok () t \<and>
    view (C(unat x := f (C (unat x)))) (insert x L) H t \<and> fr s t \<and> held_same H s t"
proof -
  obtain b t1 where 1: "bread dv x s = Ok b t1" "view C L (insert b H) t1" "fr s t1" "held_same H s t1" "b \<notin> H" "b_blockno (bufs t1 b) = x"
    using bread_law [OF v x room(2)] by blast
  have "b_data (bufs t1 b) = C (unat x)" using data_law [OF 1(2), of b] 1(6) by simp
  then obtain u t2 where 2: "upd_buf b (\<lambda>y. y\<lparr>b_data := f (b_data y)\<rparr>) t1 = Ok () u" "log_write b u = Ok () t2"
      "view (C(unat x := f (C (unat x)))) (insert x L) (insert b H) t2" "fr t1 t2" "held_same (insert b H) t1 t2"
    using write_law [OF 1(2) insertI1 1(6) [symmetric] x(1) f room(1), of "\<lambda>y. y\<lparr>b_data := f (b_data y)\<rparr>"] by auto
  obtain t3 where 3: "brelse b t2 = Ok () t3" "view (C(unat x := f (C (unat x)))) (insert x L) (insert b H - {b}) t3" "fr t2 t3"
      "held_same (insert b H) t2 t3"
    using brelse_law [OF 2(3) insertI1] by blast
  have "held_same H s t3" using 1(4) held_mono [OF 2(5), of H] held_mono [OF 3(4), of H] held_trans by blast
  moreover have "fr s t3" using fr_trans 1(3) 2(4) 3(3) by blast
  moreover have "insert b H - {b} = H" using 1(5) by auto
  ultimately show ?thesis using 1(1) 2(1,2) 3(1,2) by (simp add: kop_simps)
qed

lemma bzero_spec:
  assumes "view C L H s" "home x" "\<forall>b \<in> H. b_blockno (bufs s b) \<noteq> x" "card L < cap" "card L + card H < NBUF"
  shows "\<exists>t. bzero dv x s = Ok () t \<and> view (zero_at (unat x) C) (insert x L) H t \<and> fr s t \<and> held_same H s t"
  using rewrite_block [OF assms, of "\<lambda>_. replicate BSIZE 0"] by (simp add: bzero_def zero_at_def)

lemma balloc_bit_used:
  assumes "view C L H s" and "bp \<in> H" and "b_blockno (bufs s bp) = BBLOCK (of_nat (b + bi)) x" and "bi = (b + bi) mod BPB"
    and "\<not> blk_free x C (b + bi)"
  shows "balloc_bit dv bp b bi s = Ok None s"
  using data_law [OF assms(1,2)] assms(3-5) unfolding blk_free_def balloc_bit_def by (simp add: kop_simps get_buf_def)

lemma balloc_bit_free:
  assumes v: "view C L (insert bp H) s" and bp: "bp \<notin> H" "b_blockno (bufs s bp) = BBLOCK (of_nat n) x" and n: "n = b + bi" "bi = n mod BPB"
    and fr: "blk_free x C n" "home (of_nat n)" "home (BBLOCK (of_nat n) x)" "BBLOCK (of_nat n) x \<noteq> of_nat n"
    and H: "\<forall>c \<in> H. b_blockno (bufs s c) \<noteq> of_nat n" and room: "card L + 1 < cap" "card L + card H + 1 < NBUF" and small: "n < 2 ^ 31"
  shows "\<exists>t. balloc_bit dv bp b bi s = Ok (Some (of_nat n)) t \<and>
    view (zero_at n (mark_block x n True C)) (insert (of_nat n) (insert (BBLOCK (of_nat n) x) L)) H t \<and> fr s t \<and> held_same H s t"
proof -
  let ?bm = "BBLOCK (of_nat n) x" and ?byte = "b_data (bufs s bp) ! (bi div 8)"
  let ?g = "\<lambda>y. y\<lparr>b_data := (b_data y)[bi div 8 := ?byte OR bit_mask bi]\<rparr>" and ?C = "mark_block x n True C"
  have d: "b_data (bufs s bp) = C (unat ?bm)" using data_law [OF v, of bp] bp(2) by simp
  then have "?byte AND bit_mask bi = 0" using fr(1) n(2) by (simp add: blk_free_def)
  moreover have C: "?C = C(unat ?bm := (C (unat ?bm))[bi div 8 := ?byte OR bit_mask bi])" using d n(2) by (simp add: mark_block_def Let_def)
  have "card L < cap" using room(1) by simp
  with d size_law [OF v, of "unat ?bm"]
  obtain u t1 where 1: "upd_buf bp ?g s = Ok () u" "log_write bp u = Ok () t1" "view ?C (insert ?bm L) (insert bp H) t1" "fr s t1"
      "held_same (insert bp H) s t1"
    using write_law [OF v insertI1 bp(2) [symmetric] fr(3), of "(C (unat ?bm))[bi div 8 := ?byte OR bit_mask bi]" ?g] unfolding C by auto
  obtain t2 where 2: "brelse bp t1 = Ok () t2" "view ?C (insert ?bm L) (insert bp H - {bp}) t2" "fr t1 t2" "held_same (insert bp H) t1 t2"
    using brelse_law [OF 1(3) insertI1] by blast
  have H2: "insert bp H - {bp} = H" using bp(1) by auto
  have hs: "held_same H s t2" using held_trans [OF 1(5) 2(4)] held_mono by blast
  have c: "card (insert ?bm L) \<le> card L + 1" by (simp add: card_insert_if finite_logged [OF v])
  have "\<forall>c \<in> H. b_blockno (bufs t2 c) \<noteq> of_nat n" using H hs by (simp add: held_same_def)
  then obtain t3 where 3: "bzero dv (of_nat n) t2 = Ok () t3" "view (zero_at (unat (of_nat n :: uint)) ?C) (insert (of_nat n) (insert ?bm L)) H t3"
      "fr t2 t3" "held_same H t2 t3"
    using bzero_spec [OF 2(2) [unfolded H2] fr(2)] c room by auto
  have "unat (of_nat n :: uint) = n" using small by (simp add: unat_of_nat)
  moreover have "fr s t3" using fr_trans 1(4) 2(3) 3(3) by blast
  ultimately show ?thesis using 1(1,2) 2(1) 3 held_trans [OF hs 3(4)] \<open>?byte AND bit_mask bi = 0\<close> n(1)
    by (simp add: balloc_bit_def kop_simps get_buf_def)
qed

lemma group_bread:
  assumes v: "view C L H s" and ok: "bitmap_ok home x C" and k: "k * BPB < unat (sb_size x)" and H: "held_data x C H s"
    and room: "card L + card H < NBUF"
  shows "\<exists>bp t. bread dv (BBLOCK (of_nat (k * BPB)) x) s = Ok bp t \<and> view C L (insert bp H) t \<and> fr s t \<and> held_same H s t \<and> bp \<notin> H \<and>
    b_blockno (bufs t bp) = BBLOCK (of_nat (k * BPB)) x"
proof -
  have "home (BBLOCK (of_nat (k * BPB)) x)" using ok k unfolding bitmap_ok_def by blast
  moreover have "\<forall>b \<in> H. b_blockno (bufs s b) \<noteq> BBLOCK (of_nat (k * BPB)) x" using H k unfolding held_data_def by blast
  ultimately show ?thesis by (rule bread_law [OF v _ _ room])
qed

lemma balloc_group_none:
  assumes v: "view C L H s" and x: "sb s = x" and ok: "bitmap_ok home x C" and k: "k * BPB < unat (sb_size x)" and H: "held_data x C H s"
    and room: "card L + card H < NBUF" and full: "\<forall>i < BPB. k * BPB + i < unat (sb_size x) \<longrightarrow> \<not> blk_free x C (k * BPB + i)"
  shows "\<exists>t. balloc_group dv (k * BPB) s = Ok None t \<and> view C L H t \<and> fr s t \<and> held_same H s t"
proof -
  obtain bp t1 where 1: "bread dv (BBLOCK (of_nat (k * BPB)) x) s = Ok bp t1" "view C L (insert bp H) t1" "fr s t1" "held_same H s t1"
      "bp \<notin> H" "b_blockno (bufs t1 bp) = BBLOCK (of_nat (k * BPB)) x" using group_bread [OF v ok k H room] by blast
  have "balloc_bit dv bp (k * BPB) i t1 = Ok None t1" if "i < min BPB (unat (sb_size x) - k * BPB)" for i
  proof -
    have i: "i < BPB" "k * BPB + i < unat (sb_size x)" using that by auto
    moreover have "unat (sb_size x) < 2 ^ 31" using ok by (simp add: bitmap_ok_def)
    ultimately have "k * BPB + i < 2 ^ 31" by linarith
    note g = group_member [OF this i(1)]
    have "b_blockno (bufs t1 bp) = BBLOCK (of_nat (k * BPB + i)) x" unfolding g(3) by (rule 1(6))
    then show ?thesis using full i by (intro balloc_bit_used [OF 1(2) insertI1 _ g(2) [symmetric]]) blast+
  qed
  then have 2: "for_until [0..<min BPB (unat (sb_size x) - k * BPB)] (balloc_bit dv bp (k * BPB)) t1 = Ok None t1"
    using for_until_none [of "[0..<min BPB (unat (sb_size x) - k * BPB)]" "\<lambda>u. u = t1" "balloc_bit dv bp (k * BPB)" t1] by auto
  obtain t2 where 3: "brelse bp t1 = Ok () t2" "view C L (insert bp H - {bp}) t2" "fr t1 t2" "held_same (insert bp H) t1 t2"
    using brelse_law [OF 1(2) insertI1] by blast
  have "insert bp H - {bp} = H" using 1(5) by auto
  moreover have "held_same H s t2" using held_trans [OF 1(4)] held_mono [OF 3(4)] by blast
  ultimately show ?thesis using x 1(1) 2 3 fr_trans [OF 1(3) 3(3)] by (simp add: balloc_group_def kop_simps get_sb_def)
qed

lemma balloc_group_hit:
  assumes v: "view C L H s" and x: "sb s = x" and ok: "bitmap_ok home x C" and n: "n < unat (sb_size x)" "blk_free x C n"
    and H: "held_data x C H s" and room: "card L + 1 < cap" "card L + card H + 1 < NBUF" and least: "\<forall>m < n. \<not> blk_free x C m"
  shows "\<exists>t. balloc_group dv (n div BPB * BPB) s = Ok (Some (of_nat n)) t \<and>
    view (zero_at n (mark_block x n True C)) (insert (of_nat n) (insert (BBLOCK (of_nat n) x) L)) H t \<and> fr s t \<and> held_same H s t"
proof -
  let ?b = "n div BPB * BPB" and ?i = "n mod BPB"
  have i: "?b + ?i = n" "?i < BPB" by (simp_all add: BPB_def BSIZE_def)
  have small: "n < 2 ^ 31" using n(1) ok by (simp add: bitmap_ok_def)
  have b: "?b < unat (sb_size x)" "?b < 2 ^ 31" using i n(1) small by linarith+
  have bb: "BBLOCK (of_nat ?b) x = BBLOCK (of_nat n) x" using group_member(3) [of "n div BPB" ?i x] i small by simp
  have "card L + card H < NBUF" using room(2) by simp
  then obtain bp t1 where 1: "bread dv (BBLOCK (of_nat ?b) x) s = Ok bp t1" "view C L (insert bp H) t1" "fr s t1" "held_same H s t1"
      "bp \<notin> H" "b_blockno (bufs t1 bp) = BBLOCK (of_nat ?b) x" using group_bread [OF v ok b(1) H] by blast
  have "balloc_bit dv bp ?b j t1 = Ok None t1" if "j < ?i" for j
  proof -
    have j: "?b + j < n" "j < BPB" using that i by linarith+
    then have "?b + j < 2 ^ 31" using small by linarith
    note g = group_member [OF this j(2)]
    have "b_blockno (bufs t1 bp) = BBLOCK (of_nat (?b + j)) x" unfolding g(3) by (rule 1(6))
    then show ?thesis using least j(1) by (intro balloc_bit_used [OF 1(2) insertI1 _ g(2) [symmetric]]) blast+
  qed
  then have 2: "for_until [0..<?i] (balloc_bit dv bp ?b) t1 = Ok None t1"
    using for_until_none [of "[0..<?i]" "\<lambda>u. u = t1" "balloc_bit dv bp ?b" t1] by auto
  have fr: "home (of_nat n)" "home (BBLOCK (of_nat n) x)" "BBLOCK (of_nat n) x \<noteq> of_nat n" using n ok by (auto simp: bitmap_ok_def)
  have Hn: "\<forall>c \<in> H. b_blockno (bufs t1 c) \<noteq> of_nat n" using H n 1(4) by (auto simp: held_data_def held_same_def)
  obtain t2 where 3: "balloc_bit dv bp ?b ?i t1 = Ok (Some (of_nat n)) t2"
      "view (zero_at n (mark_block x n True C)) (insert (of_nat n) (insert (BBLOCK (of_nat n) x) L)) H t2" "fr t1 t2" "held_same H t1 t2"
    using balloc_bit_free [OF 1(2,5) 1(6) [unfolded bb] i(1) [symmetric] refl n(2) fr Hn room small] by blast
  have "?i < min BPB (unat (sb_size x) - ?b)" using i n(1) by linarith
  then have "[0..<min BPB (unat (sb_size x) - ?b)] = [0..<?i] @ ?i # [Suc ?i..<min BPB (unat (sb_size x) - ?b)]"
    by (rule upt_split)
  then have "for_until [0..<min BPB (unat (sb_size x) - ?b)] (balloc_bit dv bp ?b) t1 = Ok (Some (of_nat n)) t2"
    using 2 3(1) by (simp add: for_until_append kop_simps)
  then show ?thesis using x 1(1) 3 fr_trans [OF 1(3) 3(3)] held_trans [OF 1(4) 3(4)] by (simp add: balloc_group_def kop_simps get_sb_def)
qed

lemma groups_none:
  assumes v: "view C L H s" and x: "sb s = x" and ok: "bitmap_ok home x C" and H: "held_data x C H s" and room: "card L + card H < NBUF"
    and m: "m \<le> (unat (sb_size x) + BPB - 1) div BPB" and full: "\<forall>n < min (m * BPB) (unat (sb_size x)). \<not> blk_free x C n"
  shows "\<exists>t. for_until (map (\<lambda>k. k * BPB) [0..<m]) (balloc_group dv) s = Ok None t \<and> view C L H t \<and> fr s t \<and> held_same H s t"
proof -
  let ?I = "\<lambda>t. view C L H t \<and> fr s t \<and> held_same H s t"
  have "\<exists>u. balloc_group dv b t = Ok None u \<and> ?I u" if b: "b \<in> set (map (\<lambda>k. k * BPB) [0..<m])" and I: "?I t" for b t
  proof -
    obtain k where k: "k < m" "b = k * BPB" using b by auto
    have "Suc k * BPB \<le> m * BPB" using k(1) by (intro mult_le_mono1) simp
    moreover have "m * BPB \<le> unat (sb_size x) + BPB - 1" using m by (simp add: less_eq_div_iff_mult_less_eq BPB_def BSIZE_def)
    ultimately have kb: "k * BPB < unat (sb_size x)" "\<forall>i < BPB. k * BPB + i < unat (sb_size x) \<longrightarrow> \<not> blk_free x C (k * BPB + i)"
      using full by (auto simp: BPB_def BSIZE_def)
    have "sb t = x" "held_data x C H t" using I x fr_sb H by (auto simp: held_data_def held_same_def)
    then obtain u where "balloc_group dv b t = Ok None u" "view C L H u" "fr t u" "held_same H t u"
      using balloc_group_none [OF _ _ ok kb(1) _ room kb(2)] I k(2) by blast
    then show ?thesis using I fr_trans held_trans by blast
  qed
  then show ?thesis using v for_until_none [of "map (\<lambda>k. k * BPB) [0..<m]" ?I "balloc_group dv" s] by simp
qed

lemma balloc_full:
  assumes v: "view C L H s" and x: "sb s = x" and ok: "bitmap_ok home x C" and H: "held_data x C H s" and room: "card L + card H < NBUF"
    and full: "\<forall>n < unat (sb_size x). \<not> blk_free x C n"
  shows "balloc dv s = Panic ''balloc: out of blocks''"
  using groups_none [OF v x ok H room order_refl] full x by (auto simp: balloc_def kop_simps get_sb_def)

lemma balloc_spec:
  assumes v: "view C L H s" and x: "sb s = x" and ok: "bitmap_ok home x C" and n: "n < unat (sb_size x)" "blk_free x C n"
    and H: "held_data x C H s" and room: "card L + 1 < cap" "card L + card H + 1 < NBUF" and least: "\<forall>m < n. \<not> blk_free x C m"
  shows "\<exists>t. balloc dv s = Ok (of_nat n) t \<and>
    view (zero_at n (mark_block x n True C)) (insert (of_nat n) (insert (BBLOCK (of_nat n) x) L)) H t \<and> fr s t \<and> held_same H s t"
proof -
  let ?k = "n div BPB" and ?K = "(unat (sb_size x) + BPB - 1) div BPB"
  have "Suc n \<le> unat (sb_size x)" using n(1) by simp
  then have "(n + BPB) div BPB \<le> ?K" by (intro div_le_mono) (simp add: BPB_def BSIZE_def)
  then have k: "?k < ?K" by (simp add: BPB_def BSIZE_def)
  have "?k * BPB \<le> n" by simp
  then have "\<forall>m < min (?k * BPB) (unat (sb_size x)). \<not> blk_free x C m" using least by (meson less_le_trans min_less_iff_conj)
  then obtain t1 where 1: "for_until (map (\<lambda>k. k * BPB) [0..<?k]) (balloc_group dv) s = Ok None t1" "view C L H t1" "fr s t1" "held_same H s t1"
    using groups_none [OF v x ok H, of ?k] k room by auto
  have "sb t1 = x" "held_data x C H t1" using 1 x fr_sb H by (auto simp: held_data_def held_same_def)
  then obtain t2 where 2: "balloc_group dv (?k * BPB) t1 = Ok (Some (of_nat n)) t2"
      "view (zero_at n (mark_block x n True C)) (insert (of_nat n) (insert (BBLOCK (of_nat n) x) L)) H t2" "fr t1 t2" "held_same H t1 t2"
    using balloc_group_hit [OF 1(2) _ ok n _ room least] by blast
  have "map (\<lambda>k. k * BPB) [0..<?K] = map (\<lambda>k. k * BPB) [0..<?k] @ (?k * BPB) # map (\<lambda>k. k * BPB) [Suc ?k..<?K]"
    unfolding upt_split [OF k] by simp
  then have "for_until (map (\<lambda>k. k * BPB) [0..<?K]) (balloc_group dv) s = Ok (Some (of_nat n)) t2"
    using 1(1) 2(1) by (simp add: for_until_append kop_simps)
  then show ?thesis using x 2(2) fr_trans [OF 1(3) 2(3)] held_trans [OF 1(4) 2(4)] by (simp add: balloc_def kop_simps get_sb_def)
qed

lemma bfree_spec:
  assumes v: "view C L H s" and x: "sb s = x" and ok: "bitmap_ok home x C" and n: "n < unat (sb_size x)"
    and H: "held_data x C H s" and room: "card L < cap" "card L + card H < NBUF"
  shows "blk_free x C n \<Longrightarrow> bfree dv (of_nat n) s = Panic ''freeing free block''"
    and "\<not> blk_free x C n \<Longrightarrow> \<exists>t. bfree dv (of_nat n) s = Ok () t \<and>
      view (mark_block x n False C) (insert (BBLOCK (of_nat n) x) L) H t \<and> fr s t \<and> held_same H s t"
proof -
  let ?bm = "BBLOCK (of_nat n) x" and ?i = "n mod BPB"
  have small: "n < 2 ^ 31" using n ok by (simp add: bitmap_ok_def)
  then have un: "unat (of_nat n :: uint) = n" by (simp add: unat_of_nat)
  have hm: "home ?bm" using ok n by (simp add: bitmap_ok_def)
  have "\<forall>b \<in> H. b_blockno (bufs s b) \<noteq> ?bm" using H n unfolding held_data_def by blast
  then obtain bp t1 where 1: "bread dv ?bm s = Ok bp t1" "view C L (insert bp H) t1" "fr s t1" "held_same H s t1" "bp \<notin> H"
      "b_blockno (bufs t1 bp) = ?bm" using bread_law [OF v hm _ room(2)] by blast
  have d: "b_data (bufs t1 bp) = C (unat ?bm)" using data_law [OF 1(2), of bp] 1(6) by simp
  show "bfree dv (of_nat n) s = Panic ''freeing free block''" if "blk_free x C n"
    using that 1(1) x d un by (simp add: bfree_def Let_def kop_simps get_sb_def get_buf_def blk_free_def)
  let ?byte = "C (unat ?bm) ! (?i div 8)" and ?C = "mark_block x n False C"
  let ?d = "(C (unat ?bm))[?i div 8 := ?byte AND NOT (bit_mask ?i)]"
  let ?g = "\<lambda>y. y\<lparr>b_data := (b_data y)[?i div 8 := ?byte AND NOT (bit_mask ?i)]\<rparr>"
  have C: "?C = C(unat ?bm := ?d)" by (simp add: mark_block_def Let_def)
  obtain u t2 where 2: "upd_buf bp ?g t1 = Ok () u" "log_write bp u = Ok () t2" "view ?C (insert ?bm L) (insert bp H) t2" "fr t1 t2"
      "held_same (insert bp H) t1 t2"
    using write_law [OF 1(2) insertI1 1(6) [symmetric] hm, of ?d ?g] d size_law [OF v, of "unat ?bm"] room(1) unfolding C by auto
  obtain t3 where 3: "brelse bp t2 = Ok () t3" "view ?C (insert ?bm L) (insert bp H - {bp}) t3" "fr t2 t3" "held_same (insert bp H) t2 t3"
    using brelse_law [OF 2(3) insertI1] by blast
  have "insert bp H - {bp} = H" using 1(5) by auto
  moreover have "held_same H s t3" using held_trans [OF 1(4)] held_mono [OF 2(5), of H] held_mono [OF 3(4), of H] held_trans by blast
  moreover have "fr s t3" using fr_trans 1(3) 2(4) 3(3) by blast
  ultimately show "\<exists>t. bfree dv (of_nat n) s = Ok () t \<and> view ?C (insert ?bm L) H t \<and> fr s t \<and> held_same H s t" if "\<not> blk_free x C n"
    using that 1(1) 2(1,2) 3(1,2) x d un by (simp add: bfree_def Let_def kop_simps get_sb_def get_buf_def blk_free_def)
qed

end

section \<open>The log obeys the laws\<close>

definition txn_view :: "nat \<Rightarrow> uint \<Rightarrow> nat \<Rightarrow> (nat \<Rightarrow> uchar list) \<Rightarrow> nat \<Rightarrow> (nat \<Rightarrow> uchar list) \<Rightarrow> uint set \<Rightarrow> nat set \<Rightarrow> 'z lgst_scheme \<Rightarrow> bool" where
  "txn_view p dv \<sigma> Old cap C L H s \<longleftrightarrow> (\<exists>n D. log_shape dv \<sigma> n (lg s) \<and> L = logged n (lg s) \<and> bc p dv C D H (pin_of L) s \<and>
     D \<subseteq> unat ` L \<and> hdr_n (img_block (img s) \<sigma>) = 0 \<and> (\<forall>m. m \<notin> log_region \<sigma> \<longrightarrow> img_block (img s) m = Old m) \<and>
     log_size (lg s) = int cap + 1 \<and> cap < LOGSIZE \<and> 1 \<le> log_outstanding (lg s))"

definition txn_frame :: "nat \<Rightarrow> 'z fsst_scheme \<Rightarrow> 'z fsst_scheme \<Rightarrow> bool" where
  "txn_frame p s t \<longleftrightarrow> io_frame p (s\<lparr>lg := lg t, inodes := inodes t\<rparr>) t \<and> same_log (lg s) (lg t) \<and> img t = img s \<and> hist {img s} s t"

definition home_block :: "nat \<Rightarrow> uint \<Rightarrow> bool" where
  "home_block \<sigma> x \<longleftrightarrow> unat x < 2 ^ 31 \<and> unat x \<notin> log_region \<sigma>"

lemma txn_view_log_inv:
  "txn_view p dv \<sigma> Old cap C L {} s \<longleftrightarrow>
     log_inv p dv \<sigma> Old C L s \<and> log_size (lg s) = int cap + 1 \<and> cap < LOGSIZE \<and> 1 \<le> log_outstanding (lg s)"
proof -
  have "log_size (lg s) = int cap + 1 \<Longrightarrow> cap < LOGSIZE \<Longrightarrow> log_size (lg s) \<le> int LOGSIZE" by simp
  then show ?thesis unfolding txn_view_def log_inv_def by blast
qed

lemma same_log_refl [simp]: "same_log l l"
  by (simp add: same_log_def)

lemma io_frame_inodes: "io_frame p s t \<Longrightarrow> inodes t = inodes s" for s :: "'z fsst_scheme"
  unfolding io_frame_def by (elim conjE) (erule ssubst, simp)

lemma io_frame_sb: "io_frame p s t \<Longrightarrow> sb t = sb s" for s :: "'z fsst_scheme"
  unfolding io_frame_def by (elim conjE) (erule ssubst, simp)

lemma txn_frameI:
  fixes s :: "'z fsst_scheme"
  assumes "io_frame p s t" and "img t = img s" and "hist {img s} s t"
  shows "txn_frame p s t"
proof -
  have "s\<lparr>lg := lg t, inodes := inodes t\<rparr> = s" using io_frame_lg [OF assms(1)] io_frame_inodes [OF assms(1)] by simp
  then show ?thesis using assms io_frame_lg [OF assms(1)] by (simp add: txn_frame_def)
qed

lemma io_frame_upd: "io_frame p s t \<Longrightarrow> io_frame p (s\<lparr>lg := l, inodes := I\<rparr>) (t\<lparr>lg := l, inodes := I\<rparr>)" for s :: "'z fsst_scheme"
  unfolding io_frame_def by (cases s; cases t) simp

lemma txn_frame_trans: "txn_frame p s t \<Longrightarrow> txn_frame p t u \<Longrightarrow> txn_frame p s u"
proof -
  assume a: "txn_frame p s t" "txn_frame p t u"
  have "io_frame p (s\<lparr>lg := lg u, inodes := inodes u\<rparr>) (t\<lparr>lg := lg u, inodes := inodes u\<rparr>)"
    using a(1) io_frame_upd [where l = "lg u" and I = "inodes u", of p "s\<lparr>lg := lg t, inodes := inodes t\<rparr>" t] by (simp add: txn_frame_def)
  then show ?thesis using a io_frame_trans same_log_trans hist_trans unfolding txn_frame_def by metis
qed

lemma txn_viewD:
  assumes "txn_view p dv \<sigma> Old cap C L H s"
  obtains n D where "log_shape dv \<sigma> n (lg s)" "L = logged n (lg s)" "card L = n" "bc p dv C D H (pin_of L) s" "D \<subseteq> unat ` L"
    "hdr_n (img_block (img s) \<sigma>) = 0" "\<forall>m. m \<notin> log_region \<sigma> \<longrightarrow> img_block (img s) m = Old m"
    "log_size (lg s) = int cap + 1" "cap < LOGSIZE" "1 \<le> log_outstanding (lg s)"
  using assms card_logged unfolding txn_view_def by metis

lemma txn_bread:
  fixes s :: "'z fsst_scheme"
  assumes "txn_view p dv \<sigma> Old cap C L H s" and "home_block \<sigma> x" and "\<forall>b \<in> H. b_blockno (bufs s b) \<noteq> x" and "card L + card H < NBUF"
  shows "\<exists>b t. bread dv x s = Ok b t \<and> txn_view p dv \<sigma> Old cap C L (insert b H) t \<and> txn_frame p s t \<and> held_same H s t \<and> b \<notin> H \<and>
    b_blockno (bufs t b) = x"
proof -
  obtain n D where v: "log_shape dv \<sigma> n (lg s)" "L = logged n (lg s)" "card L = n" "bc p dv C D H (pin_of L) s" "D \<subseteq> unat ` L"
    "hdr_n (img_block (img s) \<sigma>) = 0" "\<forall>m. m \<notin> log_region \<sigma> \<longrightarrow> img_block (img s) m = Old m"
    "log_size (lg s) = int cap + 1" "cap < LOGSIZE" "1 \<le> log_outstanding (lg s)" using txn_viewD [OF assms(1)] .
  obtain b t where 1: "bread dv x s = Ok b t" "bc p dv C D (insert b H) (pin_of L) t" "io_frame p s t" "img t = img s" "hist {img s} s t"
    "b \<notin> H" "b_blockno (bufs t b) = x" "\<forall>c. c \<noteq> b \<longrightarrow> bufs t c = bufs s c"
    using bread_bc [OF v(4), of x] assms(2-4) by (auto simp: home_block_def)
  have "txn_view p dv \<sigma> Old cap C L (insert b H) t"
    unfolding txn_view_def using v 1(2,4) io_frame_lg [OF 1(3)] by (intro exI [of _ n] exI [of _ D]) simp
  moreover have "held_same H s t" using 1(6,8) io_frame_inodes [OF 1(3)] unfolding held_same_def by metis
  ultimately show ?thesis using 1 txn_frameI [OF 1(3-5)] by blast
qed

lemma txn_write:
  fixes s :: "'z fsst_scheme"
  assumes "txn_view p dv \<sigma> Old cap C L H s" and b: "b \<in> H" and x: "x = b_blockno (bufs s b)" "home_block \<sigma> x" and d: "length d = BSIZE"
    and room: "card L < cap" and g: "g (bufs s b) = (bufs s b)\<lparr>b_data := d\<rparr>"
  shows "\<exists>u t. upd_buf b g s = Ok () u \<and> log_write b u = Ok () t \<and> txn_view p dv \<sigma> Old cap (C(unat x := d)) (insert x L) H t \<and>
    txn_frame p s t \<and> held_same H s t"
proof -
  obtain n D where v: "log_shape dv \<sigma> n (lg s)" "L = logged n (lg s)" "card L = n" "bc p dv C D H (pin_of L) s" "D \<subseteq> unat ` L"
    "hdr_n (img_block (img s) \<sigma>) = 0" "\<forall>m. m \<notin> log_region \<sigma> \<longrightarrow> img_block (img s) m = Old m"
    "log_size (lg s) = int cap + 1" "cap < LOGSIZE" "1 \<le> log_outstanding (lg s)" using txn_viewD [OF assms(1)] .
  let ?u = "s\<lparr>bufs := (bufs s)(b := (bufs s b)\<lparr>b_data := d\<rparr>)\<rparr>"
  have u: "upd_buf b g s = Ok () ?u" using g by (simp add: upd_buf_def)
  have "unat x < 2 ^ 31" "unat x \<notin> log_region \<sigma>" "int n < log_size (lg s) - 1" "n + 1 < LOGSIZE"
    using x(2) room v by (simp_all add: home_block_def)
  then obtain t n' where 1: "log_write b ?u = Ok () t" "bc p dv (C(unat x := d)) (insert (unat x) D) H (pin_of (insert x L)) t"
    "log_shape dv \<sigma> n' (lg t)" "insert x L = logged n' (lg t)" "same_log (lg s) (lg t)" "img t = img s" "whist t = whist s"
    "\<forall>c. b_blockno (bufs t c) = b_blockno (bufs s c)" "io_frame p (s\<lparr>lg := lg t\<rparr>) t"
    using change_logged [OF v(4) b x(1) _ _ v(1,2) d _ _ v(10)] by blast
  have DL: "insert (unat x) D \<subseteq> unat ` insert x L" using v(5) by blast
  have "txn_view p dv \<sigma> Old cap (C(unat x := d)) (insert x L) H t"
    unfolding txn_view_def using v(6-10) 1(2-4,6) DL same_logD [OF 1(5)]
    by (intro exI [of _ n'] exI [of _ "insert (unat x) D"] conjI) simp_all
  moreover have "inodes t = inodes s" using io_frame_inodes [OF 1(9)] by simp
  moreover have "hist {img s} s t" using 1(7) by (simp add: hist_def)
  ultimately show ?thesis using u 1 by (intro exI [of _ ?u] exI [of _ t]) (simp add: txn_frame_def held_same_def)
qed

lemma txn_brelse:
  fixes s :: "'z fsst_scheme"
  assumes "txn_view p dv \<sigma> Old cap C L H s" and b: "b \<in> H"
  shows "\<exists>t. brelse b s = Ok () t \<and> txn_view p dv \<sigma> Old cap C L (H - {b}) t \<and> txn_frame p s t \<and> held_same H s t"
proof -
  obtain n D where v: "log_shape dv \<sigma> n (lg s)" "L = logged n (lg s)" "card L = n" "bc p dv C D H (pin_of L) s" "D \<subseteq> unat ` L"
    "hdr_n (img_block (img s) \<sigma>) = 0" "\<forall>m. m \<notin> log_region \<sigma> \<longrightarrow> img_block (img s) m = Old m"
    "log_size (lg s) = int cap + 1" "cap < LOGSIZE" "1 \<le> log_outstanding (lg s)" using txn_viewD [OF assms(1)] .
  have "pin_of L (b_blockno (bufs s b)) \<noteq> 0 \<or> unat (b_blockno (bufs s b)) \<notin> D"
    using v(5) unfolding pin_of_def by (metis imageE subsetD word_unat_eq_iff one_neq_zero)
  then obtain t where 1: "brelse b s = Ok () t" "bc p dv C D (H - {b}) (pin_of L) t" "io_frame p s t" "img t = img s" "whist t = whist s"
    "\<forall>c. b_blockno (bufs t c) = b_blockno (bufs s c)" using brelse_bc [OF v(4) b] by blast
  have "hist {img s} s t" using 1(5) by (simp add: hist_def)
  then show ?thesis using 1 txn_frameI [OF 1(3,4)] io_frame_inodes [OF 1(3)] io_frame_lg [OF 1(3)] v unfolding txn_view_def
    by (intro exI [of _ t]) (simp add: held_same_def, blast)
qed

lemma view_inodes:
  "txn_view p dv \<sigma> Old cap C L H (s\<lparr>inodes := I\<rparr>) = txn_view p dv \<sigma> Old cap C L H s" for s :: "'z fsst_scheme"
  by (simp add: txn_view_def bc_def cache_ok_def io_ok_def locks_ok_def)

lemma frame_inodes: "txn_frame p s (s\<lparr>inodes := I\<rparr>)" for s :: "'z fsst_scheme"
  by (simp add: txn_frame_def hist_def)

lemma txn_myproc:
  fixes s :: "'z fsst_scheme"
  assumes "txn_view p dv \<sigma> Old cap C L H s"
  defines "t \<equiv> s\<lparr>mach := m_note (mach s)\<rparr>"
  shows "myproc s = Ok (Some p) t" and "txn_view p dv \<sigma> Old cap C L H t" and "txn_frame p s t" and "held_same H s t"
proof -
  obtain n D where v: "log_shape dv \<sigma> n (lg s)" "L = logged n (lg s)" "card L = n" "bc p dv C D H (pin_of L) s" "D \<subseteq> unat ` L"
    "hdr_n (img_block (img s) \<sigma>) = 0" "\<forall>m. m \<notin> log_region \<sigma> \<longrightarrow> img_block (img s) m = Old m"
    "log_size (lg s) = int cap + 1" "cap < LOGSIZE" "1 \<le> log_outstanding (lg s)" using txn_viewD [OF assms(1)] .
  note q = quietD [OF bc_quiet [OF v(4)]]
  show "myproc s = Ok (Some p) t" using q by (simp add: myproc_apply t_def)
  have "bc p dv C D H (pin_of L) (s\<lparr>mach := m_note (mach s), procs := procs s\<rparr>)"
    using bc_quiet [OF v(4)] by (intro bc_machine [OF v(4)]) simp_all
  then show "txn_view p dv \<sigma> Old cap C L H t" unfolding txn_view_def t_def using v by (intro exI [of _ n] exI [of _ D]) simp
  show "txn_frame p s t" "held_same H s t" by (simp_all add: txn_frame_def io_frame_def held_same_def hist_def t_def)
qed

interpretation txn: txn_blocks "txn_view p dv \<sigma> Old cap" "txn_frame p" dv cap "home_block \<sigma>" for p dv \<sigma> Old cap
proof (unfold_locales, goal_cases)
  case (2 C L H s b x d g)
  then show ?case by (rule txn_write)
next
  case (4 C L H s b)
  then show ?case by (meson txn_viewD log_bc.data_law)
next
  case (5 C L H s n)
  then show ?case by (meson txn_viewD block_size)
next
  case (9 s t)
  then show ?case using io_frame_sb by (fastforce simp: txn_frame_def)
next
  case (10 x)
  then show ?case by (simp add: home_block_def)
next
  case (11 C L H s)
  then show ?case by (auto simp: txn_view_def NBUF_def LOGSIZE_def MAXOPBLOCKS_def)
next
  case (12 C L H s)
  then show ?case by (auto simp: txn_view_def logged_def)
next
  case (13 C L H s)
  then show ?case by (auto simp: txn_view_def bc_def cache_ok_def locks_ok_def intro: finite_subset)
next
  case (14 C L H s)
  note m = txn_myproc [OF 14]
  show ?case by (intro exI conjI) (rule m)+
qed (simp_all add: txn_bread txn_brelse view_inodes frame_inodes txn_frame_trans)

section \<open>Properties\<close>

lemma alloc_free:
  assumes "bitmap_ok home x C" and "n < unat (sb_size x)" "blk_free x C n" and "c < unat (sb_size x)" and "\<And>m. length (C m) = BSIZE"
  shows "blk_free x (zero_at n (mark_block x n True C)) c \<longleftrightarrow> blk_free x C c \<and> c \<noteq> n"
proof -
  have small: "n < 2 ^ 31" "c < 2 ^ 31" using assms(1,2,4) by (simp_all add: bitmap_ok_def)
  have "blk_free x (zero_at n (mark_block x n True C)) c = blk_free x (mark_block x n True C) c"
    using assms(1-4) small by (intro zero_at_free [of "unat (sb_size x)"]) (auto simp: bitmap_ok_def)
  then show ?thesis using mark_block_free [OF small assms(5), of x True] by simp
qed

lemma bitmap_ok_alloc:
  assumes "bitmap_ok home x C" and "n < unat (sb_size x)" "blk_free x C n" and "\<And>m. length (C m) = BSIZE"
  shows "bitmap_ok home x (zero_at n (mark_block x n True C))"
  using assms(1) alloc_free [OF assms(1-3) _ assms(4)] unfolding bitmap_ok_def by blast

text \<open>
  C40 (\<^verbatim>\<open>fs.c\<close>, \<^verbatim>\<open>balloc\<close> and \<^verbatim>\<open>bfree\<close>): inside a transaction, with the buffer cache, the log and the disk driver below,
  \<^verbatim>\<open>balloc\<close> returns the free block with the smallest number, which is now marked and zero, and changes no other block but
  the one of the bitmap; only this block's bit changes. When no block is free it panics. \<^verbatim>\<open>bfree\<close> then takes the block back, after
  which the same blocks are free as before, and freeing it once more panics. Nothing is written to the disk outside the
  log on the way.
\<close>

theorem balloc_bfree:
  fixes s :: "'z fsst_scheme"
  assumes v: "txn_view p dv \<sigma> Old cap C L {} s" and ok: "bitmap_ok (home_block \<sigma>) (sb s) C" and room: "card L + 2 < cap"
  shows "if \<forall>n < unat (sb_size (sb s)). \<not> blk_free (sb s) C n then balloc dv s = Panic ''balloc: out of blocks''
    else \<exists>n t C' L' u C''. n < unat (sb_size (sb s)) \<and> blk_free (sb s) C n \<and> (\<forall>m < n. \<not> blk_free (sb s) C m) \<and>
      balloc dv s = Ok (of_nat n) t \<and> txn_view p dv \<sigma> Old cap C' L' {} t \<and> txn_frame p s t \<and> inodes t = inodes s \<and>
      C' n = replicate BSIZE 0 \<and> (\<forall>m. m \<noteq> n \<and> m \<noteq> unat (BBLOCK (of_nat n) (sb s)) \<longrightarrow> C' m = C m) \<and>
      (\<forall>m < unat (sb_size (sb s)). blk_free (sb s) C' m \<longleftrightarrow> blk_free (sb s) C m \<and> m \<noteq> n) \<and>
      bfree dv (of_nat n) t = Ok () u \<and> txn_view p dv \<sigma> Old cap C'' L' {} u \<and> txn_frame p s u \<and>
      (\<forall>m < unat (sb_size (sb s)). blk_free (sb s) C'' m \<longleftrightarrow> blk_free (sb s) C m) \<and>
      bfree dv (of_nat n) u = Panic ''freeing free block''"
proof (cases "\<forall>n < unat (sb_size (sb s)). \<not> blk_free (sb s) C n")
  case True
  have "balloc dv s = Panic ''balloc: out of blocks''"
    using txn.balloc_full [OF v refl ok _ _ True] txn.cap_small [OF v] room by (simp add: held_data_def)
  then show ?thesis using True by simp
next
  case False
  define n where "n = (LEAST n. n < unat (sb_size (sb s)) \<and> blk_free (sb s) C n)"
  have n: "n < unat (sb_size (sb s))" "blk_free (sb s) C n"
    using False LeastI_ex [of "\<lambda>n. n < unat (sb_size (sb s)) \<and> blk_free (sb s) C n"] unfolding n_def by blast+
  have least: "\<forall>m < n. \<not> blk_free (sb s) C m"
    using n(1) not_less_Least [of _ "\<lambda>n. n < unat (sb_size (sb s)) \<and> blk_free (sb s) C n"] unfolding n_def [symmetric] by auto
  let ?bm = "BBLOCK (of_nat n) (sb s)" and ?C = "zero_at n (mark_block (sb s) n True C)"
  let ?L = "insert (of_nat n) (insert ?bm L)" and ?C' = "mark_block (sb s) n False ?C"
  note sz = txn.size_law [OF v] and cap = txn.cap_small [OF v]
  have h0: "held_data (sb s) A {} a" for A :: "nat \<Rightarrow> uchar list" and a :: "'z fsst_scheme" by (simp add: held_data_def)
  obtain t where 1: "balloc dv s = Ok (of_nat n) t" "txn_view p dv \<sigma> Old cap ?C ?L {} t" "txn_frame p s t" "held_same {} s t"
    using txn.balloc_spec [OF v refl ok n h0 _ _ least] room cap by auto
  have sbt: "sb t = sb s" by (rule txn.fr_sb [OF 1(3)])
  have free: "blk_free (sb s) ?C m \<longleftrightarrow> blk_free (sb s) C m \<and> m \<noteq> n" if "m < unat (sb_size (sb s))" for m
    by (rule alloc_free [OF ok n that sz])
  note ok' = bitmap_ok_alloc [OF ok n sz]
  have "card (insert ?bm L) \<le> card L + 1" "card ?L \<le> card (insert ?bm L) + 1"
    using txn.finite_logged [OF v] by (simp_all add: card_insert_if)
  then have room': "card ?L < cap" "card ?L + card ({} :: nat set) < NBUF" using room cap by simp_all
  have "insert ?bm ?L = ?L" by auto
  then obtain u where 2: "bfree dv (of_nat n) t = Ok () u" "txn_view p dv \<sigma> Old cap ?C' ?L {} u" "txn_frame p t u" "held_same {} t u"
    using txn.bfree_spec(2) [OF 1(2) sbt ok' n(1) h0 room'] free [OF n(1)] by auto
  have lt: "m < unat (sb_size (sb s)) \<Longrightarrow> m < 2 ^ 31" for m using ok by (simp add: bitmap_ok_def)
  have free': "blk_free (sb s) ?C' m \<longleftrightarrow> blk_free (sb s) C m" if "m < unat (sb_size (sb s))" for m
    using mark_block_free [OF lt [OF n(1)] lt [OF that] txn.size_law [OF 1(2)], of "sb s" False] free [OF that] n(2) by auto
  have ok'': "bitmap_ok (home_block \<sigma>) (sb s) ?C'" using ok free' unfolding bitmap_ok_def by blast
  have "sb u = sb s" using txn.fr_sb [OF 2(3)] sbt by simp
  then have 3: "bfree dv (of_nat n) u = Panic ''freeing free block''"
    using txn.bfree_spec(1) [OF 2(2) _ ok'' n(1) h0 room'] free' [OF n(1)] n(2) by blast
  have zero: "?C n = replicate BSIZE 0" "\<forall>m. m \<noteq> n \<and> m \<noteq> unat ?bm \<longrightarrow> ?C m = C m"
    by (simp_all add: zero_at_def mark_block_def Let_def)
  have ino: "inodes t = inodes s" using 1(4) by (simp add: held_same_def)
  note frame = txn_frame_trans [OF 1(3) 2(3)]
  have all: "\<forall>m < unat (sb_size (sb s)). blk_free (sb s) ?C m \<longleftrightarrow> blk_free (sb s) C m \<and> m \<noteq> n"
    "\<forall>m < unat (sb_size (sb s)). blk_free (sb s) ?C' m \<longleftrightarrow> blk_free (sb s) C m" using free free' by blast+
  show ?thesis unfolding if_not_P [OF False]
    by (intro exI [of _ n] exI [of _ t] exI [of _ ?C] exI [of _ ?L] exI [of _ u] exI [of _ ?C'] conjI)
      (rule n least 1(1-3) 2(1,2) 3 zero ino frame all)+
qed

text \<open>A disk on which the blocks before 46 are in use, as \<^verbatim>\<open>mkfs\<close> leaves them, and a transaction that has just begun.\<close>

definition fresh_img :: image where
  "fresh_img a = (if a div BSIZE = 45 then if a mod BSIZE < 5 then mask 8 else if a mod BSIZE = 5 then mask 6 else 0 else 0)"

definition fresh_state where
  "fresh_state = boot_cache\<lparr>img := fresh_img, lg := idle_log\<lparr>log_outstanding := 1\<rparr>\<rparr>"

lemma fresh_byte:
  assumes "i < BSIZE"
  shows "img_block fresh_img m ! i = (if m = 45 then if i < 5 then mask 8 else if i = 5 then mask 6 else 0 else 0)"
proof -
  have "(m * BSIZE + i) div BSIZE = m" "(m * BSIZE + i) mod BSIZE = i" using assms by simp_all
  then show ?thesis using assms by (simp add: img_block_def fresh_img_def)
qed

lemma fresh_block: "m \<noteq> 45 \<Longrightarrow> img_block fresh_img m = replicate BSIZE 0"
  by (rule nth_equalityI) (simp_all add: fresh_byte)

lemma fresh_free:
  assumes "b < 1000"
  shows "blk_free boot_sb (img_block fresh_img) b \<longleftrightarrow> 46 \<le> b"
proof -
  have "BBLOCK (of_nat b) boot_sb = 45" using assms bitmap_block [of b boot_sb] by (simp add: boot_sb_def BPB_def BSIZE_def)
  moreover have "b mod BPB = b" "b div 8 < BSIZE" using assms by (simp_all add: BPB_def BSIZE_def)
  ultimately have "blk_free boot_sb (img_block fresh_img) b \<longleftrightarrow> \<not> bit (img_block fresh_img 45 ! (b div 8)) (b mod 8)"
    by (simp add: blk_free_def mask_bits)
  also have "img_block fresh_img 45 ! (b div 8) = (if b div 8 < 5 then mask 8 else if b div 8 = 5 then mask 6 else 0)"
    using \<open>b div 8 < BSIZE\<close> by (simp add: fresh_byte)
  also have "(\<not> bit (if b div 8 < 5 then mask 8 else if b div 8 = 5 then mask 6 else 0 :: uchar) (b mod 8)) \<longleftrightarrow> 46 \<le> b"
  proof -
    have "46 \<le> b \<longleftrightarrow> 5 < b div 8 \<or> b div 8 = 5 \<and> 6 \<le> b mod 8" by presburger
    then show ?thesis by (auto simp: Bit_Operations.bit_mask_iff)
  qed
  finally show ?thesis .
qed

lemma fresh_bitmap: "bitmap_ok (home_block 2) boot_sb (img_block fresh_img)"
proof -
  have "BBLOCK (of_nat b) boot_sb = 45" if "b < 1000" for b using that bitmap_block [of b boot_sb] by (simp add: boot_sb_def BPB_def BSIZE_def)
  moreover have "home_block 2 (of_nat b)" "(45 :: uint) \<noteq> of_nat b" if "b < 1000" "46 \<le> b" for b
    using that by (auto simp: home_block_def unat_of_nat log_region_def LOGSIZE_def MAXOPBLOCKS_def word_unat_eq_iff)
  moreover have "unat (sb_size boot_sb) = 1000" "home_block 2 45"
    by (simp_all add: boot_sb_def home_block_def log_region_def LOGSIZE_def MAXOPBLOCKS_def)
  ultimately show ?thesis using fresh_free by (auto simp: bitmap_ok_def)
qed

lemma fresh_view: "txn_view (Suc 0) 1 2 (img_block fresh_img) 29 (img_block fresh_img) {} {} fresh_state"
proof -
  have "bc (Suc 0) 1 (img_block fresh_img) {} {} (pin_of {}) fresh_state"
    using boot_bc [of fresh_img] by (simp add: fresh_state_def pin_of_def [abs_def])
  then show ?thesis unfolding txn_view_def
    by (intro exI [of _ 0] exI [of _ "{}"]) (simp add: fresh_state_def log_shape_def logged_def idle_log_def LOGSIZE_def MAXOPBLOCKS_def fresh_block)
qed

lemma fresh_sb [simp]: "sb fresh_state = boot_sb"
  by (simp add: fresh_state_def boot_cache_def boot_def)

theorem balloc_bfree_witness:
  "\<exists>t. balloc 1 fresh_state = Ok 46 t \<and> (\<exists>u. bfree 1 46 t = Ok () u \<and> bfree 1 46 u = Panic ''freeing free block'')"
proof -
  have sz: "unat (sb_size boot_sb) = 1000" by (simp add: boot_sb_def)
  have r: "card ({} :: uint set) + 2 < 29" by simp
  have f: "\<not> (\<forall>n < unat (sb_size boot_sb). \<not> blk_free boot_sb (img_block fresh_img) n)"
    unfolding sz using fresh_free [of 46] by (auto intro!: exI [of _ 46])
  obtain n t u where n: "n < 1000" "blk_free boot_sb (img_block fresh_img) n" "\<forall>m < n. \<not> blk_free boot_sb (img_block fresh_img) m"
      "balloc 1 fresh_state = Ok (of_nat n) t" "bfree 1 (of_nat n) t = Ok () u" "bfree 1 (of_nat n) u = Panic ''freeing free block''"
    using balloc_bfree [OF fresh_view _ r, unfolded fresh_sb, OF fresh_bitmap, unfolded if_not_P [OF f], unfolded sz] by blast
  have "46 \<le> n" using n(1,2) fresh_free [of n] by simp
  moreover have "\<not> 46 < n" using n(3) fresh_free [of 46] by auto
  ultimately have "n = 46" by simp
  then show ?thesis using n(4-6) by auto
qed

end
