(* ===== verification/Fsfile.thy ===== *)
theory Fsfile
  imports Fsblocks Dinode
begin

text \<open>
  The contents of files (\<^verbatim>\<open>bmap\<close>, \<^verbatim>\<open>readi\<close>, \<^verbatim>\<open>writei\<close>, \<^verbatim>\<open>iupdate\<close> of \<^verbatim>\<open>fs.c\<close>), over the contract \<open>txn_blocks\<close>. A file is the
  function \<open>fbyte\<close> from offsets to bytes that its inode and the blocks give; a block that is not allocated reads as zero,
  which is what it holds once \<^verbatim>\<open>bmap\<close> has allocated it.
\<close>

section \<open>The blocks of a file\<close>

definition faddr :: "(nat \<Rightarrow> uchar list) \<Rightarrow> inode \<Rightarrow> nat \<Rightarrow> uint" where
  "faddr C x bn =
     (if bn < NDIRECT then i_addrs x ! bn
      else if i_addrs x ! NDIRECT = 0 then 0
      else get32 (C (unat (i_addrs x ! NDIRECT))) (4 * (bn - NDIRECT)))"

text \<open>All the blocks a file owns by slot: those of its data and, in slot \<^verbatim>\<open>MAXFILE\<close>, the indirect block.\<close>

definition saddr :: "(nat \<Rightarrow> uchar list) \<Rightarrow> inode \<Rightarrow> nat \<Rightarrow> uint" where
  "saddr C x k = (if k = MAXFILE then i_addrs x ! NDIRECT else faddr C x k)"

definition fbyte :: "(nat \<Rightarrow> uchar list) \<Rightarrow> inode \<Rightarrow> nat \<Rightarrow> uchar" where
  "fbyte C x i = (let a = faddr C x (i div BSIZE) in if a = 0 then 0 else C (unat a) ! (i mod BSIZE))"

definition data_block :: "(uint \<Rightarrow> bool) \<Rightarrow> superblock \<Rightarrow> (nat \<Rightarrow> uchar list) \<Rightarrow> uint \<Rightarrow> bool" where
  "data_block home sbk C a \<longleftrightarrow> unat a < unat (sb_size sbk) \<and> home a \<and> \<not> blk_free sbk C (unat a) \<and>
     (\<forall>c < unat (sb_size sbk). BBLOCK (of_nat c) sbk \<noteq> a)"

definition slots_ok :: "(uint \<Rightarrow> bool) \<Rightarrow> superblock \<Rightarrow> (nat \<Rightarrow> uchar list) \<Rightarrow> (nat \<Rightarrow> uint) \<Rightarrow> bool" where
  "slots_ok home sbk C f \<longleftrightarrow> (\<forall>k \<le> MAXFILE. f k \<noteq> 0 \<longrightarrow> data_block home sbk C (f k)) \<and> inj_on f {k. k \<le> MAXFILE \<and> f k \<noteq> 0}"

definition disk_ok :: "(uint \<Rightarrow> bool) \<Rightarrow> superblock \<Rightarrow> (nat \<Rightarrow> uchar list) \<Rightarrow> bool" where
  "disk_ok home sbk C \<longleftrightarrow> bitmap_ok home sbk C \<and> \<not> blk_free sbk C 0 \<and> (\<forall>n. length (C n) = BSIZE)"

definition file_ok :: "(uint \<Rightarrow> bool) \<Rightarrow> superblock \<Rightarrow> (nat \<Rightarrow> uchar list) \<Rightarrow> inode \<Rightarrow> bool" where
  "file_ok home sbk C x \<longleftrightarrow> disk_ok home sbk C \<and> length (i_addrs x) = NDIRECT + 1 \<and> slots_ok home sbk C (saddr C x)"

definition free_set :: "superblock \<Rightarrow> (nat \<Rightarrow> uchar list) \<Rightarrow> nat set" where
  "free_set sbk C = {b. b < unat (sb_size sbk) \<and> blk_free sbk C b}"

lemma finite_free [simp]: "finite (free_set sbk C)"
  by (simp add: free_set_def)

lemma free_not_zero: "disk_ok home sbk C \<Longrightarrow> n \<in> free_set sbk C \<Longrightarrow> n \<noteq> 0 \<and> n < 2 ^ 31 \<and> (of_nat n :: uint) \<noteq> 0 \<and> unat (of_nat n :: uint) = n"
  by (auto simp: disk_ok_def free_set_def bitmap_ok_def unat_of_nat word_unat_eq_iff intro!: Nat.gr0I)

section \<open>Taking a free block\<close>

definition taken :: "superblock \<Rightarrow> nat \<Rightarrow> (nat \<Rightarrow> uchar list) \<Rightarrow> nat \<Rightarrow> uchar list" where
  "taken sbk n C = zero_at n (mark_block sbk n True C)"

lemma taken_free:
  assumes "disk_ok home sbk C" and "n \<in> free_set sbk C"
  shows "free_set sbk (taken sbk n C) = free_set sbk C - {n}"
  using alloc_free [of home sbk C n] assms by (auto simp: disk_ok_def free_set_def taken_def)

lemma taken_disk_ok:
  assumes "disk_ok home sbk C" and "n \<in> free_set sbk C"
  shows "disk_ok home sbk (taken sbk n C)"
proof -
  have n: "n < unat (sb_size sbk)" "blk_free sbk C n" "n \<noteq> 0" using assms free_not_zero [OF assms] by (simp_all add: free_set_def)
  have len: "length (C m) = BSIZE" for m using assms(1) by (simp add: disk_ok_def)
  have "0 < unat (sb_size sbk)" using n(1) by simp
  then have "\<not> blk_free sbk (taken sbk n C) 0"
    using alloc_free [of home sbk C n 0] assms(1) n by (simp add: disk_ok_def taken_def)
  moreover have "bitmap_ok home sbk (taken sbk n C)"
    using bitmap_ok_alloc [of home sbk C n] assms(1) n by (simp add: disk_ok_def taken_def)
  moreover have "length (taken sbk n C m) = BSIZE" for m by (simp add: taken_def zero_at_def mark_block_def Let_def len)
  ultimately show ?thesis by (simp add: disk_ok_def)
qed

lemma taken_data:
  assumes "disk_ok home sbk C" and "n \<in> free_set sbk C" and "data_block home sbk C a"
  shows "taken sbk n C (unat a) = C (unat a)" and "a \<noteq> of_nat n" and "data_block home sbk (taken sbk n C) a"
proof -
  note nz = free_not_zero [OF assms(1,2)]
  have n: "n < unat (sb_size sbk)" "blk_free sbk C n" using assms(2) by (simp_all add: free_set_def)
  have a: "unat a < unat (sb_size sbk)" "\<not> blk_free sbk C (unat a)" "\<forall>c < unat (sb_size sbk). BBLOCK (of_nat c) sbk \<noteq> a"
    using assms(3) by (simp_all add: data_block_def)
  have ne: "unat a \<noteq> n" using n(2) a(2) by auto
  moreover have "unat a \<noteq> unat (BBLOCK (of_nat n) sbk)" using a(3) n(1) by (metis word_unat_eq_iff)
  ultimately show "taken sbk n C (unat a) = C (unat a)" by (simp add: taken_def zero_at_def mark_block_def Let_def)
  show "a \<noteq> of_nat n" using ne nz by auto
  have "\<not> blk_free sbk (taken sbk n C) (unat a)"
    using alloc_free [of home sbk C n "unat a"] assms(1) n a by (simp add: disk_ok_def taken_def)
  then show "data_block home sbk (taken sbk n C) a" using assms(3) by (simp add: data_block_def)
qed

lemma taken_new:
  assumes "disk_ok home sbk C" and "n \<in> free_set sbk C"
  shows "data_block home sbk (taken sbk n C) (of_nat n)" and "taken sbk n C n = replicate BSIZE 0"
proof -
  note nz = free_not_zero [OF assms]
  have n: "n < unat (sb_size sbk)" "blk_free sbk C n" using assms(2) by (simp_all add: free_set_def)
  have "\<not> blk_free sbk (taken sbk n C) n" using alloc_free [of home sbk C n n] assms(1) n by (simp add: disk_ok_def taken_def)
  then show "data_block home sbk (taken sbk n C) (of_nat n)" using assms(1) n nz by (auto simp: data_block_def disk_ok_def bitmap_ok_def)
  show "taken sbk n C n = replicate BSIZE 0" by (simp add: taken_def zero_at_def)
qed

lemma slots_taken:
  assumes "disk_ok home sbk C" and "n \<in> free_set sbk C" and "slots_ok home sbk C f" and "k \<le> MAXFILE" "f k = 0"
  shows "slots_ok home sbk (taken sbk n C) (f(k := of_nat n))"
proof -
  note t = taken_data [OF assms(1,2)] and new = taken_new [OF assms(1,2)]
  have f: "data_block home sbk C (f j)" if "j \<le> MAXFILE" "f j \<noteq> 0" for j using that assms(3) by (simp add: slots_ok_def)
  let ?S = "{j. j \<le> MAXFILE \<and> f j \<noteq> 0}"
  have "inj_on f ?S" using assms(3) by (simp add: slots_ok_def)
  moreover have fresh: "of_nat n \<notin> f ` ?S"
  proof
    assume "of_nat n \<in> f ` ?S"
    then obtain j where "j \<le> MAXFILE" "f j \<noteq> 0" "of_nat n = f j" by blast
    then show False using t(2) [OF f] by metis
  qed
  ultimately have "inj_on (f(k := of_nat n)) (insert k ?S)" using assms(5) by (auto simp: inj_on_def image_iff)
  moreover have "{j. j \<le> MAXFILE \<and> (f(k := of_nat n)) j \<noteq> 0} \<subseteq> insert k ?S" by auto
  ultimately have "inj_on (f(k := of_nat n)) {j. j \<le> MAXFILE \<and> (f(k := of_nat n)) j \<noteq> 0}" by (rule inj_on_subset)
  then show ?thesis using f t(3) new(1) by (simp add: slots_ok_def)
qed

section \<open>What an operation may do to a file and to the rest of the disk\<close>

text \<open>
  At most \<open>nf\<close> free blocks are used and \<open>nl\<close> blocks logged; slots that were empty may get a free block, the others keep theirs;
  a block in use that is not the file's keeps its contents.
\<close>

definition owns :: "(nat \<Rightarrow> uchar list) \<Rightarrow> inode \<Rightarrow> uint \<Rightarrow> bool" where
  "owns C x a \<longleftrightarrow> (\<exists>k \<le> MAXFILE. saddr C x k \<noteq> 0 \<and> saddr C x k = a)"

definition file_step :: "(uint \<Rightarrow> bool) \<Rightarrow> superblock \<Rightarrow> nat \<Rightarrow> nat \<Rightarrow> (nat \<Rightarrow> uchar list) \<times> uint set \<times> inode \<Rightarrow>
    (nat \<Rightarrow> uchar list) \<times> uint set \<times> inode \<Rightarrow> bool" where
  "file_step home sbk nf nl = (\<lambda>(C, L, x) (C', L', x').
     file_ok home sbk C' x' \<and> x' = x\<lparr>i_addrs := i_addrs x'\<rparr> \<and>
     free_set sbk C' \<subseteq> free_set sbk C \<and> card (free_set sbk C) \<le> card (free_set sbk C') + nf \<and>
     L \<subseteq> L' \<and> card L' \<le> card L + nl \<and>
     (\<forall>k \<le> MAXFILE. saddr C' x' k = saddr C x k \<or> saddr C x k = 0 \<and> unat (saddr C' x' k) \<in> free_set sbk C) \<and>
     (\<forall>a. data_block home sbk C a \<and> \<not> owns C x a \<longrightarrow> C' (unat a) = C (unat a)))"

lemma file_stepD:
  assumes "file_step home sbk nf nl (C, L, x) (C', L', x')"
  shows "file_ok home sbk C' x'" "x' = x\<lparr>i_addrs := i_addrs x'\<rparr>" "free_set sbk C' \<subseteq> free_set sbk C"
    "card (free_set sbk C) \<le> card (free_set sbk C') + nf" "L \<subseteq> L'" "card L' \<le> card L + nl"
    "k \<le> MAXFILE \<Longrightarrow> saddr C' x' k = saddr C x k \<or> saddr C x k = 0 \<and> unat (saddr C' x' k) \<in> free_set sbk C"
    "data_block home sbk C a \<Longrightarrow> \<not> owns C x a \<Longrightarrow> C' (unat a) = C (unat a)"
  using assms unfolding file_step_def by simp_all

lemma file_step_refl: "file_ok home sbk C x \<Longrightarrow> file_step home sbk 0 0 (C, L, x) (C, L, x)"
  by (simp add: file_step_def)

lemma data_block_mono:
  "data_block home sbk C a \<Longrightarrow> free_set sbk C' \<subseteq> free_set sbk C \<Longrightarrow> data_block home sbk C' a"
  by (auto simp: data_block_def free_set_def)

lemma file_step_trans:
  assumes "file_step home sbk nf nl (C, L, x) (C', L', x')" and "file_step home sbk mf ml (C', L', x') (C'', L'', x'')"
  shows "file_step home sbk (nf + mf) (nl + ml) (C, L, x) (C'', L'', x'')"
proof -
  note a = file_stepD [OF assms(1)] and b = file_stepD [OF assms(2)]
  have "x'' = x\<lparr>i_addrs := i_addrs x''\<rparr>" using a(2) b(2) by (metis inode.surjective inode.update_convs(10))
  moreover have "saddr C'' x'' k = saddr C x k \<or> saddr C x k = 0 \<and> unat (saddr C'' x'' k) \<in> free_set sbk C" if "k \<le> MAXFILE" for k
    using a(7) [OF that] b(7) [OF that] a(3) by auto
  moreover have "C'' (unat d) = C (unat d)" if d: "data_block home sbk C d" "\<not> owns C x d" for d
  proof -
    have "unat d \<notin> free_set sbk C" using d(1) by (simp add: data_block_def free_set_def)
    then have "\<not> owns C' x' d" using d(2) a(7) unfolding owns_def by metis
    then show ?thesis using a(8) [OF d] b(8) [of d] data_block_mono [OF d(1) a(3)] by simp
  qed
  ultimately show ?thesis using a b unfolding file_step_def by auto
qed

lemma slots_ok_cong:
  assumes "free_set sbk C' = free_set sbk C" and "\<And>k. k \<le> MAXFILE \<Longrightarrow> f k = g k" and "slots_ok home sbk C f"
  shows "slots_ok home sbk C' g"
proof -
  have "{k. k \<le> MAXFILE \<and> g k \<noteq> 0} = {k. k \<le> MAXFILE \<and> f k \<noteq> 0}" using assms(2) by auto
  moreover have "inj_on g {k. k \<le> MAXFILE \<and> f k \<noteq> 0} = inj_on f {k. k \<le> MAXFILE \<and> f k \<noteq> 0}" using assms(2) by (intro inj_on_cong) simp
  ultimately show ?thesis using assms data_block_mono [of home sbk C _ C'] unfolding slots_ok_def by simp
qed

lemma take_slot:
  assumes ok: "file_ok home sbk C x" and n: "n \<in> free_set sbk C" and k: "k \<le> MAXFILE" "saddr C x k = 0"
    and sl: "\<And>j. j \<le> MAXFILE \<Longrightarrow> saddr C' x' j = ((saddr C x)(k := of_nat n)) j"
    and x': "x' = x\<lparr>i_addrs := i_addrs x'\<rparr>" "length (i_addrs x') = NDIRECT + 1"
    and C': "disk_ok home sbk C'" "free_set sbk C' = free_set sbk C - {n}"
    and same: "\<And>a. data_block home sbk C a \<Longrightarrow> \<not> owns C x a \<Longrightarrow> C' (unat a) = C (unat a)"
    and L: "L \<subseteq> L'" "card L' \<le> card L + nl"
  shows "file_step home sbk 1 nl (C, L, x) (C', L', x')"
proof -
  have d: "disk_ok home sbk C" "slots_ok home sbk C (saddr C x)" using ok by (simp_all add: file_ok_def)
  note s = slots_taken [OF d(1) n d(2) k] and nz = free_not_zero [OF d(1) n]
  have "slots_ok home sbk C' (saddr C' x')"
    by (rule slots_ok_cong [OF _ _ s]) (simp_all add: C'(2) taken_free [OF d(1) n] sl)
  moreover have "card (free_set sbk C) \<le> card (free_set sbk C') + 1" unfolding C'(2) using n by (simp add: card_Diff_singleton)
  moreover have "saddr C' x' j = saddr C x j \<or> saddr C x j = 0 \<and> unat (saddr C' x' j) \<in> free_set sbk C" if "j \<le> MAXFILE" for j
    using sl [OF that] k(2) n nz by auto
  ultimately show ?thesis using x' C' L same unfolding file_step_def file_ok_def by auto
qed

definition same_bytes :: "(nat \<Rightarrow> uchar list) \<Rightarrow> inode \<Rightarrow> (nat \<Rightarrow> uchar list) \<Rightarrow> inode \<Rightarrow> bool" where
  "same_bytes C x C' x' \<longleftrightarrow> (\<forall>i < MAXFILE * BSIZE. fbyte C' x' i = fbyte C x i)"

lemma block_of_byte: "i < MAXFILE * BSIZE \<Longrightarrow> i div BSIZE < MAXFILE"
  by (simp add: less_mult_imp_div_less)

lemma same_bytesI:
  assumes "\<And>j. j < MAXFILE \<Longrightarrow> saddr C' x' j = saddr C x j \<or> saddr C x j = 0 \<and> C' (unat (saddr C' x' j)) = replicate BSIZE 0"
    and "\<And>j. j < MAXFILE \<Longrightarrow> saddr C x j \<noteq> 0 \<Longrightarrow> C' (unat (saddr C x j)) = C (unat (saddr C x j))"
  shows "same_bytes C x C' x'"
  unfolding same_bytes_def
proof (intro allI impI)
  fix i assume "i < MAXFILE * BSIZE"
  then have j: "i div BSIZE < MAXFILE" by (rule block_of_byte)
  have e: "faddr A y (i div BSIZE) = saddr A y (i div BSIZE)" for A y using j by (simp add: saddr_def)
  have "i mod BSIZE < BSIZE" by (simp add: BSIZE_def)
  then show "fbyte C' x' i = fbyte C x i" using assms(1,2) [OF j] by (auto simp: fbyte_def Let_def e)
qed

lemma get32_zero: "i + 4 \<le> BSIZE \<Longrightarrow> get32 (replicate BSIZE 0) i = 0"
  by (simp add: get32_def bytes_at_def numeral_eq_Suc)

lemma taken_owned:
  assumes "file_ok home sbk C x" and "n \<in> free_set sbk C" and "k \<le> MAXFILE" "saddr C x k \<noteq> 0"
  shows "taken sbk n C (unat (saddr C x k)) = C (unat (saddr C x k))" and "saddr C x k \<noteq> of_nat n"
proof -
  have "disk_ok home sbk C" "data_block home sbk C (saddr C x k)" using assms by (simp_all add: file_ok_def slots_ok_def)
  from taken_data(1,2) [OF this(1) assms(2) this(2)] show "taken sbk n C (unat (saddr C x k)) = C (unat (saddr C x k))" "saddr C x k \<noteq> of_nat n" .
qed

lemma indirect_slot: "saddr C x MAXFILE = i_addrs x ! NDIRECT"
  by (simp add: saddr_def)

text \<open>A free block for a direct slot.\<close>

lemma take_direct:
  assumes ok: "file_ok home sbk C x" and n: "n \<in> free_set sbk C" and bn: "bn < NDIRECT" "i_addrs x ! bn = 0"
    and L: "L \<subseteq> L'" "card L' \<le> card L + nl"
  defines "x' \<equiv> x\<lparr>i_addrs := (i_addrs x)[bn := of_nat n]\<rparr>"
  shows "file_step home sbk 1 nl (C, L, x) (taken sbk n C, L', x')" and "same_bytes C x (taken sbk n C) x'"
proof -
  have d: "disk_ok home sbk C" "length (i_addrs x) = NDIRECT + 1" using ok by (simp_all add: file_ok_def)
  note o = taken_owned [OF ok n] and nz = free_not_zero [OF d(1) n]
  have m: "bn \<le> MAXFILE" "bn < MAXFILE" using bn(1) by (simp_all add: MAXFILE_def)
  have k: "saddr C x bn = 0" using bn m by (simp add: saddr_def faddr_def)
  have sl: "saddr (taken sbk n C) x' j = ((saddr C x)(bn := of_nat n)) j" if "j \<le> MAXFILE" for j
    using bn(1) m d(2) o(1) [of MAXFILE] by (auto simp: saddr_def faddr_def x'_def)
  show "file_step home sbk 1 nl (C, L, x) (taken sbk n C, L', x')"
    by (rule take_slot [OF ok n m(1) k sl _ _ _ _ _ L])
      (simp_all add: x'_def d(2) taken_disk_ok [OF d(1) n] taken_free [OF d(1) n] taken_data(1) [OF d(1) n])
  show "same_bytes C x (taken sbk n C) x'"
    using sl k o(1) nz taken_new(2) [OF d(1) n] by (intro same_bytesI) (auto simp: fun_upd_def)
qed

text \<open>A free block for the indirect block.\<close>

lemma take_indirect:
  assumes ok: "file_ok home sbk C x" and n: "n \<in> free_set sbk C" and z: "i_addrs x ! NDIRECT = 0"
    and L: "L \<subseteq> L'" "card L' \<le> card L + nl"
  defines "x' \<equiv> x\<lparr>i_addrs := (i_addrs x)[NDIRECT := of_nat n]\<rparr>"
  shows "file_step home sbk 1 nl (C, L, x) (taken sbk n C, L', x')" and "same_bytes C x (taken sbk n C) x'"
proof -
  have d: "disk_ok home sbk C" "length (i_addrs x) = NDIRECT + 1" using ok by (simp_all add: file_ok_def)
  note o = taken_owned [OF ok n] and nz = free_not_zero [OF d(1) n]
  have k: "saddr C x MAXFILE = 0" using z by (simp add: indirect_slot)
  have sl: "saddr (taken sbk n C) x' j = ((saddr C x)(MAXFILE := of_nat n)) j" if "j \<le> MAXFILE" for j
  proof (cases "NDIRECT \<le> j \<and> j < MAXFILE")
    case True
    then have "4 * (j - NDIRECT) + 4 \<le> BSIZE" by (auto simp: MAXFILE_def NDIRECT_def NINDIRECT_def BSIZE_def)
    then show ?thesis using True z d(2) nz taken_new(2) [OF d(1) n] get32_zero by (simp add: saddr_def faddr_def x'_def)
  next
    case False
    then show ?thesis using that d(2) by (auto simp: saddr_def faddr_def x'_def)
  qed
  show "file_step home sbk 1 nl (C, L, x) (taken sbk n C, L', x')"
    by (rule take_slot [OF ok n order_refl k sl _ _ _ _ _ L])
      (simp_all add: x'_def d(2) taken_disk_ok [OF d(1) n] taken_free [OF d(1) n] taken_data(1) [OF d(1) n])
  show "same_bytes C x (taken sbk n C) x'"
    using sl o(1) by (intro same_bytesI) auto
qed

text \<open>Writing a block in use leaves the bitmap alone.\<close>

lemma put_data_block:
  assumes "disk_ok home sbk C" and "data_block home sbk C a" and "length d = BSIZE"
  shows "disk_ok home sbk (C(unat a := d))" and "free_set sbk (C(unat a := d)) = free_set sbk C"
proof -
  have "unat (BBLOCK (of_nat c) sbk) \<noteq> unat a" if "c < unat (sb_size sbk)" for c
    using that assms(2) by (auto simp: data_block_def word_unat_eq_iff)
  then have f: "blk_free sbk (C(unat a := d)) c = blk_free sbk C c" if "c < unat (sb_size sbk)" for c using that by (simp add: blk_free_def)
  show "free_set sbk (C(unat a := d)) = free_set sbk C" using f by (auto simp: free_set_def)
  have "0 < unat (sb_size sbk)" using assms(2) by (auto simp: data_block_def)
  then show "disk_ok home sbk (C(unat a := d))" using assms f unfolding disk_ok_def bitmap_ok_def by simp
qed

lemma owned_data: "file_ok home sbk C x \<Longrightarrow> k \<le> MAXFILE \<Longrightarrow> saddr C x k \<noteq> 0 \<Longrightarrow> data_block home sbk C (saddr C x k)"
  by (simp add: file_ok_def slots_ok_def)

lemma owned_distinct:
  "file_ok home sbk C x \<Longrightarrow> j \<le> MAXFILE \<Longrightarrow> k \<le> MAXFILE \<Longrightarrow> saddr C x j \<noteq> 0 \<Longrightarrow> saddr C x j = saddr C x k \<Longrightarrow> j = k"
  by (auto simp: file_ok_def slots_ok_def inj_on_def)

text \<open>A free block for an entry of the indirect block.\<close>

lemma take_entry:
  assumes ok: "file_ok home sbk C x" and n: "n \<in> free_set sbk C" and j: "j < NINDIRECT" and ind: "i_addrs x ! NDIRECT \<noteq> 0"
    and z: "get32 (C (unat (i_addrs x ! NDIRECT))) (4 * j) = 0" and L: "L \<subseteq> L'" "card L' \<le> card L + nl"
  defines "C' \<equiv> (taken sbk n C)(unat (i_addrs x ! NDIRECT) := put32 (C (unat (i_addrs x ! NDIRECT))) (4 * j) (of_nat n))"
  shows "file_step home sbk 1 nl (C, L, x) (C', L', x)" and "same_bytes C x C' x"
proof -
  let ?a = "i_addrs x ! NDIRECT"
  have d: "disk_ok home sbk C" "length (i_addrs x) = NDIRECT + 1" "\<And>m. length (C m) = BSIZE" using ok by (simp_all add: file_ok_def disk_ok_def)
  note o = taken_owned [OF ok n] and nz = free_not_zero [OF d(1) n]
  have e: "4 * i + 4 \<le> BSIZE" if "i < NINDIRECT" for i using that by (simp add: NINDIRECT_def BSIZE_def)
  have ia: "data_block home sbk C ?a" using owned_data [OF ok order_refl] ind by (simp add: indirect_slot)
  have ia': "data_block home sbk (taken sbk n C) ?a" by (rule taken_data(3) [OF d(1) n ia])
  have len: "length (put32 (C (unat ?a)) (4 * j) (of_nat n)) = BSIZE" using e [OF j] d(3) by simp
  note p = put_data_block [OF taken_disk_ok [OF d(1) n] ia' len, folded C'_def]
  have own: "C' (unat (saddr C x k)) = C (unat (saddr C x k))" if "k < MAXFILE" "saddr C x k \<noteq> 0" for k
    using that o(1) [of k] owned_distinct [OF ok, of k MAXFILE] by (auto simp: C'_def indirect_slot word_unat_eq_iff)
  have kj: "NDIRECT + j \<le> MAXFILE" "NDIRECT + j < MAXFILE" using j by (simp_all add: MAXFILE_def)
  have k: "saddr C x (NDIRECT + j) = 0" using z kj ind by (simp add: saddr_def faddr_def)
  have sl: "saddr C' x i = ((saddr C x)(NDIRECT + j := of_nat n)) i" if "i \<le> MAXFILE" for i
  proof (cases "NDIRECT \<le> i \<and> i < MAXFILE")
    case True
    then obtain i' where i': "i = NDIRECT + i'" "i' < NINDIRECT" by (auto simp: MAXFILE_def le_iff_add)
    have "get32 (put32 (C (unat ?a)) (4 * j) (of_nat n)) (4 * i') = get32 (C (unat ?a)) (4 * i')" if "i' \<noteq> j"
      using e [OF j] e [OF i'(2)] d(3) that by (intro get32_put32_other) auto
    then show ?thesis using i' kj ind e [OF j] d(3) True by (cases "i' = j") (auto simp: saddr_def faddr_def C'_def)
  next
    case False
    then show ?thesis using that kj by (auto simp: saddr_def faddr_def)
  qed
  show "file_step home sbk 1 nl (C, L, x) (C', L', x)"
  proof (rule take_slot [OF ok n kj(1) k sl _ _ _ _ _ L])
    fix a assume a: "data_block home sbk C a" "\<not> owns C x a"
    have "?a \<noteq> a" using a(2) ind unfolding owns_def by (metis indirect_slot order_refl)
    then show "C' (unat a) = C (unat a)" using taken_data(1) [OF d(1) n a(1)] by (auto simp: C'_def word_unat_eq_iff)
  qed (simp_all add: d(2) p taken_free [OF d(1) n])
  have "n \<noteq> unat ?a" using o(2) [OF order_refl] ind nz by (auto simp: indirect_slot)
  then have "C' n = replicate BSIZE 0" using taken_new(2) [OF d(1) n] by (simp add: C'_def)
  then show "same_bytes C x C' x" using sl k own nz by (intro same_bytesI) (auto simp: fun_upd_def)
qed

text \<open>New contents for a data block.\<close>

lemma put_slot:
  assumes ok: "file_ok home sbk C x" and k: "k < MAXFILE" "saddr C x k \<noteq> 0" and len: "length d = BSIZE" and L: "L \<subseteq> L'" "card L' \<le> card L + nl"
  defines "C' \<equiv> C(unat (saddr C x k) := d)"
  shows "file_step home sbk 0 nl (C, L, x) (C', L', x)"
    and "i < MAXFILE * BSIZE \<Longrightarrow> fbyte C' x i = (if i div BSIZE = k then d ! (i mod BSIZE) else fbyte C x i)"
proof -
  have d: "disk_ok home sbk C" "slots_ok home sbk C (saddr C x)" using ok by (simp_all add: file_ok_def)
  have da: "data_block home sbk C (saddr C x k)" using owned_data [OF ok _ k(2)] k(1) by simp
  note p = put_data_block [OF d(1) da len, folded C'_def]
  have ind: "C' (unat (i_addrs x ! NDIRECT)) = C (unat (i_addrs x ! NDIRECT))" if "i_addrs x ! NDIRECT \<noteq> 0"
    using owned_distinct [OF ok, of k MAXFILE] k that by (auto simp: C'_def indirect_slot word_unat_eq_iff)
  then have sl: "saddr C' x i = saddr C x i" for i by (auto simp: saddr_def faddr_def)
  then have fa: "faddr C' x i = faddr C x i" for i using ind by (auto simp: faddr_def)
  have "slots_ok home sbk C' (saddr C' x)" by (rule slots_ok_cong [OF p(2) _ d(2)]) (simp add: sl)
  moreover have "C' (unat a) = C (unat a)" if "\<not> owns C x a" for a
    using that k unfolding owns_def C'_def by (metis fun_upd_other less_imp_le word_unat_eq_iff)
  ultimately show "file_step home sbk 0 nl (C, L, x) (C', L', x)" using p ok sl L by (simp add: file_step_def file_ok_def)
  show "fbyte C' x i = (if i div BSIZE = k then d ! (i mod BSIZE) else fbyte C x i)" if "i < MAXFILE * BSIZE"
  proof -
    have j: "i div BSIZE < MAXFILE" using block_of_byte [OF that] .
    have e: "faddr C x (i div BSIZE) = saddr C x (i div BSIZE)" using j by (simp add: saddr_def)
    have C': "C' (unat a) = (if a = saddr C x k then d else C (unat a))" for a by (simp add: C'_def word_unat_eq_iff)
    show ?thesis
    proof (cases "i div BSIZE = k")
      case True
      then show ?thesis using e k(2) by (simp add: fbyte_def Let_def fa C')
    next
      case False
      then have "saddr C x (i div BSIZE) \<noteq> saddr C x k" if "saddr C x (i div BSIZE) \<noteq> 0"
        using owned_distinct [OF ok, of "i div BSIZE" k] that j k(1) by auto
      then show ?thesis using False e by (auto simp: fbyte_def Let_def fa C')
    qed
  qed
qed

lemma file_step_mono:
  "file_step home sbk nf nl (C, L, x) (C', L', x') \<Longrightarrow> nf \<le> mf \<Longrightarrow> nl \<le> ml \<Longrightarrow> file_step home sbk mf ml (C, L, x) (C', L', x')"
  unfolding file_step_def by auto

lemma same_bytes_refl [simp]: "same_bytes C x C x"
  by (simp add: same_bytes_def)

lemma same_bytes_trans: "same_bytes C x C' x' \<Longrightarrow> same_bytes C' x' C'' x'' \<Longrightarrow> same_bytes C x C'' x''"
  by (simp add: same_bytes_def)

section \<open>bmap\<close>

text \<open>The result of an operation on the file of inode \<open>ip\<close>: the new view, and nothing else changed in memory.\<close>

definition ran_file where
  "ran_file view fr ip s C' L' x' t \<longleftrightarrow> view C' L' {} t \<and> fr s t \<and> inodes t = (inodes s)(ip := x')"

context txn_blocks
begin

lemma balloc_taken:
  assumes v: "view C L H s" and ok: "disk_ok home (sb s) C" and H: "held_data (sb s) C H s" and room: "card L + 1 < cap" "card L + card H + 1 < NBUF"
    and ne: "free_set (sb s) C \<noteq> {}"
  shows "\<exists>n t L'. n \<in> free_set (sb s) C \<and> balloc dv s = Ok (of_nat n) t \<and> view (taken (sb s) n C) L' H t \<and> fr s t \<and> held_same H s t \<and>
    L \<subseteq> L' \<and> card L' \<le> card L + 2"
proof -
  let ?n = "Min (free_set (sb s) C)"
  have n: "?n \<in> free_set (sb s) C" using ne by simp
  then have n': "?n < unat (sb_size (sb s))" "blk_free (sb s) C ?n" by (simp_all add: free_set_def)
  have "\<forall>m < ?n. \<not> blk_free (sb s) C m"
  proof (intro allI impI notI)
    fix m assume m: "m < ?n" "blk_free (sb s) C m"
    then have "m \<in> free_set (sb s) C" using n'(1) by (simp add: free_set_def)
    then show False using leD [OF Min_le [OF finite_free]] m(1) by blast
  qed
  then obtain t where "balloc dv s = Ok (of_nat ?n) t" "view (taken (sb s) ?n C) (insert (of_nat ?n) (insert (BBLOCK (of_nat ?n) (sb s)) L)) H t"
      "fr s t" "held_same H s t"
    using balloc_spec [OF v refl _ n' H room] ok unfolding disk_ok_def taken_def by blast
  moreover have "card (insert (of_nat ?n) (insert (BBLOCK (of_nat ?n) (sb s)) L)) \<le> card L + 2"
    using finite_logged [OF v] by (simp add: card_insert_if)
  ultimately show ?thesis using n by (intro exI [of _ ?n] exI [of _ t] exI conjI) auto
qed

lemma bmap_addr_spec:
  assumes v: "view C L {} s" and x: "inodes s ip = x" "i_dev x = dv" and ok: "file_ok home (sb s) C x" and i: "i \<le> NDIRECT"
    and room: "card L + 1 < cap" and ne: "free_set (sb s) C \<noteq> {}"
  shows "\<exists>a t C' L' x'. bmap_addr ip i s = Ok a t \<and> ran_file view fr ip s C' L' x' t \<and> file_step home (sb s) 1 2 (C, L, x) (C', L', x') \<and>
    same_bytes C x C' x' \<and> a = i_addrs x' ! i \<and> a \<noteq> 0"
proof (cases "i_addrs x ! i = 0")
  case False
  have "file_step home (sb s) 1 2 (C, L, x) (C, L, x)" using file_step_mono [OF file_step_refl [OF ok]] by blast
  moreover have "ran_file view fr ip s C L x s" using v x(1) by (auto simp: ran_file_def)
  ultimately show ?thesis using False x(1) by (intro exI) (auto simp: bmap_addr_def kop_simps get_inode_def)
next
  case True
  have d: "disk_ok home (sb s) C" "length (i_addrs x) = NDIRECT + 1" using ok by (simp_all add: file_ok_def)
  have "card L + card ({} :: nat set) + 1 < NBUF" using room cap_small [OF v] by simp
  then obtain n t L' where 1: "n \<in> free_set (sb s) C" "balloc dv s = Ok (of_nat n) t" "view (taken (sb s) n C) L' {} t" "fr s t"
      "held_same {} s t" "L \<subseteq> L'" "card L' \<le> card L + 2"
    using balloc_taken [OF v d(1) _ room _ ne] by (auto simp: held_data_def)
  let ?x = "x\<lparr>i_addrs := (i_addrs x)[i := of_nat n]\<rparr>" and ?t = "t\<lparr>inodes := (inodes t)(ip := x\<lparr>i_addrs := (i_addrs x)[i := of_nat n]\<rparr>)\<rparr>"
  have st: "file_step home (sb s) 1 2 (C, L, x) (taken (sb s) n C, L', ?x)" "same_bytes C x (taken (sb s) n C) ?x"
    using take_direct [OF ok 1(1) _ True 1(6,7)] take_indirect [OF ok 1(1) _ 1(6,7)] True i
    by (cases "i = NDIRECT"; simp)+
  have ino: "inodes t = inodes s" using 1(5) by (simp add: held_same_def)
  have "bmap_addr ip i s = Ok (of_nat n) ?t"
    using True x 1(2) ino by (simp add: bmap_addr_def set_addr_def upd_inode_def kop_simps get_inode_def)
  moreover have "ran_file view fr ip s (taken (sb s) n C) L' ?x ?t"
    using inode_law [OF 1(3)] fr_trans [OF 1(4) fr_refl] ino by (simp add: ran_file_def)
  ultimately show ?thesis using st free_not_zero [OF d(1) 1(1)] i d(2) by (intro exI [of _ "of_nat n"] exI [of _ ?t] exI conjI) auto
qed

lemma held_indirect:
  assumes "disk_ok home sbk C" and "data_block home sbk C a" and "b_blockno (bufs s b) = a"
  shows "held_data sbk C {b} s"
  using assms free_not_zero [OF assms(1)] by (auto simp: held_data_def data_block_def free_set_def)

text \<open>The entry of an indirect block that is held: it is there, or a block is allocated for it.\<close>

lemma bmap_entry:
  assumes v: "view C L {b} s" and x: "inodes s ip = x" and ok: "file_ok home (sb s) C x" and j: "j < NINDIRECT"
    and ind: "i_addrs x ! NDIRECT \<noteq> 0" "b_blockno (bufs s b) = i_addrs x ! NDIRECT" and room: "card L + 2 < cap" and ne: "free_set (sb s) C \<noteq> {}"
  shows "\<exists>a t C' L'.
    bnd (get_buf b (\<lambda>y. get32 (b_data y) (4 * j))) (\<lambda>a.
    bnd (if a = 0
         then bnd (balloc dv) (\<lambda>a. thn (upd_buf b (\<lambda>y. y\<lparr>b_data := put32 (b_data y) (4 * j) a\<rparr>)) (thn (log_write b) (ret a)))
         else ret a) (\<lambda>a. thn (brelse b) (ret a))) s = Ok a t \<and>
    ran_file view fr ip s C' L' x t \<and> file_step home (sb s) 1 3 (C, L, x) (C', L', x) \<and> same_bytes C x C' x \<and>
    a = saddr C' x (NDIRECT + j) \<and> a \<noteq> 0"
proof -
  let ?i = "i_addrs x ! NDIRECT"
  have d: "disk_ok home (sb s) C" "\<And>m. length (C m) = BSIZE" using ok by (simp_all add: file_ok_def disk_ok_def)
  have data: "b_data (bufs s b) = C (unat ?i)" using data_law [OF v, of b] ind(2) by simp
  have kj: "NDIRECT + j < MAXFILE" using j by (simp add: MAXFILE_def)
  have sa: "saddr C x (NDIRECT + j) = get32 (C (unat ?i)) (4 * j)" using kj ind(1) by (simp add: saddr_def faddr_def)
  have ib: "data_block home (sb s) C ?i" using owned_data [OF ok order_refl] ind(1) by (simp add: indirect_slot)
  show ?thesis
  proof (cases "get32 (C (unat ?i)) (4 * j) = 0")
    case False
    obtain t where t: "brelse b s = Ok () t" "view C L ({b} - {b}) t" "fr s t" "held_same {b} s t" using brelse_law [OF v] by blast
    have "ran_file view fr ip s C L x t" using t(2-4) x by (auto simp: ran_file_def held_same_def)
    moreover have "file_step home (sb s) 1 3 (C, L, x) (C, L, x)" using file_step_mono [OF file_step_refl [OF ok]] by blast
    ultimately show ?thesis using False data t(1) sa by (intro exI) (auto simp: kop_simps get_buf_def)
  next
    case True
    have "card L + 1 < cap" "card L + card {b} + 1 < NBUF" using room cap_small [OF v] by simp_all
    then obtain n t1 L1 where 1: "n \<in> free_set (sb s) C" "balloc dv s = Ok (of_nat n) t1" "view (taken (sb s) n C) L1 {b} t1" "fr s t1"
        "held_same {b} s t1" "L \<subseteq> L1" "card L1 \<le> card L + 2"
      using balloc_taken [OF v d(1) held_indirect [OF d(1) ib ind(2)] _ _ ne] by blast
    note nz = free_not_zero [OF d(1) 1(1)] and ti = taken_data(1) [OF d(1) 1(1) ib]
    have b1: "?i = b_blockno (bufs t1 b)" using 1(5) ind(2) by (simp add: held_same_def)
    have dt: "b_data (bufs t1 b) = C (unat ?i)" using data_law [OF 1(3), of b] b1 ti by simp
    let ?d = "put32 (C (unat ?i)) (4 * j) (of_nat n)" and ?C = "(taken (sb s) n C)(unat ?i := put32 (C (unat ?i)) (4 * j) (of_nat n))"
    have hi: "home ?i" using ib by (simp add: data_block_def)
    have len: "length ?d = BSIZE" using d(2) j by (simp add: NINDIRECT_def BSIZE_def)
    have "card L1 < cap" using 1(7) room by simp
    then obtain u t2 where 2: "upd_buf b (\<lambda>y. y\<lparr>b_data := put32 (b_data y) (4 * j) (of_nat n)\<rparr>) t1 = Ok () u" "log_write b u = Ok () t2"
        "view ?C (insert ?i L1) {b} t2" "fr t1 t2" "held_same {b} t1 t2"
      using write_law [OF 1(3) _ b1 hi len, of "\<lambda>y. y\<lparr>b_data := put32 (b_data y) (4 * j) (of_nat n)\<rparr>"] dt by auto
    obtain t3 where 3: "brelse b t2 = Ok () t3" "view ?C (insert ?i L1) ({b} - {b}) t3" "fr t2 t3" "held_same {b} t2 t3"
      using brelse_law [OF 2(3)] by blast
    have L: "L \<subseteq> insert ?i L1" "card (insert ?i L1) \<le> card L + 3" using 1(6,7) finite_logged [OF 1(3)] by (auto simp: card_insert_if)
    note st = take_entry [OF ok 1(1) j ind(1) True L]
    have "inodes t3 = inodes s" using 1(5) 2(5) 3(4) by (simp add: held_same_def)
    then have "ran_file view fr ip s ?C (insert ?i L1) x t3"
      using 3(2) x fr_trans 1(4) 2(4) 3(3) by (auto simp: ran_file_def)
    moreover have "saddr ?C x (NDIRECT + j) = of_nat n" using kj ind(1) d(2) j by (simp add: saddr_def faddr_def NINDIRECT_def BSIZE_def)
    ultimately show ?thesis using True data nz 1(2) 2(1,2) 3(1) st
      by (intro exI [of _ "of_nat n"] exI [of _ t3] exI conjI) (auto simp: kop_simps get_buf_def)
  qed
qed

lemma ran_file_trans:
  assumes "ran_file view fr ip s C L x t" and "ran_file view fr ip t C' L' x' u"
  shows "ran_file view fr ip s C' L' x' u" and "sb t = sb s"
  using assms fr_trans fr_sb by (auto simp: ran_file_def)

lemma bmap_spec:
  assumes v: "view C L {} s" and x: "inodes s ip = x" "i_dev x = dv" and ok: "file_ok home (sb s) C x" and bn: "bn < MAXFILE"
    and room: "card L + 4 < cap" and free: "2 \<le> card (free_set (sb s) C)"
  shows "\<exists>a t C' L' x'. bmap ip bn s = Ok a t \<and> ran_file view fr ip s C' L' x' t \<and> file_step home (sb s) 2 5 (C, L, x) (C', L', x') \<and>
    same_bytes C x C' x' \<and> a = saddr C' x' bn \<and> a \<noteq> 0"
proof (cases "bn < NDIRECT")
  case True
  have r: "bn \<le> NDIRECT" "card L + 1 < cap" "free_set (sb s) C \<noteq> {}" using True room free by auto
  obtain a t C' L' x' where 1: "bmap_addr ip bn s = Ok a t" "ran_file view fr ip s C' L' x' t" "file_step home (sb s) 1 2 (C, L, x) (C', L', x')"
      "same_bytes C x C' x'" "a = i_addrs x' ! bn" "a \<noteq> 0"
    using bmap_addr_spec [OF v x ok r] by blast
  have "a = saddr C' x' bn" using 1(5) True bn by (simp add: saddr_def faddr_def)
  then show ?thesis using 1 True file_step_mono [OF 1(3), of 2 5] by (intro exI [of _ a] exI [of _ t] exI conjI) (auto simp: bmap_def)
next
  case False
  have r: "card L + 1 < cap" "free_set (sb s) C \<noteq> {}" using room free by auto
  obtain a t C' L' x' where 1: "bmap_addr ip NDIRECT s = Ok a t" "ran_file view fr ip s C' L' x' t" "file_step home (sb s) 1 2 (C, L, x) (C', L', x')"
      "same_bytes C x C' x'" "a = i_addrs x' ! NDIRECT" "a \<noteq> 0"
    using bmap_addr_spec [OF v x ok order_refl r] by blast
  note s1 = file_stepD [OF 1(3)]
  have sbt: "sb t = sb s" and v1: "view C' L' {} t" and x1: "inodes t ip = x'" using 1(2) fr_sb by (auto simp: ran_file_def)
  have dev: "i_dev x' = dv" using s1(2) x(2) by (metis inode.select_convs(1) inode.surjective inode.update_convs(10))
  have "data_block home (sb s) C' a" using owned_data [OF s1(1) order_refl] 1(5,6) by (simp add: indirect_slot)
  then have "home a" by (simp add: data_block_def)
  moreover have "card L' + card ({} :: nat set) < NBUF" using s1(6) room cap_small [OF v] by simp
  ultimately obtain b t1 where 2: "bread dv a t = Ok b t1" "view C' L' {b} t1" "fr t t1" "held_same {} t t1" "b_blockno (bufs t1 b) = a"
    using bread_law [OF v1] by blast
  have sb1: "sb t1 = sb s" and ino1: "inodes t1 = inodes t" using fr_sb [OF 2(3)] sbt 2(4) by (simp_all add: held_same_def)
  have j: "bn - NDIRECT < NINDIRECT" "NDIRECT + (bn - NDIRECT) = bn" using False bn by (auto simp: MAXFILE_def)
  have ne: "free_set (sb t1) C' \<noteq> {}" using s1(4) free sb1 by auto
  have "card L' + 2 < cap" using s1(6) room by simp
  from bmap_entry [OF 2(2) _ _ j(1) _ _ this ne, of ip x'] obtain a' u C'' L'' where 3:
    "bnd (get_buf b (\<lambda>y. get32 (b_data y) (4 * (bn - NDIRECT)))) (\<lambda>a.
     bnd (if a = 0
         then bnd (balloc dv) (\<lambda>a. thn (upd_buf b (\<lambda>y. y\<lparr>b_data := put32 (b_data y) (4 * (bn - NDIRECT)) a\<rparr>)) (thn (log_write b) (ret a)))
         else ret a) (\<lambda>a. thn (brelse b) (ret a))) t1 = Ok a' u"
    "ran_file view fr ip t1 C'' L'' x' u" "file_step home (sb s) 1 3 (C', L', x') (C'', L'', x')" "same_bytes C' x' C'' x'"
    "a' = saddr C'' x' (NDIRECT + (bn - NDIRECT))" "a' \<noteq> 0"
    using x1 ino1 sb1 s1(1) 1(5,6) 2(5) by auto
  have "bmap ip bn s = Ok a' u" using False j(1) 1(1) x1 dev 2(1) 3(1) by (simp add: bmap_def bnd_apply get_inode_def)
  moreover have "ran_file view fr ip s C'' L'' x' u"
    using 1(2) 3(2) 2(3) ino1 fr_trans by (auto simp: ran_file_def)
  ultimately show ?thesis using 3(5,6) j(2) same_bytes_trans [OF 1(4) 3(4)] file_step_trans [OF 1(3) 3(3)]
    by (intro exI [of _ a'] exI [of _ u] exI conjI) (auto simp: numeral_2_eq_2)
qed

end

section \<open>Writing\<close>

text \<open>The number of blocks that \<open>left\<close> bytes from \<open>off\<close> on lie in.\<close>

definition spans :: "nat \<Rightarrow> nat \<Rightarrow> nat" where
  "spans off left = (if left = 0 then 0 else (off mod BSIZE + left + BSIZE - 1) div BSIZE)"

lemma bsize_pos: "0 < BSIZE"
  by (simp add: BSIZE_def)

lemma spans_step:
  assumes "0 < left" and "m = min left (BSIZE - off mod BSIZE)"
  shows "spans off left = Suc (spans (off + m) (left - m))"
proof -
  have r: "off mod BSIZE < BSIZE" using bsize_pos by simp
  show ?thesis
  proof (cases "left \<le> BSIZE - off mod BSIZE")
    case True
    then have "(off mod BSIZE + left + BSIZE - 1) div BSIZE = 1" using assms(1) r by (intro div_nat_eqI) simp_all
    then show ?thesis using True assms by (simp add: spans_def)
  next
    case False
    define q where "q = left - m + BSIZE - 1"
    have "off mod BSIZE + left + BSIZE - 1 = q + BSIZE" using False assms(2) r bsize_pos by (simp add: q_def)
    then have e: "(off mod BSIZE + left + BSIZE - 1) div BSIZE = Suc (q div BSIZE)" using div_add_self2 [of BSIZE q] bsize_pos by simp
    have "(off + m) mod BSIZE = (off mod BSIZE + m) mod BSIZE" by (simp add: mod_add_left_eq)
    then have "(off + m) mod BSIZE = 0" using False assms(2) r by simp
    then show ?thesis using e False assms by (simp add: spans_def q_def)
  qed
qed

lemma src_plus_plus [simp]: "src_plus (src_plus src a) b = src_plus src (a + b)"
  by (cases src) (simp_all add: add.assoc add.commute)

text \<open>The source delivers the bytes \<open>bs\<close> in any state the operation can reach.\<close>

definition feeds where
  "feeds view fr s src bs \<longleftrightarrow> (\<forall>t k m C L H. fr s t \<and> k + m \<le> length bs \<and> view C L H t \<longrightarrow>
     (\<exists>u. either_copyin (src_plus src k) m t = Ok (0, take m (drop k bs)) u \<and> view C L H u \<and> fr t u \<and> held_same H t u))"

lemma chunk_bytes:
  assumes "off div BSIZE = bn" and "m \<le> BSIZE - off mod BSIZE" and "length d = BSIZE" and "length c = m"
  shows "(if i div BSIZE = bn then put_bytes d (off mod BSIZE) c ! (i mod BSIZE) else z) =
    (if off \<le> i \<and> i < off + m then c ! (i - off) else if i div BSIZE = bn then d ! (i mod BSIZE) else z)"
proof -
  have r: "off mod BSIZE < BSIZE" "i mod BSIZE < BSIZE" using bsize_pos by simp_all
  have off: "off = bn * BSIZE + off mod BSIZE" using assms(1) by (metis div_mult_mod_eq)
  show ?thesis
  proof (cases "i div BSIZE = bn")
    case True
    then have i: "i = bn * BSIZE + i mod BSIZE" by (metis div_mult_mod_eq)
    have "off \<le> i \<longleftrightarrow> off mod BSIZE \<le> i mod BSIZE" "i < off + m \<longleftrightarrow> i mod BSIZE < off mod BSIZE + m" "i - off = i mod BSIZE - off mod BSIZE"
      using off i by linarith+
    moreover have "off mod BSIZE + length c \<le> length d" using r(1) assms(2-4) by simp
    ultimately show ?thesis using True r(2) assms(3,4) nth_put_bytes [of "off mod BSIZE" c d "i mod BSIZE"] by simp
  next
    case False
    have "\<not> (off \<le> i \<and> i < off + m)"
    proof
      assume "off \<le> i \<and> i < off + m"
      then have "bn * BSIZE \<le> i" "i < bn * BSIZE + BSIZE" using off assms(2) r by linarith+
      then have "i div BSIZE = bn" by (intro div_nat_eqI) (simp_all add: mult.commute)
      then show False using False by simp
    qed
    then show ?thesis using False by auto
  qed
qed

context txn_blocks
begin

text \<open>One turn of the loop of \<^verbatim>\<open>writei\<close>.\<close>

lemma writei_turn:
  assumes v: "view C L {} s" and x: "inodes s ip = x" "i_dev x = dv" and ok: "file_ok home (sb s) C x"
    and off: "off < MAXFILE * BSIZE" and m: "m = min left (BSIZE - off mod BSIZE)" "0 < left"
    and src: "feeds view fr w0 src bs" "fr w0 s" "k + m \<le> length bs"
    and room: "card L + 5 < cap" and free: "2 \<le> card (free_set (sb s) C)"
  shows "\<exists>t C' L' x'. writei_loop ip (src_plus src k) off left s = writei_loop ip (src_plus src (k + m)) (off + m) (left - m) t \<and>
    ran_file view fr ip s C' L' x' t \<and> file_step home (sb s) 2 6 (C, L, x) (C', L', x') \<and>
    (\<forall>i < MAXFILE * BSIZE. fbyte C' x' i = (if off \<le> i \<and> i < off + m then bs ! (k + (i - off)) else fbyte C x i)) \<and>
    saddr C' x' (off div BSIZE) \<noteq> 0"
proof -
  let ?bn = "off div BSIZE" and ?c = "take m (drop k bs)"
  have bn: "?bn < MAXFILE" by (rule block_of_byte [OF off])
  have r4: "card L + 4 < cap" using room by simp
  obtain a t1 C1 L1 x1 where 1: "bmap ip ?bn s = Ok a t1" "ran_file view fr ip s C1 L1 x1 t1" "file_step home (sb s) 2 5 (C, L, x) (C1, L1, x1)"
      "same_bytes C x C1 x1" "a = saddr C1 x1 ?bn" "a \<noteq> 0"
    using bmap_spec [OF v x ok bn r4 free] by blast
  note s1 = file_stepD [OF 1(3)]
  have v1: "view C1 L1 {} t1" and x1: "inodes t1 ip = x1" and f1: "fr s t1" using 1(2) by (auto simp: ran_file_def)
  have dev: "i_dev x1 = dv" using s1(2) x(2) by (metis inode.select_convs(1) inode.surjective inode.update_convs(10))
  have sa: "saddr C1 x1 ?bn \<noteq> 0" using 1(5,6) by simp
  have "data_block home (sb s) C1 a" using owned_data [OF s1(1) _ sa] bn 1(5) by simp
  then have ha: "home a" by (simp add: data_block_def)
  have "card L1 + card ({} :: nat set) < NBUF" using s1(6) room cap_small [OF v] by simp
  then obtain b t2 where 2: "bread dv a t1 = Ok b t2" "view C1 L1 {b} t2" "fr t1 t2" "held_same {} t1 t2" "b_blockno (bufs t2 b) = a"
    using bread_law [OF v1 ha] by blast
  have "fr w0 t2" using src(2) f1 2(3) fr_trans by blast
  then obtain t3 where 3: "either_copyin (src_plus src k) m t2 = Ok (0, ?c) t3" "view C1 L1 {b} t3" "fr t2 t3" "held_same {b} t2 t3"
    using src(1,3) 2(2) unfolding feeds_def by blast
  have b3: "a = b_blockno (bufs t3 b)" using 3(4) 2(5) by (simp add: held_same_def)
  have data: "b_data (bufs t3 b) = C1 (unat a)" using data_law [OF 3(2), of b] b3 by simp
  let ?d = "put_bytes (C1 (unat a)) (off mod BSIZE) ?c" and ?C = "C1(unat a := put_bytes (C1 (unat a)) (off mod BSIZE) ?c)"
  have lc: "length ?c = m" "m \<le> BSIZE - off mod BSIZE" using src(3) m(1) by simp_all
  have r: "off mod BSIZE < BSIZE" using bsize_pos by simp
  then have len: "length ?d = BSIZE" using lc size_law [OF 3(2), of "unat a"] by simp
  have "card L1 < cap" using s1(6) room by simp
  then obtain u t4 where 4: "upd_buf b (\<lambda>y. y\<lparr>b_data := put_bytes (b_data y) (off mod BSIZE) ?c\<rparr>) t3 = Ok () u" "log_write b u = Ok () t4"
      "view ?C (insert a L1) {b} t4" "fr t3 t4" "held_same {b} t3 t4"
    using write_law [OF 3(2) _ b3 ha len, of "\<lambda>y. y\<lparr>b_data := put_bytes (b_data y) (off mod BSIZE) ?c\<rparr>"] data by auto
  obtain t5 where 5: "brelse b t4 = Ok () t5" "view ?C (insert a L1) ({b} - {b}) t5" "fr t4 t5" "held_same {b} t4 t5"
    using brelse_law [OF 4(3)] by blast
  have L: "L1 \<subseteq> insert a L1" "card (insert a L1) \<le> card L1 + 1" using finite_logged [OF 3(2)] by (auto simp: card_insert_if)
  note ps = put_slot [OF s1(1) bn sa len L, folded 1(5)]
  have "inodes t5 = inodes t1" using 2(4) 3(4) 4(5) 5(4) by (simp add: held_same_def)
  moreover have "fr s t5" using f1 2(3) 3(3) 4(4) 5(3) fr_trans by blast
  ultimately have ran: "ran_file view fr ip s ?C (insert a L1) x1 t5" using 1(2) 5(2) by (simp add: ran_file_def)
  have byt: "fbyte ?C x1 i = (if off \<le> i \<and> i < off + m then bs ! (k + (i - off)) else fbyte C x i)" if i: "i < MAXFILE * BSIZE" for i
  proof -
    have z: "C1 (unat a) ! (i mod BSIZE) = fbyte C x i" if "i div BSIZE = ?bn"
      using that 1(4-6) i bn by (auto simp: same_bytes_def fbyte_def Let_def saddr_def)
    have "fbyte C1 x1 i = fbyte C x i" using 1(4) i by (simp add: same_bytes_def)
    then show ?thesis unfolding ps(2) [OF i] chunk_bytes [OF refl lc(2) size_law [OF 3(2)] lc(1)] using z lc(1) src(3) by auto
  qed
  have "saddr ?C x1 ?bn \<noteq> 0" using file_stepD(7) [OF ps(1), of ?bn] bn sa by auto
  moreover have "writei_loop ip (src_plus src k) off left s = writei_loop ip (src_plus src (k + m)) (off + m) (left - m) t5"
    using m 1(1) x1 dev 2(1) 3(1) 4(1,2) 5(1)
    by (subst writei_loop.simps) (simp add: Let_def bnd_apply thn_apply get_inode_def m(1) [symmetric])
  ultimately show ?thesis using ran byt file_step_trans [OF 1(3) ps(1)] by (intro exI [of _ t5] exI conjI) auto
qed

lemma writei_loop_spec:
  assumes "view C L {} s" and "inodes s ip = x" "i_dev x = dv" and "file_ok home (sb s) C x"
    and "off + left \<le> MAXFILE * BSIZE" and "feeds view fr w0 src bs" and "fr w0 s" and "k + left \<le> length bs"
    and "card L + 6 * spans off left < cap" and "2 * spans off left \<le> card (free_set (sb s) C)"
  shows "\<exists>t C' L' x'. writei_loop ip (src_plus src k) off left s = Ok (off + left) t \<and>
    ran_file view fr ip s C' L' x' t \<and> file_step home (sb s) (2 * spans off left) (6 * spans off left) (C, L, x) (C', L', x') \<and>
    (\<forall>i < MAXFILE * BSIZE. fbyte C' x' i = (if off \<le> i \<and> i < off + left then bs ! (k + (i - off)) else fbyte C x i)) \<and>
    (\<forall>i. off \<le> i \<and> i < off + left \<longrightarrow> saddr C' x' (i div BSIZE) \<noteq> 0)"
  using assms
proof (induction left arbitrary: C L s x off k rule: less_induct)
  case (less left)
  show ?case
  proof (cases "left = 0")
    case True
    have "writei_loop ip (src_plus src k) off left s = Ok (off + left) s" using True by (subst writei_loop.simps) simp
    moreover have "ran_file view fr ip s C L x s" using less.prems(1,2) by (auto simp: ran_file_def)
    moreover have "file_step home (sb s) (2 * spans off left) (6 * spans off left) (C, L, x) (C, L, x)"
      using file_step_refl [OF less.prems(4)] True by (simp add: spans_def)
    ultimately show ?thesis using True by (intro exI [of _ s] exI [of _ C] exI [of _ L] exI [of _ x]) auto
  next
    case False
    define m where "m = min left (BSIZE - off mod BSIZE)"
    have m: "0 < m" "m \<le> left" using False bsize_pos by (simp_all add: m_def)
    have sp: "spans off left = Suc (spans (off + m) (left - m))" using spans_step [OF _ m_def] False by simp
    have pre: "off < MAXFILE * BSIZE" "k + m \<le> length bs" "card L + 5 < cap" "2 \<le> card (free_set (sb s) C)"
      using less.prems(5,8-10) False m sp by simp_all
    obtain t1 C1 L1 x1 where 1: "writei_loop ip (src_plus src k) off left s = writei_loop ip (src_plus src (k + m)) (off + m) (left - m) t1"
        "ran_file view fr ip s C1 L1 x1 t1" "file_step home (sb s) 2 6 (C, L, x) (C1, L1, x1)"
        "\<forall>i < MAXFILE * BSIZE. fbyte C1 x1 i = (if off \<le> i \<and> i < off + m then bs ! (k + (i - off)) else fbyte C x i)"
        "saddr C1 x1 (off div BSIZE) \<noteq> 0"
      using writei_turn [OF less.prems(1-4) pre(1) m_def _ less.prems(6,7) pre(2-4)] False by blast
    note s1 = file_stepD [OF 1(3)]
    have v1: "view C1 L1 {} t1" and x1: "inodes t1 ip = x1" and f1: "fr s t1" and sb1: "sb t1 = sb s"
      using 1(2) fr_sb by (auto simp: ran_file_def)
    have dev: "i_dev x1 = dv" using s1(2) less.prems(3) by (metis inode.select_convs(1) inode.surjective inode.update_convs(10))
    have nx: "left - m < left" "off + m + (left - m) \<le> MAXFILE * BSIZE" "k + m + (left - m) \<le> length bs"
        "card L1 + 6 * spans (off + m) (left - m) < cap" "2 * spans (off + m) (left - m) \<le> card (free_set (sb t1) C1)"
      using m less.prems(5,8-10) s1(4,6) sp sb1 by simp_all
    have ok1: "file_ok home (sb t1) C1 x1" using s1(1) sb1 by simp
    obtain t2 C2 L2 x2 where 2: "writei_loop ip (src_plus src (k + m)) (off + m) (left - m) t1 = Ok (off + m + (left - m)) t2"
        "ran_file view fr ip t1 C2 L2 x2 t2"
        "file_step home (sb s) (2 * spans (off + m) (left - m)) (6 * spans (off + m) (left - m)) (C1, L1, x1) (C2, L2, x2)"
        "\<forall>i < MAXFILE * BSIZE. fbyte C2 x2 i = (if off + m \<le> i \<and> i < off + m + (left - m) then bs ! (k + m + (i - (off + m))) else fbyte C1 x1 i)"
        "\<forall>i. off + m \<le> i \<and> i < off + m + (left - m) \<longrightarrow> saddr C2 x2 (i div BSIZE) \<noteq> 0"
      using less.IH [OF nx(1) v1 x1 dev ok1 nx(2) less.prems(6) fr_trans [OF less.prems(7) f1] nx(3-5)] unfolding sb1 by blast
    have byt: "fbyte C2 x2 i = (if off \<le> i \<and> i < off + left then bs ! (k + (i - off)) else fbyte C x i)" if "i < MAXFILE * BSIZE" for i
      using 2(4) 1(4) that m(2) by auto
    have al: "saddr C2 x2 (i div BSIZE) \<noteq> 0" if i: "off \<le> i" "i < off + left" for i
    proof (cases "i < off + m")
      case True
      have "m \<le> BSIZE - off mod BSIZE" "off = off div BSIZE * BSIZE + off mod BSIZE" "off mod BSIZE < BSIZE"
        using bsize_pos by (simp_all add: m_def)
      then have "off div BSIZE * BSIZE \<le> i" "i < off div BSIZE * BSIZE + BSIZE" using i True by linarith+
      then have "i div BSIZE = off div BSIZE" by (intro div_nat_eqI) (simp_all add: mult.commute)
      moreover have "off div BSIZE \<le> MAXFILE" using block_of_byte [OF pre(1)] by simp
      ultimately show ?thesis using 1(5) file_stepD(7) [OF 2(3)] by metis
    next
      case False
      then show ?thesis using 2(5) i m(2) by simp
    qed
    have "writei_loop ip (src_plus src k) off left s = Ok (off + left) t2" using 1(1) 2(1) m(2) by simp
    moreover have "file_step home (sb s) (2 * spans off left) (6 * spans off left) (C, L, x) (C2, L2, x2)"
      using file_step_trans [OF 1(3) 2(3)] sp by simp
    ultimately show ?thesis using ran_file_trans(1) [OF 1(2) 2(2)] byt al by (intro exI [of _ t2] exI [of _ C2] exI [of _ L2] exI [of _ x2]) blast
  qed
qed

end

section \<open>The inode on disk\<close>

lemma put_other_block:
  assumes ok: "file_ok home sbk C x" and a: "data_block home sbk C a" "\<not> owns C x a" and d: "length d = BSIZE"
  defines "C' \<equiv> C(unat a := d)"
  shows "file_ok home sbk C' x" and "saddr C' x k = saddr C x k" and "same_bytes C x C' x" and "free_set sbk C' = free_set sbk C"
proof -
  note p = put_data_block [OF _ a(1) d, folded C'_def]
  have ok': "disk_ok home sbk C" "length (i_addrs x) = NDIRECT + 1" "slots_ok home sbk C (saddr C x)" using ok by (simp_all add: file_ok_def)
  have own: "C' (unat (saddr C x j)) = C (unat (saddr C x j))" if "j \<le> MAXFILE" "saddr C x j \<noteq> 0" for j
    using a(2) that unfolding owns_def C'_def by (metis fun_upd_other word_unat_eq_iff)
  show sl: "saddr C' x k = saddr C x k" for k using own [OF order_refl] by (auto simp: saddr_def faddr_def)
  show "file_ok home sbk C' x" using p ok' slots_ok_cong [OF p(2) _ ok'(3), of "saddr C' x"] sl by (simp add: file_ok_def)
  show "same_bytes C x C' x" using sl own by (intro same_bytesI) auto
  show "free_set sbk C' = free_set sbk C" by (rule p(2)) (rule ok'(1))
qed

lemma dinode_room: "dinode_off i + 64 \<le> BSIZE"
proof -
  have "unat i mod 16 < 16" by simp
  then show ?thesis unfolding dinode_off_def IPB_def BSIZE_def by simp
qed

lemma same_addrs: "i_addrs x' = i_addrs x \<Longrightarrow> saddr C x' k = saddr C x k" "i_addrs x' = i_addrs x \<Longrightarrow> fbyte C x' i = fbyte C x i"
    "i_addrs x' = i_addrs x \<Longrightarrow> owns C x' a = owns C x a" "i_addrs x' = i_addrs x \<Longrightarrow> file_ok home sbk C x' = file_ok home sbk C x"
proof -
  assume "i_addrs x' = i_addrs x"
  then have f: "faddr C x' = faddr C x" by (simp add: faddr_def fun_eq_iff)
  then have s: "saddr C x' = saddr C x" using \<open>i_addrs x' = i_addrs x\<close> by (simp add: saddr_def fun_eq_iff)
  show "saddr C x' k = saddr C x k" "fbyte C x' i = fbyte C x i" "owns C x' a = owns C x a" "file_ok home sbk C x' = file_ok home sbk C x"
    using f s \<open>i_addrs x' = i_addrs x\<close> by (simp_all add: fbyte_def owns_def file_ok_def)
qed

context txn_blocks
begin

lemma iupdate_spec:
  assumes v: "view C L {} s" and x: "inodes s ip = x" "i_dev x = dv" and len: "length (i_addrs x) = NDIRECT + 1"
    and k: "k = IBLOCK (i_inum x) (sb s)" "home k" and room: "card L < cap"
  shows "\<exists>t. iupdate ip s = Ok () t \<and> view (C(unat k := put_dinode (C (unat k)) (dinode_off (i_inum x)) x)) (insert k L) {} t \<and> fr s t \<and>
    inodes t = inodes s"
proof -
  have "length (put_dinode (C (unat k)) (dinode_off (i_inum x)) x) = BSIZE"
    using length_put_dinode [of "dinode_off (i_inum x)" "C (unat k)" x] dinode_room size_law [OF v] len by (simp add: NDIRECT_def)
  then show ?thesis
    using rewrite_block [OF v k(2), of "\<lambda>d. put_dinode d (dinode_off (i_inum x)) x"] room cap_small [OF v] x k(1)
    by (auto simp: iupdate_def kop_simps get_inode_def get_sb_def held_same_def)
qed

lemma feeds_var: "feeds view fr s (SVar bs) bs"
  unfolding feeds_def
proof (intro allI impI)
  fix t k m C L H assume "fr s t \<and> k + m \<le> length bs \<and> view C L H t"
  then obtain q u where "myproc t = Ok q u" "view C L H u" "fr t u" "held_same H t u" using myproc_law by blast
  then show "\<exists>u. either_copyin (src_plus (SVar bs) k) m t = Ok (0, take m (drop k bs)) u \<and> view C L H u \<and> fr t u \<and> held_same H t u"
    by (auto simp: either_copyin_def kop_simps)
qed

lemma bmap_hit:
  assumes v: "view C L {} s" and x: "inodes s ip = x" "i_dev x = dv" and ok: "file_ok home (sb s) C x" and bn: "bn < MAXFILE"
    and hit: "saddr C x bn \<noteq> 0" and room: "card L < NBUF"
  shows "\<exists>t. bmap ip bn s = Ok (saddr C x bn) t \<and> view C L {} t \<and> fr s t \<and> inodes t = inodes s"
proof (cases "bn < NDIRECT")
  case True
  then show ?thesis using v x hit bn by (auto simp: bmap_def bmap_addr_def kop_simps get_inode_def saddr_def faddr_def)
next
  case False
  let ?i = "i_addrs x ! NDIRECT"
  have j: "bn - NDIRECT < NINDIRECT" using False bn by (auto simp: MAXFILE_def)
  have i: "?i \<noteq> 0" "saddr C x bn = get32 (C (unat ?i)) (4 * (bn - NDIRECT))" using hit False bn by (auto simp: saddr_def faddr_def split: if_splits)
  have "home ?i" using owned_data [OF ok order_refl] i(1) by (simp add: indirect_slot data_block_def)
  moreover have "card L + card ({} :: nat set) < NBUF" using room by simp
  ultimately obtain b t1 where 1: "bread dv ?i s = Ok b t1" "view C L {b} t1" "fr s t1" "held_same {} s t1" "b_blockno (bufs t1 b) = ?i"
    using bread_law [OF v] by blast
  obtain t2 where 2: "brelse b t1 = Ok () t2" "view C L ({b} - {b}) t2" "fr t1 t2" "held_same {b} t1 t2" using brelse_law [OF 1(2)] by blast
  have "b_data (bufs t1 b) = C (unat ?i)" using data_law [OF 1(2), of b] 1(5) by simp
  then have "bmap ip bn s = Ok (saddr C x bn) t2" using False j i hit x 1(1) 2(1)
    by (simp add: bmap_def bmap_addr_def kop_simps get_inode_def get_buf_def)
  then show ?thesis using 2(2) fr_trans [OF 1(3) 2(3)] 1(4) 2(4) by (auto simp: held_same_def)
qed

lemma in_block:
  assumes "off mod BSIZE + i < BSIZE"
  shows "(off + i) div BSIZE = off div BSIZE" and "(off + i) mod BSIZE = off mod BSIZE + i"
proof -
  have "off = BSIZE * (off div BSIZE) + off mod BSIZE" by simp
  then have "BSIZE * (off div BSIZE) \<le> off + i" "off + i < BSIZE * Suc (off div BSIZE)" using assms unfolding mult_Suc_right by linarith+
  then show "(off + i) div BSIZE = off div BSIZE" by (rule div_nat_eqI)
  have "(off + i) mod BSIZE = (off mod BSIZE + i) mod BSIZE" by (simp add: mod_add_left_eq)
  then show "(off + i) mod BSIZE = off mod BSIZE + i" using assms by simp
qed

text \<open>\<^verbatim>\<open>readi\<close> into a variable of the kernel, from blocks that are all there.\<close>

lemma readi_loop_spec:
  assumes "view C L {} s" and "inodes s ip = x" "i_dev x = dv" and "file_ok home (sb s) C x" and "off + left \<le> MAXFILE * BSIZE"
    and "\<forall>i. off \<le> i \<and> i < off + left \<longrightarrow> saddr C x (i div BSIZE) \<noteq> 0" and "card L < NBUF"
  shows "\<exists>t. readi_loop ip DVar off left s = Ok (left, map (fbyte C x) [off..<off + left]) t \<and> view C L {} t \<and> fr s t \<and> inodes t = inodes s"
  using assms
proof (induction left arbitrary: s off rule: less_induct)
  case (less left)
  show ?case
  proof (cases "left = 0")
    case True
    have "readi_loop ip DVar off left s = Ok (left, map (fbyte C x) [off..<off + left]) s" using True by (subst readi_loop.simps) simp
    then show ?thesis using less.prems(1) fr_same by blast
  next
    case False
    define m where "m = min left (BSIZE - off mod BSIZE)"
    have r: "off mod BSIZE < BSIZE" using bsize_pos by simp
    have m: "0 < m" "m \<le> left" "off mod BSIZE + m \<le> BSIZE" using False r by (simp_all add: m_def)
    have off: "off < MAXFILE * BSIZE" using less.prems(5) False by simp
    let ?bn = "off div BSIZE" and ?a = "saddr C x (off div BSIZE)"
    have bn: "?bn < MAXFILE" by (rule block_of_byte [OF off])
    have a: "?a \<noteq> 0" using less.prems(6) False by simp
    obtain t1 where 1: "bmap ip ?bn s = Ok ?a t1" "view C L {} t1" "fr s t1" "inodes t1 = inodes s"
      using bmap_hit [OF less.prems(1-4) bn a less.prems(7)] by blast
    have "home ?a" using owned_data [OF less.prems(4) _ a] bn by (simp add: data_block_def)
    moreover have "card L + card ({} :: nat set) < NBUF" using less.prems(7) by simp
    ultimately obtain b t2 where 2: "bread dv ?a t1 = Ok b t2" "view C L {b} t2" "fr t1 t2" "held_same {} t1 t2" "b_blockno (bufs t2 b) = ?a"
      using bread_law [OF 1(2)] by blast
    obtain q t3 where 3: "myproc t2 = Ok q t3" "view C L {b} t3" "fr t2 t3" "held_same {b} t2 t3" using myproc_law [OF 2(2)] by blast
    obtain t4 where 4: "brelse b t3 = Ok () t4" "view C L ({b} - {b}) t4" "fr t3 t4" "held_same {b} t3 t4" using brelse_law [OF 3(2)] by blast
    have f4: "fr s t4" using 1(3) 2(3) 3(3) 4(3) fr_trans by blast
    have i4: "inodes t4 = inodes s" using 1(4) 2(4) 3(4) 4(4) by (simp add: held_same_def)
    have sb4: "sb t4 = sb s" by (rule fr_sb [OF f4])
    have data: "b_data (bufs t2 b) = C (unat ?a)" using data_law [OF 2(2), of b] 2(5) by simp
    let ?c = "bytes_at (C (unat ?a)) (off mod BSIZE) m"
    have c: "?c = map (fbyte C x) [off..<off + m]"
    proof (rule nth_equalityI)
      show "length ?c = length (map (fbyte C x) [off..<off + m])" using m(3) size_law [OF 2(2)] by simp
      fix i assume "i < length ?c"
      then have i: "i < m" using m(3) size_law [OF 2(2)] by simp
      then have "off mod BSIZE + i < BSIZE" using m(3) by simp
      note d = in_block [OF this]
      show "?c ! i = map (fbyte C x) [off..<off + m] ! i" using i m(3) size_law [OF 2(2)] d a bn by (simp add: fbyte_def Let_def saddr_def)
    qed
    have nx: "left - m < left" "off + m + (left - m) \<le> MAXFILE * BSIZE" "\<forall>i. off + m \<le> i \<and> i < off + m + (left - m) \<longrightarrow> saddr C x (i div BSIZE) \<noteq> 0"
      using m less.prems(5,6) by auto
    have v4: "view C L {} t4" using 4(2) by simp
    obtain t5 where 5: "readi_loop ip DVar (off + m) (left - m) t4 = Ok (left - m, map (fbyte C x) [off + m..<off + m + (left - m)]) t5"
        "view C L {} t5" "fr t4 t5" "inodes t5 = inodes t4"
      using less.IH [OF nx(1) v4 _ less.prems(3) _ nx(2,3) less.prems(7)] less.prems(2,4) i4 sb4 by auto
    have "[off..<off + left] = [off..<off + m] @ [off + m..<off + m + (left - m)]"
      using upt_add_eq_append [of off "off + m" "left - m"] m(2) by simp
    then have "readi_loop ip DVar off left s = Ok (left, map (fbyte C x) [off..<off + left]) t5"
      using False 1(1,4) 2(1,4) less.prems(2,3) data 3(1) 4(1) 5(1) m(2) c
      by (subst readi_loop.simps) (simp add: Let_def m_def [symmetric] bnd_apply thn_apply get_inode_def get_buf_def either_copyout_def held_same_def)
    then show ?thesis using 5(2,4) i4 fr_trans [OF f4 5(3)] by auto
  qed
qed

end

text \<open>The blocks up to the size of the file are all there.\<close>

definition backed :: "(nat \<Rightarrow> uchar list) \<Rightarrow> inode \<Rightarrow> bool" where
  "backed C x \<longleftrightarrow> unat (i_size x) \<le> MAXFILE * BSIZE \<and> (\<forall>i < unat (i_size x). saddr C x (i div BSIZE) \<noteq> 0)"

lemma maxfile_small: "MAXFILE * BSIZE < 2 ^ 31"
  by (simp add: MAXFILE_def NDIRECT_def NINDIRECT_def BSIZE_def)

lemma backed_grow:
  assumes b: "backed C x" and old: "\<And>j. j \<le> MAXFILE \<Longrightarrow> saddr C x j \<noteq> 0 \<Longrightarrow> saddr C' x' j \<noteq> 0"
    and new: "\<And>i. o1 \<le> i \<Longrightarrow> i < o1 + m \<Longrightarrow> saddr C' x' (i div BSIZE) \<noteq> 0"
    and o1: "o1 \<le> unat (i_size x)" "o1 + m \<le> MAXFILE * BSIZE" and sz: "unat (i_size x') = max (unat (i_size x)) (o1 + m)"
  shows "backed C' x'"
proof -
  have "saddr C' x' (i div BSIZE) \<noteq> 0" if i: "i < max (unat (i_size x)) (o1 + m)" for i
  proof (cases "o1 \<le> i \<and> i < o1 + m")
    case True
    then show ?thesis using new by blast
  next
    case False
    then have "i < unat (i_size x)" using i o1(1) by auto
    moreover have "i < MAXFILE * BSIZE" using i b o1(2) by (auto simp: backed_def)
    then have "i div BSIZE \<le> MAXFILE" using block_of_byte [of i] by simp
    ultimately show ?thesis using b old by (simp add: backed_def)
  qed
  then show ?thesis unfolding backed_def sz using b o1(2) by (simp add: backed_def)
qed

context txn_blocks
begin

lemma readi_spec:
  assumes v: "view C L {} s" and x: "inodes s ip = x" "i_dev x = dv" and ok: "file_ok home (sb s) C x" and b: "backed C x"
    and off: "off \<le> i_size x" "off \<le> off + n" and room: "card L < NBUF"
  defines "m \<equiv> min (unat n) (unat (i_size x) - unat off)"
  shows "\<exists>t. readi ip DVar off n s = Ok (m, map (fbyte C x) [unat off..<unat off + m]) t \<and> view C L {} t \<and> fr s t \<and> inodes t = inodes s"
proof -
  have o: "unat off \<le> unat (i_size x)" using off(1) by (simp add: word_le_nat_alt)
  have "unat n < 2 ^ LENGTH(32)" by (rule unsigned_less)
  then have "unat (off + n) = unat off + unat n" using off(2) unat_plus_if' [of off n] by (auto simp: word_le_nat_alt split: if_splits)
  then have m: "unat (if off + n > i_size x then i_size x - off else n) = m"
    using off(1) o by (auto simp: m_def unat_sub word_less_nat_alt min_def)
  have le: "unat off + m \<le> unat (i_size x)" using o by (simp add: m_def)
  then have "unat off + m \<le> MAXFILE * BSIZE" "\<forall>i. unat off \<le> i \<and> i < unat off + m \<longrightarrow> saddr C x (i div BSIZE) \<noteq> 0"
    using b by (auto simp: backed_def)
  from readi_loop_spec [OF v x ok this room] obtain t where
    "readi_loop ip DVar (unat off) m s = Ok (m, map (fbyte C x) [unat off..<unat off + m]) t" "view C L {} t" "fr s t" "inodes t = inodes s" by blast
  moreover have "\<not> (off > i_size x \<or> off + n < off)" using off by (simp add: not_less)
  ultimately show ?thesis using x(1) m by (auto simp: readi_def kop_simps get_inode_def)
qed

lemma writei_spec:
  assumes v: "view C L {} s" and x: "inodes s ip = x" "i_dev x = dv" and ok: "file_ok home (sb s) C x" and b: "backed C x"
    and k: "k = IBLOCK (i_inum x) (sb s)" "data_block home (sb s) C k" "\<not> owns C x k"
    and off: "off \<le> i_size x" "unat off + unat n \<le> MAXFILE * BSIZE" "0 < n" and src: "feeds view fr s src bs" "unat n \<le> length bs"
    and room: "card L + 6 * spans (unat off) (unat n) + 1 < cap" and free: "2 * spans (unat off) (unat n) \<le> card (free_set (sb s) C)"
  shows "\<exists>t C' L' x'. writei ip src off n s = Ok (int (unat n)) t \<and> ran_file view fr ip s C' L' x' t \<and>
    file_ok home (sb s) C' x' \<and> backed C' x' \<and> x' = x\<lparr>i_size := i_size x', i_addrs := i_addrs x'\<rparr> \<and>
    unat (i_size x') = max (unat (i_size x)) (unat off + unat n) \<and>
    (\<forall>i < MAXFILE * BSIZE. fbyte C' x' i = (if unat off \<le> i \<and> i < unat off + unat n then bs ! (i - unat off) else fbyte C x i)) \<and>
    (\<forall>a. data_block home (sb s) C a \<and> \<not> owns C x a \<and> a \<noteq> k \<longrightarrow> C' (unat a) = C (unat a)) \<and>
    (\<forall>z. get_dinode (C' (unat k)) (dinode_off (i_inum x)) z = from_disk x' z) \<and>
    card L' \<le> card L + 6 * spans (unat off) (unat n) + 1"
proof -
  let ?o = "unat off" and ?n = "unat n"
  have src0: "src_plus src 0 = src" by (cases src) simp_all
  have r: "card L + 6 * spans ?o ?n < cap" using room by simp
  obtain t1 C1 L1 x1 where 1: "writei_loop ip src ?o ?n s = Ok (?o + ?n) t1" "ran_file view fr ip s C1 L1 x1 t1"
      "file_step home (sb s) (2 * spans ?o ?n) (6 * spans ?o ?n) (C, L, x) (C1, L1, x1)"
      "\<forall>i < MAXFILE * BSIZE. fbyte C1 x1 i = (if ?o \<le> i \<and> i < ?o + ?n then bs ! (0 + (i - ?o)) else fbyte C x i)"
      "\<forall>i. ?o \<le> i \<and> i < ?o + ?n \<longrightarrow> saddr C1 x1 (i div BSIZE) \<noteq> 0"
    using writei_loop_spec [OF v x ok off(2) src(1) fr_same _ r free, of 0] src(2) unfolding src0 by auto
  note s1 = file_stepD [OF 1(3)]
  have v1: "view C1 L1 {} t1" and x1: "inodes t1 ip = x1" and f1: "fr s t1" and sb1: "sb t1 = sb s" and i1: "inodes t1 = (inodes s)(ip := x1)"
    using 1(2) fr_sb by (auto simp: ran_file_def)
  have same: "i_dev x1 = i_dev x" "i_inum x1 = i_inum x" "i_size x1 = i_size x" using s1(2) by (metis inode.select_convs inode.surjective inode.update_convs(10))+
  let ?x = "if unat (i_size x1) < ?o + ?n then x1\<lparr>i_size := of_nat (?o + ?n)\<rparr> else x1"
  let ?t = "t1\<lparr>inodes := (inodes t1)(ip := ?x)\<rparr>"
  have ad: "i_addrs ?x = i_addrs x1" by simp
  have fx: "i_dev ?x = dv" "i_inum ?x = i_inum x" "length (i_addrs ?x) = NDIRECT + 1" using same x(2) s1(1) by (simp_all add: file_ok_def)
  have k1: "data_block home (sb s) C1 k" using data_block_mono [OF k(2) s1(3)] .
  have "unat k \<notin> free_set (sb s) C" using k(2) by (simp add: data_block_def free_set_def)
  then have own1: "\<not> owns C1 x1 k" using k(3) s1(7) unfolding owns_def by metis
  have hk: "home k" using k(2) by (simp add: data_block_def)
  let ?d = "put_dinode (C1 (unat k)) (dinode_off (i_inum x)) ?x" and ?C = "C1(unat k := put_dinode (C1 (unat k)) (dinode_off (i_inum x)) ?x)"
  have r1: "card L1 < cap" using s1(6) room by simp
  obtain t2 where 2: "iupdate ip ?t = Ok () t2" "view ?C (insert k L1) {} t2" "fr ?t t2" "inodes t2 = inodes ?t"
    using iupdate_spec [OF inode_law [OF v1, of "(inodes t1)(ip := ?x)"], of ip ?x k] fx k(1) hk r1 sb1 by auto
  have len: "length ?d = BSIZE" using length_put_dinode [of "dinode_off (i_inum x)" "C1 (unat k)" ?x] dinode_room size_law [OF v1] fx(3) by (simp add: NDIRECT_def)
  note po = put_other_block [OF s1(1) k1 own1 len]
  have w: "writei ip src off n s = Ok (int ?n) t2"
  proof -
    have "off + n \<ge> off" "unat (off + n) = ?o + ?n" using off(2) maxfile_small by (simp_all add: word_le_nat_alt unat_word_ariths)
    moreover have "\<not> (off > i_size x \<or> off + n < off)" "\<not> unat (off + n) > MAXFILE * BSIZE" using calculation off by (simp_all add: not_less)
    moreover have "upd_inode ip (\<lambda>x. if unat (i_size x) < ?o + ?n then x\<lparr>i_size := of_nat (?o + ?n)\<rparr> else x) t1 = Ok () ?t"
      using x1 by (simp add: upd_inode_def)
    ultimately show ?thesis using x(1) off(3) 1(1) 2(1) by (simp add: writei_def bnd_apply thn_apply whenk_apply get_inode_def)
  qed
  have ran: "ran_file view fr ip s ?C (insert k L1) ?x t2"
    using 2(2,4) i1 fr_trans [OF fr_trans [OF f1 fr_refl] 2(3)] by (simp add: ran_file_def)
  have sz: "unat (i_size ?x) = max (unat (i_size x)) (?o + ?n)"
    using same(3) off(2) maxfile_small by (simp add: unat_word_ariths)
  have ok2: "file_ok home (sb s) ?C ?x" unfolding same_addrs(4) [OF ad] by (rule po(1))
  have "saddr ?C ?x j \<noteq> 0" if "j \<le> MAXFILE" "saddr C x j \<noteq> 0" for j unfolding same_addrs(1) [OF ad] po(2) using s1(7) [OF that(1)] that(2) by auto
  moreover have "saddr ?C ?x (i div BSIZE) \<noteq> 0" if "?o \<le> i" "i < ?o + ?n" for i unfolding same_addrs(1) [OF ad] po(2) using 1(5) that by blast
  moreover have "?o \<le> unat (i_size x)" using off(1) by (simp add: word_le_nat_alt)
  ultimately have bk: "backed ?C ?x" using backed_grow [OF b _ _ _ off(2) sz] by blast
  have byt: "fbyte ?C ?x i = (if ?o \<le> i \<and> i < ?o + ?n then bs ! (i - ?o) else fbyte C x i)" if "i < MAXFILE * BSIZE" for i
    unfolding same_addrs(2) [OF ad] using po(3) 1(4) that by (simp add: same_bytes_def)
  have eq: "?x = x\<lparr>i_size := i_size ?x, i_addrs := i_addrs ?x\<rparr>" using s1(2) same(3) by (cases x; cases x1) auto
  have others: "?C (unat a) = C (unat a)" if "data_block home (sb s) C a" "\<not> owns C x a" "a \<noteq> k" for a
    using s1(8) [OF that(1,2)] that(3) by (simp add: word_unat_eq_iff)
  have dk: "get_dinode (?C (unat k)) (dinode_off (i_inum x)) z = from_disk ?x z" for z
    using get_put_dinode [of "dinode_off (i_inum x)" "C1 (unat k)" ?x z] dinode_room size_law [OF v1] fx(3) by (simp add: NDIRECT_def)
  have cl: "card (insert k L1) \<le> card L + 6 * spans ?o ?n + 1" using s1(6) finite_logged [OF v1] by (simp add: card_insert_if)
  show ?thesis
    by (intro exI [of _ t2] exI [of _ ?C] exI [of _ "insert k L1"] exI [of _ ?x] conjI allI impI)
      (use w ran ok2 bk eq sz byt others dk cl in \<open>(assumption | simp)+\<close>)
qed

end

section \<open>Property\<close>

lemma max_covers: "(o1 :: nat) \<le> a \<Longrightarrow> min m (max a (o1 + m) - o1) = m"
  by auto

text \<open>
  C3 (\<^verbatim>\<open>fs.c\<close>, \<^verbatim>\<open>writei\<close>, \<^verbatim>\<open>readi\<close>, \<^verbatim>\<open>bmap\<close> and \<^verbatim>\<open>iupdate\<close>): inside a transaction, with the allocator, the buffer cache, the log and the disk
  driver below, \<^verbatim>\<open>writei\<close> of \<open>n\<close> bytes at an offset that is at most the size stores these bytes, over direct and indirect blocks that
  it allocates where they are missing, and returns \<open>n\<close>; every other byte of the file is as before, the size grows to the end of
  the write, the file still owns each of its blocks once, and the inode on the disk has the new size and addresses. No
  block that another file owns changes. \<^verbatim>\<open>readi\<close> then returns the bytes written. A write that begins after the end of the
  file, wraps around or passes the maximal size returns -1 and changes nothing; a read that begins after the end or wraps around
  returns no byte.
\<close>

theorem writei_readi:
  fixes s :: "'z fsst_scheme"
  assumes v: "txn_view p dv \<sigma> Old cap C L {} s" and x: "inodes s ip = x" "i_dev x = dv"
    and ok: "file_ok (home_block \<sigma>) (sb s) C x" and b: "backed C x"
    and k: "k = IBLOCK (i_inum x) (sb s)" "data_block (home_block \<sigma>) (sb s) C k" "\<not> owns C x k"
    and off: "off \<le> i_size x" "unat off + unat n \<le> MAXFILE * BSIZE" "0 < n" and bs: "unat n = length bs"
    and room: "card L + 6 * spans (unat off) (unat n) + 1 < cap" and free: "2 * spans (unat off) (unat n) \<le> card (free_set (sb s) C)"
  shows "\<exists>t C' L' x' u. writei ip (SVar bs) off n s = Ok (int (unat n)) t \<and>
    txn_view p dv \<sigma> Old cap C' L' {} t \<and> txn_frame p s t \<and> inodes t = (inodes s)(ip := x') \<and>
    file_ok (home_block \<sigma>) (sb s) C' x' \<and> backed C' x' \<and> x' = x\<lparr>i_size := i_size x', i_addrs := i_addrs x'\<rparr> \<and>
    unat (i_size x') = max (unat (i_size x)) (unat off + unat n) \<and>
    (\<forall>i < MAXFILE * BSIZE. fbyte C' x' i = (if unat off \<le> i \<and> i < unat off + unat n then bs ! (i - unat off) else fbyte C x i)) \<and>
    (\<forall>a. data_block (home_block \<sigma>) (sb s) C a \<and> \<not> owns C x a \<and> a \<noteq> k \<longrightarrow> C' (unat a) = C (unat a)) \<and>
    (\<forall>z. get_dinode (C' (unat k)) (dinode_off (i_inum x)) z = from_disk x' z) \<and>
    readi ip DVar off n t = Ok (unat n, bs) u \<and> txn_view p dv \<sigma> Old cap C' L' {} u \<and> inodes u = inodes t \<and>
    (\<forall>src o1 m. o1 > i_size x \<or> o1 + m < o1 \<or> unat (o1 + m) > MAXFILE * BSIZE \<longrightarrow> writei ip src o1 m s = Ok (- 1) s) \<and>
    (\<forall>dst o1 m. o1 > i_size x \<or> o1 + m < o1 \<longrightarrow> readi ip dst o1 m s = Ok (0, []) s)"
proof -
  let ?o = "unat off" and ?n = "unat n"
  have nb: "?n \<le> length bs" using bs by simp
  obtain t C' L' x' where 1: "writei ip (SVar bs) off n s = Ok (int ?n) t"
      "ran_file (txn_view p dv \<sigma> Old cap) (txn_frame p) ip s C' L' x' t"
      "file_ok (home_block \<sigma>) (sb s) C' x'" "backed C' x'" "x' = x\<lparr>i_size := i_size x', i_addrs := i_addrs x'\<rparr>"
      "unat (i_size x') = max (unat (i_size x)) (?o + ?n)"
      "\<forall>i < MAXFILE * BSIZE. fbyte C' x' i = (if ?o \<le> i \<and> i < ?o + ?n then bs ! (i - ?o) else fbyte C x i)"
      "\<forall>a. data_block (home_block \<sigma>) (sb s) C a \<and> \<not> owns C x a \<and> a \<noteq> k \<longrightarrow> C' (unat a) = C (unat a)"
      "\<forall>z. get_dinode (C' (unat k)) (dinode_off (i_inum x)) z = from_disk x' z" "card L' \<le> card L + 6 * spans ?o ?n + 1"
    using txn.writei_spec [OF v x ok b k off txn.feeds_var nb room free] by blast
  have 2: "txn_view p dv \<sigma> Old cap C' L' {} t" "txn_frame p s t" "inodes t = (inodes s)(ip := x')" using 1(2) by (simp_all add: ran_file_def)
  have sbt: "sb t = sb s" by (rule txn.fr_sb [OF 2(2)])
  have ino: "inodes t ip = x'" using 2(3) by simp
  have dev: "i_dev x' = dv" by (subst 1(5)) (simp add: x(2))
  have o: "?o \<le> unat (i_size x)" using off(1) by (simp add: word_le_nat_alt)
  have o': "off \<le> i_size x'" "off \<le> off + n" using o off(2) 1(6) maxfile_small by (simp_all add: word_le_nat_alt unat_word_ariths)
  have r: "card L' < NBUF" using 1(10) room txn.cap_small [OF v] by simp
  have bytes: "map (fbyte C' x') [?o..<?o + ?n] = bs" using 1(7) off(2) bs by (intro nth_equalityI) simp_all
  have rd: "\<exists>u. readi ip DVar off n t = Ok (?n, bs) u \<and> txn_view p dv \<sigma> Old cap C' L' {} u \<and> txn_frame p t u \<and> inodes u = inodes t"
    using txn.readi_spec [OF 2(1) ino dev _ 1(4) o' r, unfolded sbt, OF 1(3), unfolded 1(6) max_covers [OF o] bytes] .
  then obtain u where 3: "readi ip DVar off n t = Ok (?n, bs) u" "txn_view p dv \<sigma> Old cap C' L' {} u" "inodes u = inodes t" by blast
  have err: "\<forall>src o1 m. o1 > i_size x \<or> o1 + m < o1 \<or> unat (o1 + m) > MAXFILE * BSIZE \<longrightarrow> writei ip src o1 m s = Ok (- 1) s"
    "\<forall>dst o1 m. o1 > i_size x \<or> o1 + m < o1 \<longrightarrow> readi ip dst o1 m s = Ok (0, []) s"
    using x(1) by (simp_all add: writei_def readi_def kop_simps get_inode_def)
  show ?thesis by (intro exI [of _ t] exI [of _ C'] exI [of _ L'] exI [of _ x'] exI [of _ u] conjI) (rule 1 2 3 err)+
qed

text \<open>An empty file, the inode 1, on the disk as \<open>fresh_state\<close> has it.\<close>

definition empty_inode :: inode where
  "empty_inode = (inodes fresh_state 0)\<lparr>i_dev := 1, i_inum := 1, i_size := 0, i_addrs := replicate (NDIRECT + 1) 0\<rparr>"

definition empty_file where
  "empty_file = fresh_state\<lparr>inodes := (inodes fresh_state)(0 := empty_inode)\<rparr>"

lemma empty_saddr: "k \<le> MAXFILE \<Longrightarrow> saddr C empty_inode k = 0"
  by (simp add: saddr_def faddr_def empty_inode_def del: replicate_Suc)

lemma empty_sizes: "length (i_addrs empty_inode) = NDIRECT + 1" "i_size empty_inode = 0"
  by (simp_all add: empty_inode_def)

lemma empty_ok: "file_ok (home_block 2) boot_sb (img_block fresh_img) empty_inode" "backed (img_block fresh_img) empty_inode"
  using fresh_bitmap fresh_free [of 0] txn.size_law [OF fresh_view]
  by (auto simp: file_ok_def disk_ok_def slots_ok_def empty_saddr backed_def inj_on_def empty_sizes)

lemma inode_block_32: "data_block (home_block 2) boot_sb (img_block fresh_img) 32"
proof -
  have "BBLOCK (of_nat c) boot_sb = 45" if "c < 1000" for c using that bitmap_block [of c boot_sb] by (simp add: boot_sb_def BPB_def BSIZE_def)
  then show ?thesis using fresh_free [of 32]
    by (auto simp: data_block_def boot_sb_def home_block_def log_region_def LOGSIZE_def MAXOPBLOCKS_def)
qed

lemma fresh_room: "2 \<le> card (free_set boot_sb (img_block fresh_img))"
proof -
  have "{46, 47} \<subseteq> free_set boot_sb (img_block fresh_img)" using fresh_free [of 46] fresh_free [of 47] by (simp add: free_set_def boot_sb_def)
  from card_mono [OF finite_free this] show ?thesis by simp
qed

theorem writei_readi_witness:
  "\<exists>t u. writei 0 (SVar [104, 105]) 0 2 empty_file = Ok 2 t \<and> readi 0 DVar 0 2 t = Ok (2, [104, 105]) u"
proof -
  have v: "txn_view (Suc 0) 1 2 (img_block fresh_img) 29 (img_block fresh_img) {} {} empty_file"
    using fresh_view by (simp add: empty_file_def view_inodes)
  have s: "inodes empty_file 0 = empty_inode" "i_dev empty_inode = 1" "sb empty_file = boot_sb" by (simp_all add: empty_file_def empty_inode_def)
  have k: "32 = IBLOCK (i_inum empty_inode) boot_sb" by (simp add: empty_inode_def IBLOCK_def IPB_def BSIZE_def boot_sb_def)
  have o: "\<not> owns (img_block fresh_img) empty_inode 32" by (auto simp: owns_def empty_saddr)
  have sp: "spans (unat (0 :: uint)) (unat (2 :: uint)) = 1" by (simp add: spans_def BSIZE_def)
  have n: "(0 :: uint) \<le> i_size empty_inode" "unat (0 :: uint) + unat (2 :: uint) \<le> MAXFILE * BSIZE" "(0 :: uint) < 2"
    "unat (2 :: uint) = length [104 :: uchar, 105]" by (simp_all add: MAXFILE_def BSIZE_def NDIRECT_def NINDIRECT_def)
  show ?thesis
    using writei_readi [OF v s(1,2), unfolded s(3), OF empty_ok k inode_block_32 o n, unfolded sp] fresh_room by auto
qed

end
