(* ===== verification/Spec2Isabelle.thy ===== *)
theory Spec2Isabelle
  imports Consprops Pipeprops Txn Umalloc Filters Shellprops Grind Xargs Primes Mkfsprops Fsfile
begin

text \<open>
  A model of xv6 for RISC-V: the kernel (\<^verbatim>\<open>src/kernel\<close>), the user library, shell and programs (\<^verbatim>\<open>src/user\<close>) and the
  program that builds the file system image (\<^verbatim>\<open>src/mkfs\<close>), with the theorems that make its parts correct.

  \<^bold>\<open>How kernel code is modelled.\<close> A C function of the kernel is a function from the kernel state to an outcome (\<open>Prelude\<close>):
  \<open>Ok\<close> with a value and the new state, \<open>Panic\<close> with the message, \<open>Blocked\<close> when it gives up the CPU in \<^verbatim>\<open>sched\<close>, \<open>Hang\<close> when it
  spins for ever. \<open>bnd\<close>, \<open>thn\<close>, \<open>for_each\<close> and \<open>for_until\<close> compose such functions the way C statements and loops do. The state is
  one record; each component's theory extends it with the variables of that component, so the code of a component
  runs in every later state. Integers are words of their C width and wrap; addresses are 64-bit words; memory is a
  function from addresses to bytes, so that aliasing, page tables in memory and the free list threaded through pages
  are as in the code. Code that follows a \<^verbatim>\<open>sleep\<close> or a \<^verbatim>\<open>swtch\<close> is a definition of its own, named \<open>_resume\<close>. One hart runs
  at a time in such a state; races between harts are step relations over the shared words (\<open>spin_step\<close>, \<open>wsys_step\<close>).

  \<^bold>\<open>How user programs are modelled.\<close> A program is a tree of system calls (\<open>User\<close>): a node is a call with its arguments, its
  branches are what the program does for each answer of the kernel. Both the parent and the child are branches of a
  \<^verbatim>\<open>fork\<close>. \<open>urun\<close> runs a tree against a kernel given as a function; \<open>output_kernel\<close> is the contract of a kernel that records
  what is written.

  \<^bold>\<open>The kernel's theories, and the source they model.\<close>
  \<^item> \<open>Machine\<close>: \<^verbatim>\<open>riscv.h\<close>, \<^verbatim>\<open>memlayout.h\<close>, \<^verbatim>\<open>param.h\<close>, the per-CPU part of \<^verbatim>\<open>proc.h\<close>. \<open>Spinlock\<close>: \<^verbatim>\<open>spinlock.c\<close>; mutual exclusion
    between any number of harts by an inductive invariant, nesting of \<^verbatim>\<open>push_off\<close>, all the panics.
  \<^item> \<open>Sched\<close>, \<open>Proc\<close>: \<^verbatim>\<open>proc.c\<close>. The scheduler picks the first runnable process; \<^verbatim>\<open>sleep\<close> and \<^verbatim>\<open>wakeup\<close> lose no wakeup, as a step
    relation over two harts with its invariant. \<open>Sleeplock\<close>: \<^verbatim>\<open>sleeplock.c\<close>.
  \<^item> \<open>Memory\<close>: \<^verbatim>\<open>string.c\<close>. \<open>Kalloc\<close>: \<^verbatim>\<open>kalloc.c\<close>; the locale \<open>page_allocator\<close> is what the rest of the kernel relies on, and its
    interpretation on \<open>kalloc\<close> and \<open>kfree\<close> gives that no page is handed out twice or lost.
  \<^item> \<open>Vm\<close>: \<^verbatim>\<open>vm.c\<close>. \<open>Pagetable\<close> views the page-table pages in memory as trees, \<open>Uvm\<close> and \<open>Ucopy\<close> show what mapping, growing and
    copying do to the map from virtual pages to entries, \<open>Vmprops\<close> holds the properties.
  \<^item> \<open>Virtio\<close>: \<^verbatim>\<open>virtio_disk.c\<close>; \<open>Diskprops\<close>: a transfer moves one block, for any device that serves the request at the end of the
    available ring. \<open>Bio\<close>: \<^verbatim>\<open>bio.c\<close>; \<open>Bcache\<close>: the cache refines a map from block numbers to contents. \<open>Log\<close>: \<^verbatim>\<open>log.c\<close>;
    \<open>Logprops\<close> proves recovery over the laws of the locale \<open>block_cache\<close>, which \<open>Txn\<close> discharges for the buffer cache and the
    disk driver together: a transaction is atomic whatever the moment of a crash.
  \<^item> \<open>Fs\<close>, \<open>Dir\<close>: \<^verbatim>\<open>fs.c\<close>; \<open>Dinode\<close> has the encoding of inodes, and \<open>Fsblocks\<close> shows block allocation over the locale \<open>txn_blocks\<close>, what
    the file system relies on of the log; over the same contract \<open>Fsfile\<close> shows that \<^verbatim>\<open>writei\<close> and \<^verbatim>\<open>readi\<close> keep a file as a
    sequence of bytes, in direct and indirect blocks, apart from every other file. \<open>Console\<close>: \<^verbatim>\<open>uart.c\<close>, \<^verbatim>\<open>console.c\<close>, \<^verbatim>\<open>printf.c\<close>, with \<open>Consprops\<close>. \<open>File\<close>: \<^verbatim>\<open>file.c\<close>, \<^verbatim>\<open>pipe.c\<close>; \<open>Ring\<close> is the
    contract of a bounded queue, and \<open>Pipeprops\<close> interprets it on the pipe's buffer and follows reads and writes on every
    branch. \<open>Exec\<close>: \<^verbatim>\<open>exec.c\<close>, the argument half of \<^verbatim>\<open>syscall.c\<close>. \<open>Sysfile\<close>: \<^verbatim>\<open>sysfile.c\<close>. \<open>Trap\<close>: \<^verbatim>\<open>sysproc.c\<close>, \<^verbatim>\<open>syscall.c\<close>, \<^verbatim>\<open>trap.c\<close>,
    \<^verbatim>\<open>plic.c\<close>, \<^verbatim>\<open>start.c\<close>, \<^verbatim>\<open>main.c\<close>. \<open>Boot\<close> has a concrete state of the whole kernel, the input of many witnesses.

  \<^bold>\<open>The user level.\<close>
  \<^item> \<open>User\<close>: \<^verbatim>\<open>ulib.c\<close>, \<^verbatim>\<open>printf.c\<close>, the system calls of \<^verbatim>\<open>user.h\<close>. \<open>Umalloc\<close>: \<^verbatim>\<open>umalloc.c\<close>, safe for every history of calls.
  \<^item> \<open>Grep\<close>, \<open>Filters\<close>: \<^verbatim>\<open>grep.c\<close>, \<^verbatim>\<open>cat.c\<close>, \<^verbatim>\<open>echo.c\<close>, \<^verbatim>\<open>wc.c\<close>; the matcher decides the language of its pattern, and the results do not
    depend on how the kernel cuts the input into reads.
  \<^item> \<open>Shell\<close>, \<open>Shellprops\<close>: \<^verbatim>\<open>sh.c\<close>; the parser comes to an end on every line, and reads a printed command back.
  \<^item> \<open>Programs\<close>, \<open>Xargs\<close>, \<open>Primes\<close>, \<open>Grind\<close>: the other programs, with what \<^verbatim>\<open>xargs\<close> passes on and the random numbers of \<^verbatim>\<open>grind\<close>.
  \<^item> \<open>Mkfs\<close>: \<^verbatim>\<open>mkfs.c\<close>; \<open>Mkimage\<close> has the invariant of the image while files are appended, \<open>Mkfsprops\<close> shows that the image is a
    well-formed file system where the kernel's own decoding functions look for its parts.

  \<^bold>\<open>Fuel.\<close> Loops whose end depends on the data recurse on a number that is enough by the lemma that uses it: the
  shell's parser gets a fuel linear in the length of the line, and \<open>parsecmd_returns\<close> shows that it never runs out; the kernel's string loops
  are \<open>partial_function (option)\<close> or bounded by the length argument. Loops that the environment prolongs (a spin on a
  lock, a program that reads until the kernel reports the end of the input) take a fuel that the theorems about them
  bound by the length of the input, and answer \<open>Hang\<close> or \<open>UHang\<close> when it runs out.

  \<^bold>\<open>Parameters.\<close> The disk is a function in the state that answers requests, with the law \<open>Diskprops\<close> names; the UART's registers
  are streams; \<^verbatim>\<open>is_number\<close>, which \<^verbatim>\<open>user.h\<close> declares and no file defines, is an argument of \<open>sleep_main\<close>.

  \<^bold>\<open>Not modelled.\<close> Assembly (\<^verbatim>\<open>entry.S\<close>, \<^verbatim>\<open>swtch.S\<close>, \<^verbatim>\<open>trampoline.S\<close>, \<^verbatim>\<open>kernelvec.S\<close>, \<^verbatim>\<open>initcode.S\<close>, what \<^verbatim>\<open>usys.pl\<close> prints) and the linker
  script: the model takes their effect at the C interface, saved registers in the trap frame and the switch to another
  stack. \<^verbatim>\<open>ramdisk.c\<close> is not built and refers to a member \<^verbatim>\<open>struct buf\<close> does not have. \<^verbatim>\<open>defs.h\<close>, \<^verbatim>\<open>types.h\<close> and \<^verbatim>\<open>date.h\<close> are prototypes
  and type names. Caches, memory ordering and the timing of devices are below the model. \<^verbatim>\<open>Makefile\<close> and the grading
  scripts do not run in the system.
\<close>

end
